(* ===== verification/Prelude.thy ===== *)
theory Prelude
  imports Main "HOL-Library.AList" "HOL-Library.Multiset"
begin

text \<open>
  Shared vocabulary of the development.

  \<^item> \<open>('k, 'v) hmap\<close> models Rust's \<open>HashMap\<close>: an association list whose order stands for
    the map's unspecified iteration order; \<open>hm_get\<close>, \<open>hm_insert\<close>, \<open>hm_remove\<close> and
    \<open>hm_push\<close> (the idiom \<open>entry(k).or_default().push(v)\<close>) are the operations the code uses.
  \<^item> A locale \<open>map_impl\<close> states what a map promises; the association-list operations
    interpret it and the components use the resulting facts.
  \<^item> Generic facts on lists, counting and reachability that several components use.
\<close>

named_theorems hm_simps \<open>lookup after each map operation\<close>
named_theorems hm_dom_simps \<open>the key set after each map operation\<close>

section \<open>Hash maps\<close>

type_synonym ('k, 'v) hmap = "('k \<times> 'v) list"

definition hm_empty :: "('k, 'v) hmap" where
  "hm_empty = []"

definition hm_get :: "('k, 'v) hmap \<Rightarrow> 'k \<Rightarrow> 'v option" where
  "hm_get m = map_of m"

definition hm_contains :: "('k, 'v) hmap \<Rightarrow> 'k \<Rightarrow> bool" where
  "hm_contains m k \<longleftrightarrow> hm_get m k \<noteq> None"

definition hm_insert :: "('k, 'v) hmap \<Rightarrow> 'k \<Rightarrow> 'v \<Rightarrow> ('k, 'v) hmap" where
  "hm_insert m k v = AList.update k v m"

definition hm_remove :: "('k, 'v) hmap \<Rightarrow> 'k \<Rightarrow> ('k, 'v) hmap" where
  "hm_remove m k = AList.delete k m"

definition hm_get_or :: "('k, 'v) hmap \<Rightarrow> 'k \<Rightarrow> 'v \<Rightarrow> 'v" where
  "hm_get_or m k d = (case hm_get m k of None \<Rightarrow> d | Some v \<Rightarrow> v)"

definition hm_push :: "('k, 'v list) hmap \<Rightarrow> 'k \<Rightarrow> 'v \<Rightarrow> ('k, 'v list) hmap" where
  "hm_push m k v = hm_insert m k (hm_get_or m k [] @ [v])"

definition hm_keys :: "('k, 'v) hmap \<Rightarrow> 'k list" where
  "hm_keys m = map fst m"

definition hm_wf :: "('k, 'v) hmap \<Rightarrow> bool" where
  "hm_wf m \<longleftrightarrow> distinct (map fst m)"

subsection \<open>What a map promises\<close>

locale map_impl =
  fixes empty :: 'm
    and lookup :: "'m \<Rightarrow> 'k \<Rightarrow> 'v option"
    and insert :: "'m \<Rightarrow> 'k \<Rightarrow> 'v \<Rightarrow> 'm"
    and remove :: "'m \<Rightarrow> 'k \<Rightarrow> 'm"
  assumes lookup_empty: "lookup empty k = None"
    and lookup_insert: "lookup (insert m k v) = (lookup m)(k \<mapsto> v)"
    and lookup_remove: "lookup (remove m k) = (lookup m)(k := None)"
begin

lemma get_after_insert: "lookup (insert m k v) k = Some v"
  by (simp add: lookup_insert)

lemma get_other_after_insert: "j \<noteq> k \<Longrightarrow> lookup (insert m k v) j = lookup m j"
  by (simp add: lookup_insert)

lemma get_after_remove: "lookup (remove m k) k = None"
  by (simp add: lookup_remove)

lemma get_other_after_remove: "j \<noteq> k \<Longrightarrow> lookup (remove m k) j = lookup m j"
  by (simp add: lookup_remove)

lemma dom_insert: "dom (lookup (insert m k v)) = Set.insert k (dom (lookup m))"
  by (simp add: lookup_insert)

lemma dom_remove: "dom (lookup (remove m k)) = dom (lookup m) - {k}"
  by (simp add: lookup_remove)

lemma lookup_foldl_insert_notin:
  "k \<notin> set ks \<Longrightarrow> lookup (foldl (\<lambda>m k. insert m k (f k)) m ks) k = lookup m k"
  by (induction ks arbitrary: m) (auto simp: lookup_insert)

end

interpretation hm: map_impl hm_empty hm_get hm_insert hm_remove
  by unfold_locales (simp_all add: hm_empty_def hm_get_def hm_insert_def hm_remove_def
      update_conv delete_conv fun_eq_iff map_of_delete)

lemmas hm_lookup [hm_simps, simp] = hm.lookup_empty hm.lookup_insert hm.lookup_remove
lemmas hm_doms [hm_dom_simps, simp] = hm.dom_insert hm.dom_remove

lemma hm_get_empty_fun [simp]: "hm_get hm_empty = Map.empty"
  by (simp add: fun_eq_iff)

lemma hm_get_Nil [simp]: "hm_get [] k = None"
  by (simp add: hm_get_def)

lemma hm_get_Cons [simp]: "hm_get ((a, v) # m) k = (if a = k then Some v else hm_get m k)"
  by (simp add: hm_get_def)

lemma finite_dom_hm_get [simp]: "finite (dom (hm_get m))"
  by (simp add: hm_get_def finite_dom_map_of)

lemma hm_keys_dom: "set (hm_keys m) = dom (hm_get m)"
  by (simp add: hm_keys_def hm_get_def dom_map_of_conv_image_fst)

lemma hm_get_push [hm_simps, simp]:
  "hm_get (hm_push m k v) = (hm_get m)(k \<mapsto> hm_get_or m k [] @ [v])"
  by (simp add: hm_push_def)

lemma hm_get_or_push [simp]:
  "hm_get_or (hm_push m k v) j [] = (if j = k then hm_get_or m k [] @ [v] else hm_get_or m j [])"
  by (simp add: hm_get_or_def)

lemma hm_get_or_empty [simp]: "hm_get_or hm_empty k d = d"
  by (simp add: hm_get_or_def)

lemma hm_get_or_insert [simp]:
  "hm_get_or (hm_insert m k v) j d = (if j = k then v else hm_get_or m j d)"
  by (simp add: hm_get_or_def)

lemma in_hm_get_or: "a \<in> set (hm_get_or m k []) \<longleftrightarrow> (\<exists>vs. hm_get m k = Some vs \<and> a \<in> set vs)"
  by (cases "hm_get m k") (auto simp: hm_get_or_def)

lemma hm_get_or_values: "set (hm_get_or m k []) \<subseteq> \<Union> (set ` snd ` set m)"
proof (cases "hm_get m k")
  case (Some vs)
  then have "(k, vs) \<in> set m" by (simp add: hm_get_def map_of_SomeD)
  with Some show ?thesis by (force simp: hm_get_or_def)
qed (simp add: hm_get_or_def)

lemma hm_wf_empty [simp]: "hm_wf hm_empty"
  by (simp add: hm_wf_def hm_empty_def)

lemma hm_wf_insert [simp]: "hm_wf m \<Longrightarrow> hm_wf (hm_insert m k v)"
  by (simp add: hm_wf_def hm_insert_def distinct_update)

lemma hm_wf_remove [simp]: "hm_wf m \<Longrightarrow> hm_wf (hm_remove m k)"
  by (simp add: hm_wf_def hm_remove_def distinct_delete)

lemma hm_wf_push [simp]: "hm_wf m \<Longrightarrow> hm_wf (hm_push m k v)"
  by (simp add: hm_push_def)

lemma hm_get_iff: "hm_wf m \<Longrightarrow> hm_get m k = Some v \<longleftrightarrow> (k, v) \<in> set m"
  by (simp add: hm_wf_def hm_get_def)

text \<open>Pushing under a list of keys: each key gains one copy per occurrence.\<close>

lemma hm_get_or_push_all:
  "hm_get_or (foldl (\<lambda>m k. hm_push m k v) m ks) j [] = hm_get_or m j [] @ replicate (count_list ks j) v"
  by (induction ks arbitrary: m) (auto simp: replicate_append_same)

lemma hm_get_push_all:
  "hm_get (foldl (\<lambda>m k. hm_push m k v) m ks) j =
     (if j \<in> set ks then Some (hm_get_or m j [] @ replicate (count_list ks j) v) else hm_get m j)"
  by (induction ks arbitrary: m) (auto simp: count_list_0_iff replicate_append_same)

lemma hm_wf_push_all: "hm_wf m \<Longrightarrow> hm_wf (foldl (\<lambda>m k. hm_push m k v) m ks)"
  by (induction ks arbitrary: m) auto

section \<open>Lists\<close>

lemma count_list_eq_filter: "count_list xs x = length (filter ((=) x) xs)"
  by (induction xs) auto

lemma map_const_filter: "map (\<lambda>_. c) (filter P xs) = replicate (length (filter P xs)) c"
  by (induction xs) auto

lemma in_map_filter: "q \<in> set (List.map_filter f xs) \<longleftrightarrow> (\<exists>x \<in> set xs. f x = Some q)"
  by (induction xs) (auto simp: List.map_filter_simps split: option.splits)

lemma count_list_filter:
  "count_list (filter P xs) x = (if P x then count_list xs x else 0)"
  by (induction xs) auto

text \<open>A set closed under a relation holds everything reachable from its members.\<close>

lemma closed_rtrancl:
  assumes "(a, b) \<in> r\<^sup>*" and "a \<in> S" and "\<And>x y. x \<in> S \<Longrightarrow> (x, y) \<in> r \<Longrightarrow> y \<in> S"
  shows "b \<in> S"
  using assms by (induction rule: rtrancl_induct) auto

text \<open>In a finite non-empty set whose members all have a predecessor inside it there is a cycle.\<close>

lemma finite_no_source_cyclic:
  assumes "finite S" and "S \<noteq> {}" and pred: "\<And>x. x \<in> S \<Longrightarrow> \<exists>y \<in> S. (y, x) \<in> r"
  shows "\<not> acyclic (r \<inter> S \<times> S)"
proof
  assume "acyclic (r \<inter> S \<times> S)"
  moreover have "finite (r \<inter> S \<times> S)"
    using assms(1) by (meson finite_Int finite_SigmaI)
  ultimately have "wf (r \<inter> S \<times> S)"
    by (simp add: finite_acyclic_wf)
  with assms(2) obtain z where "z \<in> S" and "\<And>y. (y, z) \<in> r \<inter> S \<times> S \<Longrightarrow> y \<notin> S"
    by (meson all_not_in_conv wfE_min)
  with pred show False by blast
qed

section \<open>Loops with early return\<close>

text \<open>A loop whose body may return an error: \<open>for x in xs { body(&mut s, x)? }\<close>.\<close>

fun fold_err :: "('s \<Rightarrow> 'a \<Rightarrow> 'e + 's) \<Rightarrow> 's \<Rightarrow> 'a list \<Rightarrow> 'e + 's" where
  "fold_err f s [] = Inr s"
| "fold_err f s (x # xs) = (case f s x of Inl e \<Rightarrow> Inl e | Inr s' \<Rightarrow> fold_err f s' xs)"

lemma hm_get_or_all: "list_all (\<lambda>e. P (snd e)) m \<Longrightarrow> P d \<Longrightarrow> P (hm_get_or m k d)"
  by (cases "map_of m k") (force simp: hm_get_or_def hm_get_def list_all_iff dest: map_of_SomeD)+

lemma find_SomeD: "find P xs = Some x \<Longrightarrow> x \<in> set xs \<and> P x"
  by (metis find_Some_iff nth_mem)

definition bind_err :: "'e + 'a \<Rightarrow> ('a \<Rightarrow> 'e + 'b) \<Rightarrow> 'e + 'b" where
  "bind_err m f = (case m of Inl e \<Rightarrow> Inl e | Inr x \<Rightarrow> f x)"

lemma bind_err_simps [simp]: "bind_err (Inl e) f = Inl e" "bind_err (Inr x) f = f x"
  by (simp_all add: bind_err_def)

lemma bind_err_Inr: "bind_err m f = Inr y \<longleftrightarrow> (\<exists>x. m = Inr x \<and> f x = Inr y)"
  by (cases m) auto

lemma fold_err_append:
  "fold_err f s (xs @ ys) = (case fold_err f s xs of Inl e \<Rightarrow> Inl e | Inr s' \<Rightarrow> fold_err f s' ys)"
  by (induction xs arbitrary: s) (auto split: sum.splits)

lemma fold_err_invariant:
  assumes "fold_err f s xs = Inr s'" and "P s"
    and "\<And>s x s'. x \<in> set xs \<Longrightarrow> P s \<Longrightarrow> f s x = Inr s' \<Longrightarrow> P s'"
  shows "P s'"
  using assms by (induction f s xs rule: fold_err.induct) (auto split: sum.splits)

lemma fold_err_relation:
  assumes "fold_err f s xs = Inr s'"
    and "\<And>s. R s s" and "\<And>a b c. R a b \<Longrightarrow> R b c \<Longrightarrow> R a c"
    and "\<And>s x s'. x \<in> set xs \<Longrightarrow> f s x = Inr s' \<Longrightarrow> R s s'"
  shows "R s s'"
  by (rule fold_err_invariant [OF assms(1), of "R s"]) (use assms(2-4) in blast)+

text \<open>Each round of a completed loop ran, between states related to its ends.\<close>

lemma fold_err_member:
  assumes "fold_err f s xs = Inr s'" and "x \<in> set xs"
    and "\<And>s. R s s" and "\<And>a b c. R a b \<Longrightarrow> R b c \<Longrightarrow> R a c"
    and "\<And>s x s'. x \<in> set xs \<Longrightarrow> f s x = Inr s' \<Longrightarrow> R s s'"
  shows "\<exists>u v. R s u \<and> f u x = Inr v \<and> R v s'"
  using assms(1,2,5)
proof (induction xs arbitrary: s)
  case (Cons y ys)
  from Cons.prems(1) obtain t where t: "f s y = Inr t" and rest: "fold_err f t ys = Inr s'"
    by (auto split: sum.splits)
  have st: "R s t" using t Cons.prems(3) [of y s t] by simp
  show ?case
  proof (cases "x = y")
    case True
    have "R t s'"
    proof (rule fold_err_relation [OF rest assms(3)])
      show "R a b \<Longrightarrow> R b c \<Longrightarrow> R a c" for a b c by (rule assms(4))
      show "z \<in> set ys \<Longrightarrow> f u z = Inr v \<Longrightarrow> R u v" for u z v using Cons.prems(3) [of z u v] by simp
    qed
    with True t assms(3) show ?thesis by blast
  next
    case False
    with Cons.prems(2) have "x \<in> set ys" by simp
    moreover have "z \<in> set ys \<Longrightarrow> f a z = Inr b \<Longrightarrow> R a b" for a z b using Cons.prems(3) [of z a b] by simp
    ultimately obtain u v where "R t u" "f u x = Inr v" "R v s'" using Cons.IH [OF rest] by blast
    with st assms(4) show ?thesis by blast
  qed
qed simp

section \<open>Decimal rendering\<close>

definition digit_char :: "nat \<Rightarrow> char" where
  "digit_char d = char_of (48 + d)"

fun show_nat :: "nat \<Rightarrow> string" where
  "show_nat n = (if n < 10 then [digit_char n] else show_nat (n div 10) @ [digit_char (n mod 10)])"

declare show_nat.simps [simp del]

definition digits_value :: "string \<Rightarrow> nat" where
  "digits_value = foldl (\<lambda>n c. n * 10 + (of_char c - 48)) 0"

lemma of_digit_char: "d < 10 \<Longrightarrow> of_char (digit_char d) = 48 + d"
  by (simp add: digit_char_def)

lemma digits_value_show: "digits_value (show_nat n) = n"
proof (induction n rule: show_nat.induct)
  case (1 n)
  then show ?case
    by (subst show_nat.simps) (simp add: digits_value_def of_digit_char)
qed

end
