(* ===== verification/Kahn.thy ===== *)
theory Kahn
  imports Prelude
begin

text \<open>
  The Kahn core \<open>kahn_sort\<close> of \<open>src/src/dag/src/dep_graph.rs\<close>, which the dependency graph's
  \<open>topo_sort_inner\<close> and the resolver's \<open>plan_from_set\<close> share, and the edge-recording step both
  callers perform before they call it.

  A \<open>usize\<close> degree is a \<open>nat\<close>; the decrement of a zero degree, which panics in the source, is
  the value \<open>None\<close>, as is the \<open>unwrap\<close> of a missing degree in the edge-recording step. The queue
  vector with its \<open>head\<close> index is kept as its two parts: the emitted prefix \<open>order\<close> and the
  sorted remainder.

  The locale \<open>topo_planner\<close> states what a planner promises; both callers interpret it.
\<close>

section \<open>The model\<close>

text \<open>Recording one edge: \<open>adj.entry(p).or_default().push(n); *in_degree.get_mut(n).unwrap() += 1\<close>.\<close>

type_synonym 'k edge_state = "('k, 'k list) hmap \<times> ('k, nat) hmap"

fun add_edges :: "('k \<times> 'k) list \<Rightarrow> 'k edge_state \<Rightarrow> 'k edge_state option" where
  "add_edges [] s = Some s"
| "add_edges ((p, n) # es) (adj, deg) =
     (case hm_get deg n of
        None \<Rightarrow> None
      | Some d \<Rightarrow> add_edges es (hm_push adj p n, hm_insert deg n (d + 1)))"

text \<open>The inner loop over the dependents of the node just emitted.\<close>

fun kahn_relax :: "'k::linorder list \<Rightarrow> 'k list \<Rightarrow> ('k, nat) hmap \<Rightarrow> ('k list \<times> ('k, nat) hmap) option" where
  "kahn_relax [] pend deg = Some (pend, deg)"
| "kahn_relax (d # ds) pend deg =
     (case hm_get deg d of
        None \<Rightarrow> kahn_relax ds pend deg
      | Some n \<Rightarrow>
          if n = 0 then None
          else kahn_relax ds (if n - 1 = 0 then sort (pend @ [d]) else pend) (hm_insert deg d (n - 1)))"

definition deg_sum :: "('k, nat) hmap \<Rightarrow> nat" where
  "deg_sum deg = sum_list (map snd deg)"

lemma deg_sum_dec:
  "hm_get deg d = Some n \<Longrightarrow> 0 < n \<Longrightarrow> Suc (deg_sum (hm_insert deg d (n - 1))) = deg_sum deg"
  by (induction deg) (auto simp: deg_sum_def hm_insert_def hm_get_def split: if_splits)

lemma kahn_relax_measure:
  "kahn_relax ds pend deg = Some (pend', deg') \<Longrightarrow>
     deg_sum deg' + length pend' \<le> deg_sum deg + length pend"
proof (induction ds pend deg rule: kahn_relax.induct)
  case (2 d ds pend deg)
  show ?case
  proof (cases "hm_get deg d")
    case None
    with 2 show ?thesis by simp
  next
    case (Some n)
    with "2.prems" have "n \<noteq> 0" by (auto split: if_splits)
    with Some 2 deg_sum_dec [of deg d n] show ?thesis by (fastforce split: if_splits)
  qed
qed simp

function kahn_loop :: "('k::linorder, 'k list) hmap \<Rightarrow> 'k list \<Rightarrow> 'k list \<Rightarrow> ('k, nat) hmap \<Rightarrow> 'k list option" where
  "kahn_loop adj order [] deg = Some order"
| "kahn_loop adj order (c # pend) deg =
     (case kahn_relax (hm_get_or adj c []) pend deg of
        None \<Rightarrow> None
      | Some (pend', deg') \<Rightarrow> kahn_loop adj (order @ [c]) pend' deg')"
  by pat_completeness auto
termination
  by (relation "measure (\<lambda>(adj, order, pend, deg). deg_sum deg + length pend)")
    (auto dest!: kahn_relax_measure)

text \<open>\<open>Ok(order)\<close> is \<open>Inr\<close>, \<open>Err(partial)\<close> is \<open>Inl\<close>; \<open>None\<close> is the panic on underflow.\<close>

definition kahn_sort :: "('k::linorder, nat) hmap \<Rightarrow> ('k, 'k list) hmap \<Rightarrow> nat \<Rightarrow> ('k list + 'k list) option" where
  "kahn_sort in_degree adj n_total =
     (case kahn_loop adj [] (sort (map fst (filter (\<lambda>(k, d). d = 0) in_degree))) in_degree of
        None \<Rightarrow> None
      | Some order \<Rightarrow> Some (if length order \<noteq> n_total then Inl order else Inr order))"

section \<open>Topological orders\<close>

text \<open>Every predecessor of a listed node stands before it.\<close>

definition topo_ok :: "('k \<times> 'k) set \<Rightarrow> 'k list \<Rightarrow> bool" where
  "topo_ok E xs \<longleftrightarrow> (\<forall>i < length xs. \<forall>p. (p, xs ! i) \<in> E \<longrightarrow> p \<in> set (take i xs))"

lemma topo_ok_Nil [simp]: "topo_ok E []"
  by (simp add: topo_ok_def)

lemma topo_ok_snoc:
  "topo_ok E (xs @ [x]) \<longleftrightarrow> topo_ok E xs \<and> (\<forall>p. (p, x) \<in> E \<longrightarrow> p \<in> set xs)"
  by (auto simp: topo_ok_def nth_append less_Suc_eq all_conj_distrib)

lemma topo_ok_append_before:
  assumes "topo_ok E (xs @ x # ys)" and "(p, x) \<in> E"
  shows "p \<in> set xs"
proof -
  have "length xs < length (xs @ x # ys)" by simp
  with assms(1) have "(p, (xs @ x # ys) ! length xs) \<in> E \<longrightarrow> p \<in> set (take (length xs) (xs @ x # ys))"
    unfolding topo_ok_def by blast
  with assms(2) show ?thesis by simp
qed

lemma topo_ok_rtrancl_prefix:
  assumes topo: "topo_ok E (xs @ ys)" and "(p, x) \<in> E\<^sup>*" and "x \<in> set xs"
  shows "p \<in> set xs"
  using assms(2,3)
proof (induction rule: converse_rtrancl_induct)
  case (step y z)
  then obtain us vs where xs: "xs = us @ z # vs"
    by (meson split_list)
  with topo step.hyps(1) have "y \<in> set us"
    by (auto intro: topo_ok_append_before)
  with xs show ?case by simp
qed simp

lemma topo_ok_acyclic:
  assumes "topo_ok E xs" and "distinct xs" and range: "snd ` E \<subseteq> set xs"
  shows "acyclic E"
proof (rule acyclicI, intro allI notI)
  fix x assume cyc: "(x, x) \<in> E\<^sup>+"
  then obtain y where yx: "(y, x) \<in> E" and xy: "(x, y) \<in> E\<^sup>*"
    by (metis tranclD2)
  with range have "x \<in> set xs" by force
  then obtain us vs where xs: "xs = us @ x # vs" by (meson split_list)
  with assms(1) yx have "y \<in> set us"
    by (auto intro: topo_ok_append_before)
  with xy assms(1) xs have "x \<in> set us"
    by (auto intro: topo_ok_rtrancl_prefix)
  with xs assms(2) show False by simp
qed

section \<open>Correctness of the loop\<close>

text \<open>
  \<open>E\<close> is read off the adjacency lists. The invariant of the loop: a key's degree counts its
  edges from nodes not yet emitted, and is zero exactly for the emitted and the queued keys.
\<close>

definition adj_rel :: "('k, 'k list) hmap \<Rightarrow> 'k set \<Rightarrow> ('k \<times> 'k) set" where
  "adj_rel adj K = {(p, n). p \<in> K \<and> n \<in> K \<and> n \<in> set (hm_get_or adj p [])}"

definition in_count :: "('k, 'k list) hmap \<Rightarrow> 'k set \<Rightarrow> 'k \<Rightarrow> nat" where
  "in_count adj P k = (\<Sum>p \<in> P. count_list (hm_get_or adj p []) k)"

definition deg_matches :: "('k, 'k list) hmap \<Rightarrow> ('k, nat) hmap \<Rightarrow> bool" where
  "deg_matches adj deg \<longleftrightarrow> hm_wf deg \<and>
     (\<forall>k \<in> dom (hm_get deg). hm_get deg k = Some (in_count adj (dom (hm_get deg)) k))"

definition relax_inv :: "('k, 'k list) hmap \<Rightarrow> 'k set \<Rightarrow> 'k list \<Rightarrow> 'k list \<Rightarrow> 'k::linorder list \<Rightarrow> ('k, nat) hmap \<Rightarrow> bool" where
  "relax_inv adj K order todo pend deg \<longleftrightarrow>
     finite K \<and> set (order @ pend) \<subseteq> K \<and> distinct (order @ pend) \<and>
     (\<forall>k. hm_get deg k = (if k \<in> K then Some (in_count adj (K - set order) k + count_list todo k) else None)) \<and>
     (\<forall>k \<in> K. in_count adj (K - set order) k + count_list todo k = 0 \<longleftrightarrow> k \<in> set (order @ pend))"

lemma relax_invI:
  assumes "finite K" and "set (order @ pend) \<subseteq> K" and "distinct (order @ pend)"
    and "\<And>k. hm_get deg k = (if k \<in> K then Some (in_count adj (K - set order) k + count_list todo k) else None)"
    and "\<And>k. k \<in> K \<Longrightarrow> in_count adj (K - set order) k + count_list todo k = 0 \<longleftrightarrow> k \<in> set (order @ pend)"
  shows "relax_inv adj K order todo pend deg"
  using assms by (simp add: relax_inv_def)

lemma relax_invD:
  assumes "relax_inv adj K order todo pend deg"
  shows "finite K" and "set (order @ pend) \<subseteq> K" and "distinct (order @ pend)"
    and "hm_get deg k = (if k \<in> K then Some (in_count adj (K - set order) k + count_list todo k) else None)"
    and "k \<in> K \<Longrightarrow> in_count adj (K - set order) k + count_list todo k = 0 \<longleftrightarrow> k \<in> set (order @ pend)"
  using assms by (simp_all add: relax_inv_def)

lemma relax_inv_step:
  assumes inv: "relax_inv adj K order (d # ds) pend deg" and get: "hm_get deg d = Some n"
  shows "0 < n"
    and "relax_inv adj K order ds (if n - 1 = 0 then sort (pend @ [d]) else pend) (hm_insert deg d (n - 1))"
proof -
  note D = relax_invD [OF inv]
  from D(4) [of d] get have dK: "d \<in> K" and n: "n = Suc (in_count adj (K - set order) d + count_list ds d)"
    by (auto split: if_splits)
  then show "0 < n" by simp
  from D(5) [OF dK] have fresh: "d \<notin> set (order @ pend)" by simp
  show "relax_inv adj K order ds (if n - 1 = 0 then sort (pend @ [d]) else pend) (hm_insert deg d (n - 1))"
  proof (rule relax_invI)
    show "k \<in> K \<Longrightarrow> in_count adj (K - set order) k + count_list ds k = 0 \<longleftrightarrow>
        k \<in> set (order @ (if n - 1 = 0 then sort (pend @ [d]) else pend))" for k
      using D(5) [of k] n fresh by (auto split: if_splits)
  qed (use D dK n fresh in auto)
qed

lemma kahn_relax_total:
  "relax_inv adj K order ds pend deg \<Longrightarrow>
     \<exists>pend' deg'. kahn_relax ds pend deg = Some (pend', deg') \<and> relax_inv adj K order [] pend' deg'"
proof (induction ds arbitrary: pend deg)
  case (Cons d ds)
  show ?case
  proof (cases "hm_get deg d")
    case None
    with relax_invD(4) [OF Cons.prems, of d] have "d \<notin> K" by (auto split: if_splits)
    then have "count_list (d # ds) k = count_list ds k" if "k \<in> K" for k using that by auto
    with relax_invD [OF Cons.prems] have "relax_inv adj K order ds pend deg"
      by (intro relax_invI) auto
    with None Cons.IH show ?thesis by simp
  next
    case (Some n)
    note step = relax_inv_step [OF Cons.prems Some]
    from Cons.IH [OF step(2)] Some step(1) show ?thesis by simp
  qed
qed simp

text \<open>Emitting the head of the queue moves its edges from the degrees to the list being relaxed.\<close>

lemma in_count_remove:
  "finite P \<Longrightarrow> c \<in> P \<Longrightarrow> in_count adj P k = count_list (hm_get_or adj c []) k + in_count adj (P - {c}) k"
  by (simp add: in_count_def sum.remove)

lemma relax_inv_emit:
  assumes "relax_inv adj K order [] (c # pend) deg"
  shows "relax_inv adj K (order @ [c]) (hm_get_or adj c []) pend deg"
proof -
  from assms have c: "c \<in> K - set order" and fin: "finite (K - set order)"
    by (auto simp: relax_inv_def)
  have "K - set (order @ [c]) = (K - set order) - {c}" by auto
  with in_count_remove [OF fin c, of adj] have
    "in_count adj (K - set (order @ [c])) k + count_list (hm_get_or adj c []) k = in_count adj (K - set order) k" for k
    by simp
  with relax_invD [OF assms] show ?thesis
    by (intro relax_invI) auto
qed

lemma relax_inv_emit_preds:
  assumes "relax_inv adj K order [] (c # pend) deg" and "(p, c) \<in> adj_rel adj K"
  shows "p \<in> set order"
proof (rule ccontr)
  assume "p \<notin> set order"
  with assms have p: "p \<in> K - set order" and fin: "finite (K - set order)"
    by (auto simp: relax_inv_def adj_rel_def)
  from relax_invD(2) [OF assms(1)] relax_invD(5) [OF assms(1), of c] have "in_count adj (K - set order) c = 0"
    by simp
  with in_count_remove [OF fin p, of adj c] have "count_list (hm_get_or adj p []) c = 0" by simp
  with assms(2) show False by (simp add: adj_rel_def count_list_0_iff)
qed

lemma kahn_loop_correct:
  assumes "relax_inv adj K order [] pend deg" and "topo_ok (adj_rel adj K) order"
  shows "\<exists>xs deg'. kahn_loop adj order pend deg = Some xs \<and>
           relax_inv adj K xs [] [] deg' \<and> topo_ok (adj_rel adj K) xs"
  using assms
proof (induction adj order pend deg rule: kahn_loop.induct)
  case (2 adj order c pend deg)
  obtain pend' deg' where
    relax: "kahn_relax (hm_get_or adj c []) pend deg = Some (pend', deg')" and
    inv: "relax_inv adj K (order @ [c]) [] pend' deg'"
    using kahn_relax_total [OF relax_inv_emit [OF "2.prems"(1)]] by blast
  have "topo_ok (adj_rel adj K) (order @ [c])"
    using "2.prems" relax_inv_emit_preds [OF "2.prems"(1)] by (simp add: topo_ok_snoc)
  with "2.IH" relax inv show ?case by simp
qed auto

lemma relax_inv_init:
  assumes "deg_matches adj deg"
  shows "relax_inv adj (dom (hm_get deg)) [] [] (sort (map fst (filter (\<lambda>(k, d). d = 0) deg))) deg"
proof -
  from assms have d: "distinct (map fst deg)" by (simp add: deg_matches_def hm_wf_def)
  then have "distinct (map fst (filter (\<lambda>(k, d). d = 0) deg))"
    by (induction deg) auto
  moreover have "k \<in> set (map fst (filter (\<lambda>(k, d). d = 0) deg)) \<longleftrightarrow> hm_get deg k = Some 0" for k
    using d by (force simp: hm_get_def)
  ultimately show ?thesis
    using assms by (intro relax_invI) (auto simp: deg_matches_def)
qed

text \<open>The core never panics, and its prefix is complete exactly when the graph has no cycle.\<close>

theorem kahn_sort_total:
  assumes "deg_matches adj deg"
  obtains xs deg' where
    "kahn_sort deg adj n = Some (if length xs \<noteq> n then Inl xs else Inr xs)" and
    "relax_inv adj (dom (hm_get deg)) xs [] [] deg'" and
    "topo_ok (adj_rel adj (dom (hm_get deg))) xs"
  using kahn_loop_correct [OF relax_inv_init [OF assms] topo_ok_Nil]
  by (auto simp: kahn_sort_def)

lemma relax_inv_done_cyclic:
  assumes inv: "relax_inv adj K xs [] [] deg" and "set xs \<noteq> K"
  shows "\<not> acyclic (adj_rel adj K)"
proof -
  let ?R = "K - set xs"
  from assms have fin: "finite ?R" and ne: "?R \<noteq> {}" by (auto simp: relax_inv_def)
  have "\<exists>p \<in> ?R. (p, x) \<in> adj_rel adj K" if "x \<in> ?R" for x
  proof -
    from that relax_invD(5) [OF inv, of x] have "in_count adj ?R x \<noteq> 0" by simp
    then have "\<not> (\<forall>p \<in> ?R. count_list (hm_get_or adj p []) x = 0)"
      by (rule contrapos_nn) (simp add: in_count_def)
    then obtain p where "p \<in> ?R" and "count_list (hm_get_or adj p []) x \<noteq> 0" by blast
    with that show ?thesis by (auto simp: adj_rel_def count_list_0_iff)
  qed
  from finite_no_source_cyclic [OF fin ne this] show ?thesis
    by (meson acyclic_subset inf_le1)
qed

section \<open>From an edge list to an order\<close>

text \<open>
  What both callers do once they have collected their edges: start every key at degree zero,
  record the edges, run the core with the number of keys as the expected total.
\<close>

definition kahn_run :: "'k::linorder list \<Rightarrow> ('k \<times> 'k) list \<Rightarrow> ('k list + 'k list) option" where
  "kahn_run ks es =
     (case add_edges es (hm_empty, map (\<lambda>k. (k, 0)) ks) of
        None \<Rightarrow> None
      | Some (adj, deg) \<Rightarrow> kahn_sort deg adj (length ks))"

lemma hm_keys_insert_present:
  "k \<in> dom (hm_get m) \<Longrightarrow> hm_keys (hm_insert m k v) = hm_keys m"
  by (auto simp: hm_keys_def hm_insert_def hm_get_def update_keys dom_map_of_conv_image_fst)

lemma hm_get_init: "hm_get (map (\<lambda>k. (k, v)) ks) k = (if k \<in> set ks then Some v else None)"
  by (induction ks) auto

lemma add_edges_total:
  "snd ` set es \<subseteq> dom (hm_get deg) \<Longrightarrow>
     \<exists>adj' deg'. add_edges es (adj, deg) = Some (adj', deg') \<and> hm_keys deg' = hm_keys deg \<and>
       (\<forall>p. hm_get_or adj' p [] = hm_get_or adj p [] @ map snd (filter (\<lambda>e. fst e = p) es)) \<and>
       (\<forall>n. hm_get deg' n = map_option (\<lambda>d. d + count_list (map snd es) n) (hm_get deg n))"
proof (induction es arbitrary: adj deg)
  case Nil
  then show ?case by (simp add: option.map_ident)
next
  case (Cons e es)
  obtain p n where e: "e = (p, n)" by (cases e)
  from Cons.prems e obtain d where d: "hm_get deg n = Some d" by auto
  then have keys: "hm_keys (hm_insert deg n (d + 1)) = hm_keys deg"
    by (auto intro: hm_keys_insert_present)
  from Cons.prems have "snd ` set es \<subseteq> dom (hm_get (hm_insert deg n (d + 1)))" by auto
  from Cons.IH [OF this, of "hm_push adj p n"] obtain adj' deg' where
    ih: "add_edges es (hm_push adj p n, hm_insert deg n (d + 1)) = Some (adj', deg')"
      "hm_keys deg' = hm_keys (hm_insert deg n (d + 1))"
      "\<forall>q. hm_get_or adj' q [] = hm_get_or (hm_push adj p n) q [] @ map snd (filter (\<lambda>e. fst e = q) es)"
      "\<forall>m. hm_get deg' m = map_option (\<lambda>d. d + count_list (map snd es) m) (hm_get (hm_insert deg n (d + 1)) m)"
    by blast
  from d e ih keys show ?case by (auto simp: fun_eq_iff)
qed

lemma in_count_edges:
  assumes "finite K" and "fst ` set es \<subseteq> K"
    and "\<And>p. hm_get_or adj p [] = map snd (filter (\<lambda>e. fst e = p) es)"
  shows "in_count adj K n = count_list (map snd es) n"
proof -
  have "(\<Sum>p \<in> K. count_list (map snd (filter (\<lambda>e. fst e = p) es)) n) = count_list (map snd es) n"
    using assms(1,2)
  proof (induction es)
    case (Cons e es)
    have "(\<Sum>p \<in> K. count_list (map snd (filter (\<lambda>e. fst e = p) (e # es))) n) =
          (\<Sum>p \<in> K. (if p = fst e then (if snd e = n then 1 else 0) else 0) +
             count_list (map snd (filter (\<lambda>e. fst e = p) es)) n)"
      by (rule sum.cong) auto
    with Cons show ?case by (simp add: sum.distrib)
  qed simp
  with assms(3) show ?thesis by (simp add: in_count_def)
qed

lemma kahn_run_deg_matches:
  assumes "distinct ks" and "set es \<subseteq> set ks \<times> set ks"
  obtains adj deg where
    "add_edges es (hm_empty, map (\<lambda>k. (k, 0)) ks) = Some (adj, deg)"
    "deg_matches adj deg" "dom (hm_get deg) = set ks" "adj_rel adj (set ks) = set es"
proof -
  from assms(2) have "snd ` set es \<subseteq> dom (hm_get (map (\<lambda>k. (k, 0::nat)) ks))"
    by (force simp: hm_get_init dom_def)
  from add_edges_total [OF this, of hm_empty] obtain adj deg where
    run: "add_edges es (hm_empty, map (\<lambda>k. (k, 0)) ks) = Some (adj, deg)" and
    keys: "hm_keys deg = hm_keys (map (\<lambda>k. (k, 0::nat)) ks)" and
    adj': "\<forall>p. hm_get_or adj p [] = hm_get_or hm_empty p [] @ map snd (filter (\<lambda>e. fst e = p) es)" and
    deg': "\<forall>n. hm_get deg n = map_option (\<lambda>d. d + count_list (map snd es) n) (hm_get (map (\<lambda>k. (k, 0)) ks) n)"
    by blast
  from keys have keys: "hm_keys deg = ks" by (simp add: hm_keys_def comp_def)
  from adj' have adj: "hm_get_or adj p [] = map snd (filter (\<lambda>e. fst e = p) es)" for p by simp
  from deg' have deg: "hm_get deg n = (if n \<in> set ks then Some (count_list (map snd es) n) else None)" for n
    by (simp add: hm_get_init)
  from deg have dom: "dom (hm_get deg) = set ks" by (auto split: if_splits)
  from assms(2) have "fst ` set es \<subseteq> set ks" by auto
  with in_count_edges [OF _ this adj] have "in_count adj (set ks) n = count_list (map snd es) n" for n
    by simp
  with assms(1) keys deg dom have "deg_matches adj deg"
    by (simp add: deg_matches_def hm_wf_def hm_keys_def)
  moreover from assms(2) adj have "adj_rel adj (set ks) = set es"
    by (force simp: adj_rel_def)
  ultimately show thesis using that run dom by blast
qed

lemma kahn_run_spec:
  assumes "distinct ks" and "set es \<subseteq> set ks \<times> set ks"
  obtains xs where "kahn_run ks es = Some (if acyclic (set es) then Inr xs else Inl xs)"
    and "distinct xs" and "set xs \<subseteq> set ks" and "topo_ok (set es) xs"
    and "acyclic (set es) \<longleftrightarrow> set xs = set ks"
proof -
  obtain adj deg where run: "add_edges es (hm_empty, map (\<lambda>k. (k, 0)) ks) = Some (adj, deg)"
    and dm: "deg_matches adj deg" and K: "dom (hm_get deg) = set ks" and E: "adj_rel adj (set ks) = set es"
    using kahn_run_deg_matches [OF assms] .
  obtain xs deg' where
    sort: "kahn_sort deg adj (length ks) = Some (if length xs \<noteq> length ks then Inl xs else Inr xs)" and
    inv: "relax_inv adj (set ks) xs [] [] deg'" and topo: "topo_ok (set es) xs"
    using kahn_sort_total [OF dm] K E by metis
  from inv have d: "distinct xs" and sub: "set xs \<subseteq> set ks" by (auto simp: relax_inv_def)
  have len: "length xs = length ks \<longleftrightarrow> set xs = set ks"
    using d assms(1) sub by (metis card_subset_eq distinct_card finite_set)
  have "acyclic (set es) \<longleftrightarrow> set xs = set ks"
    using relax_inv_done_cyclic [OF inv] topo_ok_acyclic [OF topo d] assms(2) E by fastforce
  with run sort d sub topo len show thesis
    by (intro that [of xs]) (simp_all add: kahn_run_def)
qed

section \<open>What a planner promises\<close>

text \<open>
  A planner orders the nodes of its input so that every edge points forward, fails exactly on
  cyclic inputs and never panics.
\<close>

locale topo_planner =
  fixes plan :: "'i \<Rightarrow> ('e + 'k list) option"
    and valid :: "'i \<Rightarrow> bool"
    and nodes_of :: "'i \<Rightarrow> 'k set"
    and edges_of :: "'i \<Rightarrow> ('k \<times> 'k) set"
  assumes plan_acyclic: "valid i \<Longrightarrow> acyclic (edges_of i) \<Longrightarrow>
      \<exists>xs. plan i = Some (Inr xs) \<and> distinct xs \<and> set xs = nodes_of i \<and> topo_ok (edges_of i) xs"
    and plan_cyclic: "valid i \<Longrightarrow> \<not> acyclic (edges_of i) \<Longrightarrow> \<exists>e. plan i = Some (Inl e)"
begin

lemma plan_no_panic: "valid i \<Longrightarrow> plan i \<noteq> None"
  using plan_acyclic plan_cyclic by (cases "acyclic (edges_of i)") fastforce+

lemma plan_ok_iff: "valid i \<Longrightarrow> (\<exists>xs. plan i = Some (Inr xs)) \<longleftrightarrow> acyclic (edges_of i)"
  using plan_acyclic plan_cyclic by (cases "acyclic (edges_of i)") fastforce+

lemma plan_sound:
  assumes "valid i" and "plan i = Some (Inr xs)"
  shows "distinct xs" and "set xs = nodes_of i" and "topo_ok (edges_of i) xs"
  using plan_acyclic [OF assms(1)] plan_cyclic [OF assms(1)] assms(2) by fastforce+

text \<open>Everything a node transitively needs is placed before it.\<close>

lemma plan_before:
  assumes "valid i" and "plan i = Some (Inr (us @ x # vs))" and "(p, x) \<in> (edges_of i)\<^sup>+"
  shows "p \<in> set us"
proof -
  note sound = plan_sound [OF assms(1,2)]
  from assms(3) obtain y where "(p, y) \<in> (edges_of i)\<^sup>*" and yx: "(y, x) \<in> edges_of i"
    by (metis tranclD2)
  moreover from sound(3) yx have "y \<in> set us" by (rule topo_ok_append_before)
  ultimately show ?thesis using sound(3) by (rule_tac topo_ok_rtrancl_prefix)
qed

end

end
