(* ===== verification/DepGraph.thy ===== *)
theory DepGraph
  imports Kahn
begin

text \<open>
  The pure dependency graph of \<open>src/src/dag/src/dep_graph.rs\<close>: nodes declare the assets they
  depend on and the assets they provide, two inverted indices are kept next to these rows, and
  the queries (transitive dependents, readiness, unresolved assets, topological orders) read
  them.

  Errors carry the keys they render instead of the rendered text. \<open>HashSet\<close>s are sets, since
  no function of this file iterates one. A \<open>Vec\<close> used as a stack is a list with its top first.
\<close>

section \<open>The model\<close>

datatype 'k graph_error =
    NodeNotFound 'k
  | CircularDependency "'k list"
  | DuplicateNode 'k

record 'k dep_graph =
  dg_nodes :: "'k list"
  dg_deps :: "('k, 'k list) hmap"
  dg_provides :: "('k, 'k list) hmap"
  dg_provides_to_dependents :: "('k, 'k list) hmap"
  dg_asset_to_providers :: "('k, 'k list) hmap"

definition dg_new :: "'k dep_graph" where
  "dg_new = \<lparr>dg_nodes = [], dg_deps = hm_empty, dg_provides = hm_empty,
     dg_provides_to_dependents = hm_empty, dg_asset_to_providers = hm_empty\<rparr>"

definition dg_register :: "'k dep_graph \<Rightarrow> 'k \<Rightarrow> 'k list \<Rightarrow> 'k list \<Rightarrow> 'k graph_error + 'k dep_graph" where
  "dg_register g node deps provides =
     (if hm_contains (dg_deps g) node then Inl (DuplicateNode node)
      else Inr \<lparr>dg_nodes = dg_nodes g @ [node],
             dg_deps = hm_insert (dg_deps g) node deps,
             dg_provides = hm_insert (dg_provides g) node provides,
             dg_provides_to_dependents =
               foldl (\<lambda>m dep. hm_push m dep node) (dg_provides_to_dependents g) deps,
             dg_asset_to_providers =
               foldl (\<lambda>m prov. hm_push m prov node) (dg_asset_to_providers g) provides\<rparr>)"

definition scrub_index :: "('k, 'k list) hmap \<Rightarrow> 'k \<Rightarrow> 'k \<Rightarrow> ('k, 'k list) hmap" where
  "scrub_index index asset node =
     (case hm_get index asset of
        None \<Rightarrow> index
      | Some members \<Rightarrow>
          let members' = filter (\<lambda>m. m \<noteq> node) members
          in if members' = [] then hm_remove index asset else hm_insert index asset members')"

definition dg_unregister :: "'k dep_graph \<Rightarrow> 'k \<Rightarrow> bool \<times> 'k dep_graph" where
  "dg_unregister g node =
     (case hm_get (dg_deps g) node of
        None \<Rightarrow> (False, g)
      | Some deps \<Rightarrow>
          let provides = hm_get_or (dg_provides g) node []
          in (True, \<lparr>dg_nodes = filter (\<lambda>n. n \<noteq> node) (dg_nodes g),
                dg_deps = hm_remove (dg_deps g) node,
                dg_provides = hm_remove (dg_provides g) node,
                dg_provides_to_dependents =
                  foldl (\<lambda>m dep. scrub_index m dep node) (dg_provides_to_dependents g) deps,
                dg_asset_to_providers =
                  foldl (\<lambda>m prov. scrub_index m prov node) (dg_asset_to_providers g) provides\<rparr>))"

text \<open>
  The two nested loops every traversal runs: the dependents met through the assets a node
  provides, and the providers met through the assets a node depends on, in the order of the
  source's loops.
\<close>

definition dependents_via :: "'k dep_graph \<Rightarrow> 'k \<Rightarrow> 'k list" where
  "dependents_via g node =
     (case hm_get (dg_provides g) node of
        None \<Rightarrow> []
      | Some provides \<Rightarrow> concat (map (\<lambda>a. hm_get_or (dg_provides_to_dependents g) a []) provides))"

definition providers_via :: "'k dep_graph \<Rightarrow> 'k \<Rightarrow> 'k list" where
  "providers_via g node =
     (case hm_get (dg_deps g) node of
        None \<Rightarrow> []
      | Some deps \<Rightarrow> concat (map (\<lambda>a. hm_get_or (dg_asset_to_providers g) a []) deps))"

definition dg_direct_dependents :: "'k::linorder dep_graph \<Rightarrow> 'k \<Rightarrow> 'k list" where
  "dg_direct_dependents g node =
     sort (foldl (\<lambda>out d. if d \<noteq> node \<and> d \<notin> set out then out @ [d] else out) [] (dependents_via g node))"

definition dg_contains :: "'k dep_graph \<Rightarrow> 'k \<Rightarrow> bool" where
  "dg_contains g node \<longleftrightarrow> hm_contains (dg_deps g) node"

definition dg_len :: "'k dep_graph \<Rightarrow> nat" where
  "dg_len g = length (dg_nodes g)"

definition dg_is_empty :: "'k dep_graph \<Rightarrow> bool" where
  "dg_is_empty g \<longleftrightarrow> dg_nodes g = []"

definition dg_deps_of :: "'k dep_graph \<Rightarrow> 'k \<Rightarrow> 'k list option" where
  "dg_deps_of g node = hm_get (dg_deps g) node"

definition dg_provides_of :: "'k dep_graph \<Rightarrow> 'k \<Rightarrow> 'k list option" where
  "dg_provides_of g node = hm_get (dg_provides g) node"

definition unresolved_step :: "'k dep_graph \<Rightarrow> 'k set \<times> 'k list \<Rightarrow> 'k \<Rightarrow> 'k set \<times> 'k list" where
  "unresolved_step g = (\<lambda>(seen, out) dep.
     if \<not> hm_contains (dg_asset_to_providers g) dep \<and> dep \<notin> seen
     then (insert dep seen, out @ [dep]) else (seen, out))"

definition dg_unresolved_deps :: "'k dep_graph \<Rightarrow> 'k list" where
  "dg_unresolved_deps g =
     snd (foldl (unresolved_step g) ({}, [])
       (concat (map (\<lambda>n. hm_get_or (dg_deps g) n []) (dg_nodes g))))"

subsection \<open>Transitive dependents\<close>

text \<open>The locals of \<open>dependents_of\<close>; the stack entries are \<open>(node, expanded)\<close>.\<close>

record 'k dfs_state =
  ds_result :: "'k list"
  ds_visited :: "'k set"
  ds_active :: "'k set"
  ds_enqueued :: "'k set"
  ds_stack :: "('k \<times> bool) list"

definition visit_dependent :: "'k dfs_state \<Rightarrow> 'k \<Rightarrow> 'k dfs_state" where
  "visit_dependent s d =
     (if d \<in> ds_active s then s
      else if d \<in> ds_enqueued s then s
      else s\<lparr>ds_enqueued := insert d (ds_enqueued s),
             ds_result := ds_result s @ [d],
             ds_stack := (d, False) # ds_stack s\<rparr>)"

text \<open>One turn of the \<open>while let Some((current, expanded)) = stack.last_mut()\<close> loop.\<close>

definition dfs_turn :: "'k dep_graph \<Rightarrow> 'k dfs_state \<Rightarrow> 'k dfs_state" where
  "dfs_turn g s =
     (case ds_stack s of
        [] \<Rightarrow> s
      | (current, expanded) # rest \<Rightarrow>
          if expanded then s\<lparr>ds_active := ds_active s - {current}, ds_stack := rest\<rparr>
          else if current \<in> ds_visited s then s\<lparr>ds_stack := rest\<rparr>
          else foldl visit_dependent
                 (s\<lparr>ds_stack := (current, True) # rest,
                    ds_visited := insert current (ds_visited s),
                    ds_active := insert current (ds_active s)\<rparr>)
                 (dependents_via g current))"

text \<open>Every key the index can yield: what bounds the traversal.\<close>

definition dependents_universe :: "'k dep_graph \<Rightarrow> 'k set" where
  "dependents_universe g = \<Union> (set ` snd ` set (dg_provides_to_dependents g))"

definition dfs_weight :: "'k dep_graph \<Rightarrow> 'k dfs_state \<Rightarrow> nat" where
  "dfs_weight g s =
     2 * card (dependents_universe g - ds_enqueued s) +
     sum_list (map (\<lambda>(k, expanded). if expanded then 1 else 2) (ds_stack s))"

lemma finite_dependents_universe [simp]: "finite (dependents_universe g)"
  by (auto simp: dependents_universe_def)

lemma dependents_via_universe: "set (dependents_via g node) \<subseteq> dependents_universe g"
  using hm_get_or_values [of "dg_provides_to_dependents g"]
  by (auto simp: dependents_via_def dependents_universe_def split: option.splits)

lemma visit_dependent_weight:
  "d \<in> dependents_universe g \<Longrightarrow> dfs_weight g (visit_dependent s d) \<le> dfs_weight g s"
proof -
  assume "d \<in> dependents_universe g"
  then have "card (dependents_universe g - ds_enqueued s) =
      Suc (card (dependents_universe g - insert d (ds_enqueued s)))" if "d \<notin> ds_enqueued s"
    using that by (metis DiffI Diff_insert card_Suc_Diff1 finite_Diff finite_dependents_universe)
  then show ?thesis by (auto simp: visit_dependent_def dfs_weight_def)
qed

lemma foldl_visit_weight:
  "set ds \<subseteq> dependents_universe g \<Longrightarrow> dfs_weight g (foldl visit_dependent s ds) \<le> dfs_weight g s"
proof (induction ds arbitrary: s)
  case (Cons d ds)
  then have "dfs_weight g (foldl visit_dependent (visit_dependent s d) ds) \<le> dfs_weight g (visit_dependent s d)"
    by simp
  also have "\<dots> \<le> dfs_weight g s" using Cons.prems by (simp add: visit_dependent_weight)
  finally show ?case by simp
qed simp

lemma dfs_turn_weight: "ds_stack s \<noteq> [] \<Longrightarrow> dfs_weight g (dfs_turn g s) < dfs_weight g s"
proof -
  assume "ds_stack s \<noteq> []"
  then obtain c e rest where st: "ds_stack s = (c, e) # rest" by (cases "ds_stack s") auto
  let ?s = "s\<lparr>ds_stack := (c, True) # rest, ds_visited := insert c (ds_visited s),
              ds_active := insert c (ds_active s)\<rparr>"
  have "dfs_weight g (foldl visit_dependent ?s (dependents_via g c)) \<le> dfs_weight g ?s"
    by (rule foldl_visit_weight) (rule dependents_via_universe)
  then show ?thesis
    using st by (auto simp: dfs_turn_def dfs_weight_def)
qed

function dfs_loop :: "'k dep_graph \<Rightarrow> 'k dfs_state \<Rightarrow> 'k dfs_state" where
  "dfs_loop g s = (if ds_stack s = [] then s else dfs_loop g (dfs_turn g s))"
  by pat_completeness auto
termination
  by (relation "measure (\<lambda>(g, s). dfs_weight g s)") (auto simp: dfs_turn_weight)

declare dfs_loop.simps [simp del]

definition dfs_init :: "'k \<Rightarrow> 'k dfs_state" where
  "dfs_init node = \<lparr>ds_result = [], ds_visited = {}, ds_active = {}, ds_enqueued = {node},
     ds_stack = [(node, False)]\<rparr>"

definition dg_dependents_of :: "'k dep_graph \<Rightarrow> 'k \<Rightarrow> 'k list" where
  "dg_dependents_of g node = ds_result (dfs_loop g (dfs_init node))"

subsection \<open>Readiness and topological orders\<close>

definition dg_is_ready :: "'k dep_graph \<Rightarrow> 'k \<Rightarrow> 'k set \<Rightarrow> bool" where
  "dg_is_ready g node satisfied =
     (case hm_get (dg_deps g) node of
        Some deps \<Rightarrow> list_all (\<lambda>d. d \<in> satisfied) deps
      | None \<Rightarrow> False)"

definition dg_ready_nodes :: "'k dep_graph \<Rightarrow> 'k set \<Rightarrow> 'k list" where
  "dg_ready_nodes g satisfied = filter (\<lambda>node. dg_is_ready g node satisfied) (dg_nodes g)"

definition topo_edges :: "'k dep_graph \<Rightarrow> 'k list \<Rightarrow> ('k \<times> 'k) list" where
  "topo_edges g sub =
     concat (map (\<lambda>node. map (\<lambda>p. (p, node))
       (filter (\<lambda>p. p \<noteq> node \<and> p \<in> set sub) (providers_via g node))) sub)"

definition dg_topo_sort_inner :: "'k::linorder dep_graph \<Rightarrow> 'k list \<Rightarrow> ('k graph_error + 'k list) option" where
  "dg_topo_sort_inner g sub =
     (case kahn_run sub (topo_edges g sub) of
        None \<Rightarrow> None
      | Some (Inr order) \<Rightarrow> Some (Inr order)
      | Some (Inl part) \<Rightarrow> Some (Inl (CircularDependency (filter (\<lambda>n. n \<notin> set part) sub))))"

definition dg_topo_sort :: "'k::linorder dep_graph \<Rightarrow> ('k graph_error + 'k list) option" where
  "dg_topo_sort g = dg_topo_sort_inner g (dg_nodes g)"

definition providers_universe :: "'k dep_graph \<Rightarrow> 'k set" where
  "providers_universe g = \<Union> (set ` snd ` set (dg_asset_to_providers g))"

lemma finite_providers_universe [simp]: "finite (providers_universe g)"
  by (auto simp: providers_universe_def)

lemma providers_via_universe: "set (providers_via g node) \<subseteq> providers_universe g"
  using hm_get_or_values [of "dg_asset_to_providers g"]
  by (auto simp: providers_via_def providers_universe_def split: option.splits)

text \<open>The worklist of \<open>topo_sort_from\<close>: what \<open>roots\<close> transitively need.\<close>

function needed_closure :: "'k dep_graph \<Rightarrow> 'k set \<Rightarrow> 'k list \<Rightarrow> 'k set" where
  "needed_closure g cl [] = cl"
| "needed_closure g cl (node # rest) =
     (if node \<in> cl then needed_closure g cl rest
      else needed_closure g (insert node cl)
             (rev (filter (\<lambda>p. p \<notin> insert node cl) (providers_via g node)) @ rest))"
  by pat_completeness auto
termination
proof (relation "inv_image (finite_psubset <*lex*> less_than)
    (\<lambda>(g, cl, todo). (providers_universe g \<union> set todo - cl, length todo))", goal_cases)
  case 1
  show ?case by (intro wf_inv_image wf_lex_prod wf_finite_psubset wf_less_than)
next
  case (2 g cl node rest)
  then show ?case by (auto simp: finite_psubset_def)
next
  case (3 g cl node rest)
  with providers_via_universe [of g node] show ?case by (auto simp: finite_psubset_def)
qed

definition dg_topo_sort_from :: "'k::linorder dep_graph \<Rightarrow> 'k list \<Rightarrow> ('k graph_error + 'k list) option" where
  "dg_topo_sort_from g roots =
     (if roots = [] then Some (Inr [])
      else dg_topo_sort_inner g (filter (\<lambda>n. n \<in> needed_closure g {} (rev roots)) (dg_nodes g)))"

section \<open>The graph invariant\<close>

text \<open>
  Both inverted indices are determined by the rows: under an asset stand the nodes whose row
  names it, once per occurrence and in registration order, and no asset has an empty entry.
\<close>

definition index_row :: "'k list \<Rightarrow> ('k, 'k list) hmap \<Rightarrow> 'k \<Rightarrow> 'k list" where
  "index_row ns rows a = concat (map (\<lambda>n. replicate (count_list (hm_get_or rows n []) a) n) ns)"

definition nonempty :: "'a list \<Rightarrow> 'a list option" where
  "nonempty xs = (if xs = [] then None else Some xs)"

definition dg_wf :: "'k dep_graph \<Rightarrow> bool" where
  "dg_wf g \<longleftrightarrow> distinct (dg_nodes g) \<and>
     dom (hm_get (dg_deps g)) = set (dg_nodes g) \<and>
     dom (hm_get (dg_provides g)) = set (dg_nodes g) \<and>
     (\<forall>a. hm_get (dg_provides_to_dependents g) a = nonempty (index_row (dg_nodes g) (dg_deps g) a)) \<and>
     (\<forall>a. hm_get (dg_asset_to_providers g) a = nonempty (index_row (dg_nodes g) (dg_provides g) a))"

lemma nonempty_Nil [simp]: "nonempty [] = None"
  by (simp add: nonempty_def)

lemma index_row_append [simp]: "index_row (ms @ ns) rows a = index_row ms rows a @ index_row ns rows a"
  by (simp add: index_row_def)

lemma index_row_single [simp]: "index_row [n] rows a = replicate (count_list (hm_get_or rows n []) a) n"
  by (simp add: index_row_def)

lemma set_index_row: "set (index_row ns rows a) = {n \<in> set ns. a \<in> set (hm_get_or rows n [])}"
  by (auto simp: index_row_def count_list_0_iff)

lemma index_row_cong:
  "(\<And>n. n \<in> set ns \<Longrightarrow> hm_get rows n = hm_get rows' n) \<Longrightarrow> index_row ns rows a = index_row ns rows' a"
  by (simp add: index_row_def hm_get_or_def cong: map_cong)

lemma index_row_filter:
  "index_row (filter P ns) rows a = filter P (index_row ns rows a)"
  by (induction ns) (auto simp: index_row_def)

lemma hm_get_or_nonempty: "hm_get m a = nonempty xs \<Longrightarrow> hm_get_or m a [] = xs"
  by (simp add: hm_get_or_def nonempty_def split: if_splits)

lemma dg_wf_new: "dg_wf dg_new"
  by (simp add: dg_wf_def dg_new_def index_row_def)

text \<open>One index under registration: pushing the new node under each key of its row.\<close>

lemma index_push_row:
  assumes "\<And>a. hm_get idx a = nonempty (index_row ns rows a)" and "n \<notin> set ns"
  shows "hm_get (foldl (\<lambda>m k. hm_push m k n) idx ks) a =
           nonempty (index_row (ns @ [n]) (hm_insert rows n ks) a)"
proof -
  have same: "index_row ns (hm_insert rows n ks) a = index_row ns rows a"
    using assms(2) by (intro index_row_cong) auto
  have "hm_get_or idx a [] = index_row ns rows a"
    using assms(1) by (rule hm_get_or_nonempty)
  then show ?thesis
    using assms(1) [of a] same by (auto simp: hm_get_push_all nonempty_def count_list_0_iff)
qed

lemma dg_register_wf:
  assumes "dg_wf g" and "dg_register g node ds ps = Inr g'"
  shows "dg_wf g'"
proof -
  from assms have new: "node \<notin> set (dg_nodes g)"
    by (auto simp: dg_register_def dg_wf_def hm_contains_def split: if_splits)
  have g': "g' = \<lparr>dg_nodes = dg_nodes g @ [node], dg_deps = hm_insert (dg_deps g) node ds,
      dg_provides = hm_insert (dg_provides g) node ps,
      dg_provides_to_dependents = foldl (\<lambda>m dep. hm_push m dep node) (dg_provides_to_dependents g) ds,
      dg_asset_to_providers = foldl (\<lambda>m prov. hm_push m prov node) (dg_asset_to_providers g) ps\<rparr>"
    using assms(2) by (simp add: dg_register_def split: if_splits)
  from assms(1) new show ?thesis
    unfolding g' dg_wf_def
    by (simp add: index_push_row del: index_row_append)
qed

text \<open>One index under removal: scrubbing the node from each key of its row.\<close>

lemma scrub_index_get:
  assumes "\<And>a. hm_get idx a = nonempty (f a)"
  shows "hm_get (scrub_index idx k n) a = nonempty (if a = k then filter (\<lambda>m. m \<noteq> n) (f a) else f a)"
  using assms [of k] assms [of a]
  by (auto simp: scrub_index_def nonempty_def Let_def split: option.splits if_splits)

lemma scrub_all_get:
  assumes "\<And>a. hm_get idx a = nonempty (f a)"
  shows "hm_get (foldl (\<lambda>m k. scrub_index m k n) idx ks) a =
           nonempty (if a \<in> set ks then filter (\<lambda>m. m \<noteq> n) (f a) else f a)"
  using assms
proof (induction ks arbitrary: idx f)
  case (Cons k ks)
  let ?f = "\<lambda>a. if a = k then filter (\<lambda>m. m \<noteq> n) (f a) else f a"
  from Cons.prems have "\<And>a. hm_get (scrub_index idx k n) a = nonempty (?f a)"
    by (rule scrub_index_get)
  from Cons.IH [of "scrub_index idx k n" ?f, OF this] show ?case by simp
qed simp

lemma index_scrub_row:
  assumes "\<And>a. hm_get idx a = nonempty (index_row ns rows a)" and "hm_get rows n = Some ks"
  shows "hm_get (foldl (\<lambda>m k. scrub_index m k n) idx ks) a =
           nonempty (index_row (filter (\<lambda>m. m \<noteq> n) ns) (hm_remove rows n) a)"
proof -
  have "index_row (filter (\<lambda>m. m \<noteq> n) ns) (hm_remove rows n) a = index_row (filter (\<lambda>m. m \<noteq> n) ns) rows a"
    by (rule index_row_cong) auto
  moreover have "filter (\<lambda>m. m \<noteq> n) (index_row ns rows a) = index_row ns rows a" if "a \<notin> set ks"
    using that assms(2) by (auto simp: filter_id_conv set_index_row hm_get_or_def)
  ultimately show ?thesis
    by (auto simp: scrub_all_get [OF assms(1)] index_row_filter)
qed

lemma dg_unregister_wf:
  assumes "dg_wf g"
  shows "dg_wf (snd (dg_unregister g node))"
proof (cases "hm_get (dg_deps g) node")
  case None
  with assms show ?thesis by (simp add: dg_unregister_def)
next
  case (Some ds)
  with assms have "node \<in> dom (hm_get (dg_provides g))" by (auto simp: dg_wf_def)
  then obtain ps where ps: "hm_get (dg_provides g) node = Some ps" by auto
  with assms Some show ?thesis
    by (auto simp: dg_unregister_def dg_wf_def Let_def hm_get_or_def
        index_scrub_row [of _ _ "dg_deps g"] index_scrub_row [of _ _ "dg_provides g"])
qed

text \<open>The graphs a client can build.\<close>

inductive dg_reachable :: "'k dep_graph \<Rightarrow> bool" where
  dg_start: "dg_reachable dg_new"
| dg_reg: "dg_reachable g \<Longrightarrow> dg_register g node ds ps = Inr g' \<Longrightarrow> dg_reachable g'"
| dg_unreg: "dg_reachable g \<Longrightarrow> dg_unregister g node = (b, g') \<Longrightarrow> dg_reachable g'"

lemma dg_reachable_wf: "dg_reachable g \<Longrightarrow> dg_wf g"
proof (induction rule: dg_reachable.induct)
  case (dg_unreg g node b g')
  then show ?case using dg_unregister_wf [of g node] by simp
qed (auto intro: dg_wf_new dg_register_wf)

section \<open>The rows as the abstract state\<close>

text \<open>Abstractly a graph is the list of its rows \<open>(node, deps, provides)\<close>.\<close>

definition dg_rows :: "'k dep_graph \<Rightarrow> ('k \<times> 'k list \<times> 'k list) list" where
  "dg_rows g = map (\<lambda>n. (n, hm_get_or (dg_deps g) n [], hm_get_or (dg_provides g) n [])) (dg_nodes g)"

lemma dg_register_rows:
  assumes "dg_wf g" and "dg_register g node ds ps = Inr g'"
  shows "dg_rows g' = dg_rows g @ [(node, ds, ps)]"
proof -
  from assms have "node \<notin> set (dg_nodes g)"
    by (auto simp: dg_register_def dg_wf_def hm_contains_def split: if_splits)
  with assms(2) show ?thesis
    by (auto simp: dg_register_def dg_rows_def split: if_splits)
qed

lemma hm_get_or_remove [simp]:
  "hm_get_or (hm_remove m k) j d = (if j = k then d else hm_get_or m j d)"
  by (simp add: hm_get_or_def)

lemma dg_unregister_rows:
  assumes "dg_wf g" and "dg_unregister g node = (b, g')"
  shows "dg_rows g' = filter (\<lambda>r. fst r \<noteq> node) (dg_rows g)" and "b \<longleftrightarrow> node \<in> set (dg_nodes g)"
proof -
  show "b \<longleftrightarrow> node \<in> set (dg_nodes g)"
    using assms by (auto simp: dg_unregister_def dg_wf_def Let_def split: option.splits)
  show "dg_rows g' = filter (\<lambda>r. fst r \<noteq> node) (dg_rows g)"
  proof (cases "hm_get (dg_deps g) node")
    case None
    with assms(1) have "node \<notin> set (dg_nodes g)" by (auto simp: dg_wf_def)
    then have "filter (\<lambda>r. fst r \<noteq> node) (dg_rows g) = dg_rows g"
      by (auto simp: filter_id_conv dg_rows_def)
    with None assms(2) show ?thesis by (simp add: dg_unregister_def)
  next
    case (Some ds)
    with assms(2) show ?thesis
      by (auto simp: dg_unregister_def Let_def dg_rows_def filter_map comp_def)
  qed
qed

text \<open>Two well-formed graphs with the same rows answer every lookup alike.\<close>

lemma dg_rows_determine_nodes: "dg_rows g = dg_rows h \<Longrightarrow> dg_nodes g = dg_nodes h"
proof -
  assume "dg_rows g = dg_rows h"
  then have "map fst (dg_rows g) = map fst (dg_rows h)" by simp
  then show ?thesis by (simp add: dg_rows_def comp_def)
qed

lemma index_row_rows_cong:
  "(\<And>n. n \<in> set ns \<Longrightarrow> hm_get_or rows n [] = hm_get_or rows' n []) \<Longrightarrow> index_row ns rows = index_row ns rows'"
  by (simp add: index_row_def fun_eq_iff cong: map_cong)

lemma dg_rows_determine:
  assumes wf: "dg_wf g" "dg_wf h" and rows: "dg_rows g = dg_rows h"
  shows "hm_get (dg_deps g) = hm_get (dg_deps h)"
    and "hm_get (dg_provides g) = hm_get (dg_provides h)"
    and "hm_get (dg_provides_to_dependents g) = hm_get (dg_provides_to_dependents h)"
    and "hm_get (dg_asset_to_providers g) = hm_get (dg_asset_to_providers h)"
proof -
  note nodes = dg_rows_determine_nodes [OF rows]
  have eq: "hm_get_or (dg_deps g) n [] = hm_get_or (dg_deps h) n []"
      "hm_get_or (dg_provides g) n [] = hm_get_or (dg_provides h) n []" if "n \<in> set (dg_nodes h)" for n
    using rows that unfolding dg_rows_def nodes by (simp_all add: map_eq_conv)
  have "hm_get (dg_deps g) n = hm_get (dg_deps h) n \<and> hm_get (dg_provides g) n = hm_get (dg_provides h) n" for n
  proof (cases "n \<in> set (dg_nodes h)")
    case True
    with wf nodes have "n \<in> dom (hm_get (dg_deps g))" "n \<in> dom (hm_get (dg_deps h))"
      "n \<in> dom (hm_get (dg_provides g))" "n \<in> dom (hm_get (dg_provides h))"
      by (simp_all add: dg_wf_def)
    with eq [OF True] show ?thesis by (auto simp: hm_get_or_def)
  next
    case False
    with wf nodes have "n \<notin> dom (hm_get (dg_deps g))" "n \<notin> dom (hm_get (dg_deps h))"
      "n \<notin> dom (hm_get (dg_provides g))" "n \<notin> dom (hm_get (dg_provides h))"
      by (simp_all add: dg_wf_def)
    then show ?thesis by (auto simp: domIff)
  qed
  then show "hm_get (dg_deps g) = hm_get (dg_deps h)" "hm_get (dg_provides g) = hm_get (dg_provides h)"
    by (auto simp: fun_eq_iff)
  show "hm_get (dg_provides_to_dependents g) = hm_get (dg_provides_to_dependents h)"
    using wf eq(1) nodes by (simp add: dg_wf_def fun_eq_iff index_row_rows_cong [of _ "dg_deps g" "dg_deps h"])
  show "hm_get (dg_asset_to_providers g) = hm_get (dg_asset_to_providers h)"
    using wf eq(2) nodes by (simp add: dg_wf_def fun_eq_iff index_row_rows_cong [of _ "dg_provides g" "dg_provides h"])
qed

section \<open>Edges\<close>

definition feeds :: "'k dep_graph \<Rightarrow> 'k \<Rightarrow> 'k \<Rightarrow> bool" where
  "feeds g p n \<longleftrightarrow> (\<exists>a. (\<exists>ps. hm_get (dg_provides g) p = Some ps \<and> a \<in> set ps) \<and>
                       (\<exists>ds. hm_get (dg_deps g) n = Some ds \<and> a \<in> set ds))"

lemma dg_wf_index:
  assumes "dg_wf g"
  shows "set (hm_get_or (dg_provides_to_dependents g) a []) = {n. \<exists>ds. hm_get (dg_deps g) n = Some ds \<and> a \<in> set ds}"
    and "set (hm_get_or (dg_asset_to_providers g) a []) = {n. \<exists>ps. hm_get (dg_provides g) n = Some ps \<and> a \<in> set ps}"
proof -
  from assms have doms: "dom (hm_get (dg_deps g)) = set (dg_nodes g)" "dom (hm_get (dg_provides g)) = set (dg_nodes g)"
    and idx: "hm_get (dg_provides_to_dependents g) a = nonempty (index_row (dg_nodes g) (dg_deps g) a)"
      "hm_get (dg_asset_to_providers g) a = nonempty (index_row (dg_nodes g) (dg_provides g) a)"
    by (simp_all add: dg_wf_def)
  show "set (hm_get_or (dg_provides_to_dependents g) a []) = {n. \<exists>ds. hm_get (dg_deps g) n = Some ds \<and> a \<in> set ds}"
    unfolding hm_get_or_nonempty [OF idx(1)] set_index_row doms(1) [symmetric]
    by (auto simp: hm_get_or_def)
  show "set (hm_get_or (dg_asset_to_providers g) a []) = {n. \<exists>ps. hm_get (dg_provides g) n = Some ps \<and> a \<in> set ps}"
    unfolding hm_get_or_nonempty [OF idx(2)] set_index_row doms(2) [symmetric]
    by (auto simp: hm_get_or_def)
qed

lemma dependents_via_feeds: "dg_wf g \<Longrightarrow> n \<in> set (dependents_via g p) \<longleftrightarrow> feeds g p n"
  by (cases "hm_get (dg_provides g) p") (auto simp: dependents_via_def dg_wf_index feeds_def)

lemma providers_via_feeds: "dg_wf g \<Longrightarrow> p \<in> set (providers_via g n) \<longleftrightarrow> feeds g p n"
  by (cases "hm_get (dg_deps g) n") (auto simp: providers_via_def dg_wf_index feeds_def)

lemma feeds_registered:
  assumes "dg_wf g" and "feeds g p n"
  shows "p \<in> set (dg_nodes g)" and "n \<in> set (dg_nodes g)"
proof -
  from assms(2) have "p \<in> dom (hm_get (dg_provides g))" "n \<in> dom (hm_get (dg_deps g))"
    by (auto simp: feeds_def)
  with assms(1) show "p \<in> set (dg_nodes g)" "n \<in> set (dg_nodes g)" by (simp_all add: dg_wf_def)
qed

section \<open>Transitive dependents\<close>

definition via_rel :: "'k dep_graph \<Rightarrow> ('k \<times> 'k) set" where
  "via_rel g = {(a, b). b \<in> set (dependents_via g a)}"

text \<open>The inner loops append the dependents not met before, each once.\<close>

lemma foldl_visit_new:
  "ds_active s \<subseteq> ds_enqueued s \<Longrightarrow> \<exists>new. distinct new \<and> set new = set ds - ds_enqueued s \<and>
     foldl visit_dependent s ds =
       s\<lparr>ds_enqueued := ds_enqueued s \<union> set new, ds_result := ds_result s @ new,
         ds_stack := map (\<lambda>d. (d, False)) (rev new) @ ds_stack s\<rparr>"
proof (induction ds arbitrary: s)
  case Nil
  then show ?case by (intro exI [of _ "[]"]) simp
next
  case (Cons d ds)
  show ?case
  proof (cases "d \<in> ds_enqueued s")
    case True
    then have "visit_dependent s d = s" by (simp add: visit_dependent_def)
    moreover from True have "set (d # ds) - ds_enqueued s = set ds - ds_enqueued s" by auto
    ultimately show ?thesis using Cons.IH [OF Cons.prems] by simp
  next
    case False
    let ?s = "s\<lparr>ds_enqueued := insert d (ds_enqueued s), ds_result := ds_result s @ [d],
                ds_stack := (d, False) # ds_stack s\<rparr>"
    from False Cons.prems have v: "visit_dependent s d = ?s" by (auto simp: visit_dependent_def)
    from Cons.prems have "ds_active ?s \<subseteq> ds_enqueued ?s" by auto
    from Cons.IH [OF this] obtain new where
      new: "distinct new" "set new = set ds - ds_enqueued ?s" and
      fold: "foldl visit_dependent ?s ds =
         ?s\<lparr>ds_enqueued := ds_enqueued ?s \<union> set new, ds_result := ds_result ?s @ new,
            ds_stack := map (\<lambda>d. (d, False)) (rev new) @ ds_stack ?s\<rparr>"
      by blast
    from fold have "foldl visit_dependent s (d # ds) =
       s\<lparr>ds_enqueued := ds_enqueued s \<union> set (d # new), ds_result := ds_result s @ d # new,
         ds_stack := map (\<lambda>d. (d, False)) (rev (d # new)) @ ds_stack s\<rparr>"
      using v by simp
    moreover have "distinct (d # new)" "set (d # new) = set (d # ds) - ds_enqueued s"
      using new False by auto
    ultimately show ?thesis by blast
  qed
qed

definition dfs_inv :: "'k dep_graph \<Rightarrow> 'k \<Rightarrow> 'k dfs_state \<Rightarrow> bool" where
  "dfs_inv g node s \<longleftrightarrow>
     distinct (node # ds_result s) \<and> ds_enqueued s = set (node # ds_result s) \<and>
     ds_active s \<subseteq> ds_visited s \<and> ds_visited s \<subseteq> ds_enqueued s \<and>
     fst ` set (ds_stack s) \<subseteq> ds_enqueued s \<and>
     (\<forall>k \<in> ds_enqueued s. (node, k) \<in> (via_rel g)\<^sup>*) \<and>
     (\<forall>k \<in> ds_enqueued s. k \<in> ds_visited s \<or> (k, False) \<in> set (ds_stack s)) \<and>
     (\<forall>k x. k \<in> ds_visited s \<longrightarrow> x \<in> set (dependents_via g k) \<longrightarrow> x \<in> ds_enqueued s)"

lemma dfs_inv_init: "dfs_inv g node (dfs_init node)"
  by (auto simp: dfs_inv_def dfs_init_def)

lemma dfs_inv_pop:
  assumes "dfs_inv g node s" and "ds_stack s = (c, e) # rest" and "e \<or> c \<in> ds_visited s"
    and "A \<subseteq> ds_active s"
  shows "dfs_inv g node (s\<lparr>ds_active := A, ds_stack := rest\<rparr>)"
  using assms by (auto simp: dfs_inv_def)

lemma dfs_inv_expand:
  assumes inv: "dfs_inv g node s" and st: "ds_stack s = (c, False) # rest"
  shows "dfs_inv g node (foldl visit_dependent
           (s\<lparr>ds_stack := (c, True) # rest, ds_visited := insert c (ds_visited s),
              ds_active := insert c (ds_active s)\<rparr>) (dependents_via g c))"
proof -
  let ?s = "s\<lparr>ds_stack := (c, True) # rest, ds_visited := insert c (ds_visited s),
              ds_active := insert c (ds_active s)\<rparr>"
  from inv st have cE: "c \<in> ds_enqueued s" by (auto simp: dfs_inv_def)
  with inv have "ds_active ?s \<subseteq> ds_enqueued ?s" by (auto simp: dfs_inv_def)
  from foldl_visit_new [OF this, of "dependents_via g c"] obtain new where
    new: "distinct new" "set new = set (dependents_via g c) - ds_enqueued s" and
    fold: "foldl visit_dependent ?s (dependents_via g c) =
      ?s\<lparr>ds_enqueued := ds_enqueued s \<union> set new, ds_result := ds_result s @ new,
         ds_stack := map (\<lambda>d. (d, False)) (rev new) @ (c, True) # rest\<rparr>"
    by auto
  have "(node, c) \<in> (via_rel g)\<^sup>*" using inv cE by (auto simp: dfs_inv_def)
  then have reach: "(node, d) \<in> (via_rel g)\<^sup>*" if "d \<in> set new" for d
    using that new(2) by (auto simp: via_rel_def intro: rtrancl_into_rtrancl)
  show ?thesis
    unfolding fold using inv st cE new reach by (auto simp: dfs_inv_def)
qed

lemma dfs_inv_turn: "dfs_inv g node s \<Longrightarrow> dfs_inv g node (dfs_turn g s)"
  using dfs_inv_pop [of g node s _ _ _ "ds_active s - {_}"] dfs_inv_pop [of g node s _ _ _ "ds_active s"]
    dfs_inv_expand [of g node s]
  by (force simp: dfs_turn_def split: list.splits)

lemma dfs_loop_inv: "dfs_inv g node s \<Longrightarrow> dfs_inv g node (dfs_loop g s) \<and> ds_stack (dfs_loop g s) = []"
proof (induction g s rule: dfs_loop.induct)
  case (1 g s)
  then show ?case using dfs_inv_turn [of g node s] by (simp add: dfs_loop.simps [of g s])
qed

lemma dfs_inv_done:
  assumes "dfs_inv g node s" and "ds_stack s = []"
  shows "k \<in> set (ds_result s) \<longleftrightarrow> k \<noteq> node \<and> (node, k) \<in> (via_rel g)\<^sup>*" and "distinct (ds_result s)"
proof -
  from assms have closed: "y \<in> ds_enqueued s" if "x \<in> ds_enqueued s" and "(x, y) \<in> via_rel g" for x y
    using that unfolding dfs_inv_def via_rel_def by fastforce
  from assms(1) have "node \<in> ds_enqueued s" by (simp add: dfs_inv_def)
  with closed have "k \<in> ds_enqueued s" if "(node, k) \<in> (via_rel g)\<^sup>*"
    using that by (rule_tac closed_rtrancl)
  moreover from assms(1) have "k \<in> set (ds_result s) \<longleftrightarrow> k \<noteq> node \<and> k \<in> ds_enqueued s"
    and "k \<in> ds_enqueued s \<Longrightarrow> (node, k) \<in> (via_rel g)\<^sup>*"
    unfolding dfs_inv_def by auto
  ultimately show "k \<in> set (ds_result s) \<longleftrightarrow> k \<noteq> node \<and> (node, k) \<in> (via_rel g)\<^sup>*" by blast
  from assms(1) show "distinct (ds_result s)" by (simp add: dfs_inv_def)
qed

lemma dg_dependents_of_via:
  shows "k \<in> set (dg_dependents_of g node) \<longleftrightarrow> k \<noteq> node \<and> (node, k) \<in> (via_rel g)\<^sup>*"
    and "distinct (dg_dependents_of g node)"
proof -
  have "dfs_inv g node (dfs_loop g (dfs_init node))" "ds_stack (dfs_loop g (dfs_init node)) = []"
    using dfs_loop_inv [OF dfs_inv_init, of g node] by simp_all
  from dfs_inv_done [OF this] show "k \<in> set (dg_dependents_of g node) \<longleftrightarrow> k \<noteq> node \<and> (node, k) \<in> (via_rel g)\<^sup>*"
    and "distinct (dg_dependents_of g node)" by (simp_all add: dg_dependents_of_def)
qed

lemma via_rel_feeds: "dg_wf g \<Longrightarrow> via_rel g = {(p, n). feeds g p n}"
  by (simp add: via_rel_def dependents_via_feeds)

section \<open>Topological orders\<close>

lemma topo_edges_set:
  assumes "dg_wf g"
  shows "set (topo_edges g ns) = {(p, n). p \<in> set ns \<and> n \<in> set ns \<and> p \<noteq> n \<and> feeds g p n}"
  using assms by (auto simp: topo_edges_def providers_via_feeds)

lemma dg_topo_sort_inner_spec:
  assumes "distinct ns"
  shows "acyclic (set (topo_edges g ns)) \<Longrightarrow>
           \<exists>xs. dg_topo_sort_inner g ns = Some (Inr xs) \<and> distinct xs \<and> set xs = set ns \<and> topo_ok (set (topo_edges g ns)) xs"
    and "\<not> acyclic (set (topo_edges g ns)) \<Longrightarrow>
           \<exists>bad. dg_topo_sort_inner g ns = Some (Inl (CircularDependency bad)) \<and> bad \<noteq> [] \<and> set bad \<subseteq> set ns"
proof -
  have "set (topo_edges g ns) \<subseteq> set ns \<times> set ns" by (auto simp: topo_edges_def)
  with assms obtain xs where
    run: "kahn_run ns (topo_edges g ns) = Some (if acyclic (set (topo_edges g ns)) then Inr xs else Inl xs)" and
    xs: "distinct xs" "set xs \<subseteq> set ns" "topo_ok (set (topo_edges g ns)) xs"
      "acyclic (set (topo_edges g ns)) \<longleftrightarrow> set xs = set ns"
    by (rule kahn_run_spec)
  from run xs show "acyclic (set (topo_edges g ns)) \<Longrightarrow>
      \<exists>xs. dg_topo_sort_inner g ns = Some (Inr xs) \<and> distinct xs \<and> set xs = set ns \<and> topo_ok (set (topo_edges g ns)) xs"
    by (simp add: dg_topo_sort_inner_def)
  assume "\<not> acyclic (set (topo_edges g ns))"
  with run xs have "dg_topo_sort_inner g ns = Some (Inl (CircularDependency (filter (\<lambda>n. n \<notin> set xs) ns)))"
      "filter (\<lambda>n. n \<notin> set xs) ns \<noteq> []"
    by (auto simp: dg_topo_sort_inner_def filter_empty_conv)
  then show "\<exists>bad. dg_topo_sort_inner g ns = Some (Inl (CircularDependency bad)) \<and> bad \<noteq> [] \<and> set bad \<subseteq> set ns"
    by auto
qed

interpretation topo_all: topo_planner dg_topo_sort dg_wf "\<lambda>g. set (dg_nodes g)" "\<lambda>g. set (topo_edges g (dg_nodes g))"
  using dg_topo_sort_inner_spec
  by unfold_locales (fastforce simp: dg_topo_sort_def dg_wf_def)+

definition needed_nodes :: "'k dep_graph \<Rightarrow> 'k list \<Rightarrow> 'k list" where
  "needed_nodes g roots = filter (\<lambda>n. n \<in> needed_closure g {} (rev roots)) (dg_nodes g)"

lemma dg_topo_sort_from_inner:
  "roots \<noteq> [] \<Longrightarrow> dg_topo_sort_from g roots = dg_topo_sort_inner g (needed_nodes g roots)"
  by (simp add: dg_topo_sort_from_def needed_nodes_def)

lemma distinct_needed_nodes: "dg_wf g \<Longrightarrow> distinct (needed_nodes g roots)"
  by (simp add: needed_nodes_def dg_wf_def)

interpretation topo_from: topo_planner "\<lambda>(g, roots). dg_topo_sort_from g roots"
  "\<lambda>(g, roots). dg_wf g \<and> roots \<noteq> []" "\<lambda>(g, roots). set (needed_nodes g roots)"
  "\<lambda>(g, roots). set (topo_edges g (needed_nodes g roots))"
proof (unfold_locales, goal_cases)
  case (1 i)
  then show ?case
    using dg_topo_sort_inner_spec(1) [OF distinct_needed_nodes, of "fst i" "fst i" "snd i"]
    by (simp add: case_prod_beta dg_topo_sort_from_inner)
next
  case (2 i)
  then show ?case
    using dg_topo_sort_inner_spec(2) [OF distinct_needed_nodes, of "fst i" "fst i" "snd i"]
    by (auto simp: case_prod_beta dg_topo_sort_from_inner)
qed

text \<open>The worklist computes what the roots transitively need.\<close>

definition need_rel :: "'k dep_graph \<Rightarrow> ('k \<times> 'k) set" where
  "need_rel g = {(n, p). p \<in> set (providers_via g n)}"

lemma needed_closure_sound:
  "x \<in> needed_closure g cl todo \<Longrightarrow> x \<in> cl \<or> (\<exists>r \<in> set todo. (r, x) \<in> (need_rel g)\<^sup>*)"
proof (induction g cl todo rule: needed_closure.induct)
  case (2 g cl node rest)
  show ?case
  proof (cases "node \<in> cl")
    case True
    with 2 show ?thesis by auto
  next
    case False
    let ?todo = "rev (filter (\<lambda>p. p \<notin> insert node cl) (providers_via g node)) @ rest"
    from "2.IH"(2) [OF False] "2.prems" False
    consider "x = node" | "x \<in> cl" | r where "r \<in> set ?todo" "(r, x) \<in> (need_rel g)\<^sup>*" by auto
    then show ?thesis
    proof cases
      case 3
      then show ?thesis
        by (auto simp: need_rel_def intro: converse_rtrancl_into_rtrancl)
    qed auto
  qed
qed auto

lemma needed_closure_complete:
  "(\<And>n p. n \<in> cl \<Longrightarrow> (n, p) \<in> need_rel g \<Longrightarrow> p \<in> cl \<union> set todo) \<Longrightarrow>
     cl \<union> set todo \<subseteq> needed_closure g cl todo \<and>
     (\<forall>n p. n \<in> needed_closure g cl todo \<longrightarrow> (n, p) \<in> need_rel g \<longrightarrow> p \<in> needed_closure g cl todo)"
proof (induction g cl todo rule: needed_closure.induct)
  case (1 g cl)
  then show ?case by auto
next
  case (2 g cl node rest)
  show ?case
  proof (cases "node \<in> cl")
    case True
    with "2.prems" have "\<And>n p. n \<in> cl \<Longrightarrow> (n, p) \<in> need_rel g \<Longrightarrow> p \<in> cl \<union> set rest" by fastforce
    with "2.IH"(1) [OF True] True show ?thesis by auto
  next
    case False
    let ?todo = "rev (filter (\<lambda>p. p \<notin> insert node cl) (providers_via g node)) @ rest"
    have "p \<in> insert node cl \<union> set ?todo" if "n \<in> insert node cl" "(n, p) \<in> need_rel g" for n p
    proof (cases "n = node")
      case True
      with that show ?thesis by (auto simp: need_rel_def)
    next
      case False
      with that "2.prems" [of n p] show ?thesis by auto
    qed
    from "2.IH"(2) [OF False this] False show ?thesis by auto
  qed
qed

lemma needed_closure_eq: "x \<in> needed_closure g {} roots \<longleftrightarrow> (\<exists>r \<in> set roots. (r, x) \<in> (need_rel g)\<^sup>*)"
proof
  show "x \<in> needed_closure g {} roots \<Longrightarrow> \<exists>r \<in> set roots. (r, x) \<in> (need_rel g)\<^sup>*"
    using needed_closure_sound [of x g "{}" roots] by simp
  have c: "set roots \<subseteq> needed_closure g {} roots"
    "\<And>n p. n \<in> needed_closure g {} roots \<Longrightarrow> (n, p) \<in> need_rel g \<Longrightarrow> p \<in> needed_closure g {} roots"
    using needed_closure_complete [of "{}" g roots] by auto
  show "\<exists>r \<in> set roots. (r, x) \<in> (need_rel g)\<^sup>* \<Longrightarrow> x \<in> needed_closure g {} roots"
    using closed_rtrancl [of _ x "need_rel g" "needed_closure g {} roots"] c by blast
qed

section \<open>Unresolved assets, direct dependents, readiness\<close>

lemma unresolved_fold:
  "foldl (unresolved_step g) (set out, out) ds =
     (let out' = foldl (\<lambda>o' d. if \<not> hm_contains (dg_asset_to_providers g) d \<and> d \<notin> set o' then o' @ [d] else o') out ds
      in (set out', out'))"
proof (induction ds arbitrary: out)
  case (Cons d ds)
  show ?case using Cons [of out] Cons [of "out @ [d]"] by (simp add: unresolved_step_def)
qed simp

text \<open>Collecting the members of a list that satisfy a test, each once, in order of first occurrence.\<close>

lemma collect_once:
  "distinct out \<Longrightarrow>
     distinct (foldl (\<lambda>o' d. if P d \<and> d \<notin> set o' then o' @ [d] else o') out ds) \<and>
     set (foldl (\<lambda>o' d. if P d \<and> d \<notin> set o' then o' @ [d] else o') out ds) = set out \<union> {d \<in> set ds. P d}"
  by (induction ds arbitrary: out) auto

lemma dg_unresolved_deps_collect:
  "distinct (dg_unresolved_deps g) \<and>
   set (dg_unresolved_deps g) =
     {d. (\<exists>n \<in> set (dg_nodes g). d \<in> set (hm_get_or (dg_deps g) n [])) \<and> \<not> hm_contains (dg_asset_to_providers g) d}"
  using unresolved_fold [of g "[]"]
    collect_once [of "[]" "\<lambda>d. \<not> hm_contains (dg_asset_to_providers g) d"
      "concat (map (\<lambda>n. hm_get_or (dg_deps g) n []) (dg_nodes g))"]
  by (auto simp: dg_unresolved_deps_def Let_def)

lemma dg_wf_provided_iff:
  assumes "dg_wf g"
  shows "hm_contains (dg_asset_to_providers g) a \<longleftrightarrow> (\<exists>p ps. hm_get (dg_provides g) p = Some ps \<and> a \<in> set ps)"
proof -
  from assms have "hm_get (dg_asset_to_providers g) a = nonempty (index_row (dg_nodes g) (dg_provides g) a)"
    by (simp add: dg_wf_def)
  then have "hm_contains (dg_asset_to_providers g) a \<longleftrightarrow> hm_get_or (dg_asset_to_providers g) a [] \<noteq> []"
    by (simp add: hm_contains_def hm_get_or_def nonempty_def)
  also have "\<dots> \<longleftrightarrow> (\<exists>p. p \<in> set (hm_get_or (dg_asset_to_providers g) a []))"
    by (cases "hm_get_or (dg_asset_to_providers g) a []") auto
  finally show ?thesis using dg_wf_index(2) [OF assms, of a] by simp
qed

lemma dg_direct_dependents_set:
  "distinct (dg_direct_dependents g node) \<and> sorted (dg_direct_dependents g node) \<and>
   set (dg_direct_dependents g node) = set (dependents_via g node) - {node}"
  using collect_once [of "[]" "\<lambda>d. d \<noteq> node" "dependents_via g node"]
  by (auto simp: dg_direct_dependents_def)

lemma dg_wf_registered_deps: "dg_wf g \<Longrightarrow> n \<in> set (dg_nodes g) \<longleftrightarrow> (\<exists>ds. hm_get (dg_deps g) n = Some ds)"
  unfolding dg_wf_def by (metis domD domI)

section \<open>Properties\<close>

text \<open>
  C7. In every graph built by registrations and removals, \<open>dependents_of\<close> returns exactly the
  nodes other than \<open>node\<close> that depend on it directly or transitively (through assets provided by
  one node and needed by the next), each once. The traversal terminates on cyclic graphs too.
\<close>

theorem dependents_of_exact:
  assumes "dg_reachable g"
  shows "distinct (dg_dependents_of g node) \<and>
         set (dg_dependents_of g node) = {k. k \<noteq> node \<and> (node, k) \<in> {(p, n). feeds g p n}\<^sup>+}"
proof -
  have wf: "dg_wf g" using assms by (rule dg_reachable_wf)
  have "k \<in> set (dg_dependents_of g node) \<longleftrightarrow> k \<noteq> node \<and> (node, k) \<in> {(p, n). feeds g p n}\<^sup>+" for k
    unfolding dg_dependents_of_via(1) via_rel_feeds [OF wf] rtrancl_eq_or_trancl by blast
  with dg_dependents_of_via(2) [of g node] show ?thesis by blast
qed

text \<open>
  C1. \<open>topo_sort\<close> on a graph built by registrations and removals never panics. It returns an
  order exactly when no cycle runs through distinct nodes; the order lists every registered node
  once, and each node after every other node that provides an asset it depends on. Otherwise it
  reports a cycle and names at least one registered node.
\<close>

theorem topo_sort_correct:
  assumes "dg_reachable g"
  defines "E \<equiv> {(p, n). p \<noteq> n \<and> feeds g p n}"
  shows "case dg_topo_sort g of
           Some (Inr xs) \<Rightarrow> acyclic E \<and> distinct xs \<and> set xs = set (dg_nodes g) \<and> topo_ok E xs
         | Some (Inl (CircularDependency bad)) \<Rightarrow> \<not> acyclic E \<and> bad \<noteq> [] \<and> set bad \<subseteq> set (dg_nodes g)
         | _ \<Rightarrow> False"
proof -
  have wf: "dg_wf g" using assms(1) by (rule dg_reachable_wf)
  then have E: "E = set (topo_edges g (dg_nodes g))"
    using feeds_registered [OF wf] by (auto simp: E_def topo_edges_set)
  show ?thesis
  proof (cases "acyclic E")
    case True
    with topo_all.plan_acyclic [OF wf] E show ?thesis by auto
  next
    case False
    with dg_topo_sort_inner_spec(2) [of "dg_nodes g" g] wf E show ?thesis
      by (auto simp: dg_topo_sort_def dg_wf_def)
  qed
qed

text \<open>
  \<open>topo_sort_from\<close> orders exactly the registered nodes the roots transitively need (the
  roots included), every provider before its consumers.
\<close>

theorem topo_sort_from_correct:
  assumes "dg_reachable g" and "roots \<noteq> []" and "dg_topo_sort_from g roots = Some (Inr xs)"
  shows "distinct xs \<and>
         set xs = {n \<in> set (dg_nodes g). \<exists>r \<in> set roots. (n, r) \<in> {(p, n). feeds g p n}\<^sup>*} \<and>
         topo_ok {(p, n). p \<noteq> n \<and> feeds g p n \<and> n \<in> set xs} xs"
proof (intro conjI)
  have wf: "dg_wf g" using assms(1) by (rule dg_reachable_wf)
  have need: "need_rel g = {(p, n). feeds g p n}\<inverse>"
    using wf by (auto simp: need_rel_def providers_via_feeds)
  then have nodes: "set (needed_nodes g roots) =
      {n \<in> set (dg_nodes g). \<exists>r \<in> set roots. (n, r) \<in> {(p, n). feeds g p n}\<^sup>*}"
    by (auto simp: needed_nodes_def needed_closure_eq rtrancl_converse)
  note sound = topo_from.plan_sound [of "(g, roots)" xs, simplified, OF conjI, OF wf assms(2,3)]
  from sound(1) show "distinct xs" .
  from sound(2) nodes show set_xs: "set xs = {n \<in> set (dg_nodes g). \<exists>r \<in> set roots. (n, r) \<in> {(p, n). feeds g p n}\<^sup>*}"
    by simp
  have "{(p, n). p \<noteq> n \<and> feeds g p n \<and> n \<in> set xs} = set (topo_edges g (needed_nodes g roots))"
    using feeds_registered [OF wf]
    by (auto simp: topo_edges_set [OF wf] nodes set_xs intro: converse_rtrancl_into_rtrancl)
  with sound(3) show "topo_ok {(p, n). p \<noteq> n \<and> feeds g p n \<and> n \<in> set xs} xs" by simp
qed

text \<open>
  C8. The inverted indices never drift from the rows: after any sequence of registrations and
  removals, an asset's entry lists exactly the registered nodes whose declared row names it,
  in registration order, and an asset that no row names has no entry.
\<close>

theorem indices_exact:
  assumes "dg_reachable g"
  shows "hm_get (dg_provides_to_dependents g) a = nonempty (concat (map (\<lambda>(n, ds, ps). replicate (count_list ds a) n) (dg_rows g))) \<and>
         hm_get (dg_asset_to_providers g) a = nonempty (concat (map (\<lambda>(n, ds, ps). replicate (count_list ps a) n) (dg_rows g)))"
  using dg_reachable_wf [OF assms]
  by (simp_all add: dg_wf_def dg_rows_def index_row_def comp_def)

text \<open>
  C9. \<open>register\<close> and \<open>unregister\<close> implement appending and deleting a row of an ordered table
  with unique keys: registering a present node is rejected, registering an absent one appends its
  row, removing deletes exactly its row and reports whether it was there.
\<close>

theorem register_unregister_refine:
  assumes "dg_reachable g"
  shows "(case dg_register g node ds ps of
            Inl e \<Rightarrow> e = DuplicateNode node \<and> node \<in> fst ` set (dg_rows g)
          | Inr g' \<Rightarrow> node \<notin> fst ` set (dg_rows g) \<and> dg_rows g' = dg_rows g @ [(node, ds, ps)]) \<and>
         dg_rows (snd (dg_unregister g node)) = filter (\<lambda>r. fst r \<noteq> node) (dg_rows g) \<and>
         (fst (dg_unregister g node) \<longleftrightarrow> node \<in> fst ` set (dg_rows g))"
proof -
  have wf: "dg_wf g" using assms by (rule dg_reachable_wf)
  have names: "fst ` set (dg_rows g) = set (dg_nodes g)" by (force simp: dg_rows_def)
  have "hm_contains (dg_deps g) node \<longleftrightarrow> node \<in> set (dg_nodes g)"
    using dg_wf_registered_deps [OF wf, of node] by (auto simp: hm_contains_def)
  moreover have "dg_register g node ds ps = Inr g' \<Longrightarrow> dg_rows g' = dg_rows g @ [(node, ds, ps)]" for g'
    by (rule dg_register_rows [OF wf])
  moreover note dg_unregister_rows [OF wf, of node "fst (dg_unregister g node)" "snd (dg_unregister g node)"]
  ultimately show ?thesis
    using names by (auto simp: dg_register_def)
qed

text \<open>
  \<open>unresolved_deps\<close> lists, each once, exactly the assets some registered node depends on and
  no registered node provides.
\<close>

theorem unresolved_deps_exact:
  assumes "dg_reachable g"
  shows "distinct (dg_unresolved_deps g) \<and>
         set (dg_unresolved_deps g) =
           {a. (\<exists>(n, ds, ps) \<in> set (dg_rows g). a \<in> set ds) \<and> (\<forall>(n, ds, ps) \<in> set (dg_rows g). a \<notin> set ps)}"
proof -
  have wf: "dg_wf g" using assms by (rule dg_reachable_wf)
  have "hm_contains (dg_asset_to_providers g) a \<longleftrightarrow> (\<exists>n \<in> set (dg_nodes g). a \<in> set (hm_get_or (dg_provides g) n []))" for a
    using dg_wf_provided_iff [OF wf, of a] wf unfolding dg_wf_def in_hm_get_or by (metis domI)
  with dg_unresolved_deps_collect [of g] show ?thesis
    by (auto simp: dg_rows_def)
qed

text \<open>
  C10. Along a \<open>topo_sort\<close> order a node is ready, once the assets of the nodes before it are satisfied, exactly when every
  asset it depends on is provided by some other registered node. So executing the order stalls at no node but one that
  depends on an unresolved asset or on an asset that only it provides itself; in a graph with neither it never stalls.
\<close>

theorem topo_order_never_stalls:
  assumes "dg_reachable g" and "dg_topo_sort g = Some (Inr (us @ n # vs))"
  shows "(dg_is_ready g n (\<Union>p \<in> set us. set (hm_get_or (dg_provides g) p [])) \<longleftrightarrow>
      (\<forall>a \<in> set (hm_get_or (dg_deps g) n []). \<exists>p \<in> set (dg_nodes g). p \<noteq> n \<and> a \<in> set (hm_get_or (dg_provides g) p []))) \<and>
    (dg_unresolved_deps g = [] \<and> \<not> feeds g n n \<longrightarrow> dg_is_ready g n (\<Union>p \<in> set us. set (hm_get_or (dg_provides g) p [])))"
proof -
  have wf: "dg_wf g" using assms(1) by (rule dg_reachable_wf)
  note sound = topo_all.plan_sound [OF wf assms(2)]
  then have n: "n \<in> set (dg_nodes g)" and us: "set us \<subseteq> set (dg_nodes g)" "n \<notin> set us" by auto
  with wf obtain ds where ds: "hm_get (dg_deps g) n = Some ds" by (auto simp: dg_wf_registered_deps)
  have before: "p \<in> set us" if "a \<in> set ds" "p \<noteq> n" "a \<in> set (hm_get_or (dg_provides g) p [])" for p a
  proof -
    from that ds have f: "feeds g p n" by (auto simp: feeds_def in_hm_get_or)
    with that(2) feeds_registered [OF wf f] have "(p, n) \<in> set (topo_edges g (dg_nodes g))" by (auto simp: topo_edges_set [OF wf])
    with sound(3) show ?thesis by (rule topo_ok_append_before)
  qed
  have "(\<exists>p \<in> set us. a \<in> set (hm_get_or (dg_provides g) p [])) \<longleftrightarrow>
      (\<exists>p \<in> set (dg_nodes g). p \<noteq> n \<and> a \<in> set (hm_get_or (dg_provides g) p []))" if "a \<in> set ds" for a
    using before [OF that] us by (metis subsetD)
  then have ready: "dg_is_ready g n (\<Union>p \<in> set us. set (hm_get_or (dg_provides g) p [])) \<longleftrightarrow>
      (\<forall>a \<in> set ds. \<exists>p \<in> set (dg_nodes g). p \<noteq> n \<and> a \<in> set (hm_get_or (dg_provides g) p []))"
    by (simp add: dg_is_ready_def list_all_iff ds)
  have "\<exists>p \<in> set (dg_nodes g). p \<noteq> n \<and> a \<in> set (hm_get_or (dg_provides g) p [])"
    if "dg_unresolved_deps g = []" "\<not> feeds g n n" "a \<in> set ds" for a
  proof -
    from that ds n have "hm_contains (dg_asset_to_providers g) a"
      using dg_unresolved_deps_collect [of g] by (auto simp: in_hm_get_or)
    then obtain p ps where p: "hm_get (dg_provides g) p = Some ps" "a \<in> set ps" using dg_wf_provided_iff [OF wf] by blast
    with that ds have f: "feeds g p n" by (auto simp: feeds_def)
    with p that(2) feeds_registered(1) [OF wf f] show ?thesis by (auto simp: in_hm_get_or)
  qed
  with ready ds show ?thesis by (simp add: hm_get_or_def)
qed

section \<open>Witnesses\<close>

text \<open>A graph from a list of rows, and a diamond with one more node beside it.\<close>

definition dg_build :: "('k \<times> 'k list \<times> 'k list) list \<Rightarrow> 'k dep_graph" where
  "dg_build rows = foldl (\<lambda>g (n, ds, ps). case dg_register g n ds ps of Inl _ \<Rightarrow> g | Inr g' \<Rightarrow> g') dg_new rows"

lemma dg_fold_reachable:
  "dg_reachable g \<Longrightarrow>
     dg_reachable (foldl (\<lambda>g (n, ds, ps). case dg_register g n ds ps of Inl _ \<Rightarrow> g | Inr g' \<Rightarrow> g') g rows)"
proof (induction rows arbitrary: g)
  case (Cons r rows)
  obtain n ds ps where r: "r = (n, ds, ps)" by (cases r)
  show ?case
  proof (cases "dg_register g n ds ps")
    case (Inr g')
    then have "dg_reachable g'" by (rule dg_reg [OF Cons.prems])
    with Inr r show ?thesis by (simp add: Cons.IH)
  qed (use r Cons in simp)
qed simp

lemma dg_build_reachable: "dg_reachable (dg_build rows)"
  unfolding dg_build_def by (rule dg_fold_reachable) (rule dg_start)

definition diamond :: "nat dep_graph" where
  "diamond = dg_build [(4, [12, 13], []), (1, [], [11]), (2, [11], [12]), (3, [11], [13]), (5, [], [])]"

lemma diamond_reachable: "dg_reachable diamond"
  by (simp add: diamond_def dg_build_reachable)

theorem dependents_of_exact_witness:
  "dg_dependents_of diamond 1 = [2, 3, 4] \<and>
   {2, 3, 4} = {k. k \<noteq> 1 \<and> (1, k) \<in> {(p, n). feeds diamond p n}\<^sup>+}"
proof -
  have "dg_dependents_of diamond 1 = [2, 3, 4]" by code_simp
  with dependents_of_exact [OF diamond_reachable, of 1] show ?thesis by simp
qed

theorem topo_sort_correct_witness:
  "dg_topo_sort diamond = Some (Inr [1, 2, 3, 4, 5]) \<and> acyclic {(p, n). p \<noteq> n \<and> feeds diamond p n}"
proof -
  have "dg_topo_sort diamond = Some (Inr [1, 2, 3, 4, 5])" by code_simp
  with topo_sort_correct [OF diamond_reachable] show ?thesis by simp
qed

theorem topo_sort_from_correct_witness:
  "dg_topo_sort_from diamond [2] = Some (Inr [1, 2]) \<and>
   {1, 2} = {n \<in> set (dg_nodes diamond). \<exists>r \<in> {2}. (n, r) \<in> {(p, n). feeds diamond p n}\<^sup>*}"
proof -
  have run: "dg_topo_sort_from diamond [2] = Some (Inr [1, 2])" by code_simp
  with topo_sort_from_correct [OF diamond_reachable _ run] show ?thesis by simp
qed

theorem indices_exact_witness: "hm_get (dg_provides_to_dependents diamond) 11 = Some [2, 3]"
proof -
  have "nonempty (concat (map (\<lambda>(n, ds, ps). replicate (count_list ds 11) n) (dg_rows diamond))) = Some [2, 3]"
    by code_simp
  with indices_exact [OF diamond_reachable, of 11] show ?thesis by simp
qed

theorem register_unregister_refine_witness:
  "dg_rows (snd (dg_unregister diamond 4)) = [(1, [], [11]), (2, [11], [12]), (3, [11], [13]), (5, [], [])]"
proof -
  have "filter (\<lambda>r. fst r \<noteq> 4) (dg_rows diamond) = [(1, [], [11]), (2, [11], [12]), (3, [11], [13]), (5, [], [])]"
    by code_simp
  with register_unregister_refine [OF diamond_reachable, of 4 "[]" "[]"] show ?thesis by simp
qed

theorem unresolved_deps_exact_witness:
  "dg_unresolved_deps (snd (dg_unregister diamond 2)) = [12] \<and>
   distinct (dg_unresolved_deps (snd (dg_unregister diamond 2)))"
proof -
  have "dg_reachable (snd (dg_unregister diamond 2))"
    by (rule dg_unreg [OF diamond_reachable, of 2 "fst (dg_unregister diamond 2)"]) simp
  moreover have "dg_unresolved_deps (snd (dg_unregister diamond 2)) = [12]" by code_simp
  ultimately show ?thesis using unresolved_deps_exact by blast
qed

theorem topo_order_never_stalls_witness:
  "dg_is_ready diamond 4 (\<Union>p \<in> {1, 2, 3}. set (hm_get_or (dg_provides diamond) p []))"
proof -
  have sort: "dg_topo_sort diamond = Some (Inr ([1, 2, 3] @ 4 # [5]))" by code_simp
  have "hm_get (dg_provides diamond) 4 = Some []" by code_simp
  then have "dg_unresolved_deps diamond = [] \<and> \<not> feeds diamond 4 4" by (auto simp: feeds_def) code_simp
  with topo_order_never_stalls [OF diamond_reachable sort]
  have "dg_is_ready diamond 4 (\<Union>p \<in> set [1, 2, 3]. set (hm_get_or (dg_provides diamond) p []))" by blast
  then show ?thesis by simp
qed

end
