(* ===== verification/Checkpointed.thy ===== *)
theory Checkpointed
  imports DepGraph
begin

text \<open>
  The checkpointed step graph of \<open>src/src/dag/src/checkpointed.rs\<close>: an ordered set of steps
  whose readiness is answered by the dependency graph (every step provides its own key), with a
  completed set and named positions to rewind to.

  The slice \<open>order[idx..]\<close> of \<open>rewind_to\<close> panics on an index past the end: \<open>None\<close>.
\<close>

section \<open>The model\<close>

record ('k, 's) step_graph =
  sg_graph :: "'k dep_graph"
  sg_order :: "'k list"
  sg_state :: "('k, 's) hmap"
  sg_completed :: "'k set"
  sg_checkpoints :: "('k, nat) hmap"

definition sg_new :: "('k, 's) step_graph" where
  "sg_new = \<lparr>sg_graph = dg_new, sg_order = [], sg_state = hm_empty, sg_completed = {},
     sg_checkpoints = hm_empty\<rparr>"

definition sg_add_step :: "('k, 's) step_graph \<Rightarrow> 'k \<Rightarrow> 'k list \<Rightarrow> 's \<Rightarrow> 'k graph_error + ('k, 's) step_graph" where
  "sg_add_step g key deps st =
     (case dg_register (sg_graph g) key deps [key] of
        Inl e \<Rightarrow> Inl e
      | Inr gr \<Rightarrow> Inr (g\<lparr>sg_graph := gr, sg_order := sg_order g @ [key],
                       sg_state := hm_insert (sg_state g) key st\<rparr>))"

text \<open>\<open>iter().position(..)\<close>.\<close>

fun position :: "('a \<Rightarrow> bool) \<Rightarrow> 'a list \<Rightarrow> nat option" where
  "position P [] = None"
| "position P (x # xs) = (if P x then Some 0 else map_option Suc (position P xs))"

definition sg_checkpoint :: "('k, 's) step_graph \<Rightarrow> 'k \<Rightarrow> 'k graph_error + ('k, 's) step_graph" where
  "sg_checkpoint g name =
     (case position (\<lambda>k. k = name) (sg_order g) of
        None \<Rightarrow> Inl (NodeNotFound name)
      | Some idx \<Rightarrow> Inr (g\<lparr>sg_checkpoints := hm_insert (sg_checkpoints g) name idx\<rparr>))"

definition sg_complete :: "('k, 's) step_graph \<Rightarrow> 'k \<Rightarrow> ('k, 's) step_graph" where
  "sg_complete g key = g\<lparr>sg_completed := insert key (sg_completed g)\<rparr>"

definition sg_is_ready :: "('k, 's) step_graph \<Rightarrow> 'k \<Rightarrow> bool" where
  "sg_is_ready g key = dg_is_ready (sg_graph g) key (sg_completed g)"

definition sg_ready_steps :: "('k, 's) step_graph \<Rightarrow> 'k list" where
  "sg_ready_steps g = dg_ready_nodes (sg_graph g) (sg_completed g)"

definition sg_cancel_dependents :: "('k, 's) step_graph \<Rightarrow> 'k \<Rightarrow> 'k list" where
  "sg_cancel_dependents g key = dg_dependents_of (sg_graph g) key"

definition sg_rewind_to :: "('k, 's) step_graph \<Rightarrow> 'k \<Rightarrow> ('k graph_error + ('k list \<times> ('k, 's) step_graph)) option" where
  "sg_rewind_to g name =
     (case hm_get (sg_checkpoints g) name of
        None \<Rightarrow> Some (Inl (NodeNotFound name))
      | Some idx \<Rightarrow>
          if length (sg_order g) < idx then None
          else let reset = drop idx (sg_order g)
               in Some (Inr (reset, g\<lparr>sg_checkpoints := hm_remove (sg_checkpoints g) name,
                                     sg_completed := foldl (\<lambda>c k. c - {k}) (sg_completed g) reset\<rparr>)))"

definition sg_status :: "('k, 's) step_graph \<Rightarrow> 'k \<Rightarrow> 's option" where
  "sg_status g key = hm_get (sg_state g) key"

text \<open>Writing through the reference \<open>state_mut\<close> hands out.\<close>

definition sg_set_state :: "('k, 's) step_graph \<Rightarrow> 'k \<Rightarrow> 's \<Rightarrow> ('k, 's) step_graph" where
  "sg_set_state g key st = g\<lparr>sg_state := hm_insert (sg_state g) key st\<rparr>"

definition sg_is_completed :: "('k, 's) step_graph \<Rightarrow> 'k \<Rightarrow> bool" where
  "sg_is_completed g key \<longleftrightarrow> key \<in> sg_completed g"

definition sg_is_checkpoint :: "('k, 's) step_graph \<Rightarrow> 'k \<Rightarrow> bool" where
  "sg_is_checkpoint g key \<longleftrightarrow> hm_contains (sg_checkpoints g) key"

definition sg_step_count :: "('k, 's) step_graph \<Rightarrow> nat" where
  "sg_step_count g = length (sg_order g)"

definition sg_completed_count :: "('k, 's) step_graph \<Rightarrow> nat" where
  "sg_completed_count g = card (sg_completed g)"

definition sg_is_empty :: "('k, 's) step_graph \<Rightarrow> bool" where
  "sg_is_empty g \<longleftrightarrow> sg_order g = []"

definition sg_unresolved_deps :: "('k, 's) step_graph \<Rightarrow> 'k list" where
  "sg_unresolved_deps g = dg_unresolved_deps (sg_graph g)"

section \<open>Invariant\<close>

definition sg_wf :: "('k, 's) step_graph \<Rightarrow> bool" where
  "sg_wf g \<longleftrightarrow> dg_reachable (sg_graph g) \<and> dg_nodes (sg_graph g) = sg_order g \<and>
     dom (hm_get (sg_state g)) = set (sg_order g) \<and>
     (\<forall>n \<in> set (sg_order g). hm_get (dg_provides (sg_graph g)) n = Some [n]) \<and>
     (\<forall>name idx. hm_get (sg_checkpoints g) name = Some idx \<longrightarrow> idx < length (sg_order g) \<and> sg_order g ! idx = name)"

lemma position_Some: "position P xs = Some i \<Longrightarrow> i < length xs \<and> P (xs ! i) \<and> (\<forall>j < i. \<not> P (xs ! j))"
proof (induction xs arbitrary: i)
  case (Cons x xs)
  then show ?case by (auto split: if_splits simp: nth_Cons' less_Suc_eq_0_disj)
qed simp

lemma position_None: "position P xs = None \<longleftrightarrow> (\<forall>x \<in> set xs. \<not> P x)"
  by (induction xs) auto

lemma foldl_remove: "foldl (\<lambda>c k. c - {k}) C ks = C - set ks"
  by (induction ks arbitrary: C) auto

lemma sg_wf_new: "sg_wf sg_new"
  by (simp add: sg_wf_def sg_new_def dg_start) (simp add: dg_new_def)

lemma sg_add_step_wf:
  assumes "sg_wf g" and "sg_add_step g key deps st = Inr g'"
  shows "sg_wf g'"
proof -
  from assms(2) obtain gr where gr: "dg_register (sg_graph g) key deps [key] = Inr gr"
    and g': "g' = g\<lparr>sg_graph := gr, sg_order := sg_order g @ [key], sg_state := hm_insert (sg_state g) key st\<rparr>"
    by (auto simp: sg_add_step_def split: sum.splits)
  from assms(1) have "dg_reachable (sg_graph g)" by (simp add: sg_wf_def)
  then have "dg_reachable gr" using gr by (rule dg_reg)
  moreover from gr have "dg_nodes gr = dg_nodes (sg_graph g) @ [key]"
      "dg_provides gr = hm_insert (dg_provides (sg_graph g)) key [key]"
    by (auto simp: dg_register_def split: if_splits)
  ultimately show ?thesis
    using assms(1) unfolding g' sg_wf_def by (auto simp: nth_append intro: less_SucI)
qed

lemma sg_checkpoint_wf:
  assumes "sg_wf g" and "sg_checkpoint g name = Inr g'"
  shows "sg_wf g'"
proof -
  from assms(2) obtain idx where pos: "position (\<lambda>k. k = name) (sg_order g) = Some idx"
    and g': "g' = g\<lparr>sg_checkpoints := hm_insert (sg_checkpoints g) name idx\<rparr>"
    by (auto simp: sg_checkpoint_def split: option.splits)
  from position_Some [OF pos] assms(1) show ?thesis
    unfolding g' sg_wf_def by auto
qed

lemma sg_complete_wf: "sg_wf g \<Longrightarrow> sg_wf (sg_complete g key)"
  by (simp add: sg_wf_def sg_complete_def)

lemma sg_set_state_wf: "sg_wf g \<Longrightarrow> key \<in> set (sg_order g) \<Longrightarrow> sg_wf (sg_set_state g key st)"
  by (auto simp: sg_wf_def sg_set_state_def)

lemma sg_rewind_total:
  assumes "sg_wf g"
  shows "sg_rewind_to g name =
    (case hm_get (sg_checkpoints g) name of
       None \<Rightarrow> Some (Inl (NodeNotFound name))
     | Some idx \<Rightarrow> Some (Inr (drop idx (sg_order g),
         g\<lparr>sg_checkpoints := hm_remove (sg_checkpoints g) name,
           sg_completed := sg_completed g - set (drop idx (sg_order g))\<rparr>)))"
proof (cases "hm_get (sg_checkpoints g) name")
  case (Some idx)
  with assms have "idx < length (sg_order g)" by (auto simp: sg_wf_def)
  with Some show ?thesis by (simp add: sg_rewind_to_def foldl_remove Let_def)
qed (simp add: sg_rewind_to_def)

lemma sg_rewind_wf:
  assumes "sg_wf g" and "sg_rewind_to g name = Some (Inr (reset, g'))"
  shows "sg_wf g'"
proof -
  from assms obtain idx where g': "g' = g\<lparr>sg_checkpoints := hm_remove (sg_checkpoints g) name,
      sg_completed := sg_completed g - set (drop idx (sg_order g))\<rparr>"
    by (auto simp: sg_rewind_total split: option.splits)
  from assms(1) show ?thesis unfolding g' sg_wf_def by simp
qed

text \<open>The step graphs a client can reach.\<close>

inductive sg_reachable :: "('k, 's) step_graph \<Rightarrow> bool" where
  sg_start: "sg_reachable sg_new"
| sg_add: "sg_reachable g \<Longrightarrow> sg_add_step g key deps st = Inr g' \<Longrightarrow> sg_reachable g'"
| sg_check: "sg_reachable g \<Longrightarrow> sg_checkpoint g name = Inr g' \<Longrightarrow> sg_reachable g'"
| sg_compl: "sg_reachable g \<Longrightarrow> sg_reachable (sg_complete g key)"
| sg_write: "sg_reachable g \<Longrightarrow> sg_status g key \<noteq> None \<Longrightarrow> sg_reachable (sg_set_state g key st)"
| sg_rew: "sg_reachable g \<Longrightarrow> sg_rewind_to g name = Some (Inr (reset, g')) \<Longrightarrow> sg_reachable g'"

lemma sg_reachable_wf: "sg_reachable g \<Longrightarrow> sg_wf g"
proof (induction rule: sg_reachable.induct)
  case (sg_write g key st)
  then have "key \<in> set (sg_order g)" by (auto simp: sg_status_def sg_wf_def)
  with sg_write.IH show ?case by (rule sg_set_state_wf)
qed (auto intro: sg_wf_new sg_add_step_wf sg_checkpoint_wf sg_complete_wf sg_rewind_wf)

lemma sg_wf_feeds:
  assumes "sg_wf g"
  shows "feeds (sg_graph g) p n \<longleftrightarrow> (\<exists>ds. hm_get (dg_deps (sg_graph g)) n = Some ds \<and> p \<in> set ds) \<and> p \<in> set (sg_order g)"
proof -
  from assms have wf: "dg_wf (sg_graph g)" by (auto simp: sg_wf_def intro: dg_reachable_wf)
  from assms have prov: "hm_get (dg_provides (sg_graph g)) p = (if p \<in> set (sg_order g) then Some [p] else None)"
    using wf by (auto simp: sg_wf_def dg_wf_def domIff)
  then show ?thesis by (auto simp: feeds_def)
qed

section \<open>Properties\<close>

text \<open>
  C11. In every reachable step graph \<open>rewind_to\<close> never panics and succeeds exactly on recorded
  checkpoints. It returns the insertion-order suffix that starts at the named step, takes exactly
  that suffix out of the completed set, clears the marker, and leaves the order, the step states
  and the graph alone.
\<close>

theorem rewind_exact:
  assumes "sg_reachable g"
  shows "case sg_rewind_to g name of
           None \<Rightarrow> False
         | Some (Inl e) \<Rightarrow> e = NodeNotFound name \<and> \<not> sg_is_checkpoint g name
         | Some (Inr (reset, g')) \<Rightarrow>
             sg_is_checkpoint g name \<and> \<not> sg_is_checkpoint g' name \<and>
             (\<exists>before after. sg_order g = before @ name # after \<and> reset = name # after) \<and>
             sg_completed g' = sg_completed g - set reset \<and>
             sg_order g' = sg_order g \<and> sg_state g' = sg_state g \<and> sg_graph g' = sg_graph g"
proof -
  have wf: "sg_wf g" using assms by (rule sg_reachable_wf)
  show ?thesis
  proof (cases "hm_get (sg_checkpoints g) name")
    case None
    with wf show ?thesis by (simp add: sg_rewind_total sg_is_checkpoint_def hm_contains_def)
  next
    case (Some idx)
    with wf have idx: "idx < length (sg_order g)" and name: "sg_order g ! idx = name"
      by (auto simp: sg_wf_def)
    have "drop idx (sg_order g) = name # drop (Suc idx) (sg_order g)"
      using Cons_nth_drop_Suc [OF idx] name by simp
    moreover from this have "sg_order g = take idx (sg_order g) @ name # drop (Suc idx) (sg_order g)"
      by (metis append_take_drop_id)
    ultimately show ?thesis
      using Some wf by (auto simp: sg_rewind_total sg_is_checkpoint_def hm_contains_def)
  qed
qed

text \<open>A three-step graph with its middle step completed and marked.\<close>

definition three_steps :: "(nat, bool) step_graph" where
  "three_steps =
     foldl (\<lambda>g (k, ds). case sg_add_step g k ds False of Inl _ \<Rightarrow> g | Inr g' \<Rightarrow> g') sg_new [(1, []), (2, [1]), (3, [2])]"

definition marked_steps :: "(nat, bool) step_graph" where
  "marked_steps =
     (case sg_checkpoint (sg_complete (sg_complete three_steps 1) 2) 2 of Inl _ \<Rightarrow> three_steps | Inr g' \<Rightarrow> g')"

lemma sg_add_fold_reachable:
  "sg_reachable g \<Longrightarrow>
     sg_reachable (foldl (\<lambda>g (k, ds). case sg_add_step g k ds st of Inl _ \<Rightarrow> g | Inr g' \<Rightarrow> g') g rows)"
proof (induction rows arbitrary: g)
  case (Cons r rows)
  obtain k ds where r: "r = (k, ds)" by (cases r)
  show ?case
  proof (cases "sg_add_step g k ds st")
    case (Inr g')
    then have "sg_reachable g'" by (rule sg_add [OF Cons.prems])
    with Inr r show ?thesis by (simp add: Cons.IH)
  qed (use r Cons in simp)
qed simp

lemma three_steps_reachable: "sg_reachable three_steps"
  unfolding three_steps_def by (rule sg_add_fold_reachable) (rule sg_start)

lemma marked_steps_reachable: "sg_reachable marked_steps"
proof (cases "sg_checkpoint (sg_complete (sg_complete three_steps 1) 2) 2")
  case (Inr g')
  then have "sg_reachable g'" by (rule sg_check [OF sg_compl [OF sg_compl [OF three_steps_reachable]]])
  with Inr show ?thesis by (simp add: marked_steps_def)
qed (simp add: marked_steps_def three_steps_reachable)

theorem rewind_exact_witness:
  "\<exists>g'. sg_rewind_to marked_steps 2 = Some (Inr ([2, 3], g')) \<and> sg_completed g' = {1}"
proof -
  have "map_option (map_sum id fst) (sg_rewind_to marked_steps 2) = Some (Inr [2, 3])" by code_simp
  then obtain g' where run: "sg_rewind_to marked_steps 2 = Some (Inr ([2, 3], g'))"
    by (cases "sg_rewind_to marked_steps 2"; cases "the (sg_rewind_to marked_steps 2)") auto
  moreover have "sg_completed marked_steps - set [2, 3] = {1}" by code_simp
  ultimately show ?thesis using rewind_exact [OF marked_steps_reachable, of 2] by auto
qed

end
