(* ===== verification/Cache.thy ===== *)
theory Cache
  imports Prelude
begin

text \<open>
  The generic caches of \<open>src/src/common-core/src/cache.rs\<close>.

  \<open>LoadCache\<close> wraps the third-party \<open>lru::LruCache\<close>, which is a parameter of the model: a
  record of its operations. \<open>lru_ok\<close> states the documented behaviour that is relied on:
  \<open>get\<close> returns what is stored and keeps the contents, \<open>put\<close> stores and may evict other keys,
  \<open>pop\<close> removes. The mutex around it serialises the calls, so each operation is one atomic step.

  The weighted-LRU engine: \<open>u64\<close> and \<open>i64\<close> values are \<open>nat\<close> and \<open>int\<close> with the saturation
  written out.
\<close>

section \<open>The load cache\<close>

record ('c, 'k, 'v) lru_ops =
  lru_get :: "'c \<Rightarrow> 'k \<Rightarrow> 'v option \<times> 'c"
  lru_put :: "'c \<Rightarrow> 'k \<Rightarrow> 'v \<Rightarrow> 'c"
  lru_pop :: "'c \<Rightarrow> 'k \<Rightarrow> 'v option \<times> 'c"
  lru_len :: "'c \<Rightarrow> nat"
  lru_new :: "nat \<Rightarrow> 'c"

definition lru_ok :: "('c, 'k, 'v) lru_ops \<Rightarrow> ('c \<Rightarrow> 'k \<Rightarrow> 'v option) \<Rightarrow> bool" where
  "lru_ok ops view \<longleftrightarrow>
     (\<forall>c k. fst (lru_get ops c k) = view c k \<and> view (snd (lru_get ops c k)) = view c) \<and>
     (\<forall>c k v. view (lru_put ops c k v) k = Some v \<and>
        (\<forall>j. j \<noteq> k \<longrightarrow> view (lru_put ops c k v) j = view c j \<or> view (lru_put ops c k v) j = None)) \<and>
     (\<forall>c k. fst (lru_pop ops c k) = view c k \<and> view (snd (lru_pop ops c k)) = (view c)(k := None)) \<and>
     (\<forall>n k. view (lru_new ops n) k = None)"

record ('c, 'k, 'v, 'e) load_cache =
  lc_inner :: 'c
  lc_load :: "'k \<Rightarrow> 'e + 'v"

text \<open>\<open>Err\<close> carries the rejected capacity.\<close>

definition lc_new :: "('c, 'k, 'v) lru_ops \<Rightarrow> nat \<Rightarrow> ('k \<Rightarrow> 'e + 'v) \<Rightarrow> nat + ('c, 'k, 'v, 'e) load_cache" where
  "lc_new ops capacity load =
     (if capacity = 0 then Inl capacity
      else Inr \<lparr>lc_inner = lru_new ops capacity, lc_load = load\<rparr>)"

definition lc_get :: "('c, 'k, 'v) lru_ops \<Rightarrow> ('c, 'k, 'v, 'e) load_cache \<Rightarrow> 'k \<Rightarrow> 'v option \<times> ('c, 'k, 'v, 'e) load_cache" where
  "lc_get ops c key = (case lru_get ops (lc_inner c) key of (r, i) \<Rightarrow> (r, c\<lparr>lc_inner := i\<rparr>))"

definition lc_contains :: "('c, 'k, 'v) lru_ops \<Rightarrow> ('c, 'k, 'v, 'e) load_cache \<Rightarrow> 'k \<Rightarrow> bool \<times> ('c, 'k, 'v, 'e) load_cache" where
  "lc_contains ops c key = (case lc_get ops c key of (r, c') \<Rightarrow> (r \<noteq> None, c'))"

definition lc_insert :: "('c, 'k, 'v) lru_ops \<Rightarrow> ('c, 'k, 'v, 'e) load_cache \<Rightarrow> 'k \<Rightarrow> 'v \<Rightarrow> ('c, 'k, 'v, 'e) load_cache" where
  "lc_insert ops c key value = c\<lparr>lc_inner := lru_put ops (lc_inner c) key value\<rparr>"

definition lc_remove :: "('c, 'k, 'v) lru_ops \<Rightarrow> ('c, 'k, 'v, 'e) load_cache \<Rightarrow> 'k \<Rightarrow> 'v option \<times> ('c, 'k, 'v, 'e) load_cache" where
  "lc_remove ops c key = (case lru_pop ops (lc_inner c) key of (r, i) \<Rightarrow> (r, c\<lparr>lc_inner := i\<rparr>))"

definition lc_get_or_load :: "('c, 'k, 'v) lru_ops \<Rightarrow> ('c, 'k, 'v, 'e) load_cache \<Rightarrow> 'k \<Rightarrow> ('e + 'v) \<times> ('c, 'k, 'v, 'e) load_cache" where
  "lc_get_or_load ops c key =
     (case lc_get ops c key of
        (Some value, c') \<Rightarrow> (Inr value, c')
      | (None, c') \<Rightarrow>
          (case lc_load c' key of
             Inl e \<Rightarrow> (Inl e, c')
           | Inr value \<Rightarrow> (Inr value, lc_insert ops c' key value)))"

definition lc_len :: "('c, 'k, 'v) lru_ops \<Rightarrow> ('c, 'k, 'v, 'e) load_cache \<Rightarrow> nat" where
  "lc_len ops c = lru_len ops (lc_inner c)"

lemma lru_okD:
  assumes "lru_ok ops view"
  shows "fst (lru_get ops c k) = view c k" and "view (snd (lru_get ops c k)) = view c"
    and "view (lru_put ops c k v) k = Some v"
    and "j \<noteq> k \<Longrightarrow> view (lru_put ops c k v) j = view c j \<or> view (lru_put ops c k v) j = None"
    and "fst (lru_pop ops c k) = view c k" and "view (snd (lru_pop ops c k)) = (view c)(k := None)"
    and "view (lru_new ops n) k = None"
  using assms by (simp_all add: lru_ok_def)

lemma lc_get_view:
  assumes "lru_ok ops view"
  shows "fst (lc_get ops c k) = view (lc_inner c) k"
    and "view (lc_inner (snd (lc_get ops c k))) = view (lc_inner c)"
    and "lc_load (snd (lc_get ops c k)) = lc_load c"
  using lru_okD(1,2) [OF assms, of "lc_inner c" k]
  by (auto simp: lc_get_def split: prod.splits)

lemma lc_insert_view:
  assumes "lru_ok ops view"
  shows "view (lc_inner (lc_insert ops c k v)) k = Some v"
    and "j \<noteq> k \<Longrightarrow> view (lc_inner (lc_insert ops c k v)) j = view (lc_inner c) j \<or>
                    view (lc_inner (lc_insert ops c k v)) j = None"
  using lru_okD(3,4) [OF assms] by (auto simp: lc_insert_def)

text \<open>A bounded list, most recently used first: an instance of the parameter.\<close>

definition list_lru :: "(nat \<times> ('k, 'v) hmap, 'k, 'v) lru_ops" where
  "list_lru =
     \<lparr>lru_get = (\<lambda>(n, m) k. (hm_get m k, case hm_get m k of None \<Rightarrow> (n, m) | Some v \<Rightarrow> (n, (k, v) # hm_remove m k))),
      lru_put = (\<lambda>(n, m) k v. (n, (k, v) # take (n - 1) (hm_remove m k))),
      lru_pop = (\<lambda>(n, m) k. (hm_get m k, (n, hm_remove m k))),
      lru_len = (\<lambda>(n, m). length m),
      lru_new = (\<lambda>n. (n, hm_empty))\<rparr>"

lemma hm_get_take: "hm_get (take n m) k = hm_get m k \<or> hm_get (take n m) k = None"
proof (induction m arbitrary: n)
  case (Cons p m)
  then show ?case by (cases n; cases p) auto
qed simp

lemma hm_get_take_remove: "j \<noteq> k \<Longrightarrow> hm_get (take n (hm_remove m k)) j = Some y \<Longrightarrow> hm_get m j = Some y"
  using hm_get_take [of n "hm_remove m k" j] by auto

lemma list_lru_ok: "lru_ok list_lru (\<lambda>c. hm_get (snd c))"
  by (auto simp: lru_ok_def list_lru_def fun_eq_iff split: option.splits dest: hm_get_take_remove)

section \<open>The weighted-LRU eviction engine\<close>

definition u64_max :: nat where
  "u64_max = 2 ^ 64 - 1"

definition i64_min :: int where
  "i64_min = - (2 ^ 63)"

definition i64_max :: int where
  "i64_max = 2 ^ 63 - 1"

definition i64_saturating_sub :: "int \<Rightarrow> int \<Rightarrow> int" where
  "i64_saturating_sub a b = max i64_min (min i64_max (a - b))"

definition u64_saturating_mul :: "nat \<Rightarrow> nat \<Rightarrow> nat" where
  "u64_saturating_mul a b = min u64_max (a * b)"

definition COLD_CAP :: int where
  "COLD_CAP = 2 ^ 40"

definition eviction_score :: "nat \<Rightarrow> int \<Rightarrow> int \<Rightarrow> nat" where
  "eviction_score freed_bytes last_used now =
     (let coldness = (if last_used < 0 then COLD_CAP
                      else max 1 (min COLD_CAP (i64_saturating_sub now last_used)))
      in u64_saturating_mul freed_bytes (nat coldness))"

text \<open>
  \<open>sort_by\<close> is a stable sort by the comparator: score descending, then \<open>last_used\<close> descending.
  On the key \<open>(u64_max - score, i64_max - last_used)\<close> this is an ascending lexicographic sort,
  written as the two stable passes from the minor to the major key.
\<close>

definition eviction_order :: "'c list \<Rightarrow> int \<Rightarrow> ('c \<Rightarrow> nat) \<Rightarrow> ('c \<Rightarrow> int) \<Rightarrow> 'c list" where
  "eviction_order candidates now freed_of last_used_of =
     sort_key (\<lambda>c. - int (eviction_score (freed_of c) (last_used_of c) now))
       (sort_key (\<lambda>c. - last_used_of c) candidates)"

fun evict_until_fit :: "nat \<Rightarrow> nat \<Rightarrow> nat \<Rightarrow> nat \<Rightarrow> 'c list \<Rightarrow> ('c \<Rightarrow> nat option) \<Rightarrow> nat \<times> nat" where
  "evict_until_fit used budget batch evicted [] evict = (used, evicted)"
| "evict_until_fit used budget batch evicted (c # cs) evict =
     (if used \<le> budget \<or> batch \<le> evicted then (used, evicted)
      else case evict c of
             Some freed \<Rightarrow> evict_until_fit (used - freed) budget batch (evicted + 1) cs evict
           | None \<Rightarrow> evict_until_fit used budget batch evicted cs evict)"

record budget =
  bu_total :: nat
  bu_minimum_remaining :: nat

definition allocation_budget :: "budget \<Rightarrow> nat option" where
  "allocation_budget b =
     (if bu_total b = 0 \<and> bu_minimum_remaining b = 0 then None
      else Some (bu_total b - bu_minimum_remaining b))"

definition is_over_budget :: "budget \<Rightarrow> nat \<Rightarrow> bool" where
  "is_over_budget b used =
     (case allocation_budget b of Some bound \<Rightarrow> bound < used | None \<Rightarrow> False)"

section \<open>Lemmas\<close>

lemma eviction_score_bounds: "eviction_score f l now \<le> u64_max"
  by (simp add: eviction_score_def u64_saturating_mul_def Let_def)

lemma sort_key_pass_sorted: "sorted (map f (sort_key f xs))"
  by simp

text \<open>A stable pass keeps the minor order inside each group of the major key.\<close>

lemma sort_key_minor_order:
  assumes "i < j" and "j < length (sort_key f xs)" and "f (sort_key f xs ! i) = f (sort_key f xs ! j)"
    and "sorted (map g xs)"
  shows "g (sort_key f xs ! i) \<le> g (sort_key f xs ! j)"
proof -
  let ?ys = "sort_key f xs" and ?k = "f (sort_key f xs ! j)"
  have grp: "filter (\<lambda>y. f y = ?k) ?ys = filter (\<lambda>y. f y = ?k) xs"
    by (rule sort_key_stable)
  have s: "sorted (map g (filter (\<lambda>y. f y = ?k) ?ys))"
    unfolding grp using assms(4) by (rule sorted_filter)
  have split: "?ys = take i ?ys @ ?ys ! i # drop (Suc i) ?ys"
    using assms(1,2) by (simp add: id_take_nth_drop)
  have "?ys ! j \<in> set (drop (Suc i) ?ys)"
    using assms(1,2) by (auto simp: in_set_conv_nth intro!: exI [of _ "j - Suc i"])
  then have j: "?ys ! j \<in> set (filter (\<lambda>y. f y = ?k) (drop (Suc i) ?ys))" by simp
  have "filter (\<lambda>y. f y = ?k) ?ys =
      filter (\<lambda>y. f y = ?k) (take i ?ys) @ ?ys ! i # filter (\<lambda>y. f y = ?k) (drop (Suc i) ?ys)"
    using assms(3) by (subst split) simp
  with s have "\<forall>z \<in> set (filter (\<lambda>y. f y = ?k) (drop (Suc i) ?ys)). g (?ys ! i) \<le> g z"
    by (simp add: sorted_append)
  with j show ?thesis by blast
qed

lemma eviction_order_set: "set (eviction_order cs now fo lo) = set cs" and
  eviction_order_length: "length (eviction_order cs now fo lo) = length cs"
  by (simp_all add: eviction_order_def)

lemma evict_until_fit_count: "evicted \<le> batch \<Longrightarrow> snd (evict_until_fit used budget batch evicted cs evict) \<le> batch"
  by (induction used budget batch evicted cs evict rule: evict_until_fit.induct) (auto split: option.splits)

lemma evict_until_fit_used: "fst (evict_until_fit used budget batch evicted cs evict) \<le> used"
proof (induction used budget batch evicted cs evict rule: evict_until_fit.induct)
  case (2 used budget batch evicted c cs evict)
  then show ?case by (fastforce split: option.splits intro: le_trans)
qed simp

section \<open>Properties\<close>

text \<open>
  \<open>get_or_load\<close> over any LRU cache with the documented behaviour: a cached value is returned
  without consulting the loader, a miss returns exactly what the loader returns, a loaded value is
  what a following \<open>get\<close> returns, and a failed load leaves the contents unchanged.
\<close>

theorem get_or_load_correct:
  assumes "lru_ok ops view"
  shows "case lc_get_or_load ops c key of
           (Inr v, c') \<Rightarrow> (view (lc_inner c) key = Some v \<or> view (lc_inner c) key = None \<and> lc_load c key = Inr v) \<and>
                          fst (lc_get ops c' key) = Some v
         | (Inl e, c') \<Rightarrow> view (lc_inner c) key = None \<and> lc_load c key = Inl e \<and> view (lc_inner c') = view (lc_inner c)"
proof -
  obtain r c' where get: "lc_get ops c key = (r, c')" by (cases "lc_get ops c key")
  with lc_get_view [OF assms, of c key] have r: "r = view (lc_inner c) key"
    and keep: "view (lc_inner c') = view (lc_inner c)" "lc_load c' = lc_load c" by simp_all
  show ?thesis
    using get r keep
    by (auto simp: lc_get_or_load_def lc_get_view(1) [OF assms] lc_insert_view(1) [OF assms]
        split: option.splits sum.splits)
qed

theorem get_or_load_correct_witness:
  "lru_ok list_lru (\<lambda>c. hm_get (snd c)) \<and>
   fst (lc_get list_lru (snd (lc_get_or_load list_lru
      \<lparr>lc_inner = (2, []), lc_load = (\<lambda>k::nat. if k = 7 then Inl () else Inr (k + 1))\<rparr> 3)) 3) = Some 4"
proof -
  let ?c = "\<lparr>lc_inner = (2, []), lc_load = (\<lambda>k::nat. if k = 7 then Inl () else Inr (k + 1))\<rparr>"
  have "fst (lc_get_or_load list_lru ?c 3) = Inr 4" by code_simp
  then obtain c' where "lc_get_or_load list_lru ?c 3 = (Inr 4, c')"
    by (cases "lc_get_or_load list_lru ?c 3") auto
  with get_or_load_correct [OF list_lru_ok, of ?c 3] list_lru_ok show ?thesis by simp
qed

text \<open>
  \<open>eviction_order\<close> permutes the candidates, puts the highest \<open>footprint * coldness\<close> score
  first, and among equal scores puts the most recently used candidate first, so that of two equal
  scoring units the newer one is evicted before the older one.
\<close>

theorem eviction_order_sorted:
  assumes "i < j" and "j < length cs"
  shows "let ys = eviction_order cs now freed_of last_used_of;
             score = (\<lambda>c. eviction_score (freed_of c) (last_used_of c) now)
         in mset ys = mset cs \<and> score (ys ! j) \<le> score (ys ! i) \<and>
            (score (ys ! i) = score (ys ! j) \<longrightarrow> last_used_of (ys ! j) \<le> last_used_of (ys ! i))"
proof -
  let ?f = "\<lambda>c. - int (eviction_score (freed_of c) (last_used_of c) now)"
  let ?xs = "sort_key (\<lambda>c. - last_used_of c) cs"
  let ?ys = "sort_key ?f ?xs"
  have ij: "i < j" "j < length ?ys" using assms by simp_all
  have "sorted (map ?f ?ys)" by simp
  with ij have "?f (?ys ! i) \<le> ?f (?ys ! j)"
    using sorted_nth_mono [of "map ?f ?ys" i j] by simp
  moreover have "- last_used_of (?ys ! i) \<le> - last_used_of (?ys ! j)" if "?f (?ys ! i) = ?f (?ys ! j)"
    by (rule sort_key_minor_order [OF ij that]) simp
  ultimately show ?thesis by (simp add: eviction_order_def Let_def)
qed

theorem eviction_order_sorted_witness:
  "eviction_order [(0::nat, 10::nat, 60::int), (1, 20, 80)] 100 (fst \<circ> snd) (snd \<circ> snd) = [(1, 20, 80), (0, 10, 60)] \<and>
   eviction_score 10 60 100 = eviction_score 20 80 100 \<and> (60::int) \<le> 80"
proof -
  let ?cs = "[(0::nat, 10::nat, 60::int), (1, 20, 80)]"
  have scores: "eviction_score 10 60 100 = 400" "eviction_score 20 80 100 = 400"
    by (simp_all add: eviction_score_def u64_saturating_mul_def i64_saturating_sub_def
        COLD_CAP_def u64_max_def i64_min_def i64_max_def)
  then have run: "eviction_order ?cs 100 (fst \<circ> snd) (snd \<circ> snd) = [(1, 20, 80), (0, 10, 60)]"
    by (simp add: eviction_order_def)
  have "eviction_score 10 60 100 = eviction_score 20 80 100" using scores by simp
  moreover have "0 < (1::nat)" "1 < length ?cs" by simp_all
  note eviction_order_sorted [OF this, of 100 "fst \<circ> snd" "snd \<circ> snd", unfolded run]
  ultimately show ?thesis using run by (simp add: Let_def)
qed

text \<open>
  \<open>evict_until_fit\<close> processes a prefix of the ordered candidates: failed evictions are
  skipped and not counted, the footprint drops by exactly what the successful ones freed, it stops
  as soon as the budget holds or the batch is spent and never earlier while candidates remain.
\<close>

theorem evict_until_fit_prefix:
  "\<exists>n \<le> length cs.
     evict_until_fit used budget batch 0 cs evict =
       (used - sum_list (List.map_filter evict (take n cs)), length (List.map_filter evict (take n cs))) \<and>
     (n = length cs \<or> used - sum_list (List.map_filter evict (take n cs)) \<le> budget \<or>
        batch \<le> length (List.map_filter evict (take n cs))) \<and>
     (\<forall>m < n. budget < used - sum_list (List.map_filter evict (take m cs)) \<and>
             length (List.map_filter evict (take m cs)) < batch)"
proof -
  have "\<exists>n \<le> length cs.
     evict_until_fit used budget batch e cs evict =
       (used - sum_list (List.map_filter evict (take n cs)), e + length (List.map_filter evict (take n cs))) \<and>
     (n = length cs \<or> used - sum_list (List.map_filter evict (take n cs)) \<le> budget \<or>
        batch \<le> e + length (List.map_filter evict (take n cs))) \<and>
     (\<forall>m < n. budget < used - sum_list (List.map_filter evict (take m cs)) \<and>
             e + length (List.map_filter evict (take m cs)) < batch)" for e
  proof (induction used budget batch e cs evict rule: evict_until_fit.induct)
    case (2 used budget batch e c cs evict)
    show ?case
    proof (cases "used \<le> budget \<or> batch \<le> e")
      case True
      then show ?thesis by (intro exI [of _ 0]) (auto simp: List.map_filter_def)
    next
      case False
      show ?thesis
      proof (cases "evict c")
        case None
        from "2.IH"(1) [OF False None] obtain n where n: "n \<le> length cs"
          "evict_until_fit used budget batch e cs evict =
             (used - sum_list (List.map_filter evict (take n cs)), e + length (List.map_filter evict (take n cs)))"
          "n = length cs \<or> used - sum_list (List.map_filter evict (take n cs)) \<le> budget \<or>
             batch \<le> e + length (List.map_filter evict (take n cs))"
          "\<forall>m < n. budget < used - sum_list (List.map_filter evict (take m cs)) \<and>
             e + length (List.map_filter evict (take m cs)) < batch" by blast
        have "\<forall>m < Suc n. budget < used - sum_list (List.map_filter evict (take m (c # cs))) \<and>
             e + length (List.map_filter evict (take m (c # cs))) < batch"
          using n(4) False None by (auto simp: take_Cons' List.map_filter_def)
        with n False None show ?thesis
          by (intro exI [of _ "Suc n"]) (simp add: List.map_filter_def)
      next
        case (Some freed)
        from "2.IH"(2) [OF False Some] obtain n where n: "n \<le> length cs"
          "evict_until_fit (used - freed) budget batch (e + 1) cs evict =
             (used - freed - sum_list (List.map_filter evict (take n cs)), e + 1 + length (List.map_filter evict (take n cs)))"
          "n = length cs \<or> used - freed - sum_list (List.map_filter evict (take n cs)) \<le> budget \<or>
             batch \<le> e + 1 + length (List.map_filter evict (take n cs))"
          "\<forall>m < n. budget < used - freed - sum_list (List.map_filter evict (take m cs)) \<and>
             e + 1 + length (List.map_filter evict (take m cs)) < batch" by blast
        have "\<forall>m < Suc n. budget < used - sum_list (List.map_filter evict (take m (c # cs))) \<and>
             e + length (List.map_filter evict (take m (c # cs))) < batch"
          using n(4) False Some by (auto simp: take_Cons' List.map_filter_def)
        with n False Some show ?thesis
          by (intro exI [of _ "Suc n"]) (simp add: List.map_filter_def)
      qed
    qed
  qed (simp add: List.map_filter_def)
  from this [of 0] show ?thesis by simp
qed

theorem evict_until_fit_prefix_witness:
  "evict_until_fit 100 50 10 0 [30, 40, 60 :: nat] Some = (30, 2) \<and>
   (\<exists>n \<le> 3. (30 :: nat) = 100 - sum_list (List.map_filter Some (take n [30, 40, 60])))"
proof -
  have run: "evict_until_fit 100 50 10 0 [30, 40, 60 :: nat] Some = (30, 2)" by simp
  obtain n where "n \<le> length [30, 40, 60 :: nat]"
    and "evict_until_fit 100 50 10 0 [30, 40, 60 :: nat] Some =
      (100 - sum_list (List.map_filter Some (take n [30, 40, 60])), length (List.map_filter Some (take n [30, 40, 60 :: nat])))"
    using evict_until_fit_prefix [of "[30, 40, 60]" 100 50 10 Some] by blast
  then have "n \<le> 3" and "30 = 100 - sum_list (List.map_filter Some (take n [30, 40, 60 :: nat]))"
    unfolding run by (simp_all del: take.simps)
  with run show ?thesis by blast
qed

end
