(* ===== verification/KvCache.thy ===== *)
theory KvCache
  imports Cache
begin

text \<open>
  The two-tier snapshot index of \<open>src/src/router/src/kv_cache.rs\<close>.

  The hot tier is a \<open>LoadCache\<close> (theory \<open>Cache\<close>) keyed by \<open>(model, adapter, session)\<close>; the
  third-party LRU map below it stays a parameter \<open>ops\<close>. The cold tier is a hash map with a
  TTL sweep. \<open>SnapshotStore\<close> writes through both and reads the hot tier first.

  Paths are strings and \<open>PathBuf::join\<close> is written out for Unix. The clock readings and the
  answers of the fork's management service are arguments of the operations that ask for them.
  Log output is left out.
\<close>

section \<open>Paths and snapshots\<close>

datatype kv_error =
    KvIo string
  | KvNotFound string
  | KvVersionMismatch string
  | KvModelHashMismatch string
  | KvQuantMismatch string
  | KvDb string

type_synonym snapshot_key = "string \<times> string option \<times> string"

text \<open>\<open>PathBuf::join\<close>: an absolute argument replaces the base, an empty base adds no separator.\<close>

definition path_join :: "string \<Rightarrow> string \<Rightarrow> string" where
  "path_join base p =
     (if p \<noteq> [] \<and> hd p = CHR ''/'' then p
      else if base \<noteq> [] \<and> last base \<noteq> CHR ''/'' then base @ ''/'' @ p
      else base @ p)"

definition model_key :: "string \<Rightarrow> string" where
  "model_key model = map (\<lambda>c. if c = CHR ''/'' \<or> c = CHR '':'' then CHR ''_'' else c) model"

definition kv_snapshot_path :: "string \<Rightarrow> string \<Rightarrow> string option \<Rightarrow> string \<Rightarrow> string" where
  "kv_snapshot_path slot_save_path model inst snapshot_name =
     (let dir = path_join slot_save_path (model_key model)
      in case inst of
           Some i \<Rightarrow> path_join (path_join dir i) (snapshot_name @ ''.bin'')
         | None \<Rightarrow> path_join dir (snapshot_name @ ''.bin''))"

record kv_snapshot =
  ks_model :: string
  ks_adapter :: "string option"
  ks_session_id :: string
  ks_snapshot_name :: string
  ks_instance :: "string option"
  ks_file_path :: string
  ks_token_count :: "nat option"
  ks_created_at :: nat
  ks_last_used_at :: nat
  ks_llama_cpp_version :: "string option"
  ks_model_quant :: "string option"
  ks_base_model_hash :: "string option"
  ks_turn_seq :: "nat option"

definition snap_key :: "kv_snapshot \<Rightarrow> snapshot_key" where
  "snap_key s = (ks_model s, ks_adapter s, ks_session_id s)"

section \<open>The hot tier\<close>

record 'c hot_index =
  hi_snapshots :: "('c, snapshot_key, kv_snapshot, kv_error) load_cache"
  hi_max_mb :: nat

type_synonym 'c kv_lru = "('c, snapshot_key, kv_snapshot) lru_ops"

text \<open>\<open>None\<close> is the panic of \<open>expect\<close>.\<close>

definition hot_new :: "'c kv_lru \<Rightarrow> nat \<Rightarrow> nat \<Rightarrow> 'c hot_index option" where
  "hot_new ops capacity max_mb =
     (case lc_new ops (max capacity 1)
             (\<lambda>_. Inl (KvNotFound ''hot tier is write-through; load-on-miss is never invoked'')) of
        Inl _ \<Rightarrow> None
      | Inr c \<Rightarrow> Some \<lparr>hi_snapshots = c, hi_max_mb = max_mb\<rparr>)"

definition hot_key :: "string \<Rightarrow> string option \<Rightarrow> string \<Rightarrow> snapshot_key" where
  "hot_key model adapter session_id = (model, adapter, session_id)"

definition hot_insert_arc :: "'c kv_lru \<Rightarrow> 'c hot_index \<Rightarrow> snapshot_key \<Rightarrow> kv_snapshot \<Rightarrow> 'c hot_index" where
  "hot_insert_arc ops h key snapshot = h\<lparr>hi_snapshots := lc_insert ops (hi_snapshots h) key snapshot\<rparr>"

definition hot_put :: "'c kv_lru \<Rightarrow> 'c hot_index \<Rightarrow> kv_snapshot \<Rightarrow> 'c hot_index" where
  "hot_put ops h snapshot =
     hot_insert_arc ops h (hot_key (ks_model snapshot) (ks_adapter snapshot) (ks_session_id snapshot)) snapshot"

definition hot_get :: "'c kv_lru \<Rightarrow> 'c hot_index \<Rightarrow> string \<Rightarrow> string option \<Rightarrow> string \<Rightarrow> kv_snapshot option \<times> 'c hot_index" where
  "hot_get ops h model adapter session_id =
     (case lc_get ops (hi_snapshots h) (hot_key model adapter session_id) of
        (r, c) \<Rightarrow> (r, h\<lparr>hi_snapshots := c\<rparr>))"

definition hot_remove :: "'c kv_lru \<Rightarrow> 'c hot_index \<Rightarrow> string \<Rightarrow> string option \<Rightarrow> string \<Rightarrow> 'c hot_index" where
  "hot_remove ops h model adapter session_id =
     h\<lparr>hi_snapshots := snd (lc_remove ops (hi_snapshots h) (hot_key model adapter session_id))\<rparr>"

definition hot_len :: "'c kv_lru \<Rightarrow> 'c hot_index \<Rightarrow> nat" where
  "hot_len ops h = lc_len ops (hi_snapshots h)"

definition hot_is_empty :: "'c kv_lru \<Rightarrow> 'c hot_index \<Rightarrow> bool" where
  "hot_is_empty ops h \<longleftrightarrow> lc_len ops (hi_snapshots h) = 0"

section \<open>The cold tier\<close>

record cold_index =
  ci_slot_save_path :: "string option"
  ci_entries :: "(snapshot_key, kv_snapshot) hmap"
  ci_ttl_secs :: nat

definition cold_new :: "string \<Rightarrow> nat \<Rightarrow> nat \<Rightarrow> cold_index" where
  "cold_new slot_save_path max_mb ttl_secs =
     \<lparr>ci_slot_save_path = Some slot_save_path, ci_entries = hm_empty, ci_ttl_secs = ttl_secs\<rparr>"

definition cold_metadata_only :: "nat \<Rightarrow> cold_index" where
  "cold_metadata_only ttl_secs =
     \<lparr>ci_slot_save_path = None, ci_entries = hm_empty, ci_ttl_secs = ttl_secs\<rparr>"

definition derive_path :: "cold_index \<Rightarrow> kv_snapshot \<Rightarrow> string" where
  "derive_path ci snapshot =
     (case ci_slot_save_path ci of
        Some base \<Rightarrow> kv_snapshot_path base (ks_model snapshot) (ks_instance snapshot) (ks_snapshot_name snapshot)
      | None \<Rightarrow> '''')"

definition cold_save :: "cold_index \<Rightarrow> kv_snapshot \<Rightarrow> kv_error + cold_index" where
  "cold_save ci snapshot =
     (let stored = snapshot\<lparr>ks_file_path := derive_path ci snapshot\<rparr>;
          key = (ks_model snapshot, ks_adapter snapshot, ks_session_id snapshot)
      in Inr (ci\<lparr>ci_entries := hm_insert (ci_entries ci) key stored\<rparr>))"

definition cold_load :: "cold_index \<Rightarrow> string \<Rightarrow> string option \<Rightarrow> string \<Rightarrow> kv_error + kv_snapshot" where
  "cold_load ci model adapter session_id =
     (case hm_get (ci_entries ci) (model, adapter, session_id) of
        Some s \<Rightarrow> Inr s
      | None \<Rightarrow> Inl (KvNotFound (''no snapshot for session '' @ [CHR 0x27] @ session_id @ [CHR 0x27])))"

definition cold_evict :: "cold_index \<Rightarrow> nat \<Rightarrow> (kv_error + nat) \<times> cold_index" where
  "cold_evict ci now =
     (let before = length (ci_entries ci);
          entries = filter (\<lambda>(_, snap). now - ks_last_used_at snap < ci_ttl_secs ci) (ci_entries ci)
      in (Inr (before - length entries), ci\<lparr>ci_entries := entries\<rparr>))"

definition cold_list_snapshots :: "cold_index \<Rightarrow> string \<Rightarrow> kv_snapshot list" where
  "cold_list_snapshots ci session_id =
     filter (\<lambda>s. ks_session_id s = session_id) (map snd (ci_entries ci))"

definition cold_remove :: "cold_index \<Rightarrow> string \<Rightarrow> string option \<Rightarrow> string \<Rightarrow> cold_index" where
  "cold_remove ci model adapter session_id =
     ci\<lparr>ci_entries := hm_remove (ci_entries ci) (model, adapter, session_id)\<rparr>"

definition cold_seed_seq_for :: "cold_index \<Rightarrow> string \<Rightarrow> nat" where
  "cold_seed_seq_for ci session_id =
     (let seqs = List.map_filter ks_turn_seq
                   (filter (\<lambda>s. ks_session_id s = session_id) (map snd (ci_entries ci)))
      in if seqs = [] then 0 else Max (set seqs))"

section \<open>The two-tier store\<close>

text \<open>\<open>ss_fork\<close> tells whether a fork client is attached.\<close>

record 'c snapshot_store =
  ss_hot :: "'c hot_index"
  ss_cold :: cold_index
  ss_fork :: bool

definition ss_new :: "'c hot_index \<Rightarrow> cold_index \<Rightarrow> 'c snapshot_store" where
  "ss_new hot cold = \<lparr>ss_hot = hot, ss_cold = cold, ss_fork = False\<rparr>"

definition ss_with_fork_io :: "'c snapshot_store \<Rightarrow> 'c snapshot_store" where
  "ss_with_fork_io ss = ss\<lparr>ss_fork := True\<rparr>"

definition ss_seed_seq_for :: "'c snapshot_store \<Rightarrow> string \<Rightarrow> nat" where
  "ss_seed_seq_for ss session_id = cold_seed_seq_for (ss_cold ss) session_id"

definition ss_store :: "'c kv_lru \<Rightarrow> 'c snapshot_store \<Rightarrow> kv_snapshot \<Rightarrow> kv_error + 'c snapshot_store" where
  "ss_store ops ss snapshot =
     (case cold_save (ss_cold ss) snapshot of
        Inl e \<Rightarrow> Inl e
      | Inr cold \<Rightarrow> Inr (ss\<lparr>ss_cold := cold, ss_hot := hot_put ops (ss_hot ss) snapshot\<rparr>))"

definition ss_retrieve :: "'c kv_lru \<Rightarrow> 'c snapshot_store \<Rightarrow> string \<Rightarrow> string option \<Rightarrow> string \<Rightarrow> (kv_error + kv_snapshot) \<times> 'c snapshot_store" where
  "ss_retrieve ops ss model adapter session_id =
     (case hot_get ops (ss_hot ss) model adapter session_id of
        (Some snapshot, hot) \<Rightarrow> (Inr snapshot, ss\<lparr>ss_hot := hot\<rparr>)
      | (None, hot) \<Rightarrow>
          (case cold_load (ss_cold ss) model adapter session_id of
             Inl e \<Rightarrow> (Inl e, ss\<lparr>ss_hot := hot\<rparr>)
           | Inr snapshot \<Rightarrow>
               (Inr snapshot,
                ss\<lparr>ss_hot := hot_insert_arc ops hot (hot_key model adapter session_id) snapshot\<rparr>)))"

definition ss_evict :: "'c snapshot_store \<Rightarrow> nat \<Rightarrow> (kv_error + nat) \<times> 'c snapshot_store" where
  "ss_evict ss now = (case cold_evict (ss_cold ss) now of (r, cold) \<Rightarrow> (r, ss\<lparr>ss_cold := cold\<rparr>))"

text \<open>
  \<open>fork_save\<close> is the service's answer to saving \<open>name\<close> on \<open>instance\<close>, an error text or success;
  \<open>now1\<close> and \<open>now2\<close> are the two readings of the clock.
\<close>

definition ss_save_snapshot_with_seq ::
  "'c kv_lru \<Rightarrow> (string \<Rightarrow> string \<Rightarrow> string + unit) \<Rightarrow> nat \<Rightarrow> nat \<Rightarrow> 'c snapshot_store \<Rightarrow>
   string \<Rightarrow> string option \<Rightarrow> string \<Rightarrow> string \<Rightarrow> string \<Rightarrow> nat option \<Rightarrow> kv_error + 'c snapshot_store" where
  "ss_save_snapshot_with_seq ops fork_save now1 now2 ss model adapter session_id name inst turn_seq =
     (if \<not> ss_fork ss then Inr ss
      else case fork_save inst name of
             Inl e \<Rightarrow> Inl (KvDb (''fork snapshot save failed: '' @ e))
           | Inr _ \<Rightarrow>
               ss_store ops ss
                 \<lparr>ks_model = model, ks_adapter = adapter, ks_session_id = session_id,
                  ks_snapshot_name = name, ks_instance = Some inst, ks_file_path = '''',
                  ks_token_count = None, ks_created_at = now1, ks_last_used_at = now2,
                  ks_llama_cpp_version = None, ks_model_quant = None, ks_base_model_hash = None,
                  ks_turn_seq = turn_seq\<rparr>)"

definition ss_save_snapshot ::
  "'c kv_lru \<Rightarrow> (string \<Rightarrow> string \<Rightarrow> string + unit) \<Rightarrow> nat \<Rightarrow> nat \<Rightarrow> 'c snapshot_store \<Rightarrow>
   string \<Rightarrow> string option \<Rightarrow> string \<Rightarrow> string \<Rightarrow> string \<Rightarrow> kv_error + 'c snapshot_store" where
  "ss_save_snapshot ops fork_save now1 now2 ss model adapter session_id name inst =
     ss_save_snapshot_with_seq ops fork_save now1 now2 ss model adapter session_id name inst None"

text \<open>The fields of a listed snapshot that the index reads.\<close>

record snapshot_info =
  si_name :: string
  si_size :: nat

text \<open>\<open>usize::try_from\<close> of a \<open>u64\<close> always succeeds on a 64-bit target.\<close>

definition ss_list_snapshots ::
  "(string \<Rightarrow> string + snapshot_info list) \<Rightarrow> 'c snapshot_store \<Rightarrow> string \<Rightarrow> kv_snapshot list" where
  "ss_list_snapshots fork_list ss inst =
     (if \<not> ss_fork ss then []
      else case fork_list inst of
             Inr infos \<Rightarrow>
               map (\<lambda>info.
                 \<lparr>ks_model = inst, ks_adapter = None, ks_session_id = inst,
                  ks_snapshot_name = si_name info, ks_instance = Some inst, ks_file_path = '''',
                  ks_token_count = (if si_size info > 0 then Some (si_size info) else None),
                  ks_created_at = 0, ks_last_used_at = 0, ks_llama_cpp_version = None,
                  ks_model_quant = None, ks_base_model_hash = None, ks_turn_seq = None\<rparr>) infos
           | Inl e \<Rightarrow> [])"

definition ss_delete_snapshot ::
  "(string \<Rightarrow> string \<Rightarrow> string + unit) \<Rightarrow> 'c snapshot_store \<Rightarrow> string \<Rightarrow> string \<Rightarrow> kv_error + unit" where
  "ss_delete_snapshot fork_delete ss inst name =
     (if \<not> ss_fork ss then Inr ()
      else case fork_delete inst name of
             Inr _ \<Rightarrow> Inr ()
           | Inl e \<Rightarrow> Inl (KvDb (''fork snapshot delete failed: '' @ e)))"

section \<open>Histories\<close>

text \<open>The calls that change or read the index, and the state after a history of them.\<close>

datatype kv_op =
    KStore kv_snapshot
  | KRetrieve string "string option" string
  | KEvict nat

fun ss_exec :: "'c kv_lru \<Rightarrow> 'c snapshot_store \<Rightarrow> kv_op \<Rightarrow> 'c snapshot_store" where
  "ss_exec ops ss (KStore s) = (case ss_store ops ss s of Inl _ \<Rightarrow> ss | Inr ss' \<Rightarrow> ss')"
| "ss_exec ops ss (KRetrieve m a sid) = snd (ss_retrieve ops ss m a sid)"
| "ss_exec ops ss (KEvict now) = snd (ss_evict ss now)"

definition ss_run :: "'c kv_lru \<Rightarrow> 'c snapshot_store \<Rightarrow> kv_op list \<Rightarrow> 'c snapshot_store" where
  "ss_run ops ss calls = foldl (ss_exec ops) ss calls"

text \<open>The specification: the last snapshot stored under a key.\<close>

fun last_stored_step :: "(snapshot_key \<rightharpoonup> kv_snapshot) \<Rightarrow> kv_op \<Rightarrow> (snapshot_key \<rightharpoonup> kv_snapshot)" where
  "last_stored_step m (KStore s) = m(snap_key s \<mapsto> s)"
| "last_stored_step m _ = m"

definition last_stored :: "kv_op list \<Rightarrow> snapshot_key \<rightharpoonup> kv_snapshot" where
  "last_stored calls = foldl last_stored_step Map.empty calls"

abbreviation hot_view :: "('c \<Rightarrow> snapshot_key \<Rightarrow> kv_snapshot option) \<Rightarrow> 'c snapshot_store \<Rightarrow> snapshot_key \<Rightarrow> kv_snapshot option" where
  "hot_view view ss \<equiv> view (lc_inner (hi_snapshots (ss_hot ss)))"

abbreviation cold_view :: "'c snapshot_store \<Rightarrow> snapshot_key \<Rightarrow> kv_snapshot option" where
  "cold_view ss \<equiv> hm_get (ci_entries (ss_cold ss))"

text \<open>The stored record and its copy with the derived path.\<close>

definition filed :: "cold_index \<Rightarrow> kv_snapshot \<Rightarrow> kv_snapshot" where
  "filed ci s = s\<lparr>ks_file_path := derive_path ci s\<rparr>"

text \<open>What each operation does to the two views.\<close>

lemma cold_save_eq: "cold_save ci s = Inr (ci\<lparr>ci_entries := hm_insert (ci_entries ci) (snap_key s) (filed ci s)\<rparr>)"
  by (simp add: cold_save_def filed_def snap_key_def Let_def)

lemma ss_store_eq:
  "ss_store ops ss s =
     Inr (ss\<lparr>ss_cold := (ss_cold ss)\<lparr>ci_entries := hm_insert (ci_entries (ss_cold ss)) (snap_key s) (filed (ss_cold ss) s)\<rparr>,
             ss_hot := hot_insert_arc ops (ss_hot ss) (snap_key s) s\<rparr>)"
  by (simp add: ss_store_def cold_save_eq hot_put_def hot_key_def snap_key_def)

lemma ss_retrieve_result:
  assumes "lru_ok ops view"
  shows "fst (ss_retrieve ops ss m a sid) =
    (case hot_view view ss (m, a, sid) of Some s \<Rightarrow> Inr s | None \<Rightarrow> cold_load (ss_cold ss) m a sid)"
  using lc_get_view(1) [OF assms, of "hi_snapshots (ss_hot ss)" "(m, a, sid)"]
  by (auto simp: ss_retrieve_def hot_get_def hot_key_def split: prod.splits option.splits sum.splits)

lemma ss_retrieve_cold [simp]: "ss_cold (snd (ss_retrieve ops ss m a sid)) = ss_cold ss"
  by (simp add: ss_retrieve_def split: prod.splits option.splits sum.splits)

lemma ss_retrieve_fork [simp]: "ss_fork (snd (ss_retrieve ops ss m a sid)) = ss_fork ss"
  by (simp add: ss_retrieve_def split: prod.splits option.splits sum.splits)

lemma ss_retrieve_hot:
  assumes "lru_ok ops view" and "hot_view view (snd (ss_retrieve ops ss m a sid)) k = Some s"
  shows "hot_view view ss k = Some s \<or> cold_view ss k = Some s"
proof -
  obtain r c where rc: "lc_get ops (hi_snapshots (ss_hot ss)) (m, a, sid) = (r, c)" by fastforce
  then have c: "view (lc_inner c) = view (lc_inner (hi_snapshots (ss_hot ss)))"
    using lc_get_view(2) [OF assms(1), of "hi_snapshots (ss_hot ss)" "(m, a, sid)"] by simp
  show ?thesis
  proof (cases "r = None \<and> (\<exists>v. cold_load (ss_cold ss) m a sid = Inr v)")
    case True
    then obtain v where v: "cold_load (ss_cold ss) m a sid = Inr v" and "r = None" by blast
    then have "view (lc_inner (lc_insert ops c (m, a, sid) v)) k = Some s"
      using assms(2) rc by (simp add: ss_retrieve_def hot_get_def hot_key_def hot_insert_arc_def)
    moreover from v have "cold_view ss (m, a, sid) = Some v"
      by (auto simp: cold_load_def split: option.splits)
    ultimately show ?thesis
      using lc_insert_view(1) [OF assms(1), of c "(m, a, sid)" v]
        lc_insert_view(2) [OF assms(1), of k "(m, a, sid)" c v] c
      by (cases "k = (m, a, sid)") auto
  next
    case False
    then have "ss_hot (snd (ss_retrieve ops ss m a sid)) = (ss_hot ss)\<lparr>hi_snapshots := c\<rparr>"
      using rc by (auto simp: ss_retrieve_def hot_get_def hot_key_def split: option.splits sum.splits)
    with assms(2) c show ?thesis by simp
  qed
qed

lemma hm_get_filter: "hm_wf m \<Longrightarrow> hm_get (filter (\<lambda>(k, v). P v) m) k = (case hm_get m k of Some v \<Rightarrow> if P v then Some v else None | None \<Rightarrow> None)"
proof (induction m)
  case (Cons p m)
  obtain j v where p: "p = (j, v)" by (cases p)
  from Cons.prems p have "hm_wf m" and "hm_get m j = None"
    by (auto simp: hm_wf_def hm_get_def map_of_eq_None_iff image_image)
  with Cons.IH p show ?case by (auto split: option.splits)
qed simp

lemma keys_filter: "set (map fst (filter (\<lambda>p. P (snd p)) m)) = {k. \<exists>s. (k, s) \<in> set m \<and> P s}"
  by force

lemma hm_wf_filter: "hm_wf m \<Longrightarrow> hm_wf (filter P m)"
  by (simp add: hm_wf_def distinct_map_filter)

lemma cold_evict_view:
  assumes "hm_wf (ci_entries ci)"
  shows "hm_get (ci_entries (snd (cold_evict ci now))) k =
    (case hm_get (ci_entries ci) k of
       Some s \<Rightarrow> if now - ks_last_used_at s < ci_ttl_secs ci then Some s else None
     | None \<Rightarrow> None)"
  using hm_get_filter [OF assms, of "\<lambda>snap. now - ks_last_used_at snap < ci_ttl_secs ci" k]
  by (simp add: cold_evict_def Let_def)

text \<open>The seed is the largest recorded turn number of the session.\<close>

lemma cold_seed_upper:
  assumes "(k, s) \<in> set (ci_entries ci)" and "ks_session_id s = sid" and "ks_turn_seq s = Some q"
  shows "q \<le> cold_seed_seq_for ci sid"
proof -
  let ?seqs = "List.map_filter ks_turn_seq (filter (\<lambda>s. ks_session_id s = sid) (map snd (ci_entries ci)))"
  from assms have q: "q \<in> set ?seqs" by (force simp: in_map_filter)
  then have "?seqs \<noteq> []" by (metis empty_iff empty_set)
  with q show ?thesis by (simp add: cold_seed_seq_for_def Let_def)
qed

text \<open>The invariant a history keeps, against the specification.\<close>

definition kv_inv :: "('c \<Rightarrow> snapshot_key \<Rightarrow> kv_snapshot option) \<Rightarrow> cold_index \<Rightarrow> kv_op list \<Rightarrow> 'c snapshot_store \<Rightarrow> bool" where
  "kv_inv view ci calls ss \<longleftrightarrow>
     ci_slot_save_path (ss_cold ss) = ci_slot_save_path ci \<and> ci_ttl_secs (ss_cold ss) = ci_ttl_secs ci \<and>
     hm_wf (ci_entries (ss_cold ss)) \<and>
     (\<forall>k s. cold_view ss k = Some s \<longrightarrow> (\<exists>t. last_stored calls k = Some t \<and> s = filed ci t)) \<and>
     (\<forall>k s. hot_view view ss k = Some s \<longrightarrow> (\<exists>t. last_stored calls k = Some t \<and> (s = t \<or> s = filed ci t))) \<and>
     (\<forall>k t. cold_view ss k = None \<and> last_stored calls k = Some t \<longrightarrow>
        (\<exists>now. KEvict now \<in> set calls \<and> ci_ttl_secs ci \<le> now - ks_last_used_at t))"

lemma filed_cong: "ci_slot_save_path a = ci_slot_save_path b \<Longrightarrow> filed a s = filed b s"
  by (simp add: filed_def derive_path_def)

lemma last_stored_snoc: "last_stored (calls @ [c]) = last_stored_step (last_stored calls) c"
  by (simp add: last_stored_def)

lemma kv_inv_store:
  assumes "lru_ok ops view" and "kv_inv view ci calls ss"
  shows "kv_inv view ci (calls @ [KStore s]) (ss_exec ops ss (KStore s))"
proof -
  let ?h = "lc_insert ops (hi_snapshots (ss_hot ss)) (snap_key s) s"
  have fil: "filed (ss_cold ss) s = filed ci s"
    using assms(2) by (intro filed_cong) (simp add: kv_inv_def)
  have hot: "view (lc_inner ?h) k = Some v \<Longrightarrow> (k = snap_key s \<and> v = s) \<or> (k \<noteq> snap_key s \<and> hot_view view ss k = Some v)" for k v
    using lc_insert_view(1) [OF assms(1), of "hi_snapshots (ss_hot ss)" "snap_key s" s]
      lc_insert_view(2) [OF assms(1), of k "snap_key s" "hi_snapshots (ss_hot ss)" s]
    by (cases "k = snap_key s") auto
  show ?thesis
    using assms(2) unfolding kv_inv_def
    by (auto simp: ss_store_eq fil last_stored_snoc hot_insert_arc_def dest!: hot split: if_splits)
qed

lemma kv_inv_retrieve:
  assumes "lru_ok ops view" and "kv_inv view ci calls ss"
  shows "kv_inv view ci (calls @ [KRetrieve m a sid]) (ss_exec ops ss (KRetrieve m a sid))"
proof -
  let ?ss = "snd (ss_retrieve ops ss m a sid)"
  have "\<exists>t. last_stored calls k = Some t \<and> (s = t \<or> s = filed ci t)" if "hot_view view ?ss k = Some s" for k s
    using ss_retrieve_hot [OF assms(1) that] assms(2) unfolding kv_inv_def by metis
  then show ?thesis using assms(2) by (simp add: kv_inv_def last_stored_snoc)
qed

lemma kv_inv_evict:
  assumes "kv_inv view ci calls ss"
  shows "kv_inv view ci (calls @ [KEvict now]) (ss_exec ops ss (KEvict now))"
proof -
  let ?ss = "snd (ss_evict ss now)"
  have wf: "hm_wf (ci_entries (ss_cold ss))" and ttl: "ci_ttl_secs (ss_cold ss) = ci_ttl_secs ci"
    using assms by (simp_all add: kv_inv_def)
  have cold: "ss_cold ?ss = snd (cold_evict (ss_cold ss) now)" and hot: "ss_hot ?ss = ss_hot ss"
    by (simp_all add: ss_evict_def split: prod.splits)
  have params: "ci_slot_save_path (snd (cold_evict (ss_cold ss) now)) = ci_slot_save_path (ss_cold ss)"
      "ci_ttl_secs (snd (cold_evict (ss_cold ss) now)) = ci_ttl_secs (ss_cold ss)"
      "hm_wf (ci_entries (snd (cold_evict (ss_cold ss) now)))"
    using wf by (simp_all add: cold_evict_def Let_def hm_wf_filter)
  have last: "last_stored (calls @ [KEvict now]) = last_stored calls" by (simp add: last_stored_snoc)
  have view: "cold_view ?ss k = (case cold_view ss k of
       Some s \<Rightarrow> if now - ks_last_used_at s < ci_ttl_secs ci then Some s else None | None \<Rightarrow> None)" for k
    using cold_evict_view [OF wf, of now k] by (simp add: cold ttl split: option.splits)
  have "\<exists>n. KEvict n \<in> set (calls @ [KEvict now]) \<and> ci_ttl_secs ci \<le> n - ks_last_used_at t"
    if gone: "cold_view ?ss k = None" and t: "last_stored calls k = Some t" for k t
  proof (cases "cold_view ss k")
    case None
    with t assms have "\<exists>n. KEvict n \<in> set calls \<and> ci_ttl_secs ci \<le> n - ks_last_used_at t"
      unfolding kv_inv_def by blast
    then show ?thesis by auto
  next
    case (Some s)
    with t assms have "s = filed ci t" unfolding kv_inv_def by (metis option.inject)
    with gone Some view [of k] have "ci_ttl_secs ci \<le> now - ks_last_used_at t"
      by (simp add: filed_def split: if_splits)
    then show ?thesis by auto
  qed
  moreover have "\<exists>t. last_stored calls k = Some t \<and> s = filed ci t" if "cold_view ?ss k = Some s" for k s
  proof -
    from that view [of k] have "cold_view ss k = Some s" by (auto split: option.splits if_splits)
    with assms show ?thesis unfolding kv_inv_def by blast
  qed
  ultimately show ?thesis
    using assms params unfolding kv_inv_def last
    by (simp add: cold hot del: split_paired_All split_paired_Ex) blast
qed

lemma kv_inv_run:
  assumes "lru_ok ops view" and "kv_inv view ci [] ss"
  shows "kv_inv view ci calls (ss_run ops ss calls)"
proof (induction calls rule: rev_induct)
  case (snoc c calls)
  then show ?case
    using kv_inv_store [OF assms(1)] kv_inv_retrieve [OF assms(1)] kv_inv_evict
    by (cases c) (simp_all add: ss_run_def del: ss_exec.simps)
qed (use assms(2) in \<open>simp add: ss_run_def\<close>)

lemma hot_new_eq:
  "hot_new ops capacity max_mb =
     Some \<lparr>hi_snapshots = \<lparr>lc_inner = lru_new ops (max capacity 1),
             lc_load = (\<lambda>_. Inl (KvNotFound ''hot tier is write-through; load-on-miss is never invoked''))\<rparr>,
           hi_max_mb = max_mb\<rparr>"
  by (simp add: hot_new_def lc_new_def)

lemma kv_inv_new:
  assumes "lru_ok ops view" and "hot_new ops capacity mb = Some hot"
  shows "kv_inv view (cold_new base mb' ttl) [] (ss_new hot (cold_new base mb' ttl))"
proof -
  have "view (lc_inner (hi_snapshots hot)) k = None" for k
    using assms(2) by (auto simp: hot_new_eq lru_okD(7) [OF assms(1)])
  then show ?thesis by (simp add: kv_inv_def ss_new_def cold_new_def last_stored_def)
qed

section \<open>Properties\<close>

text \<open>
  C12. After any history of stores, retrievals and TTL sweeps on a fresh store, \<open>retrieve\<close>
  returns the snapshot stored last under the key, unchanged but for its path (the caller's, or the
  derived one when it came through the cold tier), and never an older one; it fails only with
  \<open>NotFound\<close>, and only when nothing was stored under the key or a sweep found the last one
  expired. The result does not depend on what the LRU map evicted meanwhile.
\<close>

theorem retrieve_last_stored:
  assumes "lru_ok ops view" and "hot_new ops capacity mb = Some hot"
  shows "case fst (ss_retrieve ops (ss_run ops (ss_new hot (cold_new base mb' ttl)) calls) m a sid) of
           Inr s \<Rightarrow> (\<exists>t. last_stored calls (m, a, sid) = Some t \<and>
                      (s = t \<or> s = t\<lparr>ks_file_path := kv_snapshot_path base (ks_model t) (ks_instance t) (ks_snapshot_name t)\<rparr>))
         | Inl e \<Rightarrow> e = KvNotFound (''no snapshot for session '' @ [CHR 0x27] @ sid @ [CHR 0x27]) \<and>
                     (\<forall>t. last_stored calls (m, a, sid) = Some t \<longrightarrow>
                        (\<exists>now. KEvict now \<in> set calls \<and> ttl \<le> now - ks_last_used_at t))"
proof -
  let ?ci = "cold_new base mb' ttl" and ?k = "(m, a, sid)"
  let ?ss = "ss_run ops (ss_new hot ?ci) calls"
  have inv: "kv_inv view ?ci calls ?ss"
    by (rule kv_inv_run [OF assms(1) kv_inv_new [OF assms]])
  have fil: "filed ?ci t = t\<lparr>ks_file_path := kv_snapshot_path base (ks_model t) (ks_instance t) (ks_snapshot_name t)\<rparr>" for t
    by (simp add: filed_def derive_path_def cold_new_def)
  have ttl: "ci_ttl_secs ?ci = ttl" by (simp add: cold_new_def)
  show ?thesis
  proof (cases "hot_view view ?ss ?k")
    case (Some s)
    with inv have "\<exists>t. last_stored calls ?k = Some t \<and> (s = t \<or> s = filed ?ci t)"
      unfolding kv_inv_def by blast
    with Some show ?thesis by (simp add: ss_retrieve_result [OF assms(1)] fil)
  next
    case hot: None
    show ?thesis
    proof (cases "cold_view ?ss ?k")
      case (Some s)
      with inv have "\<exists>t. last_stored calls ?k = Some t \<and> s = filed ?ci t"
        unfolding kv_inv_def by blast
      with Some hot show ?thesis by (auto simp: ss_retrieve_result [OF assms(1)] cold_load_def fil)
    next
      case None
      with inv have "\<forall>t. last_stored calls ?k = Some t \<longrightarrow> (\<exists>now. KEvict now \<in> set calls \<and> ttl \<le> now - ks_last_used_at t)"
        unfolding kv_inv_def ttl by blast
      with None hot show ?thesis by (simp add: ss_retrieve_result [OF assms(1)] cold_load_def)
    qed
  qed
qed

text \<open>Two sessions share a hot tier of one entry, so the second store pushes the first one out.\<close>

definition sample_snapshot :: "string \<Rightarrow> nat \<Rightarrow> kv_snapshot" where
  "sample_snapshot sid used =
     \<lparr>ks_model = ''a/b:c'', ks_adapter = None, ks_session_id = sid, ks_snapshot_name = ''s1'',
      ks_instance = Some ''main'', ks_file_path = '''', ks_token_count = None, ks_created_at = used,
      ks_last_used_at = used, ks_llama_cpp_version = None, ks_model_quant = None,
      ks_base_model_hash = None, ks_turn_seq = Some used\<rparr>"

definition one_entry_store :: "(nat \<times> (snapshot_key, kv_snapshot) hmap) snapshot_store" where
  "one_entry_store = ss_new (the (hot_new list_lru 1 512)) (cold_new ''/kv'' 4096 100)"

theorem retrieve_last_stored_witness:
  "let ss = ss_run list_lru one_entry_store [KStore (sample_snapshot ''x'' 5), KStore (sample_snapshot ''y'' 6)];
       s = (sample_snapshot ''x'' 5)\<lparr>ks_file_path := ''/kv/a_b_c/main/s1.bin''\<rparr>
   in fst (ss_retrieve list_lru ss ''a/b:c'' None ''x'') = Inr s"
proof -
  let ?calls = "[KStore (sample_snapshot ''x'' 5), KStore (sample_snapshot ''y'' 6)]"
  let ?ss = "ss_run list_lru one_entry_store ?calls"
  have hot: "hot_new list_lru 1 512 = Some (the (hot_new list_lru 1 512))" by (simp add: hot_new_eq)
  have last: "last_stored ?calls (''a/b:c'', None, ''x'') = Some (sample_snapshot ''x'' 5)"
    by (simp add: last_stored_def snap_key_def sample_snapshot_def)
  have ok: "case fst (ss_retrieve list_lru ?ss ''a/b:c'' None ''x'') of Inr s \<Rightarrow> s \<noteq> sample_snapshot ''x'' 5 | Inl _ \<Rightarrow> False"
    by code_simp
  have path: "kv_snapshot_path ''/kv'' ''a/b:c'' (Some ''main'') ''s1'' = ''/kv/a_b_c/main/s1.bin''"
    by code_simp
  have fields: "ks_model (sample_snapshot ''x'' 5) = ''a/b:c''" "ks_instance (sample_snapshot ''x'' 5) = Some ''main''"
      "ks_snapshot_name (sample_snapshot ''x'' 5) = ''s1''"
    by (simp_all add: sample_snapshot_def)
  show ?thesis
    using retrieve_last_stored [OF list_lru_ok hot, where base = "''/kv''" and mb' = 4096 and ttl = 100
        and calls = ?calls and m = "''a/b:c''" and a = None and sid = "''x''"] ok
    by (auto simp: one_entry_store_def last path fields Let_def split: sum.splits)
qed

text \<open>
  A TTL sweep removes exactly the cold entries that are at least \<open>ttl_secs\<close> old, reports how
  many it removed, and does not touch the hot tier.
\<close>

theorem evict_exact:
  assumes "lru_ok ops view" and "hot_new ops capacity mb = Some hot"
    and "ss = ss_run ops (ss_new hot (cold_new base mb' ttl)) calls"
  shows "(\<exists>n. fst (ss_evict ss now) = Inr n \<and>
              n + length (ci_entries (ss_cold (snd (ss_evict ss now)))) = length (ci_entries (ss_cold ss)) \<and>
              n = card {k. \<exists>s. cold_view ss k = Some s \<and> ttl \<le> now - ks_last_used_at s}) \<and>
         (\<forall>k. cold_view (snd (ss_evict ss now)) k =
            (case cold_view ss k of Some s \<Rightarrow> if now - ks_last_used_at s < ttl then Some s else None | None \<Rightarrow> None)) \<and>
         ss_hot (snd (ss_evict ss now)) = ss_hot ss"
proof -
  let ?E = "ci_entries (ss_cold ss)" and ?dead = "\<lambda>p :: snapshot_key \<times> kv_snapshot. \<not> (now - ks_last_used_at (snd p) < ttl)"
  have inv: "kv_inv view (cold_new base mb' ttl) calls ss"
    unfolding assms(3) by (rule kv_inv_run [OF assms(1) kv_inv_new [OF assms(1,2)]])
  then have wf: "hm_wf ?E" and ttl: "ci_ttl_secs (ss_cold ss) = ttl"
    by (simp_all add: kv_inv_def cold_new_def)
  have len: "length (filter (\<lambda>p. \<not> ?dead p) ?E) + length (filter ?dead ?E) = length ?E"
    using sum_length_filter_compl [of "\<lambda>p. \<not> ?dead p" ?E] by simp
  have keys: "set (map fst (filter ?dead ?E)) = {k. \<exists>s. cold_view ss k = Some s \<and> ttl \<le> now - ks_last_used_at s}"
    unfolding hm_get_iff [OF wf] not_less
    by (rule keys_filter [where P = "\<lambda>s. ttl \<le> now - ks_last_used_at s"])
  have "distinct (map fst (filter ?dead ?E))" using wf by (simp add: hm_wf_def distinct_map_filter)
  then have "card {k. \<exists>s. cold_view ss k = Some s \<and> ttl \<le> now - ks_last_used_at s} = length (filter ?dead ?E)"
    unfolding keys [symmetric] by (simp only: distinct_card length_map)
  moreover have "ci_entries (ss_cold (snd (ss_evict ss now))) = filter (\<lambda>p. \<not> ?dead p) ?E"
    and "fst (ss_evict ss now) = Inr (length ?E - length (filter (\<lambda>p. \<not> ?dead p) ?E))"
    and "ss_hot (snd (ss_evict ss now)) = ss_hot ss"
    by (simp_all add: ss_evict_def cold_evict_def Let_def ttl case_prod_unfold)
  moreover have "cold_view (snd (ss_evict ss now)) k =
      (case cold_view ss k of Some s \<Rightarrow> if now - ks_last_used_at s < ttl then Some s else None | None \<Rightarrow> None)" for k
    using cold_evict_view [OF wf, of now k] by (simp add: ss_evict_def ttl case_prod_unfold split: option.splits)
  ultimately show ?thesis using len by simp
qed

theorem evict_exact_witness:
  "let ss = ss_run list_lru one_entry_store [KStore (sample_snapshot ''x'' 5), KStore (sample_snapshot ''y'' 106)]
   in fst (ss_evict ss 105) = Inr 1 \<and> ss_hot (snd (ss_evict ss 105)) = ss_hot ss"
proof -
  let ?calls = "[KStore (sample_snapshot ''x'' 5), KStore (sample_snapshot ''y'' 106)]"
  let ?ss = "ss_run list_lru one_entry_store ?calls"
  have hot: "hot_new list_lru 1 512 = Some (the (hot_new list_lru 1 512))" by (simp add: hot_new_eq)
  have ss: "?ss = ss_run list_lru (ss_new (the (hot_new list_lru 1 512)) (cold_new ''/kv'' 4096 100)) ?calls"
    by (simp add: one_entry_store_def)
  have "length (ci_entries (ss_cold ?ss)) = 2" by code_simp
  moreover have "length (ci_entries (ss_cold (snd (ss_evict ?ss 105)))) = 1" by code_simp
  ultimately show ?thesis
    using evict_exact [OF list_lru_ok hot ss, of 105] by (auto simp: Let_def)
qed

text \<open>The sweep leaves the hot tier alone, so an expired snapshot that is still hot is served.\<close>

lemma expired_but_hot:
  "let ss = snd (ss_evict (ss_run list_lru one_entry_store [KStore (sample_snapshot ''x'' 5)]) 105)
   in ci_entries (ss_cold ss) = [] \<and>
      map_sum id ks_session_id (fst (ss_retrieve list_lru ss ''a/b:c'' None ''x'')) = Inr ''x''"
  by code_simp

end
