(* ===== verification/Registry.thy ===== *)
theory Registry
  imports Prelude
begin

text \<open>
  The keyed registries of \<open>src/src/common-core/src/registry.rs\<close>.

  \<open>KeyedRegistry\<close> wraps a \<open>BTreeMap\<close>, modelled as an association list in ascending key order.
  \<open>ConcurrentRegistry\<close> wraps a hash map behind a read-write lock; values are shared handles, so the
  model keeps an address for each construction. \<open>resolve_or_create\<close> takes the lock twice, once to
  read and once to write: its two critical sections are two steps of a thread, and the step
  relation interleaves any number of threads.
\<close>

section \<open>The ordered registry\<close>

type_synonym ('k, 'v) keyed_registry = "('k \<times> 'v) list"

fun bt_insert :: "('k :: linorder, 'v) keyed_registry \<Rightarrow> 'k \<Rightarrow> 'v \<Rightarrow> ('k, 'v) keyed_registry" where
  "bt_insert [] k v = [(k, v)]"
| "bt_insert ((j, w) # m) k v =
     (if k < j then (k, v) # (j, w) # m
      else if k = j then (k, v) # m
      else (j, w) # bt_insert m k v)"

definition bt_remove :: "('k :: linorder, 'v) keyed_registry \<Rightarrow> 'k \<Rightarrow> ('k, 'v) keyed_registry" where
  "bt_remove m k = filter (\<lambda>p. fst p \<noteq> k) m"

definition kr_new :: "('k :: linorder, 'v) keyed_registry" where
  "kr_new = []"

definition kr_get :: "('k :: linorder, 'v) keyed_registry \<Rightarrow> 'k \<Rightarrow> 'v option" where
  "kr_get r = map_of r"

definition kr_insert :: "('k :: linorder, 'v) keyed_registry \<Rightarrow> 'k \<Rightarrow> 'v \<Rightarrow> 'v option \<times> ('k, 'v) keyed_registry" where
  "kr_insert r k v = (kr_get r k, bt_insert r k v)"

definition kr_contains :: "('k :: linorder, 'v) keyed_registry \<Rightarrow> 'k \<Rightarrow> bool" where
  "kr_contains r k \<longleftrightarrow> kr_get r k \<noteq> None"

definition kr_keys :: "('k :: linorder, 'v) keyed_registry \<Rightarrow> 'k list" where
  "kr_keys r = map fst r"

definition kr_values :: "('k :: linorder, 'v) keyed_registry \<Rightarrow> 'v list" where
  "kr_values r = map snd r"

definition kr_iter :: "('k :: linorder, 'v) keyed_registry \<Rightarrow> ('k \<times> 'v) list" where
  "kr_iter r = r"

definition kr_remove :: "('k :: linorder, 'v) keyed_registry \<Rightarrow> 'k \<Rightarrow> 'v option \<times> ('k, 'v) keyed_registry" where
  "kr_remove r k = (kr_get r k, bt_remove r k)"

definition kr_len :: "('k :: linorder, 'v) keyed_registry \<Rightarrow> nat" where
  "kr_len r = length r"

definition kr_is_empty :: "('k :: linorder, 'v) keyed_registry \<Rightarrow> bool" where
  "kr_is_empty r \<longleftrightarrow> r = []"

text \<open>The ordered map keeps the promises of a map as well.\<close>

lemma map_of_bt_insert: "map_of (bt_insert m k v) = (map_of m)(k \<mapsto> v)"
  by (induction m k v rule: bt_insert.induct) auto

lemma map_of_bt_remove: "map_of (bt_remove m k) = (map_of m)(k := None)"
  by (induction m) (auto simp: bt_remove_def fun_eq_iff)

interpretation bt: map_impl "kr_new" kr_get bt_insert bt_remove
  by unfold_locales (simp_all add: kr_new_def kr_get_def map_of_bt_insert map_of_bt_remove)

lemma keys_bt_insert: "set (map fst (bt_insert m k v)) = insert k (set (map fst m))"
  by (induction m k v rule: bt_insert.induct) auto

lemma bt_insert_sorted: "sorted_wrt (<) (map fst m) \<Longrightarrow> sorted_wrt (<) (map fst (bt_insert m k v))"
proof (induction m k v rule: bt_insert.induct)
  case (2 j w m k v)
  then show ?case
    using keys_bt_insert [of m k v] by auto
qed simp

lemma bt_remove_sorted: "sorted_wrt (<) (map fst m) \<Longrightarrow> sorted_wrt (<) (map fst (bt_remove m k))"
  by (induction m) (auto simp: bt_remove_def)

section \<open>The concurrent registry\<close>

text \<open>The map from keys to handles, and the values the handles point to in allocation order.\<close>

record ('k, 'v) conc_registry =
  cr_inner :: "('k, nat) hmap"
  cr_heap :: "'v list"

definition cr_new :: "('k, 'v) conc_registry" where
  "cr_new = \<lparr>cr_inner = hm_empty, cr_heap = []\<rparr>"

definition cr_get :: "('k, 'v) conc_registry \<Rightarrow> 'k \<Rightarrow> nat option" where
  "cr_get r key = hm_get (cr_inner r) key"

definition cr_keys :: "('k, 'v) conc_registry \<Rightarrow> 'k list" where
  "cr_keys r = hm_keys (cr_inner r)"

definition cr_remove :: "('k, 'v) conc_registry \<Rightarrow> 'k \<Rightarrow> nat option \<times> ('k, 'v) conc_registry" where
  "cr_remove r key = (hm_get (cr_inner r) key, r\<lparr>cr_inner := hm_remove (cr_inner r) key\<rparr>)"

text \<open>\<open>Arc::new\<close> is the next free address.\<close>

definition cr_insert :: "('k, 'v) conc_registry \<Rightarrow> 'k \<Rightarrow> 'v \<Rightarrow> nat option \<times> ('k, 'v) conc_registry" where
  "cr_insert r key value =
     (hm_get (cr_inner r) key,
      r\<lparr>cr_inner := hm_insert (cr_inner r) key (length (cr_heap r)), cr_heap := cr_heap r @ [value]\<rparr>)"

definition cr_len :: "('k, 'v) conc_registry \<Rightarrow> nat" where
  "cr_len r = length (cr_inner r)"

definition cr_is_empty :: "('k, 'v) conc_registry \<Rightarrow> bool" where
  "cr_is_empty r \<longleftrightarrow> cr_len r = 0"

text \<open>The second critical section of \<open>resolve_or_create\<close>, under the write lock.\<close>

definition resolve_locked :: "('k, 'v) conc_registry \<Rightarrow> 'k \<Rightarrow> ('k \<Rightarrow> 'v) \<Rightarrow> nat \<times> ('k, 'v) conc_registry" where
  "resolve_locked r key ctor =
     (case hm_get (cr_inner r) key of
        Some existing \<Rightarrow> (existing, r)
      | None \<Rightarrow>
          let created = length (cr_heap r)
          in (created, r\<lparr>cr_inner := hm_insert (cr_inner r) key created, cr_heap := cr_heap r @ [ctor key]\<rparr>))"

text \<open>The call when no other thread runs in between.\<close>

definition cr_resolve_or_create :: "('k, 'v) conc_registry \<Rightarrow> 'k \<Rightarrow> ('k \<Rightarrow> 'v) \<Rightarrow> nat \<times> ('k, 'v) conc_registry" where
  "cr_resolve_or_create r key ctor =
     (case cr_get r key of Some existing \<Rightarrow> (existing, r) | None \<Rightarrow> resolve_locked r key ctor)"

subsection \<open>Interleaved calls\<close>

text \<open>A call of \<open>resolve_or_create\<close> by one thread: not begun, past the failed read, returned.\<close>

datatype resolve_pc = RStart | RMissed | RDone nat

record ('k, 'v) conc_state =
  cs_reg :: "('k, 'v) conc_registry"
  cs_pc :: "nat \<Rightarrow> resolve_pc"
  cs_built :: "'k list"

text \<open>
  \<open>who t\<close> is the key thread \<open>t\<close> asks for and \<open>ctor\<close> the constructor. \<open>cs_built\<close> records the
  constructor calls.
\<close>

inductive resolve_step :: "(nat \<Rightarrow> 'k) \<Rightarrow> ('k \<Rightarrow> 'v) \<Rightarrow> ('k, 'v) conc_state \<Rightarrow> ('k, 'v) conc_state \<Rightarrow> bool"
  for who ctor where
  read_hit: "cs_pc s t = RStart \<Longrightarrow> cr_get (cs_reg s) (who t) = Some a \<Longrightarrow>
     resolve_step who ctor s (s\<lparr>cs_pc := (cs_pc s)(t := RDone a)\<rparr>)"
| read_miss: "cs_pc s t = RStart \<Longrightarrow> cr_get (cs_reg s) (who t) = None \<Longrightarrow>
     resolve_step who ctor s (s\<lparr>cs_pc := (cs_pc s)(t := RMissed)\<rparr>)"
| locked: "cs_pc s t = RMissed \<Longrightarrow> resolve_locked (cs_reg s) (who t) ctor = (a, r) \<Longrightarrow>
     resolve_step who ctor s
       (s\<lparr>cs_reg := r, cs_pc := (cs_pc s)(t := RDone a),
          cs_built := (if cr_get (cs_reg s) (who t) = None then cs_built s @ [who t] else cs_built s)\<rparr>)"

definition conc_start :: "('k, 'v) conc_state" where
  "conc_start = \<lparr>cs_reg = cr_new, cs_pc = (\<lambda>_. RStart), cs_built = []\<rparr>"

abbreviation resolve_steps :: "(nat \<Rightarrow> 'k) \<Rightarrow> ('k \<Rightarrow> 'v) \<Rightarrow> ('k, 'v) conc_state \<Rightarrow> ('k, 'v) conc_state \<Rightarrow> bool" where
  "resolve_steps who ctor \<equiv> (resolve_step who ctor)\<^sup>*\<^sup>*"

definition conc_inv :: "(nat \<Rightarrow> 'k) \<Rightarrow> ('k \<Rightarrow> 'v) \<Rightarrow> ('k, 'v) conc_state \<Rightarrow> bool" where
  "conc_inv who ctor s \<longleftrightarrow>
     (\<forall>t a. cs_pc s t = RDone a \<longrightarrow> cr_get (cs_reg s) (who t) = Some a) \<and>
     (\<forall>k a. cr_get (cs_reg s) k = Some a \<longrightarrow> a < length (cr_heap (cs_reg s)) \<and> cr_heap (cs_reg s) ! a = ctor k) \<and>
     (\<forall>j k a. cr_get (cs_reg s) j = Some a \<and> cr_get (cs_reg s) k = Some a \<longrightarrow> j = k) \<and>
     distinct (cs_built s) \<and> set (cs_built s) = dom (cr_get (cs_reg s)) \<and>
     length (cr_heap (cs_reg s)) = length (cs_built s)"

lemma conc_inv_start: "conc_inv who ctor conc_start"
  by (auto simp: conc_inv_def conc_start_def cr_new_def cr_get_def)

lemma conc_inv_step: "resolve_step who ctor s s' \<Longrightarrow> conc_inv who ctor s \<Longrightarrow> conc_inv who ctor s'"
proof (induction rule: resolve_step.induct)
  case (locked s t a r)
  show ?case
  proof (cases "cr_get (cs_reg s) (who t)")
    case (Some b)
    with locked have "a = b" and "r = cs_reg s" by (simp_all add: resolve_locked_def cr_get_def)
    with Some locked show ?thesis by (auto simp: conc_inv_def)
  next
    case None
    with locked have a: "a = length (cr_heap (cs_reg s))"
      and r: "r = (cs_reg s)\<lparr>cr_inner := hm_insert (cr_inner (cs_reg s)) (who t) a, cr_heap := cr_heap (cs_reg s) @ [ctor (who t)]\<rparr>"
      by (auto simp: resolve_locked_def cr_get_def Let_def)
    have heap: "cr_heap r = cr_heap (cs_reg s) @ [ctor (who t)]" by (simp add: r)
    have get: "cr_get r = (cr_get (cs_reg s))(who t \<mapsto> a)" by (simp add: r cr_get_def fun_eq_iff)
    from None have "who t \<notin> dom (cr_get (cs_reg s))" by auto
    moreover have "cr_get (cs_reg s) k \<noteq> Some (length (cs_built s))" for k
      using locked.prems unfolding conc_inv_def by (metis less_irrefl)
    moreover have "cr_get (cs_reg s) (who u) = Some b \<Longrightarrow> who u \<noteq> who t" for u b using None by auto
    ultimately show ?thesis
      using locked.prems None a by (auto simp: conc_inv_def get heap nth_append less_Suc_eq)
  qed
qed (auto simp: conc_inv_def)

lemma conc_inv_reach: "resolve_steps who ctor conc_start s \<Longrightarrow> conc_inv who ctor s"
  by (induction rule: rtranclp_induct) (auto intro: conc_inv_start conc_inv_step)

section \<open>Properties\<close>

text \<open>
  C13. However the calls of \<open>resolve_or_create\<close> by any number of threads interleave on a fresh
  registry: two calls for the same key return the same handle, two calls for different keys different
  handles, the handle points to the value the constructor built for the key, and the constructor
  runs at most once per key.
\<close>

theorem resolve_once:
  assumes "resolve_steps who ctor conc_start s"
    and "cs_pc s t = RDone a" and "cs_pc s u = RDone b"
  shows "(who t = who u \<longleftrightarrow> a = b) \<and> cr_heap (cs_reg s) ! a = ctor (who t) \<and>
         distinct (cs_built s) \<and> length (cr_heap (cs_reg s)) = card (dom (cr_get (cs_reg s)))"
proof -
  have inv: "conc_inv who ctor s" using assms(1) by (rule conc_inv_reach)
  then have ta: "cr_get (cs_reg s) (who t) = Some a" and ub: "cr_get (cs_reg s) (who u) = Some b"
    using assms(2,3) by (simp_all add: conc_inv_def)
  have "who t = who u \<longleftrightarrow> a = b"
    using inv ta ub unfolding conc_inv_def by (metis option.inject)
  moreover have "card (dom (cr_get (cs_reg s))) = length (cs_built s)"
    using inv by (metis conc_inv_def distinct_card)
  ultimately show ?thesis using inv ta by (simp add: conc_inv_def)
qed

text \<open>Two threads both miss the key \<open>7\<close> before either takes the write lock.\<close>

definition raced :: "(nat, nat) conc_state" where
  "raced = \<lparr>cs_reg = \<lparr>cr_inner = [(7, 0)], cr_heap = [49]\<rparr>, cs_pc = (\<lambda>_. RStart)(0 := RDone 0, 1 := RDone 0), cs_built = [7]\<rparr>"

lemma raced_reachable: "resolve_steps (\<lambda>_. 7) (\<lambda>k. k * k) conc_start raced"
proof -
  let ?who = "\<lambda>_ :: nat. 7 :: nat" and ?ctor = "\<lambda>k :: nat. k * k"
  let ?s1 = "conc_start\<lparr>cs_pc := (\<lambda>_. RStart)(0 := RMissed)\<rparr> :: (nat, nat) conc_state"
  let ?s2 = "?s1\<lparr>cs_pc := (\<lambda>_. RStart)(0 := RMissed, 1 := RMissed)\<rparr>"
  let ?s3 = "\<lparr>cs_reg = \<lparr>cr_inner = [(7, 0)], cr_heap = [49]\<rparr>, cs_pc = (\<lambda>_. RStart)(0 := RDone 0, 1 := RMissed), cs_built = [7]\<rparr> :: (nat, nat) conc_state"
  have "resolve_step ?who ?ctor conc_start ?s1"
    using read_miss [of conc_start 0 ?who ?ctor] by (simp add: conc_start_def cr_new_def cr_get_def)
  moreover have "resolve_step ?who ?ctor ?s1 ?s2"
    using read_miss [of ?s1 1 ?who ?ctor] by (simp add: conc_start_def cr_new_def cr_get_def)
  moreover have "resolve_step ?who ?ctor ?s2 ?s3"
    using locked [of ?s2 0 ?who ?ctor 0 "\<lparr>cr_inner = [(7, 0)], cr_heap = [49]\<rparr>"]
    by (simp add: conc_start_def cr_new_def cr_get_def resolve_locked_def hm_insert_def hm_empty_def fun_upd_twist)
  moreover have "resolve_step ?who ?ctor ?s3 raced"
    using locked [of ?s3 1 ?who ?ctor 0 "\<lparr>cr_inner = [(7, 0)], cr_heap = [49]\<rparr>"]
    by (simp add: raced_def cr_get_def resolve_locked_def)
  ultimately show ?thesis by (meson converse_rtranclp_into_rtranclp rtranclp.rtrancl_refl)
qed

theorem resolve_once_witness:
  "cr_heap (cs_reg raced) ! 0 = 49 \<and> length (cr_heap (cs_reg raced)) = card (dom (cr_get (cs_reg raced)))"
  using resolve_once [OF raced_reachable, of 0 0 1 0] by (simp add: raced_def)

text \<open>
  A \<open>KeyedRegistry\<close> lists its keys in strictly ascending order after any insertions and
  removals, and behaves as a map: \<open>insert\<close> and \<open>remove\<close> return the previous value and change the
  lookup of their key only.
\<close>

theorem keyed_registry_sorted_map:
  assumes "sorted_wrt (<) (kr_keys r)"
  shows "case kr_insert r k v of (old, r') \<Rightarrow>
           old = kr_get r k \<and> kr_get r' = (kr_get r)(k \<mapsto> v) \<and> sorted_wrt (<) (kr_keys r') \<and>
           kr_len r' = (if kr_contains r k then kr_len r else kr_len r + 1) \<and>
           (case kr_remove r' k of (cur, r'') \<Rightarrow>
              cur = Some v \<and> kr_get r'' = (kr_get r)(k := None) \<and> sorted_wrt (<) (kr_keys r'') \<and>
              kr_len r'' + 1 = kr_len r')"
proof -
  have sorted: "sorted_wrt (<) (map fst (bt_insert r k v))"
    using assms by (simp add: kr_keys_def bt_insert_sorted)
  have len: "kr_len m = card (dom (kr_get m))" if "sorted_wrt (<) (map fst m)" for m :: "('a, 'b) keyed_registry"
  proof -
    from that have "distinct (map fst m)" by (simp add: strict_sorted_iff)
    then show ?thesis
      by (metis dom_map_of_conv_image_fst distinct_card kr_get_def kr_len_def length_map set_map)
  qed
  have fin: "finite (dom (kr_get r))" by (simp add: kr_get_def finite_dom_map_of)
  have "kr_len (bt_insert r k v) = card (insert k (dom (kr_get r)))"
    by (simp only: len [OF sorted] bt.dom_insert)
  moreover have "kr_len (bt_remove (bt_insert r k v) k) = card (insert k (dom (kr_get r)) - {k})"
    by (simp only: len [OF bt_remove_sorted [OF sorted]] bt.dom_remove bt.dom_insert)
  moreover have "kr_len r = card (dom (kr_get r))" using assms by (simp add: kr_keys_def len)
  moreover have "Suc (card (insert k (dom (kr_get r)) - {k})) = card (insert k (dom (kr_get r)))"
    using fin by (simp add: card.remove [of _ k] del: insert_Diff_single)
  ultimately show ?thesis
    using fin sorted bt_remove_sorted [OF sorted, of k]
    by (auto simp: kr_insert_def kr_remove_def kr_keys_def kr_contains_def bt.lookup_insert bt.lookup_remove
        card_insert_if dom_def)
qed

theorem keyed_registry_sorted_map_witness:
  "snd (kr_insert [(1 :: nat, ''a''), (5, ''b'')] 3 ''c'') = [(1, ''a''), (3, ''c''), (5, ''b'')] \<and>
   kr_len (snd (kr_insert [(1 :: nat, ''a''), (5, ''b'')] 3 ''c'')) = 3"
proof -
  have "sorted_wrt (<) (kr_keys [(1 :: nat, ''a''), (5, ''b'')])" by (simp add: kr_keys_def)
  from keyed_registry_sorted_map [OF this, of 3 "''c''"] show ?thesis
    by (simp add: kr_insert_def kr_len_def kr_contains_def kr_get_def)
qed

end
