(* ===== verification/DagSession.thy ===== *)
theory DagSession
  imports Checkpointed KvCache Registry
begin

text \<open>
  The dependency session of \<open>src/src/router/src/dag_session.rs\<close>: steps with a status in a
  checkpointed step graph (theory \<open>Checkpointed\<close>), a key-value snapshot index shared by the sessions
  (theory \<open>KvCache\<close>), and the registry of sessions (theory \<open>Registry\<close>).

  A session holds a handle to the shared index; the model keeps whether the handle is attached and
  passes the index itself through the operations that use it. The score of a step result (\<open>f64\<close>) is
  only stored: a type parameter. The hash \<open>blake3_hex\<close>, which wraps a third-party crate, is a
  parameter. Operations that can fail after a write return the error and the session; \<open>None\<close> is a
  panic. Log and audit output is left out.
\<close>

section \<open>Steps\<close>

datatype step_status = Pending | InProgress | Completed | Failed | Cancelled

datatype dag_error =
    StepNotFound string
  | StepAlreadyCompleted string
  | Graph "string graph_error"
  | CheckpointNotFound string
  | KvCacheErr kv_error

record 'f step_result =
  sr_content :: string
  sr_accepted :: bool
  sr_score :: "'f option"
  sr_latency_ms :: nat
  sr_error :: "string option"

record 'f session_step =
  st_id :: string
  st_description :: string
  st_status :: step_status
  st_depends_on :: "string list"
  st_result :: "'f step_result option"
  st_checkpoint :: bool

definition step_new :: "string \<Rightarrow> string \<Rightarrow> 'f session_step" where
  "step_new ident description =
     \<lparr>st_id = ident, st_description = description, st_status = Pending, st_depends_on = [],
      st_result = None, st_checkpoint = False\<rparr>"

definition step_with_depends :: "'f session_step \<Rightarrow> string list \<Rightarrow> 'f session_step" where
  "step_with_depends st deps = st\<lparr>st_depends_on := deps\<rparr>"

definition step_with_checkpoint :: "'f session_step \<Rightarrow> 'f session_step" where
  "step_with_checkpoint st = st\<lparr>st_checkpoint := True\<rparr>"

datatype kv_snapshot_policy = RestoreIfSameModel | AlwaysRestore | NeverRestore

definition decide_restore :: "kv_snapshot_policy \<Rightarrow> string option \<Rightarrow> string \<Rightarrow> bool" where
  "decide_restore policy snapshot_model requested_model =
     (case policy of
        NeverRestore \<Rightarrow> False
      | AlwaysRestore \<Rightarrow> snapshot_model \<noteq> None
      | RestoreIfSameModel \<Rightarrow> snapshot_model = Some requested_model)"

section \<open>The session\<close>

record 'f dep_session =
  se_session_id :: string
  se_model :: "string option"
  se_adapter :: "string option"
  se_graph :: "(string, 'f session_step) step_graph"
  se_kv_cache :: bool
  se_pending_snapshot :: "kv_snapshot option"
  se_snapshot_seq :: nat
  se_snapshot_on_advance :: bool
  se_frontier_owned :: bool

definition se_new :: "string \<Rightarrow> 'f dep_session" where
  "se_new session_id =
     \<lparr>se_session_id = session_id, se_model = None, se_adapter = None, se_graph = sg_new,
      se_kv_cache = False, se_pending_snapshot = None, se_snapshot_seq = 0,
      se_snapshot_on_advance = False, se_frontier_owned = False\<rparr>"

definition se_set_model :: "'f dep_session \<Rightarrow> string \<Rightarrow> 'f dep_session" where
  "se_set_model s model = s\<lparr>se_model := Some model\<rparr>"

definition se_with_model :: "'f dep_session \<Rightarrow> string \<Rightarrow> 'f dep_session" where
  "se_with_model s model = s\<lparr>se_model := Some model\<rparr>"

definition se_set_frontier_owned :: "'f dep_session \<Rightarrow> bool \<Rightarrow> 'f dep_session" where
  "se_set_frontier_owned s owned = s\<lparr>se_frontier_owned := owned\<rparr>"

definition se_with_adapter :: "'f dep_session \<Rightarrow> string \<Rightarrow> 'f dep_session" where
  "se_with_adapter s adapter = s\<lparr>se_adapter := Some adapter\<rparr>"

definition se_with_kv_cache :: "'f dep_session \<Rightarrow> 'f dep_session" where
  "se_with_kv_cache s = s\<lparr>se_kv_cache := True\<rparr>"

definition se_with_snapshot_on_advance :: "'f dep_session \<Rightarrow> 'f dep_session" where
  "se_with_snapshot_on_advance s = s\<lparr>se_snapshot_on_advance := True\<rparr>"

definition se_set_snapshot_on_advance :: "'f dep_session \<Rightarrow> bool \<Rightarrow> 'f dep_session" where
  "se_set_snapshot_on_advance s enabled = s\<lparr>se_snapshot_on_advance := enabled\<rparr>"

definition se_add_step :: "'f dep_session \<Rightarrow> 'f session_step \<Rightarrow> dag_error + 'f dep_session" where
  "se_add_step s step =
     (case sg_add_step (se_graph s) (st_id step) (st_depends_on step) step of
        Inl e \<Rightarrow> Inl (Graph e)
      | Inr g \<Rightarrow> Inr (s\<lparr>se_graph := g\<rparr>))"

definition cancel_one :: "(string, 'f session_step) step_graph \<Rightarrow> string \<Rightarrow> (string, 'f session_step) step_graph" where
  "cancel_one g dep_id =
     (case sg_status g dep_id of
        Some step \<Rightarrow>
          if st_status step = Pending \<or> st_status step = InProgress
          then sg_set_state g dep_id (step\<lparr>st_status := Cancelled\<rparr>) else g
      | None \<Rightarrow> g)"

definition se_cancel_dependents :: "'f dep_session \<Rightarrow> string \<Rightarrow> 'f dep_session" where
  "se_cancel_dependents s step_id =
     s\<lparr>se_graph := foldl cancel_one (se_graph s) (sg_cancel_dependents (se_graph s) step_id)\<rparr>"

definition se_complete_step :: "'f dep_session \<Rightarrow> string \<Rightarrow> 'f step_result \<Rightarrow> (dag_error + unit) \<times> 'f dep_session" where
  "se_complete_step s step_id result =
     (let should_cancel = \<not> sr_accepted result \<or> sr_error result \<noteq> None in
      case sg_status (se_graph s) step_id of
        None \<Rightarrow> (Inl (StepNotFound step_id), s)
      | Some step \<Rightarrow>
          if st_status step = Completed then (Inl (StepAlreadyCompleted step_id), s)
          else
            let step' = step\<lparr>st_status := (if should_cancel then Failed else Completed), st_result := Some result\<rparr>;
                g = sg_complete (sg_set_state (se_graph s) step_id step') step_id;
                s1 = s\<lparr>se_graph := g\<rparr>;
                s2 = (if should_cancel then se_cancel_dependents s1 step_id else s1)
            in if st_checkpoint step then
                 (case sg_checkpoint (se_graph s2) step_id of
                    Inl e \<Rightarrow> (Inl (Graph e), s2)
                  | Inr g' \<Rightarrow> (Inr (), s2\<lparr>se_graph := g'\<rparr>))
               else (Inr (), s2))"

definition se_next_ready :: "'f dep_session \<Rightarrow> string list" where
  "se_next_ready s =
     filter (\<lambda>id. case sg_status (se_graph s) id of Some st \<Rightarrow> st_status st = Pending | None \<Rightarrow> False)
       (filter (\<lambda>id. \<not> sg_is_completed (se_graph s) id) (sg_ready_steps (se_graph s)))"

definition se_is_ready :: "'f dep_session \<Rightarrow> string \<Rightarrow> bool" where
  "se_is_ready s step_id = sg_is_ready (se_graph s) step_id"

definition se_checkpoints :: "'f dep_session \<Rightarrow> string list" where
  "se_checkpoints s =
     filter (\<lambda>id. case sg_status (se_graph s) id of Some st \<Rightarrow> st_checkpoint st | None \<Rightarrow> False)
       (sg_order (se_graph s))"

definition rewind_one :: "(string, 'f session_step) step_graph \<Rightarrow> string \<Rightarrow> (string, 'f session_step) step_graph" where
  "rewind_one g step_id =
     (case sg_status g step_id of
        Some step \<Rightarrow>
          if st_status step = Completed \<or> st_status step = Cancelled \<or> st_status step = Failed
          then sg_set_state g step_id (step\<lparr>st_status := Pending\<rparr>) else g
      | None \<Rightarrow> g)"

definition restore_kv_snapshot ::
  "'c kv_lru \<Rightarrow> 'f dep_session \<Rightarrow> 'c snapshot_store \<Rightarrow> string \<Rightarrow> kv_snapshot option \<times> 'f dep_session \<times> 'c snapshot_store" where
  "restore_kv_snapshot ops s kv model =
     (if \<not> se_kv_cache s then (None, s, kv)
      else case ss_retrieve ops kv model (se_adapter s) (se_session_id s) of
             (Inr snapshot, kv') \<Rightarrow> (Some snapshot, s\<lparr>se_pending_snapshot := Some snapshot\<rparr>, kv')
           | (Inl _, kv') \<Rightarrow> (None, s, kv'))"

definition se_rewind_to_checkpoint ::
  "'c kv_lru \<Rightarrow> 'f dep_session \<Rightarrow> 'c snapshot_store \<Rightarrow> string \<Rightarrow>
   ((dag_error + kv_snapshot option) \<times> 'f dep_session \<times> 'c snapshot_store) option" where
  "se_rewind_to_checkpoint ops s kv checkpoint_name =
     (case sg_rewind_to (se_graph s) checkpoint_name of
        None \<Rightarrow> None
      | Some (Inl _) \<Rightarrow> Some (Inl (CheckpointNotFound checkpoint_name), s, kv)
      | Some (Inr (reset, g)) \<Rightarrow>
          let s1 = s\<lparr>se_graph := foldl rewind_one g reset\<rparr> in
          case se_model s1 of
            None \<Rightarrow> Some (Inr None, s1, kv)
          | Some model \<Rightarrow>
              (case restore_kv_snapshot ops s1 kv model of (r, s2, kv') \<Rightarrow> Some (Inr r, s2, kv')))"

definition se_pending_kv_fields :: "'f dep_session \<Rightarrow> (string \<times> string option \<times> int) option" where
  "se_pending_kv_fields s =
     map_option (\<lambda>k. (ks_snapshot_name k, ks_instance k, 0)) (se_pending_snapshot s)"

text \<open>\<open>{:06}\<close>: padded with zeros to at least six digits.\<close>

definition zero_pad6 :: "nat \<Rightarrow> string" where
  "zero_pad6 n = replicate (6 - length (show_nat n)) (CHR ''0'') @ show_nat n"

text \<open>The sequence number is a \<open>u64\<close>; \<open>+ 1\<close> wraps in a release build.\<close>

definition next_seq :: "nat \<Rightarrow> nat \<Rightarrow> nat" where
  "next_seq snapshot_seq cold_seq = (max snapshot_seq cold_seq + 1) mod (u64_max + 1)"

definition snapshot_name_for :: "(string \<Rightarrow> string) \<Rightarrow> string \<Rightarrow> nat \<Rightarrow> string option" where
  "snapshot_name_for blake3_hex session_id seq =
     (let hash_hex = blake3_hex (session_id @ ''-'' @ show_nat seq) in
      if length hash_hex < 8 then None
      else Some (session_id @ ''-'' @ zero_pad6 seq @ ''-'' @ take 8 hash_hex))"

definition se_advance_and_snapshot ::
  "'c kv_lru \<Rightarrow> (string \<Rightarrow> string) \<Rightarrow> (string \<Rightarrow> string \<Rightarrow> string + unit) \<Rightarrow> nat \<Rightarrow> nat \<Rightarrow>
   'f dep_session \<Rightarrow> 'c snapshot_store \<Rightarrow> string \<Rightarrow>
   ((dag_error + kv_snapshot option) \<times> 'f dep_session \<times> 'c snapshot_store) option" where
  "se_advance_and_snapshot ops blake3_hex fork_save now1 now2 s kv inst =
     (if \<not> se_snapshot_on_advance s then Some (Inr None, s, kv)
      else case se_model s of
        None \<Rightarrow> Some (Inr None, s, kv)
      | Some model \<Rightarrow>
          if \<not> se_kv_cache s then Some (Inr None, s, kv)
          else
            let cold_seq = ss_seed_seq_for kv (se_session_id s);
                s1 = s\<lparr>se_snapshot_seq := next_seq (se_snapshot_seq s) cold_seq\<rparr>
            in case snapshot_name_for blake3_hex (se_session_id s1) (se_snapshot_seq s1) of
                 None \<Rightarrow> None
               | Some snapshot_name \<Rightarrow>
                   (case ss_save_snapshot_with_seq ops fork_save now1 now2 kv model (se_adapter s1)
                           (se_session_id s1) snapshot_name inst (Some (se_snapshot_seq s1)) of
                      Inl e \<Rightarrow> Some (Inl (KvCacheErr e), s1, kv)
                    | Inr kv1 \<Rightarrow>
                        (case ss_retrieve ops kv1 model (se_adapter s1) (se_session_id s1) of
                           (Inr snapshot, kv2) \<Rightarrow>
                             Some (Inr (Some snapshot), s1\<lparr>se_pending_snapshot := Some snapshot\<rparr>, kv2)
                         | (Inl (KvNotFound _), kv2) \<Rightarrow> Some (Inr None, s1, kv2)
                         | (Inl e, kv2) \<Rightarrow> Some (Inl (KvCacheErr e), s1, kv2))))"

text \<open>\<open>{:?}\<close> of a status.\<close>

fun status_debug :: "step_status \<Rightarrow> string" where
  "status_debug Pending = ''Pending''"
| "status_debug InProgress = ''InProgress''"
| "status_debug Completed = ''Completed''"
| "status_debug Failed = ''Failed''"
| "status_debug Cancelled = ''Cancelled''"

definition se_start_step :: "'f dep_session \<Rightarrow> string \<Rightarrow> dag_error + 'f dep_session" where
  "se_start_step s step_id =
     (case sg_status (se_graph s) step_id of
        None \<Rightarrow> Inl (StepNotFound step_id)
      | Some step \<Rightarrow>
          if st_status step \<noteq> Pending then
            Inl (StepAlreadyCompleted (''step '' @ [CHR 0x27] @ step_id @ [CHR 0x27] @
                   '' is not Pending (current: '' @ status_debug (st_status step) @ '')''))
          else Inr (s\<lparr>se_graph := sg_set_state (se_graph s) step_id (step\<lparr>st_status := InProgress\<rparr>)\<rparr>))"

definition se_get_step :: "'f dep_session \<Rightarrow> string \<Rightarrow> 'f session_step option" where
  "se_get_step s step_id = sg_status (se_graph s) step_id"

definition se_step_ids :: "'f dep_session \<Rightarrow> string list" where
  "se_step_ids s = sg_order (se_graph s)"

definition se_step_count :: "'f dep_session \<Rightarrow> nat" where
  "se_step_count s = sg_step_count (se_graph s)"

definition se_completed_count :: "'f dep_session \<Rightarrow> nat" where
  "se_completed_count s = sg_completed_count (se_graph s)"

definition se_unresolved_deps :: "'f dep_session \<Rightarrow> string list" where
  "se_unresolved_deps s = sg_unresolved_deps (se_graph s)"

section \<open>The registry of sessions\<close>

definition SESSION_SNAPSHOT_SWEEP_INTERVAL :: nat where
  "SESSION_SNAPSHOT_SWEEP_INTERVAL = 3600"

record ('c, 'f) session_registry =
  sr_sessions :: "(string, 'f dep_session) conc_registry"
  sr_kv_cache :: "'c snapshot_store"

definition sr_new :: "'c kv_lru \<Rightarrow> string \<Rightarrow> string option \<Rightarrow> ('c, 'f) session_registry option" where
  "sr_new ops temp_dir kv_root =
     (case hot_new ops 1024 512 of
        None \<Rightarrow> None
      | Some hot \<Rightarrow>
          let cold = cold_new (case kv_root of Some p \<Rightarrow> p | None \<Rightarrow> path_join temp_dir ''coral-router-kv-cache'')
                       4096 (7 * 24 * 3600)
          in Some \<lparr>sr_sessions = cr_new, sr_kv_cache = ss_new hot cold\<rparr>)"

definition sr_with_kv_cache :: "'c snapshot_store \<Rightarrow> ('c, 'f) session_registry" where
  "sr_with_kv_cache kv = \<lparr>sr_sessions = cr_new, sr_kv_cache = kv\<rparr>"

definition sr_evict_expired :: "('c, 'f) session_registry \<Rightarrow> nat \<Rightarrow> nat \<times> ('c, 'f) session_registry" where
  "sr_evict_expired r now =
     (case ss_evict (sr_kv_cache r) now of
        (Inr n, kv) \<Rightarrow> (n, r\<lparr>sr_kv_cache := kv\<rparr>)
      | (Inl _, kv) \<Rightarrow> (0, r\<lparr>sr_kv_cache := kv\<rparr>))"

definition sr_session_ctor :: "'c snapshot_store \<Rightarrow> string \<Rightarrow> 'f dep_session" where
  "sr_session_ctor kv ident =
     (let seed = ss_seed_seq_for kv ident
      in (se_with_kv_cache (se_new ident))\<lparr>se_snapshot_seq := seed\<rparr>)"

definition sr_get_or_create :: "('c, 'f) session_registry \<Rightarrow> string \<Rightarrow> nat \<times> ('c, 'f) session_registry" where
  "sr_get_or_create r session_id =
     (case cr_resolve_or_create (sr_sessions r) session_id (sr_session_ctor (sr_kv_cache r)) of
        (handle, sessions) \<Rightarrow> (handle, r\<lparr>sr_sessions := sessions\<rparr>))"

definition sr_remove :: "('c, 'f) session_registry \<Rightarrow> string \<Rightarrow> ('c, 'f) session_registry" where
  "sr_remove r session_id = r\<lparr>sr_sessions := snd (cr_remove (sr_sessions r) session_id)\<rparr>"

definition sr_session_count :: "('c, 'f) session_registry \<Rightarrow> nat" where
  "sr_session_count r = cr_len (sr_sessions r)"

section \<open>Sweeps over the step states\<close>

text \<open>
  Cancelling dependents and rewinding both run over a list of steps and replace each step's status
  by a function of it. The locale states this contract; its lemmas describe the whole sweep.
\<close>

locale status_sweep =
  fixes one :: "(string, 'f session_step) step_graph \<Rightarrow> string \<Rightarrow> (string, 'f session_step) step_graph"
    and change :: "step_status \<Rightarrow> step_status"
  assumes one_status: "sg_status (one g k) j =
      (if j = k then map_option (st_status_update change) (sg_status g j) else sg_status g j)"
    and one_frame: "sg_graph (one g k) = sg_graph g \<and> sg_order (one g k) = sg_order g \<and>
      sg_completed (one g k) = sg_completed g \<and> sg_checkpoints (one g k) = sg_checkpoints g"
    and change_idem: "change (change x) = change x"
begin

lemma sweep_frame:
  "sg_graph (foldl one g ks) = sg_graph g \<and> sg_order (foldl one g ks) = sg_order g \<and>
   sg_completed (foldl one g ks) = sg_completed g \<and> sg_checkpoints (foldl one g ks) = sg_checkpoints g"
  using one_frame by (induction ks arbitrary: g) auto

lemma update_idem: "st_status_update change (st_status_update change st) = st_status_update change st"
  by (cases st) (simp add: change_idem)

lemma sweep_status:
  "sg_status (foldl one g ks) j =
     (if j \<in> set ks then map_option (st_status_update change) (sg_status g j) else sg_status g j)"
  by (induction ks arbitrary: g)
    (auto simp: one_status option.map_comp comp_def update_idem simp del: session_step.update_convs)

lemma sweep_dom: "dom (hm_get (sg_state (foldl one g ks))) = dom (hm_get (sg_state g))"
proof -
  have "sg_status (foldl one g ks) j = None \<longleftrightarrow> sg_status g j = None" for j
    by (simp add: sweep_status)
  then show ?thesis by (simp add: sg_status_def dom_def)
qed

lemma sweep_wf: "sg_wf g \<Longrightarrow> sg_wf (foldl one g ks)"
  using sweep_frame [of g ks] sweep_dom [of g ks] by (simp add: sg_wf_def)

end

definition cancelled_status :: "step_status \<Rightarrow> step_status" where
  "cancelled_status x = (if x = Pending \<or> x = InProgress then Cancelled else x)"

definition rewound_status :: "step_status \<Rightarrow> step_status" where
  "rewound_status x = (if x = InProgress then InProgress else Pending)"

lemma sg_status_set_state: "sg_status (sg_set_state g k st) j = (if j = k then Some st else sg_status g j)"
  by (simp add: sg_status_def sg_set_state_def)

lemma st_update_same: "f (st_status st) = st_status st \<Longrightarrow> st_status_update f st = st"
  by (cases st) simp

lemma st_update_const: "f (st_status st) = x \<Longrightarrow> st_status_update f st = st\<lparr>st_status := x\<rparr>"
  by (cases st) simp

interpretation cancel: status_sweep cancel_one cancelled_status
proof
  show "sg_status (cancel_one g k) j =
      (if j = k then map_option (st_status_update cancelled_status) (sg_status g j) else sg_status g j)"
    for g :: "(string, 'a session_step) step_graph" and k j
    by (auto simp: cancel_one_def sg_status_set_state split: option.split
        intro!: st_update_same [symmetric] st_update_const [symmetric])
      (auto simp: cancelled_status_def)
  show "cancelled_status (cancelled_status x) = cancelled_status x" for x
    by (simp add: cancelled_status_def)
qed (simp add: cancel_one_def sg_set_state_def split: option.split)

interpretation rewind: status_sweep rewind_one rewound_status
proof
  show "sg_status (rewind_one g k) j =
      (if j = k then map_option (st_status_update rewound_status) (sg_status g j) else sg_status g j)"
    for g :: "(string, 'a session_step) step_graph" and k j
    by (auto simp: rewind_one_def sg_status_set_state split: option.split
        intro!: st_update_same [symmetric] st_update_const [symmetric])
      (auto simp: rewound_status_def, metis step_status.exhaust)
  show "rewound_status (rewound_status x) = rewound_status x" for x
    by (simp add: rewound_status_def)
qed (simp add: rewind_one_def sg_set_state_def split: option.split)

section \<open>Invariant\<close>

definition se_inv :: "'f dep_session \<Rightarrow> bool" where
  "se_inv s \<longleftrightarrow> sg_wf (se_graph s) \<and> sg_completed (se_graph s) \<subseteq> set (sg_order (se_graph s)) \<and>
     (\<forall>k st. sg_status (se_graph s) k = Some st \<longrightarrow>
        st_id st = k \<and> hm_get (dg_deps (sg_graph (se_graph s))) k = Some (st_depends_on st) \<and>
        (k \<in> sg_completed (se_graph s) \<longleftrightarrow> st_status st = Completed \<or> st_status st = Failed))"

lemma se_invD:
  assumes "se_inv s"
  shows "sg_wf (se_graph s)" and "sg_completed (se_graph s) \<subseteq> set (sg_order (se_graph s))"
    and "sg_status (se_graph s) k = Some st \<Longrightarrow> st_id st = k"
    and "sg_status (se_graph s) k = Some st \<Longrightarrow> hm_get (dg_deps (sg_graph (se_graph s))) k = Some (st_depends_on st)"
    and "sg_status (se_graph s) k = Some st \<Longrightarrow>
           k \<in> sg_completed (se_graph s) \<longleftrightarrow> st_status st = Completed \<or> st_status st = Failed"
  using assms by (auto simp: se_inv_def)

lemma sg_wf_status: "sg_wf g \<Longrightarrow> k \<in> set (sg_order g) \<longleftrightarrow> sg_status g k \<noteq> None"
  by (auto simp: sg_wf_def sg_status_def)

lemma se_inv_new: "se_inv (se_new sid)"
  by (simp add: se_inv_def se_new_def sg_wf_new) (simp add: sg_new_def sg_status_def)

lemma se_inv_graph: "se_graph s = se_graph s' \<Longrightarrow> se_inv s \<longleftrightarrow> se_inv s'"
  by (simp add: se_inv_def)

lemma se_inv_add_step:
  assumes "se_inv s" and "se_add_step s st = Inr s'" and "st_status st = Pending"
  shows "se_inv s'"
proof -
  from assms(2) obtain g where g: "sg_add_step (se_graph s) (st_id st) (st_depends_on st) st = Inr g"
    and s': "s' = s\<lparr>se_graph := g\<rparr>"
    by (auto simp: se_add_step_def split: sum.splits)
  from g obtain gr where gr: "dg_register (sg_graph (se_graph s)) (st_id st) (st_depends_on st) [st_id st] = Inr gr"
    and geq: "g = (se_graph s)\<lparr>sg_graph := gr, sg_order := sg_order (se_graph s) @ [st_id st],
                 sg_state := hm_insert (sg_state (se_graph s)) (st_id st) st\<rparr>"
    by (auto simp: sg_add_step_def split: sum.splits)
  from gr have deps: "dg_deps gr = hm_insert (dg_deps (sg_graph (se_graph s))) (st_id st) (st_depends_on st)"
    and "\<not> hm_contains (dg_deps (sg_graph (se_graph s))) (st_id st)"
    by (auto simp: dg_register_def split: if_splits)
  moreover have "dg_wf (sg_graph (se_graph s))" and "dg_nodes (sg_graph (se_graph s)) = sg_order (se_graph s)"
    using se_invD(1) [OF assms(1)] by (simp_all add: sg_wf_def dg_reachable_wf)
  ultimately have new: "st_id st \<notin> set (sg_order (se_graph s))"
    using dg_wf_registered_deps [of "sg_graph (se_graph s)" "st_id st"] by (auto simp: hm_contains_def)
  have "sg_wf g" using se_invD(1) [OF assms(1)] g by (rule sg_add_step_wf)
  with assms(1,3) new show ?thesis
    unfolding se_inv_def s' by (auto simp: geq deps sg_status_def)
qed

lemma se_inv_cancel:
  assumes "se_inv s"
  shows "se_inv (se_cancel_dependents s k)"
proof -
  let ?ks = "sg_cancel_dependents (se_graph s) k"
  show ?thesis
    unfolding se_inv_def se_cancel_dependents_def
    using assms cancel.sweep_wf [of "se_graph s" ?ks] cancel.sweep_frame [of "se_graph s" ?ks]
    by (auto simp: se_inv_def cancel.sweep_status cancelled_status_def split: if_splits)
qed

lemma se_inv_write:
  assumes "se_inv s" and "sg_status (se_graph s) k = Some st"
    and "st_id st' = st_id st" and "st_depends_on st' = st_depends_on st"
    and "k \<in> sg_completed (se_graph s) \<longleftrightarrow> st_status st' = Completed \<or> st_status st' = Failed"
  shows "se_inv (s\<lparr>se_graph := sg_set_state (se_graph s) k st'\<rparr>)"
proof -
  have "sg_wf (sg_set_state (se_graph s) k st')"
    using se_invD(1) [OF assms(1)] assms(2) by (simp add: sg_set_state_wf sg_wf_status)
  moreover have "sg_graph (sg_set_state (se_graph s) k st') = sg_graph (se_graph s)"
    "sg_completed (sg_set_state (se_graph s) k st') = sg_completed (se_graph s)"
    "sg_order (sg_set_state (se_graph s) k st') = sg_order (se_graph s)"
    by (simp_all add: sg_set_state_def)
  ultimately show ?thesis using assms by (auto simp: se_inv_def sg_status_set_state)
qed

lemma se_inv_complete_core:
  assumes "se_inv s" and "sg_status (se_graph s) k = Some st"
    and "st_id st' = st_id st" and "st_depends_on st' = st_depends_on st"
    and "st_status st' = Completed \<or> st_status st' = Failed"
  shows "se_inv (s\<lparr>se_graph := sg_complete (sg_set_state (se_graph s) k st') k\<rparr>)"
proof -
  let ?g = "sg_complete (sg_set_state (se_graph s) k st') k"
  have "k \<in> set (sg_order (se_graph s))"
    using se_invD(1) [OF assms(1)] assms(2) by (simp add: sg_wf_status)
  moreover from this have "sg_wf ?g"
    using se_invD(1) [OF assms(1)] by (simp add: sg_complete_wf sg_set_state_wf)
  moreover have "sg_status ?g j = (if j = k then Some st' else sg_status (se_graph s) j)" for j
    by (simp add: sg_complete_def sg_status_def sg_set_state_def)
  moreover have "sg_graph ?g = sg_graph (se_graph s)" "sg_order ?g = sg_order (se_graph s)"
    "sg_completed ?g = insert k (sg_completed (se_graph s))"
    by (simp_all add: sg_complete_def sg_set_state_def)
  ultimately show ?thesis using assms by (auto simp: se_inv_def)
qed

lemma se_inv_checkpoint:
  assumes "se_inv s" and "sg_checkpoint (se_graph s) k = Inr g'"
  shows "se_inv (s\<lparr>se_graph := g'\<rparr>)"
proof -
  have "sg_wf g'" using se_invD(1) [OF assms(1)] assms(2) by (rule sg_checkpoint_wf)
  moreover from assms(2) obtain idx where "g' = (se_graph s)\<lparr>sg_checkpoints := hm_insert (sg_checkpoints (se_graph s)) k idx\<rparr>"
    by (auto simp: sg_checkpoint_def split: option.splits)
  ultimately show ?thesis using assms(1) by (simp add: se_inv_def sg_status_def)
qed

text \<open>The session after the status write, the completion and the cancellation of a step.\<close>

definition rejected :: "'f step_result \<Rightarrow> bool" where
  "rejected r \<longleftrightarrow> \<not> sr_accepted r \<or> sr_error r \<noteq> None"

definition finished_step :: "'f session_step \<Rightarrow> 'f step_result \<Rightarrow> 'f session_step" where
  "finished_step st r = st\<lparr>st_status := (if rejected r then Failed else Completed), st_result := Some r\<rparr>"

definition marked_session :: "'f dep_session \<Rightarrow> string \<Rightarrow> 'f session_step \<Rightarrow> 'f step_result \<Rightarrow> 'f dep_session" where
  "marked_session s k st r = s\<lparr>se_graph := sg_complete (sg_set_state (se_graph s) k (finished_step st r)) k\<rparr>"

definition finished_session :: "'f dep_session \<Rightarrow> string \<Rightarrow> 'f session_step \<Rightarrow> 'f step_result \<Rightarrow> 'f dep_session" where
  "finished_session s k st r =
     (if rejected r then se_cancel_dependents (marked_session s k st r) k else marked_session s k st r)"

lemma se_inv_marked:
  assumes "se_inv s" and "sg_status (se_graph s) k = Some st"
  shows "se_inv (marked_session s k st r)"
  unfolding marked_session_def
  by (rule se_inv_complete_core [OF assms]) (auto simp: finished_step_def)

lemma se_inv_finished:
  assumes "se_inv s" and "sg_status (se_graph s) k = Some st"
  shows "se_inv (finished_session s k st r)"
  using se_inv_marked [OF assms] by (simp add: finished_session_def se_inv_cancel)

lemma finished_order: "sg_order (se_graph (finished_session s k st r)) = sg_order (se_graph s)"
  by (simp add: finished_session_def marked_session_def se_cancel_dependents_def sg_complete_def sg_set_state_def
      cancel.sweep_frame)

text \<open>Every outcome of \<open>complete_step\<close>; the error of the checkpoint call does not occur.\<close>

lemma se_complete_step_cases:
  assumes "se_inv s"
  shows "se_complete_step s k r =
    (case sg_status (se_graph s) k of
       None \<Rightarrow> (Inl (StepNotFound k), s)
     | Some st \<Rightarrow>
         if st_status st = Completed then (Inl (StepAlreadyCompleted k), s)
         else (Inr (), let s2 = finished_session s k st r in
                if st_checkpoint st
                then s2\<lparr>se_graph := (se_graph s2)\<lparr>sg_checkpoints :=
                       hm_insert (sg_checkpoints (se_graph s2)) k (the (position (\<lambda>j. j = k) (sg_order (se_graph s))))\<rparr>\<rparr>
                else s2))"
proof (cases "sg_status (se_graph s) k")
  case (Some st)
  let ?s2 = "finished_session s k st r"
  have "k \<in> set (sg_order (se_graph s))"
    using se_invD(1) [OF assms] Some by (simp add: sg_wf_status)
  then obtain idx where "position (\<lambda>j. j = k) (sg_order (se_graph s)) = Some idx"
    using position_None by (metis (mono_tags, lifting) not_Some_eq)
  then have cp: "sg_checkpoint (se_graph ?s2) k = Inr ((se_graph ?s2)\<lparr>sg_checkpoints :=
      hm_insert (sg_checkpoints (se_graph ?s2)) k (the (position (\<lambda>j. j = k) (sg_order (se_graph s))))\<rparr>)"
    by (simp add: sg_checkpoint_def finished_order)
  have "se_complete_step s k r =
     (if st_status st = Completed then (Inl (StepAlreadyCompleted k), s)
      else if st_checkpoint st then (case sg_checkpoint (se_graph ?s2) k of
             Inl e \<Rightarrow> (Inl (Graph e), ?s2) | Inr g' \<Rightarrow> (Inr (), ?s2\<lparr>se_graph := g'\<rparr>))
      else (Inr (), ?s2))"
    using Some by (simp only: se_complete_step_def finished_session_def marked_session_def
        finished_step_def rejected_def Let_def option.case)
  with Some cp show ?thesis by (simp add: Let_def)
qed (simp add: se_complete_step_def)

lemma se_inv_complete:
  assumes "se_inv s"
  shows "se_inv (snd (se_complete_step s k r))"
proof (cases "sg_status (se_graph s) k")
  case (Some st)
  let ?s2 = "finished_session s k st r"
  have fin: "se_inv ?s2" by (rule se_inv_finished [OF assms Some])
  have "k \<in> set (sg_order (se_graph ?s2))"
    using se_invD(1) [OF assms] Some by (simp add: finished_order sg_wf_status)
  then obtain g' where "sg_checkpoint (se_graph ?s2) k = Inr g'"
    using position_None [of "\<lambda>j. j = k"] by (cases "position (\<lambda>j. j = k) (sg_order (se_graph ?s2))") (auto simp: sg_checkpoint_def)
  moreover from this have "g' = (se_graph ?s2)\<lparr>sg_checkpoints :=
      hm_insert (sg_checkpoints (se_graph ?s2)) k (the (position (\<lambda>j. j = k) (sg_order (se_graph s))))\<rparr>"
    by (auto simp: sg_checkpoint_def finished_order split: option.splits)
  ultimately show ?thesis
    using Some fin assms se_inv_checkpoint [OF fin] by (auto simp: se_complete_step_cases Let_def)
qed (use assms in \<open>simp add: se_complete_step_def\<close>)

lemma se_inv_start:
  assumes "se_inv s" and "se_start_step s k = Inr s'"
  shows "se_inv s'"
proof -
  from assms(2) obtain st where st: "sg_status (se_graph s) k = Some st" "st_status st = Pending"
    and s': "s' = s\<lparr>se_graph := sg_set_state (se_graph s) k (st\<lparr>st_status := InProgress\<rparr>)\<rparr>"
    by (auto simp: se_start_step_def split: option.splits if_splits)
  show ?thesis unfolding s'
    by (rule se_inv_write [OF assms(1) st(1)]) (use st se_invD(5) [OF assms(1) st(1)] in auto)
qed

text \<open>The graph after a rewind.\<close>

lemma rewound_inv:
  assumes "se_inv s" and "sg_rewind_to (se_graph s) name = Some (Inr (reset, g))"
  shows "se_inv (s\<lparr>se_graph := foldl rewind_one g reset\<rparr>)"
proof -
  have wf: "sg_wf g" using se_invD(1) [OF assms(1)] assms(2) by (rule sg_rewind_wf)
  from assms(2) se_invD(1) [OF assms(1)] obtain idx where
    geq: "g = (se_graph s)\<lparr>sg_checkpoints := hm_remove (sg_checkpoints (se_graph s)) name,
              sg_completed := sg_completed (se_graph s) - set reset\<rparr>"
    by (auto simp: sg_rewind_total split: option.splits)
  then have st: "sg_status g = sg_status (se_graph s)" "sg_completed g = sg_completed (se_graph s) - set reset"
      "sg_order g = sg_order (se_graph s)" "sg_graph g = sg_graph (se_graph s)"
    by (simp_all add: sg_status_def fun_eq_iff)
  show ?thesis
    unfolding se_inv_def
    using assms(1) rewind.sweep_wf [OF wf, of reset] rewind.sweep_frame [of g reset]
    by (auto simp: se_inv_def st rewind.sweep_status rewound_status_def split: if_splits)
qed

lemma restore_kv_graph: "se_graph (fst (snd (restore_kv_snapshot ops s kv model))) = se_graph s"
  by (simp add: restore_kv_snapshot_def split: prod.splits sum.splits)

lemma se_inv_rewind:
  assumes "se_inv s" and "se_rewind_to_checkpoint ops s kv name = Some (r, s', kv')"
  shows "se_inv s'"
proof (cases "sg_rewind_to (se_graph s) name")
  case (Some x)
  show ?thesis
  proof (cases x)
    case (Inr p)
    obtain reset g where p: "p = (reset, g)" by (cases p)
    let ?s1 = "s\<lparr>se_graph := foldl rewind_one g reset\<rparr>"
    have "se_inv ?s1" using assms(1) Some Inr p by (simp add: rewound_inv)
    moreover have "se_graph s' = se_graph ?s1"
      using assms(2) Some Inr p restore_kv_graph [of ops ?s1 kv]
      by (auto simp: se_rewind_to_checkpoint_def Let_def split: option.splits prod.splits) (metis fst_conv snd_conv)
    ultimately show ?thesis using se_inv_graph by blast
  qed (use assms Some in \<open>simp add: se_rewind_to_checkpoint_def\<close>)
qed (use assms in \<open>simp add: se_rewind_to_checkpoint_def\<close>)

lemma se_advance_graph:
  "se_advance_and_snapshot ops h fs n1 n2 s kv inst = Some (r, s', kv') \<Longrightarrow> se_graph s' = se_graph s"
  by (auto simp: se_advance_and_snapshot_def Let_def
      split: if_splits option.splits sum.splits prod.splits kv_error.splits)

text \<open>The sessions a client can reach; added steps are fresh ones. The builders, the setters and
  \<open>advance_and_snapshot\<close> change fields other than the graph, in any way.\<close>

inductive se_reachable :: "'c kv_lru \<Rightarrow> 'f dep_session \<Rightarrow> bool" for ops where
  se_start: "se_reachable ops (se_new sid)"
| se_config: "se_reachable ops s \<Longrightarrow> se_graph s' = se_graph s \<Longrightarrow> se_reachable ops s'"
| se_add: "se_reachable ops s \<Longrightarrow> st_status st = Pending \<Longrightarrow> se_add_step s st = Inr s' \<Longrightarrow> se_reachable ops s'"
| se_begin: "se_reachable ops s \<Longrightarrow> se_start_step s k = Inr s' \<Longrightarrow> se_reachable ops s'"
| se_finish: "se_reachable ops s \<Longrightarrow> se_reachable ops (snd (se_complete_step s k r))"
| se_cancel: "se_reachable ops s \<Longrightarrow> se_reachable ops (se_cancel_dependents s k)"
| se_rewind: "se_reachable ops s \<Longrightarrow> se_rewind_to_checkpoint ops s kv name = Some (r, s', kv') \<Longrightarrow> se_reachable ops s'"

lemma se_reachable_inv: "se_reachable ops s \<Longrightarrow> se_inv s"
proof (induction rule: se_reachable.induct)
  case (se_config s s')
  then show ?case using se_inv_graph by blast
qed (auto intro: se_inv_new se_inv_add_step se_inv_start se_inv_complete se_inv_cancel se_inv_rewind)

section \<open>Properties\<close>

text \<open>Step \<open>p\<close> is listed among the prerequisites of step \<open>n\<close>; both are steps of the session.\<close>

definition step_feeds :: "'f dep_session \<Rightarrow> (string \<times> string) set" where
  "step_feeds s = {(p, n). \<exists>st. se_get_step s n = Some st \<and> p \<in> set (st_depends_on st) \<and> se_get_step s p \<noteq> None}"

lemma feeds_step_feeds:
  assumes "se_inv s"
  shows "{(p, n). feeds (sg_graph (se_graph s)) p n} = step_feeds s"
proof -
  have wf: "sg_wf (se_graph s)" and dg: "dg_wf (sg_graph (se_graph s))"
    and nodes: "dg_nodes (sg_graph (se_graph s)) = sg_order (se_graph s)"
    using se_invD(1) [OF assms] by (simp_all add: sg_wf_def dg_reachable_wf)
  have "(\<exists>ds. hm_get (dg_deps (sg_graph (se_graph s))) n = Some ds \<and> p \<in> set ds) \<longleftrightarrow>
        (\<exists>st. sg_status (se_graph s) n = Some st \<and> p \<in> set (st_depends_on st))" for p n
    using dg_wf_registered_deps [OF dg, of n] sg_wf_status [OF wf, of n] se_invD(4) [OF assms, of n]
    by (cases "sg_status (se_graph s) n") (auto simp: nodes)
  then show ?thesis
    by (auto simp: sg_wf_feeds [OF wf] step_feeds_def se_get_step_def sg_wf_status [OF wf])
qed

lemma cancelled_dependents:
  assumes "se_inv s"
  shows "set (sg_cancel_dependents (se_graph s) k) = {j. j \<noteq> k \<and> (k, j) \<in> (step_feeds s)\<^sup>+}"
proof -
  have "dg_wf (sg_graph (se_graph s))"
    using se_invD(1) [OF assms] by (simp add: sg_wf_def dg_reachable_wf)
  from via_rel_feeds [OF this] have "via_rel (sg_graph (se_graph s)) = step_feeds s"
    by (simp add: feeds_step_feeds [OF assms])
  then show ?thesis
    by (auto simp: sg_cancel_dependents_def dg_dependents_of_via(1) rtrancl_eq_or_trancl)
qed

lemma marked_status:
  "sg_status (se_graph (marked_session s k st r)) j = (if j = k then Some (finished_step st r) else sg_status (se_graph s) j)"
  by (simp add: marked_session_def sg_complete_def sg_status_def sg_set_state_def)

lemma marked_feeds:
  "sg_status (se_graph s) k = Some st \<Longrightarrow> step_feeds (marked_session s k st r) = step_feeds s"
  by (auto simp: step_feeds_def se_get_step_def marked_status finished_step_def split: if_splits)

lemma finished_status:
  assumes "se_inv s" and "sg_status (se_graph s) k = Some st"
  shows "sg_status (se_graph (finished_session s k st r)) j =
    (if j = k then Some (finished_step st r)
     else if rejected r \<and> (k, j) \<in> (step_feeds s)\<^sup>+
          then map_option (st_status_update cancelled_status) (sg_status (se_graph s) j)
     else sg_status (se_graph s) j)"
  using cancelled_dependents [OF se_inv_marked [OF assms], of r k]
  by (simp add: finished_session_def se_cancel_dependents_def cancel.sweep_status marked_status
      marked_feeds [OF assms(2)])

text \<open>
  C14. Every outcome of \<open>complete_step\<close>: an unknown or already completed step is refused and the session
  kept; otherwise the step gets its result and the status \<open>Completed\<close>, or \<open>Failed\<close> when the result
  is rejected or carries an error, and then exactly the pending and running steps that transitively
  depend on it become \<open>Cancelled\<close>. No other step changes, the step counts as completed, and a step with
  the checkpoint flag is marked at its position.
\<close>

theorem complete_step_effect:
  assumes "se_reachable ops s"
  shows "case (se_get_step s k, se_complete_step s k r) of
           (None, res, s') \<Rightarrow> res = Inl (StepNotFound k) \<and> s' = s
         | (Some st, res, s') \<Rightarrow>
             if st_status st = Completed then res = Inl (StepAlreadyCompleted k) \<and> s' = s
             else res = Inr () \<and> sg_completed (se_graph s') = insert k (sg_completed (se_graph s)) \<and>
               (st_checkpoint st \<longrightarrow> sg_is_checkpoint (se_graph s') k) \<and>
               (\<forall>j. se_get_step s' j =
                 (if j = k then Some (st\<lparr>st_status := (if \<not> sr_accepted r \<or> sr_error r \<noteq> None then Failed else Completed),
                                        st_result := Some r\<rparr>)
                  else if (\<not> sr_accepted r \<or> sr_error r \<noteq> None) \<and> (k, j) \<in> (step_feeds s)\<^sup>+
                    then map_option (st_status_update (\<lambda>x. if x = Pending \<or> x = InProgress then Cancelled else x)) (se_get_step s j)
                  else se_get_step s j))"
proof -
  have inv: "se_inv s" using assms by (rule se_reachable_inv)
  have status: "(\<lambda>x. if x = Pending \<or> x = InProgress then Cancelled else x) = cancelled_status"
    by (simp add: fun_eq_iff cancelled_status_def)
  show ?thesis
  proof (cases "sg_status (se_graph s) k")
    case (Some st)
    let ?s2 = "finished_session s k st r"
    have "sg_completed (se_graph ?s2) = insert k (sg_completed (se_graph s))"
      by (simp add: finished_session_def marked_session_def se_cancel_dependents_def cancel.sweep_frame
          sg_complete_def sg_set_state_def)
    moreover have "sg_status (se_graph ?s2\<lparr>sg_checkpoints := c\<rparr>) = sg_status (se_graph ?s2)" for c
      by (simp add: sg_status_def fun_eq_iff)
    ultimately show ?thesis
      using Some by (simp add: se_get_step_def se_complete_step_cases [OF inv] Let_def sg_is_checkpoint_def
          hm_contains_def finished_status [OF inv Some] finished_step_def status rejected_def)
  qed (simp add: se_get_step_def se_complete_step_cases [OF inv])
qed

text \<open>
  \<open>next_ready\<close> lists, in insertion order and without repetition, exactly the pending steps whose
  every prerequisite is a step of the session that is \<open>Completed\<close> or \<open>Failed\<close>.
\<close>

theorem next_ready_exact:
  assumes "se_reachable ops s"
  shows "distinct (se_step_ids s) \<and>
    se_next_ready s = filter (\<lambda>k. case se_get_step s k of
        None \<Rightarrow> False
      | Some st \<Rightarrow> st_status st = Pending \<and>
          (\<forall>d \<in> set (st_depends_on st). \<exists>st'. se_get_step s d = Some st' \<and> (st_status st' = Completed \<or> st_status st' = Failed)))
      (se_step_ids s)"
proof -
  have inv: "se_inv s" using assms by (rule se_reachable_inv)
  have wf: "sg_wf (se_graph s)" by (rule se_invD(1) [OF inv])
  then have dist: "distinct (sg_order (se_graph s))"
    by (metis dg_reachable_wf dg_wf_def sg_wf_def)
  have fin: "d \<in> sg_completed (se_graph s) \<longleftrightarrow>
      (\<exists>st'. sg_status (se_graph s) d = Some st' \<and> (st_status st' = Completed \<or> st_status st' = Failed))" for d
    using se_invD(2) [OF inv] se_invD(5) [OF inv, of d] sg_wf_status [OF wf, of d]
    by (cases "sg_status (se_graph s) d") auto
  have nodes: "dg_nodes (sg_graph (se_graph s)) = sg_order (se_graph s)" using wf by (simp add: sg_wf_def)
  have "se_next_ready s = filter (\<lambda>k. case sg_status (se_graph s) k of
        None \<Rightarrow> False
      | Some st \<Rightarrow> st_status st = Pending \<and>
          (\<forall>d \<in> set (st_depends_on st). \<exists>st'. sg_status (se_graph s) d = Some st' \<and> (st_status st' = Completed \<or> st_status st' = Failed)))
      (sg_order (se_graph s))"
    unfolding se_next_ready_def sg_ready_steps_def dg_ready_nodes_def filter_filter nodes
    by (rule filter_cong [OF refl])
      (auto simp: dg_is_ready_def list_all_iff sg_is_completed_def fin se_invD(4) [OF inv] split: option.splits)
  with dist show ?thesis unfolding se_step_ids_def se_get_step_def by blast
qed

text \<open>
  The session \<open>s'\<close> is \<open>s\<close> rewound to \<open>name\<close>: every step from it on that was completed, failed or
  cancelled is pending again with its result kept, running steps go on, earlier steps are untouched,
  and the later steps leave the completed set.
\<close>

definition session_rewound :: "'f dep_session \<Rightarrow> string \<Rightarrow> 'f dep_session \<Rightarrow> bool" where
  "session_rewound s name s' \<longleftrightarrow>
     (\<exists>before after. se_step_ids s = before @ name # after \<and> se_step_ids s' = se_step_ids s \<and>
        sg_completed (se_graph s') = sg_completed (se_graph s) - set (name # after) \<and>
        (\<forall>j. se_get_step s' j =
           (if j \<in> set (name # after)
            then map_option (st_status_update (\<lambda>x. if x = InProgress then InProgress else Pending)) (se_get_step s j)
            else se_get_step s j)))"

lemma session_rewound_graph:
  assumes "sg_wf (se_graph s)" and "sg_rewind_to (se_graph s) name = Some (Inr (reset, g))"
    and "se_graph s' = foldl rewind_one g reset"
  shows "session_rewound s name s'"
proof -
  from assms(1,2) obtain idx where cp: "hm_get (sg_checkpoints (se_graph s)) name = Some idx"
    and reset: "reset = drop idx (sg_order (se_graph s))"
    and g: "g = (se_graph s)\<lparr>sg_checkpoints := hm_remove (sg_checkpoints (se_graph s)) name,
              sg_completed := sg_completed (se_graph s) - set reset\<rparr>"
    by (auto simp: sg_rewind_total split: option.splits)
  let ?before = "take idx (sg_order (se_graph s))" and ?after = "drop (Suc idx) (sg_order (se_graph s))"
  have idx: "idx < length (sg_order (se_graph s))" and name: "sg_order (se_graph s) ! idx = name"
    using assms(1) cp by (auto simp: sg_wf_def)
  have drop: "reset = name # ?after"
    unfolding reset using Cons_nth_drop_Suc [OF idx] name by simp
  then have split: "se_step_ids s = ?before @ name # ?after"
    unfolding reset se_step_ids_def by (metis append_take_drop_id)
  have "sg_status g = sg_status (se_graph s)" by (simp add: g sg_status_def fun_eq_iff)
  then have "se_get_step s' j = (if j \<in> set (name # ?after)
      then map_option (st_status_update rewound_status) (se_get_step s j) else se_get_step s j)" for j
    unfolding se_get_step_def assms(3) rewind.sweep_status drop by simp
  moreover have "se_step_ids s' = se_step_ids s"
    and "sg_completed (se_graph s') = sg_completed (se_graph s) - set (name # ?after)"
    unfolding se_step_ids_def assms(3) using rewind.sweep_frame [of g reset] g drop by simp_all
  moreover have "(\<lambda>x. if x = InProgress then InProgress else Pending) = rewound_status"
    by (simp add: fun_eq_iff rewound_status_def)
  ultimately show ?thesis unfolding session_rewound_def using split by metis
qed

text \<open>
  \<open>rewind_to_checkpoint\<close> never panics and refuses exactly the names that carry no marker. On
  success the steps from the checkpoint on are reset as \<open>session_rewound\<close> says, and the session's
  pending snapshot is the one the shared index returns for its model, adapter and identifier; without
  a model or an index it is left alone.
\<close>

theorem rewind_to_checkpoint_effect:
  assumes "se_reachable ops s"
  shows "case se_rewind_to_checkpoint ops s kv name of
           None \<Rightarrow> False
         | Some (Inl e, s', kv') \<Rightarrow> e = CheckpointNotFound name \<and> \<not> sg_is_checkpoint (se_graph s) name \<and> s' = s \<and> kv' = kv
         | Some (Inr snap, s', kv') \<Rightarrow> sg_is_checkpoint (se_graph s) name \<and> session_rewound s name s' \<and>
             (case (se_model s, se_kv_cache s) of
                (Some m, True) \<Rightarrow>
                  (case ss_retrieve ops kv m (se_adapter s) (se_session_id s) of
                     (Inr found, kv2) \<Rightarrow> snap = Some found \<and> se_pending_snapshot s' = Some found \<and> kv' = kv2
                   | (Inl _, kv2) \<Rightarrow> snap = None \<and> se_pending_snapshot s' = se_pending_snapshot s \<and> kv' = kv2)
              | _ \<Rightarrow> snap = None \<and> se_pending_snapshot s' = se_pending_snapshot s \<and> kv' = kv)"
proof -
  have wf: "sg_wf (se_graph s)" using assms by (metis se_reachable_inv se_invD(1))
  show ?thesis
  proof (cases "hm_get (sg_checkpoints (se_graph s)) name")
    case None
    then show ?thesis
      by (simp add: se_rewind_to_checkpoint_def sg_rewind_total [OF wf] sg_is_checkpoint_def hm_contains_def)
  next
    case (Some idx)
    then obtain reset g where run: "sg_rewind_to (se_graph s) name = Some (Inr (reset, g))"
      by (simp add: sg_rewind_total [OF wf])
    have rew: "session_rewound s name s'" if "se_graph s' = foldl rewind_one g reset" for s' :: "'b dep_session"
      using wf run that by (rule session_rewound_graph)
    from Some show ?thesis
      by (auto simp: se_rewind_to_checkpoint_def run Let_def restore_kv_snapshot_def sg_is_checkpoint_def
          hm_contains_def rew split: option.split prod.split sum.split)
  qed
qed

subsection \<open>Snapshot names\<close>

lemma digits_value_pad: "digits_value (replicate m (CHR ''0'') @ ds) = digits_value ds"
proof -
  have "foldl (\<lambda>n c. n * 10 + (of_char c - 48)) (0 :: nat) (replicate m (CHR ''0'')) = 0"
    by (induction m) auto
  then show ?thesis by (simp add: digits_value_def)
qed

lemma zero_pad6_inj: "zero_pad6 m = zero_pad6 n \<Longrightarrow> m = n"
  by (metis digits_value_pad digits_value_show zero_pad6_def)

lemma snapshot_name_inj:
  assumes "snapshot_name_for h sid m = Some name" and "snapshot_name_for h sid n = Some name"
  shows "m = n"
proof -
  from assms have "zero_pad6 n = zero_pad6 m"
    by (auto simp: snapshot_name_for_def Let_def split: if_splits)
  then show ?thesis using zero_pad6_inj by blast
qed

lemma hot_insert_view:
  "lru_ok ops view \<Longrightarrow> view (lc_inner (hi_snapshots (hot_insert_arc ops h k s))) k = Some s"
  by (simp add: hot_insert_arc_def lc_insert_view(1))

lemma retrieve_after_store:
  assumes "lru_ok ops view" and "ss_store ops kv snap = Inr kv1"
  shows "fst (ss_retrieve ops kv1 (ks_model snap) (ks_adapter snap) (ks_session_id snap)) = Inr snap"
proof -
  have "hot_view view kv1 (snap_key snap) = Some snap"
    using assms(2) by (auto simp: ss_store_eq hot_insert_view [OF assms(1)])
  then show ?thesis by (simp add: ss_retrieve_result [OF assms(1)] snap_key_def)
qed

lemma cold_entry_seed: "(k, t) \<in> set (ci_entries (ss_cold kv)) \<Longrightarrow> ks_session_id t = sid \<Longrightarrow>
    ks_turn_seq t = Some q \<Longrightarrow> q \<le> ss_seed_seq_for kv sid"
  by (simp add: ss_seed_seq_for_def cold_seed_upper)

text \<open>
  C15. When a session that opted in advances and the fork accepts the save, the turn number grows
  by one over both the session's counter and every turn recorded for the session in the cold tier
  (so numbering goes on after a restart), the snapshot handed to the next dispatch is the one just
  saved under that number, and its name differs from the name of every earlier turn. The counter is
  below the largest \<open>u64\<close>.
\<close>

theorem advance_fresh_turn:
  assumes "lru_ok ops view" and "\<And>x. length (blake3_hex x) = 64"
    and "se_snapshot_on_advance s" and "se_model s = Some m" and "se_kv_cache s"
    and "ss_fork kv" and "\<And>name. fork_save inst name = Inr ()"
    and "max (se_snapshot_seq s) (ss_seed_seq_for kv (se_session_id s)) < u64_max"
  shows "\<exists>snap s' kv' seq.
    se_advance_and_snapshot ops blake3_hex fork_save now1 now2 s kv inst = Some (Inr (Some snap), s', kv') \<and>
    se_snapshot_seq s' = seq \<and> se_snapshot_seq s < seq \<and>
    (\<forall>k t q. (k, t) \<in> set (ci_entries (ss_cold kv)) \<and> ks_session_id t = se_session_id s \<and> ks_turn_seq t = Some q \<longrightarrow> q < seq) \<and>
    se_pending_snapshot s' = Some snap \<and> ks_turn_seq snap = Some seq \<and> ks_instance snap = Some inst \<and>
    snap_key snap = (m, se_adapter s, se_session_id s) \<and>
    hm_contains (ci_entries (ss_cold kv')) (m, se_adapter s, se_session_id s) \<and>
    snapshot_name_for blake3_hex (se_session_id s) seq = Some (ks_snapshot_name snap) \<and>
    (\<forall>q < seq. snapshot_name_for blake3_hex (se_session_id s) q \<noteq> Some (ks_snapshot_name snap))"
proof -
  let ?sid = "se_session_id s"
  let ?seq = "Suc (max (se_snapshot_seq s) (ss_seed_seq_for kv ?sid))"
  let ?s1 = "s\<lparr>se_snapshot_seq := ?seq\<rparr>"
  have seq: "next_seq (se_snapshot_seq s) (ss_seed_seq_for kv ?sid) = ?seq"
    using assms(8) by (simp add: next_seq_def)
  obtain name where name: "snapshot_name_for blake3_hex ?sid ?seq = Some name"
    using assms(2) by (simp add: snapshot_name_for_def Let_def)
  define snap where "snap = \<lparr>ks_model = m, ks_adapter = se_adapter s, ks_session_id = ?sid,
                  ks_snapshot_name = name, ks_instance = Some inst, ks_file_path = '''',
                  ks_token_count = None, ks_created_at = now1, ks_last_used_at = now2,
                  ks_llama_cpp_version = None, ks_model_quant = None, ks_base_model_hash = None,
                  ks_turn_seq = Some ?seq\<rparr>"
  obtain kv1 where kv1: "ss_store ops kv snap = Inr kv1" by (simp add: ss_store_eq)
  have saved: "ss_save_snapshot_with_seq ops fork_save now1 now2 kv m (se_adapter s) ?sid name inst (Some ?seq) = Inr kv1"
    using assms(6,7) kv1 by (simp add: ss_save_snapshot_with_seq_def snap_def)
  obtain kv2 where kv2: "ss_retrieve ops kv1 m (se_adapter s) ?sid = (Inr snap, kv2)"
    using retrieve_after_store [OF assms(1) kv1] by (simp add: snap_def) (metis prod.collapse)
  then have "ss_cold kv2 = ss_cold kv1" by (metis snd_conv ss_retrieve_cold)
  then have "hm_contains (ci_entries (ss_cold kv2)) (m, se_adapter s, ?sid)"
    using kv1 by (auto simp: ss_store_eq hm_contains_def snap_key_def snap_def)
  moreover have "se_advance_and_snapshot ops blake3_hex fork_save now1 now2 s kv inst =
      Some (Inr (Some snap), ?s1\<lparr>se_pending_snapshot := Some snap\<rparr>, kv2)"
    using assms(3,4,5) saved kv2 name by (simp add: se_advance_and_snapshot_def Let_def seq)
  moreover have "q \<le> ss_seed_seq_for kv ?sid" if "(k, t) \<in> set (ci_entries (ss_cold kv))"
      "ks_session_id t = ?sid" "ks_turn_seq t = Some q" for k t q
    using that by (rule cold_entry_seed)
  moreover have "snapshot_name_for blake3_hex ?sid q \<noteq> Some name" if "q < ?seq" for q
    using snapshot_name_inj [OF name] that by blast
  moreover have "ks_snapshot_name snap = name" "ks_turn_seq snap = Some ?seq" "ks_instance snap = Some inst"
    "snap_key snap = (m, se_adapter s, ?sid)"
    by (simp_all add: snap_def snap_key_def)
  ultimately show ?thesis using name by (auto simp: less_Suc_eq_le max.coboundedI2 intro!: exI)
qed

subsection \<open>A sample session\<close>

text \<open>\<open>plan\<close> (a checkpoint), then \<open>code\<close>, then \<open>test\<close>.\<close>

definition sample_steps :: "nat session_step list" where
  "sample_steps =
     [step_with_checkpoint (step_new ''plan'' ''''),
      step_with_depends (step_new ''code'' '''') [''plan''],
      step_with_depends (step_new ''test'' '''') [''code'']]"

definition sample_result :: "bool \<Rightarrow> nat step_result" where
  "sample_result ok = \<lparr>sr_content = '''', sr_accepted = ok, sr_score = None, sr_latency_ms = 0, sr_error = None\<rparr>"

definition add_all :: "'f dep_session \<Rightarrow> 'f session_step list \<Rightarrow> 'f dep_session" where
  "add_all s sts = foldl (\<lambda>s st. case se_add_step s st of Inl _ \<Rightarrow> s | Inr s' \<Rightarrow> s') s sts"

definition sample_session :: "nat dep_session" where
  "sample_session = add_all (se_new ''s'') sample_steps"

definition failed_session :: "nat dep_session" where
  "failed_session = snd (se_complete_step sample_session ''plan'' (sample_result False))"

lemma add_all_reachable:
  "se_reachable ops s \<Longrightarrow> (\<And>st. st \<in> set sts \<Longrightarrow> st_status st = Pending) \<Longrightarrow> se_reachable ops (add_all s sts)"
  unfolding add_all_def
proof (induction sts arbitrary: s)
  case (Cons st sts)
  then show ?case by (cases "se_add_step s st") (auto intro: se_add)
qed simp

lemma sample_reachable: "se_reachable ops sample_session"
  unfolding sample_session_def
  by (rule add_all_reachable [OF se_start])
    (auto simp: sample_steps_def step_new_def step_with_depends_def step_with_checkpoint_def)

lemma failed_reachable: "se_reachable ops failed_session"
  unfolding failed_session_def by (rule se_finish [OF sample_reachable])

theorem complete_step_effect_witness:
  "fst (se_complete_step sample_session ''plan'' (sample_result False)) = Inr () \<and>
   map_option st_status (se_get_step failed_session ''plan'') = Some Failed \<and>
   map_option st_status (se_get_step failed_session ''test'') = Some Cancelled \<and>
   sg_completed (se_graph failed_session) = insert ''plan'' (sg_completed (se_graph sample_session))"
proof -
  have "map_option st_status (se_get_step sample_session ''plan'') = Some Pending" by code_simp
  then obtain st where st: "se_get_step sample_session ''plan'' = Some st" "st_status st = Pending" by auto
  have "map_option st_status (se_get_step failed_session ''test'') = Some Cancelled" by code_simp
  with st show ?thesis
    using complete_step_effect [OF sample_reachable [of list_lru], of "''plan''" "sample_result False"]
    by (auto simp: failed_session_def sample_result_def split: prod.splits)
qed

theorem next_ready_exact_witness:
  "se_next_ready sample_session = [''plan''] \<and> distinct (se_step_ids sample_session)"
proof -
  have "se_next_ready sample_session = [''plan'']" by code_simp
  with next_ready_exact [OF sample_reachable [of list_lru]] show ?thesis by blast
qed

theorem rewind_to_checkpoint_effect_witness:
  "\<exists>s' kv'. se_rewind_to_checkpoint list_lru failed_session one_entry_store ''plan'' = Some (Inr None, s', kv') \<and>
     session_rewound failed_session ''plan'' s'"
proof -
  have "sg_is_checkpoint (se_graph failed_session) ''plan''" and "se_model failed_session = None" by code_simp+
  with rewind_to_checkpoint_effect [OF failed_reachable [of list_lru], of "''plan''" one_entry_store]
  show ?thesis by (auto split: option.splits prod.splits sum.splits)
qed

definition advancing_session :: "nat dep_session" where
  "advancing_session = se_with_snapshot_on_advance (se_with_kv_cache (se_with_model sample_session ''m''))"

theorem advance_fresh_turn_witness:
  "\<exists>snap s' kv'.
     se_advance_and_snapshot list_lru (\<lambda>x. replicate 64 (CHR ''a'')) (\<lambda>_ _. Inr ()) 3 3 advancing_session
       (ss_with_fork_io one_entry_store) ''main'' = Some (Inr (Some snap), s', kv') \<and>
     ks_snapshot_name snap = ''s-000001-aaaaaaaa'' \<and> 0 < se_snapshot_seq s'"
proof -
  let ?h = "\<lambda>x :: string. replicate 64 (CHR ''a'')"
  have fields: "se_snapshot_on_advance advancing_session" "se_model advancing_session = Some ''m''"
    "se_kv_cache advancing_session" "ss_fork (ss_with_fork_io one_entry_store)"
    "se_session_id advancing_session = ''s''"
    by code_simp+
  have seq: "se_snapshot_seq advancing_session = 0" "ss_seed_seq_for (ss_with_fork_io one_entry_store) ''s'' = 0"
    by code_simp+
  have max: "max (se_snapshot_seq advancing_session) (ss_seed_seq_for (ss_with_fork_io one_entry_store) (se_session_id advancing_session)) < u64_max"
    by (simp add: fields seq u64_max_def)
  have next1: "next_seq 0 0 = 1" by (simp add: next_seq_def u64_max_def)
  have name: "snapshot_name_for ?h ''s'' 1 = Some ''s-000001-aaaaaaaa''" by code_simp
  obtain snap s' kv' where adv: "se_advance_and_snapshot list_lru ?h (\<lambda>_ _. Inr ()) 3 3 advancing_session
       (ss_with_fork_io one_entry_store) ''main'' = Some (Inr (Some snap), s', kv')"
    and gt: "se_snapshot_seq advancing_session < se_snapshot_seq s'"
    and nm: "snapshot_name_for ?h (se_session_id advancing_session) (se_snapshot_seq s') = Some (ks_snapshot_name snap)"
    using advance_fresh_turn [of list_lru _ ?h advancing_session "''m''" "ss_with_fork_io one_entry_store" "\<lambda>_ _. Inr ()" "''main''" 3 3,
        OF list_lru_ok _ fields(1-4) _ max] by auto
  have "se_snapshot_seq s' = 1"
    using adv fields seq name
    by (auto simp: se_advance_and_snapshot_def Let_def next1 split: sum.splits prod.splits kv_error.splits)
  with nm name fields(5) adv gt show ?thesis by auto
qed

text \<open>
  A failed step counts as completed, so a dependent added after the failure is handed out as ready.
\<close>

lemma failed_dependency_is_ready:
  "map_option st_status (se_get_step failed_session ''plan'') = Some Failed \<and>
   se_next_ready (add_all failed_session [step_with_depends (step_new ''ship'' '''') [''plan'']]) = [''ship'']"
  by code_simp

end
