(* ===== verification/Targets.thy ===== *)
theory Targets
  imports Prelude
begin

text \<open>
  Capabilities and targets: the interner of \<open>src/src/common-core/src/interner.rs\<close>, the target
  registry of \<open>src/src/dag/src/target.rs\<close> and the loader of \<open>src/src/dag/src/yamake_loader.rs\<close>.

  A \<open>BitVec\<close> is a list of booleans; \<open>iter_ones\<close> lists the indices of its set bits in ascending order.
  The interned strings are plain strings. A target identifier is an \<open>i64\<close>; its cast to \<open>usize\<close>
  wraps modulo \<open>2 ^ 64\<close>. The JSON decoder in front of the loader is third-party: the loader starts
  from the decoded definitions. Its panics are the value \<open>None\<close>.
\<close>

section \<open>Bit vectors\<close>

definition iter_ones :: "bool list \<Rightarrow> nat list" where
  "iter_ones bits = filter (\<lambda>i. bits ! i) [0..<length bits]"

definition not_any :: "bool list \<Rightarrow> bool" where
  "not_any bits \<longleftrightarrow> list_all Not bits"

text \<open>\<open>if i >= bits.len() { bits.resize(i + 1, false) } bits.set(i, true)\<close>\<close>

definition set_bit_grow :: "bool list \<Rightarrow> nat \<Rightarrow> bool list" where
  "set_bit_grow bits i =
     (let bits' = (if length bits \<le> i then bits @ replicate (i + 1 - length bits) False else bits)
      in bits'[i := True])"

lemma in_iter_ones: "i \<in> set (iter_ones bits) \<longleftrightarrow> i < length bits \<and> bits ! i"
  by (auto simp: iter_ones_def)

lemma distinct_iter_ones [simp]: "distinct (iter_ones bits)"
  by (simp add: iter_ones_def)

lemma iter_ones_Nil [simp]: "iter_ones [] = []"
  by (simp add: iter_ones_def)

lemma not_any_iff: "not_any bits \<longleftrightarrow> iter_ones bits = []"
  by (auto simp: not_any_def iter_ones_def list_all_length filter_empty_conv)

lemma set_set_bit_grow: "set (iter_ones (set_bit_grow bits i)) = insert i (set (iter_ones bits))"
  by (auto simp: in_iter_ones set_bit_grow_def Let_def nth_list_update nth_append split: if_splits)

section \<open>The capability interner\<close>

record cap_registry =
  cap_names :: "(string, nat) hmap"
  cap_indices :: "string list"

definition caps_new :: cap_registry where
  "caps_new = \<lparr>cap_names = hm_empty, cap_indices = []\<rparr>"

definition caps_intern :: "cap_registry \<Rightarrow> string \<Rightarrow> nat \<times> cap_registry" where
  "caps_intern c name =
     (case hm_get (cap_names c) name of
        Some idx \<Rightarrow> (idx, c)
      | None \<Rightarrow>
          let idx = length (cap_names c)
          in (idx, \<lparr>cap_names = hm_insert (cap_names c) name idx, cap_indices = cap_indices c @ [name]\<rparr>))"

definition caps_get_index :: "cap_registry \<Rightarrow> string \<Rightarrow> nat option" where
  "caps_get_index c name = hm_get (cap_names c) name"

definition caps_get_name :: "cap_registry \<Rightarrow> nat \<Rightarrow> string option" where
  "caps_get_name c idx = (if idx < length (cap_indices c) then Some (cap_indices c ! idx) else None)"

definition caps_intern_list :: "cap_registry \<Rightarrow> string list \<Rightarrow> cap_registry" where
  "caps_intern_list c names = foldl (\<lambda>c name. snd (caps_intern c name)) c names"

definition to_bitvec_step :: "bool list \<times> cap_registry \<Rightarrow> string \<Rightarrow> bool list \<times> cap_registry" where
  "to_bitvec_step s name = (case caps_intern (snd s) name of (idx, c) \<Rightarrow> (set_bit_grow (fst s) idx, c))"

definition caps_to_bitvec :: "cap_registry \<Rightarrow> string list \<Rightarrow> bool list \<times> cap_registry" where
  "caps_to_bitvec c names = foldl to_bitvec_step ([], c) names"

definition caps_bitvec_to_names :: "cap_registry \<Rightarrow> bool list \<Rightarrow> string list" where
  "caps_bitvec_to_names c bits = List.map_filter (caps_get_name c) (iter_ones bits)"

definition caps_count :: "cap_registry \<Rightarrow> nat" where
  "caps_count c = length (cap_names c)"

text \<open>The two tables are inverse to each other.\<close>

definition caps_wf :: "cap_registry \<Rightarrow> bool" where
  "caps_wf c \<longleftrightarrow> length (cap_names c) = length (cap_indices c) \<and>
     (\<forall>name i. hm_get (cap_names c) name = Some i \<longleftrightarrow> caps_get_name c i = Some name)"

text \<open>Names keep their index while the interner grows.\<close>

definition caps_le :: "cap_registry \<Rightarrow> cap_registry \<Rightarrow> bool" where
  "caps_le c c' \<longleftrightarrow> (\<forall>i name. caps_get_name c i = Some name \<longrightarrow> caps_get_name c' i = Some name)"

lemma caps_le_refl [simp]: "caps_le c c"
  by (simp add: caps_le_def)

lemma caps_le_trans: "caps_le a b \<Longrightarrow> caps_le b c \<Longrightarrow> caps_le a c"
  by (auto simp: caps_le_def)

lemma caps_wf_new: "caps_wf caps_new"
  by (simp add: caps_wf_def caps_new_def caps_get_name_def) (simp add: hm_empty_def)

lemma length_hm_insert_new: "hm_get m k = None \<Longrightarrow> length (hm_insert m k v) = Suc (length m)"
  by (induction m) (auto simp: hm_insert_def hm_get_def split: if_splits)

lemma caps_intern_correct:
  assumes "caps_wf c" and "caps_intern c name = (idx, c')"
  shows "caps_wf c'" and "caps_get_name c' idx = Some name" and "caps_le c c'"
    and "set (cap_indices c') = insert name (set (cap_indices c))"
proof -
  have "caps_wf c' \<and> caps_get_name c' idx = Some name \<and> caps_le c c' \<and>
      set (cap_indices c') = insert name (set (cap_indices c))"
  proof (cases "hm_get (cap_names c) name")
    case (Some i)
    with assms have "c' = c" "idx = i" "caps_get_name c i = Some name"
      by (auto simp: caps_intern_def caps_wf_def)
    with assms(1) show ?thesis by (auto simp: caps_get_name_def split: if_splits)
  next
    case None
    with assms have c': "c' = \<lparr>cap_names = hm_insert (cap_names c) name idx, cap_indices = cap_indices c @ [name]\<rparr>"
      and idx: "idx = length (cap_indices c)"
      by (auto simp: caps_intern_def caps_wf_def Let_def)
    have get: "caps_get_name c' i = (if i = idx then Some name else caps_get_name c i)" for i
      by (auto simp: c' idx caps_get_name_def nth_append)
    have names: "hm_get (cap_names c') = (hm_get (cap_names c))(name \<mapsto> idx)" by (simp add: c')
    have fresh: "caps_get_name c idx = None" by (simp add: idx caps_get_name_def)
    have old: "hm_get (cap_names c) n = Some i \<longleftrightarrow> caps_get_name c i = Some n" for n i
      using assms(1) by (simp add: caps_wf_def)
    have "hm_get (cap_names c') n = Some i \<longleftrightarrow> caps_get_name c' i = Some n" for n i
      using None old [of n i] old [of name i] fresh by (auto simp: get names)
    moreover have "length (cap_names c') = length (cap_indices c')"
      using assms(1) None by (simp add: c' caps_wf_def length_hm_insert_new)
    ultimately have "caps_wf c'" by (simp add: caps_wf_def)
    moreover have "caps_le c c'" using fresh by (auto simp: caps_le_def get)
    ultimately show ?thesis by (simp add: get) (simp add: c')
  qed
  then show "caps_wf c'" and "caps_get_name c' idx = Some name" and "caps_le c c'"
    and "set (cap_indices c') = insert name (set (cap_indices c))" by simp_all
qed

lemma caps_get_name_inj:
  "caps_wf c \<Longrightarrow> caps_get_name c i = Some n \<Longrightarrow> caps_get_name c j = Some n \<Longrightarrow> i = j"
  by (metis caps_wf_def option.inject)

text \<open>Every set bit of an encoded list decodes to one of its names, and back.\<close>

lemma to_bitvec_fold:
  assumes "caps_wf c" and "\<And>i. i \<in> set (iter_ones bits) \<Longrightarrow> caps_get_name c i \<noteq> None"
    and "foldl to_bitvec_step (bits, c) names = (bits', c')"
  shows "caps_wf c' \<and> caps_le c c' \<and> set (cap_indices c') = set (cap_indices c) \<union> set names \<and>
    (\<forall>n. (\<exists>i \<in> set (iter_ones bits'). caps_get_name c' i = Some n) \<longleftrightarrow>
         (\<exists>i \<in> set (iter_ones bits). caps_get_name c i = Some n) \<or> n \<in> set names) \<and>
    (\<forall>i \<in> set (iter_ones bits'). caps_get_name c' i \<noteq> None)"
  using assms
proof (induction names arbitrary: bits c)
  case (Cons name names)
  obtain idx c1 where run: "caps_intern c name = (idx, c1)" by fastforce
  note one = caps_intern_correct [OF Cons.prems(1) run]
  let ?bits = "set_bit_grow bits idx"
  have ok: "caps_get_name c1 i \<noteq> None" if "i \<in> set (iter_ones ?bits)" for i
    using that Cons.prems(2) [of i] one(2,3) by (auto simp: set_set_bit_grow caps_le_def)
  have "to_bitvec_step (bits, c) name = (?bits, c1)" by (simp add: to_bitvec_step_def run)
  then have step: "foldl to_bitvec_step (?bits, c1) names = (bits', c')"
    using Cons.prems(3) by simp
  have same: "caps_get_name c1 i = caps_get_name c i" if "i \<in> set (iter_ones bits)" for i
    using that Cons.prems(2) [of i] one(3) by (auto simp: caps_le_def)
  have "(\<exists>i \<in> set (iter_ones ?bits). caps_get_name c1 i = Some n) \<longleftrightarrow>
      n = name \<or> (\<exists>i \<in> set (iter_ones bits). caps_get_name c i = Some n)" for n
    using one(2) same by (auto simp: set_set_bit_grow)
  with Cons.IH [OF one(1) ok step] one(3,4) show ?case
    using caps_le_trans by (auto simp: insert_commute)
qed simp

lemma to_bitvec_correct:
  assumes "caps_wf c" and "caps_to_bitvec c names = (bits, c')"
  shows "caps_wf c' \<and> caps_le c c' \<and> set (cap_indices c') = set (cap_indices c) \<union> set names \<and>
    (\<forall>n. (\<exists>i \<in> set (iter_ones bits). caps_get_name c' i = Some n) \<longleftrightarrow> n \<in> set names) \<and>
    (\<forall>i \<in> set (iter_ones bits). caps_get_name c' i \<noteq> None)"
  using to_bitvec_fold [OF assms(1), of "[]" names bits c'] assms(2) by (simp add: caps_to_bitvec_def)

lemma bitvec_to_names_set:
  "n \<in> set (caps_bitvec_to_names c bits) \<longleftrightarrow> (\<exists>i \<in> set (iter_ones bits). caps_get_name c i = Some n)"
  by (simp add: caps_bitvec_to_names_def in_map_filter)

section \<open>The target registry\<close>

datatype target_type = File | Phony | Abstract

datatype executor_kind = Native | Docker | Wasm

record target =
  t_id :: int
  t_name :: string
  t_type :: target_type
  t_executor :: executor_kind
  t_depends :: "bool list"
  t_provides :: "bool list"
  t_command :: string
  t_essential :: bool

text \<open>\<open>target.id as usize\<close>\<close>

definition bit_of :: "target \<Rightarrow> nat" where
  "bit_of t = nat (t_id t mod 2 ^ 64)"

datatype registry_error =
    DuplicateTarget string
  | TargetNotFound string
  | InvalidCapability string
  | BitIndexOutOfRange nat
  | Database string

record target_registry =
  tr_targets :: "target list"
  tr_by_name :: "(string, nat) hmap"
  tr_by_bit_index :: "(nat, nat) hmap"
  tr_providers :: "(nat, nat list) hmap"

definition tr_new :: target_registry where
  "tr_new = \<lparr>tr_targets = [], tr_by_name = hm_empty, tr_by_bit_index = hm_empty, tr_providers = hm_empty\<rparr>"

definition tr_register :: "target_registry \<Rightarrow> target \<Rightarrow> registry_error + target_registry" where
  "tr_register r t =
     (if hm_contains (tr_by_name r) (t_name t) then Inl (DuplicateTarget (t_name t))
      else let idx = length (tr_targets r); bit_idx = bit_of t
           in Inr \<lparr>tr_targets = tr_targets r @ [t],
                   tr_by_name = hm_insert (tr_by_name r) (t_name t) idx,
                   tr_by_bit_index = hm_insert (tr_by_bit_index r) bit_idx idx,
                   tr_providers = foldl (\<lambda>m cap_idx. hm_push m cap_idx bit_idx) (tr_providers r) (iter_ones (t_provides t))\<rparr>)"

text \<open>
  \<open>&self.targets[idx]\<close>; the tables hold only positions of the vector (\<open>tr_wf\<close> below), so the panic
  on a position past the end, here no result, does not occur.
\<close>

definition tr_get_by_index :: "target_registry \<Rightarrow> nat \<Rightarrow> target option" where
  "tr_get_by_index r idx = (if idx < length (tr_targets r) then Some (tr_targets r ! idx) else None)"

definition tr_get :: "target_registry \<Rightarrow> string \<Rightarrow> target option" where
  "tr_get r name = Option.bind (hm_get (tr_by_name r) name) (tr_get_by_index r)"

definition tr_get_by_bit_index :: "target_registry \<Rightarrow> nat \<Rightarrow> target option" where
  "tr_get_by_bit_index r bit_idx = Option.bind (hm_get (tr_by_bit_index r) bit_idx) (tr_get_by_index r)"

definition tr_get_providers :: "target_registry \<Rightarrow> nat \<Rightarrow> target list" where
  "tr_get_providers r cap =
     List.map_filter (tr_get_by_bit_index r) (hm_get_or (tr_providers r) cap [])"

definition tr_list_names :: "target_registry \<Rightarrow> string list" where
  "tr_list_names r = map t_name (tr_targets r)"

definition tr_essential_targets :: "target_registry \<Rightarrow> target list" where
  "tr_essential_targets r = filter t_essential (tr_targets r)"

definition tr_abstract_targets :: "target_registry \<Rightarrow> target list" where
  "tr_abstract_targets r = filter (\<lambda>t. t_type t = Abstract) (tr_targets r)"

definition tr_len :: "target_registry \<Rightarrow> nat" where
  "tr_len r = length (tr_targets r)"

text \<open>
  The registries built by registering targets with distinct identifiers. The source does not check
  identifiers for duplicates; the files it loads number the targets.
\<close>

inductive tr_reachable :: "target_registry \<Rightarrow> bool" where
  tr_start: "tr_reachable tr_new"
| tr_reg: "tr_reachable r \<Longrightarrow> bit_of t \<notin> bit_of ` set (tr_targets r) \<Longrightarrow> tr_register r t = Inr r' \<Longrightarrow> tr_reachable r'"

definition tr_wf :: "target_registry \<Rightarrow> bool" where
  "tr_wf r \<longleftrightarrow> distinct (map t_name (tr_targets r)) \<and> distinct (map bit_of (tr_targets r)) \<and>
     (\<forall>name idx. hm_get (tr_by_name r) name = Some idx \<longleftrightarrow> idx < length (tr_targets r) \<and> t_name (tr_targets r ! idx) = name) \<and>
     (\<forall>b idx. hm_get (tr_by_bit_index r) b = Some idx \<longleftrightarrow> idx < length (tr_targets r) \<and> bit_of (tr_targets r ! idx) = b) \<and>
     (\<forall>cap. hm_get_or (tr_providers r) cap [] =
        map bit_of (filter (\<lambda>t. cap \<in> set (iter_ones (t_provides t))) (tr_targets r)))"

lemma tr_wf_new: "tr_wf tr_new"
  by (simp add: tr_wf_def tr_new_def)

lemma register_index:
  assumes "\<And>k idx. hm_get m k = Some idx \<longleftrightarrow> idx < length ts \<and> f (ts ! idx) = k" and "f t \<notin> f ` set ts"
  shows "hm_get (hm_insert m (f t) (length ts)) k = Some idx \<longleftrightarrow>
     idx < length (ts @ [t]) \<and> f ((ts @ [t]) ! idx) = k"
proof -
  have "f (ts ! i) \<noteq> f t" if "i < length ts" for i
    using assms(2) that by (metis image_eqI nth_mem)
  then show ?thesis by (auto simp: assms(1) nth_append less_Suc_eq)
qed

lemma tr_register_wf:
  assumes "tr_wf r" and "bit_of t \<notin> bit_of ` set (tr_targets r)" and "tr_register r t = Inr r'"
  shows "tr_wf r'"
proof -
  from assms(3) have new: "hm_get (tr_by_name r) (t_name t) = None"
    and r': "r' = \<lparr>tr_targets = tr_targets r @ [t],
                   tr_by_name = hm_insert (tr_by_name r) (t_name t) (length (tr_targets r)),
                   tr_by_bit_index = hm_insert (tr_by_bit_index r) (bit_of t) (length (tr_targets r)),
                   tr_providers = foldl (\<lambda>m cap_idx. hm_push m cap_idx (bit_of t)) (tr_providers r) (iter_ones (t_provides t))\<rparr>"
    by (auto simp: tr_register_def hm_contains_def Let_def split: if_splits)
  have names: "hm_get (tr_by_name r) name = Some idx \<longleftrightarrow> idx < length (tr_targets r) \<and> t_name (tr_targets r ! idx) = name"
    and bits: "hm_get (tr_by_bit_index r) b = Some idx \<longleftrightarrow> idx < length (tr_targets r) \<and> bit_of (tr_targets r ! idx) = b" for name b idx
    using assms(1) by (simp_all add: tr_wf_def)
  from new names have fresh: "t_name t \<notin> t_name ` set (tr_targets r)"
    by (metis (no_types, lifting) image_iff in_set_conv_nth option.distinct(1))
  have one: "count_list xs x = (if x \<in> set xs then 1 else 0)" if "distinct xs" for xs and x :: nat
    using that by (induction xs) auto
  show ?thesis
    using assms(1,2) fresh register_index [OF names fresh] register_index [OF bits assms(2)]
    unfolding r' tr_wf_def by (simp add: hm_get_or_push_all one)
qed

lemma tr_reachable_wf: "tr_reachable r \<Longrightarrow> tr_wf r"
  by (induction rule: tr_reachable.induct) (auto intro: tr_wf_new tr_register_wf)

text \<open>What the lookups return.\<close>

lemma tr_lookup_iff:
  assumes "\<And>k idx. hm_get m k = Some idx \<longleftrightarrow> idx < length (tr_targets r) \<and> f (tr_targets r ! idx) = k"
    and "distinct (map f (tr_targets r))"
  shows "Option.bind (hm_get m k) (tr_get_by_index r) = Some t \<longleftrightarrow> t \<in> set (tr_targets r) \<and> f t = k"
proof
  assume "Option.bind (hm_get m k) (tr_get_by_index r) = Some t"
  then obtain idx where "hm_get m k = Some idx" "tr_get_by_index r idx = Some t"
    by (auto simp: bind_eq_Some_conv)
  with assms(1) [of k idx] show "t \<in> set (tr_targets r) \<and> f t = k"
    by (auto simp: tr_get_by_index_def split: if_splits)
next
  assume "t \<in> set (tr_targets r) \<and> f t = k"
  then obtain idx where "idx < length (tr_targets r)" "tr_targets r ! idx = t" "hm_get m k = Some idx"
    by (metis assms(1) in_set_conv_nth)
  then show "Option.bind (hm_get m k) (tr_get_by_index r) = Some t" by (simp add: tr_get_by_index_def)
qed

lemma tr_get_iff: "tr_wf r \<Longrightarrow> tr_get r name = Some t \<longleftrightarrow> t \<in> set (tr_targets r) \<and> t_name t = name"
  unfolding tr_get_def by (rule tr_lookup_iff) (auto simp: tr_wf_def)

lemma tr_get_by_bit_iff: "tr_wf r \<Longrightarrow> tr_get_by_bit_index r b = Some t \<longleftrightarrow> t \<in> set (tr_targets r) \<and> bit_of t = b"
  unfolding tr_get_by_bit_index_def by (rule tr_lookup_iff) (auto simp: tr_wf_def)

lemma map_filter_map_inv: "(\<And>x. x \<in> set xs \<Longrightarrow> g (f x) = Some x) \<Longrightarrow> List.map_filter g (map f xs) = xs"
  by (induction xs) (auto simp: List.map_filter_simps)

lemma tr_get_providers_eq:
  assumes "tr_wf r"
  shows "tr_get_providers r cap = filter (\<lambda>t. cap \<in> set (iter_ones (t_provides t))) (tr_targets r)"
proof -
  have "hm_get_or (tr_providers r) cap [] = map bit_of (filter (\<lambda>t. cap \<in> set (iter_ones (t_provides t))) (tr_targets r))"
    using assms by (simp add: tr_wf_def)
  then show ?thesis
    unfolding tr_get_providers_def by (simp only:) (rule map_filter_map_inv, simp add: tr_get_by_bit_iff [OF assms])
qed

section \<open>The loader\<close>

record target_def =
  td_id :: int
  td_name :: string
  td_target_type :: string
  td_depends :: "string list"
  td_provides :: "string list"
  td_essential :: bool

definition yamake_intern_all :: "cap_registry \<Rightarrow> target_def list \<Rightarrow> cap_registry" where
  "yamake_intern_all c tds =
     foldl (\<lambda>c td. caps_intern_list c (td_depends td @ td_provides td @ [td_name td])) c tds"

definition parse_target_type :: "string \<Rightarrow> target_type option" where
  "parse_target_type s =
     (if s = ''file'' then Some File else if s = ''abstract'' then Some Abstract
      else if s = ''phony'' then Some Phony else None)"

text \<open>One round of the second loop; \<open>None\<close> is the panic on an unknown type or a duplicate name.\<close>

definition yamake_load_one :: "target_registry \<times> cap_registry \<Rightarrow> target_def \<Rightarrow> (target_registry \<times> cap_registry) option" where
  "yamake_load_one s td =
     (case s of (reg, caps) \<Rightarrow>
      case caps_to_bitvec caps (td_depends td) of (depends, caps1) \<Rightarrow>
      case caps_to_bitvec caps1 (td_provides td) of (provides, caps2) \<Rightarrow>
      case (if td_target_type td = ''file'' \<or> td_target_type td = ''phony''
            then (case caps_to_bitvec caps2 [td_name td] of (self_bit, caps3) \<Rightarrow>
                    (foldl set_bit_grow provides (iter_ones self_bit), caps3))
            else (provides, caps2)) of (combined, caps3) \<Rightarrow>
      case parse_target_type (td_target_type td) of
        None \<Rightarrow> None
      | Some ty \<Rightarrow>
          (case tr_register reg
             \<lparr>t_id = td_id td, t_name = td_name td, t_type = ty, t_executor = Native, t_depends = depends,
              t_provides = combined, t_command = '''', t_essential = td_essential td\<rparr> of
             Inl _ \<Rightarrow> None
           | Inr reg' \<Rightarrow> Some (reg', caps3)))"

fun yamake_load_all :: "target_registry \<times> cap_registry \<Rightarrow> target_def list \<Rightarrow> (target_registry \<times> cap_registry) option" where
  "yamake_load_all s [] = Some s"
| "yamake_load_all s (td # tds) =
     (case yamake_load_one s td of None \<Rightarrow> None | Some s' \<Rightarrow> yamake_load_all s' tds)"

definition load_yamake_config :: "target_def list \<Rightarrow> (target_registry \<times> cap_registry) option" where
  "load_yamake_config tds = yamake_load_all (tr_new, yamake_intern_all caps_new tds) tds"

lemma set_bit_grow_fold: "set (iter_ones (foldl set_bit_grow bits is)) = set (iter_ones bits) \<union> set is"
  by (induction "is" arbitrary: bits) (auto simp: set_set_bit_grow)

lemma caps_intern_list_wf: "caps_wf c \<Longrightarrow> caps_wf (caps_intern_list c names)"
  unfolding caps_intern_list_def
proof (induction names arbitrary: c)
  case (Cons n names)
  then show ?case using caps_intern_correct(1) [OF Cons.prems, of n] by (metis foldl_Cons prod.collapse)
qed simp

lemma yamake_intern_all_wf: "caps_wf c \<Longrightarrow> caps_wf (yamake_intern_all c tds)"
  unfolding yamake_intern_all_def by (induction tds arbitrary: c) (auto simp: caps_intern_list_wf)

text \<open>A loaded target matches its definition, read through the interner.\<close>

definition matches_def :: "cap_registry \<Rightarrow> target_def \<Rightarrow> target \<Rightarrow> bool" where
  "matches_def c td t \<longleftrightarrow> t_id t = td_id td \<and> t_name t = td_name td \<and>
     parse_target_type (td_target_type td) = Some (t_type t) \<and> t_essential t = td_essential td \<and>
     set (caps_bitvec_to_names c (t_depends t)) = set (td_depends td) \<and>
     set (caps_bitvec_to_names c (t_provides t)) =
       set (td_provides td) \<union> (if t_type t = Abstract then {} else {td_name td}) \<and>
     (\<forall>i \<in> set (iter_ones (t_depends t)) \<union> set (iter_ones (t_provides t)). caps_get_name c i \<noteq> None)"

lemma names_mono:
  assumes "caps_le c c'" and "\<And>i. i \<in> set (iter_ones bits) \<Longrightarrow> caps_get_name c i \<noteq> None"
  shows "set (caps_bitvec_to_names c' bits) = set (caps_bitvec_to_names c bits)"
proof -
  have "caps_get_name c' i = caps_get_name c i" if "i \<in> set (iter_ones bits)" for i
    using assms(1) assms(2) [OF that] by (auto simp: caps_le_def)
  then show ?thesis by (auto simp: bitvec_to_names_set)
qed

lemma names_union:
  "set (caps_bitvec_to_names c (foldl set_bit_grow a (iter_ones b))) =
     set (caps_bitvec_to_names c a) \<union> set (caps_bitvec_to_names c b)"
  by (auto simp: bitvec_to_names_set set_bit_grow_fold)

lemma matches_def_mono:
  assumes "caps_le c c'" and "matches_def c td t"
  shows "matches_def c' td t"
proof -
  have ok: "caps_get_name c i \<noteq> None" if "i \<in> set (iter_ones (t_depends t)) \<union> set (iter_ones (t_provides t))" for i
    using assms(2) that by (auto simp: matches_def_def)
  moreover from this have "caps_get_name c' i \<noteq> None" if "i \<in> set (iter_ones (t_depends t)) \<union> set (iter_ones (t_provides t))" for i
    using assms(1) that unfolding caps_le_def by blast
  ultimately show ?thesis
    using names_mono [OF assms(1), of "t_depends t"] names_mono [OF assms(1), of "t_provides t"] assms(2)
    by (simp add: matches_def_def)
qed

lemma yamake_load_one_correct:
  assumes "caps_wf caps" and "yamake_load_one (reg, caps) td = Some (reg', caps')"
  shows "\<exists>t. tr_register reg t = Inr reg' \<and> caps_wf caps' \<and> caps_le caps caps' \<and> matches_def caps' td t"
proof -
  obtain depends caps1 where d: "caps_to_bitvec caps (td_depends td) = (depends, caps1)" by fastforce
  obtain provides caps2 where p: "caps_to_bitvec caps1 (td_provides td) = (provides, caps2)" by fastforce
  note cd = to_bitvec_correct [OF assms(1) d]
  then have wf1: "caps_wf caps1" by simp
  note cp = to_bitvec_correct [OF wf1 p]
  then have wf2: "caps_wf caps2" by simp
  obtain self caps3 where s: "caps_to_bitvec caps2 [td_name td] = (self, caps3)" by fastforce
  note cs = to_bitvec_correct [OF wf2 s]
  let ?file = "td_target_type td = ''file'' \<or> td_target_type td = ''phony''"
  let ?comb = "if ?file then foldl set_bit_grow provides (iter_ones self) else provides"
  from assms(2) d p s obtain ty where ty: "parse_target_type (td_target_type td) = Some ty"
    and reg: "tr_register reg \<lparr>t_id = td_id td, t_name = td_name td, t_type = ty, t_executor = Native,
        t_depends = depends, t_provides = ?comb, t_command = '''', t_essential = td_essential td\<rparr> = Inr reg'"
    and caps': "caps' = (if ?file then caps3 else caps2)"
    by (auto simp: yamake_load_one_def split: if_splits option.splits sum.splits)
  have isf: "?file \<longleftrightarrow> ty \<noteq> Abstract"
    using ty by (auto simp: parse_target_type_def split: if_splits)
  have le: "caps_le caps1 caps'" "caps_le caps2 caps'" "caps_wf caps'"
    using cp cs caps' caps_le_trans by auto
  have nd: "set (caps_bitvec_to_names caps' depends) = set (td_depends td)"
    using names_mono [OF le(1), of depends] cd by (auto simp: bitvec_to_names_set)
  have np: "set (caps_bitvec_to_names caps' provides) = set (td_provides td)"
    using names_mono [OF le(2), of provides] cp by (auto simp: bitvec_to_names_set)
  have ns: "?file \<Longrightarrow> set (caps_bitvec_to_names caps' self) = {td_name td}"
    using cs caps' by (auto simp: bitvec_to_names_set)
  have comb: "set (caps_bitvec_to_names caps' ?comb) = set (td_provides td) \<union> (if ty = Abstract then {} else {td_name td})"
    using np ns isf by (cases ?file) (simp_all add: names_union)
  have "caps_get_name caps' i \<noteq> None" if "i \<in> set (iter_ones depends) \<union> set (iter_ones ?comb)" for i
    using that cd cp cs le caps' by (auto simp: set_bit_grow_fold caps_le_def split: if_splits)
  then have "matches_def caps' td \<lparr>t_id = td_id td, t_name = td_name td, t_type = ty, t_executor = Native,
        t_depends = depends, t_provides = ?comb, t_command = '''', t_essential = td_essential td\<rparr>"
    using ty nd comb by (simp add: matches_def_def)
  moreover have "caps_le caps caps'" using cd le(1) caps_le_trans by blast
  ultimately show ?thesis using reg le(3) by blast
qed

lemma yamake_load_all_correct:
  assumes "caps_wf caps" and "yamake_load_all (reg, caps) tds = Some (reg', caps')"
  shows "caps_wf caps' \<and> caps_le caps caps' \<and>
    (\<exists>ts. tr_targets reg' = tr_targets reg @ ts \<and> list_all2 (matches_def caps') tds ts)"
  using assms
proof (induction tds arbitrary: reg caps)
  case (Cons td tds)
  then obtain reg1 caps1 where one: "yamake_load_one (reg, caps) td = Some (reg1, caps1)"
    and rest: "yamake_load_all (reg1, caps1) tds = Some (reg', caps')"
    by (auto split: option.splits)
  from yamake_load_one_correct [OF Cons.prems(1) one] obtain t where t: "tr_register reg t = Inr reg1"
    "caps_wf caps1" "caps_le caps caps1" "matches_def caps1 td t" by blast
  from Cons.IH [OF t(2) rest] obtain ts where ts: "caps_wf caps'" "caps_le caps1 caps'"
    "tr_targets reg' = tr_targets reg1 @ ts" "list_all2 (matches_def caps') tds ts" by blast
  from t(1) have "tr_targets reg1 = tr_targets reg @ [t]"
    by (auto simp: tr_register_def Let_def split: if_splits)
  with ts t have "tr_targets reg' = tr_targets reg @ (t # ts)" "list_all2 (matches_def caps') (td # tds) (t # ts)"
    by (auto intro: matches_def_mono)
  with ts t show ?case using caps_le_trans by blast
qed simp

lemma yamake_load_all_reachable:
  assumes "tr_reachable reg" and "yamake_load_all (reg, caps) tds = Some (reg', caps')" and "caps_wf caps"
    and "distinct (map (\<lambda>t. nat (t mod 2 ^ 64)) (map t_id (tr_targets reg) @ map td_id tds))"
  shows "tr_reachable reg'"
  using assms
proof (induction tds arbitrary: reg caps)
  case (Cons td tds)
  then obtain reg1 caps1 where one: "yamake_load_one (reg, caps) td = Some (reg1, caps1)"
    and rest: "yamake_load_all (reg1, caps1) tds = Some (reg', caps')"
    by (auto split: option.splits)
  from yamake_load_one_correct [OF Cons.prems(3) one] obtain t where t: "tr_register reg t = Inr reg1"
    "caps_wf caps1" "matches_def caps1 td t" by blast
  from t(1) have ts: "tr_targets reg1 = tr_targets reg @ [t]"
    by (auto simp: tr_register_def Let_def split: if_splits)
  from t(3) have tid: "t_id t = td_id td" by (simp add: matches_def_def)
  then have "bit_of t \<notin> bit_of ` set (tr_targets reg)"
    using Cons.prems(4) by (auto simp: bit_of_def image_iff)
  then have "tr_reachable reg1" using Cons.prems(1) t(1) tr_reg by blast
  moreover have "distinct (map (\<lambda>t. nat (t mod 2 ^ 64)) (map t_id (tr_targets reg1) @ map td_id tds))"
    using Cons.prems(4) by (simp add: ts tid)
  ultimately show ?case using Cons.IH rest t(2) by blast
qed simp

section \<open>Properties\<close>

text \<open>
  Encoding names as a bit vector and decoding it gives back exactly the names, each once: every
  name gets an index of its own, names that already had one keep it, and the interner's two tables
  stay inverse to each other.
\<close>

theorem bitvec_roundtrip:
  assumes "caps_wf c" and "caps_to_bitvec c names = (bits, c')"
  shows "caps_wf c' \<and> distinct (caps_bitvec_to_names c' bits) \<and> set (caps_bitvec_to_names c' bits) = set names \<and>
    (\<forall>i name. caps_get_name c i = Some name \<longrightarrow> caps_get_name c' i = Some name \<and> caps_get_index c' name = Some i)"
proof -
  note ok = to_bitvec_correct [OF assms]
  then have wf: "caps_wf c'" by simp
  have "distinct (List.map_filter (caps_get_name c') is)" if "distinct is" for "is"
    using that by (induction "is") (auto simp: List.map_filter_simps in_map_filter dest: caps_get_name_inj [OF wf] split: option.splits)
  then have "distinct (caps_bitvec_to_names c' bits)" by (simp add: caps_bitvec_to_names_def)
  moreover have "set (caps_bitvec_to_names c' bits) = set names"
    using ok by (auto simp: bitvec_to_names_set)
  moreover have "caps_get_index c' name = Some i" if "caps_get_name c' i = Some name" for i name
    using wf that by (simp add: caps_wf_def caps_get_index_def)
  ultimately show ?thesis using ok by (auto simp: caps_le_def)
qed

theorem bitvec_roundtrip_witness:
  "caps_to_bitvec caps_new [''b'', ''a'', ''b''] = ([True, True], snd (caps_to_bitvec caps_new [''b'', ''a'', ''b''])) \<and>
   set (caps_bitvec_to_names (snd (caps_to_bitvec caps_new [''b'', ''a'', ''b''])) [True, True]) = {''a'', ''b''}"
proof -
  have run: "caps_to_bitvec caps_new [''b'', ''a'', ''b''] = ([True, True], snd (caps_to_bitvec caps_new [''b'', ''a'', ''b'']))"
    by code_simp
  from bitvec_roundtrip [OF caps_wf_new run] run show ?thesis by auto
qed

text \<open>
  In a registry of targets with distinct identifiers, lookup by name and by bit index find exactly
  the registered target, and the providers of a capability are the registered targets that provide
  it, in registration order.
\<close>

theorem registry_lookups_exact:
  assumes "tr_reachable r"
  shows "(tr_get r name = Some t \<longleftrightarrow> t \<in> set (tr_targets r) \<and> t_name t = name) \<and>
    (tr_get_by_bit_index r b = Some t \<longleftrightarrow> t \<in> set (tr_targets r) \<and> bit_of t = b) \<and>
    tr_get_providers r cap = filter (\<lambda>t. cap \<in> set (iter_ones (t_provides t))) (tr_targets r)"
proof -
  have "tr_wf r" using assms by (rule tr_reachable_wf)
  then show ?thesis by (simp add: tr_get_iff tr_get_by_bit_iff tr_get_providers_eq)
qed

text \<open>Two contested capabilities and an abstract goal.\<close>

definition sample_defs :: "target_def list" where
  "sample_defs =
     [\<lparr>td_id = 0, td_name = ''app'', td_target_type = ''file'', td_depends = [''lib'', ''db''], td_provides = [], td_essential = False\<rparr>,
      \<lparr>td_id = 1, td_name = ''lib_a'', td_target_type = ''file'', td_depends = [], td_provides = [''lib''], td_essential = True\<rparr>,
      \<lparr>td_id = 2, td_name = ''lib_b'', td_target_type = ''file'', td_depends = [''db''], td_provides = [''lib''], td_essential = False\<rparr>,
      \<lparr>td_id = 3, td_name = ''sqlite'', td_target_type = ''phony'', td_depends = [], td_provides = [''db''], td_essential = False\<rparr>]"

definition sample_reg :: target_registry where
  "sample_reg = fst (the (load_yamake_config sample_defs))"

definition sample_caps :: cap_registry where
  "sample_caps = snd (the (load_yamake_config sample_defs))"

lemma sample_loads: "load_yamake_config sample_defs = Some (sample_reg, sample_caps)"
proof -
  have "\<not> Option.is_none (load_yamake_config sample_defs)" by code_simp
  then show ?thesis by (auto simp: sample_reg_def sample_caps_def Option.is_none_def)
qed

lemma sample_reg_reachable: "tr_reachable sample_reg"
  by (rule yamake_load_all_reachable [OF tr_start sample_loads [unfolded load_yamake_config_def]])
    (simp_all add: yamake_intern_all_wf caps_wf_new tr_new_def sample_defs_def)

theorem registry_lookups_exact_witness:
  "map t_name (tr_get_providers sample_reg 0) = [''lib_a'', ''lib_b''] \<and>
   filter (\<lambda>t. 0 \<in> set (iter_ones (t_provides t))) (tr_targets sample_reg) = tr_get_providers sample_reg 0"
proof -
  have "map t_name (tr_get_providers sample_reg 0) = [''lib_a'', ''lib_b'']" by code_simp
  with registry_lookups_exact [OF sample_reg_reachable] show ?thesis by simp
qed

text \<open>
  A configuration that loads yields one target per definition, in order: with its identifier, name,
  type and flag, depending on exactly the names listed, and providing exactly the names listed plus,
  unless it is abstract, its own name.
\<close>

theorem load_yamake_faithful:
  assumes "load_yamake_config tds = Some (reg, caps)"
  shows "caps_wf caps \<and> list_all2 (matches_def caps) tds (tr_targets reg)"
proof -
  have wf: "caps_wf (yamake_intern_all caps_new tds)" by (simp add: yamake_intern_all_wf caps_wf_new)
  from assms have run: "yamake_load_all (tr_new, yamake_intern_all caps_new tds) tds = Some (reg, caps)"
    by (simp add: load_yamake_config_def)
  from yamake_load_all_correct [OF wf run] show ?thesis by (auto simp: tr_new_def)
qed

theorem load_yamake_faithful_witness:
  "list_all2 (matches_def sample_caps) sample_defs (tr_targets sample_reg) \<and> length (tr_targets sample_reg) = 4"
  using load_yamake_faithful [OF sample_loads] by (auto dest!: list_all2_lengthD simp: sample_defs_def)

end
