(* ===== verification/Resolver.thy ===== *)
theory Resolver
  imports Kahn Targets "HOL-Library.List_Lexorder" "HOL-Library.Char_ord"
begin

text \<open>
  The capability-aware dependency resolver: \<open>src/src/dag/src/resolver.rs\<close> with the provider
  narrowing of \<open>narrowing.rs\<close> and the closure of \<open>closure.rs\<close>.

  Sets of bit indices (\<open>HashSet<usize>\<close>) are sets; where the source iterates one, a parameter
  \<open>iter\<close> lists it in the unspecified order of the hash set (\<open>iter_ok\<close>). Stacks are lists with
  the top first. Errors carry the rendered texts. \<open>None\<close> is a panic.
\<close>

datatype resolver_error =
    RCircularDependency
  | RTargetNotFound string
  | MissingDependency string
  | AmbiguousDependency string "string list"
  | ExecutionFailed string

definition iter_ok :: "(nat set \<Rightarrow> nat list) \<Rightarrow> bool" where
  "iter_ok iter \<longleftrightarrow> (\<forall>S. finite S \<longrightarrow> set (iter S) = S \<and> distinct (iter S))"

section \<open>Narrowing\<close>

definition stage_essential :: "target \<Rightarrow> nat set \<Rightarrow> bool" where
  "stage_essential t fp = t_essential t"

definition stage_strict_sat :: "target \<Rightarrow> nat set \<Rightarrow> bool" where
  "stage_strict_sat t fp \<longleftrightarrow> not_any (t_depends t) \<or> list_all (\<lambda>c. c \<in> fp) (iter_ones (t_depends t))"

definition stage_locality :: "target \<Rightarrow> nat set \<Rightarrow> bool" where
  "stage_locality t fp \<longleftrightarrow> \<not> not_any (t_depends t) \<and> list_ex (\<lambda>c. c \<in> fp) (iter_ones (t_depends t))"

definition STAGES :: "(target \<Rightarrow> nat set \<Rightarrow> bool) list" where
  "STAGES = [stage_essential, stage_strict_sat, stage_locality]"

text \<open>\<open>Inl\<close> is the early return with at most one candidate left.\<close>

fun run_stages :: "(target \<Rightarrow> nat set \<Rightarrow> bool) list \<Rightarrow> nat set \<Rightarrow> target list \<Rightarrow> target list + target list" where
  "run_stages [] fp narrowed = Inr narrowed"
| "run_stages (keep # stages) fp narrowed =
     (let kept = filter (\<lambda>t. keep t fp) narrowed;
          narrowed' = (if kept \<noteq> [] then kept else narrowed)
      in if length narrowed' \<le> 1 then Inl narrowed' else run_stages stages fp narrowed')"

definition narrow_providers :: "target list \<Rightarrow> nat set \<Rightarrow> target list" where
  "narrow_providers candidates full_provides =
     (if length candidates \<le> 1 then candidates
      else case run_stages STAGES full_provides (sort_key t_name candidates) of
             Inl narrowed \<Rightarrow> narrowed
           | Inr narrowed \<Rightarrow>
               let no_deps = filter (\<lambda>t. not_any (t_depends t)) narrowed
               in if no_deps \<noteq> [] \<and> length no_deps < length narrowed then no_deps else narrowed)"

definition cap_name :: "cap_registry option \<Rightarrow> nat \<Rightarrow> string" where
  "cap_name caps cap_idx =
     (case Option.bind caps (\<lambda>c. caps_get_name c cap_idx) of
        Some s \<Rightarrow> s
      | None \<Rightarrow> ''cap_'' @ show_nat cap_idx)"

definition missing_provider_error :: "cap_registry option \<Rightarrow> nat \<Rightarrow> string \<Rightarrow> resolver_error" where
  "missing_provider_error caps cap_idx target_name =
     MissingDependency (''no provider for '' @ [CHR 0x27] @ cap_name caps cap_idx @ [CHR 0x27] @
       '' (required by '' @ [CHR 0x27] @ target_name @ [CHR 0x27] @ '')'')"

definition ambiguous_error :: "cap_registry option \<Rightarrow> nat \<Rightarrow> target list \<Rightarrow> resolver_error" where
  "ambiguous_error caps cap_idx narrowed = AmbiguousDependency (cap_name caps cap_idx) (map t_name narrowed)"

section \<open>Closure\<close>

record closure_ctx =
  cx_registry :: target_registry
  cx_caps :: "cap_registry option"
  cx_strict :: bool

definition opt_in :: "nat \<Rightarrow> nat set option \<Rightarrow> bool" where
  "opt_in x S = (case S of Some s \<Rightarrow> x \<in> s | None \<Rightarrow> False)"

definition push_provider :: "nat set option \<Rightarrow> nat set \<Rightarrow> nat list \<Rightarrow> nat \<Rightarrow> nat list" where
  "push_provider rejected visited stack p_bit =
     (if p_bit \<notin> visited \<and> \<not> opt_in p_bit rejected then p_bit # stack else stack)"

definition bit_not_found :: "nat \<Rightarrow> resolver_error" where
  "bit_not_found b = RTargetNotFound (''bit_index '' @ show_nat b)"

text \<open>The body of the loop over the capabilities of the target just visited.\<close>

definition closure_cap ::
  "closure_ctx \<Rightarrow> nat set option \<Rightarrow> nat set option \<Rightarrow> nat set \<Rightarrow> target \<Rightarrow> nat list \<Rightarrow> nat \<Rightarrow> resolver_error + nat list" where
  "closure_cap ctx satisfied rejected visited t stack cap_idx =
     (if opt_in cap_idx satisfied then Inr stack
      else let providers = tr_get_providers (cx_registry ctx) cap_idx in
        if providers = [] then
          (case Option.bind (cx_caps ctx) (\<lambda>caps. Option.bind (caps_get_name caps cap_idx) (tr_get (cx_registry ctx))) of
             Some implicit \<Rightarrow> Inr (push_provider rejected visited stack (bit_of implicit))
           | None \<Rightarrow>
               if cx_strict ctx then Inl (missing_provider_error (cx_caps ctx) cap_idx (t_name t)) else Inr stack)
        else Inr (foldl (\<lambda>stack p. push_provider rejected visited stack (bit_of p)) stack providers))"

lemma tr_get_by_bit_dom: "tr_get_by_bit_index r b = Some t \<Longrightarrow> b \<in> dom (hm_get (tr_by_bit_index r))"
  by (auto simp: tr_get_by_bit_index_def bind_eq_Some_conv)

function closure_loop ::
  "closure_ctx \<Rightarrow> nat set option \<Rightarrow> nat set option \<Rightarrow> nat set \<Rightarrow> nat list \<Rightarrow> resolver_error + nat set" where
  "closure_loop ctx satisfied rejected visited [] = Inr visited"
| "closure_loop ctx satisfied rejected visited (bit_idx # stack) =
     (if bit_idx \<in> visited then closure_loop ctx satisfied rejected visited stack
      else case tr_get_by_bit_index (cx_registry ctx) bit_idx of
        None \<Rightarrow> Inl (bit_not_found bit_idx)
      | Some t \<Rightarrow>
          (case fold_err (closure_cap ctx satisfied rejected (insert bit_idx visited) t) stack (iter_ones (t_depends t)) of
             Inl e \<Rightarrow> Inl e
           | Inr stack' \<Rightarrow> closure_loop ctx satisfied rejected (insert bit_idx visited) stack'))"
  by pat_completeness auto
termination
proof (relation "inv_image (less_than <*lex*> less_than)
    (\<lambda>(ctx, satisfied, rejected, visited, stack).
       (card (dom (hm_get (tr_by_bit_index (cx_registry ctx))) - visited), length stack))")
  fix ctx :: closure_ctx and satisfied rejected :: "nat set option" and visited :: "nat set" and bit_idx t
    and stack stack' :: "nat list"
  assume "bit_idx \<notin> visited" and "tr_get_by_bit_index (cx_registry ctx) bit_idx = Some t"
  then have "card (dom (hm_get (tr_by_bit_index (cx_registry ctx))) - insert bit_idx visited)
      < card (dom (hm_get (tr_by_bit_index (cx_registry ctx))) - visited)"
    by (intro psubset_card_mono) (auto dest: tr_get_by_bit_dom)
  then show "((ctx, satisfied, rejected, insert bit_idx visited, stack'), (ctx, satisfied, rejected, visited, bit_idx # stack))
    \<in> inv_image (less_than <*lex*> less_than)
    (\<lambda>(ctx, satisfied, rejected, visited, stack).
       (card (dom (hm_get (tr_by_bit_index (cx_registry ctx))) - visited), length stack))" by simp
qed auto

definition transitive_closure ::
  "closure_ctx \<Rightarrow> nat list \<Rightarrow> nat set option \<Rightarrow> nat set option \<Rightarrow> resolver_error + nat set" where
  "transitive_closure ctx seeds satisfied rejected = closure_loop ctx satisfied rejected {} (rev seeds)"

section \<open>The resolver\<close>

record execution_plan =
  ep_order :: "nat list"
  ep_target_names :: "string list"

datatype provider_selection = All | NarrowOne

record dependency_resolver =
  dr_registry :: target_registry
  dr_strict :: bool
  dr_caps :: "cap_registry option"
  dr_selection :: provider_selection

definition dr_new :: "target_registry \<Rightarrow> dependency_resolver" where
  "dr_new reg = \<lparr>dr_registry = reg, dr_strict = True, dr_caps = None, dr_selection = All\<rparr>"

definition dr_with_narrowing :: "target_registry \<Rightarrow> cap_registry \<Rightarrow> dependency_resolver" where
  "dr_with_narrowing reg caps = \<lparr>dr_registry = reg, dr_strict = True, dr_caps = Some caps, dr_selection = NarrowOne\<rparr>"

definition dr_with_strict :: "dependency_resolver \<Rightarrow> bool \<Rightarrow> dependency_resolver" where
  "dr_with_strict dr strict = dr\<lparr>dr_strict := strict\<rparr>"

definition dr_with_selection :: "dependency_resolver \<Rightarrow> provider_selection \<Rightarrow> dependency_resolver" where
  "dr_with_selection dr sel = dr\<lparr>dr_selection := sel\<rparr>"

definition compute_full_provides :: "target_registry \<Rightarrow> nat set \<Rightarrow> nat set" where
  "compute_full_provides reg target_set =
     (\<Union>b \<in> target_set. case tr_get_by_bit_index reg b of Some t \<Rightarrow> set (iter_ones (t_provides t)) | None \<Rightarrow> {})"

text \<open>The edges one target contributes, and the loop that collects them.\<close>

definition plan_edges :: "target_registry \<Rightarrow> nat set \<Rightarrow> nat \<Rightarrow> target \<Rightarrow> (nat \<times> nat) list" where
  "plan_edges reg needed bit_idx t =
     concat (map (\<lambda>cap. map (\<lambda>p. (bit_of p, bit_idx))
         (filter (\<lambda>p. bit_of p \<in> needed \<and> bit_of p \<noteq> bit_idx) (tr_get_providers reg cap)))
       (iter_ones (t_depends t)))"

definition plan_collect :: "target_registry \<Rightarrow> nat set \<Rightarrow> (nat \<times> nat) list \<Rightarrow> nat \<Rightarrow> resolver_error + (nat \<times> nat) list" where
  "plan_collect reg needed es bit_idx =
     (case tr_get_by_bit_index reg bit_idx of
        None \<Rightarrow> Inl (bit_not_found bit_idx)
      | Some t \<Rightarrow> Inr (es @ plan_edges reg needed bit_idx t))"

definition plan_name :: "target_registry \<Rightarrow> nat \<Rightarrow> string" where
  "plan_name reg bit_idx =
     (case tr_get_by_bit_index reg bit_idx of None \<Rightarrow> ''bit_'' @ show_nat bit_idx | Some t \<Rightarrow> t_name t)"

definition plan_from_set :: "(nat set \<Rightarrow> nat list) \<Rightarrow> target_registry \<Rightarrow> nat set \<Rightarrow> (resolver_error + execution_plan) option" where
  "plan_from_set iter reg needed =
     (case fold_err (plan_collect reg needed) [] (iter needed) of
        Inl e \<Rightarrow> Some (Inl e)
      | Inr es \<Rightarrow>
          (case kahn_run (iter needed) es of
             None \<Rightarrow> None
           | Some (Inl _) \<Rightarrow> Some (Inl RCircularDependency)
           | Some (Inr order) \<Rightarrow> Some (Inr \<lparr>ep_order = order, ep_target_names = map (plan_name reg) order\<rparr>)))"

definition resolve_all :: "(nat set \<Rightarrow> nat list) \<Rightarrow> dependency_resolver \<Rightarrow> nat list \<Rightarrow> (resolver_error + execution_plan) option" where
  "resolve_all iter dr seed_bits =
     (case transitive_closure \<lparr>cx_registry = dr_registry dr, cx_caps = None, cx_strict = dr_strict dr\<rparr> seed_bits None None of
        Inl e \<Rightarrow> Some (Inl e)
      | Inr needed \<Rightarrow> plan_from_set iter (dr_registry dr) needed)"

subsection \<open>Narrowing to one provider\<close>

record narrow_state =
  ns_resolved :: "nat set"
  ns_rejected :: "nat set"
  ns_narrowed :: "nat set"
  ns_changed :: bool

text \<open>\<open>if resolved_set.insert(b) { changed = true }\<close>\<close>

definition ns_add :: "narrow_state \<Rightarrow> nat \<Rightarrow> narrow_state" where
  "ns_add st b =
     st\<lparr>ns_resolved := insert b (ns_resolved st), ns_changed := (ns_changed st \<or> b \<notin> ns_resolved st)\<rparr>"

text \<open>The winner of a contest joins the plan, the other candidates are rejected.\<close>

definition ns_elect :: "narrow_state \<Rightarrow> target \<Rightarrow> target list \<Rightarrow> narrow_state" where
  "ns_elect st w providers =
     (let st1 = ns_add st (bit_of w)
      in st1\<lparr>ns_rejected := ns_rejected st1 \<union> bit_of ` set (filter (\<lambda>c. t_id c \<noteq> t_id w) providers)\<rparr>)"

text \<open>One capability of a target whose dependencies are not all provided yet.\<close>

definition narrow_dep ::
  "target_registry \<Rightarrow> cap_registry \<Rightarrow> bool \<Rightarrow> nat set \<Rightarrow> target \<Rightarrow> narrow_state \<Rightarrow> nat \<Rightarrow> resolver_error + narrow_state" where
  "narrow_dep reg caps strict full_provides t st cap_idx =
     (if cap_idx \<in> ns_narrowed st \<or> cap_idx \<in> full_provides then Inr st
      else let providers = tr_get_providers reg cap_idx in
        if providers = [] then
          (case Option.bind (caps_get_name caps cap_idx) (tr_get reg) of
             Some implicit \<Rightarrow> Inr (ns_add st (bit_of implicit))
           | None \<Rightarrow> if strict then Inl (missing_provider_error (Some caps) cap_idx (t_name t)) else Inr st)
        else if length providers = 1 then Inr (ns_add st (bit_of (hd providers)))
        else
          let st1 = st\<lparr>ns_narrowed := insert cap_idx (ns_narrowed st)\<rparr> in
          (case narrow_providers providers full_provides of
             [] \<Rightarrow> Inl (missing_provider_error (Some caps) cap_idx (t_name t))
           | [w] \<Rightarrow> Inr (ns_elect st1 w providers)
           | ws \<Rightarrow> Inl (ambiguous_error (Some caps) cap_idx ws)))"

text \<open>A target without dependencies, or an abstract one: its own name may be a contested capability.\<close>

definition narrow_self ::
  "target_registry \<Rightarrow> cap_registry \<Rightarrow> nat set \<Rightarrow> target \<Rightarrow> narrow_state \<Rightarrow> resolver_error + narrow_state" where
  "narrow_self reg caps full_provides t st =
     (case caps_get_index caps (t_name t) of
        None \<Rightarrow> Inr st
      | Some ci \<Rightarrow>
          if ci \<in> ns_narrowed st then Inr st
          else let providers = tr_get_providers reg ci in
            if length providers > 1 then
              let st1 = st\<lparr>ns_narrowed := insert ci (ns_narrowed st)\<rparr> in
              (case narrow_providers providers full_provides of
                 [w] \<Rightarrow> Inr (ns_elect st1 w providers)
               | [] \<Rightarrow> Inr st1
               | ws \<Rightarrow> Inl (ambiguous_error (Some caps) ci ws))
            else Inr st)"

definition narrow_target ::
  "target_registry \<Rightarrow> cap_registry \<Rightarrow> bool \<Rightarrow> nat set \<Rightarrow> narrow_state \<Rightarrow> nat \<Rightarrow> resolver_error + narrow_state" where
  "narrow_target reg caps strict full_provides st bit_idx =
     (case tr_get_by_bit_index reg bit_idx of
        None \<Rightarrow> Inl (bit_not_found bit_idx)
      | Some t \<Rightarrow>
          let is_abstract = (t_type t = Abstract);
              deps_satisfied = (not_any (t_depends t) \<or> list_all (\<lambda>c. c \<in> full_provides) (iter_ones (t_depends t)))
          in case (if deps_satisfied then Inr st
                   else fold_err (narrow_dep reg caps strict full_provides t) st (iter_ones (t_depends t))) of
               Inl e \<Rightarrow> Inl e
             | Inr st1 \<Rightarrow>
                 if is_abstract \<or> not_any (t_depends t) then narrow_self reg caps full_provides t st1
                 else Inr st1)"

definition narrow_round ::
  "(nat set \<Rightarrow> nat list) \<Rightarrow> target_registry \<Rightarrow> cap_registry \<Rightarrow> bool \<Rightarrow> narrow_state \<Rightarrow> resolver_error + narrow_state" where
  "narrow_round iter reg caps strict st =
     fold_err (narrow_target reg caps strict (compute_full_provides reg (ns_resolved st)))
       (st\<lparr>ns_changed := False\<rparr>) (iter (ns_resolved st))"

text \<open>What a step does to the plan: it grows by registered targets, and the flag records growth.\<close>

definition grows :: "target_registry \<Rightarrow> narrow_state \<Rightarrow> narrow_state \<Rightarrow> bool" where
  "grows reg st st' \<longleftrightarrow> ns_resolved st \<subseteq> ns_resolved st' \<and>
     ns_resolved st' \<subseteq> ns_resolved st \<union> bit_of ` set (tr_targets reg) \<and>
     (ns_changed st' \<longleftrightarrow> ns_changed st \<or> ns_resolved st' \<noteq> ns_resolved st) \<and>
     ns_narrowed st \<subseteq> ns_narrowed st' \<and> ns_rejected st \<subseteq> ns_rejected st'"

lemma grows_refl [simp]: "grows reg st st"
  by (simp add: grows_def)

lemma grows_trans:
  assumes "grows reg a b" and "grows reg b c"
  shows "grows reg a c"
proof -
  have "ns_resolved c \<noteq> ns_resolved a \<longleftrightarrow> ns_resolved b \<noteq> ns_resolved a \<or> ns_resolved c \<noteq> ns_resolved b"
    using assms by (auto simp: grows_def)
  moreover have "ns_resolved c \<subseteq> ns_resolved a \<union> bit_of ` set (tr_targets reg)"
    using assms unfolding grows_def by (meson le_sup_iff order_trans sup_ge2)
  ultimately show ?thesis using assms by (simp add: grows_def) (meson order_trans)
qed

lemma tr_get_by_index_in: "tr_get_by_index r i = Some t \<Longrightarrow> t \<in> set (tr_targets r)"
  by (auto simp: tr_get_by_index_def split: if_splits)

lemma tr_get_in: "tr_get r name = Some t \<Longrightarrow> t \<in> set (tr_targets r)"
  by (auto simp: tr_get_def bind_eq_Some_conv dest: tr_get_by_index_in)

lemma tr_get_by_bit_in: "tr_get_by_bit_index r b = Some t \<Longrightarrow> t \<in> set (tr_targets r)"
  by (auto simp: tr_get_by_bit_index_def bind_eq_Some_conv dest: tr_get_by_index_in)

lemma tr_providers_in: "t \<in> set (tr_get_providers r cap) \<Longrightarrow> t \<in> set (tr_targets r)"
  by (auto simp: tr_get_providers_def in_map_filter dest: tr_get_by_bit_in)

lemma grows_add: "t \<in> set (tr_targets reg) \<Longrightarrow> grows reg st (ns_add st (bit_of t))"
  by (auto simp: grows_def ns_add_def)

lemma grows_elect:
  "w \<in> set (tr_targets reg) \<Longrightarrow> grows reg st (ns_elect (st\<lparr>ns_narrowed := insert c (ns_narrowed st)\<rparr>) w ps)"
  by (auto simp: grows_def ns_elect_def ns_add_def Let_def)

lemma run_stages_subset:
  "run_stages stages fp ts = Inl xs \<or> run_stages stages fp ts = Inr xs \<Longrightarrow> set xs \<subseteq> set ts"
proof (induction stages fp ts rule: run_stages.induct)
  case (2 keep stages fp narrowed)
  then show ?case by (fastforce simp: Let_def split: if_splits)
qed auto

lemma narrow_providers_subset: "set (narrow_providers ts fp) \<subseteq> set ts"
proof -
  have "set xs \<subseteq> set ts" if "run_stages STAGES fp (sort_key t_name ts) = Inl xs \<or> run_stages STAGES fp (sort_key t_name ts) = Inr xs" for xs
    using run_stages_subset [OF that] by simp
  then show ?thesis by (auto simp: narrow_providers_def Let_def split: sum.splits)
qed

lemma narrow_dep_grows:
  assumes "narrow_dep reg caps strict fp t st cap = Inr st'"
  shows "grows reg st st'"
proof -
  let ?ps = "tr_get_providers reg cap"
  have sub: "w \<in> set (tr_targets reg)" if "w \<in> set (narrow_providers ?ps fp)" for w
    using that narrow_providers_subset [of ?ps fp] tr_providers_in by blast
  have hd: "hd ?ps \<in> set (tr_targets reg)" if "?ps \<noteq> []"
    using hd_in_set [OF that] by (rule tr_providers_in)
  show ?thesis
    using assms sub hd
    by (auto simp: narrow_dep_def Let_def bind_eq_Some_conv dest: tr_get_in
        split: if_splits option.splits list.splits intro!: grows_add grows_elect)
qed

lemma narrow_self_grows:
  assumes "narrow_self reg caps fp t st = Inr st'"
  shows "grows reg st st'"
proof -
  have sub: "w \<in> set (tr_targets reg)" if "w \<in> set (narrow_providers (tr_get_providers reg ci) fp)" for w ci
    using that narrow_providers_subset [of "tr_get_providers reg ci" fp] tr_providers_in by blast
  have keep: "grows reg st (st\<lparr>ns_narrowed := insert c (ns_narrowed st)\<rparr>)" for c
    by (auto simp: grows_def)
  have win: "grows reg st (ns_elect (st\<lparr>ns_narrowed := insert ci (ns_narrowed st)\<rparr>) w (tr_get_providers reg ci))"
    if "narrow_providers (tr_get_providers reg ci) fp = [w]" for w ci
    using that sub [of w ci] by (simp add: grows_elect)
  show ?thesis
    using assms keep win
    by (auto simp: narrow_self_def Let_def split: if_splits option.splits list.splits)
qed

lemma narrow_target_grows:
  assumes "narrow_target reg caps strict fp st b = Inr st'"
  shows "grows reg st st'"
proof -
  from assms obtain t st1 where "(if not_any (t_depends t) \<or> list_all (\<lambda>c. c \<in> fp) (iter_ones (t_depends t)) then Inr st
      else fold_err (narrow_dep reg caps strict fp t) st (iter_ones (t_depends t))) = Inr st1"
    and rest: "(if t_type t = Abstract \<or> not_any (t_depends t) then narrow_self reg caps fp t st1 else Inr st1) = Inr st'"
    by (auto simp: narrow_target_def Let_def split: option.splits sum.splits)
  then have "grows reg st st1"
    by (auto split: if_splits intro: fold_err_relation [where R = "grows reg"] grows_trans narrow_dep_grows)
  moreover have "grows reg st1 st'" using rest by (auto split: if_splits dest: narrow_self_grows)
  ultimately show ?thesis by (rule grows_trans)
qed

lemma narrow_round_grows:
  "narrow_round iter reg caps strict st = Inr st' \<Longrightarrow> grows reg (st\<lparr>ns_changed := False\<rparr>) st'"
  unfolding narrow_round_def
  by (erule fold_err_relation) (auto intro: grows_trans narrow_target_grows)

function narrow_loop ::
  "(nat set \<Rightarrow> nat list) \<Rightarrow> target_registry \<Rightarrow> cap_registry \<Rightarrow> bool \<Rightarrow> narrow_state \<Rightarrow> resolver_error + narrow_state" where
  "narrow_loop iter reg caps strict st =
     (case narrow_round iter reg caps strict st of
        Inl e \<Rightarrow> Inl e
      | Inr st' \<Rightarrow> if ns_changed st' then narrow_loop iter reg caps strict st' else Inr st')"
  by pat_completeness auto
termination
proof (relation "measure (\<lambda>(iter, reg, caps, strict, st). card (bit_of ` set (tr_targets reg) - ns_resolved st))")
  fix iter reg caps strict st st'
  assume "narrow_round iter reg caps strict st = Inr st'" and "ns_changed st'"
  then have "ns_resolved st \<subseteq> ns_resolved st'" "ns_resolved st' \<noteq> ns_resolved st"
    "ns_resolved st' \<subseteq> ns_resolved st \<union> bit_of ` set (tr_targets reg)"
    using narrow_round_grows by (fastforce simp: grows_def)+
  then have "bit_of ` set (tr_targets reg) - ns_resolved st' \<subset> bit_of ` set (tr_targets reg) - ns_resolved st"
    by blast
  then show "((iter, reg, caps, strict, st'), (iter, reg, caps, strict, st))
      \<in> measure (\<lambda>(iter, reg, caps, strict, st). card (bit_of ` set (tr_targets reg) - ns_resolved st))"
    by (simp add: psubset_card_mono)
qed simp

declare narrow_loop.simps [simp del]

definition multi_provider_cap :: "target_registry \<Rightarrow> nat set \<Rightarrow> bool" where
  "multi_provider_cap reg closure_set \<longleftrightarrow>
     (\<exists>b \<in> closure_set. case tr_get_by_bit_index reg b of
        Some t \<Rightarrow> list_ex (\<lambda>cap. length (tr_get_providers reg cap) > 1) (iter_ones (t_depends t))
      | None \<Rightarrow> False)"

definition has_abstract_seed :: "target_registry \<Rightarrow> string list \<Rightarrow> bool" where
  "has_abstract_seed reg target_names =
     list_ex (\<lambda>name. case tr_get reg name of Some t \<Rightarrow> t_type t = Abstract | None \<Rightarrow> False) target_names"

definition resolve_narrow_one ::
  "(nat set \<Rightarrow> nat list) \<Rightarrow> dependency_resolver \<Rightarrow> nat list \<Rightarrow> string list \<Rightarrow> cap_registry \<Rightarrow> (resolver_error + execution_plan) option" where
  "resolve_narrow_one iter dr seed_bits target_names caps =
     (let reg = dr_registry dr;
          ctx = \<lparr>cx_registry = reg, cx_caps = Some caps, cx_strict = dr_strict dr\<rparr>
      in case transitive_closure ctx seed_bits None None of
        Inl e \<Rightarrow> Some (Inl e)
      | Inr closure_set \<Rightarrow>
          if \<not> has_abstract_seed reg target_names \<and> \<not> multi_provider_cap reg closure_set
          then resolve_all iter dr seed_bits
          else
            (case narrow_loop iter reg caps (dr_strict dr)
                    \<lparr>ns_resolved = set seed_bits, ns_rejected = {}, ns_narrowed = {}, ns_changed = True\<rparr> of
               Inl e \<Rightarrow> Some (Inl e)
             | Inr st \<Rightarrow>
                 let full_provides = compute_full_provides reg (ns_resolved st) in
                 (case transitive_closure ctx (iter (ns_resolved st)) (Some full_provides) (Some (ns_rejected st)) of
                    Inl e \<Rightarrow> Some (Inl e)
                  | Inr final_expansion \<Rightarrow> plan_from_set iter reg (ns_resolved st \<union> final_expansion))))"

fun collect_seeds :: "target_registry \<Rightarrow> string list \<Rightarrow> resolver_error + nat list" where
  "collect_seeds reg [] = Inr []"
| "collect_seeds reg (name # names) =
     (case tr_get reg name of
        None \<Rightarrow> Inl (RTargetNotFound name)
      | Some t \<Rightarrow> (case collect_seeds reg names of Inl e \<Rightarrow> Inl e | Inr bs \<Rightarrow> Inr (bit_of t # bs)))"

definition dr_resolve :: "(nat set \<Rightarrow> nat list) \<Rightarrow> dependency_resolver \<Rightarrow> string list \<Rightarrow> (resolver_error + execution_plan) option" where
  "dr_resolve iter dr target_names =
     (if target_names = [] then Some (Inr \<lparr>ep_order = [], ep_target_names = []\<rparr>)
      else case collect_seeds (dr_registry dr) target_names of
        Inl e \<Rightarrow> Some (Inl e)
      | Inr seed_bits \<Rightarrow>
          (case dr_selection dr of
             All \<Rightarrow> resolve_all iter dr seed_bits
           | NarrowOne \<Rightarrow>
               (case dr_caps dr of
                  None \<Rightarrow> Some (Inl (MissingDependency ''NarrowOne requires a CapabilityRegistry''))
                | Some caps \<Rightarrow> resolve_narrow_one iter dr seed_bits target_names caps)))"

section \<open>What the closure computes\<close>

text \<open>The targets that can supply a capability; \<open>None\<close> when there is neither a provider nor a namesake.\<close>

definition cap_supply :: "closure_ctx \<Rightarrow> nat \<Rightarrow> nat list option" where
  "cap_supply ctx cap =
     (let providers = tr_get_providers (cx_registry ctx) cap in
      if providers = [] then
        map_option (\<lambda>t. [bit_of t])
          (Option.bind (cx_caps ctx) (\<lambda>caps. Option.bind (caps_get_name caps cap) (tr_get (cx_registry ctx))))
      else Some (map bit_of providers))"

text \<open>One step of the closure, and what makes it fail at a target.\<close>

definition closure_rel :: "closure_ctx \<Rightarrow> nat set option \<Rightarrow> nat set option \<Rightarrow> (nat \<times> nat) set" where
  "closure_rel ctx satisfied rejected =
     {(b, p). \<exists>t cap bs. tr_get_by_bit_index (cx_registry ctx) b = Some t \<and> cap \<in> set (iter_ones (t_depends t)) \<and>
        \<not> opt_in cap satisfied \<and> cap_supply ctx cap = Some bs \<and> p \<in> set bs \<and> \<not> opt_in p rejected}"

definition cap_missing :: "closure_ctx \<Rightarrow> nat set option \<Rightarrow> nat \<Rightarrow> bool" where
  "cap_missing ctx satisfied cap \<longleftrightarrow> cx_strict ctx \<and> \<not> opt_in cap satisfied \<and> cap_supply ctx cap = None"

definition closure_bad :: "closure_ctx \<Rightarrow> nat set option \<Rightarrow> nat \<Rightarrow> bool" where
  "closure_bad ctx satisfied b \<longleftrightarrow>
     (case tr_get_by_bit_index (cx_registry ctx) b of
        None \<Rightarrow> True
      | Some t \<Rightarrow> \<exists>cap \<in> set (iter_ones (t_depends t)). cap_missing ctx satisfied cap)"

definition closure_reach :: "closure_ctx \<Rightarrow> nat set option \<Rightarrow> nat set option \<Rightarrow> nat set \<Rightarrow> nat set" where
  "closure_reach ctx satisfied rejected S = {x. \<exists>s \<in> S. (s, x) \<in> (closure_rel ctx satisfied rejected)\<^sup>*}"

lemma push_one: "set (push_provider rej vis stack p) = set stack \<union> {b. b = p \<and> p \<notin> vis \<and> \<not> opt_in p rej}"
  by (auto simp: push_provider_def)

lemma push_all: "set (foldl (\<lambda>stack p. push_provider rej vis stack (f p)) stack ps) =
    set stack \<union> {b \<in> f ` set ps. b \<notin> vis \<and> \<not> opt_in b rej}"
  by (induction ps arbitrary: stack) (auto simp: push_provider_def)

lemma closure_cap_spec:
  "closure_cap ctx sat rej vis t stack cap = Inl e \<Longrightarrow> cap_missing ctx sat cap"
  "closure_cap ctx sat rej vis t stack cap = Inr stack' \<Longrightarrow>
     \<not> cap_missing ctx sat cap \<and>
     set stack' = set stack \<union> {p. \<not> opt_in cap sat \<and> (\<exists>bs. cap_supply ctx cap = Some bs \<and> p \<in> set bs) \<and> p \<notin> vis \<and> \<not> opt_in p rej}"
  by (auto simp: closure_cap_def cap_supply_def cap_missing_def Let_def push_all push_one
      split: if_splits option.splits)

lemma closure_caps_spec:
  "fold_err (closure_cap ctx sat rej vis t) stack caps = Inl e \<Longrightarrow> \<exists>cap \<in> set caps. cap_missing ctx sat cap"
  "fold_err (closure_cap ctx sat rej vis t) stack caps = Inr stack' \<Longrightarrow>
     (\<forall>cap \<in> set caps. \<not> cap_missing ctx sat cap) \<and>
     set stack' = set stack \<union> {p. (\<exists>cap \<in> set caps. \<not> opt_in cap sat \<and> (\<exists>bs. cap_supply ctx cap = Some bs \<and> p \<in> set bs)) \<and>
                                p \<notin> vis \<and> \<not> opt_in p rej}"
proof (induction caps arbitrary: stack)
  case (Cons cap caps)
  {
    case 1
    then show ?case using closure_cap_spec(1) [of ctx sat rej vis t stack cap] Cons.IH(1)
      by (fastforce split: sum.splits)
  next
    case 2
    then obtain s1 where s1: "closure_cap ctx sat rej vis t stack cap = Inr s1"
      and rest: "fold_err (closure_cap ctx sat rej vis t) s1 caps = Inr stack'" by (auto split: sum.splits)
    from closure_cap_spec(2) [OF s1] Cons.IH(2) [OF rest] show ?case by auto
  }
qed auto

lemma closure_reach_mono: "S \<subseteq> T \<Longrightarrow> closure_reach ctx sat rej S \<subseteq> closure_reach ctx sat rej T"
  by (auto simp: closure_reach_def)

lemma closure_reach_step: "closure_reach ctx sat rej (S \<union> {p. (b, p) \<in> closure_rel ctx sat rej}) \<subseteq>
    closure_reach ctx sat rej (insert b S)"
  by (auto simp: closure_reach_def intro: converse_rtrancl_into_rtrancl)

lemma closure_loop_spec:
  assumes "\<forall>v \<in> visited. \<not> closure_bad ctx sat v \<and> (\<forall>p. (v, p) \<in> closure_rel ctx sat rej \<longrightarrow> p \<in> visited \<union> set stack)"
  shows "case closure_loop ctx sat rej visited stack of
           Inl e \<Rightarrow> \<exists>x \<in> closure_reach ctx sat rej (set stack). closure_bad ctx sat x
         | Inr V \<Rightarrow> visited \<union> set stack \<subseteq> V \<and> V \<subseteq> visited \<union> closure_reach ctx sat rej (set stack) \<and>
             (\<forall>v \<in> V. \<not> closure_bad ctx sat v \<and> (\<forall>p. (v, p) \<in> closure_rel ctx sat rej \<longrightarrow> p \<in> V))"
  using assms
proof (induction ctx sat rej visited stack rule: closure_loop.induct)
  case (2 ctx sat rej visited b stack)
  show ?case
  proof (cases "b \<in> visited")
    case True
    then have "\<forall>v \<in> visited. \<not> closure_bad ctx sat v \<and> (\<forall>p. (v, p) \<in> closure_rel ctx sat rej \<longrightarrow> p \<in> visited \<union> set stack)"
      using "2.prems" by auto
    from "2.IH"(1) [OF True this] True closure_reach_mono [of "set stack" "set (b # stack)" ctx sat rej]
    show ?thesis by (auto split: sum.splits)
  next
    case False
    have b_in: "b \<in> closure_reach ctx sat rej (set (b # stack))" by (auto simp: closure_reach_def)
    show ?thesis
    proof (cases "tr_get_by_bit_index (cx_registry ctx) b")
      case None
      then have "closure_bad ctx sat b" by (simp add: closure_bad_def)
      with None False b_in show ?thesis by auto
    next
      case (Some t)
      let ?caps = "iter_ones (t_depends t)" and ?vis = "insert b visited"
      have succ: "(b, p) \<in> closure_rel ctx sat rej \<longleftrightarrow>
          (\<exists>cap \<in> set ?caps. \<not> opt_in cap sat \<and> (\<exists>bs. cap_supply ctx cap = Some bs \<and> p \<in> set bs)) \<and> \<not> opt_in p rej" for p
        using Some by (auto simp: closure_rel_def)
      show ?thesis
      proof (cases "fold_err (closure_cap ctx sat rej ?vis t) stack ?caps")
        case (Inl e)
        with Some closure_caps_spec(1) [OF Inl] have "closure_bad ctx sat b" by (simp add: closure_bad_def)
        with Inl Some False b_in show ?thesis by auto
      next
        case (Inr stack')
        note sp = closure_caps_spec(2) [OF Inr]
        have stack': "set stack' = set stack \<union> {p. (b, p) \<in> closure_rel ctx sat rej \<and> p \<notin> ?vis}"
          using sp succ by auto
        have ok: "\<not> closure_bad ctx sat b" using sp Some by (simp add: closure_bad_def)
        have "\<forall>v \<in> ?vis. \<not> closure_bad ctx sat v \<and> (\<forall>p. (v, p) \<in> closure_rel ctx sat rej \<longrightarrow> p \<in> ?vis \<union> set stack')"
          using "2.prems" ok stack' by auto
        note ih = "2.IH"(2) [OF False Some Inr this]
        have "closure_reach ctx sat rej (set stack') \<subseteq> closure_reach ctx sat rej (set (b # stack))"
          using closure_reach_mono [of "set stack'" "set stack \<union> {p. (b, p) \<in> closure_rel ctx sat rej}" ctx sat rej]
            closure_reach_step [of ctx sat rej "set stack" b] stack' by auto
        with ih b_in False Some Inr stack' show ?thesis by (auto split: sum.splits)
      qed
    qed
  qed
qed auto

lemma transitive_closure_spec:
  "case transitive_closure ctx seeds sat rej of
     Inl e \<Rightarrow> \<exists>x \<in> closure_reach ctx sat rej (set seeds). closure_bad ctx sat x
   | Inr V \<Rightarrow> V = closure_reach ctx sat rej (set seeds) \<and> (\<forall>v \<in> V. \<not> closure_bad ctx sat v)"
proof (cases "transitive_closure ctx seeds sat rej")
  case (Inl e)
  then show ?thesis
    using closure_loop_spec [of "{}" ctx sat rej "rev seeds"] by (simp add: transitive_closure_def)
next
  case (Inr V)
  then have V: "set seeds \<subseteq> V" "V \<subseteq> closure_reach ctx sat rej (set seeds)"
      "\<forall>v \<in> V. \<not> closure_bad ctx sat v \<and> (\<forall>p. (v, p) \<in> closure_rel ctx sat rej \<longrightarrow> p \<in> V)"
    using closure_loop_spec [of "{}" ctx sat rej "rev seeds"] by (simp_all add: transitive_closure_def)
  have "closure_reach ctx sat rej (set seeds) \<subseteq> V"
  proof
    fix x assume "x \<in> closure_reach ctx sat rej (set seeds)"
    then obtain s where "s \<in> V" and "(s, x) \<in> (closure_rel ctx sat rej)\<^sup>*"
      using V(1) by (auto simp: closure_reach_def)
    then show "x \<in> V" using V(3) closed_rtrancl by metis
  qed
  with Inr V show ?thesis by auto
qed

section \<open>What the planner promises\<close>

text \<open>The target at \<open>p\<close> provides a capability the target at \<open>n\<close> depends on.\<close>

definition target_feeds :: "target_registry \<Rightarrow> nat \<Rightarrow> nat \<Rightarrow> bool" where
  "target_feeds reg p n \<longleftrightarrow>
     (\<exists>tp tn cap. tr_get_by_bit_index reg p = Some tp \<and> tr_get_by_bit_index reg n = Some tn \<and>
        cap \<in> set (iter_ones (t_provides tp)) \<and> cap \<in> set (iter_ones (t_depends tn)))"

definition plan_rel :: "target_registry \<Rightarrow> nat set \<Rightarrow> (nat \<times> nat) set" where
  "plan_rel reg needed = {(p, n). p \<in> needed \<and> n \<in> needed \<and> p \<noteq> n \<and> target_feeds reg p n}"

lemma providers_at:
  assumes "tr_wf reg"
  shows "p \<in> bit_of ` set (tr_get_providers reg cap) \<longleftrightarrow>
    (\<exists>t. tr_get_by_bit_index reg p = Some t \<and> cap \<in> set (iter_ones (t_provides t)))"
  by (auto simp: tr_get_providers_eq [OF assms] tr_get_by_bit_iff [OF assms])

lemma plan_edges_set:
  assumes "tr_wf reg" and "tr_get_by_bit_index reg n = Some t"
  shows "set (plan_edges reg needed n t) = {(p, m). m = n \<and> p \<in> needed \<and> p \<noteq> n \<and> target_feeds reg p n}"
proof -
  have "(p, m) \<in> set (plan_edges reg needed n t) \<longleftrightarrow> m = n \<and> p \<in> needed \<and> p \<noteq> n \<and>
      (\<exists>cap \<in> set (iter_ones (t_depends t)). p \<in> bit_of ` set (tr_get_providers reg cap))" for p m
    by (auto simp: plan_edges_def)
  moreover have "(\<exists>cap \<in> set (iter_ones (t_depends t)). p \<in> bit_of ` set (tr_get_providers reg cap)) \<longleftrightarrow>
      target_feeds reg p n" for p
    unfolding providers_at [OF assms(1)] target_feeds_def using assms(2) by auto
  ultimately show ?thesis by auto
qed

lemma plan_collect_fold:
  assumes "tr_wf reg"
  shows "(\<forall>b \<in> set bs. tr_get_by_bit_index reg b \<noteq> None) \<Longrightarrow>
    \<exists>es'. fold_err (plan_collect reg needed) es bs = Inr es' \<and>
       set es' = set es \<union> {(p, n). n \<in> set bs \<and> p \<in> needed \<and> p \<noteq> n \<and> target_feeds reg p n}"
proof (induction bs arbitrary: es)
  case (Cons b bs)
  then obtain t where t: "tr_get_by_bit_index reg b = Some t" by auto
  have "\<forall>b \<in> set bs. tr_get_by_bit_index reg b \<noteq> None" using Cons.prems by simp
  from Cons.IH [OF this, of "es @ plan_edges reg needed b t"] obtain es' where
    "fold_err (plan_collect reg needed) (es @ plan_edges reg needed b t) bs = Inr es'"
    "set es' = set (es @ plan_edges reg needed b t) \<union> {(p, n). n \<in> set bs \<and> p \<in> needed \<and> p \<noteq> n \<and> target_feeds reg p n}"
    by blast
  moreover have "plan_collect reg needed es b = Inr (es @ plan_edges reg needed b t)"
    using t by (simp add: plan_collect_def)
  ultimately show ?case by (intro exI [of _ es']) (auto simp: plan_edges_set [OF assms t])
qed auto

definition plan_valid :: "(nat set \<Rightarrow> nat list) \<times> target_registry \<times> nat set \<Rightarrow> bool" where
  "plan_valid = (\<lambda>(iter, reg, needed). iter_ok iter \<and> tr_wf reg \<and> finite needed \<and>
     (\<forall>b \<in> needed. tr_get_by_bit_index reg b \<noteq> None))"

lemma plan_from_set_spec:
  assumes "plan_valid (iter, reg, needed)"
  shows "acyclic (plan_rel reg needed) \<Longrightarrow>
      \<exists>order. plan_from_set iter reg needed = Some (Inr \<lparr>ep_order = order, ep_target_names = map (plan_name reg) order\<rparr>) \<and>
        distinct order \<and> set order = needed \<and> topo_ok (plan_rel reg needed) order"
    and "\<not> acyclic (plan_rel reg needed) \<Longrightarrow> plan_from_set iter reg needed = Some (Inl RCircularDependency)"
proof -
  have it: "set (iter needed) = needed" "distinct (iter needed)" and wf: "tr_wf reg"
    and ok: "\<forall>b \<in> set (iter needed). tr_get_by_bit_index reg b \<noteq> None"
    using assms by (simp_all add: plan_valid_def iter_ok_def)
  obtain es where es: "fold_err (plan_collect reg needed) [] (iter needed) = Inr es"
    and "set es = set [] \<union> {(p, n). n \<in> set (iter needed) \<and> p \<in> needed \<and> p \<noteq> n \<and> target_feeds reg p n}"
    using plan_collect_fold [OF wf ok, of needed "[]"] by blast
  then have set_es: "set es = plan_rel reg needed" using it by (auto simp: plan_rel_def)
  moreover have "set es \<subseteq> set (iter needed) \<times> set (iter needed)"
    unfolding set_es by (auto simp: it plan_rel_def)
  ultimately obtain xs where
    run: "kahn_run (iter needed) es = Some (if acyclic (plan_rel reg needed) then Inr xs else Inl xs)" and
    xs: "distinct xs" "topo_ok (plan_rel reg needed) xs" "acyclic (plan_rel reg needed) \<longleftrightarrow> set xs = set (iter needed)"
    using kahn_run_spec [OF it(2), of es] by metis
  show "acyclic (plan_rel reg needed) \<Longrightarrow>
      \<exists>order. plan_from_set iter reg needed = Some (Inr \<lparr>ep_order = order, ep_target_names = map (plan_name reg) order\<rparr>) \<and>
        distinct order \<and> set order = needed \<and> topo_ok (plan_rel reg needed) order"
    using run xs it es by (simp add: plan_from_set_def)
  show "\<not> acyclic (plan_rel reg needed) \<Longrightarrow> plan_from_set iter reg needed = Some (Inl RCircularDependency)"
    using run es by (simp add: plan_from_set_def)
qed

interpretation topo_plan: topo_planner
  "\<lambda>(iter, reg, needed). map_option (map_sum id ep_order) (plan_from_set iter reg needed)" plan_valid
  "\<lambda>(iter, reg, needed). needed" "\<lambda>(iter, reg, needed). plan_rel reg needed"
proof (unfold_locales, goal_cases)
  case (1 i)
  then show ?case using plan_from_set_spec(1) [of "fst i" "fst (snd i)" "snd (snd i)"]
    by (fastforce simp: case_prod_beta)
next
  case (2 i)
  then show ?case using plan_from_set_spec(2) [of "fst i" "fst (snd i)" "snd (snd i)"]
    by (simp add: case_prod_beta)
qed

lemma collect_seeds_spec:
  "case collect_seeds reg names of
     Inl e \<Rightarrow> \<exists>name \<in> set names. tr_get reg name = None \<and> e = RTargetNotFound name
   | Inr bs \<Rightarrow> list_all2 (\<lambda>name b. \<exists>t. tr_get reg name = Some t \<and> b = bit_of t) names bs"
  by (induction reg names rule: collect_seeds.induct) (auto split: option.splits sum.splits)

lemma seeds_registered:
  assumes "collect_seeds reg names = Inr bs" and "tr_wf reg" and "b \<in> set bs"
  shows "tr_get_by_bit_index reg b \<noteq> None"
proof -
  from collect_seeds_spec [of names reg] assms(1) have
    "list_all2 (\<lambda>name b. \<exists>t. tr_get reg name = Some t \<and> b = bit_of t) names bs" by simp
  with assms(3) obtain name t where "tr_get reg name = Some t" and "b = bit_of t"
    by (auto simp: list_all2_conv_all_nth in_set_conv_nth)
  then have "tr_get_by_bit_index reg b = Some t"
    by (simp add: tr_get_iff [OF assms(2)] tr_get_by_bit_iff [OF assms(2)])
  then show ?thesis by simp
qed

lemma reach_finite:
  assumes "\<And>x. x \<in> V \<Longrightarrow> tr_get_by_bit_index reg x \<noteq> None"
  shows "finite V"
proof -
  have "V \<subseteq> dom (hm_get (tr_by_bit_index reg))"
    using assms by (meson not_None_eq subsetI tr_get_by_bit_dom)
  then show ?thesis by (simp add: finite_subset)
qed

lemma not_bad_registered: "\<not> closure_bad ctx sat b \<Longrightarrow> tr_get_by_bit_index (cx_registry ctx) b \<noteq> None"
  by (auto simp: closure_bad_def split: option.splits)

text \<open>The include-all resolution, by its outcome.\<close>

lemma resolve_all_spec:
  assumes "iter_ok iter" and "tr_wf (dr_registry dr)"
  shows "case resolve_all iter dr seeds of
      None \<Rightarrow> False
    | Some (Inr plan) \<Rightarrow>
        set (ep_order plan) = closure_reach \<lparr>cx_registry = dr_registry dr, cx_caps = None, cx_strict = dr_strict dr\<rparr> None None (set seeds) \<and>
        distinct (ep_order plan) \<and> ep_target_names plan = map (plan_name (dr_registry dr)) (ep_order plan) \<and>
        topo_ok (plan_rel (dr_registry dr) (set (ep_order plan))) (ep_order plan) \<and>
        (\<forall>b \<in> set (ep_order plan). \<not> closure_bad \<lparr>cx_registry = dr_registry dr, cx_caps = None, cx_strict = dr_strict dr\<rparr> None b)
    | Some (Inl e) \<Rightarrow>
        (\<exists>x \<in> closure_reach \<lparr>cx_registry = dr_registry dr, cx_caps = None, cx_strict = dr_strict dr\<rparr> None None (set seeds).
           closure_bad \<lparr>cx_registry = dr_registry dr, cx_caps = None, cx_strict = dr_strict dr\<rparr> None x) \<or>
        e = RCircularDependency \<and>
        \<not> acyclic (plan_rel (dr_registry dr) (closure_reach \<lparr>cx_registry = dr_registry dr, cx_caps = None, cx_strict = dr_strict dr\<rparr> None None (set seeds)))"
proof -
  let ?ctx = "\<lparr>cx_registry = dr_registry dr, cx_caps = None, cx_strict = dr_strict dr\<rparr>"
  show ?thesis
  proof (cases "transitive_closure ?ctx seeds None None")
    case (Inl e)
    then show ?thesis using transitive_closure_spec [where ctx = ?ctx and seeds = seeds and sat = None and rej = None]
      by (simp add: resolve_all_def)
  next
    case (Inr V)
    then have V: "V = closure_reach ?ctx None None (set seeds)" and ok: "\<forall>v \<in> V. \<not> closure_bad ?ctx None v"
      using transitive_closure_spec [where ctx = ?ctx and seeds = seeds and sat = None and rej = None] by simp_all
    have reg: "tr_get_by_bit_index (dr_registry dr) x \<noteq> None" if "x \<in> V" for x
      using ok that not_bad_registered by fastforce
    have valid: "plan_valid (iter, dr_registry dr, V)"
      using assms reach_finite [OF reg] reg by (simp add: plan_valid_def)
    show ?thesis
    proof (cases "acyclic (plan_rel (dr_registry dr) V)")
      case True
      from plan_from_set_spec(1) [OF valid True] ok Inr show ?thesis
        by (auto simp: resolve_all_def V)
    next
      case False
      from plan_from_set_spec(2) [OF valid False] Inr False show ?thesis
        by (simp add: resolve_all_def V)
    qed
  qed
qed

section \<open>What narrowing promises\<close>

lemma run_stages_nonempty:
  "ts \<noteq> [] \<Longrightarrow> run_stages stages fp ts = Inl xs \<or> run_stages stages fp ts = Inr xs \<Longrightarrow> xs \<noteq> []"
proof (induction stages fp ts rule: run_stages.induct)
  case (2 keep stages fp narrowed)
  then show ?case by (cases "filter (\<lambda>t. keep t fp) narrowed = []") (auto simp: Let_def split: if_splits)
qed auto

lemma narrow_providers_nonempty:
  assumes "ts \<noteq> []"
  shows "narrow_providers ts fp \<noteq> []"
proof -
  have "sort_key t_name ts \<noteq> []" using assms by (metis set_empty set_sort)
  from run_stages_nonempty [OF this] show ?thesis
    using assms by (auto simp: narrow_providers_def Let_def split: sum.splits)
qed

lemma sort_key_perm:
  assumes "mset xs = mset ys" and "inj_on f (set xs)"
  shows "sort_key f xs = sort_key f ys"
  by (metis assms mset_sort properties_for_sort_key sorted_sort_key sort_key_inj_key_eq)

text \<open>Every capability that was narrowed has its winner in the plan.\<close>

definition narrow_inv :: "target_registry \<Rightarrow> narrow_state \<Rightarrow> bool" where
  "narrow_inv reg st \<longleftrightarrow> ns_narrowed st \<subseteq> compute_full_provides reg (ns_resolved st)"

definition narrow_ok :: "target_registry \<Rightarrow> narrow_state \<Rightarrow> narrow_state \<Rightarrow> bool" where
  "narrow_ok reg a b \<longleftrightarrow> grows reg a b \<and> (narrow_inv reg a \<longrightarrow> narrow_inv reg b)"

lemma narrow_ok_refl [simp]: "narrow_ok reg a a"
  by (simp add: narrow_ok_def)

lemma narrow_ok_trans: "narrow_ok reg a b \<Longrightarrow> narrow_ok reg b c \<Longrightarrow> narrow_ok reg a c"
  by (auto simp: narrow_ok_def intro: grows_trans)

lemma in_full_provides:
  assumes "tr_wf reg"
  shows "c \<in> compute_full_provides reg S \<longleftrightarrow>
    (\<exists>t \<in> set (tr_targets reg). bit_of t \<in> S \<and> c \<in> set (iter_ones (t_provides t)))"
proof -
  have "c \<in> compute_full_provides reg S \<longleftrightarrow>
      (\<exists>b \<in> S. \<exists>t. tr_get_by_bit_index reg b = Some t \<and> c \<in> set (iter_ones (t_provides t)))"
    by (auto simp: compute_full_provides_def split: option.splits)
  then show ?thesis by (auto simp: tr_get_by_bit_iff [OF assms])
qed

lemma full_provides_mono: "S \<subseteq> T \<Longrightarrow> compute_full_provides reg S \<subseteq> compute_full_provides reg T"
  by (auto simp: compute_full_provides_def)

lemma provider_in_full:
  assumes "tr_wf reg" and "t \<in> set (tr_get_providers reg cap)" and "bit_of t \<in> S"
  shows "cap \<in> compute_full_provides reg S"
  using assms(2,3) by (auto simp: in_full_provides [OF assms(1)] tr_get_providers_eq [OF assms(1)])

lemma narrow_inv_add: "narrow_inv reg st \<Longrightarrow> narrow_inv reg (ns_add st b)"
  using full_provides_mono [of "ns_resolved st" "insert b (ns_resolved st)" reg]
  by (auto simp: narrow_inv_def ns_add_def)

lemma narrow_inv_elect:
  assumes "tr_wf reg" and "w \<in> set (tr_get_providers reg c)" and "narrow_inv reg st"
  shows "narrow_inv reg (ns_elect (st\<lparr>ns_narrowed := insert c (ns_narrowed st)\<rparr>) w ps)"
proof -
  have "c \<in> compute_full_provides reg (insert (bit_of w) (ns_resolved st))"
    using assms(1,2) by (rule provider_in_full) simp
  then show ?thesis
    using assms(3) full_provides_mono [of "ns_resolved st" "insert (bit_of w) (ns_resolved st)" reg]
    by (auto simp: narrow_inv_def ns_elect_def ns_add_def Let_def)
qed

lemma contest_winner: "narrow_providers ps fp = [w] \<Longrightarrow> w \<in> set ps"
  using narrow_providers_subset [of ps fp] by simp

lemma narrow_dep_ok:
  assumes "tr_wf reg" and "narrow_dep reg caps strict fp t st cap = Inr st'"
  shows "narrow_ok reg st st'"
proof -
  have "narrow_inv reg st'" if "narrow_inv reg st"
    using assms(2) that
    by (auto simp: narrow_dep_def Let_def split: if_splits option.splits list.splits
        intro: narrow_inv_add narrow_inv_elect [OF assms(1)] contest_winner)
  with narrow_dep_grows [OF assms(2)] show ?thesis by (simp add: narrow_ok_def)
qed

lemma narrow_self_ok:
  assumes "tr_wf reg" and "narrow_self reg caps fp t st = Inr st'"
  shows "narrow_ok reg st st'"
proof -
  have none: "narrow_providers (tr_get_providers reg c) fp \<noteq> []" if "1 < length (tr_get_providers reg c)" for c
    using that by (intro narrow_providers_nonempty) auto
  have "narrow_inv reg st'" if "narrow_inv reg st"
    using assms(2) that none
    by (auto simp: narrow_self_def Let_def split: if_splits option.splits list.splits
        intro: narrow_inv_elect [OF assms(1)] contest_winner)
  with narrow_self_grows [OF assms(2)] show ?thesis by (simp add: narrow_ok_def)
qed

lemma narrow_target_steps:
  assumes "narrow_target reg caps strict fp st b = Inr st'"
  obtains t st1 where "tr_get_by_bit_index reg b = Some t"
    and "(if not_any (t_depends t) \<or> list_all (\<lambda>c. c \<in> fp) (iter_ones (t_depends t)) then Inr st
      else fold_err (narrow_dep reg caps strict fp t) st (iter_ones (t_depends t))) = Inr st1"
    and "(if t_type t = Abstract \<or> not_any (t_depends t) then narrow_self reg caps fp t st1 else Inr st1) = Inr st'"
  using assms by (auto simp: narrow_target_def Let_def split: option.splits sum.splits)

lemma narrow_target_ok:
  assumes "tr_wf reg" and "narrow_target reg caps strict fp st b = Inr st'"
  shows "narrow_ok reg st st'"
proof -
  obtain t st1 where deps: "(if not_any (t_depends t) \<or> list_all (\<lambda>c. c \<in> fp) (iter_ones (t_depends t)) then Inr st
      else fold_err (narrow_dep reg caps strict fp t) st (iter_ones (t_depends t))) = Inr st1"
    and self: "(if t_type t = Abstract \<or> not_any (t_depends t) then narrow_self reg caps fp t st1 else Inr st1) = Inr st'"
    using assms(2) by (rule narrow_target_steps)
  have "narrow_ok reg st st1"
    using deps by (auto split: if_splits
        intro: fold_err_relation [where R = "narrow_ok reg"] narrow_ok_trans narrow_dep_ok [OF assms(1)])
  moreover have "narrow_ok reg st1 st'"
    using self by (auto split: if_splits dest: narrow_self_ok [OF assms(1)])
  ultimately show ?thesis by (rule narrow_ok_trans)
qed

text \<open>A capability of a target that the plan supplies, or that nobody can.\<close>

definition cap_settled :: "target_registry \<Rightarrow> cap_registry \<Rightarrow> bool \<Rightarrow> nat set \<Rightarrow> nat \<Rightarrow> bool" where
  "cap_settled reg caps strict S cap \<longleftrightarrow>
     cap \<in> compute_full_provides reg S \<or>
     tr_get_providers reg cap = [] \<and>
     (case Option.bind (caps_get_name caps cap) (tr_get reg) of
        Some t \<Rightarrow> bit_of t \<in> S
      | None \<Rightarrow> \<not> strict)"

text \<open>A step that does not grow the plan leaves its capability settled.\<close>

lemma narrow_dep_settled:
  assumes "tr_wf reg" and "narrow_inv reg st" and "narrow_dep reg caps strict (compute_full_provides reg S) t st cap = Inr st'"
    and "ns_resolved st' = S" and "ns_resolved st = S"
  shows "cap_settled reg caps strict S cap"
proof (cases "cap \<in> ns_narrowed st \<or> cap \<in> compute_full_provides reg S")
  case True
  with assms(2,5) show ?thesis by (auto simp: cap_settled_def narrow_inv_def)
next
  case False
  let ?ps = "tr_get_providers reg cap" and ?fp = "compute_full_provides reg S"
  have single: "cap \<in> ?fp" if "?ps \<noteq> []" "bit_of (hd ?ps) \<in> S"
    using provider_in_full [OF assms(1) hd_in_set [OF that(1)] that(2)] .
  have elected: "cap \<in> ?fp" if "narrow_providers ?ps ?fp = [w]" "bit_of w \<in> S" for w
    using provider_in_full [OF assms(1) contest_winner [OF that(1)] that(2)] .
  have res: "ns_resolved (ns_add x b) = insert b (ns_resolved x)"
    "ns_resolved (ns_elect (x\<lparr>ns_narrowed := N\<rparr>) w ps) = insert (bit_of w) (ns_resolved x)" for x b w ps N
    by (simp_all add: ns_add_def ns_elect_def Let_def)
  consider "?ps = []" | "?ps \<noteq> []" "length ?ps = 1" | "?ps \<noteq> []" "length ?ps \<noteq> 1" by blast
  then show ?thesis
  proof cases
    case 1
    show ?thesis
    proof (cases "Option.bind (caps_get_name caps cap) (tr_get reg)")
      case None
      with 1 assms(3) False have "\<not> strict" by (auto simp: narrow_dep_def Let_def split: if_splits)
      with 1 None show ?thesis by (simp add: cap_settled_def)
    next
      case (Some i)
      with 1 assms(3) False have "st' = ns_add st (bit_of i)" by (simp add: narrow_dep_def Let_def)
      with 1 Some assms(4) show ?thesis by (auto simp: cap_settled_def res)
    qed
  next
    case 2
    with assms(3) False have "st' = ns_add st (bit_of (hd ?ps))" by (simp add: narrow_dep_def Let_def)
    with assms(4) single 2 show ?thesis by (auto simp: cap_settled_def res)
  next
    case 3
    with assms(3) False obtain w where w: "narrow_providers ?ps ?fp = [w]"
      and "st' = ns_elect (st\<lparr>ns_narrowed := insert cap (ns_narrowed st)\<rparr>) w ?ps"
      by (auto simp: narrow_dep_def Let_def split: list.splits)
    with assms(4) elected [OF w] show ?thesis by (auto simp: cap_settled_def res)
  qed
qed

definition plan_settled :: "target_registry \<Rightarrow> cap_registry \<Rightarrow> bool \<Rightarrow> nat set \<Rightarrow> bool" where
  "plan_settled reg caps strict S \<longleftrightarrow>
     (\<forall>b \<in> S. \<exists>t. tr_get_by_bit_index reg b = Some t \<and>
        (\<forall>cap \<in> set (iter_ones (t_depends t)). cap_settled reg caps strict S cap))"

lemma no_change_same: "grows reg a b \<Longrightarrow> grows reg b c \<Longrightarrow> \<not> ns_changed c \<Longrightarrow>
    ns_resolved a = ns_resolved b \<and> ns_resolved b = ns_resolved c \<and> \<not> ns_changed b"
  by (simp add: grows_def)

lemma narrow_target_settled:
  assumes "tr_wf reg" and "narrow_inv reg st" and "narrow_target reg caps strict (compute_full_provides reg S) st b = Inr st'"
    and "ns_resolved st = S" and "ns_resolved st' = S" and "\<not> ns_changed st'"
  shows "\<exists>t. tr_get_by_bit_index reg b = Some t \<and>
    (\<forall>cap \<in> set (iter_ones (t_depends t)). cap_settled reg caps strict S cap)"
proof -
  let ?fp = "compute_full_provides reg S"
  obtain t st1 where t: "tr_get_by_bit_index reg b = Some t"
    and deps: "(if not_any (t_depends t) \<or> list_all (\<lambda>c. c \<in> ?fp) (iter_ones (t_depends t)) then Inr st
      else fold_err (narrow_dep reg caps strict ?fp t) st (iter_ones (t_depends t))) = Inr st1"
    and self: "(if t_type t = Abstract \<or> not_any (t_depends t) then narrow_self reg caps ?fp t st1 else Inr st1) = Inr st'"
    using assms(3) by (rule narrow_target_steps)
  have tail: "grows reg st1 st'" using self by (auto split: if_splits dest: narrow_self_grows)
  have "cap_settled reg caps strict S cap" if cap: "cap \<in> set (iter_ones (t_depends t))" for cap
  proof (cases "not_any (t_depends t) \<or> list_all (\<lambda>c. c \<in> ?fp) (iter_ones (t_depends t))")
    case True
    with cap have "cap \<in> ?fp" by (auto simp: not_any_iff list_all_iff)
    then show ?thesis by (simp add: cap_settled_def)
  next
    case False
    with deps have run: "fold_err (narrow_dep reg caps strict ?fp t) st (iter_ones (t_depends t)) = Inr st1" by simp
    obtain u v where uv: "narrow_ok reg st u" "narrow_dep reg caps strict ?fp t u cap = Inr v" "narrow_ok reg v st1"
      using fold_err_member [OF run cap, of "narrow_ok reg"] narrow_ok_trans narrow_dep_ok [OF assms(1)]
      by (metis narrow_ok_refl)
    then have g: "grows reg st u" "grows reg u v" "grows reg v st'"
      using tail grows_trans narrow_dep_grows by (auto simp: narrow_ok_def)
    then have "ns_resolved u = S" "ns_resolved v = S"
      using assms(4,5,6) no_change_same by metis+
    moreover have "narrow_inv reg u" using uv(1) assms(2) by (simp add: narrow_ok_def)
    ultimately show ?thesis using narrow_dep_settled [OF assms(1)] uv(2) by blast
  qed
  with t show ?thesis by blast
qed

lemma narrow_round_settled:
  assumes "tr_wf reg" and "iter_ok iter" and "finite (ns_resolved st)" and "narrow_inv reg st"
    and run: "narrow_round iter reg caps strict st = Inr st'" and "\<not> ns_changed st'"
  shows "ns_resolved st' = ns_resolved st \<and> plan_settled reg caps strict (ns_resolved st)"
proof -
  let ?st0 = "st\<lparr>ns_changed := False\<rparr>" and ?S = "ns_resolved st"
  let ?fp = "compute_full_provides reg ?S"
  have same: "ns_resolved st' = ?S" using narrow_round_grows [OF run] assms(6) by (simp add: grows_def)
  have inv: "narrow_inv reg ?st0" using assms(4) by (simp add: narrow_inv_def)
  have fold: "fold_err (narrow_target reg caps strict ?fp) ?st0 (iter ?S) = Inr st'"
    using run by (simp add: narrow_round_def)
  have "\<exists>t. tr_get_by_bit_index reg b = Some t \<and> (\<forall>cap \<in> set (iter_ones (t_depends t)). cap_settled reg caps strict ?S cap)"
    if "b \<in> ?S" for b
  proof -
    have b: "b \<in> set (iter ?S)" using assms(2,3) that by (simp add: iter_ok_def)
    obtain u v where uv: "narrow_ok reg ?st0 u" "narrow_target reg caps strict ?fp u b = Inr v" "narrow_ok reg v st'"
      using fold_err_member [OF fold b, of "narrow_ok reg"] narrow_ok_trans narrow_target_ok [OF assms(1)]
      by (metis narrow_ok_refl)
    then have g: "grows reg ?st0 u" "grows reg u v" "grows reg v st'"
      using narrow_target_grows by (auto simp: narrow_ok_def)
    then have "ns_resolved u = ?S" "ns_resolved v = ?S" "\<not> ns_changed v"
      using assms(6) same no_change_same by metis+
    moreover have "narrow_inv reg u" using uv(1) inv by (simp add: narrow_ok_def)
    ultimately show ?thesis using narrow_target_settled [OF assms(1)] uv(2) by blast
  qed
  with same show ?thesis by (simp add: plan_settled_def)
qed

lemma narrow_loop_settled:
  "narrow_loop iter reg caps strict st = Inr st' \<Longrightarrow> tr_wf reg \<Longrightarrow> iter_ok iter \<Longrightarrow>
    finite (ns_resolved st) \<Longrightarrow> narrow_inv reg st \<Longrightarrow>
    ns_resolved st \<subseteq> ns_resolved st' \<and> finite (ns_resolved st') \<and> plan_settled reg caps strict (ns_resolved st')"
proof (induction iter reg caps strict st rule: narrow_loop.induct)
  case (1 iter reg caps strict st)
  from "1.prems"(1) obtain st1 where run: "narrow_round iter reg caps strict st = Inr st1"
    and rest: "if ns_changed st1 then narrow_loop iter reg caps strict st1 = Inr st' else st' = st1"
    by (subst (asm) narrow_loop.simps) (auto split: sum.splits if_splits)
  show ?case
  proof (cases "ns_changed st1")
    case True
    have "narrow_ok reg (st\<lparr>ns_changed := False\<rparr>) st1"
      using run unfolding narrow_round_def
      by (rule fold_err_relation) (auto intro: narrow_ok_trans narrow_target_ok [OF "1.prems"(2)])
    then have st1: "ns_resolved st \<subseteq> ns_resolved st1" "narrow_inv reg st1" "finite (ns_resolved st1)"
      using "1.prems"(4,5) by (auto simp: narrow_ok_def grows_def narrow_inv_def intro: finite_subset)
    from True rest have "narrow_loop iter reg caps strict st1 = Inr st'" by simp
    from "1.IH" [OF run True this "1.prems"(2,3) st1(3,2)] st1(1) show ?thesis by blast
  next
    case False
    with rest narrow_round_settled [OF "1.prems"(2,3,4,5) run] "1.prems"(4) show ?thesis by simp
  qed
qed

text \<open>The guarded final expansion of a settled plan adds nothing.\<close>

lemma settled_reach:
  assumes "tr_wf reg" and "plan_settled reg caps strict S"
  shows "closure_reach \<lparr>cx_registry = reg, cx_caps = Some caps, cx_strict = strict'\<rparr> (Some (compute_full_provides reg S)) rej S = S"
proof -
  let ?ctx = "\<lparr>cx_registry = reg, cx_caps = Some caps, cx_strict = strict'\<rparr>" and ?sat = "Some (compute_full_provides reg S)"
  have step: "p \<in> S" if b: "b \<in> S" and bp: "(b, p) \<in> closure_rel ?ctx ?sat rej" for b p
  proof -
    from bp obtain t cap bs where t: "tr_get_by_bit_index reg b = Some t" "cap \<in> set (iter_ones (t_depends t))"
      and un: "cap \<notin> compute_full_provides reg S" and bs: "cap_supply ?ctx cap = Some bs" "p \<in> set bs"
      by (auto simp: closure_rel_def opt_in_def)
    from assms(2) b t have "cap_settled reg caps strict S cap" by (auto simp: plan_settled_def)
    with un bs show ?thesis
      by (auto simp: cap_settled_def cap_supply_def Let_def split: option.splits)
  qed
  show ?thesis
    unfolding closure_reach_def using closed_rtrancl [of _ _ "closure_rel ?ctx ?sat rej" S] step by blast
qed

text \<open>What a plan promises of the capabilities its targets depend on.\<close>

definition cap_closed :: "target_registry \<Rightarrow> cap_registry \<Rightarrow> bool \<Rightarrow> nat set \<Rightarrow> nat \<Rightarrow> bool" where
  "cap_closed reg caps strict S cap \<longleftrightarrow>
     cap \<in> compute_full_provides reg S \<or>
     tr_get_providers reg cap = [] \<and>
     (strict \<longrightarrow> (\<exists>u. Option.bind (caps_get_name caps cap) (tr_get reg) = Some u \<and> bit_of u \<in> S))"

definition plan_closed :: "target_registry \<Rightarrow> cap_registry \<Rightarrow> bool \<Rightarrow> nat set \<Rightarrow> bool" where
  "plan_closed reg caps strict S \<longleftrightarrow>
     (\<forall>b \<in> S. \<exists>t. tr_get_by_bit_index reg b = Some t \<and>
        (\<forall>cap \<in> set (iter_ones (t_depends t)). cap_closed reg caps strict S cap))"

lemma settled_closed: "plan_settled reg caps strict S \<Longrightarrow> plan_closed reg caps strict S"
proof -
  have "cap_settled reg caps strict S cap \<Longrightarrow> cap_closed reg caps strict S cap" for cap
    by (auto simp: cap_settled_def cap_closed_def split: option.splits)
  then show "plan_settled reg caps strict S \<Longrightarrow> plan_closed reg caps strict S"
    unfolding plan_settled_def plan_closed_def by blast
qed

text \<open>The include-all plan, which the narrowing mode falls back to, is closed as well.\<close>

lemma resolve_all_closed:
  assumes "iter_ok iter" and "tr_wf (dr_registry dr)" and "resolve_all iter dr seeds = Some (Inr plan)"
  shows "set seeds \<subseteq> set (ep_order plan) \<and> distinct (ep_order plan) \<and>
    topo_ok (plan_rel (dr_registry dr) (set (ep_order plan))) (ep_order plan) \<and>
    plan_closed (dr_registry dr) caps (dr_strict dr) (set (ep_order plan))"
proof -
  let ?reg = "dr_registry dr" and ?S = "set (ep_order plan)"
  let ?ctx = "\<lparr>cx_registry = ?reg, cx_caps = None, cx_strict = dr_strict dr\<rparr>"
  have sp: "?S = closure_reach ?ctx None None (set seeds)" "distinct (ep_order plan)"
    "topo_ok (plan_rel ?reg ?S) (ep_order plan)" "\<forall>b \<in> ?S. \<not> closure_bad ?ctx None b"
    using resolve_all_spec [OF assms(1,2), of seeds] unfolding assms(3) option.case sum.case by blast+
  have succ: "p \<in> ?S" if "b \<in> ?S" "(b, p) \<in> closure_rel ?ctx None None" for b p
    using that unfolding sp(1) closure_reach_def by (auto intro: rtrancl_into_rtrancl)
  have "\<exists>t. tr_get_by_bit_index ?reg b = Some t \<and> (\<forall>cap \<in> set (iter_ones (t_depends t)). cap_closed ?reg caps (dr_strict dr) ?S cap)"
    if b: "b \<in> ?S" for b
  proof -
    from b sp(4) have ok: "\<not> closure_bad ?ctx None b" by blast
    then obtain t where t: "tr_get_by_bit_index ?reg b = Some t" using not_bad_registered by fastforce
    have "cap_closed ?reg caps (dr_strict dr) ?S cap" if cap: "cap \<in> set (iter_ones (t_depends t))" for cap
    proof (cases "tr_get_providers ?reg cap")
      case Nil
      with ok t cap have "\<not> dr_strict dr"
        by (auto simp: closure_bad_def cap_missing_def cap_supply_def opt_in_def)
      with Nil show ?thesis by (simp add: cap_closed_def)
    next
      case (Cons u us)
      then have "(b, bit_of u) \<in> closure_rel ?ctx None None"
        using t cap by (auto simp: closure_rel_def cap_supply_def opt_in_def Let_def intro!: exI [of _ cap])
      with succ [OF b] have "bit_of u \<in> ?S" by blast
      moreover from Cons have "u \<in> set (tr_get_providers ?reg cap)" by simp
      ultimately have "cap \<in> compute_full_provides ?reg ?S" using provider_in_full [OF assms(2)] by blast
      then show ?thesis by (simp add: cap_closed_def)
    qed
    with t show ?thesis by blast
  qed
  moreover have "set seeds \<subseteq> ?S" unfolding sp(1) closure_reach_def by auto
  ultimately show ?thesis using sp unfolding plan_closed_def by blast
qed

section \<open>Properties\<close>

text \<open>
  C16. Resolving in include-all mode never panics. A plan lists, each once, exactly the targets reachable
  from the named ones through the providers of their capabilities, every target after all the
  other targets that provide one of its capabilities, with the target names alongside. It fails only when
  a name is unknown, when in strict mode a reachable target needs a capability nobody provides, or when
  the reachable targets form a cycle.
\<close>

theorem resolve_all_correct:
  assumes "tr_reachable (dr_registry dr)" and "iter_ok iter" and "dr_selection dr = All" and "names \<noteq> []"
    and "ctx = \<lparr>cx_registry = dr_registry dr, cx_caps = None, cx_strict = dr_strict dr\<rparr>"
    and "roots = {bit_of t |t. \<exists>name \<in> set names. tr_get (dr_registry dr) name = Some t}"
  shows "case dr_resolve iter dr names of
      None \<Rightarrow> False
    | Some (Inr plan) \<Rightarrow>
        set (ep_order plan) = closure_reach ctx None None roots \<and> distinct (ep_order plan) \<and>
        ep_target_names plan = map (plan_name (dr_registry dr)) (ep_order plan) \<and>
        topo_ok {(p, n). p \<in> set (ep_order plan) \<and> n \<in> set (ep_order plan) \<and> p \<noteq> n \<and> target_feeds (dr_registry dr) p n} (ep_order plan)
    | Some (Inl e) \<Rightarrow>
        (\<exists>name \<in> set names. tr_get (dr_registry dr) name = None \<and> e = RTargetNotFound name) \<or>
        (\<exists>x \<in> closure_reach ctx None None roots. closure_bad ctx None x) \<or>
        e = RCircularDependency \<and> \<not> acyclic (plan_rel (dr_registry dr) (closure_reach ctx None None roots))"
proof -
  have wf: "tr_wf (dr_registry dr)" using assms(1) by (rule tr_reachable_wf)
  show ?thesis
  proof (cases "collect_seeds (dr_registry dr) names")
    case (Inl e)
    with assms(4) show ?thesis using collect_seeds_spec [of names "dr_registry dr"] by (simp add: dr_resolve_def)
  next
    case (Inr seeds)
    then have all2: "list_all2 (\<lambda>name b. \<exists>t. tr_get (dr_registry dr) name = Some t \<and> b = bit_of t) names seeds"
      using collect_seeds_spec [of names "dr_registry dr"] by simp
    have "set seeds = roots"
      using all2 unfolding assms(6) by (induction rule: list_all2_induct) auto
    moreover have "dr_resolve iter dr names = resolve_all iter dr seeds"
      using assms(3,4) Inr by (simp add: dr_resolve_def)
    ultimately show ?thesis
      using resolve_all_spec [OF assms(2) wf, of seeds] unfolding assms(5)
      by (auto simp: plan_rel_def split: option.splits sum.splits)
  qed
qed

text \<open>
  Narrowing picks from the candidates and never leaves none; when it has to choose and a candidate
  is essential, only essential ones remain, and so on through the stages; the outcome does not depend on
  the order in which the candidates were registered.
\<close>

theorem narrow_providers_choice:
  assumes "ts \<noteq> []" and "inj_on t_name (set ts)" and "mset us = mset ts"
  shows "narrow_providers ts fp \<noteq> [] \<and> set (narrow_providers ts fp) \<subseteq> set ts \<and>
    narrow_providers us fp = narrow_providers ts fp \<and>
    ((\<exists>t \<in> set ts. t_essential t) \<and> 1 < length ts \<longrightarrow> (\<forall>t \<in> set (narrow_providers ts fp). t_essential t))"
proof -
  have "length us = length ts" using assms(3) by (metis size_mset)
  moreover have "us = ts" if "length ts \<le> 1"
    using that assms(3) by (cases ts; cases us) (auto simp: mset_single_iff_right)
  ultimately have "narrow_providers us fp = narrow_providers ts fp"
    using sort_key_perm [of ts us t_name] assms(2,3) by (auto simp: narrow_providers_def)
  moreover have "\<forall>t \<in> set (narrow_providers ts fp). t_essential t"
    if ess: "\<exists>t \<in> set ts. t_essential t" "1 < length ts"
  proof -
    let ?kept = "filter (\<lambda>t. stage_essential t fp) (sort_key t_name ts)"
    have kept: "?kept \<noteq> []" using ess(1) by (auto simp: filter_empty_conv stage_essential_def)
    have sub: "set xs \<subseteq> set ?kept" if "run_stages STAGES fp (sort_key t_name ts) = Inl xs \<or> run_stages STAGES fp (sort_key t_name ts) = Inr xs" for xs
      using that kept run_stages_subset [of "[stage_strict_sat, stage_locality]" fp ?kept xs]
      by (auto simp: STAGES_def Let_def simp del: run_stages.simps(2) simp: run_stages.simps(2) [of stage_essential] split: if_splits)
    have "set (narrow_providers ts fp) \<subseteq> set ?kept"
      using ess(2) sub by (auto simp: narrow_providers_def Let_def split: sum.splits)
    then show ?thesis by (auto simp: stage_essential_def)
  qed
  ultimately show ?thesis
    using narrow_providers_nonempty [OF assms(1)] narrow_providers_subset by blast
qed

text \<open>
  A plan of the resolver in narrowing mode contains every requested target, each target once and
  after the other planned targets that provide one of its capabilities, and it is closed: every
  capability a planned target depends on is provided by a planned target, unless no target provides it at
  all, and then in strict mode the target named like the capability is in the plan. This holds
  although losing candidates are kept out.
\<close>

theorem narrow_plan_closed:
  assumes "tr_reachable (dr_registry dr)" and "iter_ok iter"
    and "dr_selection dr = NarrowOne" and "dr_caps dr = Some caps"
    and "dr_resolve iter dr names = Some (Inr plan)"
  shows "distinct (ep_order plan) \<and>
    (\<forall>name \<in> set names. \<exists>t. tr_get (dr_registry dr) name = Some t \<and> bit_of t \<in> set (ep_order plan)) \<and>
    topo_ok {(p, n). p \<in> set (ep_order plan) \<and> n \<in> set (ep_order plan) \<and> p \<noteq> n \<and> target_feeds (dr_registry dr) p n} (ep_order plan) \<and>
    (\<forall>b \<in> set (ep_order plan). \<exists>t. tr_get_by_bit_index (dr_registry dr) b = Some t \<and>
       (\<forall>cap \<in> set (iter_ones (t_depends t)).
          (\<exists>u \<in> set (tr_targets (dr_registry dr)). bit_of u \<in> set (ep_order plan) \<and> cap \<in> set (iter_ones (t_provides u))) \<or>
          tr_get_providers (dr_registry dr) cap = [] \<and>
          (dr_strict dr \<longrightarrow> (\<exists>u. Option.bind (caps_get_name caps cap) (tr_get (dr_registry dr)) = Some u \<and> bit_of u \<in> set (ep_order plan)))))"
proof (cases "names = []")
  case True
  with assms(5) have "plan = \<lparr>ep_order = [], ep_target_names = []\<rparr>" by (simp add: dr_resolve_def)
  with True show ?thesis by simp
next
  case False
  let ?reg = "dr_registry dr"
  have wf: "tr_wf ?reg" using assms(1) by (rule tr_reachable_wf)
  from False assms(3-5) obtain seeds where seeds: "collect_seeds ?reg names = Inr seeds"
    and run: "resolve_narrow_one iter dr seeds names caps = Some (Inr plan)"
    by (auto simp: dr_resolve_def split: sum.splits)
  let ?ctx = "\<lparr>cx_registry = ?reg, cx_caps = Some caps, cx_strict = dr_strict dr\<rparr>"
  let ?st0 = "\<lparr>ns_resolved = set seeds, ns_rejected = {}, ns_narrowed = {}, ns_changed = True\<rparr>"
  have all2: "list_all2 (\<lambda>name b. \<exists>t. tr_get ?reg name = Some t \<and> b = bit_of t) names seeds"
    using collect_seeds_spec [of names ?reg] seeds by simp
  have names: "\<exists>t. tr_get ?reg name = Some t \<and> bit_of t \<in> set seeds" if "name \<in> set names" for name
    using all2 that by (induction rule: list_all2_induct) auto
  have "set seeds \<subseteq> set (ep_order plan) \<and> distinct (ep_order plan) \<and>
      topo_ok (plan_rel ?reg (set (ep_order plan))) (ep_order plan) \<and> plan_closed ?reg caps (dr_strict dr) (set (ep_order plan))"
  proof (cases "resolve_all iter dr seeds = Some (Inr plan)")
    case True
    then show ?thesis using resolve_all_closed [OF assms(2) wf] by blast
  next
    case False
    with run obtain st V where loop: "narrow_loop iter ?reg caps (dr_strict dr) ?st0 = Inr st"
      and exp: "transitive_closure ?ctx (iter (ns_resolved st)) (Some (compute_full_provides ?reg (ns_resolved st))) (Some (ns_rejected st)) = Inr V"
      and plan: "plan_from_set iter ?reg (ns_resolved st \<union> V) = Some (Inr plan)"
      by (auto simp: resolve_narrow_one_def Let_def split: sum.splits if_splits)
    have "narrow_inv ?reg ?st0" by (simp add: narrow_inv_def)
    with narrow_loop_settled [OF loop wf assms(2)] have st: "set seeds \<subseteq> ns_resolved st"
      "finite (ns_resolved st)" "plan_settled ?reg caps (dr_strict dr) (ns_resolved st)" by simp_all
    have "set (iter (ns_resolved st)) = ns_resolved st" using assms(2) st(2) by (simp add: iter_ok_def)
    with transitive_closure_spec [where ctx = ?ctx and seeds = "iter (ns_resolved st)"
        and sat = "Some (compute_full_provides ?reg (ns_resolved st))" and rej = "Some (ns_rejected st)"] exp
    have "V = ns_resolved st" by (simp add: settled_reach [OF wf st(3)])
    then have plan': "plan_from_set iter ?reg (ns_resolved st) = Some (Inr plan)" using plan by simp
    have valid: "plan_valid (iter, ?reg, ns_resolved st)"
      using assms(2) wf st(2,3) by (fastforce simp: plan_valid_def plan_settled_def)
    from plan' have ord: "(case (iter, ?reg, ns_resolved st) of (iter, reg, needed) \<Rightarrow>
        map_option (map_sum id ep_order) (plan_from_set iter reg needed)) = Some (Inr (ep_order plan))" by simp
    from topo_plan.plan_sound [OF valid ord] have "distinct (ep_order plan)" "set (ep_order plan) = ns_resolved st"
      "topo_ok (plan_rel ?reg (ns_resolved st)) (ep_order plan)" by simp_all
    with st settled_closed [OF st(3)] show ?thesis by simp
  qed
  moreover from this have "\<exists>t. tr_get ?reg name = Some t \<and> bit_of t \<in> set (ep_order plan)" if "name \<in> set names" for name
    using names [OF that] by blast
  ultimately show ?thesis
    unfolding plan_rel_def plan_closed_def cap_closed_def in_full_provides [OF wf] by blast
qed

subsection \<open>Instances\<close>

lemma sorted_iter_ok: "iter_ok sorted_list_of_set"
  by (simp add: iter_ok_def)

definition sample_all :: dependency_resolver where
  "sample_all = dr_new sample_reg"

definition sample_one :: dependency_resolver where
  "sample_one = dr_with_narrowing sample_reg sample_caps"

theorem resolve_all_correct_witness:
  "\<exists>plan. dr_resolve sorted_list_of_set sample_all [''app''] = Some (Inr plan) \<and>
     ep_target_names plan = [''lib_a'', ''sqlite'', ''lib_b'', ''app''] \<and> distinct (ep_order plan)"
proof -
  have "map_option (map_sum id ep_target_names) (dr_resolve sorted_list_of_set sample_all [''app'']) =
      Some (Inr [''lib_a'', ''sqlite'', ''lib_b'', ''app''])"
    by code_simp
  then obtain plan where run: "dr_resolve sorted_list_of_set sample_all [''app''] = Some (Inr plan)"
    and names: "ep_target_names plan = [''lib_a'', ''sqlite'', ''lib_b'', ''app'']"
    by (cases "dr_resolve sorted_list_of_set sample_all [''app'']"; cases "the (dr_resolve sorted_list_of_set sample_all [''app''])") auto
  have "tr_reachable (dr_registry sample_all)" "dr_selection sample_all = All"
    using sample_reg_reachable by (simp_all add: sample_all_def dr_new_def)
  from resolve_all_correct [OF this(1) sorted_iter_ok this(2), of "[''app'']", OF _ refl refl] run names
  show ?thesis by simp
qed

theorem narrow_providers_choice_witness:
  "map t_name (narrow_providers (tr_get_providers sample_reg 0) {}) = [''lib_a''] \<and>
   narrow_providers (rev (tr_get_providers sample_reg 0)) {} = narrow_providers (tr_get_providers sample_reg 0) {}"
proof -
  have ne: "tr_get_providers sample_reg 0 \<noteq> []" by code_simp
  have inj: "inj_on t_name (set (tr_get_providers sample_reg 0))"
    by (rule inj_on_subset [OF distinct_map [THEN iffD1, THEN conjunct2]])
      (use tr_reachable_wf [OF sample_reg_reachable] in \<open>auto simp: tr_wf_def distinct_map dest: tr_providers_in\<close>)
  have "map t_name (narrow_providers (tr_get_providers sample_reg 0) {}) = [''lib_a'']" by code_simp
  with narrow_providers_choice [OF ne inj, of "rev (tr_get_providers sample_reg 0)" "{}"] show ?thesis by simp
qed

theorem narrow_plan_closed_witness:
  "\<exists>plan. dr_resolve sorted_list_of_set sample_one [''app''] = Some (Inr plan) \<and>
     ep_target_names plan = [''lib_a'', ''sqlite'', ''app''] \<and> distinct (ep_order plan)"
proof -
  have "map_option (map_sum id ep_target_names) (dr_resolve sorted_list_of_set sample_one [''app'']) =
      Some (Inr [''lib_a'', ''sqlite'', ''app''])"
    by code_simp
  then obtain plan where run: "dr_resolve sorted_list_of_set sample_one [''app''] = Some (Inr plan)"
    and names: "ep_target_names plan = [''lib_a'', ''sqlite'', ''app'']"
    by (cases "dr_resolve sorted_list_of_set sample_one [''app'']"; cases "the (dr_resolve sorted_list_of_set sample_one [''app''])") auto
  have "tr_reachable (dr_registry sample_one)" "dr_selection sample_one = NarrowOne" "dr_caps sample_one = Some sample_caps"
    using sample_reg_reachable by (simp_all add: sample_one_def dr_with_narrowing_def)
  from narrow_plan_closed [OF this(1) sorted_iter_ok this(2,3) run] run names show ?thesis by blast
qed

text \<open>A candidate that lost one contest is planned again as the only provider of another capability.\<close>

definition reentry_defs :: "target_def list" where
  "reentry_defs =
     [\<lparr>td_id = 0, td_name = ''goal'', td_target_type = ''file'', td_depends = [''x'', ''y''], td_provides = [], td_essential = False\<rparr>,
      \<lparr>td_id = 1, td_name = ''a'', td_target_type = ''file'', td_depends = [], td_provides = [''x''], td_essential = True\<rparr>,
      \<lparr>td_id = 2, td_name = ''b'', td_target_type = ''file'', td_depends = [], td_provides = [''x'', ''y''], td_essential = False\<rparr>]"

lemma rejected_reenters:
  "(case load_yamake_config reentry_defs of
      None \<Rightarrow> False
    | Some (reg, caps) \<Rightarrow>
        map_option (map_sum id ep_target_names) (dr_resolve sorted_list_of_set (dr_with_narrowing reg caps) [''goal'']) =
          Some (Inr [''a'', ''b'', ''goal'']) \<and>
        map_sum id ns_rejected (narrow_loop sorted_list_of_set reg caps True
          \<lparr>ns_resolved = {0}, ns_rejected = {}, ns_narrowed = {}, ns_changed = True\<rparr>) = Inr {2})"
  by code_simp

end
