(* ===== verification/TypeInference.thy ===== *)
theory TypeInference
  imports Prelude
begin

text \<open>
  The subclass index of \<open>src/src/dag/src/type_inference.rs\<close>: one ancestor bit vector per class,
  computed by a fixpoint over the \<open>[child, parent]\<close> edges with batched updates.

  Class identifiers (\<open>i64\<close>) are integers, bit vectors are lists of booleans. All vectors have
  \<open>class_count\<close> bits and all bit positions are below it (\<open>ti_wf\<close>), so no index is out of range.
  The loop is a partial function; that it returns is proved.
\<close>

record type_inference =
  ti_ancestors :: "(int, bool list) hmap"
  ti_class_count :: nat
  ti_id_to_bit :: "(int, nat) hmap"

definition ti_bits :: "int list \<Rightarrow> (int, nat) hmap" where
  "ti_bits class_ids = foldl (\<lambda>m (i, ident). hm_insert m ident i) hm_empty (enumerate 0 class_ids)"

definition ti_initial :: "int list \<Rightarrow> (int, nat) hmap \<Rightarrow> (int, bool list) hmap" where
  "ti_initial class_ids id_to_bit =
     foldl (\<lambda>m ident. hm_insert m ident
         (let bs = replicate (length class_ids) False
          in case hm_get id_to_bit ident of Some b \<Rightarrow> bs[b := True] | None \<Rightarrow> bs))
       hm_empty class_ids"

text \<open>The loop that copies the parent's bits, with the flag it may set.\<close>

definition merge_step :: "bool list \<times> bool \<Rightarrow> nat \<times> bool \<Rightarrow> bool list \<times> bool" where
  "merge_step s ib = (case (s, ib) of ((new_bits, changed), (i, b)) \<Rightarrow>
     if b \<and> \<not> new_bits ! i then (new_bits[i := True], True) else (new_bits, changed))"

text \<open>One edge of a round: the queued update, if any, and whether it sets the flag.\<close>

definition edge_update ::
  "(int, nat) hmap \<Rightarrow> (int, bool list) hmap \<Rightarrow> int \<times> int \<Rightarrow> ((int \<times> bool list) \<times> bool) option" where
  "edge_update id_to_bit ancestors e =
     (case e of (child, parent) \<Rightarrow>
      case (hm_get id_to_bit parent, hm_get ancestors child) of
        (Some pb, Some child_ancestors) \<Rightarrow>
          let parent_ancestors = hm_get ancestors parent in
          if \<not> child_ancestors ! pb \<or>
             (case parent_ancestors of
                Some pa \<Rightarrow> list_ex (\<lambda>(i, b). b \<and> \<not> child_ancestors ! i) (enumerate 0 pa)
              | None \<Rightarrow> False)
          then
            let merged = (case parent_ancestors of
                            Some pa \<Rightarrow> foldl merge_step (child_ancestors[pb := True], False) (enumerate 0 pa)
                          | None \<Rightarrow> (child_ancestors[pb := True], False))
            in Some ((child, fst merged), snd merged \<or> fst merged \<noteq> child_ancestors)
          else None
      | _ \<Rightarrow> None)"

definition ti_round :: "(int, nat) hmap \<Rightarrow> (int \<times> int) list \<Rightarrow> (int, bool list) hmap \<Rightarrow> (int, bool list) hmap \<times> bool" where
  "ti_round id_to_bit edges ancestors =
     (let updates = List.map_filter (edge_update id_to_bit ancestors) edges
      in (foldl (\<lambda>m ((ident, bits), _). hm_insert m ident bits) ancestors updates, list_ex snd updates))"

partial_function (option) ti_loop ::
  "(int, nat) hmap \<Rightarrow> (int \<times> int) list \<Rightarrow> (int, bool list) hmap \<Rightarrow> (int, bool list) hmap option" where
  "ti_loop id_to_bit edges ancestors =
     (case ti_round id_to_bit edges ancestors of
        (ancestors', changed) \<Rightarrow> if changed then ti_loop id_to_bit edges ancestors' else Some ancestors')"

definition ti_build :: "int list \<Rightarrow> (int \<times> int) list \<Rightarrow> type_inference option" where
  "ti_build class_ids edges =
     (let id_to_bit = ti_bits class_ids
      in map_option (\<lambda>a. \<lparr>ti_ancestors = a, ti_class_count = length class_ids, ti_id_to_bit = id_to_bit\<rparr>)
           (ti_loop id_to_bit edges (ti_initial class_ids id_to_bit)))"

definition ti_is_subclass_of :: "type_inference \<Rightarrow> int \<Rightarrow> int \<Rightarrow> bool" where
  "ti_is_subclass_of ti child parent =
     (case (hm_get (ti_id_to_bit ti) child, hm_get (ti_id_to_bit ti) parent) of
        (Some _, Some pb) \<Rightarrow>
          (case hm_get (ti_ancestors ti) child of Some ca \<Rightarrow> ca ! pb | None \<Rightarrow> False)
      | _ \<Rightarrow> False)"

section \<open>Invariant\<close>

text \<open>Edges between registered classes.\<close>

definition class_rel :: "int list \<Rightarrow> (int \<times> int) list \<Rightarrow> (int \<times> int) set" where
  "class_rel ids edges = {(c, p) \<in> set edges. c \<in> set ids \<and> p \<in> set ids}"

definition bits_wf :: "int list \<Rightarrow> (int, nat) hmap \<Rightarrow> bool" where
  "bits_wf ids m \<longleftrightarrow> dom (hm_get m) = set ids \<and> (\<forall>c i. hm_get m c = Some i \<longrightarrow> i < length ids \<and> ids ! i = c)"

definition ti_wf :: "int list \<Rightarrow> (int \<times> int) list \<Rightarrow> (int, nat) hmap \<Rightarrow> (int, bool list) hmap \<Rightarrow> bool" where
  "ti_wf ids edges m anc \<longleftrightarrow> dom (hm_get anc) = set ids \<and>
     (\<forall>c v. hm_get anc c = Some v \<longrightarrow> length v = length ids \<and>
        (\<exists>b. hm_get m c = Some b \<and> v ! b) \<and>
        (\<forall>i < length ids. v ! i \<longrightarrow> hm_get m (ids ! i) = Some i \<and> (c, ids ! i) \<in> (class_rel ids edges)\<^sup>*))"

lemma ti_bits_wf: "bits_wf ids (ti_bits ids)"
proof (induction ids rule: rev_induct)
  case Nil
  then show ?case by (simp add: bits_wf_def ti_bits_def)
next
  case (snoc x xs)
  have "ti_bits (xs @ [x]) = hm_insert (ti_bits xs) x (length xs)"
    by (simp add: ti_bits_def enumerate_append_eq)
  with snoc show ?case by (auto simp: bits_wf_def nth_append less_SucI)
qed

lemma foldl_insert_get:
  "hm_get (foldl (\<lambda>m k. hm_insert m k (f k)) m ks) k = (if k \<in> set ks then Some (f k) else hm_get m k)"
  by (induction ks arbitrary: m) auto

lemma ti_initial_wf:
  assumes "bits_wf ids m"
  shows "ti_wf ids edges m (ti_initial ids m)"
proof -
  have get: "hm_get (ti_initial ids m) c =
      (if c \<in> set ids then Some (case hm_get m c of Some b \<Rightarrow> (replicate (length ids) False)[b := True] | None \<Rightarrow> replicate (length ids) False) else None)" for c
    by (simp add: ti_initial_def foldl_insert_get Let_def)
  have "\<exists>b. hm_get m c = Some b \<and> b < length ids \<and> ids ! b = c" if "c \<in> set ids" for c
    using assms that unfolding bits_wf_def by (metis domD)
  then show ?thesis
    by (fastforce simp: ti_wf_def get nth_list_update split: if_splits)
qed

text \<open>The merge sets exactly the parent's bits.\<close>

lemma merge_fold:
  assumes "length pa + n \<le> length v"
  shows "length (fst (foldl merge_step (v, f) (enumerate n pa))) = length v \<and>
    (\<forall>i < length v. fst (foldl merge_step (v, f) (enumerate n pa)) ! i \<longleftrightarrow>
       v ! i \<or> n \<le> i \<and> i < n + length pa \<and> pa ! (i - n))"
  using assms
proof (induction pa arbitrary: n v f)
  case (Cons b pa)
  obtain v' f' where step: "merge_step (v, f) (n, b) = (v', f')" by fastforce
  then have v': "length v' = length v" "\<forall>i < length v. v' ! i \<longleftrightarrow> v ! i \<or> i = n \<and> b"
    using Cons.prems by (auto simp: merge_step_def nth_list_update split: if_splits)
  have "length pa + Suc n \<le> length v'" using Cons.prems v' by simp
  from Cons.IH [OF this, of f'] v' step show ?case
    by (auto simp: nth_Cons' less_Suc_eq_le Suc_diff_le Suc_le_eq split: if_splits)
qed auto

lemma list_ex_enumerate: "list_ex (\<lambda>(i, b). b \<and> \<not> ca ! i) (enumerate 0 pa) \<longleftrightarrow> (\<exists>i < length pa. pa ! i \<and> \<not> ca ! i)"
proof -
  have "(i, b) \<in> set (enumerate 0 pa) \<longleftrightarrow> i < length pa \<and> pa ! i = b" for i b
    by (auto simp: in_set_enumerate_eq)
  then show ?thesis by (auto simp: list_ex_iff)
qed

text \<open>What an edge between registered classes contributes to a round.\<close>

lemma edge_update_registered:
  assumes "bits_wf ids m" and "ti_wf ids edges m anc" and "c \<in> set ids" and "p \<in> set ids"
  obtains ca pa where "hm_get anc c = Some ca" "hm_get anc p = Some pa" "length ca = length ids" "length pa = length ids"
    and "edge_update m anc (c, p) = None \<Longrightarrow> \<forall>i < length ids. pa ! i \<longrightarrow> ca ! i"
    and "\<And>k new f. edge_update m anc (c, p) = Some ((k, new), f) \<Longrightarrow>
           k = c \<and> f \<and> new \<noteq> ca \<and> length new = length ids \<and> (\<forall>i < length ids. new ! i \<longleftrightarrow> ca ! i \<or> pa ! i)"
proof -
  obtain ca pa pb where ca: "hm_get anc c = Some ca" and pa: "hm_get anc p = Some pa" and pb: "hm_get m p = Some pb"
    using assms unfolding ti_wf_def bits_wf_def by (metis domD)
  have len: "length ca = length ids" "length pa = length ids" "pb < length ids"
    using assms ca pa pb by (auto simp: ti_wf_def bits_wf_def)
  have own: "pa ! pb" using assms(2) pa pb unfolding ti_wf_def by (metis option.inject)
  let ?mg = "foldl merge_step (ca[pb := True], False) (enumerate 0 pa)"
  have mg: "length (fst ?mg) = length ids" "\<forall>i < length ids. fst ?mg ! i \<longleftrightarrow> ca ! i \<or> pa ! i"
    using merge_fold [of pa 0 "ca[pb := True]" False] len own by (auto simp: nth_list_update)
  have eq: "edge_update m anc (c, p) =
      (if \<exists>i < length ids. pa ! i \<and> \<not> ca ! i then Some ((c, fst ?mg), snd ?mg \<or> fst ?mg \<noteq> ca) else None)"
    using own len by (auto simp: edge_update_def ca pa pb Let_def list_ex_enumerate)
  have "fst ?mg \<noteq> ca" if "\<exists>i < length ids. pa ! i \<and> \<not> ca ! i" using that mg by auto
  with eq mg show thesis
    by (intro that [OF ca pa len(1,2)]) (auto split: if_splits)
qed

lemma edge_update_unregistered:
  assumes "bits_wf ids m" and "ti_wf ids edges m anc" and "\<not> (c \<in> set ids \<and> p \<in> set ids)"
  shows "edge_update m anc (c, p) = None"
proof -
  have "hm_get m p = None \<or> hm_get anc c = None" using assms by (auto simp: bits_wf_def ti_wf_def)
  then show ?thesis by (auto simp: edge_update_def split: option.splits)
qed

text \<open>The queued updates of a round.\<close>

definition ti_updates :: "(int, nat) hmap \<Rightarrow> (int \<times> int) list \<Rightarrow> (int, bool list) hmap \<Rightarrow> ((int \<times> bool list) \<times> bool) list" where
  "ti_updates m edges anc = List.map_filter (edge_update m anc) edges"

lemma ti_round_eq:
  "ti_round m edges anc = (foldl (\<lambda>a ((k, v), _). hm_insert a k v) anc (ti_updates m edges anc), list_ex snd (ti_updates m edges anc))"
  by (simp add: ti_round_def ti_updates_def Let_def)

lemma apply_updates:
  "hm_get (foldl (\<lambda>a ((k, v), _). hm_insert a k v) anc us) c =
     (if \<exists>v f. ((c, v), f) \<in> set us
      then Some (snd (fst (last (filter (\<lambda>u. fst (fst u) = c) us)))) else hm_get anc c)"
  by (induction us arbitrary: anc) (auto simp: filter_empty_conv)

lemma apply_updates_cases:
  assumes "hm_get (foldl (\<lambda>a ((k, v), _). hm_insert a k v) anc us) c = Some v"
  shows "(\<exists>f. ((c, v), f) \<in> set us) \<or> (\<forall>v f. ((c, v), f) \<notin> set us) \<and> hm_get anc c = Some v"
  using assms
proof (induction us arbitrary: anc)
  case (Cons u us)
  obtain k w f where u: "u = ((k, w), f)" by (metis surj_pair)
  from Cons.prems u have "hm_get (foldl (\<lambda>a ((k, v), _). hm_insert a k v) (hm_insert anc k w) us) c = Some v" by simp
  from Cons.IH [OF this] show ?case using u by (auto split: if_splits)
qed simp

lemma apply_updates_dom:
  "dom (hm_get (foldl (\<lambda>a ((k, v), _). hm_insert a k v) anc us)) = dom (hm_get anc) \<union> fst ` fst ` set us"
  by (induction us arbitrary: anc) auto

lemma update_spec:
  assumes "bits_wf ids m" and "ti_wf ids edges m anc" and "((c, new), f) \<in> set (ti_updates m edges anc)"
  shows "f \<and> (\<exists>p ca pa. (c, p) \<in> class_rel ids edges \<and> hm_get anc c = Some ca \<and> hm_get anc p = Some pa \<and>
     new \<noteq> ca \<and> length new = length ids \<and> (\<forall>i < length ids. new ! i \<longleftrightarrow> ca ! i \<or> pa ! i))"
proof -
  from assms(3) obtain d p where e: "(d, p) \<in> set edges" "edge_update m anc (d, p) = Some ((c, new), f)"
    by (auto simp: ti_updates_def in_map_filter)
  then have reg: "d \<in> set ids" "p \<in> set ids" using edge_update_unregistered [OF assms(1,2)] by (metis option.distinct(1))+
  obtain ca pa where "hm_get anc d = Some ca" "hm_get anc p = Some pa"
    "c = d \<and> f \<and> new \<noteq> ca \<and> length new = length ids \<and> (\<forall>i < length ids. new ! i \<longleftrightarrow> ca ! i \<or> pa ! i)"
    using edge_update_registered [OF assms(1,2) reg] e(2) by metis
  with e reg show ?thesis by (auto simp: class_rel_def)
qed

lemma ti_round_wf:
  assumes "bits_wf ids m" and "ti_wf ids edges m anc"
  shows "ti_wf ids edges m (fst (ti_round m edges anc))"
proof -
  let ?us = "ti_updates m edges anc"
  let ?anc = "foldl (\<lambda>a ((k, v), _). hm_insert a k v) anc ?us"
  have "c \<in> set ids" if "((c, v), f) \<in> set ?us" for c v f
    using update_spec [OF assms that] by (auto simp: class_rel_def)
  then have dom: "dom (hm_get ?anc) = set ids"
    using assms(2) unfolding apply_updates_dom by (force simp: ti_wf_def)
  have "length v = length ids \<and> (\<exists>b. hm_get m c = Some b \<and> v ! b) \<and>
      (\<forall>i < length ids. v ! i \<longrightarrow> hm_get m (ids ! i) = Some i \<and> (c, ids ! i) \<in> (class_rel ids edges)\<^sup>*)"
    if v: "hm_get ?anc c = Some v" for c v
  proof (cases "\<exists>f. ((c, v), f) \<in> set ?us")
    case True
    then obtain p ca pa where u: "(c, p) \<in> class_rel ids edges" "hm_get anc c = Some ca" "hm_get anc p = Some pa"
      "length v = length ids" "\<forall>i < length ids. v ! i \<longleftrightarrow> ca ! i \<or> pa ! i"
      using update_spec [OF assms] by metis
    have ca: "\<exists>b. hm_get m c = Some b \<and> ca ! b"
        "\<forall>i < length ids. ca ! i \<longrightarrow> hm_get m (ids ! i) = Some i \<and> (c, ids ! i) \<in> (class_rel ids edges)\<^sup>*"
      and pa: "\<forall>i < length ids. pa ! i \<longrightarrow> hm_get m (ids ! i) = Some i \<and> (p, ids ! i) \<in> (class_rel ids edges)\<^sup>*"
      using assms(2) u(2,3) by (auto simp: ti_wf_def)
    moreover have "\<exists>b. hm_get m c = Some b \<and> v ! b"
      using ca(1) u(5) assms(1) by (metis bits_wf_def)
    ultimately show ?thesis
      using u by (auto intro: converse_rtrancl_into_rtrancl)
  next
    case False
    with apply_updates_cases [OF v] assms(2) show ?thesis by (auto simp: ti_wf_def)
  qed
  with dom show ?thesis by (simp add: ti_round_eq ti_wf_def)
qed

section \<open>Termination\<close>

text \<open>The bits that are still clear; a round with an update clears none and sets at least one.\<close>

definition clear_bits :: "int list \<Rightarrow> (int, bool list) hmap \<Rightarrow> nat" where
  "clear_bits ids anc = (\<Sum>c \<in> set ids. card {i. i < length ids \<and> \<not> hm_get_or anc c [] ! i})"

lemma ti_round_progress:
  assumes "bits_wf ids m" and "ti_wf ids edges m anc" and "ti_updates m edges anc \<noteq> []"
  shows "clear_bits ids (fst (ti_round m edges anc)) < clear_bits ids anc"
proof -
  let ?us = "ti_updates m edges anc" and ?anc = "fst (ti_round m edges anc)"
  let ?clear = "\<lambda>a c. {i. i < length ids \<and> \<not> hm_get_or a c [] ! i}"
  have anc: "?anc = foldl (\<lambda>a ((k, v), _). hm_insert a k v) anc ?us" by (simp add: ti_round_eq)
  have dom: "dom (hm_get ?anc) = set ids" using ti_round_wf [OF assms(1,2)] by (simp add: ti_wf_def)
  have le: "?clear ?anc c \<subseteq> ?clear anc c" and lt: "(\<exists>v f. ((c, v), f) \<in> set ?us) \<Longrightarrow> ?clear ?anc c \<subset> ?clear anc c"
    if c: "c \<in> set ids" for c
  proof -
    from c dom obtain v where v: "hm_get ?anc c = Some v" by blast
    show "?clear ?anc c \<subseteq> ?clear anc c"
    proof (cases "\<exists>f. ((c, v), f) \<in> set ?us")
      case True
      then obtain ca pa where "hm_get anc c = Some ca" "\<forall>i < length ids. v ! i \<longleftrightarrow> ca ! i \<or> pa ! i"
        using update_spec [OF assms(1,2)] by metis
      with v show ?thesis by (auto simp: hm_get_or_def)
    next
      case False
      with apply_updates_cases v anc show ?thesis by (fastforce simp: hm_get_or_def)
    qed
    assume "\<exists>v f. ((c, v), f) \<in> set ?us"
    with apply_updates_cases [of anc ?us c v] v anc obtain f where "((c, v), f) \<in> set ?us" by auto
    then obtain ca pa where u: "hm_get anc c = Some ca" "v \<noteq> ca" "length v = length ids" "\<forall>i < length ids. v ! i \<longleftrightarrow> ca ! i \<or> pa ! i"
      using update_spec [OF assms(1,2)] by metis
    have "length ca = length ids" using assms(2) u(1) by (simp add: ti_wf_def)
    with u(2,3) obtain i where i: "i < length ids" "v ! i \<noteq> ca ! i" using nth_equalityI [of v ca] by auto
    then have "v ! i" "\<not> ca ! i" using u(4) by auto
    with i have "i \<in> ?clear anc c - ?clear ?anc c" using v u(1) by (simp add: hm_get_or_def)
    moreover have "?clear ?anc c \<subseteq> ?clear anc c" using v u by (auto simp: hm_get_or_def)
    ultimately show "?clear ?anc c \<subset> ?clear anc c" by blast
  qed
  obtain c v f where u: "((c, v), f) \<in> set ?us" using assms(3) by (metis list.set_intros(1) neq_Nil_conv surj_pair)
  then have c: "c \<in> set ids" using update_spec [OF assms(1,2) u] by (auto simp: class_rel_def)
  then have "?clear ?anc c \<subset> ?clear anc c" using lt [of c] u by blast
  then have "card (?clear ?anc c) < card (?clear anc c)" by (simp add: psubset_card_mono)
  moreover have "\<forall>d \<in> set ids. card (?clear ?anc d) \<le> card (?clear anc d)" using le by (simp add: card_mono)
  ultimately show ?thesis
    unfolding clear_bits_def using c by (intro sum_strict_mono_ex1) auto
qed

lemma ti_loop_total:
  assumes "bits_wf ids m" and "ti_wf ids edges m anc"
  shows "\<exists>anc'. ti_loop m edges anc = Some anc' \<and> ti_wf ids edges m anc' \<and> ti_updates m edges anc' = []"
  using assms(2)
proof (induction "clear_bits ids anc" arbitrary: anc rule: less_induct)
  case less
  show ?case
  proof (cases "ti_updates m edges anc = []")
    case True
    then have "ti_loop m edges anc = Some anc"
      by (subst ti_loop.simps) (simp add: ti_round_eq)
    with less.prems True show ?thesis by blast
  next
    case False
    then obtain u where u: "u \<in> set (ti_updates m edges anc)" by (meson list.set_sel(1))
    then have "snd u" using update_spec [OF assms(1) less.prems, of "fst (fst u)" "snd (fst u)" "snd u"] by simp
    with u have "snd (ti_round m edges anc)" by (auto simp: ti_round_eq list_ex_iff)
    then have step: "ti_loop m edges anc = ti_loop m edges (fst (ti_round m edges anc))"
      by (subst ti_loop.simps) (simp add: case_prod_beta)
    show ?thesis
      unfolding step
      by (rule less.hyps [OF ti_round_progress [OF assms(1) less.prems False] ti_round_wf [OF assms(1) less.prems]])
  qed
qed

section \<open>Property\<close>

text \<open>
  C17. \<open>build\<close> always returns, and \<open>is_subclass_of\<close> then answers exactly whether both classes are
  registered and the second is reachable from the first along the subclass edges between registered
  classes, cyclic hierarchies and repeated identifiers included.
\<close>

theorem subclass_exact:
  "\<exists>ti. ti_build ids edges = Some ti \<and> ti_class_count ti = length ids \<and>
     (\<forall>c p. ti_is_subclass_of ti c p \<longleftrightarrow>
        c \<in> set ids \<and> p \<in> set ids \<and> (c, p) \<in> {(c, p) \<in> set edges. c \<in> set ids \<and> p \<in> set ids}\<^sup>*)"
proof -
  let ?m = "ti_bits ids"
  have bw: "bits_wf ids ?m" by (rule ti_bits_wf)
  obtain anc where anc: "ti_loop ?m edges (ti_initial ids ?m) = Some anc" "ti_wf ids edges ?m anc" "ti_updates ?m edges anc = []"
    using ti_loop_total [OF bw ti_initial_wf [OF bw]] by blast
  let ?ti = "\<lparr>ti_ancestors = anc, ti_class_count = length ids, ti_id_to_bit = ?m\<rparr>"
  have closed: "pa ! i \<Longrightarrow> i < length ids \<Longrightarrow> ca ! i"
    if "(c, p) \<in> class_rel ids edges" "hm_get anc c = Some ca" "hm_get anc p = Some pa" for c p ca pa i
  proof -
    from that(1) have reg: "c \<in> set ids" "p \<in> set ids" and "(c, p) \<in> set edges" by (auto simp: class_rel_def)
    then have "edge_update ?m anc (c, p) = None"
      using anc(3) by (metis in_map_filter list.set(1) empty_iff not_Some_eq ti_updates_def)
    with edge_update_registered [OF bw anc(2) reg] that show "pa ! i \<Longrightarrow> i < length ids \<Longrightarrow> ca ! i"
      by (metis option.inject)
  qed
  have bit: "ca ! b" if "(c, p) \<in> (class_rel ids edges)\<^sup>*" "p \<in> set ids" "hm_get ?m p = Some b" "hm_get anc c = Some ca" for c p b ca
    using that
  proof (induction arbitrary: ca rule: converse_rtrancl_induct)
    case base
    with anc(2) show ?case unfolding ti_wf_def by (metis option.inject)
  next
    case (step c d)
    from step.hyps(1) have "d \<in> set ids" by (auto simp: class_rel_def)
    then obtain da where da: "hm_get anc d = Some da" using anc(2) unfolding ti_wf_def by (metis domD)
    have "b < length ids" using bw step.prems(2) by (auto simp: bits_wf_def)
    with closed [OF step.hyps(1) step.prems(3) da] step.IH [OF step.prems(1,2) da] show ?case by blast
  qed
  have "ti_is_subclass_of ?ti c p \<longleftrightarrow> c \<in> set ids \<and> p \<in> set ids \<and> (c, p) \<in> (class_rel ids edges)\<^sup>*" for c p
  proof (cases "c \<in> set ids \<and> p \<in> set ids")
    case True
    then obtain ca cb pb where g: "hm_get anc c = Some ca" "hm_get ?m c = Some cb" "hm_get ?m p = Some pb"
      using anc(2) bw unfolding ti_wf_def bits_wf_def by (metis domD)
    have "pb < length ids" "ids ! pb = p" using bw g(3) by (auto simp: bits_wf_def)
    then have "ca ! pb \<Longrightarrow> (c, p) \<in> (class_rel ids edges)\<^sup>*" using anc(2) g(1) by (auto simp: ti_wf_def)
    with bit True g show ?thesis by (auto simp: ti_is_subclass_of_def)
  next
    case False
    then have "hm_get ?m c = None \<or> hm_get ?m p = None" using bw by (auto simp: bits_wf_def)
    with False show ?thesis by (auto simp: ti_is_subclass_of_def split: option.splits)
  qed
  then show ?thesis using anc(1) by (auto simp: ti_build_def Let_def class_rel_def)
qed

end
