(* ===== verification/PriorityQueue.thy ===== *)
theory PriorityQueue
  imports Registry
begin

text \<open>
  The priority queue of \<open>src/src/fluent-concurrency/src/queue.rs\<close> and its bounded concurrent wrapper.

  The \<open>BTreeMap\<close> of buckets is the ordered association list of theory \<open>Registry\<close>; deques are lists.
  Priorities (\<open>i32\<close>) are integers: the code only compares them. The item counter is decremented only
  when an item was taken, and it counts the items (\<open>pq_wf\<close>), so it does not underflow.

  In the wrapper each critical section under the mutex is one step; \<open>push\<close> reads the closed flag before
  it takes the lock, so the two are separate steps. Waiting on a \<open>Notify\<close> is a retry of the section.
\<close>

section \<open>The queue\<close>

record 'a pqueue =
  pq_simple :: "'a list"
  pq_prioritized :: "(int, 'a list) keyed_registry"
  pq_count :: nat

definition pq_new :: "'a pqueue" where
  "pq_new = \<lparr>pq_simple = [], pq_prioritized = [], pq_count = 0\<rparr>"

definition bucket_of :: "(int, 'a list) keyed_registry \<Rightarrow> int \<Rightarrow> 'a list" where
  "bucket_of m k = (case kr_get m k of Some q \<Rightarrow> q | None \<Rightarrow> [])"

definition pq_push :: "'a pqueue \<Rightarrow> 'a \<Rightarrow> int \<Rightarrow> 'a pqueue" where
  "pq_push q item priority =
     (let q' = q\<lparr>pq_count := pq_count q + 1\<rparr>
      in if priority = 0 then q'\<lparr>pq_simple := pq_simple q @ [item]\<rparr>
         else q'\<lparr>pq_prioritized := bt_insert (pq_prioritized q) priority (bucket_of (pq_prioritized q) priority @ [item])\<rparr>)"

datatype pick = Positive int | Simple | Negative int | Empty

text \<open>\<open>last_key_value\<close>\<close>

definition last_key :: "(int, 'a list) keyed_registry \<Rightarrow> int option" where
  "last_key m = (if m = [] then None else Some (fst (last m)))"

definition pick_bucket :: "'a pqueue \<Rightarrow> pick" where
  "pick_bucket q =
     (case last_key (pq_prioritized q) of
        Some key \<Rightarrow>
          if key > 0 then Positive key
          else if pq_simple q \<noteq> [] then Simple
          else Negative key
      | None \<Rightarrow> if pq_simple q \<noteq> [] then Simple else Empty)"

definition pop_key :: "'a pqueue \<Rightarrow> int \<Rightarrow> ('a \<times> int) option \<times> 'a pqueue" where
  "pop_key q key =
     (case kr_get (pq_prioritized q) key of
        None \<Rightarrow> (None, q)
      | Some [] \<Rightarrow> (None, q\<lparr>pq_prioritized := bt_remove (pq_prioritized q) key\<rparr>)
      | Some (x # xs) \<Rightarrow>
          (Some (x, key),
           q\<lparr>pq_prioritized := (if xs = [] then bt_remove (pq_prioritized q) key else bt_insert (pq_prioritized q) key xs),
             pq_count := pq_count q - 1\<rparr>))"

definition pop_entry :: "'a pqueue \<Rightarrow> ('a \<times> int) option \<times> 'a pqueue" where
  "pop_entry q =
     (case pick_bucket q of
        Positive key \<Rightarrow> pop_key q key
      | Negative key \<Rightarrow> pop_key q key
      | Simple \<Rightarrow>
          (case pq_simple q of
             [] \<Rightarrow> (None, q)
           | x # xs \<Rightarrow> (Some (x, 0), q\<lparr>pq_simple := xs, pq_count := pq_count q - 1\<rparr>))
      | Empty \<Rightarrow> (None, q))"

definition pq_pop :: "'a pqueue \<Rightarrow> 'a option \<times> 'a pqueue" where
  "pq_pop q = (case pop_entry q of (r, q') \<Rightarrow> (map_option fst r, q'))"

definition peek_entry :: "'a pqueue \<Rightarrow> ('a \<times> int) option" where
  "peek_entry q =
     (let front = (\<lambda>key. case kr_get (pq_prioritized q) key of Some (x # _) \<Rightarrow> Some (x, key) | _ \<Rightarrow> None)
      in case pick_bucket q of
           Positive key \<Rightarrow> front key
         | Negative key \<Rightarrow> front key
         | Simple \<Rightarrow> (case pq_simple q of [] \<Rightarrow> None | x # _ \<Rightarrow> Some (x, 0))
         | Empty \<Rightarrow> None)"

definition pq_len :: "'a pqueue \<Rightarrow> nat" where
  "pq_len q = pq_count q"

definition pq_is_empty :: "'a pqueue \<Rightarrow> bool" where
  "pq_is_empty q \<longleftrightarrow> pq_count q = 0"

definition pq_items :: "'a pqueue \<Rightarrow> (int \<times> 'a) list" where
  "pq_items q = concat (map (\<lambda>(prio, queue). map (Pair prio) queue) (pq_prioritized q)) @ map (Pair 0) (pq_simple q)"

definition pq_into_iter :: "'a pqueue \<Rightarrow> (int \<times> 'a) list" where
  "pq_into_iter q = sort_key (\<lambda>b. - fst b) (pq_items q)"

definition pq_drain :: "'a pqueue \<Rightarrow> (int \<times> 'a) list \<times> 'a pqueue" where
  "pq_drain q = (sort_key (\<lambda>b. - fst b) (pq_items q), \<lparr>pq_simple = [], pq_prioritized = [], pq_count = 0\<rparr>)"

section \<open>Invariant\<close>

definition pq_wf :: "'a pqueue \<Rightarrow> bool" where
  "pq_wf q \<longleftrightarrow> sorted_wrt (<) (map fst (pq_prioritized q)) \<and>
     (\<forall>(k, b) \<in> set (pq_prioritized q). k \<noteq> 0 \<and> b \<noteq> []) \<and> pq_count q = length (pq_items q)"

text \<open>The items of one priority, in arrival order.\<close>

definition bucket :: "'a pqueue \<Rightarrow> int \<Rightarrow> 'a list" where
  "bucket q p = (if p = 0 then pq_simple q else bucket_of (pq_prioritized q) p)"

lemma items_of_prio:
  assumes "distinct (map fst m)"
  shows "map snd (filter (\<lambda>b. fst b = p) (concat (map (\<lambda>(prio, queue). map (Pair prio) queue) m))) = bucket_of m p"
  using assms
proof (induction m)
  case (Cons kb m)
  obtain k b where kb: "kb = (k, b)" by (cases kb)
  have pairs: "map snd (filter (\<lambda>b. fst b = p) (map (Pair k) b)) = (if k = p then b else [])"
    by (induction b) auto
  have "k = p \<Longrightarrow> bucket_of m p = []"
    using Cons.prems kb map_of_eq_None_iff [of m p] by (auto simp: bucket_of_def kr_get_def)
  with Cons pairs kb show ?case by (auto simp: bucket_of_def kr_get_def)
qed (simp add: bucket_of_def kr_get_def)

lemma bucket_items:
  assumes "pq_wf q"
  shows "map snd (filter (\<lambda>b. fst b = p) (pq_items q)) = bucket q p"
proof -
  have dist: "distinct (map fst (pq_prioritized q))" using assms by (simp add: pq_wf_def strict_sorted_iff)
  have zero: "bucket_of (pq_prioritized q) 0 = []"
    using assms by (auto simp: pq_wf_def bucket_of_def kr_get_def split: option.splits dest!: map_of_SomeD)
  have "map snd (filter (\<lambda>b. fst b = p) (map (Pair 0) (pq_simple q))) = (if p = 0 then pq_simple q else [])"
    by (induction "pq_simple q") (auto simp: filter_map comp_def)
  with items_of_prio [OF dist, of p] zero show ?thesis by (simp add: pq_items_def bucket_def)
qed

text \<open>A list in descending priority is determined by its items of each priority.\<close>

definition pq_view :: "'a pqueue \<Rightarrow> (int \<times> 'a) list \<Rightarrow> bool" where
  "pq_view q ys \<longleftrightarrow> sorted (map (\<lambda>b. - fst b) ys) \<and> (\<forall>p. map snd (filter (\<lambda>b. fst b = p) ys) = bucket q p)"

lemma map_snd_filter_eq:
  "map snd (filter (\<lambda>b. fst b = p) xs) = map snd (filter (\<lambda>b. fst b = p) ys) \<Longrightarrow>
     filter (\<lambda>b. fst b = p) xs = filter (\<lambda>b. fst b = p) ys"
proof -
  have pair: "filter (\<lambda>b. fst b = p) zs = map (Pair p) (map snd (filter (\<lambda>b. fst b = p) zs))" for zs
    by (induction zs) auto
  assume "map snd (filter (\<lambda>b. fst b = p) xs) = map snd (filter (\<lambda>b. fst b = p) ys)"
  then show ?thesis by (metis pair)
qed

lemma pq_view_unique:
  assumes "pq_view q xs" and "pq_view q ys"
  shows "xs = ys"
proof -
  have eq: "filter (\<lambda>b. fst b = p) xs = filter (\<lambda>b. fst b = p) ys" for p
    using assms by (intro map_snd_filter_eq) (simp add: pq_view_def)
  have "count (mset xs) x = count (mset ys) x" for x
  proof -
    have "count (mset zs) x = count (mset (filter (\<lambda>b. fst b = fst x) zs)) x" for zs by simp
    then show ?thesis using eq by metis
  qed
  then have "mset xs = mset ys" by (rule multiset_eqI)
  then have "sort_key (\<lambda>b. - fst b) xs = ys"
    using assms(2) eq by (intro properties_for_sort_key) (auto simp: pq_view_def eq_commute)
  moreover have "sort_key (\<lambda>b. - fst b) xs = xs"
    using assms(1) by (simp add: pq_view_def sorted_sort_id sort_key_id_if_sorted)
  ultimately show ?thesis by simp
qed

lemma pq_view_into_iter: "pq_wf q \<Longrightarrow> pq_view q (pq_into_iter q)"
proof -
  assume wf: "pq_wf q"
  have "filter (\<lambda>b. fst b = p) (pq_into_iter q) = filter (\<lambda>b. fst b = p) (pq_items q)" for p
    using sort_key_stable [of "\<lambda>b. - fst b" "- p" "pq_items q"] by (simp add: pq_into_iter_def)
  with wf show ?thesis by (simp add: pq_view_def bucket_items pq_into_iter_def)
qed

section \<open>Push and pop on the buckets\<close>

definition n_items :: "(int, 'a list) keyed_registry \<Rightarrow> nat" where
  "n_items m = sum_list (map (\<lambda>kb. length (snd kb)) m)"

lemma length_items: "length (pq_items q) = n_items (pq_prioritized q) + length (pq_simple q)"
proof -
  have "length (concat (map (\<lambda>(prio, queue). map (Pair prio) queue) m)) = n_items m" for m :: "(int, 'a list) keyed_registry"
    by (induction m) (auto simp: n_items_def)
  then show ?thesis by (simp add: pq_items_def)
qed

lemma bucket_of_absent: "k \<notin> fst ` set m \<Longrightarrow> bucket_of m k = []"
  using map_of_eq_None_iff [of m k] by (simp add: bucket_of_def kr_get_def)

lemma n_items_insert:
  "sorted_wrt (<) (map fst m) \<Longrightarrow> n_items (bt_insert m k v) + length (bucket_of m k) = n_items m + length v"
proof (induction m k v rule: bt_insert.induct)
  case (2 j w m k v)
  have absent: "k < j \<Longrightarrow> bucket_of ((j, w) # m) k = []"
    using "2.prems" by (intro bucket_of_absent) auto
  with 2 show ?case by (auto simp: n_items_def bucket_of_def kr_get_def)
qed (simp add: n_items_def bucket_of_def kr_get_def)

lemma n_items_remove:
  "distinct (map fst m) \<Longrightarrow> n_items (bt_remove m k) + length (bucket_of m k) = n_items m"
proof (induction m)
  case (Cons kb m)
  obtain j w where kb: "kb = (j, w)" by (cases kb)
  have "k = j \<Longrightarrow> bucket_of m k = [] \<and> bt_remove m k = m"
    using Cons.prems kb bucket_of_absent [of k m] by (auto simp: bt_remove_def filter_id_conv)
  with Cons kb show ?case by (auto simp: n_items_def bucket_of_def kr_get_def bt_remove_def)
qed (simp add: n_items_def bucket_of_def kr_get_def bt_remove_def)

lemma set_bt_insert: "set (bt_insert m k v) \<subseteq> insert (k, v) (set m)"
  by (induction m k v rule: bt_insert.induct) auto

lemma bucket_of_insert [simp]: "bucket_of (bt_insert m k v) j = (if j = k then v else bucket_of m j)"
  by (simp add: bucket_of_def bt.lookup_insert)

lemma bucket_of_remove [simp]: "bucket_of (bt_remove m k) j = (if j = k then [] else bucket_of m j)"
  by (simp add: bucket_of_def bt.lookup_remove)

lemma pq_push_bucket: "bucket (pq_push q x p) j = (if j = p then bucket q p @ [x] else bucket q j)"
  by (auto simp: pq_push_def bucket_def Let_def)

lemma pq_push_wf:
  assumes "pq_wf q"
  shows "pq_wf (pq_push q x p)"
proof -
  let ?m = "pq_prioritized q" and ?v = "bucket_of (pq_prioritized q) p @ [x]"
  have sorted: "sorted_wrt (<) (map fst ?m)" and ne: "\<forall>(k, b) \<in> set ?m. k \<noteq> 0 \<and> b \<noteq> []"
    and cnt: "pq_count q = length (pq_items q)"
    using assms by (auto simp: pq_wf_def)
  have "n_items (bt_insert ?m p ?v) = Suc (n_items ?m)"
    using n_items_insert [OF sorted, of p ?v] by simp
  moreover have "\<forall>(k, b) \<in> set (bt_insert ?m p ?v). k \<noteq> 0 \<and> b \<noteq> []" if "p \<noteq> 0"
    using that ne set_bt_insert [of ?m p ?v] by fastforce
  ultimately show ?thesis
    using sorted ne cnt bt_insert_sorted [OF sorted, of p ?v]
    by (simp add: pq_wf_def pq_push_def Let_def length_items)
qed

lemma last_key_max:
  assumes "sorted_wrt (<) (map fst m)" and "last_key m = Some k"
  shows "k \<in> fst ` set m" and "\<And>j. j \<in> fst ` set m \<Longrightarrow> j \<le> k"
proof -
  from assms(2) have ne: "m \<noteq> []" and k: "k = fst (last m)" by (auto simp: last_key_def split: if_splits)
  show "k \<in> fst ` set m" using ne k by simp
  have m: "map fst m = map fst (butlast m) @ [k]" using ne k by (metis append_butlast_last_id list.simps(8,9) map_append)
  show "j \<le> k" if "j \<in> fst ` set m" for j
  proof -
    from that m have "j \<in> set (map fst (butlast m) @ [k])" by (metis set_map)
    moreover have "sorted_wrt (<) (map fst (butlast m) @ [k])" using assms(1) m by simp
    ultimately show ?thesis by (auto simp: sorted_wrt_append)
  qed
qed

lemma pop_key_spec:
  assumes "pq_wf q" and "k \<in> fst ` set (pq_prioritized q)"
  obtains x q' where "pop_key q k = (Some (x, k), q')" and "pq_wf q'" and "bucket q k = x # bucket q' k"
    and "\<And>j. j \<noteq> k \<Longrightarrow> bucket q' j = bucket q j"
proof -
  let ?m = "pq_prioritized q"
  have sorted: "sorted_wrt (<) (map fst ?m)" and ne: "\<forall>(k, b) \<in> set ?m. k \<noteq> 0 \<and> b \<noteq> []"
    and cnt: "pq_count q = length (pq_items q)"
    using assms(1) by (auto simp: pq_wf_def)
  have dist: "distinct (map fst ?m)" using sorted by (simp add: strict_sorted_iff)
  from assms(2) obtain b where b: "kr_get ?m k = Some b" "(k, b) \<in> set ?m"
    using dist by (auto simp: kr_get_def)
  with ne obtain x xs where x: "b = x # xs" "k \<noteq> 0" by (cases b) auto
  let ?q = "q\<lparr>pq_prioritized := (if xs = [] then bt_remove ?m k else bt_insert ?m k xs), pq_count := pq_count q - 1\<rparr>"
  have bk: "bucket_of ?m k = x # xs" using b x by (simp add: bucket_of_def)
  have run: "pop_key q k = (Some (x, k), ?q)" using b x by (simp add: pop_key_def)
  have "length (pq_items ?q) = pq_count ?q"
    using n_items_insert [OF sorted, of k xs] n_items_remove [OF dist, of k] bk cnt by (auto simp: length_items)
  moreover have "\<forall>(k, b) \<in> set (pq_prioritized ?q). k \<noteq> 0 \<and> b \<noteq> []"
  proof (cases "xs = []")
    case True
    with ne show ?thesis by (auto simp: bt_remove_def)
  next
    case False
    then have "set (pq_prioritized ?q) \<subseteq> insert (k, xs) (set ?m)" using set_bt_insert [of ?m k xs] by simp
    with ne x(2) False show ?thesis by auto
  qed
  ultimately have "pq_wf ?q"
    using bt_insert_sorted [OF sorted] bt_remove_sorted [OF sorted] by (simp add: pq_wf_def)
  moreover have "bucket q k = x # bucket ?q k" using bk x by (simp add: bucket_def)
  moreover have "bucket ?q j = bucket q j" if "j \<noteq> k" for j using that by (simp add: bucket_def)
  ultimately show thesis using that run by blast
qed

lemma pop_entry_spec:
  assumes "pq_wf q"
  shows "case pop_entry q of
      (None, q') \<Rightarrow> q' = q \<and> (\<forall>p. bucket q p = [])
    | (Some (x, p), q') \<Rightarrow> pq_wf q' \<and> bucket q p = x # bucket q' p \<and> (\<forall>j. j \<noteq> p \<longrightarrow> bucket q' j = bucket q j) \<and>
        (\<forall>j > p. bucket q j = [])"
proof -
  let ?m = "pq_prioritized q"
  have sorted: "sorted_wrt (<) (map fst ?m)" and nz: "0 \<notin> fst ` set ?m" using assms by (auto simp: pq_wf_def)
  have top: "\<forall>j > k. j \<noteq> 0 \<longrightarrow> bucket q j = []" if "last_key ?m = Some k" for k
    using last_key_max(2) [OF sorted that] by (force simp: bucket_def intro: bucket_of_absent)
  have simple: "pop_entry q = (Some (x, 0), q\<lparr>pq_simple := xs, pq_count := pq_count q - 1\<rparr>)"
    if "pick_bucket q = Simple" "pq_simple q = x # xs" for x xs
    using that by (simp add: pop_entry_def)
  have wf_simple: "pq_wf (q\<lparr>pq_simple := xs, pq_count := pq_count q - 1\<rparr>)" if "pq_simple q = x # xs" for x xs
    using assms that by (simp add: pq_wf_def length_items)
  show ?thesis
  proof (cases "last_key ?m")
    case None
    then have "bucket_of ?m j = []" for j by (auto simp: last_key_def bucket_of_def kr_get_def split: if_splits)
    with None wf_simple simple show ?thesis
      by (cases "pq_simple q") (auto simp: pick_bucket_def pop_entry_def bucket_def)
  next
    case (Some k)
    have k: "k \<in> fst ` set ?m" by (rule last_key_max(1) [OF sorted Some])
    obtain x q' where pop: "pop_key q k = (Some (x, k), q')" "pq_wf q'" "bucket q k = x # bucket q' k"
      "\<And>j. j \<noteq> k \<Longrightarrow> bucket q' j = bucket q j"
      using pop_key_spec [OF assms k] by metis
    have "k \<noteq> 0" using k nz by metis
    then consider "k > 0" | "k < 0" "pq_simple q \<noteq> []" | "k < 0" "pq_simple q = []" by linarith
    then show ?thesis
    proof cases
      case 1
      with Some pop top [OF Some] show ?thesis by (auto simp: pop_entry_def pick_bucket_def)
    next
      case 2
      then obtain y ys where y: "pq_simple q = y # ys" by (cases "pq_simple q") auto
      have "pick_bucket q = Simple" using 2 Some by (simp add: pick_bucket_def)
      with y simple wf_simple top [OF Some] 2 show ?thesis by (auto simp: bucket_def)
    next
      case 3
      then have "bucket q j = []" if "j > k" for j using top [OF Some] that by (cases "j = 0") (auto simp: bucket_def)
      with 3 Some pop show ?thesis by (auto simp: pop_entry_def pick_bucket_def)
    qed
  qed
qed

text \<open>The queues a client can build.\<close>

inductive pq_reachable :: "'a pqueue \<Rightarrow> bool" where
  pq_start: "pq_reachable pq_new"
| pq_pushed: "pq_reachable q \<Longrightarrow> pq_reachable (pq_push q x p)"
| pq_popped: "pq_reachable q \<Longrightarrow> pq_reachable (snd (pop_entry q))"
| pq_drained: "pq_reachable q \<Longrightarrow> pq_reachable (snd (pq_drain q))"

lemma pq_wf_new: "pq_wf pq_new"
  by (simp add: pq_wf_def pq_new_def pq_items_def)

lemma pop_entry_wf: "pq_wf q \<Longrightarrow> pq_wf (snd (pop_entry q))"
  using pop_entry_spec [of q] by (auto split: prod.splits option.splits)

lemma pq_reachable_wf: "pq_reachable q \<Longrightarrow> pq_wf q"
proof (induction rule: pq_reachable.induct)
  case (pq_drained q)
  show ?case using pq_wf_new by (simp add: pq_drain_def pq_new_def)
qed (auto intro: pq_wf_new pq_push_wf pop_entry_wf)

text \<open>Joining a list kept in descending priority, behind everything at least as urgent.\<close>

definition enqueue :: "int \<Rightarrow> 'a \<Rightarrow> (int \<times> 'a) list \<Rightarrow> (int \<times> 'a) list" where
  "enqueue p x ys = takeWhile (\<lambda>b. p \<le> fst b) ys @ (p, x) # dropWhile (\<lambda>b. p \<le> fst b) ys"

lemma dropWhile_below:
  "sorted (map (\<lambda>b. - fst b) ys) \<Longrightarrow> b \<in> set (dropWhile (\<lambda>b. p \<le> fst b) ys) \<Longrightarrow> fst b < (p :: int)"
  by (induction ys) (auto split: if_splits)

lemma enqueue_view:
  assumes "pq_view q ys"
  shows "pq_view (pq_push q x p) (enqueue p x ys)"
proof -
  let ?t = "takeWhile (\<lambda>b. p \<le> fst b) ys" and ?d = "dropWhile (\<lambda>b. p \<le> fst b) ys"
  have sorted: "sorted (map (\<lambda>b. - fst b) ys)" using assms by (simp add: pq_view_def)
  then have parts: "sorted (map (\<lambda>b. - fst b) ?t)" "sorted (map (\<lambda>b. - fst b) ?d)"
    by (metis append_take_drop_id takeWhile_dropWhile_id map_append sorted_append)+
  have low: "fst b < p" if "b \<in> set ?d" for b using dropWhile_below [OF sorted that] .
  have high: "p \<le> fst b" if "b \<in> set ?t" for b using that by (auto dest: set_takeWhileD)
  have "sorted (map (\<lambda>b. - fst b) (enqueue p x ys))"
    using parts low high by (fastforce simp: enqueue_def sorted_append)
  moreover have "map snd (filter (\<lambda>b. fst b = j) (enqueue p x ys)) = bucket (pq_push q x p) j" for j
  proof -
    have split: "filter (\<lambda>b. fst b = j) ys = filter (\<lambda>b. fst b = j) ?t @ filter (\<lambda>b. fst b = j) ?d"
      by (metis filter_append takeWhile_dropWhile_id)
    have "filter (\<lambda>b. fst b = p) ?d = []" using low by (force simp: filter_empty_conv)
    moreover have "map snd (filter (\<lambda>b. fst b = j) ys) = bucket q j" using assms by (simp add: pq_view_def)
    ultimately show ?thesis using split by (auto simp: enqueue_def pq_push_bucket)
  qed
  ultimately show ?thesis by (simp add: pq_view_def)
qed

lemma pop_view:
  assumes "pq_wf q" and "pop_entry q = (Some (x, p), q')" and "pq_view q' ys"
  shows "pq_view q ((p, x) # ys)"
proof -
  have sp: "bucket q p = x # bucket q' p" "\<forall>j. j \<noteq> p \<longrightarrow> bucket q' j = bucket q j" "\<forall>j > p. bucket q j = []"
    using pop_entry_spec [OF assms(1)] assms(2) by auto
  have "fst b \<le> p" if "b \<in> set ys" for b
  proof (rule ccontr)
    assume "\<not> fst b \<le> p"
    then have "bucket q' (fst b) = []" using sp by auto
    then have "map snd (filter (\<lambda>c. fst c = fst b) ys) = []" using assms(3) by (simp only: pq_view_def)
    then have "filter (\<lambda>c. fst c = fst b) ys = []" by simp
    with that show False by (auto simp: filter_empty_conv)
  qed
  with assms(3) sp show ?thesis by (auto simp: pq_view_def)
qed

section \<open>The bounded queue\<close>

record 'a bounded_queue =
  bq_inner :: "'a pqueue"
  bq_capacity :: nat
  bq_closed :: bool

datatype pool_error = Full | Closed

definition bq_new :: "nat \<Rightarrow> 'a bounded_queue" where
  "bq_new capacity = \<lparr>bq_inner = pq_new, bq_capacity = capacity, bq_closed = False\<rparr>"

text \<open>The section of \<open>push\<close> under the lock, and the whole call run alone.\<close>

definition bq_push_locked :: "'a bounded_queue \<Rightarrow> 'a \<Rightarrow> int \<Rightarrow> pool_error + 'a bounded_queue" where
  "bq_push_locked b item priority =
     (if bq_capacity b \<le> pq_len (bq_inner b) then Inl Full
      else Inr (b\<lparr>bq_inner := pq_push (bq_inner b) item priority\<rparr>))"

definition bq_push :: "'a bounded_queue \<Rightarrow> 'a \<Rightarrow> int \<Rightarrow> pool_error + 'a bounded_queue" where
  "bq_push b item priority = (if bq_closed b then Inl Closed else bq_push_locked b item priority)"

text \<open>One turn of a waiting call: it returns, or waits and tries again.\<close>

datatype 'r turn = Return 'r | Wait

definition bq_push_wait_locked :: "'a bounded_queue \<Rightarrow> 'a \<Rightarrow> int \<Rightarrow> unit turn \<times> 'a bounded_queue" where
  "bq_push_wait_locked b item priority =
     (if pq_len (bq_inner b) < bq_capacity b
      then (Return (), b\<lparr>bq_inner := pq_push (bq_inner b) item priority\<rparr>)
      else (Wait, b))"

definition bq_pop_turn :: "'a bounded_queue \<Rightarrow> 'a option turn \<times> 'a bounded_queue" where
  "bq_pop_turn b =
     (case pq_pop (bq_inner b) of
        (Some item, q) \<Rightarrow> (Return (Some item), b\<lparr>bq_inner := q\<rparr>)
      | (None, q) \<Rightarrow> (if bq_closed b then Return None else Wait, b\<lparr>bq_inner := q\<rparr>))"

definition bq_close :: "'a bounded_queue \<Rightarrow> 'a bounded_queue" where
  "bq_close b = b\<lparr>bq_closed := True\<rparr>"

definition bq_len :: "'a bounded_queue \<Rightarrow> nat" where
  "bq_len b = pq_len (bq_inner b)"

definition bq_is_empty :: "'a bounded_queue \<Rightarrow> bool" where
  "bq_is_empty b \<longleftrightarrow> bq_len b = 0"

text \<open>
  Producers and consumers interleave at their critical sections. A producer that read the flag open may
  enter its section after the queue was closed. The lists record what went in and came out.
\<close>

record 'a bq_world =
  bw_queue :: "'a bounded_queue"
  bw_entering :: nat
  bw_in :: "(int \<times> 'a) list"
  bw_out :: "'a list"

inductive bq_step :: "'a bq_world \<Rightarrow> 'a bq_world \<Rightarrow> bool" where
  bq_check: "\<not> bq_closed (bw_queue w) \<Longrightarrow> bq_step w (w\<lparr>bw_entering := bw_entering w + 1\<rparr>)"
| bq_full: "bw_entering w > 0 \<Longrightarrow> bq_push_locked (bw_queue w) x p = Inl e \<Longrightarrow>
     bq_step w (w\<lparr>bw_entering := bw_entering w - 1\<rparr>)"
| bq_pushed: "bw_entering w > 0 \<Longrightarrow> bq_push_locked (bw_queue w) x p = Inr b \<Longrightarrow>
     bq_step w (w\<lparr>bw_queue := b, bw_entering := bw_entering w - 1, bw_in := bw_in w @ [(p, x)]\<rparr>)"
| bq_push_waited: "bw_entering w > 0 \<Longrightarrow> bq_push_wait_locked (bw_queue w) x p = (Return (), b) \<Longrightarrow>
     bq_step w (w\<lparr>bw_queue := b, bw_entering := bw_entering w - 1, bw_in := bw_in w @ [(p, x)]\<rparr>)"
| bq_push_waits: "bw_entering w > 0 \<Longrightarrow> bq_push_wait_locked (bw_queue w) x p = (Wait, b) \<Longrightarrow>
     bq_step w (w\<lparr>bw_queue := b, bw_entering := bw_entering w - 1\<rparr>)"
| bq_popped: "bq_pop_turn (bw_queue w) = (Return (Some x), b) \<Longrightarrow>
     bq_step w (w\<lparr>bw_queue := b, bw_out := bw_out w @ [x]\<rparr>)"
| bq_closing: "bq_step w (w\<lparr>bw_queue := bq_close (bw_queue w)\<rparr>)"

inductive_cases bq_stepE: "bq_step w w'"

definition bq_world0 :: "nat \<Rightarrow> 'a bq_world" where
  "bq_world0 capacity = \<lparr>bw_queue = bq_new capacity, bw_entering = 0, bw_in = [], bw_out = []\<rparr>"

definition bq_inv :: "nat \<Rightarrow> 'a bq_world \<Rightarrow> bool" where
  "bq_inv capacity w \<longleftrightarrow> bq_capacity (bw_queue w) = capacity \<and> pq_wf (bq_inner (bw_queue w)) \<and>
     bq_len (bw_queue w) \<le> capacity \<and>
     mset (map snd (bw_in w)) = mset (bw_out w) + mset (map snd (pq_items (bq_inner (bw_queue w))))"

lemma into_iter_push: "pq_wf q \<Longrightarrow> pq_into_iter (pq_push q x p) = enqueue p x (pq_into_iter q)"
  by (rule pq_view_unique [OF pq_view_into_iter [OF pq_push_wf] enqueue_view [OF pq_view_into_iter]])

lemma into_iter_pop:
  assumes "pq_wf q" and "pop_entry q = (Some (x, p), q')"
  shows "pq_into_iter q = (p, x) # pq_into_iter q'"
proof -
  have "pq_wf q'" using pop_entry_wf [OF assms(1)] assms(2) by simp
  then show ?thesis
    by (rule pq_view_unique [OF pq_view_into_iter [OF assms(1)] pop_view [OF assms pq_view_into_iter]])
qed

lemma into_iter_empty:
  assumes "pq_wf q" and "\<And>p. bucket q p = []"
  shows "pq_into_iter q = []"
proof -
  have "pq_view q []" using assms(2) by (simp add: pq_view_def)
  then show ?thesis by (rule pq_view_unique [OF pq_view_into_iter [OF assms(1)]])
qed

lemma mset_items: "mset (pq_items q) = mset (pq_into_iter q)"
  by (simp add: pq_into_iter_def)

lemma mset_enqueue: "mset (enqueue p x ys) = add_mset (p, x) (mset ys)"
proof -
  have "mset ys = mset (takeWhile (\<lambda>b. p \<le> fst b) ys) + mset (dropWhile (\<lambda>b. p \<le> fst b) ys)"
    by (metis mset_append takeWhile_dropWhile_id)
  then show ?thesis by (simp add: enqueue_def)
qed

lemma mset_push: "pq_wf q \<Longrightarrow> mset (pq_items (pq_push q x p)) = add_mset (p, x) (mset (pq_items q))"
  by (simp add: mset_items into_iter_push mset_enqueue)

lemma pq_push_count: "pq_count (pq_push q x p) = Suc (pq_count q)"
  by (simp add: pq_push_def Let_def)

lemma bq_inv_step: "bq_step w w' \<Longrightarrow> bq_inv capacity w \<Longrightarrow> bq_inv capacity w'"
proof (induction rule: bq_step.induct)
  case (bq_popped w x b)
  let ?q = "bq_inner (bw_queue w)"
  from bq_popped obtain p q' where pop: "pop_entry ?q = (Some (x, p), q')" and b: "b = (bw_queue w)\<lparr>bq_inner := q'\<rparr>"
    by (auto simp: bq_pop_turn_def pq_pop_def split: prod.splits option.splits if_splits)
  have wf: "pq_wf ?q" using bq_popped.prems by (simp add: bq_inv_def)
  have iter: "pq_into_iter ?q = (p, x) # pq_into_iter q'" by (rule into_iter_pop [OF wf pop])
  have wf': "pq_wf q'" using pop_entry_wf [OF wf] pop by simp
  have "length (pq_items ?q) = Suc (length (pq_items q'))"
    using arg_cong [OF iter, of length] by (simp add: pq_into_iter_def)
  moreover have "mset (pq_items ?q) = add_mset (p, x) (mset (pq_items q'))"
    by (simp add: mset_items iter)
  ultimately show ?case
    using bq_popped.prems wf wf' b by (simp add: bq_inv_def bq_len_def pq_len_def pq_wf_def)
next
  case (bq_pushed w x p b)
  then show ?case
    using mset_push [of "bq_inner (bw_queue w)" x p]
    by (auto simp: bq_inv_def bq_push_locked_def bq_len_def pq_len_def pq_push_wf pq_push_count split: if_splits)
next
  case (bq_push_waited w x p b)
  then show ?case
    using mset_push [of "bq_inner (bw_queue w)" x p]
    by (auto simp: bq_inv_def bq_push_wait_locked_def bq_len_def pq_len_def pq_push_wf pq_push_count split: if_splits)
qed (auto simp: bq_inv_def bq_push_wait_locked_def bq_close_def bq_len_def split: if_splits)

lemma bq_inv_start: "bq_inv capacity (bq_world0 capacity)"
  by (simp add: bq_inv_def bq_world0_def bq_new_def pq_wf_new bq_len_def pq_len_def) (simp add: pq_new_def pq_items_def)

lemma bq_inv_reach: "bq_step\<^sup>*\<^sup>* (bq_world0 capacity) w \<Longrightarrow> bq_inv capacity w"
  by (induction rule: rtranclp_induct) (auto intro: bq_inv_start bq_inv_step)

section \<open>Properties\<close>

text \<open>
  C18. Read in its iteration order, the queue is a list in descending priority: \<open>push\<close> puts the item
  behind everything at least as urgent, \<open>pop\<close> and \<open>peek\<close> give its head and nothing exactly when it is
  empty, \<open>len\<close> is its length and \<open>drain\<close> empties it. So items leave by priority, first in first out
  within a priority, and priority zero ranks between the positive and the negative ones.
\<close>

theorem priority_queue_refines_list:
  assumes "pq_reachable q"
  shows "pq_into_iter (pq_push q x p) = enqueue p x (pq_into_iter q) \<and>
    pq_len q = length (pq_into_iter q) \<and>
    (case pq_into_iter q of
       [] \<Rightarrow> pop_entry q = (None, q) \<and> peek_entry q = None
     | (p, x) # rest \<Rightarrow> peek_entry q = Some (x, p) \<and>
         (\<exists>q'. pop_entry q = (Some (x, p), q') \<and> pq_into_iter q' = rest)) \<and>
    fst (pq_drain q) = pq_into_iter q \<and> pq_into_iter (snd (pq_drain q)) = []"
proof -
  have wf: "pq_wf q" using assms by (rule pq_reachable_wf)
  have peek: "peek_entry q = fst (pop_entry q)"
    by (auto simp: peek_entry_def pop_entry_def pop_key_def Let_def split: pick.split option.split list.split)
  have "case pq_into_iter q of
       [] \<Rightarrow> pop_entry q = (None, q) \<and> peek_entry q = None
     | (p, x) # rest \<Rightarrow> peek_entry q = Some (x, p) \<and>
         (\<exists>q'. pop_entry q = (Some (x, p), q') \<and> pq_into_iter q' = rest)"
  proof (cases "pop_entry q")
    case (Pair r q')
    show ?thesis
    proof (cases r)
      case None
      with pop_entry_spec [OF wf] Pair have "q' = q" "\<And>p. bucket q p = []" by simp_all
      with into_iter_empty [OF wf] None Pair peek show ?thesis by simp
    next
      case (Some xp)
      then obtain x p where "pop_entry q = (Some (x, p), q')" using Pair by (cases xp) auto
      with into_iter_pop [OF wf this] peek show ?thesis by simp
    qed
  qed
  moreover have "pq_len q = length (pq_into_iter q)"
    using wf by (simp add: pq_len_def pq_wf_def pq_into_iter_def)
  ultimately show ?thesis
    by (simp add: into_iter_push [OF wf]) (simp add: pq_drain_def pq_into_iter_def pq_items_def)
qed

definition sample_queue :: "string pqueue" where
  "sample_queue = pq_push (pq_push (pq_push (pq_push pq_new ''idle'' (- 2)) ''a'' 0) ''now'' 5) ''b'' 0"

lemma sample_queue_reachable: "pq_reachable sample_queue"
  unfolding sample_queue_def by (intro pq_pushed pq_start)

theorem priority_queue_refines_list_witness:
  "pq_into_iter sample_queue = [(5, ''now''), (0, ''a''), (0, ''b''), (- 2, ''idle'')] \<and>
   peek_entry sample_queue = Some (''now'', 5) \<and> pq_len sample_queue = 4"
proof -
  have iter: "pq_into_iter sample_queue = [(5, ''now''), (0, ''a''), (0, ''b''), (- 2, ''idle'')]" by code_simp
  from priority_queue_refines_list [OF sample_queue_reachable] show ?thesis by (simp add: iter)
qed

text \<open>
  C19. Whatever the interleaving of producers, waiting producers, consumers and the closer, the
  bounded queue never holds more than its capacity, and no item is lost or duplicated: what was pushed is
  what was popped and what is still queued. A consumer gets \<open>None\<close> only when the queue is closed and empty.
\<close>

theorem bounded_queue_safe:
  assumes "bq_step\<^sup>*\<^sup>* (bq_world0 capacity) w"
  shows "bq_len (bw_queue w) \<le> capacity \<and> bq_len (bw_queue w) = length (pq_into_iter (bq_inner (bw_queue w))) \<and>
    mset (map snd (bw_in w)) = mset (bw_out w) + mset (map snd (pq_into_iter (bq_inner (bw_queue w)))) \<and>
    (fst (bq_pop_turn (bw_queue w)) = Return None \<longleftrightarrow> bq_closed (bw_queue w) \<and> pq_into_iter (bq_inner (bw_queue w)) = [])"
proof -
  let ?q = "bq_inner (bw_queue w)"
  have inv: "bq_inv capacity w" using assms by (rule bq_inv_reach)
  then have wf: "pq_wf ?q" by (simp add: bq_inv_def)
  have "fst (pop_entry ?q) = None \<longleftrightarrow> pq_into_iter ?q = []"
  proof (cases "pop_entry ?q")
    case (Pair r q')
    show ?thesis
    proof (cases r)
      case None
      with pop_entry_spec [OF wf] Pair into_iter_empty [OF wf] show ?thesis by simp
    next
      case (Some xp)
      then obtain x p where "pop_entry ?q = (Some (x, p), q')" using Pair by (cases xp) auto
      with into_iter_pop [OF wf this] show ?thesis by simp
    qed
  qed
  then have "fst (bq_pop_turn (bw_queue w)) = Return None \<longleftrightarrow> bq_closed (bw_queue w) \<and> pq_into_iter ?q = []"
    by (auto simp: bq_pop_turn_def pq_pop_def split: prod.splits option.splits)
  moreover have "bq_len (bw_queue w) = length (pq_into_iter ?q)"
    using wf by (simp add: bq_len_def pq_len_def pq_wf_def pq_into_iter_def)
  ultimately show ?thesis using inv by (simp add: bq_inv_def mset_items)
qed

definition one_slot_world :: "nat bq_world" where
  "one_slot_world = \<lparr>bw_queue = (bq_new 1)\<lparr>bq_inner := pq_push pq_new 7 3\<rparr>, bw_entering = 0, bw_in = [(3, 7)], bw_out = []\<rparr>"

theorem bounded_queue_safe_witness: "bq_len (bw_queue one_slot_world) \<le> 1"
proof -
  have "bq_step (bq_world0 1) ((bq_world0 1)\<lparr>bw_entering := 1\<rparr> :: nat bq_world)"
    using bq_check [of "bq_world0 1 :: nat bq_world"] by (simp add: bq_world0_def bq_new_def)
  moreover have "bq_step ((bq_world0 1)\<lparr>bw_entering := 1\<rparr>) one_slot_world"
    using bq_pushed [of "(bq_world0 1)\<lparr>bw_entering := 1\<rparr>" 7 3 "(bq_new 1)\<lparr>bq_inner := pq_push pq_new 7 3\<rparr>"]
    by (simp add: bq_world0_def bq_new_def bq_push_locked_def one_slot_world_def pq_len_def pq_new_def)
  ultimately have "bq_step\<^sup>*\<^sup>* (bq_world0 1) one_slot_world" by simp
  from bounded_queue_safe [OF this] show ?thesis by simp
qed

end
