(* ===== verification/CreditFlow.thy ===== *)
theory CreditFlow
  imports Prelude
begin

text \<open>
  Credit-based backpressure: \<open>src/src/fluent-concurrency/src/flow.rs\<close> and the credit-gated pool of
  \<open>credit_pool.rs\<close> built on it.

  A sender spends one credit per accepted job and waits for a bump when it has none; a receiver counts
  finished jobs and sends a bump of \<open>more_after\<close> credits each time its counter reaches that number. The
  counter is an atomic, and \<open>recv\<close> touches it twice: \<open>fetch_add\<close>, then \<open>store(0)\<close> before the bump is
  sent. The three accesses are three steps of a worker, and the step relation interleaves the workers of
  the pool. The worker pool behind the gate is abstracted to the number of accepted jobs whose handler
  has not finished.
\<close>

section \<open>The flow\<close>

record credit_spec =
  cs_initial :: nat
  cs_more_after :: nat

record credit_flow =
  cf_credit :: int
  cf_blocked :: bool
  cf_bumps :: "nat list"
  cf_counter :: nat

definition flow_new :: "credit_spec \<Rightarrow> credit_flow" where
  "flow_new spec = \<lparr>cf_credit = int (cs_initial spec), cf_blocked = False, cf_bumps = [], cf_counter = 0\<rparr>"

text \<open>A turn of the loop in \<open>send\<close>: spend a credit and go on to run the job, or fall to the wait.\<close>

definition flow_try_send :: "credit_flow \<Rightarrow> bool \<times> credit_flow" where
  "flow_try_send f =
     (if cf_credit f > 0 then (True, f\<lparr>cf_credit := cf_credit f - 1\<rparr>)
      else (False, f\<lparr>cf_blocked := True\<rparr>))"

definition flow_take_bump :: "credit_flow \<Rightarrow> credit_flow option" where
  "flow_take_bump f =
     (case cf_bumps f of
        [] \<Rightarrow> None
      | amount # rest \<Rightarrow>
          Some (f\<lparr>cf_bumps := rest, cf_credit := cf_credit f + int amount, cf_blocked := False\<rparr>))"

definition flow_is_blocked :: "credit_flow \<Rightarrow> bool" where
  "flow_is_blocked f = cf_blocked f"

definition flow_current_credit :: "credit_flow \<Rightarrow> int" where
  "flow_current_credit f = cf_credit f"

text \<open>The accesses of \<open>recv\<close>: \<open>fetch_add\<close> with the test on its result, the store, the send.\<close>

definition recv_add :: "credit_spec \<Rightarrow> credit_flow \<Rightarrow> bool \<times> credit_flow" where
  "recv_add spec f =
     (let prev = cf_counter f
      in (cs_more_after spec \<le> prev + 1, f\<lparr>cf_counter := prev + 1\<rparr>))"

definition recv_store :: "credit_flow \<Rightarrow> credit_flow" where
  "recv_store f = f\<lparr>cf_counter := 0\<rparr>"

definition recv_send :: "credit_spec \<Rightarrow> credit_flow \<Rightarrow> credit_flow" where
  "recv_send spec f = f\<lparr>cf_bumps := cf_bumps f @ [cs_more_after spec]\<rparr>"

text \<open>The call when no other worker runs in between.\<close>

definition flow_recv :: "credit_spec \<Rightarrow> credit_flow \<Rightarrow> credit_flow" where
  "flow_recv spec f =
     (case recv_add spec f of
        (reached, f') \<Rightarrow> if reached then recv_send spec (recv_store f') else f')"

section \<open>The gated pool\<close>

definition gate_spec :: "nat \<Rightarrow> credit_spec" where
  "gate_spec credit_limit = \<lparr>cs_initial = max credit_limit 1, cs_more_after = max (credit_limit div 2) 1\<rparr>"

definition WORKER_CAP :: nat where
  "WORKER_CAP = 2"

datatype recv_pc = Idle | Storing | Sending

record gate =
  ga_flow :: credit_flow
  ga_open :: bool
  ga_inflight :: nat
  ga_pc :: "nat \<Rightarrow> recv_pc"

definition gate_new :: "nat \<Rightarrow> gate" where
  "gate_new credit_limit =
     \<lparr>ga_flow = flow_new (gate_spec credit_limit), ga_open = True, ga_inflight = 0, ga_pc = (\<lambda>_. Idle)\<rparr>"

text \<open>Producers submit, workers finish jobs and report them; \<open>workers\<close> of them exist.\<close>

inductive gate_step :: "credit_spec \<Rightarrow> nat \<Rightarrow> gate \<Rightarrow> gate \<Rightarrow> bool" for spec workers where
  g_send: "ga_open g \<Longrightarrow> flow_try_send (ga_flow g) = (True, f) \<Longrightarrow>
     gate_step spec workers g (g\<lparr>ga_flow := f, ga_inflight := ga_inflight g + 1\<rparr>)"
| g_block: "ga_open g \<Longrightarrow> flow_try_send (ga_flow g) = (False, f) \<Longrightarrow> gate_step spec workers g (g\<lparr>ga_flow := f\<rparr>)"
| g_bump: "flow_take_bump (ga_flow g) = Some f \<Longrightarrow> gate_step spec workers g (g\<lparr>ga_flow := f\<rparr>)"
| g_add: "i < workers \<Longrightarrow> ga_pc g i = Idle \<Longrightarrow> ga_inflight g > 0 \<Longrightarrow> recv_add spec (ga_flow g) = (reached, f) \<Longrightarrow>
     gate_step spec workers g
       (g\<lparr>ga_flow := f, ga_inflight := ga_inflight g - 1, ga_pc := (ga_pc g)(i := if reached then Storing else Idle)\<rparr>)"
| g_store: "i < workers \<Longrightarrow> ga_pc g i = Storing \<Longrightarrow>
     gate_step spec workers g (g\<lparr>ga_flow := recv_store (ga_flow g), ga_pc := (ga_pc g)(i := Sending)\<rparr>)"
| g_sent: "i < workers \<Longrightarrow> ga_pc g i = Sending \<Longrightarrow>
     gate_step spec workers g (g\<lparr>ga_flow := recv_send spec (ga_flow g), ga_pc := (ga_pc g)(i := Idle)\<rparr>)"
| g_drain: "gate_step spec workers g (g\<lparr>ga_open := False\<rparr>)"

inductive_cases gate_stepE: "gate_step spec workers g g'"

text \<open>With one worker the credits, the pending bumps, the counted and the running jobs always add up.\<close>

definition one_worker_inv :: "credit_spec \<Rightarrow> gate \<Rightarrow> bool" where
  "one_worker_inv spec g \<longleftrightarrow>
     0 < cs_more_after spec \<and> 0 \<le> cf_credit (ga_flow g) \<and>
     cf_credit (ga_flow g) + int (sum_list (cf_bumps (ga_flow g))) + int (ga_inflight g) +
       int (if ga_pc g 0 = Sending then cs_more_after spec else cf_counter (ga_flow g)) = int (cs_initial spec) \<and>
     (case ga_pc g 0 of
        Idle \<Rightarrow> cf_counter (ga_flow g) < cs_more_after spec
      | Storing \<Rightarrow> cf_counter (ga_flow g) = cs_more_after spec
      | Sending \<Rightarrow> cf_counter (ga_flow g) = 0)"

lemma one_worker_inv_step:
  "gate_step spec 1 g g' \<Longrightarrow> one_worker_inv spec g \<Longrightarrow> one_worker_inv spec g'"
proof (induction rule: gate_step.induct)
  case (g_send g f)
  then show ?case by (auto simp: one_worker_inv_def flow_try_send_def split: if_splits recv_pc.splits)
next
  case (g_block g f)
  then show ?case by (auto simp: one_worker_inv_def flow_try_send_def split: if_splits recv_pc.splits)
next
  case (g_bump g f)
  then show ?case by (auto simp: one_worker_inv_def flow_take_bump_def split: list.splits if_splits recv_pc.splits)
next
  case (g_add i g reached f)
  then show ?case by (auto simp: one_worker_inv_def recv_add_def Let_def split: if_splits)
next
  case (g_store i g)
  then show ?case by (auto simp: one_worker_inv_def recv_store_def)
next
  case (g_sent i g)
  then show ?case by (auto simp: one_worker_inv_def recv_send_def)
next
  case (g_drain g)
  then show ?case by (auto simp: one_worker_inv_def split: recv_pc.splits)
qed

lemma one_worker_inv_start: "one_worker_inv (gate_spec limit) (gate_new limit)"
  by (simp add: one_worker_inv_def gate_new_def flow_new_def gate_spec_def)

lemma one_worker_inv_reach:
  "(gate_step (gate_spec limit) 1)\<^sup>*\<^sup>* (gate_new limit) g \<Longrightarrow> one_worker_inv (gate_spec limit) g"
  by (induction rule: rtranclp_induct) (auto intro: one_worker_inv_start one_worker_inv_step)

section \<open>Properties\<close>

text \<open>
  When the reports of finished jobs do not overlap (one worker), the gate never has more than \<open>max(credit_limit, 1)\<close>
  jobs accepted and unfinished.
\<close>

lemma one_worker_bounds:
  assumes "(gate_step (gate_spec limit) 1)\<^sup>*\<^sup>* (gate_new limit) g"
  shows "ga_inflight g \<le> max limit 1 \<and>
    (ga_inflight g = 0 \<and> ga_pc g 0 = Idle \<longrightarrow> cf_credit (ga_flow g) > 0 \<or> flow_take_bump (ga_flow g) \<noteq> None)"
proof -
  have inv: "one_worker_inv (gate_spec limit) g" using assms by (rule one_worker_inv_reach)
  have m: "cs_more_after (gate_spec limit) \<le> cs_initial (gate_spec limit)" by (simp add: gate_spec_def max_def)
  have init: "cs_initial (gate_spec limit) = max limit 1" by (simp add: gate_spec_def)
  have "ga_inflight g \<le> max limit 1"
    using inv unfolding one_worker_inv_def init by (auto split: recv_pc.splits)
  moreover have "cf_credit (ga_flow g) > 0 \<or> cf_bumps (ga_flow g) \<noteq> []" if "ga_inflight g = 0" "ga_pc g 0 = Idle"
    using inv m that unfolding one_worker_inv_def by (cases "cf_bumps (ga_flow g)") auto
  ultimately show ?thesis by (auto simp: flow_take_bump_def split: list.splits)
qed

section \<open>Any number of workers\<close>

text \<open>
  The workers that have reached the threshold and not yet sent their bump, and those of them that have not yet reset the
  counter. Reports may overlap: then a threshold is reached more than once and counted reports are dropped by a store,
  but every extra bump makes up for the reports it drops.
\<close>

definition count_pc :: "(recv_pc \<Rightarrow> bool) \<Rightarrow> nat \<Rightarrow> (nat \<Rightarrow> recv_pc) \<Rightarrow> nat" where
  "count_pc P workers pcs = (\<Sum>i < workers. if P (pcs i) then 1 else 0)"

definition pending :: "nat \<Rightarrow> gate \<Rightarrow> nat" where
  "pending workers g = count_pc (\<lambda>pc. pc \<noteq> Idle) workers (ga_pc g)"

definition storing :: "nat \<Rightarrow> gate \<Rightarrow> nat" where
  "storing workers g = count_pc (\<lambda>pc. pc = Storing) workers (ga_pc g)"

definition gate_credits :: "credit_spec \<Rightarrow> nat \<Rightarrow> gate \<Rightarrow> int" where
  "gate_credits spec workers g =
     cf_credit (ga_flow g) + int (sum_list (cf_bumps (ga_flow g))) + int (ga_inflight g) +
     int (cs_more_after spec) * int (pending workers g)"

definition gate_inv :: "credit_spec \<Rightarrow> nat \<Rightarrow> gate \<Rightarrow> bool" where
  "gate_inv spec workers g \<longleftrightarrow>
     0 < cs_more_after spec \<and> 0 \<le> cf_credit (ga_flow g) \<and>
     int (cs_initial spec) + int (storing workers g) * (int (cs_more_after spec) - 1) \<le>
       gate_credits spec workers g + min (int (cf_counter (ga_flow g))) (int (cs_more_after spec) - 1)"

lemma count_pc_update:
  assumes "i < workers"
  shows "count_pc P workers (pcs(i := v)) + (if P (pcs i) then 1 else 0) = count_pc P workers pcs + (if P v then 1 else 0)"
proof -
  have i: "i \<in> {..<workers}" using assms by simp
  have "(\<Sum>j \<in> {..<workers} - {i}. if P ((pcs(i := v)) j) then 1 else 0) = (\<Sum>j \<in> {..<workers} - {i}. if P (pcs j) then 1 else (0 :: nat))"
    by (rule sum.cong) auto
  then show ?thesis by (simp add: count_pc_def sum.remove [OF finite_lessThan i])
qed

lemma pending_update:
  "i < workers \<Longrightarrow> pending workers (g\<lparr>ga_pc := (ga_pc g)(i := v)\<rparr>) + (if ga_pc g i \<noteq> Idle then 1 else 0) =
     pending workers g + (if v \<noteq> Idle then 1 else 0)"
  using count_pc_update [of i workers "\<lambda>pc. pc \<noteq> Idle" "ga_pc g" v] by (simp add: pending_def)

lemma storing_update:
  "i < workers \<Longrightarrow> storing workers (g\<lparr>ga_pc := (ga_pc g)(i := v)\<rparr>) + (if ga_pc g i = Storing then 1 else 0) =
     storing workers g + (if v = Storing then 1 else 0)"
  using count_pc_update [of i workers "\<lambda>pc. pc = Storing" "ga_pc g" v] by (simp add: storing_def)

lemma pc_counts_cong [simp]:
  "pending workers (g\<lparr>ga_flow := f, ga_inflight := n, ga_pc := pcs\<rparr>) = pending workers (g\<lparr>ga_pc := pcs\<rparr>)"
  "pending workers (g\<lparr>ga_flow := f, ga_pc := pcs\<rparr>) = pending workers (g\<lparr>ga_pc := pcs\<rparr>)"
  "pending workers (g\<lparr>ga_flow := f, ga_inflight := n\<rparr>) = pending workers g"
  "pending workers (g\<lparr>ga_flow := f\<rparr>) = pending workers g" "pending workers (g\<lparr>ga_open := b\<rparr>) = pending workers g"
  "storing workers (g\<lparr>ga_flow := f, ga_inflight := n, ga_pc := pcs\<rparr>) = storing workers (g\<lparr>ga_pc := pcs\<rparr>)"
  "storing workers (g\<lparr>ga_flow := f, ga_pc := pcs\<rparr>) = storing workers (g\<lparr>ga_pc := pcs\<rparr>)"
  "storing workers (g\<lparr>ga_flow := f, ga_inflight := n\<rparr>) = storing workers g"
  "storing workers (g\<lparr>ga_flow := f\<rparr>) = storing workers g" "storing workers (g\<lparr>ga_open := b\<rparr>) = storing workers g"
  by (simp_all add: pending_def storing_def)

lemma gate_inv_step: "gate_step spec workers g g' \<Longrightarrow> gate_inv spec workers g \<Longrightarrow> gate_inv spec workers g'"
proof (induction rule: gate_step.induct)
  case (g_add i g reached f)
  note pend = pending_update [OF g_add(1), of g] and stor = storing_update [OF g_add(1), of g]
  show ?case
  proof (cases reached)
    case True
    then have f: "f = (ga_flow g)\<lparr>cf_counter := cf_counter (ga_flow g) + 1\<rparr>"
      and c: "cs_more_after spec \<le> cf_counter (ga_flow g) + 1" using g_add(4) by (auto simp: recv_add_def Let_def)
    have p: "pending workers (g\<lparr>ga_pc := (ga_pc g)(i := Storing)\<rparr>) = pending workers g + 1"
      and s: "storing workers (g\<lparr>ga_pc := (ga_pc g)(i := Storing)\<rparr>) = storing workers g + 1"
      using pend [of Storing] stor [of Storing] g_add(2) by simp_all
    show ?thesis using g_add(3,5) c True by (simp add: gate_inv_def gate_credits_def f p s algebra_simps)
  next
    case False
    then have f: "f = (ga_flow g)\<lparr>cf_counter := cf_counter (ga_flow g) + 1\<rparr>"
      and c: "cf_counter (ga_flow g) + 1 < cs_more_after spec" using g_add(4) by (auto simp: recv_add_def Let_def)
    have p: "pending workers (g\<lparr>ga_pc := (ga_pc g)(i := Idle)\<rparr>) = pending workers g"
      and s: "storing workers (g\<lparr>ga_pc := (ga_pc g)(i := Idle)\<rparr>) = storing workers g"
      using pend [of Idle] stor [of Idle] g_add(2) by simp_all
    show ?thesis using g_add(3,5) c False by (simp add: gate_inv_def gate_credits_def f p s algebra_simps)
  qed
next
  case (g_store i g)
  then have p: "pending workers (g\<lparr>ga_pc := (ga_pc g)(i := Sending)\<rparr>) = pending workers g"
    and s: "storing workers g = storing workers (g\<lparr>ga_pc := (ga_pc g)(i := Sending)\<rparr>) + 1"
    using pending_update [OF g_store(1), of g Sending] storing_update [OF g_store(1), of g Sending] by simp_all
  show ?case using g_store(3) min.cobounded2 [of "int (cf_counter (ga_flow g))" "int (cs_more_after spec) - 1"]
    by (simp add: gate_inv_def gate_credits_def recv_store_def p s algebra_simps)
next
  case (g_sent i g)
  then have p: "pending workers g = pending workers (g\<lparr>ga_pc := (ga_pc g)(i := Idle)\<rparr>) + 1"
    and s: "storing workers (g\<lparr>ga_pc := (ga_pc g)(i := Idle)\<rparr>) = storing workers g"
    using pending_update [OF g_sent(1), of g Idle] storing_update [OF g_sent(1), of g Idle] by simp_all
  show ?case using g_sent(3) by (simp add: gate_inv_def gate_credits_def recv_send_def p s algebra_simps)
qed (auto simp: gate_inv_def gate_credits_def flow_try_send_def flow_take_bump_def split: if_splits list.splits)

lemma gate_inv_start: "gate_inv (gate_spec limit) workers (gate_new limit)"
  by (simp add: gate_inv_def gate_credits_def pending_def storing_def count_pc_def gate_new_def flow_new_def gate_spec_def)

lemma gate_inv_reach:
  "(gate_step (gate_spec limit) workers)\<^sup>*\<^sup>* (gate_new limit) g \<Longrightarrow> gate_inv (gate_spec limit) workers g"
  by (induction rule: rtranclp_induct) (auto intro: gate_inv_start gate_inv_step)

section \<open>Property\<close>

text \<open>
  C20. However the reports of the pool's two workers overlap, no credit is ever lost for good: while no report is in
  progress, the credits at hand, those in bumps not yet taken and the unfinished jobs together are more than
  \<open>max(credit_limit, 1)\<close> less one threshold. So the gate never starves its producers: when no job is unfinished
  and no report in progress, there is a credit to spend or a bump to take.
\<close>

theorem credit_never_lost:
  assumes "(gate_step (gate_spec limit) WORKER_CAP)\<^sup>*\<^sup>* (gate_new limit) g" and "\<forall>i < WORKER_CAP. ga_pc g i = Idle"
  shows "int (cs_initial (gate_spec limit)) - int (cs_more_after (gate_spec limit)) <
      cf_credit (ga_flow g) + int (sum_list (cf_bumps (ga_flow g))) + int (ga_inflight g) \<and>
    (ga_inflight g = 0 \<longrightarrow> cf_credit (ga_flow g) > 0 \<or> flow_take_bump (ga_flow g) \<noteq> None)"
proof -
  have inv: "gate_inv (gate_spec limit) WORKER_CAP g" using assms(1) by (rule gate_inv_reach)
  have "pending WORKER_CAP g = 0" "storing WORKER_CAP g = 0" using assms(2) by (simp_all add: pending_def storing_def count_pc_def)
  with inv have sum: "int (cs_initial (gate_spec limit)) - int (cs_more_after (gate_spec limit)) <
      cf_credit (ga_flow g) + int (sum_list (cf_bumps (ga_flow g))) + int (ga_inflight g)"
    using min.cobounded2 [of "int (cf_counter (ga_flow g))" "int (cs_more_after (gate_spec limit)) - 1"]
    by (simp add: gate_inv_def gate_credits_def)
  have "cs_more_after (gate_spec limit) \<le> cs_initial (gate_spec limit)" by (simp add: gate_spec_def max_def)
  with sum have "cf_credit (ga_flow g) > 0 \<or> cf_bumps (ga_flow g) \<noteq> []" if "ga_inflight g = 0"
    using that by (cases "cf_bumps (ga_flow g)") auto
  with sum show ?thesis by (auto simp: flow_take_bump_def split: list.splits)
qed

text \<open>Schedules: a list of moves, run as far as each is possible.\<close>

datatype gate_move = Send | TakeBump | Add nat | Store nat | SendBump nat

fun gate_exec :: "credit_spec \<Rightarrow> nat \<Rightarrow> gate \<Rightarrow> gate_move \<Rightarrow> gate option" where
  "gate_exec spec workers g Send =
     (case flow_try_send (ga_flow g) of (taken, f) \<Rightarrow>
        if ga_open g \<and> taken then Some (g\<lparr>ga_flow := f, ga_inflight := ga_inflight g + 1\<rparr>) else None)"
| "gate_exec spec workers g TakeBump = map_option (\<lambda>f. g\<lparr>ga_flow := f\<rparr>) (flow_take_bump (ga_flow g))"
| "gate_exec spec workers g (Add i) =
     (if i < workers \<and> ga_pc g i = Idle \<and> ga_inflight g > 0 then
        (case recv_add spec (ga_flow g) of (reached, f) \<Rightarrow>
           Some (g\<lparr>ga_flow := f, ga_inflight := ga_inflight g - 1, ga_pc := (ga_pc g)(i := if reached then Storing else Idle)\<rparr>))
      else None)"
| "gate_exec spec workers g (Store i) =
     (if i < workers \<and> ga_pc g i = Storing
      then Some (g\<lparr>ga_flow := recv_store (ga_flow g), ga_pc := (ga_pc g)(i := Sending)\<rparr>) else None)"
| "gate_exec spec workers g (SendBump i) =
     (if i < workers \<and> ga_pc g i = Sending
      then Some (g\<lparr>ga_flow := recv_send spec (ga_flow g), ga_pc := (ga_pc g)(i := Idle)\<rparr>) else None)"

fun gate_schedule :: "credit_spec \<Rightarrow> nat \<Rightarrow> gate \<Rightarrow> gate_move list \<Rightarrow> gate option" where
  "gate_schedule spec workers g [] = Some g"
| "gate_schedule spec workers g (a # as) = Option.bind (gate_exec spec workers g a) (\<lambda>g'. gate_schedule spec workers g' as)"

lemma gate_exec_step: "gate_exec spec workers g a = Some g' \<Longrightarrow> gate_step spec workers g g'"
proof (cases a)
  case Send
  assume "gate_exec spec workers g a = Some g'"
  with Send obtain f where "ga_open g" "flow_try_send (ga_flow g) = (True, f)"
    "g' = g\<lparr>ga_flow := f, ga_inflight := ga_inflight g + 1\<rparr>"
    by (auto split: prod.splits if_splits)
  then show ?thesis using g_send by simp
next
  case (Add i)
  assume "gate_exec spec workers g a = Some g'"
  with Add obtain reached f where "i < workers" "ga_pc g i = Idle" "ga_inflight g > 0" "recv_add spec (ga_flow g) = (reached, f)"
    "g' = g\<lparr>ga_flow := f, ga_inflight := ga_inflight g - 1, ga_pc := (ga_pc g)(i := if reached then Storing else Idle)\<rparr>"
    by (auto split: prod.splits if_splits)
  then show ?thesis using g_add by simp
qed (auto split: if_splits intro: gate_step.intros)

lemma gate_schedule_steps: "gate_schedule spec workers g as = Some g' \<Longrightarrow> (gate_step spec workers)\<^sup>*\<^sup>* g g'"
proof (induction as arbitrary: g)
  case (Cons a as)
  then obtain g1 where "gate_exec spec workers g a = Some g1" and "gate_schedule spec workers g1 as = Some g'"
    by (auto simp: bind_eq_Some_conv)
  with Cons.IH show ?case by (meson converse_rtranclp_into_rtranclp gate_exec_step)
qed simp

text \<open>Both workers reach the threshold in the same round, and both reports are complete.\<close>

theorem credit_never_lost_witness:
  "\<exists>g. gate_schedule (gate_spec 4) WORKER_CAP (gate_new 4)
       [Send, Send, Send, Add 0, Add 0, Add 1, Store 0, SendBump 0, Store 1, SendBump 1] = Some g \<and>
     ga_inflight g = 0 \<and> (cf_credit (ga_flow g) > 0 \<or> flow_take_bump (ga_flow g) \<noteq> None)"
proof -
  let ?run = "gate_schedule (gate_spec 4) WORKER_CAP (gate_new 4)
       [Send, Send, Send, Add 0, Add 0, Add 1, Store 0, SendBump 0, Store 1, SendBump 1]"
  have "map_option (\<lambda>g. (ga_inflight g, ga_pc g 0, ga_pc g 1)) ?run = Some (0, Idle, Idle)" by code_simp
  then obtain g where g: "?run = Some g" "ga_inflight g = 0" "ga_pc g 0 = Idle" "ga_pc g 1 = Idle"
    unfolding map_option_eq_Some by auto
  have "\<forall>i < WORKER_CAP. ga_pc g i = Idle" using g(3,4) by (simp add: WORKER_CAP_def less_2_cases_iff)
  with credit_never_lost [OF gate_schedule_steps [OF g(1)]] g(1,2) show ?thesis by blast
qed

text \<open>
  With the pool's two workers the bound fails: one worker's \<open>fetch_add\<close> can fall between the other's
  \<open>fetch_add\<close> and \<open>store(0)\<close>, both see the threshold reached and both send a bump, and with a limit of
  four the gate then admits five unfinished jobs.
\<close>

theorem credit_gate_overrun:
  "\<exists>g. (gate_step (gate_spec 4) WORKER_CAP)\<^sup>*\<^sup>* (gate_new 4) g \<and> ga_inflight g > max 4 1"
proof -
  let ?race = "[Send, Send, Send, Send, Add 0, Add 0, Add 1, Store 0, SendBump 0, Store 1, SendBump 1,
      TakeBump, TakeBump, Send, Send, Send, Send]"
  have "map_option ga_inflight (gate_schedule (gate_spec 4) WORKER_CAP (gate_new 4) ?race) = Some 5"
    by code_simp
  then obtain g where run: "gate_schedule (gate_spec 4) WORKER_CAP (gate_new 4) ?race = Some g" and "ga_inflight g = 5"
    unfolding map_option_eq_Some by blast
  with gate_schedule_steps [OF run] show ?thesis by auto
qed

end
