(* ===== verification/Ladder.thy ===== *)
theory Ladder
  imports Prelude
begin

text \<open>
  The first-accept-wins walk of \<open>src/src/fluent-concurrency/src/ladder.rs\<close>.

  Rungs are run in order. The closures \<open>run\<close> and \<open>stop\<close> are \<open>FnMut\<close>: both take and return the state of
  their environment. \<open>Inl\<close> is \<open>Err\<close>. The asynchronous walk and its synchronous twin differ only in the
  suspension points, so one loop, \<open>walk\<close>, models both.
\<close>

section \<open>The walk\<close>

datatype 'b control_flow = Break 'b | Continue

definition finish_walk :: "'e option \<Rightarrow> 'e + 'r option" where
  "finish_walk last_err = (case last_err of Some e \<Rightarrow> Inl e | None \<Rightarrow> Inr None)"

definition walk_one ::
    "'e + 'r option \<Rightarrow> ('e \<Rightarrow> 's \<Rightarrow> bool \<times> 's) \<Rightarrow> 'e option \<Rightarrow> 's \<Rightarrow> ('e + 'r option) control_flow \<times> 'e option \<times> 's" where
  "walk_one res stop last_err s =
     (case res of
        Inr (Some v) \<Rightarrow> (Break (Inr (Some v)), last_err, s)
      | Inr None \<Rightarrow> (Continue, last_err, s)
      | Inl e \<Rightarrow>
          (case stop e s of
             (True, s') \<Rightarrow> (Break (Inl e), last_err, s')
           | (False, s') \<Rightarrow> (Continue, Some e, s')))"

fun walk ::
    "('t \<Rightarrow> 's \<Rightarrow> ('e + 'r option) \<times> 's) \<Rightarrow> ('e \<Rightarrow> 's \<Rightarrow> bool \<times> 's) \<Rightarrow> 't list \<Rightarrow> 'e option \<Rightarrow> 's \<Rightarrow> ('e + 'r option) \<times> 's" where
  "walk run stop [] last_err s = (finish_walk last_err, s)"
| "walk run stop (rung # rungs) last_err s =
     (case run rung s of
        (res, s1) \<Rightarrow>
          (case walk_one res stop last_err s1 of
             (Break r, _, s2) \<Rightarrow> (r, s2)
           | (Continue, last_err', s2) \<Rightarrow> walk run stop rungs last_err' s2))"

definition first_accept_in_order ::
    "'t list \<Rightarrow> ('t \<Rightarrow> 's \<Rightarrow> ('e + 'r option) \<times> 's) \<Rightarrow> ('e \<Rightarrow> 's \<Rightarrow> bool \<times> 's) \<Rightarrow> 's \<Rightarrow> ('e + 'r option) \<times> 's" where
  "first_accept_in_order rungs run stop s = walk run stop rungs None s"

definition first_accept_in_order_sync ::
    "'t list \<Rightarrow> ('t \<Rightarrow> 's \<Rightarrow> ('e + 'r option) \<times> 's) \<Rightarrow> ('e \<Rightarrow> 's \<Rightarrow> bool \<times> 's) \<Rightarrow> 's \<Rightarrow> ('e + 'r option) \<times> 's" where
  "first_accept_in_order_sync rungs run stop s = walk run stop rungs None s"

section \<open>Reference\<close>

text \<open>
  What each rung would answer if all of them ran: its answer, whether that answer ends the walk, and the
  state after it.
\<close>

fun rung_answers ::
    "('t \<Rightarrow> 's \<Rightarrow> ('e + 'r option) \<times> 's) \<Rightarrow> ('e \<Rightarrow> 's \<Rightarrow> bool \<times> 's) \<Rightarrow> 't list \<Rightarrow> 's \<Rightarrow> (('e + 'r option) \<times> bool \<times> 's) list" where
  "rung_answers run stop [] s = []"
| "rung_answers run stop (rung # rungs) s =
     (let (res, s1) = run rung s;
          (ends, s2) = (case res of Inr v \<Rightarrow> (v \<noteq> None, s1) | Inl e \<Rightarrow> stop e s1)
      in (res, ends, s2) # rung_answers run stop rungs s2)"

fun last_error :: "('e + 'r option) list \<Rightarrow> 'e option" where
  "last_error [] = None"
| "last_error (r # rs) = (case last_error rs of Some e \<Rightarrow> Some e | None \<Rightarrow> (case r of Inl e \<Rightarrow> Some e | Inr _ \<Rightarrow> None))"

definition orelse :: "'e option \<Rightarrow> 'e option \<Rightarrow> 'e option" where
  "orelse a b = (case a of Some e \<Rightarrow> Some e | None \<Rightarrow> b)"

lemma walk_spec:
  "walk run stop rungs last_err s =
     (let answers = rung_answers run stop rungs s
      in case find (\<lambda>(_, ends, _). ends) answers of
           Some (res, _, s') \<Rightarrow> (res, s')
         | None \<Rightarrow> (finish_walk (orelse (last_error (map fst answers)) last_err),
                    if answers = [] then s else snd (snd (last answers))))"
proof (induction rungs arbitrary: last_err s)
  case (Cons rung rungs)
  obtain res s1 where run: "run rung s = (res, s1)" by (cases "run rung s")
  show ?case
  proof (cases res)
    case (Inr v)
    with run Cons.IH [of last_err s1] show ?thesis
      by (cases v) (auto simp: walk_one_def Let_def orelse_def split: option.splits)
  next
    case (Inl e)
    obtain b s2 where "stop e s1 = (b, s2)" by (cases "stop e s1")
    with Inl run Cons.IH [of "Some e" s2] show ?thesis
      by (cases b) (auto simp: walk_one_def Let_def orelse_def split: option.splits)
  qed
qed (simp add: orelse_def Let_def)

text \<open>
  Both walks return the answer of the first rung that accepts or whose error stops the walk, and no
  later rung is run (the state is the one right after it). When no rung does, every rung is run once and
  the answer is the last error, or \<open>Ok(None)\<close> when all of them skipped.
\<close>

theorem first_accept_exact:
  "first_accept_in_order rungs run stop s =
     (let answers = rung_answers run stop rungs s
      in case find (\<lambda>(_, ends, _). ends) answers of
           Some (res, _, s') \<Rightarrow> (res, s')
         | None \<Rightarrow> (case last_error (map fst answers) of Some e \<Rightarrow> Inl e | None \<Rightarrow> Inr None,
                    if answers = [] then s else snd (snd (last answers)))) \<and>
   first_accept_in_order_sync rungs run stop s = first_accept_in_order rungs run stop s"
  by (simp add: first_accept_in_order_def first_accept_in_order_sync_def walk_spec finish_walk_def orelse_def
      Let_def option.case_eq_if cong: option.case_cong)

end
