(* ===== verification/Bytes.thy ===== *)
theory Bytes
  imports Prelude "HOL-Library.Word"
begin

unbundle bit_operations_syntax

text \<open>
  Byte encodings shared by the binary formats: little-endian integers as lists of 8-bit words, and the same
  encodings as strings of bytes, with their round trips.
\<close>

type_synonym byte = "8 word"
type_synonym u32 = "32 word"
type_synonym u64 = "64 word"

section \<open>Little-endian integers\<close>

definition le_bytes :: "nat \<Rightarrow> 'a::len word \<Rightarrow> byte list" where
  "le_bytes n w = map (\<lambda>i. ucast (drop_bit (8 * i) w)) [0..<n]"

definition from_le :: "byte list \<Rightarrow> 'a::len word" where
  "from_le bs = foldr (\<lambda>b acc. ucast b OR push_bit 8 acc) bs 0"

definition u32_bytes :: "u32 \<Rightarrow> byte list" where
  "u32_bytes w = le_bytes 4 w"

definition u64_bytes :: "u64 \<Rightarrow> byte list" where
  "u64_bytes w = le_bytes 8 w"

section \<open>Little-endian round trips\<close>

lemma length_le_bytes [simp]: "length (le_bytes n w) = n"
  by (simp add: le_bytes_def)

lemma length_u32_bytes [simp]: "length (u32_bytes w) = 4"
  by (simp add: u32_bytes_def)

lemma length_u64_bytes [simp]: "length (u64_bytes w) = 8"
  by (simp add: u64_bytes_def)

lemma bit_from_le:
  "bit (from_le bs :: 'a::len word) k \<longleftrightarrow> k < LENGTH('a) \<and> k div 8 < length bs \<and> bit (bs ! (k div 8)) (k mod 8)"
proof (induction bs arbitrary: k)
  case (Cons b bs)
  have step: "(from_le (b # bs) :: 'a word) = ucast b OR push_bit 8 (from_le bs)" by (simp add: from_le_def)
  show ?case
  proof (cases "k < 8")
    case True
    then show ?thesis by (auto simp: step bit_simps)
  next
    case False
    then obtain j where j: "k = j + 8" by (metis add.commute le_Suc_ex not_less)
    have "\<not> bit b (j + 8)" using bit_imp_le_length [of b "j + 8"] by auto
    moreover have "(j + 8) div 8 = Suc (j div 8)" by presburger
    ultimately show ?thesis using Cons.IH [of j] by (auto simp: step j bit_simps)
  qed
qed (simp add: from_le_def)

lemma from_le_le_bytes:
  assumes "LENGTH('a) \<le> 8 * n"
  shows "from_le (le_bytes n w) = (w :: 'a::len word)"
proof (rule bit_word_eqI)
  fix k assume k: "k < LENGTH('a)"
  then have "k div 8 < n" using assms by linarith
  then have "bit (le_bytes n w ! (k div 8)) (k mod 8) \<longleftrightarrow> bit w k"
    by (simp add: le_bytes_def bit_simps)
  with k \<open>k div 8 < n\<close> show "bit (from_le (le_bytes n w) :: 'a word) k \<longleftrightarrow> bit w k"
    by (simp add: bit_from_le)
qed

lemma le_bytes_from_le:
  assumes "length bs = n" and "LENGTH('a) = 8 * n"
  shows "le_bytes n (from_le bs :: 'a::len word) = bs"
proof (rule nth_equalityI)
  fix i assume "i < length (le_bytes n (from_le bs :: 'a word))"
  then have i: "i < n" by simp
  show "le_bytes n (from_le bs :: 'a word) ! i = bs ! i"
  proof (rule bit_word_eqI)
    fix j assume "j < LENGTH(8)"
    then have j: "j < 8" by simp
    have "8 * i + j < 8 * n" using i j by linarith
    with i j show "bit (le_bytes n (from_le bs :: 'a word) ! i) j \<longleftrightarrow> bit (bs ! i) j"
      using assms by (simp add: le_bytes_def bit_simps bit_from_le add.commute)
  qed
qed (use assms in simp)

lemma from_u32_bytes [simp]: "from_le (u32_bytes w) = w"
  by (simp add: u32_bytes_def from_le_le_bytes)

lemma from_u64_bytes [simp]: "from_le (u64_bytes w) = w"
  by (simp add: u64_bytes_def from_le_le_bytes)

lemma u32_bytes_from: "length bs = 4 \<Longrightarrow> u32_bytes (from_le bs) = bs"
  by (simp add: u32_bytes_def le_bytes_from_le)

lemma u32_bytes_inject [simp]: "u32_bytes a = u32_bytes b \<longleftrightarrow> a = b"
  by (metis from_u32_bytes)

lemma u64_bytes_inject [simp]: "u64_bytes a = u64_bytes b \<longleftrightarrow> a = b"
  by (metis from_u64_bytes)

section \<open>Bytes of strings\<close>

text \<open>A string is the list of its bytes; \<open>le_str\<close> is \<open>to_le_bytes\<close> and \<open>from_le_str\<close> is \<open>from_le_bytes\<close>.\<close>

definition le_str :: "nat \<Rightarrow> 'a::len word \<Rightarrow> string" where
  "le_str n w = map (\<lambda>b. char_of (unat b)) (le_bytes n w)"

definition from_le_str :: "string \<Rightarrow> 'a::len word" where
  "from_le_str s = from_le (map of_char s)"

lemma of_char_byte [simp]: "(of_char (char_of (unat (b :: 8 word))) :: 8 word) = b"
proof -
  have "unat b < 256" using unsigned_less [of b, where ?'a = nat] by simp
  then have "(of_char (char_of (unat b)) :: nat) = unat b" by simp
  then show ?thesis by (metis of_nat_of_char of_nat_unat ucast_id)
qed

lemma length_le_str [simp]: "length (le_str n w) = n"
  by (simp add: le_str_def)

lemma from_le_str_le_str: "LENGTH('a) \<le> 8 * n \<Longrightarrow> from_le_str (le_str n w) = (w :: 'a::len word)"
  by (simp add: from_le_str_def le_str_def comp_def from_le_le_bytes)

lemma le_str_from_le_str:
  assumes "length s = n" and "LENGTH('a) = 8 * n"
  shows "le_str n (from_le_str s :: 'a::len word) = s"
proof -
  have "(char_of (unat (of_char c :: 8 word)) :: char) = c" for c
  proof -
    have "unat (of_nat (of_char c) :: 8 word) = of_char c" by (simp add: unat_of_nat)
    then show ?thesis by (simp add: of_nat_of_char)
  qed
  then show ?thesis using assms by (simp add: le_str_def from_le_str_def le_bytes_from_le comp_def)
qed

lemma unat_u32 [simp]: "n < 2 ^ 32 \<Longrightarrow> unat (of_nat n :: 32 word) = n"
  by (simp add: unat_of_nat)

lemma unat_less_u32: "unat (w :: 32 word) < 2 ^ 32"
  using unsigned_less [of w, where ?'a = nat] by simp

section \<open>Splitting at a separator\<close>

text \<open>\<open>str::split\<close> with a single character, and the concatenation of terminated words.\<close>

fun split_on :: "'a \<Rightarrow> 'a list \<Rightarrow> 'a list list" where
  "split_on c [] = [[]]"
| "split_on c (x # xs) =
     (if x = c then [] # split_on c xs
      else case split_on c xs of p # ps \<Rightarrow> (x # p) # ps | [] \<Rightarrow> [[x]])"

definition terminated :: "'a \<Rightarrow> 'a list list \<Rightarrow> 'a list" where
  "terminated c ws = concat (map (\<lambda>w. w @ [c]) ws)"

lemma terminated_simps [simp]:
  "terminated c [] = []" "terminated c (w # ws) = w @ c # terminated c ws"
  "terminated c (us @ ws) = terminated c us @ terminated c ws"
  by (simp_all add: terminated_def)

lemma split_on_nonempty [simp]: "split_on c xs \<noteq> []"
  by (induction xs) (auto split: list.splits)

lemma split_on_free: "c \<notin> set w \<Longrightarrow> split_on c w = [w]"
  by (induction w) auto

lemma split_on_append: "c \<notin> set w \<Longrightarrow> split_on c (w @ c # xs) = w # split_on c xs"
  by (induction w) auto

lemma split_on_terminated: "\<forall>w \<in> set ws. c \<notin> set w \<Longrightarrow> split_on c (terminated c ws) = ws @ [[]]"
  by (induction ws) (auto simp: split_on_append)

lemma split_on_parts:
  "list_all (\<lambda>w. c \<notin> set w) (split_on c xs) \<and> xs @ [c] = terminated c (split_on c xs)"
proof (induction xs)
  case (Cons x xs)
  then show ?case by (cases "split_on c xs") auto
qed simp

lemma split_on_terminated_iff:
  "split_on c xs = ws @ [[]] \<longleftrightarrow> xs = terminated c ws \<and> (\<forall>w \<in> set ws. c \<notin> set w)"
proof
  assume "split_on c xs = ws @ [[]]"
  then show "xs = terminated c ws \<and> (\<forall>w \<in> set ws. c \<notin> set w)"
    using split_on_parts [of c xs] by (auto simp: list_all_iff)
qed (simp add: split_on_terminated)

end
