(* ===== verification/WasmIpc.thy ===== *)
theory WasmIpc
  imports Bytes "HOL-Library.Monad_Syntax"
begin

unbundle bit_operations_syntax

text \<open>
  The binary schemas at the WebAssembly boundary: \<open>src/src/wasm_ipc/src/lib.rs\<close>.

  Bytes and integers keep their widths as words; signed fields are their two's complement words. Buffers
  are byte lists. A slice outside the buffer panics in the code: the reads of the decoder return \<open>None\<close>
  there, and the decoder is shown never to do so. \<open>usize\<close> is 64 bits wide on the host, so sums of two
  \<open>u32\<close> values do not wrap and are computed on \<open>nat\<close>.
\<close>

section \<open>Schemas\<close>

definition BINARY_MAGIC :: "byte list" where
  "BINARY_MAGIC = [0x47, 0x52, 0x50, 0x48]"

definition BINARY_SCHEMA_VERSION :: u32 where
  "BINARY_SCHEMA_VERSION = 1"

definition MAX_IPC_PAYLOAD_SIZE :: nat where
  "MAX_IPC_PAYLOAD_SIZE = 64 * 1024 * 1024"

datatype payload_type = ExecutionRequest | ExecutionResult | ContentNode

datatype ipc_error =
  BufferTooSmall | InvalidMagic | UnsupportedVersion | UnknownPayloadType u32 | ChecksumMismatch | PayloadTooLarge u32

fun payload_type_code :: "payload_type \<Rightarrow> u32" where
  "payload_type_code ExecutionRequest = 1"
| "payload_type_code ExecutionResult = 2"
| "payload_type_code ContentNode = 3"

definition payload_type_try_from :: "u32 \<Rightarrow> ipc_error + payload_type" where
  "payload_type_try_from v =
     (if v = 1 then Inr ExecutionRequest
      else if v = 2 then Inr ExecutionResult
      else if v = 3 then Inr ContentNode
      else Inl (UnknownPayloadType v))"

record binary_header =
  bh_magic :: "byte list"
  bh_version :: u32
  bh_payload_type :: u32
  bh_payload_size :: u32
  bh_checksum :: u32

record binary_execution_request =
  rq_header :: binary_header
  rq_target_id :: u64
  rq_input_offset :: u32
  rq_input_len :: u32
  rq_flags :: u32

record binary_execution_result =
  rs_header :: binary_header
  rs_success :: u32
  rs_error_code :: u32
  rs_output_offset :: u32
  rs_output_len :: u32
  rs_provides_words_offset :: u32
  rs_provides_words_count :: u32

record binary_content_node =
  cn_header :: binary_header
  cn_id :: u64
  cn_valid_from_ts :: u64
  cn_valid_to_ts :: u64
  cn_confidence :: u32
  cn_provenance_id :: u32
  cn_lod_offsets :: "u32 list"
  cn_lod_lengths :: "u32 list"

section \<open>Encoding\<close>

definition compute_checksum :: "byte list \<Rightarrow> u32" where
  "compute_checksum bs = foldl (\<lambda>acc b. acc + ucast b) 0 bs"

text \<open>The five writes of the header, the same in the three encoders.\<close>

definition header_bytes :: "binary_header \<Rightarrow> byte list" where
  "header_bytes h =
     bh_magic h @ u32_bytes (bh_version h) @ u32_bytes (bh_payload_type h) @
     u32_bytes (bh_payload_size h) @ u32_bytes (bh_checksum h)"

definition encode_request :: "binary_execution_request \<Rightarrow> byte list \<Rightarrow> byte list" where
  "encode_request req input =
     header_bytes (rq_header req) @ u64_bytes (rq_target_id req) @ u32_bytes (rq_input_offset req) @
     u32_bytes (rq_input_len req) @ u32_bytes (rq_flags req) @ input"

definition encode_result :: "binary_execution_result \<Rightarrow> byte list \<Rightarrow> byte list" where
  "encode_result result output =
     header_bytes (rs_header result) @ u32_bytes (rs_success result) @ u32_bytes (rs_error_code result) @
     u32_bytes (rs_output_offset result) @ u32_bytes (rs_output_len result) @
     u32_bytes (rs_provides_words_offset result) @ u32_bytes (rs_provides_words_count result) @ output"

definition encode_content_node :: "binary_content_node \<Rightarrow> byte list \<Rightarrow> byte list" where
  "encode_content_node node lod_data =
     header_bytes (cn_header node) @ u64_bytes (cn_id node) @ u64_bytes (cn_valid_from_ts node) @
     u64_bytes (cn_valid_to_ts node) @ u32_bytes (cn_confidence node) @ u32_bytes (cn_provenance_id node) @
     concat (map u32_bytes (cn_lod_offsets node)) @ concat (map u32_bytes (cn_lod_lengths node)) @ lod_data"

section \<open>Decoding\<close>

text \<open>\<open>size_of::<BinaryExecutionResult>()\<close>: the packed header of 20 bytes and six \<open>u32\<close> fields.\<close>

definition RESULT_SIZE :: nat where
  "RESULT_SIZE = 44"

definition read_u32 :: "byte list \<Rightarrow> nat \<Rightarrow> (u32 \<times> nat) option" where
  "read_u32 buf pos = (if pos + 4 \<le> length buf then Some (from_le (take 4 (drop pos buf)), pos + 4) else None)"

definition byte_slice :: "byte list \<Rightarrow> nat \<Rightarrow> nat \<Rightarrow> byte list" where
  "byte_slice buf start n = take n (drop start buf)"

definition decode_result :: "byte list \<Rightarrow> (ipc_error + binary_execution_result \<times> byte list) option" where
  "decode_result buf =
     (if length buf < RESULT_SIZE then Some (Inl BufferTooSmall)
      else let magic = take 4 buf in
      if magic \<noteq> BINARY_MAGIC then Some (Inl InvalidMagic)
      else do {
        (version, pos) \<leftarrow> read_u32 buf 4;
        if version \<noteq> BINARY_SCHEMA_VERSION then Some (Inl UnsupportedVersion)
        else do {
          (payload_type, pos) \<leftarrow> read_u32 buf pos;
          (payload_size, pos) \<leftarrow> read_u32 buf pos;
          if unat payload_size > MAX_IPC_PAYLOAD_SIZE then Some (Inl (PayloadTooLarge payload_size))
          else do {
            (checksum, pos) \<leftarrow> read_u32 buf pos;
            (success, pos) \<leftarrow> read_u32 buf pos;
            (error_code, pos) \<leftarrow> read_u32 buf pos;
            (output_offset, pos) \<leftarrow> read_u32 buf pos;
            (output_len, pos) \<leftarrow> read_u32 buf pos;
            (provides_words_offset, pos) \<leftarrow> read_u32 buf pos;
            (provides_words_count, pos) \<leftarrow> read_u32 buf pos;
            let payload_end = pos + unat payload_size;
                actual_checksum =
                  (if payload_end \<le> length buf then compute_checksum (byte_slice buf pos (unat payload_size))
                   else compute_checksum (drop pos buf))
            in if checksum \<noteq> 0 \<and> actual_checksum \<noteq> checksum then Some (Inl ChecksumMismatch)
               else let output =
                      (if unat output_offset + unat output_len \<le> length buf
                       then byte_slice buf (unat output_offset) (unat output_len) else [])
                    in Some (Inr (\<lparr>rs_header = \<lparr>bh_magic = magic, bh_version = version, bh_payload_type = payload_type,
                                     bh_payload_size = payload_size, bh_checksum = checksum\<rparr>,
                                   rs_success = success, rs_error_code = error_code, rs_output_offset = output_offset,
                                   rs_output_len = output_len, rs_provides_words_offset = provides_words_offset,
                                   rs_provides_words_count = provides_words_count\<rparr>, output))
          }
        }
      })"

text \<open>The bits one word contributes, least significant first, and the loop over the words.\<close>

definition word_bits :: "u64 \<Rightarrow> bool list" where
  "word_bits w = map (\<lambda>b. drop_bit b w AND 1 = 1) [0..<64]"

definition read_word_at :: "byte list \<Rightarrow> nat \<Rightarrow> bool list \<Rightarrow> nat \<Rightarrow> ipc_error + bool list" where
  "read_word_at payload pos bits i =
     (let start = pos + i * 8
      in if start + 8 > length payload then Inl BufferTooSmall
         else Inr (bits @ word_bits (from_le (byte_slice payload start 8))))"

definition get_provides_bitset :: "binary_execution_result \<Rightarrow> byte list \<Rightarrow> ipc_error + bool list" where
  "get_provides_bitset result payload =
     fold_err (read_word_at payload (unat (rs_provides_words_offset result))) []
       [0..<unat (rs_provides_words_count result)]"

section \<open>Decoding, read back\<close>

lemma read_u32_at:
  "length pre = pos \<Longrightarrow> buf = pre @ u32_bytes w @ rest \<Longrightarrow> read_u32 buf pos = Some (w, pos + 4)"
  by (simp add: read_u32_def)

lemma split_bytes:
  assumes "n \<le> length buf"
  obtains bs rest where "buf = bs @ rest" and "length bs = n"
  using assms by (metis append_take_drop_id length_take min.absorb2)

lemma split_u32:
  assumes "4 \<le> length buf"
  obtains w rest where "buf = u32_bytes w @ rest"
proof -
  obtain bs rest where "buf = bs @ rest" and "length bs = 4" using split_bytes [OF assms] by blast
  with u32_bytes_from [of bs] show thesis using that by metis
qed

text \<open>Every buffer that is long enough is the encoding of a result, followed by the rest of the buffer.\<close>

lemma buffer_is_encoding:
  assumes "RESULT_SIZE \<le> length buf"
  obtains r rest where "buf = encode_result r rest" and "length (bh_magic (rs_header r)) = 4"
proof -
  have len: "44 \<le> length buf" using assms by (simp add: RESULT_SIZE_def)
  obtain magic b0 where 0: "buf = magic @ b0" "length magic = 4" using split_bytes [of 4 buf] len by auto
  obtain w1 b1 where 1: "b0 = u32_bytes w1 @ b1" using split_u32 [of b0] 0 len by auto
  obtain w2 b2 where 2: "b1 = u32_bytes w2 @ b2" using split_u32 [of b1] 0 1 len by auto
  obtain w3 b3 where 3: "b2 = u32_bytes w3 @ b3" using split_u32 [of b2] 0 1 2 len by auto
  obtain w4 b4 where 4: "b3 = u32_bytes w4 @ b4" using split_u32 [of b3] 0 1 2 3 len by auto
  obtain w5 b5 where 5: "b4 = u32_bytes w5 @ b5" using split_u32 [of b4] 0 1 2 3 4 len by auto
  obtain w6 b6 where 6: "b5 = u32_bytes w6 @ b6" using split_u32 [of b5] 0 1 2 3 4 5 len by auto
  obtain w7 b7 where 7: "b6 = u32_bytes w7 @ b7" using split_u32 [of b6] 0 1 2 3 4 5 6 len by auto
  obtain w8 b8 where 8: "b7 = u32_bytes w8 @ b8" using split_u32 [of b7] 0 1 2 3 4 5 6 7 len by auto
  obtain w9 b9 where 9: "b8 = u32_bytes w9 @ b9" using split_u32 [of b8] 0 1 2 3 4 5 6 7 8 len by auto
  obtain w10 b10 where 10: "b9 = u32_bytes w10 @ b10" using split_u32 [of b9] 0 1 2 3 4 5 6 7 8 9 len by auto
  let ?r = "\<lparr>rs_header = \<lparr>bh_magic = magic, bh_version = w1, bh_payload_type = w2, bh_payload_size = w3, bh_checksum = w4\<rparr>,
      rs_success = w5, rs_error_code = w6, rs_output_offset = w7, rs_output_len = w8,
      rs_provides_words_offset = w9, rs_provides_words_count = w10\<rparr>"
  have "buf = encode_result ?r b10"
    using 0 1 2 3 4 5 6 7 8 9 10 by (simp add: encode_result_def header_bytes_def)
  with 0 show thesis using that [of ?r b10] by simp
qed

lemma length_encode_result: "length (bh_magic (rs_header r)) = 4 \<Longrightarrow> length (encode_result r out) = 44 + length out"
  by (simp add: encode_result_def header_bytes_def)

lemma drop_encode_result: "length (bh_magic (rs_header r)) = 4 \<Longrightarrow> drop 44 (encode_result r out) = out"
  by (simp add: encode_result_def header_bytes_def)

lemma encode_result_inject:
  assumes "encode_result r out = encode_result r' out'"
    and "length (bh_magic (rs_header r)) = 4" and "length (bh_magic (rs_header r')) = 4"
  shows "r = r' \<and> out = out'"
proof -
  have "bh_magic (rs_header r) = bh_magic (rs_header r')"
    using arg_cong [OF assms(1), of "take 4"] assms(2,3) by (simp add: encode_result_def header_bytes_def)
  then show ?thesis using assms(1)
    by (auto simp: encode_result_def header_bytes_def intro!: binary_execution_result.equality binary_header.equality)
qed

text \<open>The checks of the decoder, in their order, on the fields it reads.\<close>

definition result_payload :: "binary_execution_result \<Rightarrow> byte list \<Rightarrow> byte list" where
  "result_payload r rest = take (unat (bh_payload_size (rs_header r))) rest"

definition decode_verdict :: "binary_execution_result \<Rightarrow> byte list \<Rightarrow> ipc_error option" where
  "decode_verdict r rest =
     (let h = rs_header r
      in if bh_magic h \<noteq> BINARY_MAGIC then Some InvalidMagic
         else if bh_version h \<noteq> BINARY_SCHEMA_VERSION then Some UnsupportedVersion
         else if unat (bh_payload_size h) > MAX_IPC_PAYLOAD_SIZE then Some (PayloadTooLarge (bh_payload_size h))
         else if bh_checksum h \<noteq> 0 \<and> compute_checksum (result_payload r rest) \<noteq> bh_checksum h then Some ChecksumMismatch
         else None)"

definition result_output :: "binary_execution_result \<Rightarrow> byte list \<Rightarrow> byte list" where
  "result_output r buf =
     (if unat (rs_output_offset r) + unat (rs_output_len r) \<le> length buf
      then byte_slice buf (unat (rs_output_offset r)) (unat (rs_output_len r)) else [])"

lemma decode_encode:
  assumes len: "length (bh_magic (rs_header r)) = 4"
  shows "decode_result (encode_result r rest) =
    Some (case decode_verdict r rest of
            Some e \<Rightarrow> Inl e
          | None \<Rightarrow> Inr (r, result_output r (encode_result r rest)))"
proof -
  let ?h = "rs_header r" and ?buf = "encode_result r rest"
  have buf: "?buf = bh_magic ?h @ u32_bytes (bh_version ?h) @ u32_bytes (bh_payload_type ?h) @
     u32_bytes (bh_payload_size ?h) @ u32_bytes (bh_checksum ?h) @ u32_bytes (rs_success r) @ u32_bytes (rs_error_code r) @
     u32_bytes (rs_output_offset r) @ u32_bytes (rs_output_len r) @
     u32_bytes (rs_provides_words_offset r) @ u32_bytes (rs_provides_words_count r) @ rest"
    by (simp add: encode_result_def header_bytes_def)
  have reads: "read_u32 ?buf 4 = Some (bh_version ?h, 8)" "read_u32 ?buf 8 = Some (bh_payload_type ?h, 12)"
    "read_u32 ?buf 12 = Some (bh_payload_size ?h, 16)" "read_u32 ?buf 16 = Some (bh_checksum ?h, 20)"
    "read_u32 ?buf 20 = Some (rs_success r, 24)" "read_u32 ?buf 24 = Some (rs_error_code r, 28)"
    "read_u32 ?buf 28 = Some (rs_output_offset r, 32)" "read_u32 ?buf 32 = Some (rs_output_len r, 36)"
    "read_u32 ?buf 36 = Some (rs_provides_words_offset r, 40)" "read_u32 ?buf 40 = Some (rs_provides_words_count r, 44)"
    using len by (simp_all add: read_u32_def buf)
  have size: "length ?buf = 44 + length rest" and rest: "drop 44 ?buf = rest" and magic: "take 4 ?buf = bh_magic ?h"
    using len by (simp_all add: buf)
  have pay: "byte_slice ?buf 44 n = take n rest" for n
    by (simp add: byte_slice_def rest)
  show ?thesis
    by (simp add: decode_result_def RESULT_SIZE_def reads magic rest pay size decode_verdict_def result_payload_def
        result_output_def Let_def)
qed


section \<open>Properties\<close>

text \<open>
  C23. Every buffer is decoded without a panic. A buffer shorter than the fixed part is refused; any other
  buffer is, in exactly one way, the encoding of some result followed by its payload bytes, and the
  decoder returns the first failing check (magic, version, payload size, checksum of the payload present,
  skipped when the stored checksum is zero), or that very result with the output bytes its offsets name
  (none when they leave the buffer).
\<close>

theorem decode_result_exact:
  "if length buf < RESULT_SIZE then decode_result buf = Some (Inl BufferTooSmall)
   else \<exists>!(r, rest). length (bh_magic (rs_header r)) = 4 \<and> buf = encode_result r rest \<and>
     decode_result buf = Some (case decode_verdict r rest of Some e \<Rightarrow> Inl e | None \<Rightarrow> Inr (r, result_output r buf))"
proof (cases "length buf < RESULT_SIZE")
  case False
  then obtain r rest where r: "buf = encode_result r rest" "length (bh_magic (rs_header r)) = 4"
    using buffer_is_encoding [of buf] by auto
  show ?thesis
  proof (simp add: False, rule ex1I [of _ "(r, rest)"])
    show "case (r, rest) of (r, rest) \<Rightarrow> length (bh_magic (rs_header r)) = 4 \<and> buf = encode_result r rest \<and>
        decode_result buf = Some (case decode_verdict r rest of Some e \<Rightarrow> Inl e | None \<Rightarrow> Inr (r, result_output r buf))"
      using decode_encode [OF r(2), of rest] r(2) unfolding r(1) by simp
  qed (use r encode_result_inject [of r rest] in auto)
qed (simp add: decode_result_def)

definition sample_result :: binary_execution_result where
  "sample_result =
     \<lparr>rs_header = \<lparr>bh_magic = BINARY_MAGIC, bh_version = 1, bh_payload_type = 2, bh_payload_size = 3, bh_checksum = 6\<rparr>,
      rs_success = 1, rs_error_code = 0, rs_output_offset = 44, rs_output_len = 3,
      rs_provides_words_offset = 0, rs_provides_words_count = 0\<rparr>"

theorem decode_result_exact_witness:
  "\<exists>!(r, rest). length (bh_magic (rs_header r)) = 4 \<and> encode_result sample_result [1, 2, 3] = encode_result r rest \<and>
     decode_result (encode_result sample_result [1, 2, 3]) =
       Some (case decode_verdict r rest of Some e \<Rightarrow> Inl e
             | None \<Rightarrow> Inr (r, result_output r (encode_result sample_result [1, 2, 3])))"
proof -
  have "\<not> length (encode_result sample_result [1, 2, 3]) < RESULT_SIZE"
    by (simp add: RESULT_SIZE_def length_encode_result sample_result_def BINARY_MAGIC_def)
  then show ?thesis using decode_result_exact [of "encode_result sample_result [1, 2, 3]"] by argo
qed

text \<open>
  Round trip: what \<open>encode_result\<close> writes for a result with the current magic and version, a payload
  size within the limit and a zero or correct checksum, \<open>decode_result\<close> reads back field by field; and when
  the output field names the bytes appended after the fixed part, it returns them.
\<close>

theorem encode_decode_roundtrip:
  assumes "bh_magic (rs_header r) = BINARY_MAGIC" and "bh_version (rs_header r) = BINARY_SCHEMA_VERSION"
    and "unat (bh_payload_size (rs_header r)) \<le> MAX_IPC_PAYLOAD_SIZE"
    and "bh_checksum (rs_header r) = 0 \<or>
      bh_checksum (rs_header r) = compute_checksum (take (unat (bh_payload_size (rs_header r))) output)"
  shows "\<exists>got. decode_result (encode_result r output) = Some (Inr (r, got)) \<and>
    (unat (rs_output_offset r) = RESULT_SIZE \<and> unat (rs_output_len r) = length output \<longrightarrow> got = output)"
proof -
  have len: "length (bh_magic (rs_header r)) = 4" using assms(1) by (simp add: BINARY_MAGIC_def)
  have "decode_verdict r output = None"
    using assms by (auto simp: decode_verdict_def result_payload_def)
  then have "decode_result (encode_result r output) = Some (Inr (r, result_output r (encode_result r output)))"
    using decode_encode [OF len, of "output"] by simp
  moreover have "result_output r (encode_result r output) = output"
    if "unat (rs_output_offset r) = RESULT_SIZE" "unat (rs_output_len r) = length output"
    using that len
    by (simp add: result_output_def RESULT_SIZE_def length_encode_result drop_encode_result byte_slice_def)
  ultimately show ?thesis by blast
qed

theorem encode_decode_roundtrip_witness:
  "decode_result (encode_result sample_result [1, 2, 3]) = Some (Inr (sample_result, [1, 2, 3]))"
  using encode_decode_roundtrip [of sample_result "[1, 2, 3]"]
  by (auto simp: sample_result_def BINARY_SCHEMA_VERSION_def MAX_IPC_PAYLOAD_SIZE_def RESULT_SIZE_def compute_checksum_def)


section \<open>Provided capabilities\<close>

lemma word_bits_bytes:
  assumes "start + 8 \<le> length payload"
  shows "word_bits (from_le (byte_slice payload start 8)) = map (\<lambda>j. bit (payload ! (start + j div 8)) (j mod 8)) [0..<64]"
proof -
  have "(drop_bit j w AND 1 = 1) = bit w j" for j and w :: u64
    by (simp add: bit_iff_odd_drop_bit and_one_eq odd_iff_mod_2_eq_one)
  moreover have "bit (from_le (byte_slice payload start 8) :: u64) j = bit (payload ! (start + j div 8)) (j mod 8)"
    if "j < 64" for j
  proof -
    have "j div 8 < 8" using that by linarith
    then show ?thesis using that assms by (simp add: bit_from_le byte_slice_def)
  qed
  ultimately show ?thesis by (simp add: word_bits_def)
qed

lemma read_words_spec:
  "fold_err (read_word_at payload pos) [] [0..<n] =
     (if n = 0 \<or> pos + 8 * n \<le> length payload
      then Inr (map (\<lambda>i. bit (payload ! (pos + i div 8)) (i mod 8)) [0..<64 * n])
      else Inl BufferTooSmall)"
proof (induction n)
  case (Suc n)
  let ?f = "\<lambda>i. bit (payload ! (pos + i div 8)) (i mod 8)"
  have bits: "map ?f [0..<64 * Suc n] = map ?f [0..<64 * n] @ map (\<lambda>j. bit (payload ! (pos + n * 8 + j div 8)) (j mod 8)) [0..<64]"
  proof -
    have "[0..<64 * Suc n] = [0..<64 * n] @ map (\<lambda>j. j + 64 * n) [0..<64]"
      using upt_add_eq_append [of 0 "64 * n" 64] by (simp add: map_add_upt add.commute)
    moreover have "(j + 64 * n) div 8 = n * 8 + j div 8" "(j + 64 * n) mod 8 = j mod 8" for j by presburger+
    ultimately show ?thesis by (simp add: add.assoc del: upt_Suc)
  qed
  have turn: "fold_err (read_word_at payload pos) [] [0..<Suc n] =
      (case fold_err (read_word_at payload pos) [] [0..<n] of Inl e \<Rightarrow> Inl e | Inr b \<Rightarrow> read_word_at payload pos b n)"
    by (auto simp: fold_err_append split: sum.splits)
  show ?case
  proof (cases "pos + 8 * Suc n \<le> length payload")
    case True
    then have fits: "pos + n * 8 + 8 \<le> length payload" by simp
    then have "read_word_at payload pos b n =
        Inr (b @ map (\<lambda>j. bit (payload ! (pos + n * 8 + j div 8)) (j mod 8)) [0..<64])" for b
      using word_bits_bytes [OF fits] by (simp add: read_word_at_def Let_def)
    with Suc.IH True show ?thesis by (simp only: turn bits) simp
  next
    case False
    then have "read_word_at payload pos b n = Inl BufferTooSmall" for b by (simp add: read_word_at_def Let_def)
    with Suc.IH False show ?thesis by (simp only: turn) simp
  qed
qed simp

text \<open>
  \<open>get_provides_bitset\<close> fails with \<open>BufferTooSmall\<close> exactly when there are words to read and they do not
  all fit in the payload; otherwise it returns 64 bits per word, bit \<open>i\<close> of the result being bit
  \<open>i mod 8\<close> of the \<open>i div 8\<close>-th byte from the offset on.
\<close>

theorem provides_bitset_exact:
  "get_provides_bitset result payload =
     (let pos = unat (rs_provides_words_offset result); count = unat (rs_provides_words_count result)
      in if count = 0 \<or> pos + 8 * count \<le> length payload
         then Inr (map (\<lambda>i. bit (payload ! (pos + i div 8)) (i mod 8)) [0..<64 * count])
         else Inl BufferTooSmall)"
  by (simp add: get_provides_bitset_def read_words_spec Let_def)

section \<open>Requests and content nodes\<close>

lemma header_bytes_inject:
  assumes "header_bytes h @ xs = header_bytes h' @ ys" and "length (bh_magic h) = 4" and "length (bh_magic h') = 4"
  shows "h = h' \<and> xs = ys"
  using assms by (auto simp: header_bytes_def intro!: binary_header.equality)

lemma concat_u32_inject:
  "length ws = length vs \<Longrightarrow> concat (map u32_bytes ws) @ xs = concat (map u32_bytes vs) @ ys \<Longrightarrow> ws = vs \<and> xs = ys"
  by (induction ws vs rule: list_induct2) auto

lemma length_concat_u32 [simp]: "length (concat (map u32_bytes ws)) = 4 * length ws"
  by (induction ws) auto

text \<open>
  Requests and content nodes can be recovered from their encodings: equal buffers come from equal
  records and equal trailing data, and the fixed parts are 40 and 100 bytes, the packed sizes of the
  structures. (The schema has four magic bytes and six levels of detail.)
\<close>

theorem encodings_injective:
  assumes "length (bh_magic (rq_header req)) = 4" and "length (bh_magic (rq_header req')) = 4"
    and "length (bh_magic (cn_header node)) = 4" and "length (bh_magic (cn_header node')) = 4"
    and "length (cn_lod_offsets node) = 6" and "length (cn_lod_offsets node') = 6"
    and "length (cn_lod_lengths node) = 6" and "length (cn_lod_lengths node') = 6"
  shows "(encode_request req input = encode_request req' input' \<longleftrightarrow> req = req' \<and> input = input') \<and>
    (encode_content_node node lod = encode_content_node node' lod' \<longleftrightarrow> node = node' \<and> lod = lod') \<and>
    length (encode_request req input) = 40 + length input \<and> length (encode_content_node node lod) = 100 + length lod"
proof -
  have "req = req' \<and> input = input'" if "encode_request req input = encode_request req' input'"
    using that header_bytes_inject [OF _ assms(1,2)] unfolding encode_request_def
    by (fastforce intro!: binary_execution_request.equality)
  moreover have "node = node' \<and> lod = lod'" if "encode_content_node node lod = encode_content_node node' lod'"
  proof -
    have fixed: "cn_header node = cn_header node'" "cn_id node = cn_id node'" "cn_valid_from_ts node = cn_valid_from_ts node'"
        "cn_valid_to_ts node = cn_valid_to_ts node'" "cn_confidence node = cn_confidence node'"
        "cn_provenance_id node = cn_provenance_id node'"
      and lods: "concat (map u32_bytes (cn_lod_offsets node)) @ concat (map u32_bytes (cn_lod_lengths node)) @ lod =
        concat (map u32_bytes (cn_lod_offsets node')) @ concat (map u32_bytes (cn_lod_lengths node')) @ lod'"
      using that header_bytes_inject [OF _ assms(3,4)] unfolding encode_content_node_def by fastforce+
    have "cn_lod_offsets node = cn_lod_offsets node'"
      and "concat (map u32_bytes (cn_lod_lengths node)) @ lod = concat (map u32_bytes (cn_lod_lengths node')) @ lod'"
      using concat_u32_inject [OF _ lods] assms by auto
    moreover have "cn_lod_lengths node = cn_lod_lengths node' \<and> lod = lod'"
      using concat_u32_inject [OF _ calculation(2)] assms by auto
    ultimately show ?thesis using fixed by (auto intro!: binary_content_node.equality)
  qed
  ultimately show ?thesis
    using assms by (auto simp: encode_request_def encode_content_node_def header_bytes_def)
qed


definition sample_request :: binary_execution_request where
  "sample_request =
     \<lparr>rq_header = rs_header sample_result, rq_target_id = 42, rq_input_offset = 40, rq_input_len = 1, rq_flags = 0\<rparr>"

definition sample_node :: binary_content_node where
  "sample_node =
     \<lparr>cn_header = rs_header sample_result, cn_id = 7, cn_valid_from_ts = 0, cn_valid_to_ts = -1, cn_confidence = 90,
      cn_provenance_id = 1, cn_lod_offsets = [100, 101, 101, 101, 101, 101], cn_lod_lengths = [1, 0, 0, 0, 0, 0]\<rparr>"

theorem encodings_injective_witness:
  "encode_request sample_request [5] \<noteq> encode_request (sample_request\<lparr>rq_target_id := 43\<rparr>) [5] \<and>
   encode_content_node sample_node [5] \<noteq> encode_content_node (sample_node\<lparr>cn_valid_to_ts := 0\<rparr>) [5] \<and>
   length (encode_request sample_request [5]) = 41 \<and> length (encode_content_node sample_node [5]) = 101"
  using encodings_injective [of sample_request "sample_request\<lparr>rq_target_id := 43\<rparr>" sample_node
      "sample_node\<lparr>cn_valid_to_ts := 0\<rparr>" "[5]" "[5]" "[5]" "[5]"]
  by (simp add: sample_request_def sample_node_def sample_result_def BINARY_MAGIC_def)

end
