(* ===== verification/Retry.thy ===== *)
theory Retry
  imports Cache
begin

text \<open>
  Retry and backoff: \<open>src/src/common-core/src/retry.rs\<close>.

  Delays are \<open>u64\<close> values, kept as \<open>nat\<close> with the saturating operations of theory \<open>Cache\<close>. The random
  number generator is third-party: \<open>draw jitter_max\<close> is the number it returns for the range
  \<open>0..=jitter_max\<close>, and \<open>draw_ok\<close> is its documented contract. The retried operation and the polled
  condition are closures that may change their environment: they take and return a state. Sleeping is
  recorded as the list of delays slept.
\<close>

section \<open>Backoff schedules\<close>

definition u32_max :: nat where
  "u32_max = 2 ^ 32 - 1"

definition u64_saturating_add :: "nat \<Rightarrow> nat \<Rightarrow> nat" where
  "u64_saturating_add a b = min u64_max (a + b)"

definition draw_ok :: "(nat \<Rightarrow> nat) \<Rightarrow> bool" where
  "draw_ok draw \<longleftrightarrow> (\<forall>n. draw n \<le> n)"

definition jitter_limit :: "nat \<Rightarrow> nat \<Rightarrow> nat" where
  "jitter_limit base_ms jitter_pct = u64_saturating_mul base_ms (min jitter_pct 100) div 100"

definition backoff_ms :: "(nat \<Rightarrow> nat) \<Rightarrow> nat \<Rightarrow> nat \<Rightarrow> nat \<Rightarrow> nat" where
  "backoff_ms draw base_ms attempt jitter_pct =
     (let exponent = min (attempt - 1) 63;
          ex = u64_saturating_mul base_ms (2 ^ exponent);
          jitter_max = jitter_limit base_ms jitter_pct;
          jitter = (if jitter_max > 0 then draw jitter_max else 0)
      in u64_saturating_add ex jitter)"

definition capped_backoff_ms :: "nat \<Rightarrow> nat \<Rightarrow> nat \<Rightarrow> nat" where
  "capped_backoff_ms base_ms failures cap = u64_saturating_mul base_ms (min (min (failures + 1) u32_max) cap)"

definition capped_exp_backoff_ms :: "nat \<Rightarrow> nat \<Rightarrow> nat \<Rightarrow> nat" where
  "capped_exp_backoff_ms base_ms failures max_shift =
     u64_saturating_mul base_ms (2 ^ min (min failures max_shift) 63)"

section \<open>Retrying\<close>

text \<open>The \<open>draw\<close> of the retry loop may differ from attempt to attempt.\<close>

function retry_loop ::
    "(nat \<Rightarrow> nat \<Rightarrow> nat) \<Rightarrow> nat \<Rightarrow> nat \<Rightarrow> nat \<Rightarrow> ('e \<Rightarrow> bool) \<Rightarrow> ('s \<Rightarrow> ('e + 'v) \<times> 's) \<Rightarrow>
       nat \<Rightarrow> 's \<Rightarrow> ('e + 'v) \<times> 's \<times> nat list" where
  "retry_loop draws max_attempts base_ms jitter_pct is_retryable op attempt s =
     (let attempt' = attempt + 1
      in case op s of
           (Inr v, s') \<Rightarrow> (Inr v, s', [])
         | (Inl e, s') \<Rightarrow>
             if max_attempts \<le> attempt' \<or> \<not> is_retryable e then (Inl e, s', [])
             else let delay = backoff_ms (draws attempt') base_ms attempt' jitter_pct
                  in case retry_loop draws max_attempts base_ms jitter_pct is_retryable op attempt' s' of
                       (r, s'', delays) \<Rightarrow> (r, s'', delay # delays))"
  by pat_completeness auto
termination
  by (relation "measure (\<lambda>(_, max_attempts, _, _, _, _, attempt, _). max_attempts - attempt)") auto

declare retry_loop.simps [simp del]

text \<open>\<open>None\<close> is the failed assertion.\<close>

definition retry_async ::
    "(nat \<Rightarrow> nat \<Rightarrow> nat) \<Rightarrow> nat \<Rightarrow> nat \<Rightarrow> nat \<Rightarrow> ('e \<Rightarrow> bool) \<Rightarrow> ('s \<Rightarrow> ('e + 'v) \<times> 's) \<Rightarrow>
       's \<Rightarrow> (('e + 'v) \<times> 's \<times> nat list) option" where
  "retry_async draws max_attempts base_ms jitter_pct is_retryable op s =
     (if max_attempts \<ge> 1 then Some (retry_loop draws max_attempts base_ms jitter_pct is_retryable op 0 s)
      else None)"

section \<open>Polling\<close>

datatype poll_result = Ready | Exhausted nat

record poll_with_backoff =
  po_base :: nat
  po_cap :: nat
  po_max_failures :: "nat option"

definition poll_new :: "nat \<Rightarrow> nat \<Rightarrow> poll_with_backoff" where
  "poll_new base cap = \<lparr>po_base = base, po_cap = cap, po_max_failures = None\<rparr>"

definition poll_with_max_failures :: "poll_with_backoff \<Rightarrow> nat \<Rightarrow> poll_with_backoff" where
  "poll_with_max_failures p m = p\<lparr>po_max_failures := Some m\<rparr>"

text \<open>
  The loop of \<open>run\<close>. The failure counter is a \<open>u32\<close>; \<open>None\<close> as a result stands for the overflow of
  \<open>failures += 1\<close>, so the loop always ends in the model: with a result, or with the overflow.
\<close>

function poll_loop ::
    "poll_with_backoff \<Rightarrow> ('s \<Rightarrow> bool \<times> 's) \<Rightarrow> nat \<Rightarrow> 's \<Rightarrow> poll_result option \<times> 's \<times> nat list" where
  "poll_loop p tick failures s =
     (if u32_max \<le> failures then (None, s, [])
      else let failures' = failures + 1
           in if (case po_max_failures p of Some m \<Rightarrow> failures' > m | None \<Rightarrow> False)
              then (Some (Exhausted failures'), s, [])
              else let delay = capped_backoff_ms (po_base p mod 2 ^ 64) failures' (po_cap p)
                   in case tick s of
                        (True, s') \<Rightarrow> (Some Ready, s', [delay])
                      | (False, s') \<Rightarrow>
                          (case poll_loop p tick failures' s' of (r, s'', delays) \<Rightarrow> (r, s'', delay # delays)))"
  by pat_completeness auto
termination
  by (relation "measure (\<lambda>(_, _, failures, _). u32_max - failures)") auto

declare poll_loop.simps [simp del]

definition poll_run :: "poll_with_backoff \<Rightarrow> ('s \<Rightarrow> bool \<times> 's) \<Rightarrow> 's \<Rightarrow> poll_result option \<times> 's \<times> nat list" where
  "poll_run p tick s =
     (case tick s of
        (True, s') \<Rightarrow> (Some Ready, s', [])
      | (False, s') \<Rightarrow> poll_loop p tick 0 s')"

section \<open>The calls of a stateful closure\<close>

text \<open>State before the call with index \<open>i\<close> (from 0), and what that call returns.\<close>

fun state_at :: "('s \<Rightarrow> 'r \<times> 's) \<Rightarrow> 's \<Rightarrow> nat \<Rightarrow> 's" where
  "state_at f s 0 = s"
| "state_at f s (Suc i) = state_at f (snd (f s)) i"

definition result_at :: "('s \<Rightarrow> 'r \<times> 's) \<Rightarrow> 's \<Rightarrow> nat \<Rightarrow> 'r" where
  "result_at f s i = fst (f (state_at f s i))"

lemma result_at_0 [simp]: "result_at f s 0 = fst (f s)"
  by (simp add: result_at_def)

lemma result_at_Suc [simp]: "result_at f s (Suc i) = result_at f (snd (f s)) i"
  by (simp add: result_at_def)



lemma retry_loop_spec:
  assumes "attempt < max_attempts"
  shows "\<exists>k. attempt < k \<and> k \<le> max_attempts \<and>
     (\<forall>i < k - attempt - 1. \<exists>e. result_at op s i = Inl e \<and> is_retryable e) \<and>
     (k = max_attempts \<or> (\<forall>e. result_at op s (k - attempt - 1) = Inl e \<longrightarrow> \<not> is_retryable e)) \<and>
     retry_loop draws max_attempts base_ms jitter_pct is_retryable op attempt s =
       (result_at op s (k - attempt - 1), state_at op s (k - attempt),
        map (\<lambda>i. backoff_ms (draws i) base_ms i jitter_pct) [attempt + 1..<k])"
  using assms
proof (induction "max_attempts - attempt" arbitrary: attempt s)
  case (Suc n)
  let ?run = "\<lambda>a s. retry_loop draws max_attempts base_ms jitter_pct is_retryable op a s"
  obtain r s' where op: "op s = (r, s')" by (cases "op s")
  show ?case
  proof (cases "\<exists>e. r = Inl e \<and> is_retryable e \<and> attempt + 1 < max_attempts")
    case False
    then have "?run attempt s = (r, s', [])"
      using op by (subst retry_loop.simps) (auto simp: Let_def split: sum.splits)
    with op False Suc.prems show ?thesis by (intro exI [of _ "attempt + 1"]) (auto simp: not_less)
  next
    case True
    then obtain e where e: "r = Inl e" "is_retryable e" and lt: "attempt + 1 < max_attempts" by blast
    have run: "?run attempt s = (case ?run (attempt + 1) s' of
        (r, s'', delays) \<Rightarrow> (r, s'', backoff_ms (draws (attempt + 1)) base_ms (attempt + 1) jitter_pct # delays))"
      using op e lt by (subst retry_loop.simps) (simp add: Let_def)
    have "n = max_attempts - (attempt + 1)" using Suc.hyps(2) by simp
    from Suc.hyps(1) [OF this lt, of s']
    obtain k where k: "attempt + 1 < k" "k \<le> max_attempts"
      "\<forall>i < k - attempt - 2. \<exists>e. result_at op s' i = Inl e \<and> is_retryable e"
      "k = max_attempts \<or> (\<forall>e. result_at op s' (k - attempt - 2) = Inl e \<longrightarrow> \<not> is_retryable e)"
      "?run (attempt + 1) s' = (result_at op s' (k - attempt - 2), state_at op s' (k - attempt - 1),
        map (\<lambda>i. backoff_ms (draws i) base_ms i jitter_pct) [attempt + 2..<k])"
      by auto
    from k(1) obtain d where d: "k = attempt + 2 + d" using less_iff_Suc_add by auto
    have "\<forall>i < Suc d. \<exists>e. result_at op s i = Inl e \<and> is_retryable e"
      using k(3) op e d by (auto simp: less_Suc_eq_0_disj)
    with k run op d show ?thesis
      by (intro exI [of _ k]) (auto simp: upt_conv_Cons numeral_2_eq_2 simp del: upt_Suc)
  qed
qed simp

section \<open>Bounds of the schedule\<close>

lemma jitter_limit_le: "jitter_limit base_ms jitter_pct \<le> base_ms * min jitter_pct 100 div 100"
  by (simp add: jitter_limit_def u64_saturating_mul_def div_le_mono)

lemma jitter_limit_le_base: "jitter_limit base_ms jitter_pct \<le> base_ms"
proof -
  have "base_ms * min jitter_pct 100 \<le> base_ms * 100" by simp
  then have "base_ms * min jitter_pct 100 div 100 \<le> base_ms" by (metis div_le_mono div_mult_self_is_m zero_less_numeral)
  with jitter_limit_le [of base_ms jitter_pct] show ?thesis by linarith
qed

lemma backoff_ms_range:
  assumes "draw_ok draw"
  shows "\<exists>j \<le> jitter_limit base_ms jitter_pct.
    backoff_ms draw base_ms attempt jitter_pct = min u64_max (base_ms * 2 ^ min (attempt - 1) 63 + j)"
proof -
  let ?m = "jitter_limit base_ms jitter_pct" and ?x = "base_ms * 2 ^ min (attempt - 1) 63"
  have "(if ?m > 0 then draw ?m else 0) \<le> ?m" using assms by (auto simp: draw_ok_def)
  moreover have "min u64_max (min u64_max ?x + j) = min u64_max (?x + j)" for j by linarith
  ultimately show ?thesis
    by (auto simp: backoff_ms_def u64_saturating_add_def u64_saturating_mul_def Let_def)
qed

text \<open>
  C21. The delay after attempt \<open>n\<close> is at least \<open>base * 2^(n-1)\<close> (the exponent capped at 63) and exceeds it by no more
  than the jitter percentage of it, cut off at the largest \<open>u64\<close>; and whatever the jitter draws are, the delays never
  decrease over the first 64 attempts.
\<close>

theorem backoff_schedule:
  assumes "draw_ok draw" and "draw_ok draw'"
  shows "min u64_max (base_ms * 2 ^ min (attempt - 1) 63) \<le> backoff_ms draw base_ms attempt jitter_pct \<and>
    backoff_ms draw base_ms attempt jitter_pct
      \<le> min u64_max (base_ms * 2 ^ min (attempt - 1) 63 + base_ms * 2 ^ min (attempt - 1) 63 * min jitter_pct 100 div 100) \<and>
    (1 \<le> attempt \<and> attempt < 64 \<longrightarrow>
      backoff_ms draw base_ms attempt jitter_pct \<le> backoff_ms draw' base_ms (attempt + 1) jitter_pct)"
proof -
  obtain j where j: "j \<le> jitter_limit base_ms jitter_pct"
      "backoff_ms draw base_ms attempt jitter_pct = min u64_max (base_ms * 2 ^ min (attempt - 1) 63 + j)"
    using backoff_ms_range [OF assms(1)] by blast
  obtain j' where j':
      "backoff_ms draw' base_ms (attempt + 1) jitter_pct = min u64_max (base_ms * 2 ^ min attempt 63 + j')"
    using backoff_ms_range [OF assms(2), of base_ms jitter_pct "attempt + 1"] by auto
  have "base_ms * 2 ^ (attempt - 1) + j \<le> base_ms * 2 ^ attempt" if "1 \<le> attempt"
  proof -
    from that obtain n where n: "attempt = Suc n" by (cases attempt) auto
    have "j \<le> base_ms" using j(1) jitter_limit_le_base [of base_ms jitter_pct] by linarith
    also have "base_ms \<le> base_ms * 2 ^ n" by simp
    finally show ?thesis by (simp add: n)
  qed
  then have "1 \<le> attempt \<and> attempt < 64 \<longrightarrow>
      backoff_ms draw base_ms attempt jitter_pct \<le> backoff_ms draw' base_ms (attempt + 1) jitter_pct"
    using j(2) j' by (auto simp: min_def)
  moreover have "j \<le> base_ms * min jitter_pct 100 div 100"
    using j(1) jitter_limit_le [of base_ms jitter_pct] by linarith
  then have "j \<le> base_ms * 2 ^ min (attempt - 1) 63 * min jitter_pct 100 div 100"
    by (rule order_trans) (simp add: div_le_mono)
  ultimately show ?thesis using j(2) by (auto simp: min_def)
qed

theorem backoff_schedule_witness:
  "backoff_ms (\<lambda>n. n) 100 3 50 = 450 \<and>
   backoff_ms (\<lambda>n. n) 100 3 50 \<le> backoff_ms (\<lambda>_. 0) 100 4 50"
proof -
  have "backoff_ms (\<lambda>n. n) 100 3 50 = 450"
    by (simp add: backoff_ms_def jitter_limit_def u64_saturating_mul_def u64_saturating_add_def u64_max_def Let_def)
  moreover have "backoff_ms (\<lambda>n. n) 100 3 50 \<le> backoff_ms (\<lambda>_. 0) 100 4 50"
    using backoff_schedule [of "\<lambda>n. n" "\<lambda>_. 0" 100 3 50] by (simp add: draw_ok_def)
  ultimately show ?thesis by simp
qed

text \<open>
  C22. \<open>retry_async\<close> panics exactly when no attempt is allowed. Otherwise it makes between one and
  \<open>max_attempts\<close> calls: every call but the last failed with a retryable error, the last one succeeded,
  failed for good or used the last attempt; its result is returned, and before each repetition the loop
  slept the backoff of that attempt and nothing else.
\<close>

theorem retry_async_exact:
  "if max_attempts = 0 then retry_async draws max_attempts base_ms jitter_pct is_retryable op s = None
   else \<exists>k. 1 \<le> k \<and> k \<le> max_attempts \<and>
     (\<forall>i. i + 1 < k \<longrightarrow> (\<exists>e. result_at op s i = Inl e \<and> is_retryable e)) \<and>
     (k = max_attempts \<or> (\<forall>e. result_at op s (k - 1) = Inl e \<longrightarrow> \<not> is_retryable e)) \<and>
     retry_async draws max_attempts base_ms jitter_pct is_retryable op s =
       Some (result_at op s (k - 1), state_at op s k, map (\<lambda>i. backoff_ms (draws i) base_ms i jitter_pct) [1..<k])"
proof (cases "max_attempts = 0")
  case False
  with retry_loop_spec [of 0 max_attempts op s is_retryable draws base_ms jitter_pct] obtain k where k: "0 < k" "k \<le> max_attempts"
      "\<forall>i < k - 1. \<exists>e. result_at op s i = Inl e \<and> is_retryable e"
      "k = max_attempts \<or> (\<forall>e. result_at op s (k - 1) = Inl e \<longrightarrow> \<not> is_retryable e)"
      "retry_loop draws max_attempts base_ms jitter_pct is_retryable op 0 s =
        (result_at op s (k - 1), state_at op s k, map (\<lambda>i. backoff_ms (draws i) base_ms i jitter_pct) [1..<k])"
    by auto
  then have "\<forall>i. i + 1 < k \<longrightarrow> (\<exists>e. result_at op s i = Inl e \<and> is_retryable e)" by auto
  with k False show ?thesis by (auto simp: retry_async_def intro!: exI [of _ k])
qed (simp add: retry_async_def)

definition third_time :: "nat \<Rightarrow> (string + nat) \<times> nat" where
  "third_time n = (if n < 2 then Inl ''busy'' else Inr n, n + 1)"

theorem retry_async_exact_witness:
  "\<exists>k. 1 \<le> k \<and> k \<le> 5 \<and> retry_async (\<lambda>_ _. 0) 5 100 50 (\<lambda>e. e = ''busy'') third_time 0 =
     Some (result_at third_time 0 (k - 1), state_at third_time 0 k, map (\<lambda>i. backoff_ms (\<lambda>_. 0) 100 i 50) [1..<k])"
  using retry_async_exact [of 5 "\<lambda>_ _. 0" 100 50 "\<lambda>e. e = ''busy''" third_time 0] by auto

section \<open>Bounded polling\<close>

lemma poll_loop_spec:
  assumes "po_max_failures p = Some m" and "m < u32_max" and "failures \<le> m"
  shows "\<exists>k. failures + k \<le> m \<and> (\<forall>i < k. \<not> result_at tick s i) \<and>
     poll_loop p tick failures s =
       (if failures + k = m then (Some (Exhausted (m + 1)), state_at tick s k,
             map (\<lambda>i. capped_backoff_ms (po_base p mod 2 ^ 64) i (po_cap p)) [failures + 1..<m + 1])
        else (Some Ready, state_at tick s (k + 1),
             map (\<lambda>i. capped_backoff_ms (po_base p mod 2 ^ 64) i (po_cap p)) [failures + 1..<failures + k + 2])) \<and>
     (failures + k < m \<longrightarrow> result_at tick s k)"
  using assms(3)
proof (induction "m - failures" arbitrary: failures s)
  case 0
  then have "poll_loop p tick failures s = (Some (Exhausted (m + 1)), s, [])"
    using assms(1,2) by (subst poll_loop.simps) (auto simp: Let_def)
  with 0 show ?case by (intro exI [of _ 0]) auto
next
  case (Suc n)
  then have lt: "failures < m" by simp
  obtain b s' where tick: "tick s = (b, s')" by (cases "tick s")
  let ?d = "\<lambda>i. capped_backoff_ms (po_base p mod 2 ^ 64) i (po_cap p)"
  show ?case
  proof (cases b)
    case True
    then have "poll_loop p tick failures s = (Some Ready, s', [?d (failures + 1)])"
      using assms(1,2) lt tick by (subst poll_loop.simps) (simp add: Let_def)
    with lt tick True show ?thesis by (intro exI [of _ 0]) auto
  next
    case False
    then have run: "poll_loop p tick failures s =
        (case poll_loop p tick (failures + 1) s' of (r, s'', delays) \<Rightarrow> (r, s'', ?d (failures + 1) # delays))"
      using assms(1,2) lt tick by (subst poll_loop.simps) (simp add: Let_def)
    have n: "n = m - (failures + 1)" "failures + 1 \<le> m" using Suc.hyps(2) lt by auto
    from Suc.hyps(1) [OF n, of s'] obtain k where k: "failures + 1 + k \<le> m" "\<forall>i < k. \<not> result_at tick s' i"
      "poll_loop p tick (failures + 1) s' =
         (if failures + 1 + k = m then (Some (Exhausted (m + 1)), state_at tick s' k, map ?d [failures + 2..<m + 1])
          else (Some Ready, state_at tick s' (k + 1), map ?d [failures + 2..<failures + k + 3]))"
      "failures + 1 + k < m \<longrightarrow> result_at tick s' k"
      by (auto simp: numeral_2_eq_2 numeral_3_eq_3)
    have "\<forall>i < Suc k. \<not> result_at tick s i" using k(2) tick False by (auto simp: less_Suc_eq_0_disj)
    with k run tick lt show ?thesis
      by (intro exI [of _ "Suc k"]) (auto simp: upt_conv_Cons numeral_2_eq_2 numeral_3_eq_3 simp del: upt_Suc)
  qed
qed

text \<open>
  A poll loop bounded by \<open>max_failures = m\<close> (below the largest \<open>u32\<close>) always returns: \<open>Ready\<close> right after
  the first true tick if one of the first \<open>m + 1\<close> ticks is true, otherwise \<open>Exhausted\<close> with \<open>m + 1\<close>
  failures after exactly \<open>m + 1\<close> false ticks; between ticks it sleeps the capped linear schedule.
\<close>

theorem poll_bounded_exact:
  assumes "m < u32_max"
  shows "let p = poll_with_max_failures (poll_new base cap) m;
             delay = (\<lambda>i. capped_backoff_ms (base mod 2 ^ 64) i cap)
    in (\<exists>k \<le> m. result_at tick s k \<and> (\<forall>i < k. \<not> result_at tick s i) \<and>
          poll_run p tick s = (Some Ready, state_at tick s (k + 1), map delay [1..<k + 1])) \<or>
       ((\<forall>i \<le> m. \<not> result_at tick s i) \<and>
          poll_run p tick s = (Some (Exhausted (m + 1)), state_at tick s (m + 1), map delay [1..<m + 1]))"
proof -
  let ?p = "poll_with_max_failures (poll_new base cap) m"
  let ?d = "\<lambda>i. capped_backoff_ms (base mod 2 ^ 64) i cap"
  obtain b s' where tick: "tick s = (b, s')" by (cases "tick s")
  have p: "po_max_failures ?p = Some m" "po_base ?p = base" "po_cap ?p = cap"
    by (simp_all add: poll_with_max_failures_def poll_new_def)
  show ?thesis
  proof (cases b)
    case True
    with tick show ?thesis by (auto simp: poll_run_def Let_def intro!: exI [of _ 0])
  next
    case False
    obtain k where k: "k \<le> m" "\<forall>i < k. \<not> result_at tick s' i"
      "poll_loop ?p tick 0 s' =
         (if k = m then (Some (Exhausted (m + 1)), state_at tick s' k, map ?d [1..<m + 1])
          else (Some Ready, state_at tick s' (k + 1), map ?d [1..<k + 2]))"
      "k < m \<longrightarrow> result_at tick s' k"
      using poll_loop_spec [OF p(1) assms, of 0 tick s'] p(2,3) by auto
    have before: "\<forall>i < Suc k. \<not> result_at tick s i" using k(2) tick False by (auto simp: less_Suc_eq_0_disj)
    have run: "poll_run ?p tick s = poll_loop ?p tick 0 s'" using tick False by (simp add: poll_run_def)
    show ?thesis
    proof (cases "k = m")
      case True
      with before run k(3) tick show ?thesis by (simp add: Let_def less_Suc_eq_le)
    next
      case False
      with before run k tick have "Suc k \<le> m \<and> result_at tick s (Suc k) \<and> (\<forall>i < Suc k. \<not> result_at tick s i) \<and>
          poll_run ?p tick s = (Some Ready, state_at tick s (Suc k + 1), map ?d [1..<Suc k + 1])" by simp
      then show ?thesis unfolding Let_def by blast
    qed
  qed
qed

definition never :: "nat \<Rightarrow> bool \<times> nat" where
  "never n = (False, n + 1)"

theorem poll_bounded_exact_witness:
  "poll_run (poll_with_max_failures (poll_new 5 12) 2) never 0 = (Some (Exhausted 3), 3, [10, 15])"
proof -
  have no: "\<not> result_at never n k" for n k by (induction k arbitrary: n) (auto simp: never_def)
  have "state_at never 0 3 = 3" by (simp add: numeral_3_eq_3 never_def)
  moreover have "map (\<lambda>i. capped_backoff_ms (5 mod 2 ^ 64) i 12) [1..<2 + 1] = [10, 15]"
    by (simp add: capped_backoff_ms_def u64_saturating_mul_def u64_max_def u32_max_def upt_rec)
  ultimately show ?thesis
    using poll_bounded_exact [where m = 2 and base = 5 and cap = 12 and tick = never and s = 0] no by (simp add: Let_def u32_max_def)
qed

end
