(* ===== verification/Batch.thy ===== *)
theory Batch
  imports DepGraph Retry
begin

text \<open>
  The supervised batch runner of \<open>src/src/fluent-concurrency/src/batch.rs\<close>, over the dependency graph of
  theory \<open>DepGraph\<close> and the retry loop of theory \<open>Retry\<close>.

  The task set behind it (\<open>tokio::task::JoinSet\<close>) is third-party: its operations are the record
  \<open>join_ops\<close> over an opaque state of the runtime, and \<open>join_ops_ok\<close> states what its documentation promises
  of the identifiers of the tasks spawned and not yet joined. A task the batch has spawned may finish,
  fail, panic or be cancelled at any time; \<open>poll_join_next_with_id\<close> reports one such outcome. Arithmetic
  that would underflow in the code makes an operation return \<open>None\<close>.
\<close>

section \<open>Work units\<close>

datatype work_error = Execution string | Dependency string | Timeout nat string

fun we_is_retryable :: "work_error \<Rightarrow> bool" where
  "we_is_retryable (Dependency _) = True"
| "we_is_retryable (Timeout _ _) = True"
| "we_is_retryable (Execution _) = False"

text \<open>
  The body of a task. \<open>elapsed\<close> says whether the timer of \<open>tokio::time::timeout\<close> fires before the retried
  execution is over; the result is \<open>None\<close> when the assertion in \<open>retry_async\<close> fails.
\<close>

definition execute_with_timeout_and_retry ::
    "(nat \<Rightarrow> nat \<Rightarrow> nat) \<Rightarrow> bool \<Rightarrow> string \<Rightarrow> ('s \<Rightarrow> (work_error + 'o) \<times> 's) \<Rightarrow> nat \<Rightarrow> nat \<Rightarrow> (work_error \<Rightarrow> bool) \<Rightarrow>
       nat \<Rightarrow> nat \<Rightarrow> 's \<Rightarrow> (work_error + 'o) option" where
  "execute_with_timeout_and_retry draws elapsed name execute max_retries timeout_ms is_retryable backoff_base_ms
      backoff_jitter_ms s =
     (if timeout_ms > 0 \<and> elapsed then Some (Inl (Timeout timeout_ms name))
      else map_option fst
        (retry_async draws (max (min u32_max (max_retries + 1)) 1) backoff_base_ms (backoff_jitter_ms mod 2 ^ 32)
           is_retryable execute s))"

lemma execute_never_asserts:
  "execute_with_timeout_and_retry draws elapsed name execute max_retries timeout_ms is_retryable base jitter s \<noteq> None"
  by (simp add: execute_with_timeout_and_retry_def retry_async_def)

section \<open>The task set\<close>

datatype 'o join_outcome =
  TaskOk nat 'o | TaskErr nat work_error | TaskCancelled nat | TaskPanicked nat | TaskAbnormal nat

fun outcome_id :: "'o join_outcome \<Rightarrow> nat" where
  "outcome_id (TaskOk i _) = i"
| "outcome_id (TaskErr i _) = i"
| "outcome_id (TaskCancelled i) = i"
| "outcome_id (TaskPanicked i) = i"
| "outcome_id (TaskAbnormal i) = i"

datatype 'o join_poll = JoinReady "'o join_outcome option" | JoinPending

record ('w, 'b, 'o) join_ops =
  js_spawn :: "'w \<Rightarrow> 'b \<Rightarrow> nat \<times> 'w"
  js_poll :: "'w \<Rightarrow> 'o join_poll \<times> 'w"
  js_is_finished :: "'w \<Rightarrow> nat \<Rightarrow> bool"
  js_abort :: "'w \<Rightarrow> nat \<Rightarrow> 'w"
  js_abort_all :: "'w \<Rightarrow> 'w"

text \<open>
  Documented behaviour: a spawned task gets an identifier no unjoined task has; joining yields an unjoined
  task and removes it, says that the set is empty only when it is, and otherwise waits; aborting leaves
  the task to be joined.
\<close>

definition join_ops_ok :: "('w, 'b, 'o) join_ops \<Rightarrow> ('w \<Rightarrow> nat set) \<Rightarrow> bool" where
  "join_ops_ok ops live \<longleftrightarrow>
     (\<forall>w b i w'. js_spawn ops w b = (i, w') \<longrightarrow> i \<notin> live w \<and> live w' = insert i (live w)) \<and>
     (\<forall>w oc w'. js_poll ops w = (JoinReady (Some oc), w') \<longrightarrow>
        outcome_id oc \<in> live w \<and> live w' = live w - {outcome_id oc}) \<and>
     (\<forall>w w'. js_poll ops w = (JoinReady None, w') \<longrightarrow> live w = {} \<and> live w' = {}) \<and>
     (\<forall>w w'. js_poll ops w = (JoinPending, w') \<longrightarrow> live w \<noteq> {} \<and> live w' = live w) \<and>
     (\<forall>w i. live (js_abort ops w i) = live w)"

section \<open>The batch\<close>

datatype cancel_reason = ByTimeout | DependencyFailed | Aborted

datatype 'o batch_event =
  Completed string 'o | Panicked string string | Failed string work_error | Cancelled string cancel_reason

record batch_config =
  bc_poll_budget :: nat
  bc_is_retryable :: "work_error \<Rightarrow> bool"
  bc_backoff_base_ms :: nat
  bc_backoff_jitter_ms :: nat

definition batch_config_default :: batch_config where
  "batch_config_default =
     \<lparr>bc_poll_budget = 64, bc_is_retryable = we_is_retryable, bc_backoff_base_ms = 100, bc_backoff_jitter_ms = 50\<rparr>"

text \<open>Equality of configurations leaves the retry predicate out.\<close>

definition batch_config_eq :: "batch_config \<Rightarrow> batch_config \<Rightarrow> bool" where
  "batch_config_eq a b \<longleftrightarrow> bc_poll_budget a = bc_poll_budget b \<and> bc_backoff_base_ms a = bc_backoff_base_ms b \<and>
     bc_backoff_jitter_ms a = bc_backoff_jitter_ms b"

datatype batch_error = DuplicateName string

record 'o batch_summary =
  sm_completed :: "'o batch_event list"
  sm_panicked :: "'o batch_event list"
  sm_failed :: "'o batch_event list"
  sm_cancelled :: "'o batch_event list"

definition summary_default :: "'o batch_summary" where
  "summary_default = \<lparr>sm_completed = [], sm_panicked = [], sm_failed = [], sm_cancelled = []\<rparr>"

record ('w, 'o) batch =
  ba_config :: batch_config
  ba_graph :: "string dep_graph"
  ba_task_names :: "(nat, string) hmap"
  ba_abort_handles :: "(string, nat) hmap"
  ba_cancelled_tasks :: "string set"
  ba_world :: 'w
  ba_active_count :: nat
  ba_summary :: "'o batch_summary"
  ba_done :: bool

record 'b work_unit =
  un_name :: string
  un_depends :: "string list"
  un_provides :: "string list"
  un_body :: 'b

definition batch_new_with_config :: "batch_config \<Rightarrow> 'w \<Rightarrow> ('w, 'o) batch" where
  "batch_new_with_config config w =
     \<lparr>ba_config = config, ba_graph = dg_new, ba_task_names = hm_empty, ba_abort_handles = hm_empty,
      ba_cancelled_tasks = {}, ba_world = w, ba_active_count = 0, ba_summary = summary_default, ba_done = False\<rparr>"

definition batch_new :: "'w \<Rightarrow> ('w, 'o) batch" where
  "batch_new w = batch_new_with_config batch_config_default w"

definition spawn_unit :: "('w, 'b, 'o) join_ops \<Rightarrow> ('w, 'o) batch \<Rightarrow> 'b work_unit \<Rightarrow> ('w, 'o) batch" where
  "spawn_unit ops b u =
     (case js_spawn ops (ba_world b) (un_body u) of
        (i, w) \<Rightarrow> b\<lparr>ba_world := w, ba_task_names := hm_insert (ba_task_names b) i (un_name u),
                    ba_abort_handles := hm_insert (ba_abort_handles b) (un_name u) i,
                    ba_active_count := ba_active_count b + 1\<rparr>)"

definition batch_register ::
    "('w, 'b, 'o) join_ops \<Rightarrow> ('w, 'o) batch \<Rightarrow> 'b work_unit \<Rightarrow> batch_error + ('w, 'o) batch" where
  "batch_register ops b u =
     (case dg_register (ba_graph b) (un_name u) (un_depends u) (un_provides u) of
        Inl _ \<Rightarrow> Inl (DuplicateName (un_name u))
      | Inr g \<Rightarrow> Inr (spawn_unit ops (b\<lparr>ba_graph := g\<rparr>) u))"

definition abort_one :: "('w, 'b, 'o) join_ops \<Rightarrow> ('w, 'o) batch \<Rightarrow> string \<Rightarrow> ('w, 'o) batch" where
  "abort_one ops b task_name =
     (case hm_get (ba_abort_handles b) task_name of
        None \<Rightarrow> b
      | Some i \<Rightarrow>
          if js_is_finished ops (ba_world b) i then b
          else b\<lparr>ba_world := js_abort ops (ba_world b) i, ba_cancelled_tasks := insert task_name (ba_cancelled_tasks b)\<rparr>)"

definition cancel_dependents_of :: "('w, 'b, 'o) join_ops \<Rightarrow> ('w, 'o) batch \<Rightarrow> string \<Rightarrow> ('w, 'o) batch" where
  "cancel_dependents_of ops b name = foldl (abort_one ops) b (dg_dependents_of (ba_graph b) name)"

section \<open>Polling\<close>

definition take_name :: "('w, 'o) batch \<Rightarrow> nat \<Rightarrow> string \<times> ('w, 'o) batch" where
  "take_name b i =
     (case hm_get (ba_task_names b) i of Some n \<Rightarrow> n | None \<Rightarrow> ''unknown'',
      b\<lparr>ba_task_names := hm_remove (ba_task_names b) i\<rparr>)"

definition push_completed :: "('w, 'o) batch \<Rightarrow> 'o batch_event \<Rightarrow> ('w, 'o) batch" where
  "push_completed b ev = b\<lparr>ba_summary := (ba_summary b)\<lparr>sm_completed := sm_completed (ba_summary b) @ [ev]\<rparr>\<rparr>"

definition push_panicked :: "('w, 'o) batch \<Rightarrow> 'o batch_event \<Rightarrow> ('w, 'o) batch" where
  "push_panicked b ev = b\<lparr>ba_summary := (ba_summary b)\<lparr>sm_panicked := sm_panicked (ba_summary b) @ [ev]\<rparr>\<rparr>"

definition push_failed :: "('w, 'o) batch \<Rightarrow> 'o batch_event \<Rightarrow> ('w, 'o) batch" where
  "push_failed b ev = b\<lparr>ba_summary := (ba_summary b)\<lparr>sm_failed := sm_failed (ba_summary b) @ [ev]\<rparr>\<rparr>"

definition push_cancelled :: "('w, 'o) batch \<Rightarrow> 'o batch_event \<Rightarrow> ('w, 'o) batch" where
  "push_cancelled b ev = b\<lparr>ba_summary := (ba_summary b)\<lparr>sm_cancelled := sm_cancelled (ba_summary b) @ [ev]\<rparr>\<rparr>"

text \<open>The arms of the match for a joined task, up to the counters.\<close>

fun join_event :: "('w, 'b, 'o) join_ops \<Rightarrow> ('w, 'o) batch \<Rightarrow> 'o join_outcome \<Rightarrow> ('w, 'o) batch" where
  "join_event ops b (TaskOk i out) = (case take_name b i of (name, b) \<Rightarrow> push_completed b (Completed name out))"
| "join_event ops b (TaskErr i (Timeout ms u)) =
     (case take_name b i of
        (name, b) \<Rightarrow> push_cancelled (cancel_dependents_of ops b name) (Cancelled name ByTimeout))"
| "join_event ops b (TaskErr i e) =
     (case take_name b i of (name, b) \<Rightarrow> push_failed (cancel_dependents_of ops b name) (Failed name e))"
| "join_event ops b (TaskCancelled i) =
     (case take_name b i of
        (name, b) \<Rightarrow>
          push_cancelled (b\<lparr>ba_cancelled_tasks := ba_cancelled_tasks b - {name}\<rparr>)
            (Cancelled name (if name \<in> ba_cancelled_tasks b then DependencyFailed else Aborted)))"
| "join_event ops b (TaskPanicked i) =
     (case take_name b i of
        (name, b) \<Rightarrow> push_panicked (cancel_dependents_of ops b name) (Panicked name ''task panicked''))"
| "join_event ops b (TaskAbnormal i) =
     (case take_name b i of
        (name, b) \<Rightarrow> push_panicked (cancel_dependents_of ops b name) (Panicked name ''task terminated abnormally''))"

definition join_turn :: "('w, 'b, 'o) join_ops \<Rightarrow> ('w, 'o) batch \<Rightarrow> 'o join_outcome \<Rightarrow> ('w, 'o) batch option" where
  "join_turn ops b oc =
     (let b' = join_event ops b oc
      in if ba_active_count b' = 0 then None else Some (b'\<lparr>ba_active_count := ba_active_count b' - 1\<rparr>))"

definition finish_batch :: "('w, 'o) batch \<Rightarrow> 'o batch_summary \<times> ('w, 'o) batch" where
  "finish_batch b = (ba_summary b, b\<lparr>ba_done := True, ba_summary := summary_default\<rparr>)"

datatype 'o batch_poll = PollReady "'o batch_summary" | PollPending

fun poll_turns :: "('w, 'b, 'o) join_ops \<Rightarrow> nat \<Rightarrow> ('w, 'o) batch \<Rightarrow> ('o batch_poll \<times> ('w, 'o) batch) option" where
  "poll_turns ops budget b =
     (case js_poll ops (ba_world b) of
        (JoinReady (Some oc), w) \<Rightarrow>
          (case join_turn ops (b\<lparr>ba_world := w\<rparr>) oc of
             None \<Rightarrow> None
           | Some b' \<Rightarrow>
               (case budget of
                  0 \<Rightarrow> None
                | Suc budget' \<Rightarrow>
                    if budget' = 0 then Some (PollPending, b')
                    else if ba_active_count b' = 0
                    then (case finish_batch b' of (s, b'') \<Rightarrow> Some (PollReady s, b''))
                    else poll_turns ops budget' b'))
      | (JoinReady None, w) \<Rightarrow> (case finish_batch (b\<lparr>ba_world := w\<rparr>) of (s, b') \<Rightarrow> Some (PollReady s, b'))
      | (JoinPending, w) \<Rightarrow>
          if ba_active_count b = 0 then (case finish_batch (b\<lparr>ba_world := w\<rparr>) of (s, b') \<Rightarrow> Some (PollReady s, b'))
          else Some (PollPending, b\<lparr>ba_world := w\<rparr>))"

declare poll_turns.simps [simp del]

definition batch_poll :: "('w, 'b, 'o) join_ops \<Rightarrow> ('w, 'o) batch \<Rightarrow> ('o batch_poll \<times> ('w, 'o) batch) option" where
  "batch_poll ops b =
     (if ba_done b then Some (PollReady (ba_summary b), b\<lparr>ba_summary := summary_default\<rparr>)
      else poll_turns ops (bc_poll_budget (ba_config b)) b)"

definition batch_drop :: "('w, 'b, 'o) join_ops \<Rightarrow> ('w, 'o) batch \<Rightarrow> ('w, 'o) batch" where
  "batch_drop ops b = (if ba_done b then b else b\<lparr>ba_world := js_abort_all ops (ba_world b)\<rparr>)"

section \<open>Batches in use\<close>

text \<open>
  Registrations and polls until the batch is done; between them the tasks make progress, which changes
  the state of the runtime but not the set of unjoined tasks.
\<close>

inductive batch_reach :: "('w, 'b, 'o) join_ops \<Rightarrow> ('w \<Rightarrow> nat set) \<Rightarrow> ('w, 'o) batch \<Rightarrow> bool" for ops live where
  br_new: "live w = {} \<Longrightarrow> bc_poll_budget config > 0 \<Longrightarrow> batch_reach ops live (batch_new_with_config config w)"
| br_register: "batch_reach ops live b \<Longrightarrow> batch_register ops b u = Inr b' \<Longrightarrow> batch_reach ops live b'"
| br_progress: "batch_reach ops live b \<Longrightarrow> live w = live (ba_world b) \<Longrightarrow> batch_reach ops live (b\<lparr>ba_world := w\<rparr>)"
| br_poll: "batch_reach ops live b \<Longrightarrow> batch_poll ops b = Some (PollPending, b') \<Longrightarrow> batch_reach ops live b'"

fun event_name :: "'o batch_event \<Rightarrow> string" where
  "event_name (Completed n _) = n"
| "event_name (Panicked n _) = n"
| "event_name (Failed n _) = n"
| "event_name (Cancelled n _) = n"

definition summary_events :: "'o batch_summary \<Rightarrow> 'o batch_event list" where
  "summary_events s = sm_completed s @ sm_panicked s @ sm_failed s @ sm_cancelled s"

definition name_of :: "('w, 'o) batch \<Rightarrow> nat \<Rightarrow> string" where
  "name_of b i = the (hm_get (ba_task_names b) i)"

text \<open>Every registered task is either unjoined or reported, exactly once.\<close>

definition batch_inv :: "('w \<Rightarrow> nat set) \<Rightarrow> ('w, 'o) batch \<Rightarrow> bool" where
  "batch_inv live b \<longleftrightarrow>
     \<not> ba_done b \<and> bc_poll_budget (ba_config b) > 0 \<and> dg_wf (ba_graph b) \<and>
     finite (live (ba_world b)) \<and> dom (hm_get (ba_task_names b)) = live (ba_world b) \<and>
     ba_active_count b = card (live (ba_world b)) \<and>
     mset (map event_name (summary_events (ba_summary b))) + image_mset (name_of b) (mset_set (live (ba_world b))) =
       mset (dg_nodes (ba_graph b))"

lemma batch_inv_new: "live w = {} \<Longrightarrow> bc_poll_budget config > 0 \<Longrightarrow> batch_inv live (batch_new_with_config config w)"
  by (simp add: batch_inv_def batch_new_with_config_def summary_default_def summary_events_def dg_wf_new)
     (simp add: dg_new_def)

lemma batch_inv_register:
  assumes "batch_inv live b" and "join_ops_ok ops live" and "batch_register ops b u = Inr b'"
  shows "batch_inv live b'"
proof -
  obtain g where g: "dg_register (ba_graph b) (un_name u) (un_depends u) (un_provides u) = Inr g"
    and b': "b' = spawn_unit ops (b\<lparr>ba_graph := g\<rparr>) u"
    using assms(3) by (auto simp: batch_register_def split: sum.splits)
  obtain i w where sp: "js_spawn ops (ba_world b) (un_body u) = (i, w)" by (cases "js_spawn ops (ba_world b) (un_body u)")
  then have fresh: "i \<notin> live (ba_world b)" and live: "live w = insert i (live (ba_world b))"
    using assms(2) unfolding join_ops_ok_def by blast+
  have wf: "dg_wf g" using dg_register_wf [OF _ g] assms(1) by (simp add: batch_inv_def)
  have nodes: "dg_nodes g = dg_nodes (ba_graph b) @ [un_name u]"
    using g by (auto simp: dg_register_def split: if_splits)
  have names: "image_mset (name_of b') (mset_set (live w)) =
      add_mset (un_name u) (image_mset (name_of b) (mset_set (live (ba_world b))))"
  proof -
    have "image_mset (name_of b') (mset_set (live (ba_world b))) = image_mset (name_of b) (mset_set (live (ba_world b)))"
      using fresh assms(1) sp by (intro image_mset_cong) (auto simp: b' spawn_unit_def name_of_def batch_inv_def)
    then show ?thesis using fresh assms(1) sp live by (simp add: b' spawn_unit_def name_of_def batch_inv_def)
  qed
  show ?thesis
    using assms(1) wf nodes names fresh live sp unfolding batch_inv_def b'
    by (simp add: spawn_unit_def)
qed

text \<open>Cancelling dependents touches only the runtime and the set of cancelled tasks.\<close>

lemma abort_all_keeps:
  assumes "join_ops_ok ops live"
  shows "\<exists>w C. live w = live (ba_world b) \<and>
    foldl (abort_one ops) b ns = b\<lparr>ba_world := w, ba_cancelled_tasks := C\<rparr> \<and> C \<subseteq> ba_cancelled_tasks b \<union> set ns"
proof (induction ns arbitrary: b)
  case Nil
  show ?case by (intro exI [of _ "ba_world b"] exI [of _ "ba_cancelled_tasks b"]) simp
next
  case (Cons n ns)
  have keep: "live (js_abort ops w i) = live w" for w i using assms by (simp add: join_ops_ok_def)
  obtain w C where 1: "live w = live (ba_world b)" "C \<subseteq> ba_cancelled_tasks b \<union> {n}"
    "abort_one ops b n = b\<lparr>ba_world := w, ba_cancelled_tasks := C\<rparr>"
  proof (cases "\<exists>i. hm_get (ba_abort_handles b) n = Some i \<and> \<not> js_is_finished ops (ba_world b) i")
    case True
    then obtain i where "hm_get (ba_abort_handles b) n = Some i" "\<not> js_is_finished ops (ba_world b) i" by blast
    then show thesis
      by (intro that [of "js_abort ops (ba_world b) i" "insert n (ba_cancelled_tasks b)"]) (auto simp: abort_one_def keep)
  next
    case False
    then have "abort_one ops b n = b" by (auto simp: abort_one_def split: option.splits)
    then show thesis by (intro that [of "ba_world b" "ba_cancelled_tasks b"]) auto
  qed
  obtain w' C' where "live w' = live w" "C' \<subseteq> C \<union> set ns"
    "foldl (abort_one ops) (abort_one ops b n) ns = (abort_one ops b n)\<lparr>ba_world := w', ba_cancelled_tasks := C'\<rparr>"
    using Cons.IH [of "abort_one ops b n"] 1 by auto
  with 1 show ?case by (intro exI [of _ w'] exI [of _ C']) auto
qed

lemma cancel_dependents_keeps:
  assumes "join_ops_ok ops live"
  obtains w C where "live w = live (ba_world b)"
    and "cancel_dependents_of ops b n = b\<lparr>ba_world := w, ba_cancelled_tasks := C\<rparr>"
    and "C \<subseteq> ba_cancelled_tasks b \<union> set (dg_dependents_of (ba_graph b) n)"
  using abort_all_keeps [OF assms, of b "dg_dependents_of (ba_graph b) n"] unfolding cancel_dependents_of_def by blast

text \<open>Whether an event records a task that did not deliver, so that its dependents are cancelled.\<close>

fun broken_event :: "'o batch_event \<Rightarrow> bool" where
  "broken_event (Completed _ _) = False"
| "broken_event (Panicked _ _) = True"
| "broken_event (Failed _ _) = True"
| "broken_event (Cancelled _ r) = (r = ByTimeout)"

text \<open>What one joined task does to the batch: one event of its name; cancellations only by a broken task.\<close>

lemma join_event_effect:
  assumes ok: "join_ops_ok ops live" and name: "hm_get (ba_task_names b) (outcome_id oc) = Some n"
  obtains w C s ev where
    "join_event ops b oc = b\<lparr>ba_task_names := hm_remove (ba_task_names b) (outcome_id oc), ba_world := w,
       ba_cancelled_tasks := C, ba_summary := s\<rparr>"
    and "live w = live (ba_world b)" and "event_name ev = n"
    and "mset (summary_events s) = add_mset ev (mset (summary_events (ba_summary b)))"
    and "ev = Cancelled n DependencyFailed \<longrightarrow> n \<in> ba_cancelled_tasks b"
    and "C \<subseteq> ba_cancelled_tasks b \<union> (if broken_event ev then set (dg_dependents_of (ba_graph b) n) else {})"
proof -
  let ?b = "b\<lparr>ba_task_names := hm_remove (ba_task_names b) (outcome_id oc)\<rparr>"
  have take: "take_name b (outcome_id oc) = (n, ?b)" using name by (simp add: take_name_def)
  obtain w C where c: "live w = live (ba_world b)" "cancel_dependents_of ops ?b n = ?b\<lparr>ba_world := w, ba_cancelled_tasks := C\<rparr>"
    "C \<subseteq> ba_cancelled_tasks b \<union> set (dg_dependents_of (ba_graph b) n)"
    using cancel_dependents_keeps [OF ok, of ?b n] by auto
  show thesis
  proof (cases oc)
    case (TaskOk i out)
    with take show thesis
      by (intro that [where s = "(ba_summary b)\<lparr>sm_completed := sm_completed (ba_summary b) @ [Completed n out]\<rparr>"
          and ev = "Completed n out" and w = "ba_world b" and C = "ba_cancelled_tasks b"])
         (auto simp: push_completed_def summary_events_def)
  next
    case (TaskErr i e)
    show thesis
    proof (cases e)
      case (Timeout ms u)
      with TaskErr take c show thesis
        by (intro that [where s = "(ba_summary b)\<lparr>sm_cancelled := sm_cancelled (ba_summary b) @ [Cancelled n ByTimeout]\<rparr>"
            and ev = "Cancelled n ByTimeout" and w = w and C = C]) (auto simp: push_cancelled_def summary_events_def)
    qed (use TaskErr take c in \<open>auto intro!: that [where s = "(ba_summary b)\<lparr>sm_failed := sm_failed (ba_summary b) @ [Failed n e]\<rparr>"
            and ev = "Failed n e" and w = w and C = C] simp: push_failed_def summary_events_def\<close>)
  next
    case (TaskCancelled i)
    let ?ev = "Cancelled n (if n \<in> ba_cancelled_tasks b then DependencyFailed else Aborted)"
    from TaskCancelled take show thesis
      by (intro that [where s = "(ba_summary b)\<lparr>sm_cancelled := sm_cancelled (ba_summary b) @ [?ev]\<rparr>" and ev = ?ev
          and w = "ba_world b" and C = "ba_cancelled_tasks b - {n}"])
         (auto simp: push_cancelled_def summary_events_def split: if_splits)
  next
    case (TaskPanicked i)
    with take c show thesis
      by (intro that [where s = "(ba_summary b)\<lparr>sm_panicked := sm_panicked (ba_summary b) @ [Panicked n ''task panicked'']\<rparr>"
          and ev = "Panicked n ''task panicked''" and w = w and C = C]) (auto simp: push_panicked_def summary_events_def)
  next
    case (TaskAbnormal i)
    let ?ev = "Panicked n ''task terminated abnormally''"
    from TaskAbnormal take c show thesis
      by (intro that [where s = "(ba_summary b)\<lparr>sm_panicked := sm_panicked (ba_summary b) @ [?ev]\<rparr>" and ev = ?ev
          and w = w and C = C]) (auto simp: push_panicked_def summary_events_def)
  qed
qed


text \<open>Every cancellation blamed on a dependency has a broken prerequisite among the events.\<close>

definition blamed :: "string dep_graph \<Rightarrow> 'o batch_event set \<Rightarrow> string \<Rightarrow> bool" where
  "blamed g evs n \<longleftrightarrow> (\<exists>ev \<in> evs. broken_event ev \<and> (event_name ev, n) \<in> {(p, n). feeds g p n}\<^sup>+)"

definition cancel_inv :: "string dep_graph \<Rightarrow> string set \<Rightarrow> 'o batch_event list \<Rightarrow> bool" where
  "cancel_inv g C evs \<longleftrightarrow>
     (\<forall>n \<in> C. blamed g (set evs) n) \<and> (\<forall>n. Cancelled n DependencyFailed \<in> set evs \<longrightarrow> blamed g (set evs) n)"

lemma blamed_mono: "blamed g evs n \<Longrightarrow> evs \<subseteq> evs' \<Longrightarrow> blamed g evs' n"
  by (auto simp: blamed_def)

lemma feeds_register_mono:
  assumes "dg_wf g" and "dg_register g node ds ps = Inr g'"
  shows "{(p, n). feeds g p n} \<subseteq> {(p, n). feeds g' p n}"
proof -
  have new: "node \<notin> set (dg_nodes g)"
    using assms by (auto simp: dg_register_def dg_wf_def hm_contains_def split: if_splits)
  show ?thesis
  proof (clarify)
    fix p n assume f: "feeds g p n"
    with feeds_registered [OF assms(1)] new have "p \<noteq> node" "n \<noteq> node" by blast+
    with f assms(2) show "feeds g' p n" by (auto simp: feeds_def dg_register_def split: if_splits)
  qed
qed

lemma cancel_inv_register:
  assumes "dg_wf g" and "dg_register g node ds ps = Inr g'" and "cancel_inv g C evs"
  shows "cancel_inv g' C evs"
proof -
  have "blamed g' (set evs) n" if "blamed g (set evs) n" for n
    using that trancl_mono [OF _ feeds_register_mono [OF assms(1,2)]] by (auto simp: blamed_def)
  with assms(3) show ?thesis by (auto simp: cancel_inv_def)
qed

text \<open>Reporting a task keeps the count of names: the reported name moves from the live tasks to the events.\<close>

lemma reported_names:
  assumes inv: "batch_inv live b" and i: "i \<in> live (ba_world b)" and n: "hm_get (ba_task_names b) i = Some n"
    and evs: "mset evs = add_mset ev (mset (summary_events (ba_summary b)))" and name: "event_name ev = n"
    and names: "ba_task_names b' = hm_remove (ba_task_names b) i"
  shows "mset (map event_name evs) + image_mset (name_of b') (mset_set (live (ba_world b) - {i})) = mset (dg_nodes (ba_graph b))"
proof -
  let ?L = "live (ba_world b)"
  have fin: "finite ?L" using inv by (simp add: batch_inv_def)
  have split: "mset_set ?L = add_mset i (mset_set (?L - {i}))" using i fin by (simp add: mset_set.remove)
  have "image_mset (name_of b') (mset_set (?L - {i})) = image_mset (name_of b) (mset_set (?L - {i}))"
    using fin by (intro image_mset_cong) (auto simp: name_of_def names)
  moreover have "name_of b i = n" using n by (simp add: name_of_def)
  moreover have "mset (map event_name evs) = add_mset n (mset (map event_name (summary_events (ba_summary b))))"
    using arg_cong [OF evs, of "image_mset event_name"] name by simp
  moreover have "mset (map event_name (summary_events (ba_summary b))) + image_mset (name_of b) (mset_set ?L) =
      mset (dg_nodes (ba_graph b))"
    using inv by (simp add: batch_inv_def)
  ultimately show ?thesis by (simp add: split)
qed

text \<open>Every cancellation goes back to a broken task, the one reported last included.\<close>

lemma cancel_inv_report:
  assumes wf: "dg_wf g" and cinv: "cancel_inv g C evs" and evs: "set evs' = insert ev (set evs)"
    and dep: "ev = Cancelled (event_name ev) DependencyFailed \<Longrightarrow> event_name ev \<in> C"
    and C': "C' \<subseteq> C \<union> (if broken_event ev then set (dg_dependents_of g (event_name ev)) else {})"
  shows "cancel_inv g C' evs'"
proof -
  have old: "blamed g (set evs') m" if "blamed g (set evs) m" for m using that evs by (auto intro: blamed_mono)
  have "blamed g (set evs') m" if "m \<in> C'" for m
  proof (cases "m \<in> C")
    case True
    with cinv old show ?thesis by (auto simp: cancel_inv_def)
  next
    case False
    with that C' have br: "broken_event ev" and "m \<in> set (dg_dependents_of g (event_name ev))" by (auto split: if_splits)
    then have "(event_name ev, m) \<in> {(p, n). feeds g p n}\<^sup>+"
      unfolding dg_dependents_of_via(1) via_rel_feeds [OF wf] rtrancl_eq_or_trancl by blast
    with br evs show ?thesis by (auto simp: blamed_def)
  qed
  moreover have "blamed g (set evs') m" if "Cancelled m DependencyFailed \<in> set evs'" for m
    using that cinv old dep unfolding evs cancel_inv_def by auto
  ultimately show ?thesis by (simp add: cancel_inv_def)
qed

lemma join_turn_inv:
  assumes inv: "batch_inv live b" and ok: "join_ops_ok ops live"
    and poll: "js_poll ops (ba_world b) = (JoinReady (Some oc), w)"
    and cinv: "cancel_inv (ba_graph b) (ba_cancelled_tasks b) (summary_events (ba_summary b))"
  obtains b' where "join_turn ops (b\<lparr>ba_world := w\<rparr>) oc = Some b'" and "batch_inv live b'" and "ba_graph b' = ba_graph b"
    and "cancel_inv (ba_graph b') (ba_cancelled_tasks b') (summary_events (ba_summary b'))"
proof -
  let ?b = "b\<lparr>ba_world := w\<rparr>" and ?i = "outcome_id oc" and ?L = "live (ba_world b)"
  have i: "?i \<in> ?L" and live: "live w = ?L - {?i}" using ok poll unfolding join_ops_ok_def by blast+
  have fin: "finite ?L" and dom: "dom (hm_get (ba_task_names b)) = ?L" and act: "ba_active_count b = card ?L"
    and wf: "dg_wf (ba_graph b)"
    using inv by (auto simp: batch_inv_def)
  from i dom obtain n where n: "hm_get (ba_task_names b) ?i = Some n" by auto
  then have "hm_get (ba_task_names ?b) ?i = Some n" by simp
  from join_event_effect [OF ok this] obtain w' C s ev where
    je: "join_event ops ?b oc = ?b\<lparr>ba_task_names := hm_remove (ba_task_names ?b) ?i, ba_world := w',
       ba_cancelled_tasks := C, ba_summary := s\<rparr>" and lw: "live w' = live (ba_world ?b)" and name: "event_name ev = n"
    and evs: "mset (summary_events s) = add_mset ev (mset (summary_events (ba_summary ?b)))"
    and dep: "ev = Cancelled n DependencyFailed \<longrightarrow> n \<in> ba_cancelled_tasks ?b"
    and C: "C \<subseteq> ba_cancelled_tasks ?b \<union> (if broken_event ev then set (dg_dependents_of (ba_graph ?b) n) else {})" .
  let ?b' = "join_event ops ?b oc\<lparr>ba_active_count := card ?L - 1\<rparr>"
  have "card ?L \<noteq> 0" using i fin by auto
  then have turn: "join_turn ops ?b oc = Some ?b'" using act by (simp add: join_turn_def je Let_def)
  have "mset (summary_events s) = add_mset ev (mset (summary_events (ba_summary b)))" using evs by simp
  from reported_names [OF inv i n this name, of ?b']
  have inv': "batch_inv live ?b'" using inv fin i dom lw live unfolding batch_inv_def by (simp add: je)
  have "set (summary_events s) = insert ev (set (summary_events (ba_summary b)))" using arg_cong [OF evs, of set_mset] by simp
  from cancel_inv_report [OF wf cinv this, of C]
  have "cancel_inv (ba_graph b) C (summary_events s)" using dep C name by (cases "broken_event ev") simp_all
  with turn inv' show thesis using that by (simp add: je)
qed

lemma batch_inv_ready:
  "batch_inv live b \<Longrightarrow> live (ba_world b) = {} \<Longrightarrow>
     mset (map event_name (summary_events (ba_summary b))) = mset (dg_nodes (ba_graph b))"
  by (simp add: batch_inv_def)

lemma batch_inv_idle: "batch_inv live b \<Longrightarrow> ba_active_count b = 0 \<Longrightarrow> live (ba_world b) = {}"
  by (auto simp: batch_inv_def)

lemma cancel_inv_drop: "cancel_inv g C evs \<Longrightarrow> cancel_inv g {} evs"
  by (simp add: cancel_inv_def)

text \<open>A run of the poll loop: it never underflows, and a summary is returned only when every task is reported.\<close>

lemma poll_turns_inv:
  assumes "batch_inv live b" and "join_ops_ok ops live" and "budget > 0"
    and "cancel_inv (ba_graph b) (ba_cancelled_tasks b) (summary_events (ba_summary b))"
  shows "case poll_turns ops budget b of
      None \<Rightarrow> False
    | Some (PollPending, b') \<Rightarrow> batch_inv live b' \<and> ba_graph b' = ba_graph b \<and>
        cancel_inv (ba_graph b') (ba_cancelled_tasks b') (summary_events (ba_summary b'))
    | Some (PollReady s, b') \<Rightarrow> ba_done b' \<and> ba_graph b' = ba_graph b \<and>
        mset (map event_name (summary_events s)) = mset (dg_nodes (ba_graph b)) \<and>
        cancel_inv (ba_graph b) {} (summary_events s)"
  using assms
proof (induction budget arbitrary: b)
  case (Suc budget)
  obtain jp w where poll: "js_poll ops (ba_world b) = (jp, w)" by (cases "js_poll ops (ba_world b)")
  show ?case
  proof (cases jp)
    case JoinPending
    then have ne: "live (ba_world b) \<noteq> {}" and same: "live w = live (ba_world b)"
      using poll Suc.prems(2) unfolding join_ops_ok_def by blast+
    have "batch_inv live (b\<lparr>ba_world := w\<rparr>)"
      using Suc.prems(1) same by (simp add: batch_inv_def name_of_def [abs_def])
    moreover have "ba_active_count b \<noteq> 0" using batch_inv_idle Suc.prems(1) ne by blast
    ultimately show ?thesis using poll JoinPending Suc.prems(4) by (simp add: poll_turns.simps)
  next
    case (JoinReady r)
    show ?thesis
    proof (cases r)
      case None
      then have "live (ba_world b) = {}" using poll JoinReady Suc.prems(2) unfolding join_ops_ok_def by blast
      from batch_inv_ready [OF Suc.prems(1) this] show ?thesis
        using poll JoinReady None cancel_inv_drop [OF Suc.prems(4)] by (simp add: poll_turns.simps finish_batch_def)
    next
      case (Some oc)
      obtain b' where b': "join_turn ops (b\<lparr>ba_world := w\<rparr>) oc = Some b'" "batch_inv live b'" "ba_graph b' = ba_graph b"
        "cancel_inv (ba_graph b') (ba_cancelled_tasks b') (summary_events (ba_summary b'))"
        using join_turn_inv [OF Suc.prems(1,2) _ Suc.prems(4)] poll JoinReady Some by metis
      have step: "poll_turns ops (Suc budget) b =
          (if budget = 0 then Some (PollPending, b')
           else if ba_active_count b' = 0 then (case finish_batch b' of (s, b'') \<Rightarrow> Some (PollReady s, b''))
           else poll_turns ops budget b')"
        using poll JoinReady Some b'(1) by (simp add: poll_turns.simps [of ops "Suc budget"])
      consider "budget = 0" | "budget > 0" "ba_active_count b' = 0" | "budget > 0" "ba_active_count b' > 0" by blast
      then show ?thesis
      proof cases
        case 1
        with step b' show ?thesis by simp
      next
        case 2
        with step b' batch_inv_ready [OF b'(2) batch_inv_idle [OF b'(2) 2(2)]] cancel_inv_drop [OF b'(4)] show ?thesis by (simp add: finish_batch_def)
      next
        case 3
        with Suc.IH [OF b'(2) Suc.prems(2) 3(1) b'(4)] show ?thesis unfolding b'(3) step by simp
      qed
    qed
  qed
qed simp

lemma batch_reach_inv:
  assumes "batch_reach ops live b" and "join_ops_ok ops live"
  shows "batch_inv live b \<and> cancel_inv (ba_graph b) (ba_cancelled_tasks b) (summary_events (ba_summary b))"
  using assms(1)
proof (induction rule: batch_reach.induct)
  case (br_new w config)
  from batch_inv_new [of live, OF this] show ?case
    by (simp add: cancel_inv_def batch_new_with_config_def summary_default_def summary_events_def)
next
  case (br_register b u b')
  obtain g where g: "dg_register (ba_graph b) (un_name u) (un_depends u) (un_provides u) = Inr g"
    and b': "b' = spawn_unit ops (b\<lparr>ba_graph := g\<rparr>) u"
    using br_register.hyps(2) by (auto simp: batch_register_def split: sum.splits)
  have "dg_wf (ba_graph b)" using br_register.IH by (simp add: batch_inv_def)
  with cancel_inv_register [OF _ g] br_register.IH
  have "cancel_inv g (ba_cancelled_tasks b) (summary_events (ba_summary b))" by blast
  moreover have "batch_inv live b'"
    using batch_inv_register [OF _ assms(2) br_register.hyps(2)] br_register.IH by blast
  ultimately show ?case by (simp add: b' spawn_unit_def split: prod.splits)
next
  case (br_progress b w)
  then show ?case by (simp add: batch_inv_def name_of_def [abs_def])
next
  case (br_poll b b')
  then have "\<not> ba_done b" "bc_poll_budget (ba_config b) > 0" by (auto simp: batch_inv_def)
  then have run: "poll_turns ops (bc_poll_budget (ba_config b)) b = Some (PollPending, b')" and budget: "bc_poll_budget (ba_config b) > 0"
    using br_poll.hyps(2) by (simp_all add: batch_poll_def)
  from poll_turns_inv [OF conjunct1 [OF br_poll.IH] assms(2) budget conjunct2 [OF br_poll.IH], unfolded run] show ?case by auto
qed

section \<open>Properties\<close>

text \<open>
  C24. Polling a batch never panics while its poll budget is positive, and the summary it finally returns
  has exactly one event for every registered task, whatever the tasks do and however registrations, polls
  and the progress of the tasks interleave.
\<close>

theorem batch_reports_each_task_once:
  assumes "join_ops_ok ops live" and "batch_reach ops live b"
  shows "\<exists>r b'. batch_poll ops b = Some (r, b') \<and>
    (\<forall>s. r = PollReady s \<longrightarrow> mset (map event_name (summary_events s)) = mset (dg_nodes (ba_graph b)) \<and>
       distinct (map event_name (summary_events s)))"
proof -
  have inv: "batch_inv live b" and cinv: "cancel_inv (ba_graph b) (ba_cancelled_tasks b) (summary_events (ba_summary b))"
    using batch_reach_inv [OF assms(2,1)] by auto
  have budget: "bc_poll_budget (ba_config b) > 0" and run: "batch_poll ops b = poll_turns ops (bc_poll_budget (ba_config b)) b"
    and dist: "distinct (dg_nodes (ba_graph b))"
    using inv by (auto simp: batch_inv_def batch_poll_def dg_wf_def)
  obtain r b' where r: "batch_poll ops b = Some (r, b')"
    using poll_turns_inv [OF inv assms(1) budget cinv] run by (auto split: option.splits)
  have "mset (map event_name (summary_events s)) = mset (dg_nodes (ba_graph b))" if "r = PollReady s" for s
    using poll_turns_inv [OF inv assms(1) budget cinv, folded run, unfolded r that] by simp
  with r dist show ?thesis by (metis mset_eq_imp_distinct_iff)
qed

text \<open>
  A task is reported as cancelled because a dependency failed only when some task it depends on,
  directly or transitively, is itself reported as failed, panicked or timed out.
\<close>

theorem batch_cancels_only_dependents:
  assumes "join_ops_ok ops live" and "batch_reach ops live b"
    and "batch_poll ops b = Some (PollReady s, b')" and "Cancelled n DependencyFailed \<in> set (sm_cancelled s)"
  shows "\<exists>ev \<in> set (summary_events s). broken_event ev \<and> (event_name ev, n) \<in> {(p, n). feeds (ba_graph b) p n}\<^sup>+"
proof -
  have inv: "batch_inv live b" and cinv: "cancel_inv (ba_graph b) (ba_cancelled_tasks b) (summary_events (ba_summary b))"
    using batch_reach_inv [OF assms(2,1)] by auto
  have budget: "bc_poll_budget (ba_config b) > 0" and run: "batch_poll ops b = poll_turns ops (bc_poll_budget (ba_config b)) b"
    using inv by (auto simp: batch_inv_def batch_poll_def)
  have "cancel_inv (ba_graph b) {} (summary_events s)"
    using poll_turns_inv [OF inv assms(1) budget cinv, folded run, unfolded assms(3)] by simp
  moreover have "Cancelled n DependencyFailed \<in> set (summary_events s)" using assms(4) by (simp add: summary_events_def)
  ultimately show ?thesis by (simp add: cancel_inv_def blamed_def)
qed

text \<open>
  A runtime that satisfies the documented contract: tasks are joined in the order they were spawned, with
  consecutive identifiers; an abort turns a task that has not been joined into a cancelled one.
\<close>

datatype sim_task = SimOk nat | SimPanic | SimCancelled

fun sim_outcome :: "nat \<Rightarrow> sim_task \<Rightarrow> nat join_outcome" where
  "sim_outcome i (SimOk v) = TaskOk i v"
| "sim_outcome i SimPanic = TaskPanicked i"
| "sim_outcome i SimCancelled = TaskCancelled i"

definition sim_ops :: "(nat \<times> sim_task list, sim_task, nat) join_ops" where
  "sim_ops =
     \<lparr>js_spawn = (\<lambda>(base, q) body. (base + length q, (base, q @ [body]))),
      js_poll = (\<lambda>(base, q). case q of [] \<Rightarrow> (JoinReady None, (base, []))
                              | t # q' \<Rightarrow> (JoinReady (Some (sim_outcome base t)), (Suc base, q'))),
      js_is_finished = (\<lambda>(base, q) i. i < base),
      js_abort = (\<lambda>(base, q) i. (base, q[i - base := SimCancelled])),
      js_abort_all = (\<lambda>(base, q). (base, map (\<lambda>_. SimCancelled) q))\<rparr>"

definition sim_live :: "nat \<times> sim_task list \<Rightarrow> nat set" where
  "sim_live w = {fst w..<fst w + length (snd w)}"

lemma sim_outcome_id [simp]: "outcome_id (sim_outcome i t) = i"
  by (cases t) auto

lemma sim_ops_ok: "join_ops_ok sim_ops sim_live"
  by (auto simp: join_ops_ok_def sim_ops_def sim_live_def split: list.splits)

text \<open>A task that panics, one that needs its asset, and an independent one.\<close>

definition sim_batch :: "(nat \<times> sim_task list, nat) batch" where
  "sim_batch =
     foldl (\<lambda>b u. case batch_register sim_ops b u of Inr b' \<Rightarrow> b' | Inl _ \<Rightarrow> b) (batch_new (0, []))
       [\<lparr>un_name = ''fetch'', un_depends = [], un_provides = [''data''], un_body = SimPanic\<rparr>,
        \<lparr>un_name = ''render'', un_depends = [''data''], un_provides = [], un_body = SimOk 1\<rparr>,
        \<lparr>un_name = ''log'', un_depends = [], un_provides = [], un_body = SimOk 2\<rparr>]"

lemma batch_reach_fold:
  "batch_reach ops live b \<Longrightarrow>
   batch_reach ops live (foldl (\<lambda>b u. case batch_register ops b u of Inr b' \<Rightarrow> b' | Inl _ \<Rightarrow> b) b us)"
  by (induction us arbitrary: b) (auto split: sum.splits intro: br_register)

lemma sim_batch_reach: "batch_reach sim_ops sim_live sim_batch"
  unfolding sim_batch_def
  by (intro batch_reach_fold) (simp add: batch_new_def br_new sim_live_def batch_config_default_def)

lemma sim_batch_poll:
  "map_option fst (batch_poll sim_ops sim_batch) =
     Some (PollReady \<lparr>sm_completed = [Completed ''log'' 2], sm_panicked = [Panicked ''fetch'' ''task panicked''],
       sm_failed = [], sm_cancelled = [Cancelled ''render'' DependencyFailed]\<rparr>)"
  by code_simp

theorem batch_reports_each_task_once_witness:
  "\<exists>r b'. batch_poll sim_ops sim_batch = Some (r, b') \<and>
    (\<forall>s. r = PollReady s \<longrightarrow> mset (map event_name (summary_events s)) = mset (dg_nodes (ba_graph sim_batch)) \<and>
       distinct (map event_name (summary_events s)))"
  by (rule batch_reports_each_task_once [OF sim_ops_ok sim_batch_reach])

theorem batch_cancels_only_dependents_witness:
  "\<exists>m \<in> {''fetch'', ''render'', ''log''}. (m, ''render'') \<in> {(p, n). feeds (ba_graph sim_batch) p n}\<^sup>+"
proof -
  from sim_batch_poll obtain b' where poll: "batch_poll sim_ops sim_batch =
      Some (PollReady \<lparr>sm_completed = [Completed ''log'' 2], sm_panicked = [Panicked ''fetch'' ''task panicked''],
       sm_failed = [], sm_cancelled = [Cancelled ''render'' DependencyFailed]\<rparr>, b')"
    by (auto simp: map_option_eq_Some)
  have "Cancelled ''render'' DependencyFailed \<in> set (sm_cancelled \<lparr>sm_completed = [Completed ''log'' 2],
      sm_panicked = [Panicked ''fetch'' ''task panicked''], sm_failed = [], sm_cancelled = [Cancelled ''render'' DependencyFailed]\<rparr>)"
    by simp
  from batch_cancels_only_dependents [OF sim_ops_ok sim_batch_reach poll this] show ?thesis
    by (auto simp: summary_events_def)
qed

end
