(* ===== verification/Labels.thy ===== *)
theory Labels
  imports Prelude "HOL-Library.Char_ord"
begin

text \<open>
  The closed label vocabularies of \<open>src/src/spacy-rs/src/labels.rs\<close>: the part-of-speech tags with their
  numeric ids and texts (\<open>label_enum!\<close> of \<open>src/src/types/src/label_enum.rs\<close> generates the texts and the
  case-folding parser), and the set of accepted dependency labels.

  A Rust string is the list of its UTF-8 bytes.
\<close>

section \<open>ASCII case\<close>

definition to_lower :: "char \<Rightarrow> char" where
  "to_lower c = (if 65 \<le> (of_char c :: nat) \<and> (of_char c :: nat) \<le> 90 then char_of (of_char c + 32 :: nat) else c)"

definition to_ascii_lowercase :: "string \<Rightarrow> string" where
  "to_ascii_lowercase s = map to_lower s"

definition to_upper :: "char \<Rightarrow> char" where
  "to_upper c = (if 97 \<le> (of_char c :: nat) \<and> (of_char c :: nat) \<le> 122 then char_of (of_char c - 32 :: nat) else c)"

definition to_ascii_uppercase :: "string \<Rightarrow> string" where
  "to_ascii_uppercase s = map to_upper s"

definition eq_ignore_ascii_case :: "string \<Rightarrow> string \<Rightarrow> bool" where
  "eq_ignore_ascii_case a b \<longleftrightarrow> to_ascii_lowercase a = to_ascii_lowercase b"

section \<open>Part-of-speech tags\<close>

datatype upos =
  NoTag | Adj | Adp | Adv | Aux | Conj | Cconj | Det | Intj | Noun | Num | Part | Pron | Propn | Punct |
  Sconj | Sym | Verb | X | Eol | Space

fun upos_id :: "upos \<Rightarrow> nat" where
  "upos_id NoTag = 0"
| "upos_id Adj = 84"
| "upos_id Adp = 85"
| "upos_id Adv = 86"
| "upos_id Aux = 87"
| "upos_id Conj = 88"
| "upos_id Cconj = 89"
| "upos_id Det = 90"
| "upos_id Intj = 91"
| "upos_id Noun = 92"
| "upos_id Num = 93"
| "upos_id Part = 94"
| "upos_id Pron = 95"
| "upos_id Propn = 96"
| "upos_id Punct = 97"
| "upos_id Sconj = 98"
| "upos_id Sym = 99"
| "upos_id Verb = 100"
| "upos_id X = 101"
| "upos_id Eol = 102"
| "upos_id Space = 103"

fun upos_str :: "upos \<Rightarrow> string" where
  "upos_str NoTag = []"
| "upos_str Adj = ''adj''"
| "upos_str Adp = ''adp''"
| "upos_str Adv = ''adv''"
| "upos_str Aux = ''aux''"
| "upos_str Conj = ''conj''"
| "upos_str Cconj = ''cconj''"
| "upos_str Det = ''det''"
| "upos_str Intj = ''intj''"
| "upos_str Noun = ''noun''"
| "upos_str Num = ''num''"
| "upos_str Part = ''part''"
| "upos_str Pron = ''pron''"
| "upos_str Propn = ''propn''"
| "upos_str Punct = ''punct''"
| "upos_str Sconj = ''sconj''"
| "upos_str Sym = ''sym''"
| "upos_str Verb = ''verb''"
| "upos_str X = ''x''"
| "upos_str Eol = ''eol''"
| "upos_str Space = ''space''"

definition all_tags :: "upos list" where
  "all_tags =
     [NoTag, Adj, Adp, Adv, Aux, Conj, Cconj, Det, Intj, Noun, Num, Part, Pron, Propn, Punct, Sconj, Sym,
      Verb, X, Eol, Space]"

text \<open>The 17 tags of the annotation contract.\<close>

definition UPOS :: "upos list" where
  "UPOS =
     [Adj, Adp, Adv, Aux, Cconj, Det, Intj, Noun, Num, Part, Pron, Propn, Punct, Sconj, Sym, Verb, X]"

text \<open>\<open>None\<close> is the unknown-tag error.\<close>

definition upos_from_id :: "nat \<Rightarrow> upos option" where
  "upos_from_id value = find (\<lambda>t. upos_id t = value) all_tags"

definition upos_parse :: "string \<Rightarrow> upos option" where
  "upos_parse s = (let folded = to_ascii_lowercase s in find (\<lambda>t. upos_str t = folded) all_tags)"

section \<open>Dependency labels\<close>

type_synonym dep_label_set = "string set"

definition ud_labels :: "string list" where
  "ud_labels =
     [''acomp'', ''advcl'', ''advmod'', ''agent'', ''amod'', ''appos'', ''attr'', ''aux'', ''auxpass'',
      ''case'', ''cc'', ''ccomp'', ''complm'', ''compound'', ''conj'', ''cop'', ''csubj'', ''csubjpass'',
      ''dep'', ''det'', ''discourse'', ''dislocated'', ''dobj'', ''expl'', ''fixed'', ''flat'', ''goeswith'',
      ''hmod'', ''hyph'', ''infmod'', ''intj'', ''iobj'', ''list'', ''mark'', ''meta'', ''mixed'', ''neg'',
      ''nmod'', ''nn'', ''npadvmod'', ''nsubj'', ''nsubjpass'', ''num'', ''number'', ''nummod'', ''obj'',
      ''obl'', ''oprd'', ''orphan'', ''parataxis'', ''partmod'', ''pcomp'', ''pobj'', ''poss'',
      ''possessive'', ''preconj'', ''prep'', ''prt'', ''punct'', ''quantmod'', ''rcmod'', ''reparandum'',
      ''relcl'', ''root'', ''vocative'', ''xcomp'']"

definition ud_default :: dep_label_set where
  "ud_default = set ud_labels"

definition dep_insert :: "dep_label_set \<Rightarrow> string \<Rightarrow> dep_label_set" where
  "dep_insert s label = insert label s"

definition dep_contains :: "dep_label_set \<Rightarrow> string \<Rightarrow> bool" where
  "dep_contains s label \<longleftrightarrow> to_ascii_lowercase label \<in> s"

definition dep_len :: "dep_label_set \<Rightarrow> nat" where
  "dep_len s = card s"

section \<open>Round trips\<close>

lemma all_tags_complete: "t \<in> set all_tags"
  by (cases t) (simp_all add: all_tags_def)

lemma upos_from_id_id: "upos_from_id (upos_id t) = Some t"
  by (cases t) (simp_all add: upos_from_id_def all_tags_def)

lemma upos_from_id_only: "upos_from_id n = Some t \<longleftrightarrow> n = upos_id t"
  using upos_from_id_id by (auto simp: upos_from_id_def find_Some_iff)

lemma upos_parse_all: "list_all (\<lambda>t. upos_parse (upos_str t) = Some t) all_tags"
  by code_simp

lemma upos_parse_str: "upos_parse (upos_str t) = Some t"
  using upos_parse_all all_tags_complete by (auto simp: list_all_iff)

lemma to_lower_idem: "to_lower (to_lower c) = to_lower c"
  by (auto simp: to_lower_def)

lemma lowercase_idem [simp]: "to_ascii_lowercase (to_ascii_lowercase s) = to_ascii_lowercase s"
  by (simp add: to_ascii_lowercase_def to_lower_idem)

text \<open>A string names a tag when it is the tag's text in any ASCII casing.\<close>

lemma upos_parse_iff: "upos_parse s = Some t \<longleftrightarrow> to_ascii_lowercase s = upos_str t"
proof
  assume "upos_parse s = Some t"
  then show "to_ascii_lowercase s = upos_str t" by (auto simp: upos_parse_def Let_def find_Some_iff)
next
  assume lower: "to_ascii_lowercase s = upos_str t"
  have "to_ascii_lowercase (upos_str t) = upos_str t" by (metis lower lowercase_idem)
  then have "upos_parse s = upos_parse (upos_str t)" using lower by (simp add: upos_parse_def)
  then show "upos_parse s = Some t" by (simp add: upos_parse_str)
qed

end
