(* ===== verification/Attrs.thy ===== *)
theory Attrs
  imports Labels "HOL-Library.Word"
begin

unbundle bit_operations_syntax

text \<open>
  The flag ids of \<open>src/src/spacy-rs/src/attrs.rs\<close> and the flag words of
  \<open>src/src/spacy-rs/src/lexeme.rs\<close>: attribute \<open>i\<close> below 64 is bit \<open>i\<close> of a lexeme's flags, and every
  predicate of the tagger reads one bit.
\<close>

section \<open>Flag attributes\<close>

text \<open>The ids of the flag attributes, below 64.\<close>

definition IsAlpha :: nat where
  "IsAlpha = 1"

definition IsAscii :: nat where
  "IsAscii = 2"

definition IsDigit :: nat where
  "IsDigit = 3"

definition IsLower :: nat where
  "IsLower = 4"

definition IsPunct :: nat where
  "IsPunct = 5"

definition IsSpace :: nat where
  "IsSpace = 6"

definition IsTitle :: nat where
  "IsTitle = 7"

definition IsUpper :: nat where
  "IsUpper = 8"

definition LikeUrl :: nat where
  "LikeUrl = 9"

definition LikeNum :: nat where
  "LikeNum = 10"

definition LikeEmail :: nat where
  "LikeEmail = 11"

definition IsStop :: nat where
  "IsStop = 12"

definition IsBracket :: nat where
  "IsBracket = 14"

definition IsQuote :: nat where
  "IsQuote = 15"

definition IsLeftPunct :: nat where
  "IsLeftPunct = 16"

definition IsRightPunct :: nat where
  "IsRightPunct = 17"

definition IsCurrency :: nat where
  "IsCurrency = 18"

definition IsDetWord :: nat where
  "IsDetWord = 19"

definition IsAdpWord :: nat where
  "IsAdpWord = 20"

definition IsAuxWord :: nat where
  "IsAuxWord = 21"

definition IsCconjWord :: nat where
  "IsCconjWord = 22"

definition IsSconjWord :: nat where
  "IsSconjWord = 23"

definition IsPronWord :: nat where
  "IsPronWord = 24"

definition IsVerbWord :: nat where
  "IsVerbWord = 25"

definition IsBeVerb :: nat where
  "IsBeVerb = 26"

definition IsBareInfHost :: nat where
  "IsBareInfHost = 27"

definition IsNegator :: nat where
  "IsNegator = 28"

definition IsNominative :: nat where
  "IsNominative = 29"

definition IsPossessive :: nat where
  "IsPossessive = 30"

definition IsRelativizer :: nat where
  "IsRelativizer = 31"

definition IsSensoryVerb :: nat where
  "IsSensoryVerb = 32"

definition IsEpistemicVerb :: nat where
  "IsEpistemicVerb = 33"

definition IsDiscourseMarker :: nat where
  "IsDiscourseMarker = 34"

definition IsAdverbWord :: nat where
  "IsAdverbWord = 35"

definition IsSubordComplement :: nat where
  "IsSubordComplement = 36"

definition IsSubordAdverbial :: nat where
  "IsSubordAdverbial = 37"

definition IsWhereWord :: nat where
  "IsWhereWord = 38"

definition IsLocative :: nat where
  "IsLocative = 39"

definition IsDemonstrative :: nat where
  "IsDemonstrative = 40"

definition IsTodayWord :: nat where
  "IsTodayWord = 41"

definition IsAsWord :: nat where
  "IsAsWord = 42"

definition IsAfterWord :: nat where
  "IsAfterWord = 43"

definition IsThatWord :: nat where
  "IsThatWord = 44"

definition IsTwiceWord :: nat where
  "IsTwiceWord = 45"

definition IsYetWord :: nat where
  "IsYetWord = 46"

definition IsPleaseWord :: nat where
  "IsPleaseWord = 47"

definition IsBeCliticS :: nat where
  "IsBeCliticS = 48"

definition IsBeClitic :: nat where
  "IsBeClitic = 49"

definition IsThereWord :: nat where
  "IsThereWord = 50"

definition IsWhAdverbial :: nat where
  "IsWhAdverbial = 51"

definition IsGetWord :: nat where
  "IsGetWord = 52"

definition IsHaveClitic :: nat where
  "IsHaveClitic = 53"

definition IsWillClitic :: nat where
  "IsWillClitic = 54"

definition IsIndefinitePronoun :: nat where
  "IsIndefinitePronoun = 55"

section \<open>Flag words\<close>

type_synonym lexeme_flags = "64 word"

definition flags_check :: "lexeme_flags \<Rightarrow> nat \<Rightarrow> bool" where
  "flags_check f flag_id \<longleftrightarrow> f AND push_bit flag_id 1 \<noteq> 0"

definition flags_set :: "lexeme_flags \<Rightarrow> nat \<Rightarrow> lexeme_flags" where
  "flags_set f flag_id = f OR push_bit flag_id 1"

definition flags_set_bool :: "lexeme_flags \<Rightarrow> nat \<Rightarrow> bool \<Rightarrow> lexeme_flags" where
  "flags_set_bool f flag_id value =
     (if value then f OR push_bit flag_id 1 else f AND NOT (push_bit flag_id 1))"

definition is_alpha :: "lexeme_flags \<Rightarrow> bool" where
  "is_alpha f \<longleftrightarrow> flags_check f IsAlpha"

definition is_ascii :: "lexeme_flags \<Rightarrow> bool" where
  "is_ascii f \<longleftrightarrow> flags_check f IsAscii"

definition is_digit :: "lexeme_flags \<Rightarrow> bool" where
  "is_digit f \<longleftrightarrow> flags_check f IsDigit"

definition is_lower :: "lexeme_flags \<Rightarrow> bool" where
  "is_lower f \<longleftrightarrow> flags_check f IsLower"

definition is_punct :: "lexeme_flags \<Rightarrow> bool" where
  "is_punct f \<longleftrightarrow> flags_check f IsPunct"

definition is_space :: "lexeme_flags \<Rightarrow> bool" where
  "is_space f \<longleftrightarrow> flags_check f IsSpace"

definition is_title :: "lexeme_flags \<Rightarrow> bool" where
  "is_title f \<longleftrightarrow> flags_check f IsTitle"

definition is_upper :: "lexeme_flags \<Rightarrow> bool" where
  "is_upper f \<longleftrightarrow> flags_check f IsUpper"

definition like_url :: "lexeme_flags \<Rightarrow> bool" where
  "like_url f \<longleftrightarrow> flags_check f LikeUrl"

definition like_num :: "lexeme_flags \<Rightarrow> bool" where
  "like_num f \<longleftrightarrow> flags_check f LikeNum"

definition like_email :: "lexeme_flags \<Rightarrow> bool" where
  "like_email f \<longleftrightarrow> flags_check f LikeEmail"

definition is_stop :: "lexeme_flags \<Rightarrow> bool" where
  "is_stop f \<longleftrightarrow> flags_check f IsStop"

definition is_bracket :: "lexeme_flags \<Rightarrow> bool" where
  "is_bracket f \<longleftrightarrow> flags_check f IsBracket"

definition is_quote :: "lexeme_flags \<Rightarrow> bool" where
  "is_quote f \<longleftrightarrow> flags_check f IsQuote"

definition is_left_punct :: "lexeme_flags \<Rightarrow> bool" where
  "is_left_punct f \<longleftrightarrow> flags_check f IsLeftPunct"

definition is_right_punct :: "lexeme_flags \<Rightarrow> bool" where
  "is_right_punct f \<longleftrightarrow> flags_check f IsRightPunct"

definition is_currency :: "lexeme_flags \<Rightarrow> bool" where
  "is_currency f \<longleftrightarrow> flags_check f IsCurrency"

definition is_det_word :: "lexeme_flags \<Rightarrow> bool" where
  "is_det_word f \<longleftrightarrow> flags_check f IsDetWord"

definition is_adp_word :: "lexeme_flags \<Rightarrow> bool" where
  "is_adp_word f \<longleftrightarrow> flags_check f IsAdpWord"

definition is_aux_word :: "lexeme_flags \<Rightarrow> bool" where
  "is_aux_word f \<longleftrightarrow> flags_check f IsAuxWord"

definition is_cconj_word :: "lexeme_flags \<Rightarrow> bool" where
  "is_cconj_word f \<longleftrightarrow> flags_check f IsCconjWord"

definition is_sconj_word :: "lexeme_flags \<Rightarrow> bool" where
  "is_sconj_word f \<longleftrightarrow> flags_check f IsSconjWord"

definition is_pron_word :: "lexeme_flags \<Rightarrow> bool" where
  "is_pron_word f \<longleftrightarrow> flags_check f IsPronWord"

definition is_verb_word :: "lexeme_flags \<Rightarrow> bool" where
  "is_verb_word f \<longleftrightarrow> flags_check f IsVerbWord"

definition is_be_verb :: "lexeme_flags \<Rightarrow> bool" where
  "is_be_verb f \<longleftrightarrow> flags_check f IsBeVerb"

definition is_bare_inf_host :: "lexeme_flags \<Rightarrow> bool" where
  "is_bare_inf_host f \<longleftrightarrow> flags_check f IsBareInfHost"

definition is_negator :: "lexeme_flags \<Rightarrow> bool" where
  "is_negator f \<longleftrightarrow> flags_check f IsNegator"

definition is_nominative :: "lexeme_flags \<Rightarrow> bool" where
  "is_nominative f \<longleftrightarrow> flags_check f IsNominative"

definition is_possessive :: "lexeme_flags \<Rightarrow> bool" where
  "is_possessive f \<longleftrightarrow> flags_check f IsPossessive"

definition is_relativizer :: "lexeme_flags \<Rightarrow> bool" where
  "is_relativizer f \<longleftrightarrow> flags_check f IsRelativizer"

definition is_sensory_verb :: "lexeme_flags \<Rightarrow> bool" where
  "is_sensory_verb f \<longleftrightarrow> flags_check f IsSensoryVerb"

definition is_epistemic_verb :: "lexeme_flags \<Rightarrow> bool" where
  "is_epistemic_verb f \<longleftrightarrow> flags_check f IsEpistemicVerb"

definition is_discourse_marker :: "lexeme_flags \<Rightarrow> bool" where
  "is_discourse_marker f \<longleftrightarrow> flags_check f IsDiscourseMarker"

definition is_adverb_word :: "lexeme_flags \<Rightarrow> bool" where
  "is_adverb_word f \<longleftrightarrow> flags_check f IsAdverbWord"

definition is_subord_complement :: "lexeme_flags \<Rightarrow> bool" where
  "is_subord_complement f \<longleftrightarrow> flags_check f IsSubordComplement"

definition is_subord_adverbial :: "lexeme_flags \<Rightarrow> bool" where
  "is_subord_adverbial f \<longleftrightarrow> flags_check f IsSubordAdverbial"

definition is_where_word :: "lexeme_flags \<Rightarrow> bool" where
  "is_where_word f \<longleftrightarrow> flags_check f IsWhereWord"

definition is_locative :: "lexeme_flags \<Rightarrow> bool" where
  "is_locative f \<longleftrightarrow> flags_check f IsLocative"

definition is_demonstrative :: "lexeme_flags \<Rightarrow> bool" where
  "is_demonstrative f \<longleftrightarrow> flags_check f IsDemonstrative"

definition is_today_word :: "lexeme_flags \<Rightarrow> bool" where
  "is_today_word f \<longleftrightarrow> flags_check f IsTodayWord"

definition is_as_word :: "lexeme_flags \<Rightarrow> bool" where
  "is_as_word f \<longleftrightarrow> flags_check f IsAsWord"

definition is_after_word :: "lexeme_flags \<Rightarrow> bool" where
  "is_after_word f \<longleftrightarrow> flags_check f IsAfterWord"

definition is_that_word :: "lexeme_flags \<Rightarrow> bool" where
  "is_that_word f \<longleftrightarrow> flags_check f IsThatWord"

definition is_twice_word :: "lexeme_flags \<Rightarrow> bool" where
  "is_twice_word f \<longleftrightarrow> flags_check f IsTwiceWord"

definition is_yet_word :: "lexeme_flags \<Rightarrow> bool" where
  "is_yet_word f \<longleftrightarrow> flags_check f IsYetWord"

definition is_please_word :: "lexeme_flags \<Rightarrow> bool" where
  "is_please_word f \<longleftrightarrow> flags_check f IsPleaseWord"

definition is_be_clitic_s :: "lexeme_flags \<Rightarrow> bool" where
  "is_be_clitic_s f \<longleftrightarrow> flags_check f IsBeCliticS"

definition is_be_clitic :: "lexeme_flags \<Rightarrow> bool" where
  "is_be_clitic f \<longleftrightarrow> flags_check f IsBeClitic"

definition is_there_word :: "lexeme_flags \<Rightarrow> bool" where
  "is_there_word f \<longleftrightarrow> flags_check f IsThereWord"

definition is_wh_adverbial :: "lexeme_flags \<Rightarrow> bool" where
  "is_wh_adverbial f \<longleftrightarrow> flags_check f IsWhAdverbial"

definition is_get_word :: "lexeme_flags \<Rightarrow> bool" where
  "is_get_word f \<longleftrightarrow> flags_check f IsGetWord"

definition is_have_clitic :: "lexeme_flags \<Rightarrow> bool" where
  "is_have_clitic f \<longleftrightarrow> flags_check f IsHaveClitic"

definition is_will_clitic :: "lexeme_flags \<Rightarrow> bool" where
  "is_will_clitic f \<longleftrightarrow> flags_check f IsWillClitic"

definition is_indefinite_pronoun :: "lexeme_flags \<Rightarrow> bool" where
  "is_indefinite_pronoun f \<longleftrightarrow> flags_check f IsIndefinitePronoun"

section \<open>Laws\<close>

lemma flags_check_bit: "flag_id < 64 \<Longrightarrow> flags_check f flag_id = bit f flag_id"
  by (simp add: flags_check_def push_bit_eq_mult and_exp_eq_0_iff_not_bit)

end
