(* ===== verification/Ortho.thy ===== *)
theory Ortho
  imports Labels
begin

text \<open>
  The tagger orthography of \<open>src/src/spacy-rs/src/ortho.rs\<close>: the suffixes and punctuation marks of a
  language, and the predicates the tagging rules evaluate over them. Texts are byte strings, so lengths are
  byte lengths.
\<close>

record tagger_ortho =
  to_trailing :: "string list"
  to_boundary :: "string list"
  to_bare_follow :: "string list"
  to_plural_s :: string
  to_manner_ly :: string
  to_past_ed :: string
  to_part_ing :: string
  to_comma :: string

text \<open>A slice of a string exists only between character boundaries.\<close>

definition is_char_boundary :: "string \<Rightarrow> nat \<Rightarrow> bool" where
  "is_char_boundary s k \<longleftrightarrow>
     k = 0 \<or> k = length s \<or> k < length s \<and> \<not> (128 \<le> (of_char (s ! k) :: nat) \<and> (of_char (s ! k) :: nat) < 192)"

definition str_get_from :: "string \<Rightarrow> nat \<Rightarrow> string option" where
  "str_get_from s k = (if is_char_boundary s k then Some (drop k s) else None)"

definition ends_with_ci :: "string \<Rightarrow> string \<Rightarrow> bool" where
  "ends_with_ci word suffix \<longleftrightarrow>
     length word \<ge> length suffix \<and>
     (case str_get_from word (length word - length suffix) of
        Some sfx \<Rightarrow> eq_ignore_ascii_case sfx suffix
      | None \<Rightarrow> False)"

definition is_plural_s :: "tagger_ortho \<Rightarrow> string \<Rightarrow> bool" where
  "is_plural_s ortho word = ends_with_ci word (to_plural_s ortho)"

definition is_manner_ly :: "tagger_ortho \<Rightarrow> string \<Rightarrow> bool" where
  "is_manner_ly ortho word = ends_with_ci word (to_manner_ly ortho)"

definition is_past_ed :: "tagger_ortho \<Rightarrow> string \<Rightarrow> bool" where
  "is_past_ed ortho word = ends_with_ci word (to_past_ed ortho)"

definition is_part_ing :: "tagger_ortho \<Rightarrow> string \<Rightarrow> bool" where
  "is_part_ing ortho word = ends_with_ci word (to_part_ing ortho)"

definition is_comma :: "tagger_ortho \<Rightarrow> string \<Rightarrow> bool" where
  "is_comma ortho token \<longleftrightarrow> token = to_comma ortho"

definition is_trailing_punct :: "tagger_ortho \<Rightarrow> string \<Rightarrow> bool" where
  "is_trailing_punct ortho token \<longleftrightarrow> list_ex (\<lambda>p. p = token) (to_trailing ortho)"

definition is_boundary :: "tagger_ortho \<Rightarrow> string \<Rightarrow> bool" where
  "is_boundary ortho token \<longleftrightarrow> list_ex (\<lambda>p. p = token) (to_boundary ortho)"

definition is_bare_follow :: "tagger_ortho \<Rightarrow> string \<Rightarrow> bool" where
  "is_bare_follow ortho token \<longleftrightarrow> list_ex (\<lambda>p. p = token) (to_bare_follow ortho)"

definition trailing_only :: "tagger_ortho \<Rightarrow> string list \<Rightarrow> nat \<Rightarrow> bool" where
  "trailing_only ortho texts from = list_all (is_trailing_punct ortho) (drop from texts)"

definition starts_sentence :: "tagger_ortho \<Rightarrow> string list \<Rightarrow> nat \<Rightarrow> bool" where
  "starts_sentence ortho texts i \<longleftrightarrow> i = 0 \<or> is_boundary ortho (texts ! (i - 1))"

text \<open>An orthography for examples.\<close>

definition sample_ortho :: tagger_ortho where
  "sample_ortho =
     \<lparr>to_trailing = [''.'', ''!'', ''?''], to_boundary = [''.'', ''!'', ''?''], to_bare_follow = [''.'', ''?'', '',''],
      to_plural_s = ''s'', to_manner_ly = ''ly'', to_past_ed = ''ed'', to_part_ing = ''ing'', to_comma = '',''\<rparr>"

end
