(* ===== verification/Unicode.thy ===== *)
theory Unicode
  imports Labels
begin

text \<open>
  Characters of byte strings. \<open>str::chars\<close> yields the UTF-8 sequences a string consists of, each kept as its
  bytes. The tables of the Unicode standard are not part of the sources: the classes the code consults are the
  fields of a record that its definitions take as an argument. White space is a closed list and is written out.
\<close>

definition utf8_width :: "char \<Rightarrow> nat" where
  "utf8_width c =
     (let b = (of_char c :: nat) in if b < 128 then 1 else if b < 224 then 2 else if b < 240 then 3 else 4)"

function chars :: "string \<Rightarrow> string list" where
  "chars [] = []"
| "chars (c # s) = (c # take (utf8_width c - 1) s) # chars (drop (utf8_width c - 1) s)"
  by pat_completeness auto
termination by (relation "measure length") auto

lemma concat_chars [simp]: "concat (chars s) = s"
  by (induction s rule: chars.induct) auto

lemma chars_nonempty: "c \<in> set (chars s) \<Longrightarrow> c \<noteq> []"
  by (induction s rule: chars.induct) auto

lemma chars_eq_Nil [simp]: "chars s = [] \<longleftrightarrow> s = []"
  by (cases s) auto

text \<open>The UTF-8 encoding of a code point, for the literals of the sources.\<close>

definition utf8_enc :: "nat \<Rightarrow> string" where
  "utf8_enc cp =
     map char_of
       (if cp < 0x80 then [cp]
        else if cp < 0x800 then [0xC0 + cp div 64, 0x80 + cp mod 64]
        else if cp < 0x10000 then [0xE0 + cp div 4096, 0x80 + cp div 64 mod 64, 0x80 + cp mod 64]
        else [0xF0 + cp div 262144, 0x80 + cp div 4096 mod 64, 0x80 + cp div 64 mod 64, 0x80 + cp mod 64])"

text \<open>Unicode \<open>White_Space\<close>.\<close>

definition white_space :: "string list" where
  "white_space =
     map utf8_enc
       ([9, 10, 11, 12, 13, 32, 0x85, 0xA0, 0x1680, 0x2028, 0x2029, 0x202F, 0x205F, 0x3000] @ map ((+) 0x2000) [0..<11])"

definition is_whitespace :: "string \<Rightarrow> bool" where
  "is_whitespace c \<longleftrightarrow> c \<in> set white_space"

record unicode =
  uc_alphabetic :: "string \<Rightarrow> bool"
  uc_lowercase :: "string \<Rightarrow> bool"
  uc_uppercase :: "string \<Rightarrow> bool"
  uc_numeric :: "string \<Rightarrow> bool"
  uc_titlecase_letter :: "string \<Rightarrow> bool"
  uc_decimal_number :: "string \<Rightarrow> bool"
  uc_punctuation :: "string \<Rightarrow> bool"
  uc_currency_symbol :: "string \<Rightarrow> bool"
  uc_to_lowercase :: "string \<Rightarrow> string"

text \<open>The tables restricted to ASCII, for examples.\<close>

definition ascii_in :: "nat \<Rightarrow> nat \<Rightarrow> string \<Rightarrow> bool" where
  "ascii_in lo hi c \<longleftrightarrow> length c = 1 \<and> lo \<le> of_char (hd c) \<and> of_char (hd c) \<le> hi"

definition ascii_unicode :: unicode where
  "ascii_unicode =
     \<lparr>uc_alphabetic = (\<lambda>c. ascii_in 65 90 c \<or> ascii_in 97 122 c), uc_lowercase = ascii_in 97 122,
      uc_uppercase = ascii_in 65 90, uc_numeric = ascii_in 48 57, uc_titlecase_letter = (\<lambda>_. False),
      uc_decimal_number = ascii_in 48 57, uc_punctuation = (\<lambda>c. c \<in> {''.'', '','', ''!'', ''?'', ''('', '')'', '':''}),
      uc_currency_symbol = (\<lambda>c. c = ''$''), uc_to_lowercase = to_ascii_lowercase\<rparr>"

end
