(* ===== verification/Tagger.thy ===== *)
theory Tagger
  imports Attrs Ortho Unicode
begin

text \<open>
  The part-of-speech tagger of \<open>src/src/spacy-rs/src/arc_eager.rs\<close> (first half): the tag of a lexeme from its
  flags, and the contextual refinement rules in the order of the table \<open>REFINE_RULES\<close>.

  A rule is a function of the texts, the tags, the flags and the orthography to the new tags; a loop that
  writes tags in place is a \<open>foldl\<close> over its index range, so later positions see the tags written before.
  The three lists have one length; every index a rule reads is guarded as in the code. Whether a character is
  lowercase is a Unicode table of the standard library: it is the parameter \<open>lc\<close>, which is given the bytes of
  the first character.
\<close>

section \<open>Reading lists and words\<close>

definition lget :: "'a list \<Rightarrow> nat \<Rightarrow> 'a option" where
  "lget xs i = (if i < length xs then Some (xs ! i) else None)"

definition starts_lowercase :: "(string \<Rightarrow> bool) \<Rightarrow> string \<Rightarrow> bool" where
  "starts_lowercase lc word \<longleftrightarrow> word \<noteq> [] \<and> lc (take (utf8_width (hd word)) word)"

text \<open>Some index of a range up to the next punctuation satisfies a test.\<close>

definition any_before_punct :: "upos list \<Rightarrow> nat list \<Rightarrow> (nat \<Rightarrow> bool) \<Rightarrow> bool" where
  "any_before_punct pos ks P = list_ex P (takeWhile (\<lambda>k. pos ! k \<noteq> Punct) ks)"

definition has_tag :: "upos list \<Rightarrow> upos set \<Rightarrow> bool" where
  "has_tag pos ts = list_ex (\<lambda>p. p \<in> ts) pos"

section \<open>Tags from flags\<close>

definition closed_funcword_pos :: "lexeme_flags \<Rightarrow> upos option" where
  "closed_funcword_pos f =
     (if is_det_word f then Some Det
      else if is_adp_word f then Some Adp
      else if is_aux_word f then Some Aux
      else if is_cconj_word f then Some Cconj
      else if is_sconj_word f then Some Sconj
      else if is_pron_word f then Some Pron
      else None)"

definition infer_pos :: "lexeme_flags \<Rightarrow> upos" where
  "infer_pos f =
     (if is_punct f then Punct
      else if is_digit f then Num
      else if is_space f then Space
      else case closed_funcword_pos f of
        Some p \<Rightarrow> p
      | None \<Rightarrow>
          if is_negator f then Part
          else if is_bare_inf_host f then Aux
          else if is_verb_word f then Verb
          else if is_upper f then Propn
          else if is_alpha f then Noun
          else X)"

section \<open>Lexeme classes\<close>

definition is_bare_infinitive_host :: "lexeme_flags \<Rightarrow> bool" where
  "is_bare_infinitive_host f = is_bare_inf_host f"

definition is_aux_negator :: "lexeme_flags \<Rightarrow> bool" where
  "is_aux_negator f = is_negator f"

definition is_possessive_determiner :: "lexeme_flags \<Rightarrow> bool" where
  "is_possessive_determiner f = is_possessive f"

definition is_nominative_subject :: "lexeme_flags \<Rightarrow> bool" where
  "is_nominative_subject f = is_nominative f"

definition is_relative_marker :: "lexeme_flags \<Rightarrow> bool" where
  "is_relative_marker f = is_relativizer f"

definition is_noun_subject_verb_blocker :: "lexeme_flags \<Rightarrow> bool" where
  "is_noun_subject_verb_blocker f = is_where_word f"

definition is_be_form :: "lexeme_flags \<Rightarrow> bool" where
  "is_be_form f = is_be_verb f"

section \<open>Refinement rules\<close>

type_synonym pos_refine_rule = "string list \<Rightarrow> upos list \<Rightarrow> lexeme_flags list \<Rightarrow> tagger_ortho \<Rightarrow> upos list"

definition refine_pos_det_closed_verb :: pos_refine_rule where
  "refine_pos_det_closed_verb texts pos flags ortho =
     (if \<not> has_tag pos {Verb} then pos
      else foldl (\<lambda>pos i. if pos ! i \<noteq> Verb \<or> pos ! (i - 1) \<noteq> Det then pos else pos[i := Noun])
             pos [1..<length pos])"

definition is_sform_final :: "string list \<Rightarrow> nat \<Rightarrow> tagger_ortho \<Rightarrow> bool" where
  "is_sform_final texts i ortho \<longleftrightarrow>
     length (texts ! i) > 2 \<and> is_plural_s ortho (texts ! i) \<and> trailing_only ortho texts (i + 1)"

definition refine_pos_bare_infinitive :: pos_refine_rule where
  "refine_pos_bare_infinitive texts pos flags ortho =
     (if \<not> has_tag pos {Noun} then pos
      else foldl (\<lambda>pos i.
             if pos ! i \<noteq> Noun then pos
             else let governed = is_bare_infinitive_host (flags ! (i - 1)) \<or>
                        is_aux_negator (flags ! (i - 1)) \<and> i \<ge> 2 \<and> is_bare_infinitive_host (flags ! (i - 2));
                      later_verb = any_before_punct pos [i + 1..<length texts]
                        (\<lambda>k. pos ! k = Verb \<and> \<not> is_sform_final texts k ortho)
                  in if \<not> governed then pos else if \<not> later_verb then pos[i := Verb] else pos)
             pos [1..<length texts])"

definition refine_pos_bare_object_noun :: pos_refine_rule where
  "refine_pos_bare_object_noun texts pos flags ortho =
     (if \<not> has_tag pos {Verb} then pos
      else foldl (\<lambda>pos i.
             if pos ! i \<noteq> Verb \<or> pos ! (i - 1) \<noteq> Verb then pos
             else if length (texts ! i) \<le> 2 \<or> \<not> is_plural_s ortho (texts ! i) then pos
             else if \<not> trailing_only ortho texts (i + 1) then pos
             else pos[i := Noun])
             pos [1..<length texts])"

definition refine_pos_indefinite_pronouns :: pos_refine_rule where
  "refine_pos_indefinite_pronouns texts pos flags ortho =
     (if \<not> has_tag pos {Noun} then pos
      else foldl (\<lambda>pos i.
             if is_indefinite_pronoun (flags ! i) then (if pos ! i = Noun then pos[i := Pron] else pos)
             else if pos ! i \<noteq> Noun then pos
             else if lget pos (i + 1) \<noteq> Some Aux then pos
             else if is_there_word (flags ! i) then pos[i := Pron]
             else if is_locative (flags ! i) then pos[i := Adv]
             else pos)
             pos [0..<length texts])"

definition refine_pos_directive_initial :: pos_refine_rule where
  "refine_pos_directive_initial texts pos flags ortho =
     (if \<not> has_tag pos {Noun} then pos
      else foldl (\<lambda>pos i.
             if pos ! i \<noteq> Noun then pos
             else if \<not> starts_sentence ortho texts i \<or> i + 2 \<ge> length texts then pos
             else if pos ! (i + 1) = Det \<and> pos ! (i + 2) = Noun then pos[i := Verb]
             else pos)
             pos [0..<length texts])"

definition refine_pos_demonstrative_object :: pos_refine_rule where
  "refine_pos_demonstrative_object texts pos flags ortho =
     (if \<not> has_tag pos {Det} then pos
      else foldl (\<lambda>pos i.
             if pos ! i \<noteq> Det then pos
             else if \<not> is_demonstrative (flags ! i) then pos
             else let bare = (case lget texts (i + 1) of
                        None \<Rightarrow> True
                      | Some next \<Rightarrow>
                          is_bare_follow ortho next \<or>
                          (case lget flags (i + 1) of Some f \<Rightarrow> is_adp_word f | None \<Rightarrow> False))
                  in if bare then pos[i := Pron] else pos)
             pos [0..<length texts])"

definition refine_pos_discourse_initial_verb :: pos_refine_rule where
  "refine_pos_discourse_initial_verb texts pos flags ortho =
     (if \<not> has_tag pos {Noun} then pos
      else if has_tag pos {Verb, Aux} then pos
      else foldl (\<lambda>pos i.
             if pos ! i \<noteq> Noun \<or> \<not> is_discourse_marker (flags ! i) then pos
             else if \<not> starts_sentence ortho texts i \<or> i + 2 \<ge> length texts then pos
             else if pos ! (i + 1) \<noteq> Noun then pos
             else if \<not> (pos ! (i + 2) \<in> {Det, Pron, Adv} \<or> is_twice_word (flags ! (i + 2))) then pos
             else (pos[i + 1 := Verb])[i := (if is_please_word (flags ! i) then Intj else Adv)])
             pos [0..<length texts])"

definition refine_pos_attributive_ly :: pos_refine_rule where
  "refine_pos_attributive_ly texts pos flags ortho =
     (if \<not> has_tag pos {Noun} then pos
      else foldl (\<lambda>pos i.
             if pos ! i \<noteq> Noun then pos
             else if length (texts ! i) \<le> 4 \<or> \<not> is_manner_ly ortho (texts ! i) then pos
             else if i + 1 < length texts \<and> pos ! (i + 1) \<in> {Noun, Propn} then pos[i := Adj]
             else pos)
             pos [0..<length texts])"

definition refine_pos_imperative_non_det_object :: pos_refine_rule where
  "refine_pos_imperative_non_det_object texts pos flags ortho =
     (if \<not> has_tag pos {Noun} then pos
      else if has_tag pos {Verb, Aux} then pos
      else foldl (\<lambda>pos i.
             if pos ! i \<noteq> Noun then pos
             else if \<not> starts_sentence ortho texts i \<or> i + 1 \<ge> length texts then pos
             else if pos ! (i + 1) = Pron \<and> \<not> is_nominative_subject (flags ! (i + 1)) then pos[i := Verb]
             else if pos ! (i + 1) \<in> {Noun, Propn} then
               let rest = drop (i + 2) texts;
                   has_pp = list_ex (\<lambda>k. is_adp_word (flags ! (i + 2 + k)))
                     (takeWhile (\<lambda>k. \<not> is_trailing_punct ortho (rest ! k)) [0..<length rest]);
                   has_possessive = (case lget flags (i + 2) of Some f \<Rightarrow> is_be_clitic_s f | None \<Rightarrow> False)
               in if has_pp \<or> has_possessive then pos[i := Verb] else pos
             else pos)
             pos [0..<length texts])"

definition refine_pos_get_imperative :: pos_refine_rule where
  "refine_pos_get_imperative texts pos flags ortho =
     (if texts = [] \<or> pos ! 0 \<noteq> Aux \<or> \<not> is_get_word (flags ! 0) then pos
      else if any_before_punct pos [1..<length texts] (\<lambda>k. pos ! k \<in> {Pron, Det, Noun, Propn}) then pos[0 := Verb]
      else pos)"

definition refine_pos_bare_ed_transitive :: "(string \<Rightarrow> bool) \<Rightarrow> pos_refine_rule" where
  "refine_pos_bare_ed_transitive lc texts pos flags ortho =
     (if length texts < 4 \<or> pos ! 0 \<notin> {Noun, Propn} \<or> pos ! 1 \<noteq> Noun \<or> pos ! 2 \<noteq> Det \<or> pos ! 3 \<notin> {Noun, Propn} then pos
      else if length (texts ! 1) \<le> 3 \<or> \<not> is_past_ed ortho (texts ! 1) \<or> \<not> starts_lowercase lc (texts ! 1) then pos
      else pos[1 := Verb])"

definition refine_pos_pronoun_subject_verb :: pos_refine_rule where
  "refine_pos_pronoun_subject_verb texts pos flags ortho =
     (if \<not> has_tag pos {Noun} then pos
      else foldl (\<lambda>pos i.
             if pos ! i \<noteq> Noun \<or> pos ! (i - 1) \<noteq> Pron then pos
             else if is_nominative_subject (flags ! (i - 1)) then pos[i := Verb]
             else pos)
             pos [1..<length texts])"

definition refine_pos_comment_as :: pos_refine_rule where
  "refine_pos_comment_as texts pos flags ortho =
     (if length texts < 2 \<or> pos ! 0 \<noteq> Adp \<or> \<not> is_as_word (flags ! 0) then pos
      else if pos ! 1 \<in> {Noun, Propn, Pron} then pos[0 := Sconj]
      else pos)"

definition refine_pos_shifted_det_noun_verb :: "(string \<Rightarrow> bool) \<Rightarrow> pos_refine_rule" where
  "refine_pos_shifted_det_noun_verb lc texts pos flags ortho =
     (if \<not> has_tag pos {Noun} then pos
      else foldl (\<lambda>pos i.
             if pos ! i \<noteq> Noun then pos
             else if \<not> is_comma ortho (texts ! (i - 3)) \<or> pos ! (i - 2) \<noteq> Det then pos
             else if pos ! (i - 1) \<notin> {Noun, Propn} then pos
             else if \<not> starts_lowercase lc (texts ! i) then pos
             else if list_all (\<lambda>p. p \<in> {Punct, Adv}) (drop (i + 1) pos) then pos[i := Verb]
             else pos)
             pos [3..<length texts])"

definition relative_markers :: "string list \<Rightarrow> upos list \<Rightarrow> lexeme_flags list \<Rightarrow> nat list" where
  "relative_markers texts pos flags =
     filter (\<lambda>r. is_relative_marker (flags ! r) \<and> pos ! (r - 1) \<in> {Noun, Propn}) [1..<length texts]"

definition closes_relcl :: "upos list \<Rightarrow> nat list \<Rightarrow> nat \<Rightarrow> bool" where
  "closes_relcl pos markers i =
     list_ex (\<lambda>r. r < i - 1 \<and> list_all (\<lambda>j. pos ! j \<noteq> Verb) [r + 1..<i - 1]) markers"

definition refine_pos_relative_matrix_verb :: "(string \<Rightarrow> bool) \<Rightarrow> pos_refine_rule" where
  "refine_pos_relative_matrix_verb lc texts pos flags ortho =
     (let markers = relative_markers texts pos flags
      in if \<not> has_tag pos {Noun} then pos
         else if markers = [] then pos
         else foldl (\<lambda>pos i.
                if pos ! i \<noteq> Noun \<or> pos ! (i - 1) \<noteq> Verb then pos
                else if \<not> starts_lowercase lc (texts ! i) then pos
                else if \<not> trailing_only ortho texts (i + 1) then pos
                else if closes_relcl pos markers i then pos[i := Verb]
                else pos)
                pos [1..<length texts])"

definition refine_pos_relcl_matrix_complement :: "(string \<Rightarrow> bool) \<Rightarrow> pos_refine_rule" where
  "refine_pos_relcl_matrix_complement lc texts pos flags ortho =
     (let markers = relative_markers texts pos flags
      in if \<not> has_tag pos {Noun} then pos
         else if markers = [] then pos
         else foldl (\<lambda>pos i.
                if pos ! i \<noteq> Noun \<or> pos ! (i - 1) \<noteq> Verb then pos
                else if \<not> starts_lowercase lc (texts ! i) then pos
                else if trailing_only ortho texts (i + 1) then pos
                else if \<not> closes_relcl pos markers i then pos
                else let s_form = length (texts ! i) > 3 \<and> is_plural_s ortho (texts ! i);
                         next = pos ! (i + 1);
                         licensed = next \<in> {Noun, Propn, Pron, Adj, Adv, Det} \<or> s_form \<and> next = Adp
                     in if licensed then pos[i := Verb] else pos)
                pos [1..<length texts])"


definition refine_pos_comma_adverbial :: pos_refine_rule where
  "refine_pos_comma_adverbial texts pos flags ortho =
     (if \<not> has_tag pos {Noun} then pos
      else foldl (\<lambda>pos i.
             if pos ! i \<noteq> Noun then pos
             else if length (texts ! i) \<le> 4 \<or> \<not> is_manner_ly ortho (texts ! i) then pos
             else if \<not> (case lget texts (i + 1) of Some next \<Rightarrow> is_comma ortho next | None \<Rightarrow> False) then pos
             else if i > 0 \<and> \<not> is_comma ortho (texts ! (i - 1)) then pos
             else pos[i := Adv])
             pos [0..<length texts])"

definition refine_pos_that_relative :: pos_refine_rule where
  "refine_pos_that_relative texts pos flags ortho =
     (if \<not> has_tag pos {Det, Noun} then pos
      else let pos = foldl (\<lambda>pos i.
                 if pos ! i = Det \<and> is_that_word (flags ! i) \<and> pos ! (i - 1) \<in> {Noun, Propn} then pos[i := Pron]
                 else pos)
                 pos [1..<length texts]
           in foldl (\<lambda>pos i.
                 if pos ! i \<noteq> Noun \<or> pos ! (i - 1) \<noteq> Pron then pos
                 else if is_that_word (flags ! (i - 1)) then pos[i := Verb]
                 else pos)
                 pos [1..<length texts])"

definition refine_pos_interrogative_wh_adverbial :: pos_refine_rule where
  "refine_pos_interrogative_wh_adverbial texts pos flags ortho =
     (if \<not> has_tag pos {Noun, Sconj} then pos
      else foldl (\<lambda>pos i.
             if \<not> is_wh_adverbial (flags ! i) then pos
             else if pos ! i = Noun then
               (if i > 0 \<and> pos ! (i - 1) \<in> {Noun, Propn, Det} then pos else pos[i := Adv])
             else if pos ! i = Sconj \<and> i + 1 < length texts \<and> pos ! (i + 1) = Aux then pos[i := Adv]
             else pos)
             pos [0..<length texts])"

definition refine_pos_where_marker :: pos_refine_rule where
  "refine_pos_where_marker texts pos flags ortho =
     (if \<not> has_tag pos {Noun} then pos
      else foldl (\<lambda>pos i.
             if pos ! i \<noteq> Noun \<or> \<not> is_where_word (flags ! i) then pos
             else if pos ! (i - 1) \<in> {Noun, Propn} then pos[i := Sconj]
             else pos)
             pos [1..<length texts])"

definition refine_pos_clausal_after :: pos_refine_rule where
  "refine_pos_clausal_after texts pos flags ortho =
     (if \<not> has_tag pos {Adp} then pos
      else foldl (\<lambda>pos i.
             if pos ! i \<noteq> Adp \<or> \<not> is_after_word (flags ! i) then pos
             else let bare = (i + 2 < length texts \<and> pos ! (i + 1) \<in> {Pron, Noun, Propn} \<and> pos ! (i + 2) = Verb);
                      det_led = (i + 3 < length texts \<and> pos ! (i + 1) = Det \<and> pos ! (i + 2) \<in> {Noun, Propn} \<and>
                                 pos ! (i + 3) = Verb)
                  in if bare \<or> det_led then pos[i := Sconj] else pos)
             pos [0..<length texts])"

definition refine_pos_predicative_ly :: "(string \<Rightarrow> bool) \<Rightarrow> pos_refine_rule" where
  "refine_pos_predicative_ly lc texts pos flags ortho =
     (if \<not> has_tag pos {Noun} then pos
      else foldl (\<lambda>pos i.
             if pos ! i \<noteq> Noun then pos
             else if length (texts ! i) \<le> 4 \<or> \<not> is_manner_ly ortho (texts ! i) then pos
             else if \<not> starts_lowercase lc (texts ! i) then pos
             else let hosted = (pos ! (i - 1) = Aux \<or> is_sensory_verb (flags ! (i - 1)) \<or> is_epistemic_verb (flags ! (i - 1)))
                  in if \<not> hosted then pos
                     else if \<not> trailing_only ortho texts (i + 1) then pos
                     else pos[i := Adj])
             pos [1..<length texts])"

definition refine_pos_final_adverbial :: pos_refine_rule where
  "refine_pos_final_adverbial texts pos flags ortho =
     (if \<not> has_tag pos {Noun} then pos
      else foldl (\<lambda>pos i.
             if pos ! i \<noteq> Noun then pos
             else let in_set = is_adverb_word (flags ! i);
                      ly = (\<not> in_set \<and> length (texts ! i) > 4 \<and> is_manner_ly ortho (texts ! i))
                  in if \<not> in_set \<and> \<not> ly then pos
                     else if in_set \<and> i > 0 \<and> pos ! (i - 1) = Aux then pos
                     else if i > 0 \<and> pos ! (i - 1) \<in> {Det, Cconj} then pos
                     else let trailing_punct = trailing_only ortho texts (i + 1);
                              comma_next = (\<not> ly \<and>
                                (case lget texts (i + 1) of Some next \<Rightarrow> is_comma ortho next | None \<Rightarrow> False) \<and> i > 0)
                          in if trailing_punct \<or> comma_next then pos[i := Adv] else pos)
             pos [0..<length texts])"

definition refine_pos_coordinated_adverbial :: pos_refine_rule where
  "refine_pos_coordinated_adverbial texts pos flags ortho =
     (if \<not> has_tag pos {Noun} then pos
      else foldl (\<lambda>pos i.
             if pos ! i \<noteq> Noun \<or> \<not> is_adverb_word (flags ! i) then pos
             else if pos ! (i - 1) \<noteq> Verb \<or> lget pos (i + 1) \<noteq> Some Cconj then pos
             else pos[i := Adv])
             pos [1..<length texts])"

definition refine_pos_temporal_yet :: pos_refine_rule where
  "refine_pos_temporal_yet texts pos flags ortho =
     (if \<not> has_tag pos {Cconj} then pos
      else foldl (\<lambda>pos i.
             if pos ! i \<noteq> Cconj \<or> \<not> is_yet_word (flags ! i) then pos
             else if pos ! (i - 1) \<noteq> Adj then pos
             else if \<not> trailing_only ortho texts (i + 1) then pos
             else if any_before_punct pos [i + 1..<length texts] (\<lambda>k. pos ! k = Verb) then pos
             else pos[i := Adv])
             pos [1..<length texts])"

definition refine_pos_linking_predicate :: pos_refine_rule where
  "refine_pos_linking_predicate texts pos flags ortho =
     (if \<not> has_tag pos {Noun} then pos
      else let pos = foldl (\<lambda>pos i.
                 if pos ! i \<noteq> Noun \<or> \<not> is_sensory_verb (flags ! i) then pos
                 else if length texts > i + 1 \<and> pos ! (i + 1) \<in> {Noun, Propn} then pos[i := Verb]
                 else pos)
                 pos [0..<length texts];
               pos = foldl (\<lambda>pos i.
                 if pos ! i \<noteq> Noun \<or> \<not> is_epistemic_verb (flags ! i) then pos
                 else if length texts > i + 1 \<and> pos ! (i + 1) \<in> {Noun, Propn, Adv, Verb, Adj} then pos[i := Verb]
                 else pos)
                 pos [0..<length texts]
           in foldl (\<lambda>pos i.
                 let linking = (is_sensory_verb (flags ! (i - 1)) \<or> is_epistemic_verb (flags ! (i - 1)))
                 in if pos ! i \<noteq> Noun \<or> pos ! (i - 1) \<noteq> Verb then pos
                    else if linking \<and> length (texts ! i) > 4 \<and> is_manner_ly ortho (texts ! i) then pos
                    else if linking then pos[i := Adj]
                    else pos)
                 pos [1..<length texts])"

definition refine_pos_demonstrative_subject :: pos_refine_rule where
  "refine_pos_demonstrative_subject texts pos flags ortho =
     (if \<not> has_tag pos {Det} then pos
      else foldl (\<lambda>pos i.
             if pos ! i \<noteq> Det then pos
             else if \<not> (is_demonstrative (flags ! i) \<or> is_that_word (flags ! i)) then pos
             else if lget pos (i + 1) \<notin> {Some Verb, Some Aux} then pos
             else pos[i := Pron])
             pos [0..<length texts])"


definition refine_pos_medial_manner_ly :: "(string \<Rightarrow> bool) \<Rightarrow> pos_refine_rule" where
  "refine_pos_medial_manner_ly lc texts pos flags ortho =
     (if \<not> has_tag pos {Noun} then pos
      else foldl (\<lambda>pos i.
             if pos ! i \<noteq> Noun \<or> is_adverb_word (flags ! i) then pos
             else if length (texts ! i) \<le> 4 \<or> \<not> is_manner_ly ortho (texts ! i) then pos
             else if \<not> starts_lowercase lc (texts ! i) then pos
             else if pos ! (i - 1) \<noteq> Verb then pos
             else let continues =
                        (if lget pos (i + 1) \<in> {Some Adp, Some Cconj, Some Sconj} then True
                         else if lget pos (i + 1) = Some Punct then
                           (case lget texts (i + 1) of Some t \<Rightarrow> is_comma ortho t | None \<Rightarrow> False)
                         else False)
                  in if continues then pos[i := Adv] else pos)
             pos [1..<length texts])"

definition refine_pos_post_comma_verb :: pos_refine_rule where
  "refine_pos_post_comma_verb texts pos flags ortho =
     (if \<not> has_tag pos {Noun} then pos
      else foldl (\<lambda>pos i.
             if pos ! i \<noteq> Noun \<or> \<not> is_comma ortho (texts ! (i - 1)) then pos
             else if length (texts ! i) > 4 \<and> is_part_ing ortho (texts ! i) then pos
             else if lget pos (i + 1) \<in> {Some Cconj, Some Verb} then pos
             else let opened = list_ex (\<lambda>k. is_comma ortho (texts ! k) \<and> pos ! (k - 1) \<in> {Noun, Propn, Pron}) [1..<i - 1]
                  in if \<not> opened then pos else pos[i := Verb])
             pos [1..<length texts])"

definition refine_pos_comma_participle :: pos_refine_rule where
  "refine_pos_comma_participle texts pos flags ortho =
     (if \<not> has_tag pos {Noun} then pos
      else foldl (\<lambda>pos i.
             if pos ! i \<noteq> Noun \<or> \<not> is_comma ortho (texts ! (i - 1)) then pos
             else if length (texts ! i) \<le> 4 \<or> \<not> is_part_ing ortho (texts ! i) then pos
             else if (case lget texts (i + 1) of None \<Rightarrow> True | Some t \<Rightarrow> \<not> is_comma ortho t) then pos
             else pos[i := Verb])
             pos [1..<length texts])"

definition refine_pos_initial_noun_verb :: "(string \<Rightarrow> bool) \<Rightarrow> pos_refine_rule" where
  "refine_pos_initial_noun_verb lc texts pos flags ortho =
     (if length texts < 3 \<or> pos ! 2 \<noteq> Noun then pos
      else if pos ! 0 \<noteq> Det \<or> pos ! 1 \<noteq> Noun then pos
      else if is_noun_subject_verb_blocker (flags ! 2) then pos
      else if \<not> starts_lowercase lc (texts ! 2) then pos
      else pos[2 := Verb])"

definition refine_pos_conjoined_clause_verb :: "(string \<Rightarrow> bool) \<Rightarrow> pos_refine_rule" where
  "refine_pos_conjoined_clause_verb lc texts pos flags ortho =
     (if \<not> has_tag pos {Noun} then pos
      else foldl (\<lambda>pos i.
             if pos ! i \<noteq> Noun \<or> pos ! (i - 1) \<noteq> Noun \<or> pos ! (i - 2) \<noteq> Cconj then pos
             else if starts_lowercase lc (texts ! i) then pos[i := Verb]
             else pos)
             pos [2..<length texts])"

definition refine_pos_inverted_copular :: "(string \<Rightarrow> bool) \<Rightarrow> pos_refine_rule" where
  "refine_pos_inverted_copular lc texts pos flags ortho =
     (if \<not> has_tag pos {Noun} then pos
      else foldl (\<lambda>pos i.
             if pos ! i \<noteq> Noun then pos
             else if length (texts ! i) > 4 \<and> is_part_ing ortho (texts ! i) then pos
             else if \<not> starts_lowercase lc (texts ! i) then pos
             else if is_today_word (flags ! i) then pos
             else (case find (\<lambda>j. pos ! j = Aux \<and> is_be_form (flags ! j)) (rev [0..<i]) of
                     None \<Rightarrow> pos
                   | Some j \<Rightarrow>
                       if list_ex (\<lambda>k. pos ! k \<in> {Noun, Propn, Pron}) [j + 1..<i] then pos[i := Adj] else pos))
             pos [1..<length texts])"

definition refine_pos_be_predicate :: pos_refine_rule where
  "refine_pos_be_predicate texts pos flags ortho =
     (if \<not> has_tag pos {Noun} then pos
      else foldl (\<lambda>pos i.
             if pos ! i \<noteq> Noun then pos
             else if length (texts ! i) > 4 \<and> is_part_ing ortho (texts ! i) then pos
             else let direct = (pos ! (i - 1) = Aux \<and> is_be_form (flags ! (i - 1)) \<and> i - 1 \<ge> 1);
                      bridged = (i \<ge> 2 \<and> is_negator (flags ! (i - 1)) \<and> pos ! (i - 2) = Aux \<and>
                                 is_be_form (flags ! (i - 2)) \<and> i - 2 \<ge> 1)
                  in if direct \<or> bridged then pos[i := Adj] else pos)
             pos [1..<length texts])"

definition refine_pos_progressive_ing :: pos_refine_rule where
  "refine_pos_progressive_ing texts pos flags ortho =
     (if \<not> has_tag pos {Noun} then pos
      else foldl (\<lambda>pos i.
             if pos ! i \<noteq> Noun then pos
             else if length (texts ! i) \<le> 4 \<or> \<not> is_part_ing ortho (texts ! i) then pos
             else let direct = (pos ! (i - 1) = Aux \<and> is_be_form (flags ! (i - 1)));
                      bridged = (i \<ge> 2 \<and> is_negator (flags ! (i - 1)) \<and> pos ! (i - 2) = Aux \<and> is_be_form (flags ! (i - 2)))
                  in if \<not> (direct \<or> bridged) then pos
                     else (case lget pos (i + 1) of
                             None \<Rightarrow> pos[i := Adj]
                           | Some n \<Rightarrow>
                               if n = Punct then pos[i := Adj]
                               else if n \<in> {Adj, Adv, Noun, Propn, Pron, Det} then pos[i := Verb]
                               else pos))
             pos [1..<length texts])"

definition refine_pos_inversion_verb :: pos_refine_rule where
  "refine_pos_inversion_verb texts pos flags ortho =
     (if \<not> has_tag pos {Noun} then pos
      else foldl (\<lambda>pos i.
             if pos ! i \<noteq> Noun \<or> pos ! (i - 1) \<notin> {Noun, Propn} \<or> pos ! (i - 2) \<noteq> Det \<or>
                \<not> is_bare_infinitive_host (flags ! (i - 3)) then pos
             else pos[i := Verb])
             pos [3..<length texts])"

definition refine_pos_modal_question_verb :: "(string \<Rightarrow> bool) \<Rightarrow> pos_refine_rule" where
  "refine_pos_modal_question_verb lc texts pos flags ortho =
     (if \<not> has_tag pos {Noun} then pos
      else foldl (\<lambda>pos i.
             if pos ! i \<noteq> Noun then pos
             else if \<not> starts_lowercase lc (texts ! i) then pos
             else if \<not> trailing_only ortho texts (i + 1) then pos
             else if pos ! (i - 1) \<notin> {Pron, Noun, Propn, Det} \<or> pos ! (i - 2) \<noteq> Aux \<or>
                     \<not> is_bare_infinitive_host (flags ! (i - 2)) then pos
             else let pos = pos[i := Verb]
                  in if pos ! (i - 1) = Det \<and> is_demonstrative (flags ! (i - 1)) then pos[i - 1 := Pron] else pos)
             pos [2..<length texts])"

definition refine_pos_clausal_first_predicate :: pos_refine_rule where
  "refine_pos_clausal_first_predicate texts pos flags ortho =
     (if \<not> has_tag pos {Noun} then pos
      else foldl (\<lambda>pos i.
             if pos ! i \<noteq> Noun \<or> pos ! (i - 1) \<notin> {Noun, Propn} then pos
             else (case find (\<lambda>k. pos ! k = Cconj) (takeWhile (\<lambda>k. pos ! k \<noteq> Punct) [i + 1..<length texts]) of
                     None \<Rightarrow> pos
                   | Some j \<Rightarrow>
                       let subject = any_before_punct pos [j + 1..<length texts] (\<lambda>k. pos ! k \<in> {Noun, Propn, Pron});
                           verb = any_before_punct pos [j + 1..<length texts] (\<lambda>k. pos ! k = Verb)
                       in if subject \<and> verb then pos[i := Verb] else pos))
             pos [1..<length texts])"

definition refine_pos_conjoined_predicate_agreement :: pos_refine_rule where
  "refine_pos_conjoined_predicate_agreement texts pos flags ortho =
     (if \<not> has_tag pos {Noun} then pos
      else foldl (\<lambda>pos i.
             if pos ! i \<noteq> Noun \<or> pos ! (i - 1) \<noteq> Cconj \<or> pos ! (i - 2) \<noteq> Verb then pos
             else if any_before_punct pos [i + 1..<length texts] (\<lambda>k. pos ! k = Verb) then pos
             else pos[i := Verb])
             pos [2..<length texts])"

definition refine_pos_contracted_be :: pos_refine_rule where
  "refine_pos_contracted_be texts pos flags ortho =
     (if \<not> has_tag pos {X, Noun} then pos
      else let pos = foldl (\<lambda>pos i.
                 if pos ! i \<noteq> X then pos
                 else if is_be_clitic (flags ! i) \<and> i \<ge> 1 \<and> pos ! (i - 1) = Pron then pos[i := Aux]
                 else pos)
                 pos [0..<length texts]
           in foldl (\<lambda>pos i.
                 if pos ! i \<noteq> Noun then pos
                 else if (pos ! (i - 1) = Aux \<and> is_be_clitic (flags ! (i - 1))) \<and>
                         length (texts ! i) > 4 \<and> is_part_ing ortho (texts ! i) then pos[i := Verb]
                 else pos)
                 pos [1..<length texts])"

section \<open>The rule table\<close>

definition REFINE_RULES :: "(string \<Rightarrow> bool) \<Rightarrow> (string \<times> pos_refine_rule) list" where
  "REFINE_RULES lc =
     [(''det_closed_verb'', refine_pos_det_closed_verb),
      (''bare_infinitive'', refine_pos_bare_infinitive),
      (''bare_object_noun'', refine_pos_bare_object_noun),
      (''contracted_be'', refine_pos_contracted_be),
      (''indefinite_pronouns'', refine_pos_indefinite_pronouns),
      (''directive_initial'', refine_pos_directive_initial),
      (''bare_ed_transitive'', refine_pos_bare_ed_transitive lc),
      (''demonstrative_object'', refine_pos_demonstrative_object),
      (''imperative_non_det_object'', refine_pos_imperative_non_det_object),
      (''discourse_initial_verb'', refine_pos_discourse_initial_verb),
      (''get_imperative'', refine_pos_get_imperative),
      (''attributive_ly'', refine_pos_attributive_ly),
      (''pronoun_subject_verb'', refine_pos_pronoun_subject_verb),
      (''that_relative'', refine_pos_that_relative),
      (''interrogative_wh_adverbial'', refine_pos_interrogative_wh_adverbial),
      (''where_marker'', refine_pos_where_marker),
      (''clausal_after'', refine_pos_clausal_after),
      (''predicative_ly'', refine_pos_predicative_ly lc),
      (''final_adverbial'', refine_pos_final_adverbial),
      (''coordinated_adverbial'', refine_pos_coordinated_adverbial),
      (''linking_predicate'', refine_pos_linking_predicate),
      (''demonstrative_subject'', refine_pos_demonstrative_subject),
      (''medial_manner_ly'', refine_pos_medial_manner_ly lc),
      (''post_comma_verb'', refine_pos_post_comma_verb),
      (''comma_participle'', refine_pos_comma_participle),
      (''shifted_det_noun_verb'', refine_pos_shifted_det_noun_verb lc),
      (''comment_as'', refine_pos_comment_as),
      (''relative_matrix_verb'', refine_pos_relative_matrix_verb lc),
      (''relcl_matrix_complement'', refine_pos_relcl_matrix_complement lc),
      (''comma_adverbial'', refine_pos_comma_adverbial),
      (''initial_noun_verb'', refine_pos_initial_noun_verb lc),
      (''conjoined_clause_verb'', refine_pos_conjoined_clause_verb lc),
      (''inverted_copular'', refine_pos_inverted_copular lc),
      (''be_predicate'', refine_pos_be_predicate),
      (''progressive_ing'', refine_pos_progressive_ing),
      (''inversion_verb'', refine_pos_inversion_verb),
      (''modal_question_verb'', refine_pos_modal_question_verb lc),
      (''clausal_first_predicate'', refine_pos_clausal_first_predicate),
      (''conjoined_predicate_agreement'', refine_pos_conjoined_predicate_agreement),
      (''temporal_yet'', refine_pos_temporal_yet)]"

text \<open>The tagging half of \<open>annotate_with_confidence\<close>: infer every tag, then run the table in order.\<close>

definition tag_tokens :: "(string \<Rightarrow> bool) \<Rightarrow> string list \<Rightarrow> lexeme_flags list \<Rightarrow> tagger_ortho \<Rightarrow> upos list" where
  "tag_tokens lc texts flags ortho =
     foldl (\<lambda>pos rule. snd rule texts pos flags ortho) (map infer_pos flags) (REFINE_RULES lc)"

section \<open>Which tags a rule may change\<close>

definition retag_step :: "(upos \<times> upos) set" where
  "retag_step =
     {(Noun, Verb), (Noun, Pron), (Noun, Adv), (Noun, Adj), (Noun, Intj), (Noun, Sconj), (Verb, Noun), (Aux, Verb),
      (X, Aux), (Det, Pron), (Adp, Sconj), (Sconj, Adv), (Cconj, Adv)}"

definition retagged :: "upos list \<Rightarrow> upos list \<Rightarrow> bool" where
  "retagged = list_all2 (\<lambda>a b. (a, b) \<in> retag_step\<^sup>*)"

lemma retagged_refl [simp, intro]: "retagged pos pos"
  by (simp add: retagged_def list_all2_refl)

lemma retagged_trans: "retagged a b \<Longrightarrow> retagged b c \<Longrightarrow> retagged a c"
  unfolding retagged_def list_all2_conv_all_nth by (metis rtrancl_trans)

lemma retagged_update: "pos ! i = t \<Longrightarrow> (t, v) \<in> retag_step \<Longrightarrow> retagged pos (pos[i := v])"
  by (cases "i < length pos") (auto simp: retagged_def list_all2_conv_all_nth nth_list_update)

lemma retagged_scan:
  assumes "\<And>pos i. retagged pos (f pos i)"
  shows "retagged pos (foldl f pos is)"
  using assms retagged_trans by (induction "is" arbitrary: pos) fastforce+

lemma retagged_scan_from:
  assumes "\<And>pos i. retagged pos (f pos i)" and "retagged pos0 pos"
  shows "retagged pos0 (foldl f pos is)"
  using retagged_trans [OF assms(2) retagged_scan [OF assms(1)]] .

lemma retagged_update_from: "pos ! i = t \<Longrightarrow> (t, v) \<in> retag_step \<Longrightarrow> retagged pos0 pos \<Longrightarrow> retagged pos0 (pos[i := v])"
  using retagged_trans retagged_update by blast

named_theorems rule_retags

lemma retag_early_rules [rule_retags]:
  "retagged pos (refine_pos_det_closed_verb texts pos flags ortho)"
  "retagged pos (refine_pos_bare_infinitive texts pos flags ortho)"
  "retagged pos (refine_pos_bare_object_noun texts pos flags ortho)"
  "retagged pos (refine_pos_indefinite_pronouns texts pos flags ortho)"
  "retagged pos (refine_pos_directive_initial texts pos flags ortho)"
  by (simp_all add: refine_pos_det_closed_verb_def refine_pos_bare_infinitive_def refine_pos_bare_object_noun_def
      refine_pos_indefinite_pronouns_def refine_pos_directive_initial_def retagged_scan retagged_update Let_def retag_step_def)

lemma retag_object_rules [rule_retags]:
  "retagged pos (refine_pos_demonstrative_object texts pos flags ortho)"
  "retagged pos (refine_pos_attributive_ly texts pos flags ortho)"
  "retagged pos (refine_pos_imperative_non_det_object texts pos flags ortho)"
  "retagged pos (refine_pos_get_imperative texts pos flags ortho)"
  "retagged pos (refine_pos_bare_ed_transitive lc texts pos flags ortho)"
  "retagged pos (refine_pos_pronoun_subject_verb texts pos flags ortho)"
  "retagged pos (refine_pos_comment_as texts pos flags ortho)"
  "retagged pos (refine_pos_shifted_det_noun_verb lc texts pos flags ortho)"
  "retagged pos (refine_pos_relative_matrix_verb lc texts pos flags ortho)"
  "retagged pos (refine_pos_relcl_matrix_complement lc texts pos flags ortho)"
  by (simp_all add: refine_pos_demonstrative_object_def refine_pos_attributive_ly_def
      refine_pos_imperative_non_det_object_def refine_pos_get_imperative_def refine_pos_bare_ed_transitive_def
      refine_pos_pronoun_subject_verb_def refine_pos_comment_as_def refine_pos_shifted_det_noun_verb_def
      refine_pos_relative_matrix_verb_def refine_pos_relcl_matrix_complement_def
      retagged_scan retagged_update Let_def retag_step_def)

lemma retag_adverb_rules [rule_retags]:
  "retagged pos (refine_pos_comma_adverbial texts pos flags ortho)"
  "retagged pos (refine_pos_interrogative_wh_adverbial texts pos flags ortho)"
  "retagged pos (refine_pos_where_marker texts pos flags ortho)"
  "retagged pos (refine_pos_clausal_after texts pos flags ortho)"
  "retagged pos (refine_pos_predicative_ly lc texts pos flags ortho)"
  "retagged pos (refine_pos_final_adverbial texts pos flags ortho)"
  "retagged pos (refine_pos_coordinated_adverbial texts pos flags ortho)"
  "retagged pos (refine_pos_temporal_yet texts pos flags ortho)"
  "retagged pos (refine_pos_demonstrative_subject texts pos flags ortho)"
  "retagged pos (refine_pos_medial_manner_ly lc texts pos flags ortho)"
  by (simp_all add: refine_pos_comma_adverbial_def refine_pos_interrogative_wh_adverbial_def
      refine_pos_where_marker_def refine_pos_clausal_after_def refine_pos_predicative_ly_def
      refine_pos_final_adverbial_def refine_pos_coordinated_adverbial_def refine_pos_temporal_yet_def
      refine_pos_demonstrative_subject_def refine_pos_medial_manner_ly_def
      retagged_scan retagged_update Let_def retag_step_def)

lemma retag_clause_rules [rule_retags]:
  "retagged pos (refine_pos_post_comma_verb texts pos flags ortho)"
  "retagged pos (refine_pos_comma_participle texts pos flags ortho)"
  "retagged pos (refine_pos_initial_noun_verb lc texts pos flags ortho)"
  "retagged pos (refine_pos_conjoined_clause_verb lc texts pos flags ortho)"
  "retagged pos (refine_pos_inverted_copular lc texts pos flags ortho)"
  "retagged pos (refine_pos_be_predicate texts pos flags ortho)"
  "retagged pos (refine_pos_progressive_ing texts pos flags ortho)"
  "retagged pos (refine_pos_inversion_verb texts pos flags ortho)"
  "retagged pos (refine_pos_clausal_first_predicate texts pos flags ortho)"
  "retagged pos (refine_pos_conjoined_predicate_agreement texts pos flags ortho)"
  by (simp_all add: refine_pos_post_comma_verb_def refine_pos_comma_participle_def refine_pos_initial_noun_verb_def
      refine_pos_conjoined_clause_verb_def refine_pos_inverted_copular_def refine_pos_be_predicate_def
      refine_pos_progressive_ing_def refine_pos_inversion_verb_def refine_pos_clausal_first_predicate_def
      refine_pos_conjoined_predicate_agreement_def
      retagged_scan retagged_update Let_def retag_step_def split: option.splits)

text \<open>The rules with several passes or several writes.\<close>

lemma retag_two_writes [rule_retags]:
  "retagged pos (refine_pos_discourse_initial_verb texts pos flags ortho)"
  "retagged pos (refine_pos_modal_question_verb lc texts pos flags ortho)"
  unfolding refine_pos_discourse_initial_verb_def refine_pos_modal_question_verb_def Let_def
  by (auto intro!: retagged_scan retagged_update_from [OF refl] retagged_update
      simp: retag_step_def nth_list_update_neq)

lemma retag_passes [rule_retags]:
  "retagged pos (refine_pos_that_relative texts pos flags ortho)"
  "retagged pos (refine_pos_linking_predicate texts pos flags ortho)"
  "retagged pos (refine_pos_contracted_be texts pos flags ortho)"
  by (simp_all add: refine_pos_that_relative_def refine_pos_linking_predicate_def refine_pos_contracted_be_def
      retagged_scan_from retagged_scan retagged_update Let_def retag_step_def)


lemma retagged_rules: "(name, rule) \<in> set (REFINE_RULES lc) \<Longrightarrow> retagged pos (rule texts pos flags ortho)"
  by (auto simp: REFINE_RULES_def rule_retags)

lemma retagged_table:
  "\<forall>r \<in> set rules. \<forall>pos. retagged pos (snd r texts pos flags ortho) \<Longrightarrow>
   retagged pos (foldl (\<lambda>pos rule. snd rule texts pos flags ortho) pos rules)"
  by (induction rules arbitrary: pos) (auto intro: retagged_trans)

lemma tag_tokens_retagged: "retagged (map infer_pos flags) (tag_tokens lc texts flags ortho)"
  unfolding tag_tokens_def using retagged_rules by (intro retagged_table) force

lemma tag_tokens_length: "length (tag_tokens lc texts flags ortho) = length flags"
  using tag_tokens_retagged [of flags lc texts ortho] by (auto simp: retagged_def dest: list_all2_lengthD)

text \<open>Tags outside the left column of the table never change, and no rule produces one outside the right column.\<close>

lemma retag_fixed: "(a, b) \<in> retag_step\<^sup>* \<Longrightarrow> a \<notin> {Noun, Verb, Aux, X, Det, Adp, Sconj, Cconj} \<Longrightarrow> b = a"
  by (induction rule: rtrancl_induct) (auto simp: retag_step_def)

lemma retag_range: "(a, b) \<in> retag_step\<^sup>* \<Longrightarrow> b = a \<or> b \<in> {Noun, Verb, Pron, Adv, Adj, Intj, Sconj, Aux}"
  by (induction rule: rtrancl_induct) (auto simp: retag_step_def)

lemma infer_pos_range: "infer_pos f = Space \<or> infer_pos f \<in> set UPOS"
  by (auto simp: infer_pos_def closed_funcword_pos_def UPOS_def)

lemma retag_upos: "(a, b) \<in> retag_step\<^sup>* \<Longrightarrow> a \<in> set UPOS \<Longrightarrow> b \<in> set UPOS"
  by (induction rule: rtrancl_induct) (auto simp: retag_step_def UPOS_def)

lemma tag_tokens_step:
  "i < length flags \<Longrightarrow> (infer_pos (flags ! i), tag_tokens lc texts flags ortho ! i) \<in> retag_step\<^sup>*"
  using tag_tokens_retagged [of flags lc texts ortho] by (auto simp: retagged_def list_all2_conv_all_nth)

lemma tag_tokens_fixed:
  assumes "i < length flags" and "t \<in> {Punct, Num, Space, Part, Propn}"
  shows "tag_tokens lc texts flags ortho ! i = t \<longleftrightarrow> infer_pos (flags ! i) = t"
  using assms(2) retag_fixed [OF tag_tokens_step [OF assms(1), of lc texts ortho]]
    retag_range [OF tag_tokens_step [OF assms(1), of lc texts ortho]] by auto

lemma tag_tokens_tags:
  assumes "i < length flags"
  shows "(tag_tokens lc texts flags ortho ! i \<in> set UPOS \<longleftrightarrow>
       \<not> (is_space (flags ! i) \<and> \<not> is_punct (flags ! i) \<and> \<not> is_digit (flags ! i))) \<and>
    (tag_tokens lc texts flags ortho ! i = Space \<longleftrightarrow>
       is_space (flags ! i) \<and> \<not> is_punct (flags ! i) \<and> \<not> is_digit (flags ! i))"
proof -
  have "infer_pos (flags ! i) = Space \<longleftrightarrow> is_space (flags ! i) \<and> \<not> is_punct (flags ! i) \<and> \<not> is_digit (flags ! i)"
    by (auto simp: infer_pos_def closed_funcword_pos_def)
  moreover have "Space \<notin> set UPOS" by (simp add: UPOS_def)
  ultimately show ?thesis
    using infer_pos_range [of "flags ! i"] retag_upos [OF tag_tokens_step [OF assms, of lc texts ortho]]
      tag_tokens_fixed [OF assms, of Space lc texts ortho] by auto
qed

text \<open>
  C26. The refinement rules keep one tag per token and move a token's tag only along the retagging table. So
  punctuation, numbers, whitespace, particles and proper nouns keep the tag their flags gave them, no other
  token becomes one of these, and a token is tagged as whitespace exactly when its flags say it is
  whitespace and neither punctuation nor a number.
\<close>

theorem tag_tokens_exact:
  assumes "i < length flags"
  shows "length (tag_tokens lc texts flags ortho) = length flags \<and>
    (infer_pos (flags ! i), tag_tokens lc texts flags ortho ! i) \<in> retag_step\<^sup>* \<and>
    (\<forall>t \<in> {Punct, Num, Space, Part, Propn}. tag_tokens lc texts flags ortho ! i = t \<longleftrightarrow> infer_pos (flags ! i) = t) \<and>
    (tag_tokens lc texts flags ortho ! i \<in> set UPOS \<longleftrightarrow>
       \<not> (is_space (flags ! i) \<and> \<not> is_punct (flags ! i) \<and> \<not> is_digit (flags ! i)))"
  using tag_tokens_length tag_tokens_step [OF assms] tag_tokens_fixed [OF assms] tag_tokens_tags [OF assms] by blast


text \<open>\<open>She is ready .\<close>: the predicate becomes an adjective, the punctuation mark stays.\<close>

definition sample_flags :: "lexeme_flags list" where
  "sample_flags = [553648130, 69206018, 2, 32]"

theorem tag_tokens_exact_witness:
  "tag_tokens (\<lambda>_. True) [''She'', ''is'', ''ready'', ''.''] sample_flags sample_ortho = [Pron, Aux, Adj, Punct] \<and>
   (infer_pos (sample_flags ! 2), Adj) \<in> retag_step\<^sup>* \<and> infer_pos (sample_flags ! 2) = Noun"
proof -
  have tags: "tag_tokens (\<lambda>_. True) [''She'', ''is'', ''ready'', ''.''] sample_flags sample_ortho = [Pron, Aux, Adj, Punct]"
    by code_simp
  have "infer_pos (sample_flags ! 2) = Noun" by code_simp
  with tags tag_tokens_exact [of 2 sample_flags "\<lambda>_. True" "[''She'', ''is'', ''ready'', ''.'']" sample_ortho]
  show ?thesis by (simp add: sample_flags_def)
qed

end
