(* ===== verification/Hashing.thy ===== *)
theory Hashing
  imports Labels "HOL-Library.Word"
begin

unbundle bit_operations_syntax

text \<open>
  The string hash and the string store: \<open>src/src/spacy-rs/src/hash.rs\<close> and
  \<open>src/src/spacy-rs/src/strings.rs\<close>. A string is the list of its bytes; hashes are 64-bit words and the
  multiplications wrap.
\<close>

section \<open>MurmurHash64A\<close>

definition HASH_SEED :: "64 word" where
  "HASH_SEED = 1"

definition murmur_m :: "64 word" where
  "murmur_m = 0xc6a4a7935bd1e995"

definition murmur_r :: nat where
  "murmur_r = 47"

definition from_le_bytes :: "string \<Rightarrow> 64 word" where
  "from_le_bytes bs = foldr (\<lambda>c acc. of_char c OR push_bit 8 acc) bs 0"

text \<open>The loop over whole blocks; it returns the state and the bytes that are left.\<close>

function murmur_blocks :: "64 word \<Rightarrow> string \<Rightarrow> 64 word \<times> string" where
  "murmur_blocks h data =
     (if 8 \<le> length data then
        let k = from_le_bytes (take 8 data);
            k = k * murmur_m;
            k = k XOR drop_bit murmur_r k;
            k = k * murmur_m;
            h = h XOR k;
            h = h * murmur_m
        in murmur_blocks h (drop 8 data)
      else (h, data))"
  by pat_completeness auto
termination by (relation "measure (\<lambda>(_, data). length data)") auto

definition murmur_tail :: "string \<Rightarrow> 64 word" where
  "murmur_tail rest =
     (let remaining = length rest;
          tail = 0;
          tail = (if remaining \<ge> 7 then tail OR push_bit 48 (of_char (rest ! 6)) else tail);
          tail = (if remaining \<ge> 6 then tail OR push_bit 40 (of_char (rest ! 5)) else tail);
          tail = (if remaining \<ge> 5 then tail OR push_bit 32 (of_char (rest ! 4)) else tail);
          tail = (if remaining \<ge> 4 then tail OR push_bit 24 (of_char (rest ! 3)) else tail);
          tail = (if remaining \<ge> 3 then tail OR push_bit 16 (of_char (rest ! 2)) else tail);
          tail = (if remaining \<ge> 2 then tail OR push_bit 8 (of_char (rest ! 1)) else tail)
      in (if remaining \<ge> 1 then tail OR of_char (rest ! 0) else tail))"

definition murmur64a :: "string \<Rightarrow> 64 word \<Rightarrow> 64 word" where
  "murmur64a data seed =
     (let h = seed XOR (of_nat (length data) * murmur_m);
          (h, rest) = murmur_blocks h data;
          h = (if length rest \<noteq> 0 then (h XOR murmur_tail rest) * murmur_m else h);
          h = h XOR drop_bit murmur_r h;
          h = h * murmur_m
      in h XOR drop_bit murmur_r h)"

definition hash_utf8 :: "string \<Rightarrow> 64 word" where
  "hash_utf8 s = murmur64a s HASH_SEED"

lemmas hash_eval =
  hash_utf8_def murmur64a_def murmur_tail_def HASH_SEED_def murmur_m_def murmur_r_def from_le_bytes_def

section \<open>The string store\<close>

type_synonym string_store = "(64 word, string) hmap"

definition strings_new :: string_store where
  "strings_new = hm_empty"

definition ss_intern :: "string_store \<Rightarrow> 64 word \<Rightarrow> string \<Rightarrow> string_store" where
  "ss_intern m h s = (if hm_contains m h then m else hm_insert m h s)"

definition ss_add :: "string_store \<Rightarrow> string \<Rightarrow> 64 word \<times> string_store" where
  "ss_add m s = (if s = [] then (0, m) else let h = hash_utf8 s in (h, ss_intern m h s))"

definition ss_lookup :: "string_store \<Rightarrow> string \<Rightarrow> 64 word" where
  "ss_lookup m s = hash_utf8 s"

definition ss_get :: "string_store \<Rightarrow> 64 word \<Rightarrow> string option" where
  "ss_get m hash = (if hash = 0 then Some [] else hm_get m hash)"

definition ss_contains :: "string_store \<Rightarrow> string \<Rightarrow> bool" where
  "ss_contains m s \<longleftrightarrow> s = [] \<or> hm_contains m (hash_utf8 s)"

definition ss_len :: "string_store \<Rightarrow> nat" where
  "ss_len m = length m"

definition ss_is_empty :: "string_store \<Rightarrow> bool" where
  "ss_is_empty m \<longleftrightarrow> ss_len m = 0"

text \<open>\<open>from_bytes\<close> after the entries are decoded: the first entry of a hash wins.\<close>

definition ss_from_entries :: "(64 word \<times> string) list \<Rightarrow> string_store" where
  "ss_from_entries entries = foldl (\<lambda>m (hash, s). ss_intern m hash s) strings_new entries"


section \<open>Interning\<close>

definition ss_add_all :: "string_store \<Rightarrow> string list \<Rightarrow> string_store" where
  "ss_add_all m ss = foldl (\<lambda>m s. snd (ss_add m s)) m ss"

lemma ss_get_intern:
  "ss_get (ss_intern m h s) k = (if k = h \<and> k \<noteq> 0 \<and> ss_get m k = None then Some s else ss_get m k)"
  by (auto simp: ss_get_def ss_intern_def hm_contains_def)

lemma ss_get_add:
  "ss_get (snd (ss_add m s)) k =
     (if s \<noteq> [] \<and> k = hash_utf8 s \<and> k \<noteq> 0 \<and> ss_get m k = None then Some s else ss_get m k)"
  by (auto simp: ss_add_def Let_def ss_get_intern)

text \<open>An entry never changes once it is there, and the first string of a hash is the one that stays.\<close>

lemma ss_get_add_all:
  "ss_get (ss_add_all m ss) k =
     (case ss_get m k of
        Some t \<Rightarrow> Some t
      | None \<Rightarrow> find (\<lambda>s. s \<noteq> [] \<and> hash_utf8 s = k) ss)"
proof (induction ss arbitrary: m)
  case (Cons s ss)
  have "k \<noteq> 0" if "ss_get m k = None" using that by (auto simp: ss_get_def split: if_splits)
  with Cons.IH [of "snd (ss_add m s)"] show ?case
    by (auto simp: ss_add_all_def ss_get_add split: option.splits)
qed (simp add: ss_add_all_def split: option.splits)

lemma ss_get_new: "ss_get strings_new k = (if k = 0 then Some [] else None)"
  by (simp add: ss_get_def strings_new_def)

lemma fst_ss_add: "fst (ss_add m s) = (if s = [] then 0 else hash_utf8 s)"
  by (simp add: ss_add_def Let_def)

text \<open>
  C28. After any sequence of additions to a fresh store, a hash resolves to the first added string that has it,
  the reserved hash to the empty string, and every other hash to nothing; so a string resolves to itself
  exactly when no earlier added string shares its hash.
\<close>

theorem string_store_exact:
  "ss_get (ss_add_all strings_new ss) k =
     (if k = 0 then Some [] else find (\<lambda>s. s \<noteq> [] \<and> hash_utf8 s = k) ss) \<and>
   (s \<in> set ss \<and> s \<noteq> [] \<and> hash_utf8 s \<noteq> 0 \<and> (\<forall>t \<in> set ss. hash_utf8 t = hash_utf8 s \<longrightarrow> t = s) \<longrightarrow>
     ss_get (ss_add_all strings_new ss) (fst (ss_add m s)) = Some s)"
proof -
  have "find (\<lambda>t. t \<noteq> [] \<and> hash_utf8 t = hash_utf8 s) ss = Some s"
    if "s \<in> set ss" "s \<noteq> []" "\<forall>t \<in> set ss. hash_utf8 t = hash_utf8 s \<longrightarrow> t = s"
    using that by (induction ss) auto
  then show ?thesis by (simp add: ss_get_add_all ss_get_new fst_ss_add)
qed

text \<open>The store at a hash of the reference implementation.\<close>

theorem string_store_exact_witness:
  "hash_utf8 ''apple'' = 8566208034543834098 \<and>
   ss_get (ss_add_all strings_new [''orange'', [], ''apple'']) 8566208034543834098 = Some ''apple''"
proof -
  have hash: "hash_utf8 ''apple'' = 8566208034543834098" "hash_utf8 ''orange'' = 2208928596161743350"
      "hash_utf8 [] = 14313749767032693980"
    by (simp_all add: hash_eval)
  then have "\<forall>t \<in> set [''orange'', [], ''apple'']. hash_utf8 t = hash_utf8 ''apple'' \<longrightarrow> t = ''apple''" by simp
  with string_store_exact [of "[''orange'', [], ''apple'']" 0 "''apple''" strings_new] hash show ?thesis
    by (simp add: fst_ss_add)
qed

end
