(* ===== verification/ArcEager.thy ===== *)
theory ArcEager
  imports Tagger Hashing
begin

text \<open>
  The transition system of \<open>src/src/spacy-rs/src/arc_eager.rs\<close>: parser state, candidate actions, transitions and
  the scoring oracle.

  Stack and buffer are lists (the stack's top is its last element), heads are the \<open>i32\<close> values of the code with
  -1 for unset, labels are string hashes. The match on the pair of tags is a chain of tests in the order of its
  arms. The scores are whole numbers in the code's floats, so they and their differences are exact integers.
\<close>

section \<open>Labels\<close>

record dep_labels =
  dl_root :: "64 word"
  dl_nsubj :: "64 word"
  dl_dobj :: "64 word"
  dl_iobj :: "64 word"
  dl_prep :: "64 word"
  dl_pobj :: "64 word"
  dl_compound :: "64 word"
  dl_det :: "64 word"
  dl_aux :: "64 word"
  dl_punct :: "64 word"
  dl_amod :: "64 word"
  dl_advmod :: "64 word"
  dl_cc :: "64 word"
  dl_dep :: "64 word"
  dl_neg :: "64 word"
  dl_mark :: "64 word"
  dl_cop :: "64 word"
  dl_appos :: "64 word"
  dl_parataxis :: "64 word"
  dl_acomp :: "64 word"
  dl_xcomp :: "64 word"
  dl_relcl :: "64 word"
  dl_obj :: "64 word"
  dl_ccomp :: "64 word"
  dl_advcl :: "64 word"
  dl_conj :: "64 word"
  dl_nummod :: "64 word"
  dl_expl :: "64 word"

definition label_names :: "string list" where
  "label_names =
     [''root'', ''nsubj'', ''dobj'', ''iobj'', ''prep'', ''pobj'', ''compound'', ''det'', ''aux'', ''punct'',
      ''amod'', ''advmod'', ''cc'', ''dep'', ''neg'', ''mark'', ''cop'', ''appos'', ''parataxis'', ''acomp'',
      ''xcomp'', ''relcl'', ''obj'', ''ccomp'', ''advcl'', ''conj'', ''nummod'', ''expl'']"

text \<open>\<open>DepLabels::new\<close>: the hashes, and the store after interning the names in this order.\<close>

definition dep_labels_new :: "string_store \<Rightarrow> dep_labels \<times> string_store" where
  "dep_labels_new strings =
     (\<lparr>dl_root = fst (ss_add strings ''root''), dl_nsubj = fst (ss_add strings ''nsubj''),
       dl_dobj = fst (ss_add strings ''dobj''), dl_iobj = fst (ss_add strings ''iobj''),
       dl_prep = fst (ss_add strings ''prep''), dl_pobj = fst (ss_add strings ''pobj''),
       dl_compound = fst (ss_add strings ''compound''), dl_det = fst (ss_add strings ''det''),
       dl_aux = fst (ss_add strings ''aux''), dl_punct = fst (ss_add strings ''punct''),
       dl_amod = fst (ss_add strings ''amod''), dl_advmod = fst (ss_add strings ''advmod''),
       dl_cc = fst (ss_add strings ''cc''), dl_dep = fst (ss_add strings ''dep''),
       dl_neg = fst (ss_add strings ''neg''), dl_mark = fst (ss_add strings ''mark''),
       dl_cop = fst (ss_add strings ''cop''), dl_appos = fst (ss_add strings ''appos''),
       dl_parataxis = fst (ss_add strings ''parataxis''), dl_acomp = fst (ss_add strings ''acomp''),
       dl_xcomp = fst (ss_add strings ''xcomp''), dl_relcl = fst (ss_add strings ''relcl''),
       dl_obj = fst (ss_add strings ''obj''), dl_ccomp = fst (ss_add strings ''ccomp''),
       dl_advcl = fst (ss_add strings ''advcl''), dl_conj = fst (ss_add strings ''conj''),
       dl_nummod = fst (ss_add strings ''nummod''), dl_expl = fst (ss_add strings ''expl'')\<rparr>,
      ss_add_all strings label_names)"

definition label_to_string :: "64 word \<Rightarrow> string_store \<Rightarrow> string" where
  "label_to_string label strings = (case ss_get strings label of None \<Rightarrow> ''dep'' | Some s \<Rightarrow> s)"

section \<open>State\<close>

datatype arc_eager_move = Shift | Reduce | Left | Right | Break

record arc_eager_action =
  aa_move :: arc_eager_move
  aa_label :: "64 word"

record arc_eager_state =
  st_stack :: "nat list"
  st_buffer :: "nat list"
  st_heads :: "int list"
  st_labels :: "64 word list"
  st_left_children :: "nat list list"
  st_right_children :: "nat list list"
  st_n_tokens :: nat
  st_sent_start :: nat

text \<open>The cast of an index to \<open>i32\<close> wraps.\<close>

definition as_i32 :: "nat \<Rightarrow> int" where
  "as_i32 n = (int n + 2 ^ 31) mod 2 ^ 32 - 2 ^ 31"

definition state_new :: "nat \<Rightarrow> nat \<Rightarrow> arc_eager_state" where
  "state_new n_tokens sent_start =
     \<lparr>st_stack = [], st_buffer = [], st_heads = replicate n_tokens (-1), st_labels = replicate n_tokens 0,
      st_left_children = replicate n_tokens [], st_right_children = replicate n_tokens [],
      st_n_tokens = n_tokens, st_sent_start = sent_start\<rparr>"

definition reset_for_sentence :: "arc_eager_state \<Rightarrow> nat \<Rightarrow> nat \<Rightarrow> nat \<Rightarrow> 64 word \<Rightarrow> arc_eager_state" where
  "reset_for_sentence st s e root root_label =
     st\<lparr>st_stack := [], st_buffer := [s..<e], st_sent_start := s,
        st_heads := (st_heads st)[root := -1], st_labels := (st_labels st)[root := root_label]\<rparr>"

definition is_final :: "arc_eager_state \<Rightarrow> bool" where
  "is_final st \<longleftrightarrow> st_buffer st = [] \<and> st_stack st = []"

definition stack_top :: "arc_eager_state \<Rightarrow> nat option" where
  "stack_top st = (if st_stack st = [] then None else Some (last (st_stack st)))"

definition buffer_head :: "arc_eager_state \<Rightarrow> nat option" where
  "buffer_head st = (case st_buffer st of [] \<Rightarrow> None | b # _ \<Rightarrow> Some b)"

definition act :: "arc_eager_move \<Rightarrow> 64 word \<Rightarrow> arc_eager_action" where
  "act move_type label = \<lparr>aa_move = move_type, aa_label = label\<rparr>"

definition copula_is_attached :: "arc_eager_state \<Rightarrow> nat \<Rightarrow> 64 word \<Rightarrow> bool" where
  "copula_is_attached st b cop = list_ex (\<lambda>c. st_labels st ! c = cop) (st_left_children st ! b)"

definition copular_subject_frame ::
    "arc_eager_state \<Rightarrow> lexeme_flags list \<Rightarrow> nat \<Rightarrow> nat \<Rightarrow> upos list \<Rightarrow> dep_labels \<Rightarrow> bool" where
  "copular_subject_frame st flags s b pos labels \<longleftrightarrow>
     pos ! s \<in> {Noun, Propn, Pron, Det} \<and> pos ! b \<in> {Noun, Propn} \<and>
     \<not> is_locative (flags ! s) \<and> copula_is_attached st b (dl_cop labels)"

section \<open>Transitions\<close>

fun apply_move :: "arc_eager_state \<Rightarrow> arc_eager_move \<Rightarrow> 64 word \<Rightarrow> arc_eager_state" where
  "apply_move st Shift label =
     (case buffer_head st of
        Some b \<Rightarrow> st\<lparr>st_stack := st_stack st @ [b], st_buffer := tl (st_buffer st)\<rparr>
      | None \<Rightarrow> st)"
| "apply_move st Reduce label =
     (case stack_top st of Some _ \<Rightarrow> st\<lparr>st_stack := butlast (st_stack st)\<rparr> | None \<Rightarrow> st)"
| "apply_move st Left label =
     (case (stack_top st, buffer_head st) of
        (Some s, Some b) \<Rightarrow>
          let st = (if st_heads st ! s = -1 then
                      st\<lparr>st_heads := (st_heads st)[s := as_i32 b], st_labels := (st_labels st)[s := label],
                         st_left_children := (st_left_children st)[b := st_left_children st ! b @ [s]]\<rparr>
                    else st)
          in st\<lparr>st_stack := butlast (st_stack st)\<rparr>
      | _ \<Rightarrow> st)"
| "apply_move st Right label =
     (case (stack_top st, buffer_head st) of
        (Some s, Some b) \<Rightarrow>
          let st = (if st_heads st ! b = -1 then
                      st\<lparr>st_heads := (st_heads st)[b := as_i32 s], st_labels := (st_labels st)[b := label],
                         st_right_children := (st_right_children st)[s := st_right_children st ! s @ [b]]\<rparr>
                    else st)
          in st\<lparr>st_stack := st_stack st @ [b], st_buffer := tl (st_buffer st)\<rparr>
      | _ \<Rightarrow> st)"
| "apply_move st Break label =
     (let st = st\<lparr>st_stack := []\<rparr>
      in case buffer_head st of
           Some b \<Rightarrow> st\<lparr>st_buffer := tl (st_buffer st), st_sent_start := b\<rparr>
         | None \<Rightarrow> st)"

definition apply_action :: "arc_eager_state \<Rightarrow> arc_eager_action \<Rightarrow> arc_eager_state" where
  "apply_action st action = apply_move st (aa_move action) (aa_label action)"


section \<open>Candidate actions\<close>

text \<open>The positions strictly between the stack top and the buffer head, and tests over them.\<close>

definition any_between :: "nat \<Rightarrow> nat \<Rightarrow> (nat \<Rightarrow> bool) \<Rightarrow> bool" where
  "any_between s b P = list_ex P [s + 1..<b]"

definition all_between :: "nat \<Rightarrow> nat \<Rightarrow> (nat \<Rightarrow> bool) \<Rightarrow> bool" where
  "all_between s b P = list_all P [s + 1..<b]"

definition fallback_root_tie :: "arc_eager_state \<Rightarrow> upos list \<Rightarrow> dep_labels \<Rightarrow> nat \<Rightarrow> bool" where
  "fallback_root_tie st pos labels s \<longleftrightarrow>
     st_labels st ! s = dl_root labels \<and> pos ! s \<in> {Noun, Propn} \<and> \<not> list_ex (\<lambda>p. p = Verb \<or> p = Aux) pos"

definition clausal_cc_defer ::
    "arc_eager_state \<Rightarrow> upos list \<Rightarrow> string list \<Rightarrow> dep_labels \<Rightarrow> nat \<Rightarrow> nat \<Rightarrow> bool" where
  "clausal_cc_defer st pos texts labels s b \<longleftrightarrow>
     pos ! s = Cconj \<and>
     list_ex (\<lambda>t. pos ! t = Verb \<and> list_ex (\<lambda>c. st_labels st ! c = dl_nsubj labels) (st_left_children st ! t)) (st_stack st) \<and>
     any_before_punct pos [b + 1..<length texts] (\<lambda>k. pos ! k = Verb)"

definition sconj_verbless_tie :: "upos list \<Rightarrow> string list \<Rightarrow> nat \<Rightarrow> nat \<Rightarrow> bool" where
  "sconj_verbless_tie pos texts s b \<longleftrightarrow>
     pos ! s = Sconj \<and> pos ! b \<in> {Adj, Adp} \<and> \<not> any_before_punct pos [b..<length texts] (\<lambda>j. pos ! j = Verb)"

text \<open>The arms offered when the stack top may still be given a head, for nominal tops.\<close>

definition left_nominal_arms ::
    "arc_eager_state \<Rightarrow> upos list \<Rightarrow> string list \<Rightarrow> lexeme_flags list \<Rightarrow> dep_labels \<Rightarrow> tagger_ortho \<Rightarrow> nat \<Rightarrow> nat
     \<Rightarrow> arc_eager_action list option" where
  "left_nominal_arms st pos texts flags labels ortho s b =
     (let ps = pos ! s; pb = pos ! b; word = texts ! b
      in if ps \<in> {Noun, Propn, Pron} \<and> pb = Verb then
           let framed_participle = (length word > 4 \<and> is_part_ing ortho word \<and> b > 0 \<and> is_comma ortho (texts ! (b - 1)))
           in Some ((if \<not> framed_participle then [act Left (dl_nsubj labels)] else []) @
                    (if ps = Pron \<and> any_between s b (\<lambda>m. is_nominative_subject (flags ! m)) then [act Left (dl_obj labels)] else []))
         else if ps \<in> {Noun, Propn, Pron} \<and> pb = Adj then Some [act Left (dl_nsubj labels)]
         else if ps = Det \<and> pb \<in> {Noun, Propn} then
           Some ([act Left (dl_det labels)] @
                 (if copular_subject_frame st flags s b pos labels then [act Left (dl_nsubj labels)] else []))
         else if ps = Adj \<and> pb \<in> {Noun, Propn} then Some [act Left (dl_amod labels)]
         else if ps \<in> {Noun, Propn} \<and> pb \<in> {Noun, Propn} then
           Some ((if all_between s b (\<lambda>k. pos ! k \<noteq> Punct \<and> pos ! k \<noteq> Cconj) then [act Left (dl_compound labels)] else []) @
                 (if is_there_word (flags ! s) \<and> copula_is_attached st b (dl_cop labels) then [act Left (dl_expl labels)] else []) @
                 (if copular_subject_frame st flags s b pos labels then [act Left (dl_nsubj labels)] else []))
         else if ps = Pron \<and> pb \<in> {Noun, Propn} then
           Some ((if copular_subject_frame st flags s b pos labels then [act Left (dl_nsubj labels)] else []) @
                 (if is_there_word (flags ! s) \<and> copula_is_attached st b (dl_cop labels) then [act Left (dl_expl labels)] else []))
         else if ps = Num \<and> pb \<in> {Noun, Propn} then
           Some (if all_between s b (\<lambda>k. pos ! k \<noteq> Punct) then [act Left (dl_nummod labels)] else [])
         else None)"

text \<open>The remaining arms of the same match.\<close>

definition left_function_arms ::
    "arc_eager_state \<Rightarrow> upos list \<Rightarrow> string list \<Rightarrow> lexeme_flags list \<Rightarrow> dep_labels \<Rightarrow> tagger_ortho \<Rightarrow> nat \<Rightarrow> nat
     \<Rightarrow> arc_eager_action list" where
  "left_function_arms st pos texts flags labels ortho s b =
     (let ps = pos ! s; pb = pos ! b; word = texts ! b
      in if ps = Aux \<and> pb = Verb then [act Left (dl_aux labels)]
         else if ps = Aux \<and> pb = Adj then
           [act Left (dl_cop labels)] @
           (if is_be_form (flags ! s) \<and> any_between s b (\<lambda>k. pos ! k = Det) \<and>
               any_between s b (\<lambda>k. pos ! k \<in> {Noun, Propn, Pron}) then [act Left (dl_dep labels)] else []) @
           (if is_be_form (flags ! s) \<and> length word > 4 \<and> is_part_ing ortho word then [act Left (dl_dep labels)] else [])
         else if ps = Aux \<and> pb \<in> {Noun, Propn} then
           (if is_be_form (flags ! s) \<and> any_between s b (\<lambda>k. pos ! k = Det) \<and>
               \<not> any_before_punct pos [b + 1..<length texts] (\<lambda>k. pos ! k = Adj) \<and>
               \<not> (case lget flags (st_sent_start st) of Some f \<Rightarrow> is_where_word f | None \<Rightarrow> False)
            then [act Left (dl_cop labels)] else [])
         else if ps = Verb \<and> pb = Adj then
           (if any_between s b (\<lambda>k. pos ! k = Punct) \<and> any_between s b (\<lambda>k. pos ! k \<in> {Noun, Propn, Pron})
            then [act Left (dl_parataxis labels)] else [])
         else if ps = Adv \<and> pb = Verb then [act Left (dl_advmod labels)]
         else if ps = Adv \<and> pb = Aux then
           (if is_wh_adverbial (flags ! s) \<and> is_be_form (flags ! b) \<and> st_labels st ! b = dl_root labels
            then [act Left (dl_advmod labels)] else [])
         else if ps = Adv \<and> pb = Adj then
           (if is_wh_adverbial (flags ! s) then [act Left (dl_advmod labels)] else [])
         else if ps = Cconj then
           (if \<not> clausal_cc_defer st pos texts labels s b then [act Left (dl_cc labels)] else [])
         else if ps = Part \<and> pb \<in> {Verb, Adj} then [act Left (dl_neg labels)]
         else if ps = Sconj \<and> pb = Verb then
           (if all_between s b (\<lambda>k. pos ! k \<noteq> Punct) then [act Left (dl_mark labels)] else [])
         else if ps = Sconj \<and> pb \<in> {Noun, Propn, Pron} then
           (if \<not> any_before_punct pos [b..<length texts] (\<lambda>j. pos ! j = Verb) then [act Left (dl_dep labels)] else [])
         else if ps = Sconj \<and> pb \<in> {Adj, Adp} then
           (if sconj_verbless_tie pos texts s b then [act Left (dl_dep labels)] else [])
         else [])"

text \<open>The arm for two verbs, offered when the buffer head may still be given a head.\<close>

definition right_verb_verb ::
    "arc_eager_state \<Rightarrow> upos list \<Rightarrow> string list \<Rightarrow> lexeme_flags list \<Rightarrow> dep_labels \<Rightarrow> tagger_ortho \<Rightarrow> nat \<Rightarrow> nat
     \<Rightarrow> arc_eager_action list" where
  "right_verb_verb st pos texts flags labels ortho s b =
     (let boundary = any_between s b (\<lambda>k. pos ! k = Punct);
          subject = any_between s b (\<lambda>k. pos ! k \<in> {Noun, Propn, Pron})
      in if boundary \<and> subject then [act Right (dl_parataxis labels)]
         else case find (\<lambda>m. pos ! m = Sconj) (rev [s + 1..<b]) of
           Some marker \<Rightarrow>
             if any_between marker b (\<lambda>k. pos ! k \<in> {Noun, Propn, Pron}) then
               (if is_subord_complement (flags ! marker) then [act Right (dl_ccomp labels)]
                else if is_subord_adverbial (flags ! marker) then [act Right (dl_advcl labels)]
                else [])
             else []
         | None \<Rightarrow>
             (case find (\<lambda>m. pos ! m = Cconj) (rev [s + 1..<b]) of
                Some marker \<Rightarrow>
                  let has_subject = any_between marker b (\<lambda>k. pos ! k \<in> {Noun, Propn, Pron});
                      shared_subject = (\<not> has_subject \<and>
                        list_ex (\<lambda>c. st_labels st ! c = dl_nsubj labels) (st_left_children st ! s))
                  in if has_subject \<or> shared_subject then [act Right (dl_conj labels)] else []
              | None \<Rightarrow>
                  if any_between s b (\<lambda>k. is_comma ortho (texts ! k)) \<and>
                     \<not> any_between s b (\<lambda>k. pos ! k \<in> {Noun, Propn, Pron}) then [act Right (dl_conj labels)]
                  else if st_labels st ! s = dl_root labels \<and>
                     all_between s b (\<lambda>k. pos ! k \<noteq> Punct \<and> pos ! k \<noteq> Sconj \<and> pos ! k \<noteq> Cconj)
                  then [act Right (dl_ccomp labels)]
                  else [act Right (dl_dep labels)]))"

definition prenominal :: "upos list \<Rightarrow> string list \<Rightarrow> nat \<Rightarrow> nat \<Rightarrow> bool" where
  "prenominal pos texts s b \<longleftrightarrow>
     b + 1 < length texts \<and> pos ! (b + 1) \<in> {Noun, Propn, Pron} \<and> list_all (\<lambda>k. pos ! k \<noteq> Punct) [s + 1..<b + 2]"

definition right_arms ::
    "arc_eager_state \<Rightarrow> upos list \<Rightarrow> string list \<Rightarrow> lexeme_flags list \<Rightarrow> dep_labels \<Rightarrow> tagger_ortho \<Rightarrow> nat \<Rightarrow> nat
     \<Rightarrow> arc_eager_action list" where
  "right_arms st pos texts flags labels ortho s b =
     (let ps = pos ! s; pb = pos ! b; word = texts ! b
      in if ps = Verb \<and> pb \<in> {Noun, Propn, Pron} then
           (if all_between s b (\<lambda>k. pos ! k \<noteq> Punct) then
              [if is_today_word (flags ! b) then act Right (dl_advmod labels) else act Right (dl_dobj labels),
               act Right (dl_nsubj labels)] @
              (if pb = Pron \<and> b + 2 < length texts \<and> pos ! (b + 1) = Det \<and> pos ! (b + 2) \<in> {Noun, Propn}
               then [act Right (dl_iobj labels)] else [])
            else [])
         else if ps = Aux \<and> pb \<in> {Noun, Propn} then
           let clause_start = (case find (\<lambda>k. pos ! k = Punct) (rev [0..<s]) of None \<Rightarrow> 0 | Some k \<Rightarrow> k + 1)
           in (if (case lget flags clause_start of Some f \<Rightarrow> is_where_word f | None \<Rightarrow> False) \<and>
                  is_be_form (flags ! s) \<and> all_between s b (\<lambda>k. pos ! k \<noteq> Punct)
               then [act Right (dl_dobj labels)] else [])
         else if ps = Verb \<and> pb = Verb then right_verb_verb st pos texts flags labels ortho s b
         else if ps \<in> {Noun, Propn} \<and> pb \<in> {Noun, Propn} then
           (if any_between s b (\<lambda>k. pos ! k = Punct) then [act Right (dl_appos labels)] else []) @
           (if (s = 0 \<or> \<not> is_comma ortho (texts ! (s - 1))) \<and> any_between s b (\<lambda>k. pos ! k = Cconj)
            then [act Right (dl_conj labels)] else [])
         else if ps \<in> {Noun, Propn} \<and> pb = Verb then
           (if any_between s b (\<lambda>m. m > 0 \<and> is_relative_marker (flags ! m) \<and> pos ! (m - 1) \<in> {Noun, Propn})
            then [act Right (dl_relcl labels)] else []) @
           (if b > 0 \<and> is_comma ortho (texts ! (b - 1)) \<and> length word > 4 \<and> is_part_ing ortho word
            then [act Right (dl_amod labels)] else [])
         else if ps \<in> {Noun, Propn} \<and> pb = Num then
           (if \<not> prenominal pos texts s b then [act Right (dl_nummod labels)] else [])
         else if ps = Verb \<and> pb = Adv then [act Right (dl_advmod labels)]
         else if ps = Adj \<and> pb = Adv then [act Right (dl_advmod labels)]
         else if ps = Verb \<and> pb = Adj then [act Right (dl_acomp labels)]
         else if ps = Verb \<and> pb = Aux then [act Right (dl_aux labels)]
         else if ps \<in> {Verb, Noun, Adj} \<and> pb = Adp then [act Right (dl_prep labels)]
         else if ps = Adp \<and> pb \<in> {Noun, Propn, Pron} then [act Right (dl_pobj labels)]
         else [])"


text \<open>When the stack top may be popped.\<close>

definition reduce_viable ::
    "arc_eager_state \<Rightarrow> upos list \<Rightarrow> string list \<Rightarrow> lexeme_flags list \<Rightarrow> dep_labels \<Rightarrow> nat \<Rightarrow> nat \<Rightarrow> bool" where
  "reduce_viable st pos texts flags labels s b \<longleftrightarrow>
     (let ps = pos ! s; pb = pos ! b
      in (st_right_children st ! s = [] \<or>
          st_heads st ! s \<noteq> -1 \<and> st_labels st ! s \<noteq> dl_root labels \<and>
          list_all (\<lambda>c. pos ! c = Punct) (st_right_children st ! s)) \<and>
         ps \<noteq> Adp \<and>
         pb \<notin> {Aux, Part} \<and>
         \<not> (st_heads st ! s = -1 \<and> ps = Verb \<and> pb = Det \<and> \<not> is_verb_word (flags ! s)) \<and>
         \<not> (ps = Sconj \<and> pb \<in> {Pron, Noun, Propn, Det}) \<and>
         \<not> sconj_verbless_tie pos texts s b \<and>
         \<not> (ps = Noun \<and> pb = Det) \<and>
         \<not> (ps \<in> {Noun, Propn} \<and> b > 0 \<and> is_relative_marker (flags ! b) \<and> pos ! (b - 1) \<in> {Noun, Propn}) \<and>
         \<not> (ps \<in> {Noun, Propn} \<and> pb = Pron \<and> b \<ge> 2 \<and> is_relative_marker (flags ! (b - 1)) \<and>
            pos ! (b - 2) \<in> {Noun, Propn}) \<and>
         \<not> (ps = Aux \<and> pb \<in> {Pron, Noun, Propn, Det}) \<and>
         \<not> (ps = Pron \<and> pb = Pron \<and> b \<ge> 2 \<and> is_relative_marker (flags ! (b - 1)) \<and> pos ! (b - 2) \<in> {Noun, Propn}) \<and>
         \<not> (ps = Verb \<and> pb = Sconj) \<and>
         \<not> (ps \<in> {Noun, Propn} \<and> pb = Cconj \<and> st_left_children st ! s = [] \<and> st_right_children st ! s = []) \<and>
         \<not> (ps = Verb \<and> pb = Cconj \<and> any_before_punct pos [b + 1..<length texts] (\<lambda>k. pos ! k = Verb)) \<and>
         \<not> clausal_cc_defer st pos texts labels s b \<and>
         \<not> (ps = Verb \<and> pb = Det \<and> is_possessive_determiner (flags ! b)) \<and>
         \<not> fallback_root_tie st pos labels s \<and>
         \<not> (ps \<in> {Noun, Propn} \<and> pb = Num \<and> b + 1 < length texts \<and> pos ! (b + 1) \<in> {Noun, Propn, Pron} \<and>
            list_all (\<lambda>k. pos ! k \<noteq> Punct) [s + 1..<b + 2]))"

definition candidate_actions ::
    "arc_eager_state \<Rightarrow> upos list \<Rightarrow> string list \<Rightarrow> lexeme_flags list \<Rightarrow> dep_labels \<Rightarrow> tagger_ortho \<Rightarrow> arc_eager_action list" where
  "candidate_actions st pos texts flags labels ortho =
     (case buffer_head st of
        None \<Rightarrow> if st_stack st \<noteq> [] then [act Reduce 0] else []
      | Some b \<Rightarrow>
          [act Shift 0] @
          (if pos ! b = Punct then
             (if stack_top st \<noteq> None then [act Right (dl_punct labels)] else []) @ [act Break 0]
           else case stack_top st of
             None \<Rightarrow> []
           | Some s \<Rightarrow>
               let s_free = (st_heads st ! s = -1 \<and> st_labels st ! s \<noteq> dl_root labels);
                   b_free = (st_heads st ! b = -1 \<and> st_labels st ! b \<noteq> dl_root labels)
               in (if s_free then
                     (case left_nominal_arms st pos texts flags labels ortho s b of
                        Some arms \<Rightarrow> arms
                      | None \<Rightarrow> left_function_arms st pos texts flags labels ortho s b)
                   else []) @
                  (if b_free then
                     (if fallback_root_tie st pos labels s then [act Right (dl_dep labels)] else []) @
                     right_arms st pos texts flags labels ortho s b
                   else []) @
                  (if reduce_viable st pos texts flags labels s b then [act Reduce 0] else [])))"


section \<open>The oracle\<close>

definition score_left :: "arc_eager_state \<Rightarrow> 64 word \<Rightarrow> upos list \<Rightarrow> dep_labels \<Rightarrow> nat \<Rightarrow> nat \<Rightarrow> int" where
  "score_left st l pos labels s b =
     (let ps = pos ! s; pb = pos ! b
      in if l = dl_nsubj labels \<and> pb = Verb then (if ps \<in> {Noun, Propn, Pron} then 100 else 10)
         else if l = dl_nsubj labels \<and> pb = Adj then (if ps \<in> {Noun, Propn, Pron} then 100 else 10)
         else if l = dl_obj labels \<and> pb = Verb then (if ps = Pron then 105 else 10)
         else if l = dl_det labels \<and> pb \<in> {Noun, Propn} then (if ps = Det then 90 else 5)
         else if l = dl_compound labels then (if ps \<in> {Noun, Propn} \<and> pb \<in> {Noun, Propn} then 60 else 5)
         else if l = dl_amod labels then (if ps = Adj \<and> pb \<in> {Noun, Propn} then 85 else 5)
         else if l = dl_aux labels then (if ps = Aux \<and> pb = Verb then 90 else 5)
         else if l = dl_advmod labels then (if ps = Adv \<and> pb = Verb then 80 else 5)
         else if l = dl_cc labels then (if ps = Cconj then 55 else 5)
         else if l = dl_neg labels then (if ps = Part \<and> pb \<in> {Verb, Adj} then 95 else 5)
         else if l = dl_mark labels then (if ps = Sconj \<and> pb = Verb then 95 else 5)
         else if l = dl_cop labels then
           (if ps = Aux \<and> (pb = Adj \<or> pb \<in> {Noun, Propn} \<and> copula_is_attached st b (dl_cop labels)) then 95 else 5)
         else if l = dl_nsubj labels \<and> pb \<in> {Noun, Propn} \<and> ps \<in> {Noun, Propn, Pron, Det} \<and>
           copula_is_attached st b (dl_cop labels) then 100
         else if l = dl_expl labels \<and> ps \<in> {Noun, Propn, Pron} \<and> pb \<in> {Noun, Propn} \<and>
           copula_is_attached st b (dl_cop labels) then 95
         else if l = dl_parataxis labels \<and> ps = Verb \<and> pb = Adj then 90
         else if l = dl_nummod labels then (if ps = Num \<and> pb \<in> {Noun, Propn} then 90 else 5)
         else if l = dl_dep labels then (if ps = Aux \<and> pb = Adj then 95 else 1)
         else 1)"

definition score_right :: "64 word \<Rightarrow> upos list \<Rightarrow> dep_labels \<Rightarrow> nat \<Rightarrow> nat \<Rightarrow> int" where
  "score_right l pos labels s b =
     (let ps = pos ! s; pb = pos ! b
      in if l = dl_dobj labels \<and> ps = Verb then (if pb \<in> {Noun, Propn, Pron} then 100 else 10)
         else if l = dl_dobj labels \<and> ps = Aux then (if pb \<in> {Noun, Propn} then 90 else 10)
         else if l = dl_iobj labels \<and> ps = Verb then (if pb = Pron then 105 else 10)
         else if l = dl_nummod labels then (if ps \<in> {Noun, Propn} \<and> pb = Num then 90 else 5)
         else if l = dl_nsubj labels \<and> ps = Verb then (if pb \<in> {Noun, Propn, Pron} then 60 else 10)
         else if l = dl_prep labels then (if pb = Adp \<and> ps \<in> {Verb, Noun, Adj} then 95 else 5)
         else if l = dl_pobj labels then (if ps = Adp \<and> pb \<in> {Noun, Propn, Pron} then 95 else 5)
         else if l = dl_punct labels then 98
         else if l = dl_advmod labels then
           (if ps = Verb \<and> pb = Adv then 75
            else if ps = Verb \<and> pb \<in> {Noun, Propn} then 75
            else if ps = Adj \<and> pb = Adv then 75
            else 5)
         else if l = dl_acomp labels then (if ps = Verb \<and> pb = Adj then 80 else 5)
         else if l = dl_amod labels \<and> ps \<in> {Noun, Propn} \<and> pb = Verb then 85
         else if l = dl_parataxis labels then (if ps = Verb \<and> pb = Verb then 90 else 5)
         else if l = dl_ccomp labels then (if ps = Verb \<and> pb = Verb then 90 else 5)
         else if l = dl_advcl labels then (if ps = Verb \<and> pb = Verb then 90 else 5)
         else if l = dl_appos labels then (if ps \<in> {Noun, Propn} \<and> pb \<in> {Noun, Propn} then 60 else 5)
         else if l = dl_conj labels then
           (if ps \<in> {Noun, Propn} \<and> pb \<in> {Noun, Propn} then 60
            else if ps = Verb \<and> pb = Verb then 60
            else 5)
         else if l = dl_relcl labels then (if ps \<in> {Noun, Propn} \<and> pb = Verb then 105 else 5)
         else if l = dl_aux labels then (if ps = Verb \<and> pb = Aux then 85 else 5)
         else 1)"

definition oracle_score :: "arc_eager_state \<Rightarrow> arc_eager_action \<Rightarrow> upos list \<Rightarrow> dep_labels \<Rightarrow> int" where
  "oracle_score st action pos labels =
     (case aa_move action of
        Shift \<Rightarrow> 1
      | Reduce \<Rightarrow> 2
      | Break \<Rightarrow> 5
      | Left \<Rightarrow>
          (case (stack_top st, buffer_head st) of
             (Some s, Some b) \<Rightarrow> score_left st (aa_label action) pos labels s b
           | _ \<Rightarrow> -1000)
      | Right \<Rightarrow>
          (case (stack_top st, buffer_head st) of
             (Some s, Some b) \<Rightarrow> score_right (aa_label action) pos labels s b
           | _ \<Rightarrow> -1000))"

text \<open>The sort by descending score is stable, so the first of the best candidates wins.\<close>

definition best_with_margin ::
    "arc_eager_state \<Rightarrow> arc_eager_action list \<Rightarrow> upos list \<Rightarrow> dep_labels \<Rightarrow> (arc_eager_action \<times> int) option" where
  "best_with_margin st actions pos labels =
     (if actions = [] then None
      else let scored = sort_key (\<lambda>p. - snd p) (map (\<lambda>a. (a, oracle_score st a pos labels)) actions);
               best = scored ! 0
           in if length scored = 1 then Some (fst best, 1)
              else Some (fst best, snd best - snd (scored ! 1)))"

section \<open>Facts about the oracle\<close>

lemma sort_key_first:
  "xs \<noteq> [] \<Longrightarrow> sort_key f xs ! 0 \<in> set xs \<and> (\<forall>x \<in> set xs. f (sort_key f xs ! 0) \<le> f x)"
proof -
  assume ne: "xs \<noteq> []"
  then have ne': "sort_key f xs \<noteq> []" by (metis length_0_conv length_sort)
  have "sorted (map f (sort_key f xs))" by simp
  then have "\<forall>x \<in> set (sort_key f xs). f (hd (sort_key f xs)) \<le> f x"
    using ne' by (cases "sort_key f xs") auto
  with ne' show ?thesis by (metis hd_conv_nth hd_in_set set_sort)
qed

text \<open>The stable choice: every candidate before the winner scores strictly less.\<close>

lemma sort_key_stable_head:
  fixes f :: "'a \<Rightarrow> int"
  assumes "xs \<noteq> []"
  shows "sort_key f xs ! 0 = hd (filter (\<lambda>x. f x = f (sort_key f xs ! 0)) xs)"
proof -
  let ?m = "f (sort_key f xs ! 0)"
  have ne: "sort_key f xs \<noteq> []" using assms by (metis length_0_conv length_sort)
  have "filter (\<lambda>x. f x = ?m) xs = filter (\<lambda>x. f x = ?m) (sort_key f xs)" by (simp add: sort_key_stable)
  moreover have "hd (filter (\<lambda>x. f x = ?m) (sort_key f xs)) = sort_key f xs ! 0"
    using ne by (cases "sort_key f xs") auto
  ultimately show ?thesis by simp
qed


section \<open>What is offered\<close>

text \<open>The labels of arcs: all but the root label.\<close>

definition arc_labels :: "dep_labels \<Rightarrow> 64 word set" where
  "arc_labels labels =
     {dl_nsubj labels, dl_dobj labels, dl_iobj labels, dl_prep labels, dl_pobj labels, dl_compound labels, dl_det labels,
      dl_aux labels, dl_punct labels, dl_amod labels, dl_advmod labels, dl_cc labels, dl_dep labels, dl_neg labels,
      dl_mark labels, dl_cop labels, dl_appos labels, dl_parataxis labels, dl_acomp labels, dl_relcl labels,
      dl_obj labels, dl_ccomp labels, dl_advcl labels, dl_conj labels, dl_nummod labels, dl_expl labels}"

definition is_arc :: "dep_labels \<Rightarrow> arc_eager_move \<Rightarrow> arc_eager_action \<Rightarrow> bool" where
  "is_arc labels m a \<longleftrightarrow> aa_move a = m \<and> aa_label a \<in> arc_labels labels"

lemma is_arc_act: "is_arc labels m (act m' l) \<longleftrightarrow> m' = m \<and> l \<in> arc_labels labels"
  by (simp add: is_arc_def act_def)

lemma list_all_if: "list_all P (if c then xs else ys) \<longleftrightarrow> (c \<longrightarrow> list_all P xs) \<and> (\<not> c \<longrightarrow> list_all P ys)"
  by simp

lemma arc_labels_mem:
  "dl_nsubj labels \<in> arc_labels labels" "dl_dobj labels \<in> arc_labels labels" "dl_iobj labels \<in> arc_labels labels"
  "dl_prep labels \<in> arc_labels labels" "dl_pobj labels \<in> arc_labels labels" "dl_compound labels \<in> arc_labels labels"
  "dl_det labels \<in> arc_labels labels" "dl_aux labels \<in> arc_labels labels" "dl_punct labels \<in> arc_labels labels"
  "dl_amod labels \<in> arc_labels labels" "dl_advmod labels \<in> arc_labels labels" "dl_cc labels \<in> arc_labels labels"
  "dl_dep labels \<in> arc_labels labels" "dl_neg labels \<in> arc_labels labels" "dl_mark labels \<in> arc_labels labels"
  "dl_cop labels \<in> arc_labels labels" "dl_appos labels \<in> arc_labels labels" "dl_parataxis labels \<in> arc_labels labels"
  "dl_acomp labels \<in> arc_labels labels" "dl_relcl labels \<in> arc_labels labels" "dl_obj labels \<in> arc_labels labels"
  "dl_ccomp labels \<in> arc_labels labels" "dl_advcl labels \<in> arc_labels labels" "dl_conj labels \<in> arc_labels labels"
  "dl_nummod labels \<in> arc_labels labels" "dl_expl labels \<in> arc_labels labels"
  by (simp_all add: arc_labels_def)

lemmas arm_simps = is_arc_act arc_labels_mem list_all_if Let_def

lemma left_nominal_arms_arcs:
  "left_nominal_arms st pos texts flags labels ortho s b = Some arms \<Longrightarrow> list_all (is_arc labels Left) arms"
  unfolding left_nominal_arms_def by (auto simp: arm_simps split: if_splits)

lemma left_function_arms_arcs: "list_all (is_arc labels Left) (left_function_arms st pos texts flags labels ortho s b)"
  unfolding left_function_arms_def Let_def by (simp add: arm_simps)

lemma right_verb_verb_arcs: "list_all (is_arc labels Right) (right_verb_verb st pos texts flags labels ortho s b)"
  unfolding right_verb_verb_def Let_def by (simp add: arm_simps split: option.splits)

lemma right_arms_arcs: "list_all (is_arc labels Right) (right_arms st pos texts flags labels ortho s b)"
  unfolding right_arms_def Let_def by (simp add: arm_simps right_verb_verb_arcs split: option.splits)

text \<open>Every candidate can be applied: the parts it moves are there, and arcs only reattach free tokens.\<close>

definition viable :: "upos list \<Rightarrow> dep_labels \<Rightarrow> arc_eager_state \<Rightarrow> arc_eager_action \<Rightarrow> bool" where
  "viable pos labels st a \<longleftrightarrow>
     (case aa_move a of
        Shift \<Rightarrow> st_buffer st \<noteq> []
      | Reduce \<Rightarrow> st_stack st \<noteq> []
      | Break \<Rightarrow> st_buffer st \<noteq> []
      | Left \<Rightarrow> st_buffer st \<noteq> [] \<and> st_stack st \<noteq> [] \<and> aa_label a \<in> arc_labels labels \<and>
          st_heads st ! last (st_stack st) = -1 \<and> st_labels st ! last (st_stack st) \<noteq> dl_root labels
      | Right \<Rightarrow> st_buffer st \<noteq> [] \<and> st_stack st \<noteq> [] \<and> aa_label a \<in> arc_labels labels \<and>
          (pos ! hd (st_buffer st) = Punct \<or> st_labels st ! hd (st_buffer st) \<noteq> dl_root labels))"

lemma buffer_head_Some: "buffer_head st = Some b \<longleftrightarrow> st_buffer st \<noteq> [] \<and> b = hd (st_buffer st)"
  by (auto simp: buffer_head_def split: list.splits)

lemma buffer_head_None: "buffer_head st = None \<longleftrightarrow> st_buffer st = []"
  by (auto simp: buffer_head_def split: list.splits)

lemma stack_top_Some: "stack_top st = Some s \<longleftrightarrow> st_stack st \<noteq> [] \<and> s = last (st_stack st)"
  by (auto simp: stack_top_def)

lemma stack_top_None: "stack_top st = None \<longleftrightarrow> st_stack st = []"
  by (simp add: stack_top_def)

lemma candidate_actions_viable:
  assumes "a \<in> set (candidate_actions st pos texts flags labels ortho)"
  shows "viable pos labels st a"
proof (cases "buffer_head st")
  case None
  with assms show ?thesis by (auto simp: candidate_actions_def viable_def act_def split: if_splits)
next
  case (Some b)
  then have b: "st_buffer st \<noteq> []" "b = hd (st_buffer st)" by (auto simp: buffer_head_Some)
  show ?thesis
  proof (cases "pos ! b = Punct \<or> stack_top st = None")
    case True
    with assms Some b show ?thesis
      by (auto simp: candidate_actions_def viable_def act_def stack_top_Some arc_labels_mem split: if_splits)
  next
    case False
    then obtain s where s: "stack_top st = Some s" "st_stack st \<noteq> []" "s = last (st_stack st)" "pos ! b \<noteq> Punct"
      by (auto simp: stack_top_Some)
    have left: "is_arc labels Left a"
      if "a \<in> set (case left_nominal_arms st pos texts flags labels ortho s b of
            Some arms \<Rightarrow> arms | None \<Rightarrow> left_function_arms st pos texts flags labels ortho s b)"
      using that left_nominal_arms_arcs left_function_arms_arcs
      by (auto simp: list_all_iff split: option.splits)
    have right: "is_arc labels Right a" if "a \<in> set (right_arms st pos texts flags labels ortho s b)"
      using that right_arms_arcs by (auto simp: list_all_iff)
    show ?thesis
      using assms left right b s unfolding candidate_actions_def Some
      by (auto simp: Let_def viable_def is_arc_def act_def arc_labels_mem split: if_splits)
  qed
qed

end
