(* ===== verification/Sentencizer.thy ===== *)
theory Sentencizer
  imports Attrs
begin

text \<open>
  The rule-based sentence splitter of \<open>src/src/spacy-rs/src/sentencizer.rs\<close>. A token is its text and its
  flags; a character is the byte string that encodes it.
\<close>

datatype sent_start = Unset | Start | NotStart

record sentencizer =
  sz_punct_chars :: "string set"
  sz_overwrite :: bool

definition sentencizer_with_punct_chars :: "string set \<Rightarrow> sentencizer" where
  "sentencizer_with_punct_chars chars = \<lparr>sz_punct_chars = chars, sz_overwrite = False\<rparr>"

definition sentencizer_set_overwrite :: "sentencizer \<Rightarrow> bool \<Rightarrow> sentencizer" where
  "sentencizer_set_overwrite sz ov = sz\<lparr>sz_overwrite := ov\<rparr>"

text \<open>The number of characters of a text is its number of bytes that do not continue a character.\<close>

definition chars_count :: "string \<Rightarrow> nat" where
  "chars_count s = length (filter (\<lambda>c. \<not> (128 \<le> (of_char c :: nat) \<and> (of_char c :: nat) < 192)) s)"

definition is_in_punct_chars :: "sentencizer \<Rightarrow> string \<Rightarrow> bool" where
  "is_in_punct_chars sz text \<longleftrightarrow>
     (if length text = 1 then text \<in> sz_punct_chars sz else chars_count text = 1 \<and> text \<in> sz_punct_chars sz)"

type_synonym splitter_state = "bool list \<times> nat \<times> bool"

definition predict_step ::
    "sentencizer \<Rightarrow> (string \<times> lexeme_flags) list \<Rightarrow> splitter_state \<Rightarrow> nat \<Rightarrow> splitter_state" where
  "predict_step sz doc state i =
     (case state of (guesses, start, seen_period) \<Rightarrow>
        let in_chars = is_in_punct_chars sz (fst (doc ! i));
            punct = is_punct (snd (doc ! i))
        in if seen_period \<and> \<not> punct \<and> \<not> in_chars then (guesses[start := True], i, False)
           else if in_chars then (guesses, start, True)
           else (guesses, start, seen_period))"

definition predict :: "sentencizer \<Rightarrow> (string \<times> lexeme_flags) list \<Rightarrow> bool list" where
  "predict sz doc =
     (let guesses = replicate (length doc) False
      in if doc = [] then guesses
         else case foldl (predict_step sz doc) (guesses[0 := True], 0, False) [0..<length doc] of
                (guesses, start, _) \<Rightarrow> if start < length doc then guesses[start := True] else guesses)"

definition set_annotations :: "sentencizer \<Rightarrow> sent_start list \<Rightarrow> bool list \<Rightarrow> sent_start list" where
  "set_annotations sz tokens guesses =
     foldl (\<lambda>ts (i, guess).
         if ts ! i = Unset \<or> sz_overwrite sz then ts[i := (if guess then Start else NotStart)] else ts)
       tokens (enumerate 0 guesses)"

definition process :: "sentencizer \<Rightarrow> (string \<times> lexeme_flags) list \<Rightarrow> sent_start list \<Rightarrow> sent_start list" where
  "process sz doc tokens = set_annotations sz tokens (predict sz doc)"

section \<open>Where sentences start\<close>

text \<open>Words are the tokens that are neither punctuation nor sentence-ending characters.\<close>

definition is_word :: "sentencizer \<Rightarrow> (string \<times> lexeme_flags) list \<Rightarrow> nat \<Rightarrow> bool" where
  "is_word sz doc i \<longleftrightarrow> \<not> is_punct (snd (doc ! i)) \<and> \<not> is_in_punct_chars sz (fst (doc ! i))"

text \<open>A sentence-ending character stands before the position with no word in between.\<close>

definition period_before :: "sentencizer \<Rightarrow> (string \<times> lexeme_flags) list \<Rightarrow> nat \<Rightarrow> bool" where
  "period_before sz doc i \<longleftrightarrow>
     (\<exists>j < i. is_in_punct_chars sz (fst (doc ! j)) \<and> (\<forall>k. j < k \<and> k < i \<longrightarrow> \<not> is_word sz doc k))"

definition sentence_starts :: "sentencizer \<Rightarrow> (string \<times> lexeme_flags) list \<Rightarrow> nat \<Rightarrow> bool" where
  "sentence_starts sz doc i \<longleftrightarrow> i = 0 \<or> is_word sz doc i \<and> period_before sz doc i"

lemma period_before_Suc:
  "period_before sz doc (Suc i) \<longleftrightarrow>
     is_in_punct_chars sz (fst (doc ! i)) \<or> \<not> is_word sz doc i \<and> period_before sz doc i"
  (is "?L \<longleftrightarrow> ?R")
proof
  assume ?L
  then obtain j where j: "j < Suc i" "is_in_punct_chars sz (fst (doc ! j))" "\<forall>k. j < k \<and> k < Suc i \<longrightarrow> \<not> is_word sz doc k"
    by (auto simp: period_before_def)
  then show ?R by (cases "j = i") (auto simp: period_before_def less_Suc_eq)
next
  assume R: ?R
  show ?L
  proof (cases "is_in_punct_chars sz (fst (doc ! i))")
    case False
    with R obtain j where "j < i" "is_in_punct_chars sz (fst (doc ! j))" "\<forall>k. j < k \<and> k < i \<longrightarrow> \<not> is_word sz doc k"
      by (auto simp: period_before_def)
    with R False show ?thesis unfolding period_before_def by (intro exI [of _ j]) (auto simp: less_Suc_eq)
  qed (auto simp: period_before_def intro!: exI [of _ i])
qed

definition splitter_inv :: "sentencizer \<Rightarrow> (string \<times> lexeme_flags) list \<Rightarrow> nat \<Rightarrow> splitter_state \<Rightarrow> bool" where
  "splitter_inv sz doc k st \<longleftrightarrow>
     (case st of (guesses, start, seen) \<Rightarrow>
        length guesses = length doc \<and> start \<le> k \<and> start < length doc \<and>
        sentence_starts sz doc start \<and> (\<forall>i < k. sentence_starts sz doc i \<longrightarrow> i \<le> start) \<and>
        (\<forall>i < length doc. i \<noteq> start \<longrightarrow> guesses ! i = (i < start \<and> sentence_starts sz doc i)) \<and>
        seen = period_before sz doc k)"

lemma predict_step_inv:
  assumes "splitter_inv sz doc k st" and "k < length doc"
  shows "splitter_inv sz doc (Suc k) (predict_step sz doc st k)"
proof -
  obtain guesses start seen where st: "st = (guesses, start, seen)" by (cases st)
  have inv: "length guesses = length doc" "start \<le> k" "start < length doc" "sentence_starts sz doc start"
      "\<forall>i < k. sentence_starts sz doc i \<longrightarrow> i \<le> start"
      "\<forall>i < length doc. i \<noteq> start \<longrightarrow> guesses ! i = (i < start \<and> sentence_starts sz doc i)"
      "seen = period_before sz doc k"
    using assms(1) by (auto simp: splitter_inv_def st)
  show ?thesis
  proof (cases "seen \<and> is_word sz doc k")
    case True
    then have start_k: "sentence_starts sz doc k" using inv(7) by (auto simp: sentence_starts_def)
    have "k \<noteq> 0" using True inv(7) by (auto simp: period_before_def)
    have new: "predict_step sz doc st k = (guesses[start := True], k, False)"
      using True by (auto simp: predict_step_def st Let_def is_word_def)
    have "\<not> period_before sz doc (Suc k)" using True by (auto simp: period_before_Suc is_word_def)
    moreover have "guesses[start := True] ! i = (i < k \<and> sentence_starts sz doc i)" if "i < length doc" "i \<noteq> k" for i
      using that inv(1-6) by (auto simp: nth_list_update dest: le_neq_implies_less)
    ultimately show ?thesis
      using inv assms(2) start_k unfolding splitter_inv_def new by (auto simp: less_Suc_eq)
  next
    case False
    have new: "predict_step sz doc st k = (guesses, start, period_before sz doc (Suc k))"
      using False by (auto simp: predict_step_def st Let_def is_word_def period_before_Suc inv(7))
    have "i \<le> start" if "i < Suc k" "sentence_starts sz doc i" for i
      using that False inv(2,5,7) by (cases "i = k") (auto simp: sentence_starts_def less_Suc_eq)
    then show ?thesis using inv unfolding splitter_inv_def new by auto
  qed
qed

lemma predict_fold_inv:
  assumes "doc \<noteq> []" and "k \<le> length doc"
  shows "splitter_inv sz doc k (foldl (predict_step sz doc) ((replicate (length doc) False)[0 := True], 0, False) [0..<k])"
  using assms(2)
proof (induction k)
  case 0
  then show ?case using assms(1) by (auto simp: splitter_inv_def sentence_starts_def period_before_def)
next
  case (Suc k)
  then show ?case using predict_step_inv [of sz doc k] by simp
qed

lemma predict_spec:
  "length (predict sz doc) = length doc \<and> (\<forall>i < length doc. predict sz doc ! i = sentence_starts sz doc i)"
proof (cases "doc = []")
  case False
  obtain guesses start seen where st:
    "foldl (predict_step sz doc) ((replicate (length doc) False)[0 := True], 0, False) [0..<length doc] = (guesses, start, seen)"
    by (meson prod_cases3)
  have inv: "splitter_inv sz doc (length doc) (guesses, start, seen)"
    using predict_fold_inv [OF False order_refl] st by metis
  then have "predict sz doc = guesses[start := True]" using False by (auto simp: predict_def st splitter_inv_def Let_def)
  moreover have "guesses[start := True] ! i = sentence_starts sz doc i" if "i < length doc" for i
    using inv that by (cases "i = start") (auto simp: splitter_inv_def nat_less_le)
  moreover have "length guesses = length doc" using inv by (simp add: splitter_inv_def)
  ultimately show ?thesis by simp
qed (simp add: predict_def Let_def)


definition annotate_start :: "sentencizer \<Rightarrow> sent_start \<Rightarrow> bool \<Rightarrow> sent_start" where
  "annotate_start sz t guess = (if t = Unset \<or> sz_overwrite sz then (if guess then Start else NotStart) else t)"

lemma set_annotations_map2:
  assumes "length tokens = length guesses"
  shows "set_annotations sz tokens guesses = map2 (annotate_start sz) tokens guesses"
proof -
  let ?f = "\<lambda>ts (i, guess). if ts ! i = Unset \<or> sz_overwrite sz then ts[i := (if guess then Start else NotStart)] else ts"
  have "foldl ?f (pre @ tokens) (enumerate (length pre) guesses) = pre @ map2 (annotate_start sz) tokens guesses" for pre
    using assms
  proof (induction tokens guesses arbitrary: pre rule: list_induct2)
    case (Cons t tokens g guesses)
    have "?f (pre @ t # tokens) (length pre, g) = (pre @ [annotate_start sz t g]) @ tokens"
      by (simp add: annotate_start_def)
    with Cons.IH [of "pre @ [annotate_start sz t g]"] show ?case by (simp add: length_append_singleton)
  qed simp
  from this [of "[]"] show ?thesis by (simp add: set_annotations_def)
qed

text \<open>
  C27. The splitter marks exactly the first token and every word that follows a sentence-ending character with only
  punctuation in between, and it leaves a token that is already annotated alone unless overwriting is on.
\<close>

theorem sentencizer_exact:
  assumes "length tokens = length doc" and "i < length doc"
  shows "process sz doc tokens ! i =
    (if tokens ! i = Unset \<or> sz_overwrite sz then (if sentence_starts sz doc i then Start else NotStart) else tokens ! i)"
  using assms predict_spec [of sz doc]
  by (simp add: process_def set_annotations_map2 annotate_start_def)

definition sample_doc :: "(string \<times> lexeme_flags) list" where
  "sample_doc = [(''Go'', 2), (''.'', 32), (''!'', 32), (''Stop'', 2), (''now'', 2)]"

theorem sentencizer_exact_witness:
  "map (\<lambda>i. process (sentencizer_with_punct_chars {''.'', ''!''}) sample_doc (replicate 5 Unset) ! i) [0, 1, 2, 3, 4] =
     [Start, NotStart, NotStart, Start, NotStart]"
proof -
  let ?sz = "sentencizer_with_punct_chars {''.'', ''!''}"
  have starts: "sentence_starts ?sz sample_doc i \<longleftrightarrow> i = 0 \<or> i = 3" if "i < 5" for i
  proof -
    have "period_before ?sz sample_doc 0 = False" "period_before ?sz sample_doc (Suc 0) = False"
      "period_before ?sz sample_doc (Suc (Suc 0)) = True" "period_before ?sz sample_doc (Suc (Suc (Suc 0))) = True"
      "period_before ?sz sample_doc (Suc (Suc (Suc (Suc 0)))) = False"
      by (simp_all add: period_before_Suc is_word_def sample_doc_def is_in_punct_chars_def
          sentencizer_with_punct_chars_def chars_count_def is_punct_def flags_check_def IsPunct_def)
        (simp add: period_before_def)
    moreover from that have "i = 0 \<or> i = Suc 0 \<or> i = Suc (Suc 0) \<or> i = Suc (Suc (Suc 0)) \<or> i = Suc (Suc (Suc (Suc 0)))"
      by arith
    ultimately show ?thesis
      by (auto simp: sentence_starts_def is_word_def sample_doc_def is_in_punct_chars_def
          sentencizer_with_punct_chars_def chars_count_def is_punct_def flags_check_def IsPunct_def)
  qed
  show ?thesis
    using sentencizer_exact [of "replicate 5 Unset" sample_doc _ ?sz] starts by (simp add: sample_doc_def nth_Cons')
qed

end
