(* ===== verification/Forest.thy ===== *)
theory Forest
  imports Prelude
begin

text \<open>
  Head functions: every node below \<open>n\<close> has a head below \<open>n\<close>, a root is its own head. A head function is a
  forest when every node reaches a root; the parser builds such functions and the annotation gate checks
  for them by sorting the edges topologically, so the two views are related here once.
\<close>

definition head_edges :: "nat \<Rightarrow> (nat \<Rightarrow> nat) \<Rightarrow> (nat \<times> nat) set" where
  "head_edges n up = {(up i, i) |i. i < n \<and> up i \<noteq> i}"

definition reaches_root :: "(nat \<Rightarrow> nat) \<Rightarrow> nat \<Rightarrow> bool" where
  "reaches_root up i \<longleftrightarrow> (\<exists>k. up ((up ^^ k) i) = (up ^^ k) i)"

locale head_function =
  fixes n :: nat and up :: "nat \<Rightarrow> nat"
  assumes up_less: "i < n \<Longrightarrow> up i < n"
begin

lemma finite_head_edges: "finite (head_edges n up)"
proof (rule finite_subset)
  show "head_edges n up \<subseteq> {..<n} \<times> {..<n}" using up_less by (auto simp: head_edges_def)
qed simp

lemma reaches_root_up: "reaches_root up (up i) \<Longrightarrow> reaches_root up i"
  by (metis funpow_swap1 reaches_root_def funpow.simps(2) comp_apply)

lemma acyclic_reaches_root:
  assumes "acyclic (head_edges n up)" and "i < n"
  shows "reaches_root up i"
proof -
  have "wf (head_edges n up)" using assms(1) finite_head_edges finite_acyclic_wf by blast
  then show ?thesis using assms(2)
  proof (induction i rule: wf_induct_rule)
    case (less i)
    show ?case
    proof (cases "up i = i")
      case True
      then have "up ((up ^^ 0) i) = (up ^^ 0) i" by simp
      then show ?thesis unfolding reaches_root_def by blast
    next
      case False
      with less.prems have "(up i, i) \<in> head_edges n up" by (auto simp: head_edges_def)
      with less.IH less.prems up_less have "reaches_root up (up i)" by blast
      then show ?thesis by (rule reaches_root_up)
    qed
  qed
qed

definition depth :: "nat \<Rightarrow> nat" where
  "depth i = (LEAST k. up ((up ^^ k) i) = (up ^^ k) i)"

lemma depth_up:
  assumes "reaches_root up i" and "up i \<noteq> i"
  shows "depth (up i) < depth i"
proof -
  have root: "up ((up ^^ depth i) i) = (up ^^ depth i) i"
    using assms(1) unfolding depth_def reaches_root_def by (rule LeastI_ex)
  with assms(2) obtain k where k: "depth i = Suc k" by (cases "depth i") auto
  then have "up ((up ^^ k) (up i)) = (up ^^ k) (up i)" using root by (simp add: funpow_swap1)
  then have "depth (up i) \<le> k" unfolding depth_def by (rule Least_le)
  with k show ?thesis by simp
qed

lemma forest_acyclic:
  assumes "\<And>i. i < n \<Longrightarrow> reaches_root up i"
  shows "acyclic (head_edges n up)"
proof -
  have "head_edges n up \<subseteq> measure depth" using assms depth_up by (auto simp: head_edges_def)
  then have "wf (head_edges n up)" by (rule wf_subset [OF wf_measure])
  then show ?thesis by (rule wf_acyclic)
qed

lemma acyclic_iff_forest: "acyclic (head_edges n up) \<longleftrightarrow> (\<forall>i < n. reaches_root up i)"
  using acyclic_reaches_root forest_acyclic by blast

text \<open>Following heads is the same as following edges backwards.\<close>

lemma funpow_less: "i < n \<Longrightarrow> (up ^^ k) i < n"
  by (induction k) (auto intro: up_less)

lemma funpow_rtrancl: "i < n \<Longrightarrow> ((up ^^ k) i, i) \<in> (head_edges n up)\<^sup>*"
proof (induction k)
  case (Suc k)
  have less: "(up ^^ k) i < n" using Suc.prems by (rule funpow_less)
  show ?case
  proof (cases "up ((up ^^ k) i) = (up ^^ k) i")
    case True
    with Suc show ?thesis by simp
  next
    case False
    with less have "(up ((up ^^ k) i), (up ^^ k) i) \<in> head_edges n up" by (auto simp: head_edges_def)
    with Suc show ?thesis by (simp add: converse_rtrancl_into_rtrancl)
  qed
qed simp

lemma rtrancl_funpow:
  assumes "(j, i) \<in> (head_edges n up)\<^sup>*"
  obtains k where "j = (up ^^ k) i"
proof -
  from assms have "\<exists>k. j = (up ^^ k) i"
  proof (induction rule: converse_rtrancl_induct)
    case base
    show ?case by (rule exI [of _ 0]) simp
  next
    case (step y z)
    then obtain k where "z = (up ^^ k) i" "y = up z" by (auto simp: head_edges_def)
    then show ?case by (intro exI [of _ "Suc k"]) simp
  qed
  with that show thesis by blast
qed

lemma root_reaches:
  assumes "i < n" and "reaches_root up i"
  obtains r where "r < n" and "up r = r" and "(r, i) \<in> (head_edges n up)\<^sup>*"
  using assms funpow_less funpow_rtrancl unfolding reaches_root_def by metis

lemma not_root_below_depth: "k < depth i \<Longrightarrow> up ((up ^^ k) i) \<noteq> (up ^^ k) i"
  unfolding depth_def by (rule not_less_Least)

lemma root_at_depth: "reaches_root up i \<Longrightarrow> up ((up ^^ depth i) i) = (up ^^ depth i) i"
  unfolding depth_def reaches_root_def by (rule LeastI_ex)

lemma funpow_inj_below_depth:
  assumes "reaches_root up i" and "j < k" and "k \<le> depth i"
  shows "(up ^^ j) i \<noteq> (up ^^ k) i"
proof
  assume eq: "(up ^^ j) i = (up ^^ k) i"
  let ?d = "depth i"
  have "(up ^^ (?d - k + j)) i = (up ^^ (?d - k)) ((up ^^ j) i)" by (simp add: funpow_add)
  also have "\<dots> = (up ^^ ?d) i" using assms(3) by (simp add: eq funpow_add [symmetric, THEN fun_cong, simplified])
  finally have "up ((up ^^ (?d - k + j)) i) = (up ^^ (?d - k + j)) i" using root_at_depth [OF assms(1)] by simp
  moreover have "?d - k + j < ?d" using assms(2,3) by linarith
  ultimately show False using not_root_below_depth by blast
qed

lemma depth_less:
  assumes "reaches_root up i" and "i < n"
  shows "depth i < n"
proof -
  have "inj_on (\<lambda>k. (up ^^ k) i) {..depth i}"
    using funpow_inj_below_depth [OF assms(1)] by (intro inj_onI) (metis atMost_iff linorder_neqE_nat)
  then have "card {..depth i} \<le> card {..<n}"
    using funpow_less [OF assms(2)] by (intro card_inj_on_le) auto
  then show ?thesis by simp
qed

lemma trancl_funpow:
  assumes "(h, i) \<in> (head_edges n up)\<^sup>+" and "reaches_root up i"
  shows "\<exists>k. 1 \<le> k \<and> k \<le> depth i \<and> h = (up ^^ k) i"
  using assms(1)
proof (induction rule: converse_trancl_induct)
  case (base y)
  then have "y = up i" "up i \<noteq> i" by (auto simp: head_edges_def)
  moreover have "depth i \<noteq> 0" using root_at_depth [OF assms(2)] \<open>up i \<noteq> i\<close> by (cases "depth i") auto
  ultimately show ?case by (intro exI [of _ 1]) auto
next
  case (step y z)
  then obtain k where k: "1 \<le> k" "k \<le> depth i" "z = (up ^^ k) i" and y: "y = up z" "up z \<noteq> z"
    by (auto simp: head_edges_def)
  have "k \<noteq> depth i" using root_at_depth [OF assms(2)] k(3) y(2) by auto
  with k y show ?case by (intro exI [of _ "Suc k"]) auto
qed

lemma funpow_trancl:
  assumes "i < n" and "1 \<le> k" and "\<And>m. m < k \<Longrightarrow> up ((up ^^ m) i) \<noteq> (up ^^ m) i"
  shows "((up ^^ k) i, i) \<in> (head_edges n up)\<^sup>+"
proof -
  from assms(2) obtain m where m: "k = Suc m" by (cases k) auto
  have "(up ((up ^^ m) i), (up ^^ m) i) \<in> head_edges n up"
    using assms(3) [of m] m funpow_less [OF assms(1)] by (auto simp: head_edges_def)
  with funpow_rtrancl [OF assms(1), of m] show ?thesis by (simp add: m rtrancl_into_trancl2)
qed

end

section \<open>Attaching a root\<close>

definition root_from :: "(nat \<Rightarrow> nat) \<Rightarrow> nat \<Rightarrow> nat \<Rightarrow> bool" where
  "root_from up i r \<longleftrightarrow> up r = r \<and> (\<exists>k. (up ^^ k) i = r)"

lemma reaches_root_from: "reaches_root up i \<longleftrightarrow> (\<exists>r. root_from up i r)"
  by (auto simp: reaches_root_def root_from_def)

lemma root_from_self: "up r = r \<Longrightarrow> root_from up r r"
  by (auto simp: root_from_def intro: exI [of _ 0])

lemma root_from_up: "root_from up (up i) r \<Longrightarrow> root_from up i r"
  unfolding root_from_def by (metis comp_apply funpow.simps(2) funpow_swap1)

lemma funpow_fixed: "up r = r \<Longrightarrow> (up ^^ k) r = r"
  by (induction k) auto

lemma root_from_avoids:
  assumes "root_from up i r" and "up x = x" and "r \<noteq> x"
  shows "root_from (up(x := y)) i r"
proof -
  from assms(1) obtain k where k: "(up ^^ k) i = r" "up r = r" by (auto simp: root_from_def)
  then have "((up(x := y)) ^^ k) i = r"
  proof (induction k arbitrary: i)
    case (Suc k)
    have "i \<noteq> x" using Suc.prems assms(2,3) funpow_fixed [of up x "Suc k"] by auto
    then have other: "(up(x := y)) i = up i" by simp
    have "(up ^^ k) (up i) = r" using Suc.prems(1) by (simp add: funpow_swap1)
    from Suc.IH [OF this Suc.prems(2)] other have "((up(x := y)) ^^ k) ((up(x := y)) i) = r" by (simp only:)
    then show ?case by (simp only: funpow.simps(2) comp_apply funpow_swap1)
  qed simp
  with k(2) assms(3) show ?thesis by (auto simp: root_from_def)
qed

text \<open>Hanging a root below a node that hangs off another root keeps every chain finite.\<close>

lemma reaches_root_attach:
  assumes "reaches_root up i" and x: "up x = x" and y: "root_from up y r" "r \<noteq> x"
  shows "reaches_root (up(x := y)) i"
proof -
  have y': "root_from (up(x := y)) y r" by (rule root_from_avoids [OF y(1) x y(2)])
  obtain z k where z: "(up ^^ k) i = z" "up z = z" using assms(1) by (auto simp: reaches_root_def)
  show ?thesis
  proof (cases "z = x")
    case False
    with z root_from_avoids [of up i z x y] x show ?thesis by (auto simp: reaches_root_from root_from_def)
  next
    case True
    from z(1) have "root_from (up(x := y)) i r"
    proof (induction k arbitrary: i)
      case 0
      then have "root_from (up(x := y)) ((up(x := y)) i) r" using True y' by simp
      then show ?case by (rule root_from_up)
    next
      case (Suc k)
      show ?case
      proof (cases "i = x")
        case True
        then have "root_from (up(x := y)) ((up(x := y)) i) r" using y' by simp
        then show ?thesis by (rule root_from_up)
      next
        case False
        have "(up ^^ k) (up i) = z" using Suc.prems by (simp add: funpow_swap1)
        moreover have "(up(x := y)) i = up i" using False by simp
        ultimately have "root_from (up(x := y)) ((up(x := y)) i) r" using Suc.IH by (simp only:)
        then show ?thesis by (rule root_from_up)
      qed
    qed
    then show ?thesis by (auto simp: reaches_root_from)
  qed
qed

end
