(* ===== verification/Parser.thy ===== *)
theory Parser
  imports ArcEager Sentencizer Forest
begin

text \<open>
  The parse loop of \<open>src/src/spacy-rs/src/arc_eager.rs\<close>: the choice of a sentence's root, the loop that applies
  the oracle's actions until stack and buffer are empty, the repair that attaches what is left to the root, and
  the loop over sentences. The loop is defined with its termination proof: every candidate action shrinks twice the
  buffer plus the stack.
\<close>

section \<open>Sentence ranges\<close>

definition partition_step :: "(nat \<times> nat) list \<times> nat \<Rightarrow> nat \<times> bool \<Rightarrow> (nat \<times> nat) list \<times> nat" where
  "partition_step acc x = (case acc of (out, cur) \<Rightarrow> case x of (i, is_start) \<Rightarrow>
     if is_start \<and> i \<noteq> 0 then (out @ [(cur, i)], i) else (out, cur))"

definition partition_sentences :: "bool list \<Rightarrow> nat \<Rightarrow> (nat \<times> nat) list" where
  "partition_sentences starts len =
     (case foldl partition_step ([], 0) (enumerate 0 starts) of (out, cur) \<Rightarrow>
        let out = (if cur < len then out @ [(cur, len)] else out)
        in if out = [] \<and> len > 0 then [(0, len)] else out)"

section \<open>The root of a sentence\<close>

definition is_comma_framed_participle :: "string list \<Rightarrow> upos list \<Rightarrow> nat \<Rightarrow> tagger_ortho \<Rightarrow> bool" where
  "is_comma_framed_participle texts pos i ortho \<longleftrightarrow>
     (if pos ! i \<noteq> Verb \<or> i = 0 \<or> i + 1 \<ge> length texts then False
      else if \<not> is_comma ortho (texts ! (i - 1)) \<or> \<not> is_comma ortho (texts ! (i + 1)) then False
      else length (texts ! i) > 4 \<and> is_part_ing ortho (texts ! i))"

definition is_subordinate_predicate :: "upos list \<Rightarrow> nat \<Rightarrow> nat \<Rightarrow> nat \<Rightarrow> bool" where
  "is_subordinate_predicate pos s e i \<longleftrightarrow>
     (if pos ! i \<noteq> Verb then False
      else if \<not> list_ex (\<lambda>m. pos ! m = Sconj \<and> list_ex (\<lambda>k. pos ! k \<in> {Noun, Propn, Pron}) [m + 1..<i]) [s..<i] then False
      else list_ex (\<lambda>k. pos ! k = Verb \<or> pos ! k = Adj) [i + 1..<e])"

text \<open>The loop over a candidate span: the last nominal so far, and whether the span is clean.\<close>

fun nominal_span :: "upos list \<Rightarrow> nat list \<Rightarrow> nat option \<Rightarrow> nat option \<times> bool" where
  "nominal_span pos [] idx = (idx, True)"
| "nominal_span pos (k # ks) idx =
     (if pos ! k \<in> {Noun, Propn} then nominal_span pos ks (Some k)
      else if pos ! k \<in> {Punct, Det} then nominal_span pos ks idx
      else (idx, False))"

fun copular_predicate_from :: "upos list \<Rightarrow> lexeme_flags list \<Rightarrow> nat \<Rightarrow> nat list \<Rightarrow> nat option" where
  "copular_predicate_from pos flags e [] = None"
| "copular_predicate_from pos flags e (i # is) =
     (if pos ! i \<noteq> Aux \<or> \<not> is_be_form (flags ! i) then copular_predicate_from pos flags e is
      else if i + 1 \<ge> e \<or> pos ! (i + 1) \<noteq> Det then copular_predicate_from pos flags e is
      else case nominal_span pos [i + 2..<e] None of
             (Some j, True) \<Rightarrow>
               if \<not> list_ex (\<lambda>k. pos ! k = Adj) [j + 1..<e] then Some j
               else copular_predicate_from pos flags e is
           | _ \<Rightarrow> copular_predicate_from pos flags e is)"

definition copular_predicate_nominal :: "upos list \<Rightarrow> lexeme_flags list \<Rightarrow> nat \<Rightarrow> nat \<Rightarrow> nat option" where
  "copular_predicate_nominal pos flags s e = copular_predicate_from pos flags e [s..<e]"

definition compound_head_nominal :: "upos list \<Rightarrow> nat \<Rightarrow> nat \<Rightarrow> nat option" where
  "compound_head_nominal pos s e =
     (let content = filter (\<lambda>i. pos ! i \<noteq> Punct) [s..<e]
      in if length content < 3 then None
         else if \<not> list_all (\<lambda>i. pos ! i \<in> {Noun, Propn, Num}) content then None
         else find (\<lambda>i. pos ! i \<in> {Noun, Propn}) (rev [s..<e]))"

text \<open>The first loop of \<open>pick_root\<close>, with its flag for a pending relative clause.\<close>

fun first_main_verb ::
    "upos list \<Rightarrow> string list \<Rightarrow> lexeme_flags list \<Rightarrow> nat \<Rightarrow> nat \<Rightarrow> tagger_ortho \<Rightarrow> bool \<Rightarrow> nat list \<Rightarrow> nat option" where
  "first_main_verb pos texts flags s e ortho rel_pending [] = None"
| "first_main_verb pos texts flags s e ortho rel_pending (i # is) =
     (if pos ! i = Verb then
        (if \<not> rel_pending \<and> \<not> is_comma_framed_participle texts pos i ortho \<and> \<not> is_subordinate_predicate pos s e i
         then Some i
         else first_main_verb pos texts flags s e ortho False is)
      else if i > 0 \<and> is_relative_marker (flags ! i) \<and> pos ! (i - 1) \<in> {Noun, Propn}
      then first_main_verb pos texts flags s e ortho True is
      else first_main_verb pos texts flags s e ortho rel_pending is)"

text \<open>The first of the options that holds a value.\<close>

fun first_some :: "'a option list \<Rightarrow> 'a option" where
  "first_some [] = None"
| "first_some (Some x # xs) = Some x"
| "first_some (None # xs) = first_some xs"

definition pick_root :: "upos list \<Rightarrow> string list \<Rightarrow> lexeme_flags list \<Rightarrow> nat \<Rightarrow> nat \<Rightarrow> tagger_ortho \<Rightarrow> nat" where
  "pick_root pos texts flags s e ortho =
     (let where_initial = (case lget flags s of Some f \<Rightarrow> is_where_word f | None \<Rightarrow> False)
      in case first_some
           [first_main_verb pos texts flags s e ortho False [s..<e],
            if where_initial \<and> \<not> list_ex (\<lambda>k. pos ! k = Verb \<or> pos ! k = Adj) [s..<e] then
              find (\<lambda>i. pos ! i = Aux \<and> is_be_form (flags ! i) \<and>
                list_ex (\<lambda>k. pos ! k \<in> {Noun, Propn, Pron}) [i + 1..<e]) [s..<e]
            else None,
            if \<not> where_initial then copular_predicate_nominal pos flags s e else None,
            find (\<lambda>i. pos ! i = Adj) [s..<e],
            compound_head_nominal pos s e,
            find (\<lambda>i. pos ! i \<in> {Noun, Propn, Pron}) [s..<e]] of
           Some r \<Rightarrow> r
         | None \<Rightarrow> s)"

section \<open>Progress\<close>

definition parse_size :: "arc_eager_state \<Rightarrow> nat" where
  "parse_size st = 2 * length (st_buffer st) + length (st_stack st)"

lemma apply_viable_size:
  assumes "viable pos labels st a"
  shows "parse_size (apply_action st a) < parse_size st"
proof (cases "aa_move a")
  case Shift
  with assms obtain b bs where "st_buffer st = b # bs" by (cases "st_buffer st") (auto simp: viable_def)
  then show ?thesis by (simp add: apply_action_def Shift parse_size_def buffer_head_def)
next
  case Reduce
  with assms show ?thesis
    by (auto simp: viable_def apply_action_def parse_size_def stack_top_def split: list.splits)
next
  case Left
  with assms obtain b bs where "st_buffer st = b # bs" by (cases "st_buffer st") (auto simp: viable_def)
  with assms Left show ?thesis
    by (auto simp: viable_def apply_action_def parse_size_def stack_top_def buffer_head_def Let_def)
next
  case Right
  with assms obtain b bs where "st_buffer st = b # bs" by (cases "st_buffer st") (auto simp: viable_def)
  with assms Right show ?thesis
    by (auto simp: viable_def apply_action_def parse_size_def stack_top_def buffer_head_def Let_def)
next
  case Break
  with assms obtain b bs where "st_buffer st = b # bs" by (cases "st_buffer st") (auto simp: viable_def)
  then show ?thesis by (simp add: apply_action_def Break parse_size_def buffer_head_def Let_def)
qed

lemma best_with_margin_in:
  assumes "best_with_margin st actions pos labels = Some (best, margin)"
  shows "best \<in> set actions"
proof -
  let ?scored = "map (\<lambda>a. (a, oracle_score st a pos labels)) actions"
  from assms have "actions \<noteq> []" "best = fst (sort_key (\<lambda>p. - snd p) ?scored ! 0)"
    by (auto simp: best_with_margin_def Let_def split: if_splits)
  with sort_key_first [of ?scored "\<lambda>p. - snd p"] show ?thesis by auto
qed

section \<open>The parse loop\<close>

function parse_loop ::
    "upos list \<Rightarrow> string list \<Rightarrow> lexeme_flags list \<Rightarrow> dep_labels \<Rightarrow> tagger_ortho \<Rightarrow> arc_eager_state \<Rightarrow> int list
     \<Rightarrow> arc_eager_state \<times> int list" where
  "parse_loop pos texts flags labels ortho st margins =
     (if is_final st then (st, margins)
      else case best_with_margin st (candidate_actions st pos texts flags labels ortho) pos labels of
             None \<Rightarrow> (st, margins)
           | Some (best, margin) \<Rightarrow>
               parse_loop pos texts flags labels ortho (apply_action st best) (margins @ [margin]))"
  by pat_completeness auto
termination
proof (relation "measure (\<lambda>(pos, texts, flags, labels, ortho, st, margins). parse_size st)", goal_cases)
  case (2 pos texts flags labels ortho st margins x best margin)
  then show ?case
    using candidate_actions_viable [OF best_with_margin_in] apply_viable_size by fastforce
qed simp

declare parse_loop.simps [simp del]

text \<open>Repair: what is still without a head hangs off the root.\<close>

definition repair_step :: "nat \<Rightarrow> 64 word \<Rightarrow> arc_eager_state \<Rightarrow> nat \<Rightarrow> arc_eager_state" where
  "repair_step root dep st i =
     (if st_heads st ! i = -1 \<and> i \<noteq> root then
        st\<lparr>st_heads := (st_heads st)[i := as_i32 root], st_labels := (st_labels st)[i := dep]\<rparr>
      else st)"

definition repair :: "nat \<Rightarrow> nat \<Rightarrow> nat \<Rightarrow> 64 word \<Rightarrow> arc_eager_state \<Rightarrow> arc_eager_state" where
  "repair s e root dep st = foldl (repair_step root dep) st [s..<e]"

text \<open>The body of the loop over sentences; the parser state, the margins and the roots are carried along.\<close>

definition parse_sentence ::
    "upos list \<Rightarrow> string list \<Rightarrow> lexeme_flags list \<Rightarrow> dep_labels \<Rightarrow> tagger_ortho
     \<Rightarrow> arc_eager_state \<times> int list \<times> nat list \<Rightarrow> nat \<times> nat \<Rightarrow> arc_eager_state \<times> int list \<times> nat list" where
  "parse_sentence pos texts flags labels ortho acc bounds =
     (case acc of (st, margins, roots) \<Rightarrow> case bounds of (s, e) \<Rightarrow>
        let root = pick_root pos texts flags s e ortho;
            (st, margins) = parse_loop pos texts flags labels ortho (reset_for_sentence st s e root (dl_root labels)) margins
        in (repair s e root (dl_dep labels) st, margins, roots @ [root]))"

definition parse_sentences ::
    "upos list \<Rightarrow> string list \<Rightarrow> lexeme_flags list \<Rightarrow> dep_labels \<Rightarrow> tagger_ortho \<Rightarrow> (nat \<times> nat) list
     \<Rightarrow> arc_eager_state \<times> int list \<times> nat list" where
  "parse_sentences pos texts flags labels ortho ranges =
     foldl (parse_sentence pos texts flags labels ortho) (state_new (length texts) 0, [], []) ranges"


section \<open>Arcs\<close>

definition up_of :: "int list \<Rightarrow> nat \<Rightarrow> nat" where
  "up_of heads i = (if i < length heads \<and> heads ! i \<noteq> -1 then nat (heads ! i) else i)"

lemma up_of_update: "x < length heads \<Longrightarrow> up_of (heads[x := int y]) = (up_of heads)(x := y)"
  by (auto simp: up_of_def fun_eq_iff nth_list_update)

lemma as_i32_small: "n < 2 ^ 31 \<Longrightarrow> as_i32 n = int n"
  by (simp add: as_i32_def)

text \<open>What holds of heads and labels while a sentence from \<open>s\<close> to \<open>e\<close> with the root \<open>r\<close> is parsed.\<close>

definition arcs_inv :: "dep_labels \<Rightarrow> nat \<Rightarrow> nat \<Rightarrow> nat \<Rightarrow> nat \<Rightarrow> int list \<Rightarrow> 64 word list \<Rightarrow> bool" where
  "arcs_inv labels n s e r heads labs \<longleftrightarrow>
     length heads = n \<and> length labs = n \<and> e \<le> n \<and> s \<le> r \<and> r < e \<and>
     (\<forall>i < n. reaches_root (up_of heads) i) \<and>
     heads ! r = -1 \<and> labs ! r = dl_root labels \<and>
     (\<forall>i. s \<le> i \<and> i < e \<and> i \<noteq> r \<longrightarrow> labs ! i \<noteq> dl_root labels) \<and>
     (\<forall>i. s \<le> i \<and> i < e \<and> heads ! i \<noteq> -1 \<longrightarrow>
        int s \<le> heads ! i \<and> heads ! i < int e \<and> heads ! i \<noteq> int i \<and> labs ! i \<in> arc_labels labels)"

lemma arcs_inv_attach:
  assumes inv: "arcs_inv labels n s e r heads labs" and root: "dl_root labels \<notin> arc_labels labels"
    and x: "s \<le> x" "x < e" "x \<noteq> r" "heads ! x = -1" and y: "s \<le> y" "y < e" "root_from (up_of heads) y z" "z \<noteq> x"
    and l: "l \<in> arc_labels labels"
  shows "arcs_inv labels n s e r (heads[x := int y]) (labs[x := l])"
proof -
  have len: "x < length heads" "x < length labs" using inv x by (auto simp: arcs_inv_def)
  have fixed: "up_of heads x = x" using x(4) by (simp add: up_of_def)
  have "x \<noteq> y"
  proof
    assume "x = y"
    with y(3) fixed funpow_fixed [of "up_of heads" x] have "z = x" by (auto simp: root_from_def)
    with y(4) show False by simp
  qed
  moreover have "\<forall>i < n. reaches_root (up_of (heads[x := int y])) i"
    unfolding up_of_update [OF len(1)]
  proof (intro allI impI)
    fix i assume "i < n"
    with inv have "reaches_root (up_of heads) i" by (simp add: arcs_inv_def)
    then show "reaches_root ((up_of heads)(x := y)) i" by (rule reaches_root_attach [OF _ fixed y(3,4)])
  qed
  moreover have "\<forall>i. s \<le> i \<and> i < e \<and> i \<noteq> r \<longrightarrow> labs[x := l] ! i \<noteq> dl_root labels"
    using inv l root len x by (auto simp: arcs_inv_def nth_list_update)
  moreover have "\<forall>i. s \<le> i \<and> i < e \<and> heads[x := int y] ! i \<noteq> -1 \<longrightarrow>
      int s \<le> heads[x := int y] ! i \<and> heads[x := int y] ! i < int e \<and> heads[x := int y] ! i \<noteq> int i \<and>
      labs[x := l] ! i \<in> arc_labels labels"
    using inv l len \<open>x \<noteq> y\<close> x y by (auto simp: arcs_inv_def nth_list_update)
  ultimately show ?thesis
    using inv x len unfolding arcs_inv_def by (simp add: nth_list_update)
qed

section \<open>Stack and buffer\<close>

definition conf_inv :: "nat \<Rightarrow> nat \<Rightarrow> arc_eager_state \<Rightarrow> bool" where
  "conf_inv s e st \<longleftrightarrow>
     (\<exists>k. s \<le> k \<and> k \<le> e \<and> st_buffer st = [k..<e] \<and> set (st_stack st) \<subseteq> {s..<k} \<and>
       (\<forall>i. k \<le> i \<and> i < e \<longrightarrow> st_heads st ! i = -1)) \<and>
     sorted_wrt (<) (st_stack st) \<and>
     (\<forall>t \<in> set (st_stack st). st_heads st ! t \<noteq> -1 \<longrightarrow>
        nat (st_heads st ! t) \<in> set (st_stack st) \<and> nat (st_heads st ! t) < t)"

lemma stack_root_from:
  assumes "\<forall>t \<in> set stack. heads ! t \<noteq> -1 \<longrightarrow> nat (heads ! t) \<in> set stack \<and> nat (heads ! t) < t"
    and "t \<in> set stack"
  shows "\<exists>z \<in> set stack. root_from (up_of heads) t z"
  using assms(2)
proof (induction t rule: less_induct)
  case (less t)
  show ?case
  proof (cases "up_of heads t = t")
    case True
    with less.prems root_from_self show ?thesis by blast
  next
    case False
    then have "heads ! t \<noteq> -1" "up_of heads t = nat (heads ! t)" by (auto simp: up_of_def split: if_splits)
    with assms(1) less.prems have "up_of heads t < t" "up_of heads t \<in> set stack" by auto
    from less.IH [OF this] root_from_up [of "up_of heads" t] show ?thesis by blast
  qed
qed

lemma sorted_butlast_below:
  "sorted_wrt (<) (xs :: nat list) \<Longrightarrow> x \<in> set (butlast xs) \<Longrightarrow> x < last xs"
  by (induction xs rule: rev_induct) (auto simp: sorted_wrt_append)

lemma sorted_butlast_mem:
  "sorted_wrt (<) (xs :: nat list) \<Longrightarrow> x \<in> set xs \<Longrightarrow> x \<in> set (butlast xs) \<longleftrightarrow> x \<noteq> last xs"
  by (induction xs rule: rev_induct) (auto simp: sorted_wrt_append)

text \<open>Popping keeps the heads of what is left inside the stack, as heads lie below their dependents.\<close>

lemma stack_heads_butlast:
  assumes sorted: "sorted_wrt (<) stack"
    and below: "\<forall>t \<in> set stack. heads ! t \<noteq> -1 \<longrightarrow> nat (heads ! t) \<in> set stack \<and> nat (heads ! t) < t"
    and same: "\<forall>t \<in> set (butlast stack). heads' ! t = heads ! t"
  shows "\<forall>t \<in> set (butlast stack). heads' ! t \<noteq> -1 \<longrightarrow> nat (heads' ! t) \<in> set (butlast stack) \<and> nat (heads' ! t) < t"
proof (intro ballI impI)
  fix t assume t: "t \<in> set (butlast stack)" "heads' ! t \<noteq> -1"
  then have "t \<in> set stack" "heads ! t \<noteq> -1" "heads' ! t = heads ! t" using same by (auto dest: in_set_butlastD)
  with below have "nat (heads ! t) \<in> set stack" "nat (heads ! t) < t" by auto
  moreover have "t < last stack" using sorted_butlast_below [OF sorted t(1)] .
  ultimately show "nat (heads' ! t) \<in> set (butlast stack) \<and> nat (heads' ! t) < t"
    using sorted_butlast_mem [OF sorted] \<open>heads' ! t = heads ! t\<close> by auto
qed


section \<open>One sentence\<close>

definition same_outside :: "nat \<Rightarrow> nat \<Rightarrow> 'a list \<Rightarrow> 'a list \<Rightarrow> bool" where
  "same_outside s e xs ys \<longleftrightarrow> length xs = length ys \<and> (\<forall>i. i < s \<or> e \<le> i \<longrightarrow> xs ! i = ys ! i)"

lemma same_outside_refl [simp]: "same_outside s e xs xs"
  by (simp add: same_outside_def)

lemma same_outside_update: "same_outside s e xs ys \<Longrightarrow> s \<le> i \<Longrightarrow> i < e \<Longrightarrow> same_outside s e (xs[i := v]) ys"
  by (auto simp: same_outside_def nth_list_update_neq)

lemma same_outside_trans: "same_outside s e xs ys \<Longrightarrow> same_outside s e ys zs \<Longrightarrow> same_outside s e xs zs"
  by (auto simp: same_outside_def)

definition sentence_inv ::
    "dep_labels \<Rightarrow> nat \<Rightarrow> nat \<Rightarrow> nat \<Rightarrow> nat \<Rightarrow> arc_eager_state \<Rightarrow> arc_eager_state \<Rightarrow> bool" where
  "sentence_inv labels n s e r st0 st \<longleftrightarrow>
     arcs_inv labels n s e r (st_heads st) (st_labels st) \<and> conf_inv s e st \<and>
     same_outside s e (st_heads st) (st_heads st0) \<and> same_outside s e (st_labels st) (st_labels st0) \<and>
     st_n_tokens st = st_n_tokens st0"

lemma conf_inv_cases:
  assumes "conf_inv s e st" and "st_buffer st \<noteq> []"
  obtains k where "s \<le> k" "k < e" "st_buffer st = k # [Suc k..<e]" "set (st_stack st) \<subseteq> {s..<k}"
    "\<forall>i. k \<le> i \<and> i < e \<longrightarrow> st_heads st ! i = -1"
proof -
  from assms(1) obtain k where k: "s \<le> k" "k \<le> e" "st_buffer st = [k..<e]" "set (st_stack st) \<subseteq> {s..<k}"
      "\<forall>i. k \<le> i \<and> i < e \<longrightarrow> st_heads st ! i = -1" unfolding conf_inv_def by blast
  with assms(2) have "k < e" by auto
  with k show thesis by (intro that [of k]) (simp_all add: upt_conv_Cons)
qed

lemma conf_inv_shift:
  assumes inv: "conf_inv s e st" and buf: "st_buffer st = k # [Suc k..<e]"
    and k: "s \<le> k" "k < e" "set (st_stack st) \<subseteq> {s..<k}" "\<forall>i. k \<le> i \<and> i < e \<longrightarrow> st_heads st ! i = -1"
    and st': "st_stack st' = st_stack st @ [k]" "st_buffer st' = [Suc k..<e]" "\<forall>i. i \<noteq> k \<longrightarrow> st_heads st' ! i = st_heads st ! i"
    and head: "st_heads st' ! k \<noteq> -1 \<Longrightarrow> nat (st_heads st' ! k) \<in> set (st_stack st)"
  shows "conf_inv s e st'"
proof -
  have "sorted_wrt (<) (st_stack st')" using inv k(3) by (auto simp: conf_inv_def st' sorted_wrt_append)
  moreover have "\<forall>t \<in> set (st_stack st'). st_heads st' ! t \<noteq> -1 \<longrightarrow>
      nat (st_heads st' ! t) \<in> set (st_stack st') \<and> nat (st_heads st' ! t) < t"
  proof (intro ballI impI)
    fix t assume t: "t \<in> set (st_stack st')" "st_heads st' ! t \<noteq> -1"
    show "nat (st_heads st' ! t) \<in> set (st_stack st') \<and> nat (st_heads st' ! t) < t"
    proof (cases "t = k")
      case True
      with t(2) head have "nat (st_heads st' ! k) \<in> set (st_stack st)" by blast
      with k(3) True show ?thesis by (auto simp: st')
    next
      case False
      with t st' have "t \<in> set (st_stack st)" "st_heads st' ! t = st_heads st ! t" by auto
      with inv t(2) show ?thesis by (auto simp: conf_inv_def st')
    qed
  qed
  moreover have "\<exists>k. s \<le> k \<and> k \<le> e \<and> st_buffer st' = [k..<e] \<and> set (st_stack st') \<subseteq> {s..<k} \<and>
      (\<forall>i. k \<le> i \<and> i < e \<longrightarrow> st_heads st' ! i = -1)"
    using k st' by (intro exI [of _ "Suc k"]) auto
  ultimately show ?thesis unfolding conf_inv_def by blast
qed

lemma conf_inv_pop:
  assumes inv: "conf_inv s e st" and st': "st_stack st' = butlast (st_stack st)" "st_buffer st' = st_buffer st"
    and ne: "st_stack st \<noteq> []" and same: "\<forall>i. i \<noteq> last (st_stack st) \<longrightarrow> st_heads st' ! i = st_heads st ! i"
  shows "conf_inv s e st'"
proof -
  have sorted: "sorted_wrt (<) (st_stack st)" using inv by (simp add: conf_inv_def)
  obtain k where k: "s \<le> k" "k \<le> e" "st_buffer st = [k..<e]" "set (st_stack st) \<subseteq> {s..<k}"
      "\<forall>i. k \<le> i \<and> i < e \<longrightarrow> st_heads st ! i = -1" using inv unfolding conf_inv_def by blast
  have last: "last (st_stack st) < k" using k(4) ne by (meson atLeastLessThan_iff last_in_set subsetD)
  have "\<forall>t \<in> set (butlast (st_stack st)). st_heads st' ! t = st_heads st ! t"
    using same sorted_butlast_below [OF sorted] by (metis less_irrefl)
  then have "\<forall>t \<in> set (st_stack st'). st_heads st' ! t \<noteq> -1 \<longrightarrow>
      nat (st_heads st' ! t) \<in> set (st_stack st') \<and> nat (st_heads st' ! t) < t"
    using stack_heads_butlast [OF sorted] inv unfolding conf_inv_def st'(1) by blast
  moreover have "sorted_wrt (<) (st_stack st')"
    using sorted ne by (metis append_butlast_last_id sorted_wrt_append st'(1))
  moreover have "set (st_stack st') \<subseteq> {s..<k}" using k(4) by (auto simp: st' dest: in_set_butlastD)
  moreover have "\<forall>i. k \<le> i \<and> i < e \<longrightarrow> st_heads st' ! i = -1" using k(5) same last by auto
  ultimately show ?thesis using k st' unfolding conf_inv_def by auto
qed


lemma sentence_inv_parts:
  assumes "sentence_inv labels n s e r st0 st"
  shows "arcs_inv labels n s e r (st_heads st) (st_labels st)" "conf_inv s e st"
    "same_outside s e (st_heads st) (st_heads st0)" "same_outside s e (st_labels st) (st_labels st0)"
    "st_n_tokens st = st_n_tokens st0" "e \<le> n" "st_labels st ! r = dl_root labels" "length (st_heads st) = n"
  using assms by (auto simp: sentence_inv_def arcs_inv_def)

lemma stack_last_less: "xs \<noteq> [] \<Longrightarrow> set xs \<subseteq> {s..<k :: nat} \<Longrightarrow> s \<le> last xs \<and> last xs < k"
  by (meson atLeastLessThan_iff last_in_set subsetD)

lemma sentence_inv_left:
  assumes inv: "sentence_inv labels n s e r st0 st" and ne: "st_stack st \<noteq> []"
    and k: "s \<le> k" "k < e" "set (st_stack st) \<subseteq> {s..<k}" "\<forall>i. k \<le> i \<and> i < e \<longrightarrow> st_heads st ! i = -1"
    and root: "dl_root labels \<notin> arc_labels labels" and l: "l \<in> arc_labels labels"
    and free: "st_heads st ! last (st_stack st) = -1" "st_labels st ! last (st_stack st) \<noteq> dl_root labels"
    and st': "st_heads st' = (st_heads st)[last (st_stack st) := int k]" "st_labels st' = (st_labels st)[last (st_stack st) := l]"
      "st_n_tokens st' = st_n_tokens st" "st_stack st' = butlast (st_stack st)" "st_buffer st' = st_buffer st"
  shows "sentence_inv labels n s e r st0 st'"
proof -
  note parts = sentence_inv_parts [OF inv]
  have top: "s \<le> last (st_stack st)" "last (st_stack st) < k" using stack_last_less [OF ne k(3)] by auto
  have "root_from (up_of (st_heads st)) k k" using k by (intro root_from_self) (simp add: up_of_def)
  moreover have "last (st_stack st) \<noteq> r" using free(2) parts(7) by auto
  ultimately have "arcs_inv labels n s e r (st_heads st') (st_labels st')" unfolding st'
    using arcs_inv_attach [OF parts(1) root top(1) _ _ free(1) k(1,2)] top k(2) l by auto
  moreover have "conf_inv s e st'" by (rule conf_inv_pop [OF parts(2) st'(4,5) ne]) (simp add: st')
  ultimately show ?thesis
    using parts(3-5) top k(2) by (auto simp: sentence_inv_def st' intro!: same_outside_update)
qed

lemma sentence_inv_right:
  assumes inv: "sentence_inv labels n s e r st0 st" and ne: "st_stack st \<noteq> []"
    and k: "s \<le> k" "k < e" "set (st_stack st) \<subseteq> {s..<k}" "\<forall>i. k \<le> i \<and> i < e \<longrightarrow> st_heads st ! i = -1"
    and root: "dl_root labels \<notin> arc_labels labels" and l: "l \<in> arc_labels labels" and "k \<noteq> r"
    and buf: "st_buffer st = k # [Suc k..<e]"
    and st': "st_heads st' = (st_heads st)[k := int (last (st_stack st))]" "st_labels st' = (st_labels st)[k := l]"
      "st_n_tokens st' = st_n_tokens st" "st_stack st' = st_stack st @ [k]" "st_buffer st' = [Suc k..<e]"
  shows "sentence_inv labels n s e r st0 st'"
proof -
  note parts = sentence_inv_parts [OF inv]
  have top: "s \<le> last (st_stack st)" "last (st_stack st) < k" using stack_last_less [OF ne k(3)] by auto
  obtain z where z: "root_from (up_of (st_heads st)) (last (st_stack st)) z" "z \<in> set (st_stack st)"
    using stack_root_from [of "st_stack st" "st_heads st" "last (st_stack st)"] parts(2) ne by (auto simp: conf_inv_def)
  then have "arcs_inv labels n s e r (st_heads st') (st_labels st')" unfolding st'
    using arcs_inv_attach [OF parts(1) root k(1,2) \<open>k \<noteq> r\<close> _ top(1), of z] top k l by auto
  moreover have "conf_inv s e st'"
  proof (rule conf_inv_shift [OF parts(2) buf k st'(4,5)])
    show "\<forall>i. i \<noteq> k \<longrightarrow> st_heads st' ! i = st_heads st ! i" by (simp add: st')
    show "nat (st_heads st' ! k) \<in> set (st_stack st)" using ne k(2) parts(6,8) by (simp add: st')
  qed
  ultimately show ?thesis
    using parts(3-5) k(1,2) by (auto simp: sentence_inv_def st' intro!: same_outside_update)
qed

lemma sentence_inv_step:
  assumes inv: "sentence_inv labels n s e r st0 st" and viable: "viable pos labels st a"
    and n: "n \<le> 2 ^ 31" and root: "dl_root labels \<notin> arc_labels labels" and punct: "pos ! r = Punct \<Longrightarrow> r = s"
  shows "sentence_inv labels n s e r st0 (apply_action st a)"
proof (cases "aa_move a = Reduce")
  case True
  with viable have ne: "st_stack st \<noteq> []" by (simp add: viable_def)
  have st': "apply_action st a = st\<lparr>st_stack := butlast (st_stack st)\<rparr>"
    using ne True by (simp add: apply_action_def stack_top_def)
  have "conf_inv s e (apply_action st a)"
    by (rule conf_inv_pop [OF sentence_inv_parts(2) [OF inv] _ _ ne]) (simp_all add: st')
  with inv show ?thesis by (simp add: sentence_inv_def st')
next
  case False
  note parts = sentence_inv_parts [OF inv]
  from False viable have "st_buffer st \<noteq> []" by (cases "aa_move a") (auto simp: viable_def)
  from conf_inv_cases [OF parts(2) this]
  obtain k where k: "s \<le> k" "k < e" "set (st_stack st) \<subseteq> {s..<k}" "\<forall>i. k \<le> i \<and> i < e \<longrightarrow> st_heads st ! i = -1"
      and buf: "st_buffer st = k # [Suc k..<e]" .
  have k31: "as_i32 k = int k" using k(2) parts(6) n by (intro as_i32_small) linarith
  have top31: "as_i32 (last (st_stack st)) = int (last (st_stack st))" if "st_stack st \<noteq> []"
    using stack_last_less [OF that k(3)] k(2) parts(6) n by (intro as_i32_small) linarith
  show ?thesis
  proof (cases "aa_move a")
    case Shift
    then have st': "apply_action st a = st\<lparr>st_stack := st_stack st @ [k], st_buffer := [Suc k..<e]\<rparr>"
      by (simp add: apply_action_def buffer_head_def buf)
    have "conf_inv s e (apply_action st a)"
      using k by (intro conf_inv_shift [OF parts(2) buf k]) (simp_all add: st')
    with inv show ?thesis by (simp add: sentence_inv_def st')
  next
    case Left
    with viable show ?thesis
      by (intro sentence_inv_left [OF inv _ k root])
        (auto simp: viable_def apply_action_def buffer_head_def stack_top_def buf Let_def k31)
  next
    case Right
    with viable have ne: "st_stack st \<noteq> []" and free: "pos ! k = Punct \<or> st_labels st ! k \<noteq> dl_root labels"
      by (auto simp: viable_def buf)
    have "k \<noteq> r"
    proof
      assume "k = r"
      with free parts(7) punct have "set (st_stack st) \<subseteq> {}" using k(3) by auto
      with ne show False by simp
    qed
    with Right viable k show ?thesis
      by (intro sentence_inv_right [OF inv ne k root _ _ buf])
        (auto simp: viable_def apply_action_def buffer_head_def stack_top_def buf Let_def top31)
  next
    case Break
    then have st': "apply_action st a = st\<lparr>st_stack := [], st_buffer := [Suc k..<e], st_sent_start := k\<rparr>"
      by (simp add: apply_action_def buffer_head_def buf Let_def)
    have "conf_inv s e (apply_action st a)"
      unfolding conf_inv_def st' using k by (auto intro!: exI [of _ "Suc k"])
    with inv show ?thesis by (simp add: sentence_inv_def st')
  qed (use False in simp)
qed


lemma candidate_actions_nonempty: "\<not> is_final st \<Longrightarrow> candidate_actions st pos texts flags labels ortho \<noteq> []"
  by (auto simp: is_final_def candidate_actions_def split: option.splits simp: buffer_head_None)

lemma best_with_margin_Some:
  assumes "actions \<noteq> []"
  obtains best margin where "best_with_margin st actions pos labels = Some (best, margin)"
proof (cases "best_with_margin st actions pos labels")
  case None
  with assms show thesis by (simp add: best_with_margin_def Let_def split: if_splits)
next
  case (Some p)
  then show thesis using that by (cases p) auto
qed

lemma sort_key_second:
  assumes "1 < length xs"
  shows "f (sort_key f xs ! 0) \<le> f (sort_key f xs ! 1)"
proof -
  have "sorted (map f (sort_key f xs))" by simp
  moreover have "xs \<noteq> []" using assms by auto
  ultimately show ?thesis using sorted_nth_mono [of "map f (sort_key f xs)" 0 1] assms by simp
qed

lemma best_with_margin_nonneg:
  assumes "best_with_margin st actions pos labels = Some (best, margin)"
  shows "0 \<le> margin"
proof -
  define scored where "scored = map (\<lambda>a. (a, oracle_score st a pos labels)) actions"
  have len: "length (sort_key (\<lambda>p. - snd p) scored) = length scored" by (rule length_sort)
  have ne: "scored \<noteq> []" using assms by (auto simp: best_with_margin_def scored_def)
  have "margin = (if length scored = 1 then 1
      else snd (sort_key (\<lambda>p. - snd p) scored ! 0) - snd (sort_key (\<lambda>p. - snd p) scored ! 1))"
    using assms unfolding best_with_margin_def scored_def [symmetric] Let_def len by (auto split: if_splits)
  moreover have "1 < length scored \<or> length scored = 1" using ne by (cases scored) auto
  ultimately show ?thesis using sort_key_second [of scored "\<lambda>p. - snd p"] by auto
qed

text \<open>The loop runs until stack and buffer are empty, in at most as many steps as the size it starts with, and
  keeps whatever every candidate action keeps.\<close>

lemma parse_loop_induct:
  assumes "P st" and "\<And>st a. P st \<Longrightarrow> viable pos labels st a \<Longrightarrow> P (apply_action st a)"
  shows "\<exists>st' ms. parse_loop pos texts flags labels ortho st margins = (st', margins @ ms) \<and>
    P st' \<and> is_final st' \<and> length ms \<le> parse_size st \<and> (\<forall>m \<in> set ms. 0 \<le> m)"
  using assms
proof (induction pos texts flags labels ortho st margins rule: parse_loop.induct)
  case (1 pos texts flags labels ortho st margins)
  show ?case
  proof (cases "is_final st")
    case True
    with "1.prems" show ?thesis by (simp add: parse_loop.simps)
  next
    case False
    let ?cands = "candidate_actions st pos texts flags labels ortho"
    obtain best margin where best: "best_with_margin st ?cands pos labels = Some (best, margin)"
      using best_with_margin_Some [OF candidate_actions_nonempty [OF False]] by blast
    have viable: "viable pos labels st best" by (rule candidate_actions_viable [OF best_with_margin_in [OF best]])
    from "1.IH" [OF False best refl "1.prems"(2) [OF "1.prems"(1) viable] "1.prems"(2)] obtain st' ms where
      loop: "parse_loop pos texts flags labels ortho (apply_action st best) (margins @ [margin]) = (st', (margins @ [margin]) @ ms)"
        "P st'" "is_final st'" "length ms \<le> parse_size (apply_action st best)" "\<forall>m \<in> set ms. 0 \<le> m"
      by blast
    have "parse_loop pos texts flags labels ortho st margins = (st', margins @ (margin # ms))"
      using loop(1) by (subst parse_loop.simps) (simp add: False best)
    moreover have "length (margin # ms) \<le> parse_size st" using loop(4) apply_viable_size [OF viable] by simp
    moreover have "0 \<le> margin" by (rule best_with_margin_nonneg [OF best])
    ultimately show ?thesis using loop(2,3,5) by (intro exI [of _ st'] exI [of _ "margin # ms"]) simp
  qed
qed

lemma parse_loop_spec:
  assumes "sentence_inv labels n s e r st0 st" and "n \<le> 2 ^ 31" and "dl_root labels \<notin> arc_labels labels"
    and "pos ! r = Punct \<Longrightarrow> r = s"
  shows "\<exists>st' ms. parse_loop pos texts flags labels ortho st margins = (st', margins @ ms) \<and>
    sentence_inv labels n s e r st0 st' \<and> is_final st' \<and> length ms \<le> parse_size st \<and> (\<forall>m \<in> set ms. 0 \<le> m)"
  by (rule parse_loop_induct [where P = "sentence_inv labels n s e r st0", OF assms(1)])
    (rule sentence_inv_step [OF _ _ assms(2,3,4)])

section \<open>Repair\<close>

lemma repair_step_inv:
  assumes inv: "arcs_inv labels n s e r (st_heads st) (st_labels st)" and n: "n \<le> 2 ^ 31"
    and root: "dl_root labels \<notin> arc_labels labels" and i: "s \<le> i" "i < e"
  shows "arcs_inv labels n s e r (st_heads (repair_step r (dl_dep labels) st i)) (st_labels (repair_step r (dl_dep labels) st i))"
proof (cases "st_heads st ! i = -1 \<and> i \<noteq> r")
  case True
  have r: "s \<le> r" "r < e" "e \<le> n" "st_heads st ! r = -1" using inv by (auto simp: arcs_inv_def)
  have "root_from (up_of (st_heads st)) r r" using r(4) by (intro root_from_self) (simp add: up_of_def)
  moreover have "as_i32 r = int r" using r n by (intro as_i32_small) linarith
  ultimately show ?thesis
    using True arcs_inv_attach [OF inv root i _ _ r(1,2), of r] by (auto simp: repair_step_def arc_labels_mem)
qed (use inv in \<open>auto simp: repair_step_def\<close>)

lemma repair_spec:
  assumes inv: "arcs_inv labels n s e r (st_heads st) (st_labels st)" and n: "n \<le> 2 ^ 31"
    and root: "dl_root labels \<notin> arc_labels labels" and j: "s \<le> j" "j \<le> e"
  defines "st' \<equiv> foldl (repair_step r (dl_dep labels)) st [s..<j]"
  shows "arcs_inv labels n s e r (st_heads st') (st_labels st') \<and> st_n_tokens st' = st_n_tokens st \<and>
    same_outside s e (st_heads st') (st_heads st) \<and> same_outside s e (st_labels st') (st_labels st) \<and>
    (\<forall>i. s \<le> i \<and> i < j \<and> i \<noteq> r \<longrightarrow> st_heads st' ! i \<noteq> -1)"
  unfolding st'_def using j
proof (induction j rule: dec_induct)
  case base
  then show ?case using inv by simp
next
  case (step j)
  let ?st = "foldl (repair_step r (dl_dep labels)) st [s..<j]"
  from step have IH: "arcs_inv labels n s e r (st_heads ?st) (st_labels ?st)" "st_n_tokens ?st = st_n_tokens st"
    "same_outside s e (st_heads ?st) (st_heads st)" "same_outside s e (st_labels ?st) (st_labels st)"
    "\<forall>i. s \<le> i \<and> i < j \<and> i \<noteq> r \<longrightarrow> st_heads ?st ! i \<noteq> -1" and j: "s \<le> j" "j < e" by auto
  have len: "length (st_heads ?st) = n" "e \<le> n" "r < e" using IH(1) by (auto simp: arcs_inv_def)
  have "as_i32 r = int r" using len n by (intro as_i32_small) linarith
  then have "\<forall>i. s \<le> i \<and> i < Suc j \<and> i \<noteq> r \<longrightarrow> st_heads (repair_step r (dl_dep labels) ?st j) ! i \<noteq> -1"
    using IH(5) len j by (auto simp: repair_step_def nth_list_update less_Suc_eq)
  moreover have "same_outside s e (st_heads (repair_step r (dl_dep labels) ?st j)) (st_heads st)"
    "same_outside s e (st_labels (repair_step r (dl_dep labels) ?st j)) (st_labels st)"
    "st_n_tokens (repair_step r (dl_dep labels) ?st j) = st_n_tokens st"
    using IH(2-4) j by (auto simp: repair_step_def intro!: same_outside_update)
  ultimately show ?case using repair_step_inv [OF IH(1) n root j] j by simp
qed


section \<open>The chosen root\<close>

lemma first_some_mem: "first_some xs = Some x \<Longrightarrow> Some x \<in> set xs"
  by (induction xs rule: first_some.induct) auto

lemma first_main_verb_mem:
  "first_main_verb pos texts flags s e ortho rel is = Some i \<Longrightarrow> i \<in> set is \<and> pos ! i = Verb"
  by (induction pos texts flags s e ortho rel "is" rule: first_main_verb.induct) (auto split: if_splits)

lemma nominal_span_mem:
  "nominal_span pos ks idx = (Some j, c) \<Longrightarrow> j \<in> set ks \<and> pos ! j \<in> {Noun, Propn} \<or> idx = Some j"
  by (induction pos ks idx rule: nominal_span.induct) (auto split: if_splits)

lemma copular_predicate_mem:
  "copular_predicate_from pos flags e is = Some j \<Longrightarrow> \<exists>i \<in> set is. i < j \<and> j < e \<and> pos ! j \<in> {Noun, Propn}"
  by (induction pos flags e "is" rule: copular_predicate_from.induct)
     (auto split: if_splits prod.splits option.splits bool.splits dest!: nominal_span_mem)

lemma pick_root_spec:
  assumes "s < e"
  shows "s \<le> pick_root pos texts flags s e ortho \<and> pick_root pos texts flags s e ortho < e \<and>
    (pos ! pick_root pos texts flags s e ortho = Punct \<longrightarrow> pick_root pos texts flags s e ortho = s)"
proof -
  have copular: "s \<le> j \<and> j < e \<and> pos ! j \<noteq> Punct" if "copular_predicate_nominal pos flags s e = Some j" for j
    using copular_predicate_mem [OF that [unfolded copular_predicate_nominal_def]] by auto
  have compound: "s \<le> j \<and> j < e \<and> pos ! j \<noteq> Punct" if "compound_head_nominal pos s e = Some j" for j
    using that by (auto simp: compound_head_nominal_def Let_def split: if_splits dest!: find_SomeD)

  have verb: "s \<le> j \<and> j < e \<and> pos ! j \<noteq> Punct" if "first_main_verb pos texts flags s e ortho False [s..<e] = Some j" for j
    using first_main_verb_mem [OF that] by auto
  define xs where "xs = [first_main_verb pos texts flags s e ortho False [s..<e],
      if (case lget flags s of Some f \<Rightarrow> is_where_word f | None \<Rightarrow> False) \<and>
         \<not> list_ex (\<lambda>k. pos ! k = Verb \<or> pos ! k = Adj) [s..<e] then
        find (\<lambda>i. pos ! i = Aux \<and> is_be_form (flags ! i) \<and>
          list_ex (\<lambda>k. pos ! k \<in> {Noun, Propn, Pron}) [i + 1..<e]) [s..<e]
      else None,
      if \<not> (case lget flags s of Some f \<Rightarrow> is_where_word f | None \<Rightarrow> False) then copular_predicate_nominal pos flags s e else None,
      find (\<lambda>i. pos ! i = Adj) [s..<e],
      compound_head_nominal pos s e,
      find (\<lambda>i. pos ! i \<in> {Noun, Propn, Pron}) [s..<e]]"
  have all: "list_all (\<lambda>x. \<forall>j. x = Some j \<longrightarrow> s \<le> j \<and> j < e \<and> pos ! j \<noteq> Punct) xs"
    unfolding xs_def list.pred_inject(2) list.pred_inject(1)
    by (intro conjI TrueI allI impI) (auto dest!: verb copular compound find_SomeD split: if_splits)
  have "pick_root pos texts flags s e ortho = (case first_some xs of Some r \<Rightarrow> r | None \<Rightarrow> s)"
    unfolding pick_root_def Let_def xs_def ..
  with all first_some_mem [of xs] assms show ?thesis by (auto simp: list_all_iff split: option.split)
qed

section \<open>All sentences\<close>

text \<open>A range of tokens that is parsed: one root, which is the only token without a head and the only one with
  the root label, and every other token has a head of its own sentence and an arc label.\<close>

definition range_ok :: "dep_labels \<Rightarrow> nat \<Rightarrow> nat \<Rightarrow> nat \<Rightarrow> int list \<Rightarrow> 64 word list \<Rightarrow> bool" where
  "range_ok labels s e r heads labs \<longleftrightarrow> s \<le> r \<and> r < e \<and>
     (\<forall>i. s \<le> i \<and> i < e \<longrightarrow>
        (heads ! i = -1 \<longleftrightarrow> i = r) \<and> (labs ! i = dl_root labels \<longleftrightarrow> i = r) \<and>
        (i \<noteq> r \<longrightarrow> int s \<le> heads ! i \<and> heads ! i < int e \<and> heads ! i \<noteq> int i \<and> labs ! i \<in> arc_labels labels))"

lemma range_ok_same:
  assumes "range_ok labels s e r heads labs" and "\<forall>i. s \<le> i \<and> i < e \<longrightarrow> heads' ! i = heads ! i \<and> labs' ! i = labs ! i"
  shows "range_ok labels s e r heads' labs'"
  using assms by (simp add: range_ok_def)

text \<open>The state between sentences: everything from \<open>c\<close> on is untouched.\<close>

definition between_inv :: "nat \<Rightarrow> nat \<Rightarrow> arc_eager_state \<Rightarrow> bool" where
  "between_inv n c st \<longleftrightarrow>
     length (st_heads st) = n \<and> length (st_labels st) = n \<and> st_n_tokens st = n \<and>
     (\<forall>i < n. reaches_root (up_of (st_heads st)) i) \<and>
     (\<forall>i. c \<le> i \<and> i < n \<longrightarrow> st_heads st ! i = -1 \<and> st_labels st ! i = 0)"

definition labels_ok :: "dep_labels \<Rightarrow> bool" where
  "labels_ok labels \<longleftrightarrow> dl_root labels \<noteq> 0 \<and> dl_root labels \<notin> arc_labels labels"

lemma reset_inv:
  assumes between: "between_inv n s st" and labels: "labels_ok labels" and bounds: "s \<le> r" "r < e" "e \<le> n"
  shows "sentence_inv labels n s e r (st\<lparr>st_stack := []\<rparr>) (reset_for_sentence st s e r (dl_root labels))"
proof -
  have heads: "(st_heads st)[r := -1] = st_heads st"
    using between bounds by (intro list_update_same_conv [THEN iffD2]) (auto simp: between_inv_def)
  have "arcs_inv labels n s e r (st_heads st) ((st_labels st)[r := dl_root labels])"
    using between bounds labels by (auto simp: between_inv_def arcs_inv_def labels_ok_def nth_list_update)
  moreover have "conf_inv s e (reset_for_sentence st s e r (dl_root labels))"
    unfolding conf_inv_def using between bounds heads
    by (auto simp: reset_for_sentence_def between_inv_def intro!: exI [of _ s])
  ultimately show ?thesis
    using bounds unfolding sentence_inv_def
    by (simp add: reset_for_sentence_def heads same_outside_update)
qed

lemma parse_sentence_spec:
  assumes between: "between_inv n s st" and labels: "labels_ok labels" and bounds: "s < e" "e \<le> n" and n: "n \<le> 2 ^ 31"
  shows "\<exists>st' ms. parse_sentence pos texts flags labels ortho (st, margins, roots) (s, e) =
      (st', margins @ ms, roots @ [pick_root pos texts flags s e ortho]) \<and>
    between_inv n e st' \<and> range_ok labels s e (pick_root pos texts flags s e ortho) (st_heads st') (st_labels st') \<and>
    same_outside s e (st_heads st') (st_heads st) \<and> same_outside s e (st_labels st') (st_labels st) \<and>
    length ms \<le> 2 * (e - s) \<and> (\<forall>m \<in> set ms. 0 \<le> m)"
proof -
  define r where "r = pick_root pos texts flags s e ortho"
  have r: "s \<le> r" "r < e" "pos ! r = Punct \<Longrightarrow> r = s" using pick_root_spec [OF bounds(1)] by (auto simp: r_def)
  have root: "dl_root labels \<notin> arc_labels labels" using labels by (simp add: labels_ok_def)
  obtain st1 ms where loop:
      "parse_loop pos texts flags labels ortho (reset_for_sentence st s e r (dl_root labels)) margins = (st1, margins @ ms)"
      "sentence_inv labels n s e r (st\<lparr>st_stack := []\<rparr>) st1" "is_final st1"
      "length ms \<le> parse_size (reset_for_sentence st s e r (dl_root labels))" "\<forall>m \<in> set ms. 0 \<le> m"
    using parse_loop_spec [OF reset_inv [OF between labels r(1,2) bounds(2)] n root r(3)] by blast
  note parts = sentence_inv_parts [OF loop(2)]
  have rep: "arcs_inv labels n s e r (st_heads (repair s e r (dl_dep labels) st1)) (st_labels (repair s e r (dl_dep labels) st1))"
      "st_n_tokens (repair s e r (dl_dep labels) st1) = st_n_tokens st1"
      "same_outside s e (st_heads (repair s e r (dl_dep labels) st1)) (st_heads st1)"
      "same_outside s e (st_labels (repair s e r (dl_dep labels) st1)) (st_labels st1)"
      "\<forall>i. s \<le> i \<and> i < e \<and> i \<noteq> r \<longrightarrow> st_heads (repair s e r (dl_dep labels) st1) ! i \<noteq> -1"
    using repair_spec [OF parts(1) n root less_imp_le [OF bounds(1)] order_refl] unfolding repair_def by blast+
  let ?st = "repair s e r (dl_dep labels) st1"
  have out: "same_outside s e (st_heads ?st) (st_heads st)" "same_outside s e (st_labels ?st) (st_labels st)"
    using same_outside_trans rep(3,4) parts(3,4) by (auto dest: same_outside_trans)
  have "range_ok labels s e r (st_heads ?st) (st_labels ?st)"
    using rep(1,5) r root unfolding range_ok_def arcs_inv_def by auto
  moreover have "between_inv n e ?st"
    using rep(1,2) parts(5) out between bounds unfolding between_inv_def arcs_inv_def same_outside_def by auto
  moreover have "length ms \<le> 2 * (e - s)" using loop(4) by (simp add: parse_size_def reset_for_sentence_def)
  ultimately show ?thesis
    using loop(1,5) out by (auto simp: parse_sentence_def r_def [symmetric])
qed


fun tiles :: "nat \<Rightarrow> nat \<Rightarrow> (nat \<times> nat) list \<Rightarrow> bool" where
  "tiles a b [] \<longleftrightarrow> a = b"
| "tiles a b ((s, e) # rs) \<longleftrightarrow> s = a \<and> s < e \<and> tiles e b rs"

lemma tiles_append: "tiles a b (rs @ [(s, e)]) \<longleftrightarrow> tiles a s rs \<and> s < e \<and> e = b"
  by (induction rs arbitrary: a) auto

lemma tiles_le: "tiles a b rs \<Longrightarrow> a \<le> b"
  by (induction a b rs rule: tiles.induct) auto

lemma tiles_bounds: "tiles a b rs \<Longrightarrow> (s, e) \<in> set rs \<Longrightarrow> a \<le> s \<and> s < e \<and> e \<le> b"
  by (induction a b rs rule: tiles.induct) (auto dest: tiles_le)

lemma tiles_cover: "tiles a b rs \<Longrightarrow> a \<le> i \<Longrightarrow> i < b \<Longrightarrow> \<exists>(s, e) \<in> set rs. s \<le> i \<and> i < e"
  by (induction a b rs rule: tiles.induct) (auto, meson not_le_imp_less)

lemma partition_fold:
  assumes "k \<le> length starts"
  shows "\<exists>out cur. foldl partition_step ([], 0) (take k (enumerate 0 starts)) = (out, cur) \<and> tiles 0 cur out \<and>
    (cur = 0 \<or> cur < k) \<and> insert cur (fst ` set out) = insert 0 {i. i < k \<and> starts ! i}"
  using assms
proof (induction k)
  case (Suc k)
  then obtain out cur where IH: "foldl partition_step ([], 0) (take k (enumerate 0 starts)) = (out, cur)" "tiles 0 cur out"
    "cur = 0 \<or> cur < k" "insert cur (fst ` set out) = insert 0 {i. i < k \<and> starts ! i}" by auto
  have take: "take (Suc k) (enumerate 0 starts) = take k (enumerate 0 starts) @ [(k, starts ! k)]"
    using Suc.prems by (simp add: take_Suc_conv_app_nth nth_enumerate_eq)
  show ?case
  proof (cases "starts ! k \<and> k \<noteq> 0")
    case True
    then have "foldl partition_step ([], 0) (take (Suc k) (enumerate 0 starts)) = (out @ [(cur, k)], k)"
      by (simp add: take IH(1) partition_step_def)
    moreover have "insert k (fst ` set (out @ [(cur, k)])) = insert 0 {i. i < Suc k \<and> starts ! i}"
      using IH(4) True by (auto simp: less_Suc_eq)
    ultimately show ?thesis using IH(2,3) True by (auto simp: tiles_append)
  next
    case False
    then have "foldl partition_step ([], 0) (take (Suc k) (enumerate 0 starts)) = (out, cur)"
      by (auto simp: take IH(1) partition_step_def)
    moreover have "insert cur (fst ` set out) = insert 0 {i. i < Suc k \<and> starts ! i}"
      using IH(4) False by (auto simp: less_Suc_eq)
    ultimately show ?thesis using IH(2,3) by auto
  qed
qed simp

text \<open>The ranges tile the document and start exactly at its first token and at the marked ones.\<close>

lemma partition_spec:
  assumes "length starts = n" and "0 < n"
  shows "tiles 0 n (partition_sentences starts n) \<and>
    fst ` set (partition_sentences starts n) = insert 0 {i. i < n \<and> starts ! i}"
proof -
  obtain out cur where fold: "foldl partition_step ([], 0) (enumerate 0 starts) = (out, cur)" "tiles 0 cur out"
    "cur = 0 \<or> cur < n" "insert cur (fst ` set out) = insert 0 {i. i < n \<and> starts ! i}"
    using partition_fold [of n starts] assms by auto
  then have "partition_sentences starts n = out @ [(cur, n)]" using assms by (auto simp: partition_sentences_def)
  with fold assms show ?thesis by (auto simp: tiles_append)
qed

lemma parse_ranges:
  assumes "between_inv n c st" and "labels_ok labels" and "tiles c n ranges" and "n \<le> 2 ^ 31"
  shows "\<exists>st' ms. foldl (parse_sentence pos texts flags labels ortho) (st, margins, roots) ranges =
      (st', margins @ ms, roots @ map (\<lambda>(s, e). pick_root pos texts flags s e ortho) ranges) \<and>
    between_inv n n st' \<and>
    (\<forall>(s, e) \<in> set ranges. range_ok labels s e (pick_root pos texts flags s e ortho) (st_heads st') (st_labels st')) \<and>
    (\<forall>i < c. st_heads st' ! i = st_heads st ! i \<and> st_labels st' ! i = st_labels st ! i) \<and>
    length ms \<le> 2 * (n - c) \<and> (\<forall>m \<in> set ms. 0 \<le> m)"
  using assms
proof (induction ranges arbitrary: c st margins roots)
  case Nil
  then show ?case by (intro exI [of _ st] exI [of _ "[]"]) simp
next
  case (Cons se ranges)
  obtain s e where se: "se = (s, e)" by (cases se)
  with Cons.prems have c: "s = c" "c < e" "tiles e n ranges" by auto
  have "e \<le> n" using tiles_le [OF c(3)] .
  from parse_sentence_spec [OF Cons.prems(1,2) c(2) this Cons.prems(4), of pos texts flags ortho margins roots] obtain st1 ms1 where
    one: "parse_sentence pos texts flags labels ortho (st, margins, roots) (c, e) =
        (st1, margins @ ms1, roots @ [pick_root pos texts flags c e ortho])"
      "between_inv n e st1" "range_ok labels c e (pick_root pos texts flags c e ortho) (st_heads st1) (st_labels st1)"
      "same_outside c e (st_heads st1) (st_heads st)" "same_outside c e (st_labels st1) (st_labels st)"
      "length ms1 \<le> 2 * (e - c)" "\<forall>m \<in> set ms1. 0 \<le> m" by blast
  from Cons.IH [OF one(2) Cons.prems(2) c(3) Cons.prems(4)] obtain st' ms where
    rest: "foldl (parse_sentence pos texts flags labels ortho)
        (st1, margins @ ms1, roots @ [pick_root pos texts flags c e ortho]) ranges =
        (st', (margins @ ms1) @ ms, (roots @ [pick_root pos texts flags c e ortho]) @
           map (\<lambda>(s, e). pick_root pos texts flags s e ortho) ranges)"
      "between_inv n n st'"
      "\<forall>(s, e) \<in> set ranges. range_ok labels s e (pick_root pos texts flags s e ortho) (st_heads st') (st_labels st')"
      "\<forall>i < e. st_heads st' ! i = st_heads st1 ! i \<and> st_labels st' ! i = st_labels st1 ! i"
      "length ms \<le> 2 * (n - e)" "\<forall>m \<in> set ms. 0 \<le> m" by blast
  have "range_ok labels c e (pick_root pos texts flags c e ortho) (st_heads st') (st_labels st')"
    using range_ok_same [OF one(3)] rest(4) by blast
  moreover have "\<forall>i < c. st_heads st' ! i = st_heads st ! i \<and> st_labels st' ! i = st_labels st ! i"
    using rest(4) one(4,5) c(2) by (auto simp: same_outside_def)
  moreover have "length (ms1 @ ms) \<le> 2 * (n - c)" using one(6) rest(5) c(2) \<open>e \<le> n\<close> by simp
  ultimately show ?case
    using one(1,7) rest(1,2,3,6) c(1) se by (intro exI [of _ st'] exI [of _ "ms1 @ ms"]) auto
qed

lemma between_inv_new: "between_inv n 0 (state_new n 0)"
proof -
  have "up_of (replicate n (-1)) i = i" for i by (auto simp: up_of_def)
  then have "reaches_root (up_of (replicate n (-1))) i" for i using root_from_self reaches_root_from by blast
  then show ?thesis by (simp add: between_inv_def state_new_def)
qed

section \<open>Label hashes\<close>

lemma label_hash_values:
  "hash_utf8 ''root'' = 10583190544702608700"
  "hash_utf8 ''nsubj'' = 1638336668109737677"
  "hash_utf8 ''dobj'' = 5343718380344176586"
  "hash_utf8 ''iobj'' = 15440447083151834831"
  "hash_utf8 ''prep'' = 6627276700533660304"
  "hash_utf8 ''pobj'' = 14829407609355267395"
  "hash_utf8 ''compound'' = 7037928807040764755"
  "hash_utf8 ''det'' = 2755633202201383569"
  "hash_utf8 ''aux'' = 14399288562721897527"
  "hash_utf8 ''punct'' = 1745140981916910267"
  "hash_utf8 ''amod'' = 16281174162982699758"
  "hash_utf8 ''advmod'' = 2735600719142449758"
  "hash_utf8 ''cc'' = 10259270839825187327"
  "hash_utf8 ''dep'' = 12997514807235443725"
  "hash_utf8 ''neg'' = 11004977913432477658"
  "hash_utf8 ''mark'' = 15008882951097202841"
  "hash_utf8 ''cop'' = 2651109511478129524"
  "hash_utf8 ''appos'' = 5578983385172503751"
  "hash_utf8 ''parataxis'' = 2622255331863481116"
  "hash_utf8 ''acomp'' = 8191713135309766927"
  "hash_utf8 ''xcomp'' = 17456416633133990283"
  "hash_utf8 ''relcl'' = 7972625988311165362"
  "hash_utf8 ''obj'' = 842462398748487281"
  "hash_utf8 ''ccomp'' = 1669796969513735070"
  "hash_utf8 ''advcl'' = 16336037187963085443"
  "hash_utf8 ''conj'' = 17960299636000199901"
  "hash_utf8 ''nummod'' = 12837356684637874264"
  "hash_utf8 ''expl'' = 2903797367528992661"
  by (simp_all add: hash_eval)

lemma label_hashes: "distinct (map hash_utf8 label_names)" "0 \<notin> set (map hash_utf8 label_names)"
  by (simp_all add: label_names_def label_hash_values)

lemma labels_ok_new: "labels_ok (fst (dep_labels_new strings))"
  by (simp add: labels_ok_def arc_labels_def dep_labels_new_def fst_ss_add label_hash_values)

section \<open>Properties of the parser\<close>

lemma sorted_ties:
  assumes "sorted (map f (a # b # ys))"
  shows "f b = f a \<longleftrightarrow> 2 \<le> length (filter (\<lambda>x. f x = f a) (a # b # ys))"
proof (cases "f b = f a")
  case False
  with assms have "\<forall>x \<in> set (b # ys). f x \<noteq> f a" by (auto dest: order.antisym)
  then have "filter (\<lambda>x. f x = f a) (b # ys) = []" by (simp only: filter_empty_conv)
  with False show ?thesis by simp
qed simp

lemma sort_key_ties:
  fixes f :: "'a \<Rightarrow> int"
  assumes "1 < length xs"
  shows "f (sort_key f xs ! 0) = f (sort_key f xs ! 1) \<longleftrightarrow>
    2 \<le> length (filter (\<lambda>x. f x = f (sort_key f xs ! 0)) xs)"
proof -
  have "1 < length (sort_key f xs)" using assms by (simp only: length_sort)
  then obtain a b ys where ys: "sort_key f xs = a # b # ys"
    by (cases "sort_key f xs"; cases "tl (sort_key f xs)") (simp_all del: length_sort)
  have "sorted (map f (a # b # ys))" unfolding ys [symmetric] by simp
  note ties = sorted_ties [OF this]
  have "filter (\<lambda>x. f x = f a) xs = filter (\<lambda>x. f x = f a) (a # b # ys)"
    unfolding ys [symmetric] by (simp add: sort_key_stable)
  with ties show ?thesis unfolding ys by auto
qed

text \<open>
  The oracle returns nothing only for an empty candidate list. Otherwise it returns the first candidate of the
  highest score; its margin is never negative, and it is zero exactly when another candidate has the same score.
\<close>

theorem best_with_margin_exact:
  "(best_with_margin st actions pos labels = None \<longleftrightarrow> actions = []) \<and>
   (best_with_margin st actions pos labels = Some (best, margin) \<longrightarrow>
     best = hd (filter (\<lambda>a. oracle_score st a pos labels = oracle_score st best pos labels) actions) \<and>
     (\<forall>a \<in> set actions. oracle_score st a pos labels \<le> oracle_score st best pos labels) \<and> 0 \<le> margin \<and>
     (margin = 0 \<longleftrightarrow> 2 \<le> length (filter (\<lambda>a. oracle_score st a pos labels = oracle_score st best pos labels) actions)))"
proof -
  define sc where "sc = (\<lambda>a. oracle_score st a pos labels)"
  define scored where "scored = map (\<lambda>a. (a, sc a)) actions"
  define ys where "ys = sort_key (\<lambda>p. - snd p) scored"
  have len: "length ys = length actions" by (simp add: ys_def scored_def)
  have eq: "best_with_margin st actions pos labels =
      (if actions = [] then None
       else if length ys = 1 then Some (fst (ys ! 0), 1) else Some (fst (ys ! 0), snd (ys ! 0) - snd (ys ! 1)))"
    by (simp add: best_with_margin_def Let_def ys_def scored_def sc_def)
  have "best = hd (filter (\<lambda>a. sc a = sc best) actions) \<and> (\<forall>a \<in> set actions. sc a \<le> sc best) \<and> 0 \<le> margin \<and>
     (margin = 0 \<longleftrightarrow> 2 \<le> length (filter (\<lambda>a. sc a = sc best) actions))"
    if some: "best_with_margin st actions pos labels = Some (best, margin)"
  proof -
    have ne: "actions \<noteq> []" "scored \<noteq> []" using some by (auto simp: eq scored_def split: if_splits)
    have first: "ys ! 0 \<in> set scored" "\<forall>x \<in> set scored. snd x \<le> snd (ys ! 0)"
      using sort_key_first [OF ne(2), of "\<lambda>p. - snd p"] unfolding ys_def by auto
    have best: "ys ! 0 = (best, sc best)" using some ne first(1) by (auto simp: eq scored_def split: if_splits)
    have filter: "filter (\<lambda>p. - snd p = - snd (ys ! 0)) scored = map (\<lambda>a. (a, sc a)) (filter (\<lambda>a. sc a = sc best) actions)"
      by (simp add: scored_def filter_map best comp_def)
    have "hd (filter (\<lambda>a. sc a = sc best) actions) = best"
      using sort_key_stable_head [OF ne(2), of "\<lambda>p. - snd p", folded ys_def] best filter
      by (cases "filter (\<lambda>a. sc a = sc best) actions") (use first(1) in \<open>auto simp: scored_def filter_empty_conv\<close>)
    moreover have "margin = 0 \<longleftrightarrow> 2 \<le> length (filter (\<lambda>a. sc a = sc best) actions)"
    proof (cases "length ys = 1")
      case True
      moreover have "length (filter (\<lambda>a. sc a = sc best) actions) \<le> length actions" by (rule length_filter_le)
      ultimately show ?thesis using some ne len by (simp add: eq)
    next
      case False
      with ne len have "1 < length scored" by (cases actions) (auto simp: scored_def)
      from sort_key_ties [OF this, of "\<lambda>p. - snd p", folded ys_def] filter
      show ?thesis using some ne False by (auto simp: eq)
    qed
    ultimately show ?thesis
      using first(2) best best_with_margin_nonneg [OF some] by (auto simp: scored_def)
  qed
  moreover have "best_with_margin st actions pos labels = None \<longleftrightarrow> actions = []" by (simp add: eq)
  ultimately show ?thesis by (simp add: sc_def)
qed

definition two_tokens :: arc_eager_state where
  "two_tokens = (state_new 2 0)\<lparr>st_stack := [0], st_buffer := [1]\<rparr>"

text \<open>The labels as the hashes they are.\<close>

lemma dep_labels_values:
  "fst (dep_labels_new strings) =
    \<lparr>dl_root = 10583190544702608700,
     dl_nsubj = 1638336668109737677,
     dl_dobj = 5343718380344176586,
     dl_iobj = 15440447083151834831,
     dl_prep = 6627276700533660304,
     dl_pobj = 14829407609355267395,
     dl_compound = 7037928807040764755,
     dl_det = 2755633202201383569,
     dl_aux = 14399288562721897527,
     dl_punct = 1745140981916910267,
     dl_amod = 16281174162982699758,
     dl_advmod = 2735600719142449758,
     dl_cc = 10259270839825187327,
     dl_dep = 12997514807235443725,
     dl_neg = 11004977913432477658,
     dl_mark = 15008882951097202841,
     dl_cop = 2651109511478129524,
     dl_appos = 5578983385172503751,
     dl_parataxis = 2622255331863481116,
     dl_acomp = 8191713135309766927,
     dl_xcomp = 17456416633133990283,
     dl_relcl = 7972625988311165362,
     dl_obj = 842462398748487281,
     dl_ccomp = 1669796969513735070,
     dl_advcl = 16336037187963085443,
     dl_conj = 17960299636000199901,
     dl_nummod = 12837356684637874264,
     dl_expl = 2903797367528992661\<rparr>"
  by (simp add: dep_labels_new_def fst_ss_add label_hash_values)

text \<open>With a noun on the stack before a verb, the subject arc wins by 98 over popping the stack.\<close>

theorem best_with_margin_exact_witness:
  "best_with_margin two_tokens
     (candidate_actions two_tokens [Noun, Verb] [''dogs'', ''bark''] [0, 0] (fst (dep_labels_new strings_new)) sample_ortho)
     [Noun, Verb] (fst (dep_labels_new strings_new)) = Some (act Left (hash_utf8 ''nsubj''), 98) \<and>
   list_all (\<lambda>a. oracle_score two_tokens a [Noun, Verb] (fst (dep_labels_new strings_new)) \<le> 100)
     (candidate_actions two_tokens [Noun, Verb] [''dogs'', ''bark''] [0, 0] (fst (dep_labels_new strings_new)) sample_ortho)"
proof -
  let ?labels = "fst (dep_labels_new strings_new)"
  let ?cands = "candidate_actions two_tokens [Noun, Verb] [''dogs'', ''bark''] [0, 0] ?labels sample_ortho"
  have best: "best_with_margin two_tokens ?cands [Noun, Verb] ?labels = Some (act Left (hash_utf8 ''nsubj''), 98)"
    unfolding dep_labels_values label_hash_values by code_simp
  have "oracle_score two_tokens (act Left (hash_utf8 ''nsubj'')) [Noun, Verb] ?labels = 100"
    unfolding dep_labels_values label_hash_values by code_simp
  with best best_with_margin_exact [of two_tokens ?cands "[Noun, Verb]" ?labels "act Left (hash_utf8 ''nsubj'')" 98]
  show ?thesis by (simp add: list_all_iff)
qed

text \<open>
  C25. The parse loop always ends, with stack and buffer empty, after at most twice as many steps as the buffer is long
  plus the length of the stack, and every step's margin is nonnegative.
\<close>

theorem parse_loop_ends:
  "\<exists>st' ms. parse_loop pos texts flags labels ortho st margins = (st', margins @ ms) \<and> is_final st' \<and>
     length ms \<le> 2 * length (st_buffer st) + length (st_stack st) \<and> list_all (\<lambda>m. 0 \<le> m) ms"
  using parse_loop_induct [of "\<lambda>_. True" st pos labels texts flags ortho margins]
  by (simp add: parse_size_def list_all_iff)

text \<open>
  C2. Parsing a document sentence by sentence yields a forest with one tree per sentence: the sentences tile the document
  and begin at its first token and at the marked tokens; in each, the chosen root is the only token without a head
  and the only one with the root label, every other token has a head in the same sentence and a label of an arc, and
  following heads from any token ends at a root. The whole takes at most two steps per token.
\<close>

theorem parse_document_forest:
  assumes "labels_ok labels" and "length texts = n" and "0 < n" and "n \<le> 2 ^ 31" and "length starts = n"
  shows "\<exists>st ms. parse_sentences pos texts flags labels ortho (partition_sentences starts n) =
      (st, ms, map (\<lambda>(s, e). pick_root pos texts flags s e ortho) (partition_sentences starts n)) \<and>
    tiles 0 n (partition_sentences starts n) \<and>
    fst ` set (partition_sentences starts n) = insert 0 {i. i < n \<and> starts ! i} \<and>
    (\<forall>(s, e) \<in> set (partition_sentences starts n).
       range_ok labels s e (pick_root pos texts flags s e ortho) (st_heads st) (st_labels st)) \<and>
    (\<forall>i < n. reaches_root (up_of (st_heads st)) i) \<and> length ms \<le> 2 * n"
  using parse_ranges [OF between_inv_new assms(1) _ assms(4), of "partition_sentences starts n" pos texts flags ortho "[]" "[]"]
    partition_spec [OF assms(5,3)] assms(2)
  by (auto simp: parse_sentences_def between_inv_def)

text \<open>Two sentences, \<open>dogs bark .\<close> and \<open>go\<close>.\<close>

theorem parse_document_forest_witness:
  "\<exists>st ms. parse_sentences [Noun, Verb, Punct, Verb] [''dogs'', ''bark'', ''.'', ''go''] [0, 0, 0, 0] (fst (dep_labels_new strings_new))
      sample_ortho [(0, 3), (3, 4)] = (st, ms, [1, 3]) \<and>
    st_heads st = [1, -1, 1, -1] \<and> range_ok (fst (dep_labels_new strings_new)) 0 3 1 (st_heads st) (st_labels st) \<and> length ms \<le> 8"
proof -
  let ?labels = "fst (dep_labels_new strings_new)" and ?pos = "[Noun, Verb, Punct, Verb]"
  let ?texts = "[''dogs'', ''bark'', ''.'', ''go'']" and ?starts = "[True, False, False, True]"
  have ranges: "partition_sentences ?starts 4 = [(0, 3), (3, 4)]" by code_simp
  have roots: "map (\<lambda>(s, e). pick_root ?pos ?texts [0, 0, 0, 0] s e sample_ortho) [(0, 3), (3, 4)] = [1, 3]" by code_simp
  have "st_heads (fst (parse_sentences ?pos ?texts [0, 0, 0, 0] ?labels sample_ortho [(0, 3), (3, 4)])) = [1, -1, 1, -1]"
    unfolding dep_labels_values by code_simp
  with parse_document_forest [OF labels_ok_new [of strings_new], of ?texts 4 ?starts ?pos "[0, 0, 0, 0]" sample_ortho]
  show ?thesis unfolding ranges roots using roots by auto
qed

end
