(* ===== verification/Validate.thy ===== *)
theory Validate
  imports DepGraph Unicode Forest
begin

text \<open>
  The annotation gate of \<open>src/src/spacy-rs/src/validate.rs\<close>, over the dependency graph of theory
  \<open>DepGraph\<close>.

  A document is the list of the stored texts of its tokens (\<open>None\<close> when the store has no entry for a
  token). The checks run in the order of the code and the first failure is returned; the outer option is
  the panic of \<open>topo_sort\<close>, which never happens. The text of a malformed-entity error is a value of
  \<open>biluo_fault\<close>, one constructor per message.
\<close>

section \<open>Records and errors\<close>

record annotation_record =
  ar_text :: string
  ar_pos :: string
  ar_tag :: string
  ar_dep :: string
  ar_head :: int
  ar_lemma :: string
  ar_morph :: string
  ar_ent_iob :: string
  ar_ent_type :: string

datatype iob_marker = Outside | Begin | Unit | Inside | Last

datatype biluo_fault =
  UnknownMarker string | ClosedByOutside | BeginsInsideSpan | RequiresType iob_marker
  | MustContinue iob_marker string | WithoutBegin iob_marker | EndsWithoutLast

datatype annotation_error =
  CountMismatch nat nat | TextMismatch nat string string | UnknownPos string | UnknownDep string
  | HeadOutOfBounds nat int nat | SelfLoop nat | RootHeadMismatch nat int | RootCount nat nat
  | Unreachable "nat list" | Cycle "nat list" | MalformedBiluo nat biluo_fault
  | NonProjective nat nat "nat list" | Json string | ApplyFailure string | EmptyDocument

record annotation_validator =
  av_dep_labels :: dep_label_set
  av_require_projectivity :: bool

definition validator_default :: annotation_validator where
  "validator_default = \<lparr>av_dep_labels = ud_default, av_require_projectivity = False\<rparr>"

definition validator_with_dep_labels :: "dep_label_set \<Rightarrow> annotation_validator" where
  "validator_with_dep_labels labels = \<lparr>av_dep_labels = labels, av_require_projectivity = False\<rparr>"

definition validator_require_projectivity :: "annotation_validator \<Rightarrow> bool \<Rightarrow> annotation_validator" where
  "validator_require_projectivity v require = v\<lparr>av_require_projectivity := require\<rparr>"

section \<open>Strings\<close>

text \<open>\<open>str::trim\<close> removes white space at both ends.\<close>

function strip_with :: "string list \<Rightarrow> string \<Rightarrow> string" where
  "strip_with ws s =
     (case find (\<lambda>w. w \<noteq> [] \<and> take (length w) s = w) ws of
        Some w \<Rightarrow> strip_with ws (drop (length w) s)
      | None \<Rightarrow> s)"
  by pat_completeness auto
termination
proof (relation "measure (\<lambda>(_, s). length s)")
  fix ws s w assume "find (\<lambda>w. w \<noteq> [] \<and> take (length w) s = w) ws = Some w"
  then have w: "w \<noteq> [] \<and> take (length w) s = w" by (auto simp: find_Some_iff)
  then have "s \<noteq> []" by auto
  with w show "((ws, drop (length w) s), ws, s) \<in> measure (\<lambda>(_, s). length s)" by simp
qed simp

definition trim :: "string \<Rightarrow> string" where
  "trim s = rev (strip_with (map rev white_space) (rev (strip_with white_space s)))"

section \<open>Vocabulary checks\<close>

definition upos_known :: "string \<Rightarrow> bool" where
  "upos_known pos \<longleftrightarrow>
     pos \<in> set (map upos_str UPOS) \<or> (case upos_parse pos of Some p \<Rightarrow> p \<in> set UPOS | None \<Rightarrow> False)"

definition is_root_dep :: "string \<Rightarrow> bool" where
  "is_root_dep dep \<longleftrightarrow> eq_ignore_ascii_case dep ''root''"

definition classify :: "string \<Rightarrow> iob_marker option" where
  "classify trimmed =
     (if trimmed \<in> {[], ''O'', ''o''} then Some Outside
      else if trimmed \<in> {''B'', ''b''} then Some Begin
      else if trimmed \<in> {''U'', ''u''} then Some Unit
      else if trimmed \<in> {''I'', ''i''} then Some Inside
      else if trimmed \<in> {''L'', ''l''} then Some Last
      else None)"

text \<open>A loop over the records that returns its first error.\<close>

fun first_err :: "('a \<Rightarrow> 'e option) \<Rightarrow> 'a list \<Rightarrow> 'e option" where
  "first_err f [] = None"
| "first_err f (x # xs) = (case f x of Some e \<Rightarrow> Some e | None \<Rightarrow> first_err f xs)"

lemma first_err_None: "first_err f xs = None \<longleftrightarrow> (\<forall>x \<in> set xs. f x = None)"
  by (induction xs) (auto split: option.splits)

lemma first_err_Some: "first_err f xs = Some e \<Longrightarrow> \<exists>x \<in> set xs. f x = Some e"
  by (induction xs) (auto split: option.splits)

definition token_text :: "string option \<Rightarrow> string" where
  "token_text t = (case t of Some stored \<Rightarrow> stored | None \<Rightarrow> [])"

definition check_text :: "string option list \<Rightarrow> nat \<times> annotation_record \<Rightarrow> annotation_error option" where
  "check_text doc ir =
     (case ir of (i, rec) \<Rightarrow>
        let matches = (case doc ! i of Some stored \<Rightarrow> ar_text rec = stored | None \<Rightarrow> ar_text rec = [])
        in if \<not> matches then Some (TextMismatch i (token_text (doc ! i)) (ar_text rec)) else None)"

definition check_vocabulary :: "dep_label_set \<Rightarrow> annotation_record \<Rightarrow> annotation_error option" where
  "check_vocabulary labels rec =
     (if \<not> upos_known (ar_pos rec) then Some (UnknownPos (ar_pos rec))
      else if \<not> dep_contains labels (ar_dep rec) then Some (UnknownDep (ar_dep rec))
      else None)"

definition check_head :: "nat \<Rightarrow> nat \<times> annotation_record \<Rightarrow> annotation_error option" where
  "check_head len ir =
     (case ir of (i, rec) \<Rightarrow>
        let pos = int i + ar_head rec; is_root = is_root_dep (ar_dep rec)
        in if pos < 0 \<or> pos \<ge> int len then Some (HeadOutOfBounds i (ar_head rec) len)
           else if ar_head rec = 0 \<and> \<not> is_root then Some (SelfLoop i)
           else if is_root \<and> ar_head rec \<noteq> 0 then Some (RootHeadMismatch i (ar_head rec))
           else None)"

section \<open>The head graph\<close>

definition record_deps :: "nat \<times> annotation_record \<Rightarrow> nat list" where
  "record_deps ir =
     (case ir of (i, rec) \<Rightarrow> if is_root_dep (ar_dep rec) then [] else [nat (int i + ar_head rec)])"

definition register_record :: "nat dep_graph \<Rightarrow> nat \<times> annotation_record \<Rightarrow> annotation_error + nat dep_graph" where
  "register_record g ir =
     (case dg_register g (fst ir) (record_deps ir) [fst ir] of
        Inl _ \<Rightarrow> Inl (Cycle [])
      | Inr g' \<Rightarrow> Inr g')"

definition reachable_from_roots :: "nat dep_graph \<Rightarrow> (nat \<times> annotation_record) list \<Rightarrow> nat set" where
  "reachable_from_roots g irs =
     foldl (\<lambda>acc ir. if is_root_dep (ar_dep (snd ir)) then insert (fst ir) acc \<union> set (dg_dependents_of g (fst ir)) else acc)
       {} irs"

definition check_graph :: "annotation_record list \<Rightarrow> annotation_error option option" where
  "check_graph records =
     (case fold_err register_record dg_new (enumerate 0 records) of
        Inl e \<Rightarrow> Some (Some e)
      | Inr graph \<Rightarrow>
          (case dg_topo_sort graph of
             None \<Rightarrow> None
           | Some (Inl _) \<Rightarrow> Some (Some (Cycle []))
           | Some (Inr _) \<Rightarrow>
               let reachable = reachable_from_roots graph (enumerate 0 records);
                   unreached = filter (\<lambda>i. i \<notin> reachable) [0..<length records]
               in Some (if unreached \<noteq> [] then Some (Unreachable unreached) else None)))"

section \<open>Entity spans\<close>

definition biluo_step ::
    "(string \<times> bool) option \<Rightarrow> nat \<times> annotation_record \<Rightarrow> annotation_error + (string \<times> bool) option" where
  "biluo_step open_span ir =
     (case ir of (i, rec) \<Rightarrow>
        let trimmed = trim (ar_ent_iob rec); ty = trim (ar_ent_type rec);
            unfinished = (case open_span of Some (_, False) \<Rightarrow> True | _ \<Rightarrow> False)
        in case classify trimmed of
             None \<Rightarrow> Inl (MalformedBiluo i (UnknownMarker (to_ascii_uppercase trimmed)))
           | Some Outside \<Rightarrow> if unfinished then Inl (MalformedBiluo i ClosedByOutside) else Inr None
           | Some m \<Rightarrow>
               if m = Begin \<or> m = Unit then
                 (if unfinished then Inl (MalformedBiluo i BeginsInsideSpan)
                  else if ty = [] then Inl (MalformedBiluo i (RequiresType m))
                  else Inr (Some (ty, m = Unit)))
               else
                 (case open_span of
                    Some (pty, closed) \<Rightarrow>
                      if \<not> closed \<and> pty = ty then Inr (Some (ty, m = Last))
                      else Inl (MalformedBiluo i (MustContinue m pty))
                  | None \<Rightarrow> Inl (MalformedBiluo i (WithoutBegin m))))"

definition check_biluo :: "annotation_record list \<Rightarrow> annotation_error option" where
  "check_biluo records =
     (case fold_err biluo_step None (enumerate 0 records) of
        Inl e \<Rightarrow> Some e
      | Inr (Some (_, False)) \<Rightarrow> Some (MalformedBiluo (length records - 1) EndsWithoutLast)
      | Inr _ \<Rightarrow> None)"

section \<open>Projectivity\<close>

definition head_index :: "annotation_record list \<Rightarrow> nat \<Rightarrow> nat" where
  "head_index records i = nat (int i + ar_head (records ! i))"

text \<open>The loop of \<open>is_descendant\<close>, with the number of turns its guard still allows.\<close>

fun descendant_loop :: "annotation_record list \<Rightarrow> nat \<Rightarrow> nat \<Rightarrow> nat \<Rightarrow> bool" where
  "descendant_loop records h 0 cur = False"
| "descendant_loop records h (Suc turns) cur =
     (let head = head_index records cur
      in if head = cur then False
         else if head = h then True
         else descendant_loop records h turns head)"

definition is_descendant :: "annotation_record list \<Rightarrow> nat \<Rightarrow> nat \<Rightarrow> bool" where
  "is_descendant records j h = descendant_loop records h (length records + 1) j"

definition check_edge :: "annotation_record list \<Rightarrow> nat \<times> annotation_record \<Rightarrow> annotation_error option" where
  "check_edge records ir =
     (case ir of (i, rec) \<Rightarrow>
        if ar_head rec = 0 then None
        else let h = nat (int i + ar_head rec); lo = min i h; hi = max i h
             in map_option (\<lambda>j. NonProjective i h [j])
                  (find (\<lambda>j. \<not> is_descendant records j h) [lo + 1..<hi]))"

definition check_projectivity :: "annotation_record list \<Rightarrow> annotation_error option" where
  "check_projectivity records = first_err (check_edge records) (enumerate 0 records)"

section \<open>The gate\<close>

fun or_err :: "annotation_error option \<Rightarrow> annotation_error option option \<Rightarrow> annotation_error option option" where
  "or_err (Some e) _ = Some (Some e)"
| "or_err None rest = rest"

definition root_indices :: "annotation_record list \<Rightarrow> nat list" where
  "root_indices records = map fst (filter (\<lambda>ir. is_root_dep (ar_dep (snd ir))) (enumerate 0 records))"

text \<open>\<open>Some None\<close> is \<open>Ok(())\<close>.\<close>

definition validate ::
    "string option list \<Rightarrow> annotation_record list \<Rightarrow> dep_label_set \<Rightarrow> bool \<Rightarrow> annotation_error option option" where
  "validate doc records dep_labels require_projectivity =
     (if doc = [] then Some (Some EmptyDocument)
      else if length records \<noteq> length doc then Some (Some (CountMismatch (length doc) (length records)))
      else or_err (first_err (check_text doc) (enumerate 0 records))
          (or_err (first_err (check_vocabulary dep_labels) records)
          (or_err (first_err (check_head (length records)) (enumerate 0 records))
          (if root_indices records = [] then Some (Some (RootCount 1 0))
           else case check_graph records of
                  None \<Rightarrow> None
                | Some r \<Rightarrow>
                    or_err r (or_err (check_biluo records)
                      (Some (if require_projectivity then check_projectivity records else None)))))))"

definition validator_validate ::
    "annotation_validator \<Rightarrow> string option list \<Rightarrow> annotation_record list \<Rightarrow> annotation_error option option" where
  "validator_validate v doc records = validate doc records (av_dep_labels v) (av_require_projectivity v)"

section \<open>The head function of a record list\<close>

definition head_up :: "annotation_record list \<Rightarrow> nat \<Rightarrow> nat" where
  "head_up records i =
     (let p = int i + ar_head (records ! i)
      in if i < length records \<and> 0 \<le> p \<and> p < int (length records) then nat p else i)"

interpretation rec: head_function "length records" "head_up records" for records
  by unfold_locales (auto simp: head_up_def Let_def)

definition heads_ok :: "annotation_record list \<Rightarrow> bool" where
  "heads_ok records \<longleftrightarrow> (\<forall>i < length records.
     0 \<le> int i + ar_head (records ! i) \<and> int i + ar_head (records ! i) < int (length records) \<and>
     (is_root_dep (ar_dep (records ! i)) \<longleftrightarrow> ar_head (records ! i) = 0))"

lemma ball_enumerate: "(\<forall>ir \<in> set (enumerate 0 xs). P ir) \<longleftrightarrow> (\<forall>i < length xs. P (i, xs ! i))"
  by (auto simp: in_set_enumerate_eq)

lemma check_head_all: "first_err (check_head (length records)) (enumerate 0 records) = None \<longleftrightarrow> heads_ok records"
  unfolding first_err_None ball_enumerate heads_ok_def
  by (intro all_cong) (auto simp: check_head_def Let_def)

lemma heads_ok_up:
  assumes "heads_ok records" and "i < length records"
  shows "head_up records i = head_index records i"
    and "head_up records i = i \<longleftrightarrow> is_root_dep (ar_dep (records ! i))"
  using assms by (auto simp: heads_ok_def head_up_def head_index_def Let_def)

text \<open>The graph the gate builds has one row per record.\<close>

lemma register_all:
  assumes "distinct (map fst irs)" and "dg_wf g" and "set (map fst irs) \<inter> set (dg_nodes g) = {}"
  shows "\<exists>g'. fold_err register_record g irs = Inr g' \<and> dg_wf g' \<and>
    dg_rows g' = dg_rows g @ map (\<lambda>ir. (fst ir, record_deps ir, [fst ir])) irs"
  using assms
proof (induction irs arbitrary: g)
  case (Cons ir irs)
  have "\<not> hm_contains (dg_deps g) (fst ir)"
    using Cons.prems by (auto simp: dg_wf_def hm_contains_def)
  then obtain g1 where g1: "dg_register g (fst ir) (record_deps ir) [fst ir] = Inr g1"
    by (auto simp: dg_register_def)
  have wf1: "dg_wf g1" and rows1: "dg_rows g1 = dg_rows g @ [(fst ir, record_deps ir, [fst ir])]"
    using dg_register_wf [OF Cons.prems(2) g1] dg_register_rows [OF Cons.prems(2) g1] by auto
  have "map fst (dg_rows g1) = map fst (dg_rows g) @ [fst ir]" using rows1 by simp
  then have "dg_nodes g1 = dg_nodes g @ [fst ir]" by (simp add: dg_rows_def comp_def)
  with Cons.prems have "set (map fst irs) \<inter> set (dg_nodes g1) = {}" by auto
  with Cons.IH [OF _ wf1] Cons.prems(1) rows1 show ?case by (simp add: register_record_def g1)
qed simp

lemma rows_nodes: "dg_rows g = map (\<lambda>ir. (fst ir, record_deps ir, [fst ir])) (enumerate 0 records) \<Longrightarrow>
   dg_nodes g = [0..<length records]"
proof -
  assume "dg_rows g = map (\<lambda>ir. (fst ir, record_deps ir, [fst ir])) (enumerate 0 records)"
  then have "map fst (dg_rows g) = map fst (enumerate 0 records)" by (simp add: comp_def)
  then show ?thesis by (simp add: dg_rows_def comp_def)
qed

lemma rows_feeds:
  assumes wf: "dg_wf g" and rows: "dg_rows g = map (\<lambda>ir. (fst ir, record_deps ir, [fst ir])) (enumerate 0 records)"
    and ok: "heads_ok records"
  shows "{(p, n). feeds g p n} = head_edges (length records) (head_up records)"
proof -
  have nodes: "dg_nodes g = [0..<length records]" by (rule rows_nodes [OF rows])
  have row: "hm_get_or (dg_deps g) i [] = record_deps (i, records ! i) \<and> hm_get_or (dg_provides g) i [] = [i]"
    if "i < length records" for i
  proof -
    have "dg_rows g ! i = (i, record_deps (i, records ! i), [i])"
      using that by (simp add: rows nth_enumerate_eq)
    moreover have "dg_rows g ! i = (i, hm_get_or (dg_deps g) i [], hm_get_or (dg_provides g) i [])"
      using that by (simp add: dg_rows_def nodes)
    ultimately show ?thesis by simp
  qed
  have dom: "dom (hm_get (dg_deps g)) = {..<length records}" "dom (hm_get (dg_provides g)) = {..<length records}"
    using wf nodes by (auto simp: dg_wf_def)
  have deps: "hm_get (dg_deps g) i = (if i < length records then Some (record_deps (i, records ! i)) else None)"
    and provides: "hm_get (dg_provides g) i = (if i < length records then Some [i] else None)" for i
    using row [of i] arg_cong [OF dom(1), of "\<lambda>S. i \<in> S"] arg_cong [OF dom(2), of "\<lambda>S. i \<in> S"]
    by (auto simp: hm_get_or_def)
  have "record_deps (n, records ! n) = (if head_up records n = n then [] else [head_up records n])"
    if "n < length records" for n
    using that heads_ok_up [OF ok that] by (auto simp: record_deps_def head_index_def)
  moreover have "head_up records n < length records" if "n < length records" for n using that by (rule rec.up_less)
  ultimately show ?thesis by (auto simp: feeds_def deps provides head_edges_def split: if_splits)
qed

lemma reachable_foldl:
  "foldl (\<lambda>acc ir. if is_root_dep (ar_dep (snd ir)) then insert (fst ir) acc \<union> set (dg_dependents_of g (fst ir)) else acc) A irs =
     A \<union> (\<Union>ir \<in> {ir \<in> set irs. is_root_dep (ar_dep (snd ir))}. insert (fst ir) (set (dg_dependents_of g (fst ir))))"
  by (induction irs arbitrary: A) auto

text \<open>With the heads in range, the graph checks pass exactly on forests, and never report unreachable tokens.\<close>

lemma check_graph_spec:
  assumes ok: "heads_ok records"
  shows "check_graph records =
    Some (if \<forall>i < length records. reaches_root (head_up records) i then None else Some (Cycle []))"
proof -
  obtain g where g: "fold_err register_record dg_new (enumerate 0 records) = Inr g" and wf: "dg_wf g"
    and rows: "dg_rows g = map (\<lambda>ir. (fst ir, record_deps ir, [fst ir])) (enumerate 0 records)"
    using register_all [of "enumerate 0 records" dg_new] dg_wf_new by (auto simp: dg_rows_def dg_new_def)
  have nodes: "dg_nodes g = [0..<length records]" by (rule rows_nodes [OF rows])
  have feeds: "{(p, n). feeds g p n} = head_edges (length records) (head_up records)" by (rule rows_feeds [OF wf rows ok])
  have range: "p < length records" "n < length records" "p \<noteq> n" if "(p, n) \<in> head_edges (length records) (head_up records)" for p n
    using that rec.up_less by (auto simp: head_edges_def)
  have edges: "set (topo_edges g (dg_nodes g)) = head_edges (length records) (head_up records)"
    using range unfolding topo_edges_set [OF wf] nodes feeds [symmetric] by fastforce
  show ?thesis
  proof (cases "\<forall>i < length records. reaches_root (head_up records) i")
    case False
    then have "\<not> acyclic (set (topo_edges g (dg_nodes g)))" unfolding edges rec.acyclic_iff_forest .
    with dg_topo_sort_inner_spec(2) [of "dg_nodes g" g] nodes False show ?thesis
      by (auto simp: check_graph_def g dg_topo_sort_def)
  next
    case True
    then have "acyclic (set (topo_edges g (dg_nodes g)))" unfolding edges rec.acyclic_iff_forest .
    with dg_topo_sort_inner_spec(1) [of "dg_nodes g" g] nodes
    obtain xs where sort: "dg_topo_sort g = Some (Inr xs)" by (auto simp: dg_topo_sort_def)
    have "i \<in> reachable_from_roots g (enumerate 0 records)" if i: "i < length records" for i
    proof -
      from True i obtain r where r: "r < length records" "head_up records r = r"
        "(r, i) \<in> (head_edges (length records) (head_up records))\<^sup>*"
        using rec.root_reaches by blast
      have "i = r \<or> i \<in> set (dg_dependents_of g r)"
        using r(3) unfolding dg_dependents_of_via(1) via_rel_feeds [OF wf] feeds by auto
      moreover have "(r, records ! r) \<in> set (enumerate 0 records)" using r(1) by (simp add: in_set_enumerate_eq)
      moreover have "is_root_dep (ar_dep (records ! r))" using heads_ok_up(2) [OF ok r(1)] r(2) by simp
      ultimately show ?thesis unfolding reachable_from_roots_def reachable_foldl by force
    qed
    then have "filter (\<lambda>i. i \<notin> reachable_from_roots g (enumerate 0 records)) [0..<length records] = []"
      by (simp add: filter_empty_conv)
    with True show ?thesis by (simp add: check_graph_def g sort Let_def)
  qed
qed


section \<open>Descendants\<close>

lemma descendant_loop_iff:
  "descendant_loop records h turns cur \<longleftrightarrow>
     (\<exists>k. 1 \<le> k \<and> k \<le> turns \<and> (head_index records ^^ k) cur = h \<and>
        (\<forall>m < k. head_index records ((head_index records ^^ m) cur) \<noteq> (head_index records ^^ m) cur))"
proof (induction turns arbitrary: cur)
  case (Suc turns)
  let ?f = "head_index records"
  have shift: "(?f ^^ Suc m) cur = (?f ^^ m) (?f cur)" for m by (simp add: funpow_swap1)
  show ?case (is "?L \<longleftrightarrow> ?R")
  proof
    assume L: ?L
    then have ne: "?f cur \<noteq> cur" by (auto simp: Let_def split: if_splits)
    show ?R
    proof (cases "?f cur = h")
      case True
      with ne show ?thesis by (intro exI [of _ 1]) auto
    next
      case False
      with L ne have "descendant_loop records h turns (?f cur)" by (simp add: Let_def)
      with Suc.IH obtain k where k: "1 \<le> k" "k \<le> turns" "(?f ^^ k) (?f cur) = h"
        "\<forall>m < k. ?f ((?f ^^ m) (?f cur)) \<noteq> (?f ^^ m) (?f cur)" by blast
      then have "\<forall>m < Suc k. ?f ((?f ^^ m) cur) \<noteq> (?f ^^ m) cur"
        using ne shift by (auto simp: less_Suc_eq_0_disj simp del: funpow.simps(2))
      with k shift [of k] show ?thesis by (intro exI [of _ "Suc k"]) (simp del: funpow.simps(2))
    qed
  next
    assume ?R
    then obtain k where k: "1 \<le> k" "k \<le> Suc turns" "(?f ^^ k) cur = h" "\<forall>m < k. ?f ((?f ^^ m) cur) \<noteq> (?f ^^ m) cur"
      by blast
    then have ne: "?f cur \<noteq> cur" by (metis One_nat_def Suc_le_lessD funpow_0)
    from k(1) obtain j where j: "k = Suc j" by (cases k) auto
    show ?L
    proof (cases "?f cur = h")
      case True
      with ne show ?thesis by (simp add: Let_def)
    next
      case False
      with k(3) j have "j \<noteq> 0" by (cases j) auto
      have "\<forall>m < j. ?f ((?f ^^ m) (?f cur)) \<noteq> (?f ^^ m) (?f cur)" using k(4) shift j by (metis Suc_mono)
      moreover have "(?f ^^ j) (?f cur) = h" using k(3) shift [of j] j by simp
      ultimately have "descendant_loop records h turns (?f cur)"
        using Suc.IH [of "?f cur"] \<open>j \<noteq> 0\<close> k(2) j by (auto intro!: exI [of _ j])
      with ne False show ?thesis by (simp add: Let_def)
    qed
  qed
qed simp

lemma head_index_funpow:
  assumes "heads_ok records" and "i < length records"
  shows "(head_index records ^^ k) i = (head_up records ^^ k) i"
  using rec.funpow_less [OF assms(2)] heads_ok_up(1) [OF assms(1)] by (induction k) auto

lemma is_descendant_iff:
  assumes ok: "heads_ok records" and j: "j < length records" and root: "reaches_root (head_up records) j"
  shows "is_descendant records j h \<longleftrightarrow> (h, j) \<in> (head_edges (length records) (head_up records))\<^sup>+"
proof -
  note same = head_index_funpow [OF ok j]
  have step: "head_index records ((head_index records ^^ m) j) = head_up records ((head_up records ^^ m) j)" for m
    using same [of "Suc m"] by simp
  have loop: "is_descendant records j h \<longleftrightarrow>
      (\<exists>k. 1 \<le> k \<and> k \<le> length records + 1 \<and> (head_up records ^^ k) j = h \<and>
        (\<forall>m < k. head_up records ((head_up records ^^ m) j) \<noteq> (head_up records ^^ m) j))"
    unfolding is_descendant_def descendant_loop_iff by (simp only: step) (simp only: same)
  show ?thesis
  proof
    assume "is_descendant records j h"
    then obtain k where "1 \<le> k" "(head_up records ^^ k) j = h"
      "\<forall>m < k. head_up records ((head_up records ^^ m) j) \<noteq> (head_up records ^^ m) j"
      unfolding loop by blast
    with rec.funpow_trancl [OF j] show "(h, j) \<in> (head_edges (length records) (head_up records))\<^sup>+" by blast
  next
    assume "(h, j) \<in> (head_edges (length records) (head_up records))\<^sup>+"
    from rec.trancl_funpow [OF this root] obtain k where k: "1 \<le> k" "k \<le> rec.depth records j" "h = (head_up records ^^ k) j"
      by blast
    moreover have "rec.depth records j < length records" by (rule rec.depth_less [OF root j])
    moreover have "\<forall>m < k. head_up records ((head_up records ^^ m) j) \<noteq> (head_up records ^^ m) j"
      using k(2) rec.not_root_below_depth by (meson order_less_le_trans)
    ultimately show "is_descendant records j h"
      unfolding loop by (intro exI [of _ k]) auto
  qed
qed

definition projective :: "annotation_record list \<Rightarrow> bool" where
  "projective records \<longleftrightarrow> (\<forall>i < length records. \<forall>j. min i (head_up records i) < j \<and> j < max i (head_up records i) \<longrightarrow>
     (head_up records i, j) \<in> (head_edges (length records) (head_up records))\<^sup>+)"

lemma check_projectivity_iff:
  assumes ok: "heads_ok records" and forest: "\<forall>i < length records. reaches_root (head_up records) i"
  shows "check_projectivity records = None \<longleftrightarrow> projective records"
proof -
  have edge: "check_edge records (i, records ! i) = None \<longleftrightarrow>
      (\<forall>j. min i (head_up records i) < j \<and> j < max i (head_up records i) \<longrightarrow>
        (head_up records i, j) \<in> (head_edges (length records) (head_up records))\<^sup>+)"
    if i: "i < length records" for i
  proof -
    let ?h = "head_up records i"
    have h: "?h < length records" "?h = nat (int i + ar_head (records ! i))"
      using rec.up_less [OF i] heads_ok_up(1) [OF ok i] by (auto simp: head_index_def)
    have zero: "ar_head (records ! i) = 0 \<longleftrightarrow> ?h = i"
      using ok i heads_ok_up(2) [OF ok i] by (auto simp: heads_ok_def)
    have "is_descendant records j ?h \<longleftrightarrow> (?h, j) \<in> (head_edges (length records) (head_up records))\<^sup>+"
      if "j < max i ?h" for j
      using is_descendant_iff [OF ok _ ] forest that i h(1) by auto
    then show ?thesis using zero by (auto simp: check_edge_def Let_def find_None_iff h(2) [symmetric])
  qed
  show ?thesis unfolding check_projectivity_def first_err_None ball_enumerate projective_def using edge by blast
qed

section \<open>The language of entity spans\<close>

inductive closed_spans :: "(iob_marker option \<times> string) list \<Rightarrow> bool"
  and open_span :: "string \<Rightarrow> (iob_marker option \<times> string) list \<Rightarrow> bool" where
  span_end: "closed_spans []"
| span_outside: "closed_spans es \<Longrightarrow> closed_spans ((Some Outside, t) # es)"
| span_unit: "t \<noteq> [] \<Longrightarrow> closed_spans es \<Longrightarrow> closed_spans ((Some Unit, t) # es)"
| span_begin: "t \<noteq> [] \<Longrightarrow> open_span t es \<Longrightarrow> closed_spans ((Some Begin, t) # es)"
| span_inside: "open_span t es \<Longrightarrow> open_span t ((Some Inside, t) # es)"
| span_last: "closed_spans es \<Longrightarrow> open_span t ((Some Last, t) # es)"

inductive_simps closed_spans_simps: "closed_spans []" "closed_spans ((m, t) # es)"
inductive_simps open_span_simps: "open_span u []" "open_span u ((m, t) # es)"

definition entity :: "annotation_record \<Rightarrow> iob_marker option \<times> string" where
  "entity rec = (classify (trim (ar_ent_iob rec)), trim (ar_ent_type rec))"

fun span_done :: "(string \<times> bool) option \<Rightarrow> bool" where
  "span_done (Some (_, False)) = False"
| "span_done _ = True"

fun span_rest :: "(string \<times> bool) option \<Rightarrow> (iob_marker option \<times> string) list \<Rightarrow> bool" where
  "span_rest (Some (t, False)) es = open_span t es"
| "span_rest _ es = closed_spans es"

lemma biluo_step_Inr:
  "(\<exists>st'. biluo_step st (i, rec) = Inr st' \<and> span_rest st' es) \<longleftrightarrow> span_rest st (entity rec # es)"
proof -
  obtain m t where e: "entity rec = (m, t)" by (cases "entity rec")
  then have c: "classify (trim (ar_ent_iob rec)) = m" "trim (ar_ent_type rec) = t" by (auto simp: entity_def)
  show ?thesis
    by (cases "(st, es)" rule: span_rest.cases; cases m rule: option.exhaust [case_names None Some])
       (auto simp: biluo_step_def e c Let_def closed_spans_simps open_span_simps split: iob_marker.splits)
qed

lemma biluo_fold:
  "(\<exists>st'. fold_err biluo_step st (enumerate k recs) = Inr st' \<and> span_done st') \<longleftrightarrow> span_rest st (map entity recs)"
proof (induction recs arbitrary: st k)
  case Nil
  show ?case by (cases st rule: span_done.cases) (auto simp: closed_spans_simps open_span_simps)
next
  case (Cons rec recs)
  have "(\<exists>st'. fold_err biluo_step st (enumerate k (rec # recs)) = Inr st' \<and> span_done st') \<longleftrightarrow>
      (\<exists>st1. biluo_step st (k, rec) = Inr st1 \<and> span_rest st1 (map entity recs))"
    using Cons.IH by (auto split: sum.splits)
  then show ?case by (simp add: biluo_step_Inr)
qed

lemma check_biluo_iff: "check_biluo records = None \<longleftrightarrow> closed_spans (map entity records)"
proof -
  have "check_biluo records = None \<longleftrightarrow>
      (\<exists>st'. fold_err biluo_step None (enumerate 0 records) = Inr st' \<and> span_done st')"
    by (auto simp: check_biluo_def split: sum.splits option.splits bool.splits elim!: span_done.elims)
  then show ?thesis unfolding biluo_fold by simp
qed


section \<open>What the gate accepts\<close>

lemma upos_known_iff: "upos_known pos \<longleftrightarrow> (\<exists>t \<in> set UPOS. to_ascii_lowercase pos = upos_str t)"
proof -
  have lower: "to_ascii_lowercase (upos_str t) = upos_str t" for t
    using upos_parse_str upos_parse_iff by blast
  have "(case upos_parse pos of Some p \<Rightarrow> p \<in> set UPOS | None \<Rightarrow> False) \<longleftrightarrow> (\<exists>t \<in> set UPOS. upos_parse pos = Some t)"
    by (cases "upos_parse pos") auto
  then show ?thesis unfolding upos_known_def upos_parse_iff using lower by auto
qed

lemma check_text_all:
  assumes "length records = length doc"
  shows "first_err (check_text doc) (enumerate 0 records) = None \<longleftrightarrow> map ar_text records = map token_text doc"
proof -
  have "check_text doc (i, rec) = None \<longleftrightarrow> ar_text rec = token_text (doc ! i)" for i rec
    by (auto simp: check_text_def Let_def token_text_def split: option.splits)
  then show ?thesis
    using assms unfolding first_err_None ball_enumerate list_eq_iff_nth_eq by simp
qed

lemma check_vocabulary_all:
  "first_err (check_vocabulary labels) records = None \<longleftrightarrow>
     (\<forall>rec \<in> set records. (\<exists>t \<in> set UPOS. to_ascii_lowercase (ar_pos rec) = upos_str t) \<and> dep_contains labels (ar_dep rec))"
  by (auto simp: first_err_None check_vocabulary_def upos_known_iff)

text \<open>A nonempty forest has a root, so the root count is implied by the other checks.\<close>

lemma forest_has_root:
  assumes "heads_ok records" and "\<forall>i < length records. reaches_root (head_up records) i" and "records \<noteq> []"
  shows "root_indices records \<noteq> []"
proof -
  from assms(2,3) obtain r where r: "r < length records" "head_up records r = r"
    using rec.root_reaches [of 0 records] by auto
  then have "is_root_dep (ar_dep (records ! r))" using heads_ok_up(2) [OF assms(1)] by simp
  with r(1) have "(r, records ! r) \<in> {ir \<in> set (enumerate 0 records). is_root_dep (ar_dep (snd ir))}"
    by (simp add: in_set_enumerate_eq)
  then show ?thesis unfolding root_indices_def by (force simp: filter_empty_conv)
qed

definition annotation_ok :: "string option list \<Rightarrow> annotation_record list \<Rightarrow> dep_label_set \<Rightarrow> bool \<Rightarrow> bool" where
  "annotation_ok doc records labels proj \<longleftrightarrow>
     doc \<noteq> [] \<and> map ar_text records = map token_text doc \<and>
     (\<forall>rec \<in> set records. (\<exists>t \<in> set UPOS. to_ascii_lowercase (ar_pos rec) = upos_str t) \<and> dep_contains labels (ar_dep rec)) \<and>
     heads_ok records \<and> (\<forall>i < length records. reaches_root (head_up records) i) \<and>
     closed_spans (map entity records) \<and> (proj \<longrightarrow> projective records)"

lemma or_err_None: "or_err e r = Some None \<longleftrightarrow> e = None \<and> r = Some None"
  by (cases e) auto

lemma or_err_avoids:
  "e \<noteq> Some u \<Longrightarrow> (e = None \<Longrightarrow> r \<notin> {None, Some (Some u)}) \<Longrightarrow> or_err e r \<notin> {None, Some (Some u)}"
  by (cases e) auto

lemma validate_spec: "validate doc records labels proj = Some None \<longleftrightarrow> annotation_ok doc records labels proj"
proof (cases "doc = [] \<or> length records \<noteq> length doc \<or> \<not> heads_ok records")
  case True
  have "validate doc records labels proj \<noteq> Some None"
  proof (cases "doc = [] \<or> length records \<noteq> length doc")
    case False
    with True have "first_err (check_head (length records)) (enumerate 0 records) \<noteq> None" using check_head_all by blast
    moreover have "length doc = length records" "doc \<noteq> []" using False by auto
    ultimately show ?thesis by (simp add: validate_def or_err_None)
  qed (auto simp: validate_def)
  moreover have "\<not> annotation_ok doc records labels proj"
    using True map_eq_imp_length_eq [of ar_text records token_text doc] unfolding annotation_ok_def by blast
  ultimately show ?thesis by blast
next
  case False
  then have len: "length records = length doc" and ok: "heads_ok records" and ne: "doc \<noteq> []" "records \<noteq> []" by auto
  have "validate doc records labels proj = Some None \<longleftrightarrow>
      map ar_text records = map token_text doc \<and> first_err (check_vocabulary labels) records = None \<and>
      root_indices records \<noteq> [] \<and> (\<forall>i < length records. reaches_root (head_up records) i) \<and>
      check_biluo records = None \<and> (proj \<longrightarrow> check_projectivity records = None)"
    using len [symmetric] ok ne check_text_all [OF len]
    by (auto simp: validate_def or_err_None check_head_all check_graph_spec)
  also have "\<dots> \<longleftrightarrow> annotation_ok doc records labels proj"
    using ok ne forest_has_root [OF ok _ ne(2)]
    by (auto simp: annotation_ok_def check_vocabulary_all check_biluo_iff check_projectivity_iff)
  finally show ?thesis .
qed

text \<open>
  C3. The gate returns, without a panic, and accepts exactly the annotations that match the tokens text by text,
  use only known tags and labels, point every head inside the document with a zero offset exactly at roots,
  form a forest (every token reaches a root), have well-bracketed entity spans and, when it is asked for,
  no crossing edges. Its unreachable-token error is never reported: a head graph that sorts is connected to
  its roots.
\<close>

theorem validate_exact:
  "validate doc records labels proj \<noteq> None \<and>
   (validate doc records labels proj = Some None \<longleftrightarrow> annotation_ok doc records labels proj) \<and>
   validate doc records labels proj \<noteq> Some (Some (Unreachable is))"
proof -
  have no: "first_err (check_text doc) irs \<noteq> Some (Unreachable is)" "first_err (check_vocabulary labels) records \<noteq> Some (Unreachable is)"
      "first_err (check_head n) irs \<noteq> Some (Unreachable is)" "first_err (check_edge records) irs \<noteq> Some (Unreachable is)" for n irs
    by (auto dest!: first_err_Some simp: check_text_def check_vocabulary_def check_head_def check_edge_def Let_def split: if_splits)
  have biluo_step: "biluo_step st ir = Inl e \<Longrightarrow> e \<noteq> Unreachable is" for st ir e
    by (auto simp: biluo_step_def Let_def split: prod.splits option.splits iob_marker.splits if_splits bool.splits)
  have "fold_err biluo_step st irs = Inl e \<Longrightarrow> e \<noteq> Unreachable is" for st irs e
    by (induction irs arbitrary: st) (auto split: sum.splits dest: biluo_step)
  then have biluo: "check_biluo records \<noteq> Some (Unreachable is)"
    by (auto simp: check_biluo_def split: sum.splits option.splits bool.splits)
  have tail: "(if root_indices records = [] then Some (Some (RootCount 1 0))
      else case check_graph records of
             None \<Rightarrow> None
           | Some r \<Rightarrow> or_err r (or_err (check_biluo records) (Some (if proj then check_projectivity records else None))))
    \<notin> {None, Some (Some (Unreachable is))}"
    if "first_err (check_head (length records)) (enumerate 0 records) = None"
    using check_graph_spec [of records] that [unfolded check_head_all] biluo no(4)
    by (cases "check_biluo records") (auto simp: check_projectivity_def)
  note checked = or_err_avoids [OF no(1) or_err_avoids [OF no(2) or_err_avoids [OF no(3) tail]]]
  have "validate doc records labels proj \<notin> {None, Some (Some (Unreachable is))}"
  proof (cases "doc = [] \<or> length records \<noteq> length doc")
    case False
    then have guards: "(doc = []) = False" "(length records \<noteq> length doc) = False" by auto
    show ?thesis unfolding validate_def guards if_False by (rule checked)
  qed (auto simp: validate_def)
  with validate_spec [of doc records labels proj] show ?thesis by simp
qed

end
