(* ===== verification/Annotator.thy ===== *)
theory Annotator
  imports Parser Validate
begin

text \<open>
  The deterministic annotator of \<open>src/src/spacy-rs/src/arc_eager.rs\<close> and its rung of the fallback ladder: tag,
  split into sentences, parse, build one record per token, and pass the records through the annotation gate of
  theory \<open>Validate\<close>.

  A document is the list of its tokens' stored texts and flags. The lemmatizer is the function argument
  \<open>lemmatize\<close> (texts and tags to lemmas); it only fills the lemma field. Token scores are in tenths; the coverage
  of argument slots is kept as the two counts whose quotient the code returns.
\<close>

section \<open>Annotating\<close>

type_synonym token = "string option \<times> lexeme_flags"

record annotator =
  an_strings :: string_store
  an_dep_labels :: dep_label_set
  an_labels :: dep_labels
  an_sentencizer :: sentencizer
  an_ortho :: tagger_ortho

definition annotator_new :: "string_store \<Rightarrow> dep_label_set \<Rightarrow> sentencizer \<Rightarrow> tagger_ortho \<Rightarrow> annotator" where
  "annotator_new strings labels sz ortho =
     (case dep_labels_new strings of (dls, strings') \<Rightarrow>
        \<lparr>an_strings = strings', an_dep_labels = labels, an_labels = dls, an_sentencizer = sz, an_ortho = ortho\<rparr>)"

definition token_score :: "64 word \<Rightarrow> dep_labels \<Rightarrow> nat" where
  "token_score l labels =
     (if l \<in> {dl_root labels, dl_nsubj labels, dl_dobj labels, dl_prep labels, dl_pobj labels, dl_det labels,
              dl_compound labels, dl_aux labels, dl_punct labels} then 10
      else if l \<in> {dl_amod labels, dl_advmod labels, dl_acomp labels, dl_cc labels} then 7
      else 5)"

definition oracle_tie_count :: "int list \<Rightarrow> nat" where
  "oracle_tie_count margins = length (filter (\<lambda>m. m = 0) margins)"

text \<open>The filled and the expected argument slots of one root.\<close>

definition root_slots :: "arc_eager_state \<Rightarrow> upos list \<Rightarrow> dep_labels \<Rightarrow> nat \<Rightarrow> nat \<times> nat" where
  "root_slots st pos labels r =
     (let children = filter (\<lambda>i. st_heads st ! i = as_i32 r) [0..<min (length pos) (st_n_tokens st)];
          has_nsubj = list_ex (\<lambda>i. st_labels st ! i = dl_nsubj labels) children;
          has_dobj = list_ex (\<lambda>i. st_labels st ! i = dl_dobj labels) children;
          verbal = (r < min (length pos) (st_n_tokens st) \<and> pos ! r = Verb)
      in ((if has_nsubj then 1 else 0) + (if verbal \<and> has_dobj then 1 else 0), 1 + (if verbal then 1 else 0)))"

definition role_slots :: "arc_eager_state \<Rightarrow> upos list \<Rightarrow> dep_labels \<Rightarrow> nat \<times> nat" where
  "role_slots st pos labels =
     foldl (\<lambda>(filled, expected) r. case root_slots st pos labels r of (f, x) \<Rightarrow> (filled + f, expected + x)) (0, 0)
       (filter (\<lambda>i. st_labels st ! i = dl_root labels) [0..<st_n_tokens st])"

definition make_record ::
    "(string \<Rightarrow> upos \<Rightarrow> string list) \<Rightarrow> annotator \<Rightarrow> arc_eager_state \<Rightarrow> upos list \<Rightarrow> string list \<Rightarrow> nat \<Rightarrow> annotation_record" where
  "make_record lemmatize an st pos texts i =
     (let p = pos ! i; text = texts ! i;
          is_root = (st_labels st ! i = dl_root (an_labels an));
          head = (if is_root then 0 else st_heads st ! i - as_i32 i);
          lemma = (case lemmatize text p of l # _ \<Rightarrow> l | [] \<Rightarrow> to_ascii_lowercase text)
      in \<lparr>ar_text = text, ar_pos = upos_str p, ar_tag = [],
          ar_dep = label_to_string (st_labels st ! i) (an_strings an), ar_head = head, ar_lemma = lemma,
          ar_morph = [], ar_ent_iob = [], ar_ent_type = []\<rparr>)"

record annotation_result =
  res_records :: "annotation_record list"
  res_token_scores :: "nat list"
  res_margins :: "int list"
  res_ties :: nat
  res_role_slots :: "nat \<times> nat"

definition annotate_with_confidence ::
    "(string \<Rightarrow> bool) \<Rightarrow> (string \<Rightarrow> upos \<Rightarrow> string list) \<Rightarrow> annotator \<Rightarrow> token list \<Rightarrow> annotation_error + annotation_result" where
  "annotate_with_confidence lc lemmatize an doc =
     (if doc = [] then Inl EmptyDocument
      else let texts = map (\<lambda>t. token_text (fst t)) doc;
               flags = map snd doc;
               pos = tag_tokens lc texts flags (an_ortho an);
               starts = predict (an_sentencizer an) (zip texts flags);
               sentences = partition_sentences starts (length doc);
               (st, margins, roots) = parse_sentences pos texts flags (an_labels an) (an_ortho an) sentences
           in Inr \<lparr>res_records = map (make_record lemmatize an st pos texts) [0..<length pos],
                   res_token_scores = map (\<lambda>i. token_score (st_labels st ! i) (an_labels an)) [0..<length pos],
                   res_margins = margins,
                   res_ties = oracle_tie_count margins,
                   res_role_slots = role_slots st pos (an_labels an)\<rparr>)"

section \<open>The rung\<close>

datatype annotate_error = Fetch string | Encoder string | Rejected annotation_error

text \<open>\<open>Inr None\<close> passes on to the next rung; the outer option is a panic of the gate.\<close>

definition arc_eager_rung ::
    "(string \<Rightarrow> bool) \<Rightarrow> (string \<Rightarrow> upos \<Rightarrow> string list) \<Rightarrow> annotator \<Rightarrow> annotation_validator \<Rightarrow> token list
     \<Rightarrow> (annotate_error + annotation_result option) option" where
  "arc_eager_rung lc lemmatize an v doc =
     (case annotate_with_confidence lc lemmatize an doc of
        Inl EmptyDocument \<Rightarrow> Some (Inr None)
      | Inl e \<Rightarrow> Some (Inl (Rejected e))
      | Inr result \<Rightarrow>
          (case validator_validate v (map fst doc) (res_records result) of
             None \<Rightarrow> None
           | Some (Some e) \<Rightarrow> Some (Inl (Rejected e))
           | Some None \<Rightarrow> Some (Inr (Some result))))"

section \<open>Labels and their texts\<close>

text \<open>No string other than the label itself was stored under a label's hash before.\<close>

definition labels_fresh :: "string_store \<Rightarrow> bool" where
  "labels_fresh strings \<longleftrightarrow> list_all (\<lambda>l. ss_get strings (hash_utf8 l) \<in> {None, Some l}) label_names"

lemma find_distinct_hash:
  "distinct (map hash_utf8 ls) \<Longrightarrow> [] \<notin> set ls \<Longrightarrow> l \<in> set ls \<Longrightarrow>
   find (\<lambda>s. s \<noteq> [] \<and> hash_utf8 s = hash_utf8 l) ls = Some l"
  by (induction ls) (auto simp: image_iff)

lemma label_text:
  assumes "labels_fresh strings" and "l \<in> set label_names"
  shows "label_to_string (hash_utf8 l) (ss_add_all strings label_names) = l"
proof -
  have "[] \<notin> set label_names" by (simp add: label_names_def)
  with assms label_hashes(1) have "ss_get (ss_add_all strings label_names) (hash_utf8 l) = Some l"
    by (auto simp: ss_get_add_all labels_fresh_def list_all_iff find_distinct_hash split: option.splits)
  then show ?thesis by (simp add: label_to_string_def)
qed


lemma annotator_new_labels:
  "dl_root (an_labels (annotator_new strings labels sz ortho)) = hash_utf8 ''root''"
  "arc_labels (an_labels (annotator_new strings labels sz ortho)) \<subseteq> hash_utf8 ` (set label_names - {''root''})"
  "an_strings (annotator_new strings labels sz ortho) = ss_add_all strings label_names"
  "labels_ok (an_labels (annotator_new strings labels sz ortho))"
proof -
  have labels: "an_labels (annotator_new strings labels sz ortho) = fst (dep_labels_new strings)"
    by (simp add: annotator_new_def split: prod.splits)
  show "labels_ok (an_labels (annotator_new strings labels sz ortho))" by (simp only: labels labels_ok_new)
  show "dl_root (an_labels (annotator_new strings labels sz ortho)) = hash_utf8 ''root''"
    by (simp add: labels dep_labels_new_def fst_ss_add)
  show "arc_labels (an_labels (annotator_new strings labels sz ortho)) \<subseteq> hash_utf8 ` (set label_names - {''root''})"
    by (simp add: labels dep_labels_new_def fst_ss_add arc_labels_def label_names_def)
  show "an_strings (annotator_new strings labels sz ortho) = ss_add_all strings label_names"
    by (simp add: annotator_new_def dep_labels_new_def)
qed

lemma label_names_vocabulary:
  "l \<in> set label_names \<Longrightarrow> dep_contains ud_default l \<and> (is_root_dep l \<longleftrightarrow> l = ''root'')"
proof -
  have "list_all (\<lambda>l. dep_contains ud_default l \<and> (is_root_dep l \<longleftrightarrow> l = ''root'')) label_names" by code_simp
  then show "l \<in> set label_names \<Longrightarrow> dep_contains ud_default l \<and> (is_root_dep l \<longleftrightarrow> l = ''root'')"
    by (auto simp: list_all_iff)
qed

section \<open>The parse of a document\<close>

text \<open>Token by token: a token is a root or has a head elsewhere in the document and an arc label.\<close>

definition parsed :: "dep_labels \<Rightarrow> nat \<Rightarrow> arc_eager_state \<Rightarrow> bool" where
  "parsed labels n st \<longleftrightarrow> length (st_heads st) = n \<and> length (st_labels st) = n \<and>
     (\<forall>i < n. reaches_root (up_of (st_heads st)) i \<and>
        (if st_labels st ! i = dl_root labels then st_heads st ! i = -1
         else 0 \<le> st_heads st ! i \<and> st_heads st ! i < int n \<and> st_heads st ! i \<noteq> int i \<and> st_labels st ! i \<in> arc_labels labels))"

lemma parse_document:
  assumes "labels_ok labels" and "length texts = n" and "0 < n" and "n \<le> 2 ^ 31" and "length starts = n"
  obtains st ms roots where
    "parse_sentences pos texts flags labels ortho (partition_sentences starts n) = (st, ms, roots)"
    "parsed labels n st"
proof -
  have tiles: "tiles 0 n (partition_sentences starts n)" using partition_spec [OF assms(5,3)] by simp
  from parse_ranges [OF between_inv_new assms(1) tiles assms(4), of pos texts flags ortho "[]" "[]"]
  obtain st ms where parse:
      "foldl (parse_sentence pos texts flags labels ortho) (state_new n 0, [], []) (partition_sentences starts n) =
        (st, ms, map (\<lambda>(s, e). pick_root pos texts flags s e ortho) (partition_sentences starts n))"
      "between_inv n n st"
      "\<forall>(s, e) \<in> set (partition_sentences starts n).
         range_ok labels s e (pick_root pos texts flags s e ortho) (st_heads st) (st_labels st)"
    by auto
  have "if st_labels st ! i = dl_root labels then st_heads st ! i = -1
      else 0 \<le> st_heads st ! i \<and> st_heads st ! i < int n \<and> st_heads st ! i \<noteq> int i \<and> st_labels st ! i \<in> arc_labels labels"
    if "i < n" for i
  proof -
    from tiles_cover [OF tiles _ that] obtain s e where se: "(s, e) \<in> set (partition_sentences starts n)" "s \<le> i" "i < e"
      by auto
    have "e \<le> n" using tiles_bounds [OF tiles se(1)] by simp
    moreover have "range_ok labels s e (pick_root pos texts flags s e ortho) (st_heads st) (st_labels st)"
      using parse(3) se(1) by blast
    ultimately show ?thesis using se(2,3) unfolding range_ok_def by fastforce
  qed
  then have "parsed labels n st" using parse(2) by (auto simp: parsed_def between_inv_def)
  then show thesis using parse(1) assms(2) by (intro that) (auto simp: parse_sentences_def)
qed

section \<open>The records of a parse pass the gate\<close>

lemma make_record_head:
  assumes "parsed (an_labels an) n st" and "n \<le> 2 ^ 31" and "i < n"
  shows "int i + ar_head (make_record lemmatize an st pos texts i) =
    (if st_labels st ! i = dl_root (an_labels an) then int i else st_heads st ! i)"
  using assms as_i32_small [of i] by (simp add: make_record_def Let_def)

lemma head_up_records:
  assumes parsed: "parsed (an_labels an) n st" and n: "n \<le> 2 ^ 31" and i: "i < n"
  shows "head_up (map (make_record lemmatize an st pos texts) [0..<n]) i = up_of (st_heads st) i"
  using make_record_head [OF parsed n i, of lemmatize pos texts] parsed i
  by (auto simp: head_up_def Let_def up_of_def parsed_def split: if_splits)

lemma reaches_root_cong:
  assumes eq: "\<And>i. i < n \<Longrightarrow> f i = g i" and less: "\<And>i. i < n \<Longrightarrow> f i < (n :: nat)" and i: "i < n" "reaches_root g i"
  shows "reaches_root f i"
proof -
  have "(f ^^ k) i = (g ^^ k) i \<and> (f ^^ k) i < n" for k
    using i(1) eq less by (induction k) (simp, metis comp_apply funpow.simps(2))
  with i(2) eq show ?thesis unfolding reaches_root_def by metis
qed

lemma records_dep:
  assumes an: "an = annotator_new strings labels sz ortho" and fresh: "labels_fresh strings"
    and parsed: "parsed (an_labels an) n st" and i: "i < n"
  obtains l where "l \<in> set label_names" "ar_dep (make_record lemmatize an st pos texts i) = l"
    "l = ''root'' \<longleftrightarrow> st_labels st ! i = dl_root (an_labels an)"
proof -
  have root: "''root'' \<in> set label_names" by (simp add: label_names_def)
  obtain l where l: "l \<in> set label_names" "st_labels st ! i = hash_utf8 l" "l = ''root'' \<longleftrightarrow> st_labels st ! i = dl_root (an_labels an)"
  proof (cases "st_labels st ! i = dl_root (an_labels an)")
    case True
    with that [of "''root''"] root show thesis by (simp add: an annotator_new_labels(1))
  next
    case False
    then have "st_labels st ! i \<in> arc_labels (an_labels an)" using parsed i by (auto simp: parsed_def)
    then obtain l where "l \<in> set label_names" "l \<noteq> ''root''" "st_labels st ! i = hash_utf8 l"
      using annotator_new_labels(2) [of strings labels sz ortho] unfolding an by auto
    with False that show thesis by blast
  qed
  have "ar_dep (make_record lemmatize an st pos texts i) = l"
    using label_text [OF fresh l(1)] by (simp add: make_record_def Let_def l(2) an annotator_new_labels(3))
  with l that show thesis by blast
qed

lemma records_heads_ok:
  assumes an: "an = annotator_new strings labels sz ortho" and fresh: "labels_fresh strings"
    and parsed: "parsed (an_labels an) n st" and n: "n \<le> 2 ^ 31"
  shows "heads_ok (map (make_record lemmatize an st pos texts) [0..<n])"
  unfolding heads_ok_def
proof (intro allI impI)
  fix i assume "i < length (map (make_record lemmatize an st pos texts) [0..<n])"
  then have i: "i < n" by simp
  obtain l where l: "l \<in> set label_names" "ar_dep (make_record lemmatize an st pos texts i) = l"
    "l = ''root'' \<longleftrightarrow> st_labels st ! i = dl_root (an_labels an)" by (rule records_dep [OF an fresh parsed i])
  have "is_root_dep (ar_dep (make_record lemmatize an st pos texts i)) \<longleftrightarrow> st_labels st ! i = dl_root (an_labels an)"
    using label_names_vocabulary [OF l(1)] l by simp
  with make_record_head [OF parsed n i, of lemmatize pos texts] parsed i
  show "0 \<le> int i + ar_head (map (make_record lemmatize an st pos texts) [0..<n] ! i) \<and>
    int i + ar_head (map (make_record lemmatize an st pos texts) [0..<n] ! i) < int (length (map (make_record lemmatize an st pos texts) [0..<n])) \<and>
    is_root_dep (ar_dep (map (make_record lemmatize an st pos texts) [0..<n] ! i)) =
      (ar_head (map (make_record lemmatize an st pos texts) [0..<n] ! i) = 0)"
    by (auto simp: parsed_def split: if_splits)
qed


lemma strip_with_Nil: "strip_with ws [] = []"
proof -
  have "find (\<lambda>w. w \<noteq> [] \<and> take (length w) [] = w) ws = None" by (auto simp: find_None_iff)
  then show ?thesis by (subst strip_with.simps) (simp del: strip_with.simps)
qed

lemma trim_Nil: "trim [] = []"
  by (simp add: trim_def strip_with_Nil del: strip_with.simps)

lemma closed_spans_outside: "list_all (\<lambda>e. e = (Some Outside, [])) es \<Longrightarrow> closed_spans es"
  by (induction es) (auto simp: closed_spans_simps)

lemma records_forest:
  assumes parsed: "parsed (an_labels an) n st" and n: "n \<le> 2 ^ 31" and i: "i < n"
  shows "reaches_root (head_up (map (make_record lemmatize an st pos texts) [0..<n])) i"
proof (rule reaches_root_cong [OF _ _ i])
  show "head_up (map (make_record lemmatize an st pos texts) [0..<n]) j = up_of (st_heads st) j" if "j < n" for j
    by (rule head_up_records [OF parsed n that])
  show "head_up (map (make_record lemmatize an st pos texts) [0..<n]) j < n" if "j < n" for j
    using rec.up_less [of j "map (make_record lemmatize an st pos texts) [0..<n]"] that by simp
  show "reaches_root (up_of (st_heads st)) i" using parsed i by (simp add: parsed_def)
qed

lemma records_spans: "closed_spans (map entity (map (make_record lemmatize an st pos texts) [0..<n]))"
  by (rule closed_spans_outside) (simp add: list_all_iff entity_def make_record_def Let_def trim_Nil classify_def)

lemma records_deps_known:
  assumes "an = annotator_new strings labels sz ortho" and "labels_fresh strings" and "parsed (an_labels an) n st" and "i < n"
  shows "dep_contains ud_default (ar_dep (make_record lemmatize an st pos texts i))"
  using records_dep [OF assms] label_names_vocabulary by metis

text \<open>A whitespace token is one whose flags say whitespace and neither punctuation nor a number.\<close>

definition whitespace_token :: "token \<Rightarrow> bool" where
  "whitespace_token t \<longleftrightarrow> is_space (snd t) \<and> \<not> is_punct (snd t) \<and> \<not> is_digit (snd t)"

lemma first_err_UnknownPos:
  assumes "\<And>x. x \<in> set xs \<Longrightarrow> f x = None \<or> f x = Some e" and "x \<in> set xs" and "f x \<noteq> None"
  shows "first_err f xs = Some e"
  using assms
proof (induction xs)
  case (Cons y ys)
  show ?case
  proof (cases "f y = None")
    case True
    with Cons.prems have "x \<in> set ys" by auto
    with Cons True show ?thesis by simp
  next
    case False
    with Cons.prems(1) [of y] show ?thesis by auto
  qed
qed simp

lemma annotate_doc:
  assumes doc: "doc \<noteq> []" "length doc \<le> 2 ^ 31" and an: "an = annotator_new strings labels sz ortho"
  obtains st pos result where "annotate_with_confidence lc lemmatize an doc = Inr result"
    "parsed (an_labels an) (length doc) st" "length pos = length doc"
    "res_records result = map (make_record lemmatize an st pos (map (\<lambda>t. token_text (fst t)) doc)) [0..<length doc]"
    "\<And>i. i < length doc \<Longrightarrow> (pos ! i \<in> set UPOS \<longleftrightarrow> \<not> whitespace_token (doc ! i)) \<and>
       (whitespace_token (doc ! i) \<longrightarrow> pos ! i = Space)"
proof -
  let ?texts = "map (\<lambda>t. token_text (fst t)) doc" and ?flags = "map snd doc"
  define pos where "pos = tag_tokens lc ?texts ?flags (an_ortho an)"
  have len: "length pos = length doc" by (simp add: pos_def tag_tokens_length)
  have "length (predict (an_sentencizer an) (zip ?texts ?flags)) = length doc" using predict_spec by simp
  from parse_document [OF annotator_new_labels(4) [of strings labels sz ortho] _ _ doc(2) this, of ?texts pos ?flags "an_ortho an"]
  obtain st ms roots where parse:
      "parse_sentences pos ?texts ?flags (an_labels an) (an_ortho an)
         (partition_sentences (predict (an_sentencizer an) (zip ?texts ?flags)) (length doc)) = (st, ms, roots)"
      "parsed (an_labels an) (length doc) st"
    using doc(1) unfolding an by auto
  have tags: "(pos ! i \<in> set UPOS \<longleftrightarrow> \<not> whitespace_token (doc ! i)) \<and> (whitespace_token (doc ! i) \<longrightarrow> pos ! i = Space)"
    if "i < length doc" for i
    using that tag_tokens_tags [of i ?flags lc ?texts "an_ortho an"] by (auto simp: pos_def whitespace_token_def)
  show thesis
    by (rule that [of _ st pos]) (use doc(1) parse len tags in \<open>auto simp: annotate_with_confidence_def Let_def pos_def [symmetric]\<close>)
qed


lemma upos_known_str: "upos_known (upos_str t) \<longleftrightarrow> t \<in> set UPOS"
  using upos_parse_str upos_parse_iff unfolding upos_known_iff by (metis option.inject)

lemma check_vocabulary_record:
  assumes "an = annotator_new strings ud_default sz ortho" and "labels_fresh strings" and "parsed (an_labels an) n st" and "i < n"
  shows "check_vocabulary ud_default (make_record lemmatize an st pos texts i) =
    (if pos ! i \<in> set UPOS then None else Some (UnknownPos (upos_str (pos ! i))))"
proof -
  have "ar_pos (make_record lemmatize an st pos texts i) = upos_str (pos ! i)" by (simp add: make_record_def Let_def)
  then show ?thesis using records_deps_known [OF assms] by (simp add: check_vocabulary_def upos_known_str)
qed

lemma records_gate:
  assumes doc: "doc \<noteq> []" "length doc \<le> 2 ^ 31" and an: "an = annotator_new strings ud_default sz ortho"
    and fresh: "labels_fresh strings" and parsed: "parsed (an_labels an) (length doc) st"
    and tags: "\<And>i. i < length doc \<Longrightarrow> (pos ! i \<in> set UPOS \<longleftrightarrow> \<not> whitespace_token (doc ! i)) \<and>
       (whitespace_token (doc ! i) \<longrightarrow> pos ! i = Space)"
    and records_def: "records = map (make_record lemmatize an st pos (map (\<lambda>t. token_text (fst t)) doc)) [0..<length doc]"
  shows "validate (map fst doc) records ud_default False =
    Some (if list_ex whitespace_token doc then Some (UnknownPos ''space'') else None)"
proof -
  have len: "length records = length (map fst doc)" by (simp add: records_def)
  have texts: "map ar_text records = map token_text (map fst doc)"
    by (rule nth_equalityI) (simp_all add: records_def make_record_def Let_def)
  have vocabulary: "check_vocabulary ud_default (records ! i) =
      (if whitespace_token (doc ! i) then Some (UnknownPos ''space'') else None)" if "i < length doc" for i
    using that tags [OF that] check_vocabulary_record [OF an fresh parsed that] by (auto simp: records_def)
  have heads: "heads_ok records" unfolding records_def by (rule records_heads_ok [OF an fresh parsed doc(2)])
  show ?thesis
  proof (cases "list_ex whitespace_token doc")
    case True
    then obtain i where i: "i < length doc" "whitespace_token (doc ! i)" by (auto simp: list_ex_length)
    have "first_err (check_vocabulary ud_default) records = Some (UnknownPos ''space'')"
    proof (rule first_err_UnknownPos)
      show "records ! i \<in> set records" using i(1) len by simp
      show "check_vocabulary ud_default (records ! i) \<noteq> None" using vocabulary [OF i(1)] i(2) by simp
      fix x assume "x \<in> set records"
      then obtain j where "j < length doc" "x = records ! j" using len by (auto simp: in_set_conv_nth)
      with vocabulary show "check_vocabulary ud_default x = None \<or> check_vocabulary ud_default x = Some (UnknownPos ''space'')" by auto
    qed
    moreover have "first_err (check_text (map fst doc)) (enumerate 0 records) = None" using check_text_all [OF len] texts by blast
    ultimately show ?thesis using doc(1) len True by (simp add: validate_def)
  next
    case False
    then have "first_err (check_vocabulary ud_default) records = None"
      using vocabulary len by (auto simp: first_err_None in_set_conv_nth list_ex_length)
    moreover have "\<forall>i < length records. reaches_root (head_up records) i"
      using records_forest [OF parsed doc(2)] by (simp add: records_def)
    moreover have "closed_spans (map entity records)" unfolding records_def by (rule records_spans)
    ultimately have "annotation_ok (map fst doc) records ud_default False"
      using doc(1) texts heads unfolding annotation_ok_def check_vocabulary_all by simp
    with False show ?thesis by (simp add: validate_spec)
  qed
qed

text \<open>
  The annotator never fails on a nonempty document, and what it builds passes every check of the gate but possibly the
  vocabulary one: a document with a whitespace token is rejected, with the tag of that token.
\<close>

lemma rung_cases:
  assumes "doc \<noteq> []" and "length doc \<le> 2 ^ 31" and "labels_fresh strings"
    and "an = annotator_new strings ud_default sz ortho"
  shows "\<exists>result. annotate_with_confidence lc lemmatize an doc = Inr result \<and>
    arc_eager_rung lc lemmatize an validator_default doc =
      Some (if list_ex whitespace_token doc then Inl (Rejected (UnknownPos ''space'')) else Inr (Some result))"
proof -
  obtain st pos result where res: "annotate_with_confidence lc lemmatize an doc = Inr result"
      "parsed (an_labels an) (length doc) st"
      "res_records result = map (make_record lemmatize an st pos (map (\<lambda>t. token_text (fst t)) doc)) [0..<length doc]"
    and tags: "\<And>i. i < length doc \<Longrightarrow> (pos ! i \<in> set UPOS \<longleftrightarrow> \<not> whitespace_token (doc ! i)) \<and>
       (whitespace_token (doc ! i) \<longrightarrow> pos ! i = Space)"
    by (rule annotate_doc [OF assms(1,2,4), of lc lemmatize]) blast
  from records_gate [OF assms(1,2,4,3) res(2) tags res(3)] res(1) show ?thesis
    by (simp add: arc_eager_rung_def validator_validate_def validator_default_def)
qed

text \<open>
  C4. The rung over an annotator and a gate with the default label set, on a document without whitespace tokens of at most
  \<open>2 ^ 31\<close> tokens, over a string store in which no label's hash is taken by another string: it always returns. An empty
  document gives nothing; every other one gives the annotator's parse, which satisfies all the rules of the gate.
\<close>

theorem rung_exact:
  assumes "length doc \<le> 2 ^ 31" and "labels_fresh strings" and "an = annotator_new strings ud_default sz ortho"
    and "\<not> list_ex whitespace_token doc"
  shows "if doc = [] then arc_eager_rung lc lemmatize an validator_default doc = Some (Inr None)
    else \<exists>result. annotate_with_confidence lc lemmatize an doc = Inr result \<and>
      arc_eager_rung lc lemmatize an validator_default doc = Some (Inr (Some result)) \<and>
      annotation_ok (map fst doc) (res_records result) ud_default False"
proof (cases "doc = []")
  case True
  then show ?thesis by (simp add: arc_eager_rung_def annotate_with_confidence_def)
next
  case False
  from rung_cases [OF this assms(1-3), of lc lemmatize] assms(4) obtain result where
    r: "annotate_with_confidence lc lemmatize an doc = Inr result"
      "arc_eager_rung lc lemmatize an validator_default doc = Some (Inr (Some result))" by auto
  then have "validate (map fst doc) (res_records result) ud_default False = Some None"
    by (simp add: arc_eager_rung_def validator_validate_def validator_default_def split: option.splits)
  with r False show ?thesis by (simp add: validate_spec)
qed

lemma labels_fresh_new: "labels_fresh strings_new"
  using label_hashes(2) by (auto simp: labels_fresh_def list_all_iff ss_get_new)

text \<open>\<open>Go .\<close> is returned, and so is nothing for the empty document.\<close>

theorem rung_exact_witness:
  "(\<exists>result. arc_eager_rung (\<lambda>_. True) (\<lambda>s _. [s])
       (annotator_new strings_new ud_default (sentencizer_with_punct_chars {''.''}) sample_ortho) validator_default
       [(Some ''Go'', 2), (Some ''.'', 32)] = Some (Inr (Some result)) \<and>
     annotation_ok [Some ''Go'', Some ''.''] (res_records result) ud_default False) \<and>
   arc_eager_rung (\<lambda>_. True) (\<lambda>s _. [s])
       (annotator_new strings_new ud_default (sentencizer_with_punct_chars {''.''}) sample_ortho) validator_default [] = Some (Inr None)"
proof -
  have flags: "\<not> list_ex whitespace_token [(Some ''Go'', 2), (Some ''.'', 32)]" "\<not> list_ex whitespace_token []"
    by (simp_all add: whitespace_token_def is_space_def is_punct_def is_digit_def flags_check_def IsSpace_def IsPunct_def IsDigit_def)
  note rung = rung_exact [OF _ labels_fresh_new refl, of _ "\<lambda>_. True" "\<lambda>s _. [s]" "sentencizer_with_punct_chars {''.''}" sample_ortho]
  from rung [OF _ flags(1)] rung [OF _ flags(2)] show ?thesis by auto
qed

text \<open>\<open>Go\<close> before a tab is rejected.\<close>

lemma rung_rejects_tab:
  "arc_eager_rung (\<lambda>_. True) (\<lambda>s _. [s])
       (annotator_new strings_new ud_default (sentencizer_with_punct_chars {''.''}) sample_ortho) validator_default
       [(Some ''Go'', 2), (Some [CHR 0x09], 64)] = Some (Inl (Rejected (UnknownPos ''space'')))"
proof -
  have flags: "list_ex whitespace_token [(Some ''Go'', 2), (Some [CHR 0x09], 64)] = True"
    by (simp add: whitespace_token_def is_space_def is_punct_def is_digit_def flags_check_def IsSpace_def IsPunct_def IsDigit_def)
  from rung_cases [OF _ _ labels_fresh_new refl, of "[(Some ''Go'', 2), (Some [CHR 0x09], 64)]" "\<lambda>_. True" "\<lambda>s _. [s]"
      "sentencizer_with_punct_chars {''.''}" sample_ortho] show ?thesis unfolding flags by auto
qed

end
