(* ===== verification/Blob.thy ===== *)
theory Blob
  imports Bytes
begin

text \<open>
  The blob format shared by the compiled language tables: \<open>src/src/common-core/src/blob_spec.rs\<close>.

  A blob is the string of its bytes. Reads past the end return \<open>None\<close>, as in the code; the advancing reads
  return the cursor too, because a failed read may have moved it. \<open>usize\<close> is 64 bits wide, so sums of offsets
  that fit in a buffer do not wrap and are computed on \<open>nat\<close>; the checksum crates are function arguments.
\<close>

section \<open>Slices and integers\<close>

definition byte_range :: "string \<Rightarrow> nat \<Rightarrow> nat \<Rightarrow> string option" where
  "byte_range b lo hi = (if lo \<le> hi \<and> hi \<le> length b then Some (take (hi - lo) (drop lo b)) else None)"

definition rd_u16 :: "string \<Rightarrow> nat \<Rightarrow> 16 word option" where
  "rd_u16 b off = map_option from_le_str (byte_range b off (off + 2))"

definition rd_u32 :: "string \<Rightarrow> nat \<Rightarrow> 32 word option" where
  "rd_u32 b off = map_option from_le_str (byte_range b off (off + 4))"

definition rd_u64 :: "string \<Rightarrow> nat \<Rightarrow> 64 word option" where
  "rd_u64 b off = map_option from_le_str (byte_range b off (off + 8))"

definition blob_slice :: "string \<Rightarrow> nat \<Rightarrow> nat \<Rightarrow> string option" where
  "blob_slice b off len = byte_range b off (off + len)"

section \<open>UTF-8\<close>

text \<open>\<open>std::str::from_utf8\<close>: the well-formed byte sequences of the Unicode standard.\<close>

definition in_bytes :: "nat \<Rightarrow> nat \<Rightarrow> char \<Rightarrow> bool" where
  "in_bytes lo hi c \<longleftrightarrow> lo \<le> of_char c \<and> of_char c \<le> hi"

fun utf8_valid :: "string \<Rightarrow> bool" where
  "utf8_valid [] = True"
| "utf8_valid (a # s) =
     (if in_bytes 0 0x7F a then utf8_valid s
      else case s of
        [] \<Rightarrow> False
      | b # s1 \<Rightarrow>
          if in_bytes 0xC2 0xDF a then in_bytes 0x80 0xBF b \<and> utf8_valid s1
          else case s1 of
            [] \<Rightarrow> False
          | c # s2 \<Rightarrow>
              if in_bytes 0xE0 0xE0 a then in_bytes 0xA0 0xBF b \<and> in_bytes 0x80 0xBF c \<and> utf8_valid s2
              else if in_bytes 0xE1 0xEC a \<or> in_bytes 0xEE 0xEF a then
                in_bytes 0x80 0xBF b \<and> in_bytes 0x80 0xBF c \<and> utf8_valid s2
              else if in_bytes 0xED 0xED a then in_bytes 0x80 0x9F b \<and> in_bytes 0x80 0xBF c \<and> utf8_valid s2
              else case s2 of
                [] \<Rightarrow> False
              | d # s3 \<Rightarrow>
                  if in_bytes 0xF0 0xF0 a then
                    in_bytes 0x90 0xBF b \<and> in_bytes 0x80 0xBF c \<and> in_bytes 0x80 0xBF d \<and> utf8_valid s3
                  else if in_bytes 0xF1 0xF3 a then
                    in_bytes 0x80 0xBF b \<and> in_bytes 0x80 0xBF c \<and> in_bytes 0x80 0xBF d \<and> utf8_valid s3
                  else if in_bytes 0xF4 0xF4 a then
                    in_bytes 0x80 0x8F b \<and> in_bytes 0x80 0xBF c \<and> in_bytes 0x80 0xBF d \<and> utf8_valid s3
                  else False)"

definition from_utf8 :: "string \<Rightarrow> string option" where
  "from_utf8 s = (if utf8_valid s then Some s else None)"

section \<open>Headers\<close>

definition LEMMA_MAGIC :: "32 word" where
  "LEMMA_MAGIC = 0x534C4D32"

definition YAGO_MAGIC :: "32 word" where
  "YAGO_MAGIC = 0x59534D31"

definition LEGACY_LEMMA_MAGIC :: "32 word" where
  "LEGACY_LEMMA_MAGIC = 0x534C4D31"

definition HEADER_VERSION :: "16 word" where
  "HEADER_VERSION = 1"

definition HEADER_LEN :: nat where
  "HEADER_LEN = 44"

record blob_header =
  bh_magic :: "32 word"
  bh_header_version :: "16 word"
  bh_section_version :: "16 word"
  bh_section_hash :: "64 word"
  bh_count :: "32 word"
  bh_section_off :: "32 word"
  bh_crc32 :: "32 word"
  bh_sha256 :: string

definition is_lemma :: "blob_header \<Rightarrow> bool" where
  "is_lemma h \<longleftrightarrow> bh_magic h = LEMMA_MAGIC"

definition is_yago :: "blob_header \<Rightarrow> bool" where
  "is_yago h \<longleftrightarrow> bh_magic h = YAGO_MAGIC"

definition is_legacy_sml1 :: "32 word \<Rightarrow> bool" where
  "is_legacy_sml1 magic \<longleftrightarrow> magic = LEGACY_LEMMA_MAGIC"

datatype blob_error =
  Truncated | BadMagic "32 word" | UnsupportedVersion "16 word" | CrcMismatch | ShaMismatch | OutOfRange

definition parse_header :: "string \<Rightarrow> blob_error + blob_header" where
  "parse_header data =
     (if length data < HEADER_LEN then Inl Truncated
      else case rd_u32 data 0 of None \<Rightarrow> Inl Truncated
      | Some magic \<Rightarrow>
      if magic \<noteq> LEMMA_MAGIC \<and> magic \<noteq> YAGO_MAGIC \<and> magic \<noteq> LEGACY_LEMMA_MAGIC then Inl (BadMagic magic)
      else case rd_u16 data 4 of None \<Rightarrow> Inl Truncated
      | Some header_version \<Rightarrow>
      if header_version \<noteq> HEADER_VERSION then Inl (UnsupportedVersion header_version)
      else case (rd_u16 data 6, rd_u64 data 8, rd_u32 data 16, rd_u32 data 20, rd_u32 data 24, byte_range data 28 44) of
        (Some section_version, Some section_hash, Some cnt, Some section_off, Some crc32, Some sha256) \<Rightarrow>
          Inr \<lparr>bh_magic = magic, bh_header_version = header_version, bh_section_version = section_version,
               bh_section_hash = section_hash, bh_count = cnt, bh_section_off = section_off,
               bh_crc32 = crc32, bh_sha256 = sha256\<rparr>
      | _ \<Rightarrow> Inl Truncated)"

definition validate_crc :: "(string \<Rightarrow> 32 word) \<Rightarrow> string \<Rightarrow> 32 word \<Rightarrow> blob_error option" where
  "validate_crc crc32 payload expected = (if crc32 payload \<noteq> expected then Some CrcMismatch else None)"

definition validate_sha :: "(string \<Rightarrow> string) \<Rightarrow> string \<Rightarrow> string \<Rightarrow> blob_error option" where
  "validate_sha sha256 payload expected = (if take 16 (sha256 payload) \<noteq> expected then Some ShaMismatch else None)"

section \<open>Cursors\<close>

record blob_cursor =
  bc_data :: string
  bc_offset :: nat

definition cursor_new :: "string \<Rightarrow> blob_cursor" where
  "cursor_new data = \<lparr>bc_data = data, bc_offset = 0\<rparr>"

definition cursor_with_offset :: "string \<Rightarrow> nat \<Rightarrow> blob_cursor" where
  "cursor_with_offset data off = \<lparr>bc_data = data, bc_offset = off\<rparr>"

definition cursor_remaining :: "blob_cursor \<Rightarrow> nat" where
  "cursor_remaining c = length (bc_data c) - bc_offset c"

definition peek_u16 :: "blob_cursor \<Rightarrow> nat \<Rightarrow> 16 word option" where
  "peek_u16 c off = rd_u16 (bc_data c) off"

definition peek_u32 :: "blob_cursor \<Rightarrow> nat \<Rightarrow> 32 word option" where
  "peek_u32 c off = rd_u32 (bc_data c) off"

definition cursor_slice :: "blob_cursor \<Rightarrow> nat \<Rightarrow> nat \<Rightarrow> string option" where
  "cursor_slice c off len = blob_slice (bc_data c) off len"

definition u16_le :: "blob_cursor \<Rightarrow> 16 word option \<times> blob_cursor" where
  "u16_le c = (case rd_u16 (bc_data c) (bc_offset c) of
     None \<Rightarrow> (None, c) | Some v \<Rightarrow> (Some v, c\<lparr>bc_offset := bc_offset c + 2\<rparr>))"

definition u32_le :: "blob_cursor \<Rightarrow> 32 word option \<times> blob_cursor" where
  "u32_le c = (case rd_u32 (bc_data c) (bc_offset c) of
     None \<Rightarrow> (None, c) | Some v \<Rightarrow> (Some v, c\<lparr>bc_offset := bc_offset c + 4\<rparr>))"

definition usize_le :: "blob_cursor \<Rightarrow> nat option \<times> blob_cursor" where
  "usize_le c = (case u32_le c of (v, c') \<Rightarrow> (map_option unat v, c'))"

definition expect_magic :: "32 word \<Rightarrow> blob_cursor \<Rightarrow> blob_error option \<times> blob_cursor" where
  "expect_magic magic c =
     (case u32_le c of
        (None, c') \<Rightarrow> (Some Truncated, c')
      | (Some got, c') \<Rightarrow> (if got \<noteq> magic then Some (BadMagic got) else None, c'))"

definition sized_str :: "blob_cursor \<Rightarrow> string option \<times> blob_cursor" where
  "sized_str c =
     (if bc_offset c < length (bc_data c) then
        let n = of_char (bc_data c ! bc_offset c); c1 = c\<lparr>bc_offset := bc_offset c + 1\<rparr>
        in case byte_range (bc_data c) (bc_offset c1) (bc_offset c1 + n) of
             None \<Rightarrow> (None, c1)
           | Some s \<Rightarrow> (from_utf8 s, c1\<lparr>bc_offset := bc_offset c1 + n\<rparr>)
      else (None, c))"

definition cursor_take :: "nat \<Rightarrow> blob_cursor \<Rightarrow> string option \<times> blob_cursor" where
  "cursor_take len c =
     (case byte_range (bc_data c) (bc_offset c) (bc_offset c + len) of
        None \<Rightarrow> (None, c)
      | Some s \<Rightarrow> (Some s, c\<lparr>bc_offset := bc_offset c + len\<rparr>))"

section \<open>Reading back what was written\<close>

named_theorems blob_reads \<open>reads at the offset where a value was written\<close>

lemma byte_range_append [blob_reads]:
  "lo = length xs \<Longrightarrow> hi = lo + length ys \<Longrightarrow> byte_range (xs @ ys @ zs) lo hi = Some ys"
  by (simp add: byte_range_def)

lemma byte_range_Some: "byte_range b lo hi = Some s \<longleftrightarrow> lo \<le> hi \<and> hi \<le> length b \<and> s = take (hi - lo) (drop lo b)"
  by (auto simp: byte_range_def)

lemma byte_range_split:
  assumes "byte_range b lo hi = Some s"
  shows "b = take lo b @ s @ drop hi b" and "length s = hi - lo" and "length (take lo b) = lo"
proof -
  have s: "lo \<le> hi" "hi \<le> length b" "s = take (hi - lo) (drop lo b)" using assms by (simp_all add: byte_range_Some)
  have "drop hi b = drop (hi - lo) (drop lo b)" using s by simp
  then show "b = take lo b @ s @ drop hi b" using s by (metis append_take_drop_id)
  show "length s = hi - lo" "length (take lo b) = lo" using s by auto
qed

lemma rd_u16_at [blob_reads]: "off = length xs \<Longrightarrow> rd_u16 (xs @ le_str 2 w @ zs) off = Some w"
  by (simp add: rd_u16_def byte_range_append from_le_str_le_str)

lemma rd_u32_at [blob_reads]: "off = length xs \<Longrightarrow> rd_u32 (xs @ le_str 4 w @ zs) off = Some w"
  by (simp add: rd_u32_def byte_range_append from_le_str_le_str)

lemma rd_u64_at [blob_reads]: "off = length xs \<Longrightarrow> rd_u64 (xs @ le_str 8 w @ zs) off = Some w"
  by (simp add: rd_u64_def byte_range_append from_le_str_le_str)

lemma blob_slice_at [blob_reads]: "off = length xs \<Longrightarrow> len = length ys \<Longrightarrow> blob_slice (xs @ ys @ zs) off len = Some ys"
  by (simp add: blob_slice_def byte_range_append)

text \<open>Advancing reads on a cursor whose unread bytes start with the value.\<close>

definition cursor_rest :: "blob_cursor \<Rightarrow> string" where
  "cursor_rest c = drop (bc_offset c) (bc_data c)"

definition cursor_ok :: "blob_cursor \<Rightarrow> bool" where
  "cursor_ok c \<longleftrightarrow> bc_offset c \<le> length (bc_data c)"

definition advance :: "nat \<Rightarrow> blob_cursor \<Rightarrow> blob_cursor" where
  "advance n c = c\<lparr>bc_offset := bc_offset c + n\<rparr>"

lemma cursor_rest_advance [simp]: "cursor_rest (advance n c) = drop n (cursor_rest c)"
  by (simp add: cursor_rest_def advance_def add.commute)

lemma cursor_ok_advance: "cursor_rest c = s @ r \<Longrightarrow> cursor_ok c \<Longrightarrow> cursor_ok (advance (length s) c)"
  unfolding cursor_ok_def cursor_rest_def advance_def
  by (drule arg_cong [where f = length]) simp

lemma advance_data [simp]: "bc_data (advance n c) = bc_data c" "bc_offset (advance n c) = bc_offset c + n"
  by (simp_all add: advance_def)

lemma cursor_at:
  "n = length xs \<Longrightarrow> cursor_rest (cursor_with_offset (xs @ ys) n) = ys"
  "n = length xs \<Longrightarrow> cursor_ok (cursor_with_offset (xs @ ys) n)"
  by (simp_all add: cursor_rest_def cursor_ok_def cursor_with_offset_def)

lemma advance_0 [simp]: "advance 0 c = c"
  by (simp add: advance_def)

lemma advance_advance [simp]: "advance m (advance n c) = advance (n + m) c"
  by (simp add: advance_def add.assoc)

lemma byte_range_rest:
  "cursor_ok c \<Longrightarrow> byte_range (bc_data c) (bc_offset c) (bc_offset c + n) = Some s \<longleftrightarrow>
     (\<exists>r. cursor_rest c = s @ r) \<and> length s = n"
proof
  assume "cursor_ok c" and r: "byte_range (bc_data c) (bc_offset c) (bc_offset c + n) = Some s"
  then have s: "s = take n (cursor_rest c)" "bc_offset c + n \<le> length (bc_data c)"
    by (simp_all add: byte_range_Some cursor_rest_def)
  then show "(\<exists>r. cursor_rest c = s @ r) \<and> length s = n"
    by (metis append_take_drop_id byte_range_split(2) r add_diff_cancel_left')
next
  assume ok: "cursor_ok c" and "(\<exists>r. cursor_rest c = s @ r) \<and> length s = n"
  then obtain r where r: "cursor_rest c = s @ r" "length s = n" by blast
  then have "length (bc_data c) - bc_offset c = n + length r" by (metis cursor_rest_def length_append length_drop)
  with ok r show "byte_range (bc_data c) (bc_offset c) (bc_offset c + n) = Some s"
    by (simp add: byte_range_Some cursor_rest_def cursor_ok_def)
qed

lemma u32_le_iff:
  assumes "cursor_ok c"
  shows "u32_le c = (Some v, c') \<longleftrightarrow> (\<exists>r. cursor_rest c = le_str 4 v @ r) \<and> c' = advance 4 c"
proof
  assume "u32_le c = (Some v, c')"
  then obtain s where s: "byte_range (bc_data c) (bc_offset c) (bc_offset c + 4) = Some s" "v = from_le_str s" "c' = advance 4 c"
    by (auto simp: u32_le_def rd_u32_def advance_def split: option.splits)
  then have "length s = 4" "\<exists>r. cursor_rest c = s @ r" using assms by (simp_all add: byte_range_rest)
  with s show "(\<exists>r. cursor_rest c = le_str 4 v @ r) \<and> c' = advance 4 c" by (simp add: le_str_from_le_str)
next
  assume r: "(\<exists>r. cursor_rest c = le_str 4 v @ r) \<and> c' = advance 4 c"
  then have "byte_range (bc_data c) (bc_offset c) (bc_offset c + 4) = Some (le_str 4 v)"
    using assms by (simp add: byte_range_rest)
  with r show "u32_le c = (Some v, c')" by (simp add: u32_le_def rd_u32_def advance_def from_le_str_le_str)
qed

lemma cursor_take_iff:
  "cursor_ok c \<Longrightarrow>
   cursor_take n c = (Some s, c') \<longleftrightarrow> (\<exists>r. cursor_rest c = s @ r) \<and> length s = n \<and> c' = advance n c"
  using byte_range_rest [of c n s] by (auto simp: cursor_take_def advance_def split: option.splits)

section \<open>Fields and their readers\<close>

text \<open>One round of a loop that pushes what a field's reader returns.\<close>

definition push_field ::
    "('w \<Rightarrow> blob_cursor \<Rightarrow> 'e + 'a \<times> blob_cursor) \<Rightarrow> 'a list \<times> blob_cursor \<Rightarrow> 'w \<Rightarrow> 'e + 'a list \<times> blob_cursor" where
  "push_field rd st what =
     (case st of (xs, c) \<Rightarrow> (case rd what c of Inl e \<Rightarrow> Inl e | Inr (x, c') \<Rightarrow> Inr (xs @ [x], c')))"

lemma push_field_Inr: "rd what c = Inr (x, c') \<Longrightarrow> push_field rd (xs, c) what = Inr (xs @ [x], c')"
  by (simp add: push_field_def)

locale field_codec =
  fixes rd :: "'w \<Rightarrow> blob_cursor \<Rightarrow> 'e + 'a \<times> blob_cursor"
    and enc :: "'a \<Rightarrow> string"
    and ok :: "'a \<Rightarrow> bool"
  assumes rd_iff: "cursor_ok c \<Longrightarrow>
    rd what c = Inr (x, c') \<longleftrightarrow> ok x \<and> (\<exists>r. cursor_rest c = enc x @ r) \<and> c' = advance (length (enc x)) c"
begin

lemma rd_all_iff:
  assumes "cursor_ok c"
  shows "fold_err (push_field rd) (xs, c) whats = Inr (ys, c') \<longleftrightarrow>
    (\<exists>zs. ys = xs @ zs \<and> length zs = length whats \<and> list_all ok zs \<and>
       (\<exists>r. cursor_rest c = concat (map enc zs) @ r) \<and> c' = advance (length (concat (map enc zs))) c)"
  using assms
proof (induction whats arbitrary: xs c)
  case Nil
  then show ?case by auto
next
  case (Cons what whats)
  show ?case
  proof
    assume "fold_err (push_field rd) (xs, c) (what # whats) = Inr (ys, c')"
    then obtain x c1 where x: "rd what c = Inr (x, c1)"
      and rest: "fold_err (push_field rd) (xs @ [x], c1) whats = Inr (ys, c')"
      by (auto simp: push_field_def split: sum.splits)
    from x Cons.prems obtain r where r: "ok x" "cursor_rest c = enc x @ r" "c1 = advance (length (enc x)) c"
      by (auto simp: rd_iff)
    then have "cursor_ok c1" using Cons.prems cursor_ok_advance by simp
    from Cons.IH [OF this] rest r obtain zs r' where "ys = xs @ x # zs" "length zs = length whats" "list_all ok zs"
      "r = concat (map enc zs) @ r'" "c' = advance (length (concat (map enc zs))) (advance (length (enc x)) c)" by auto
    with r show "\<exists>zs. ys = xs @ zs \<and> length zs = length (what # whats) \<and> list_all ok zs \<and>
       (\<exists>r. cursor_rest c = concat (map enc zs) @ r) \<and> c' = advance (length (concat (map enc zs))) c"
      by (intro exI [of _ "x # zs"]) auto
  next
    assume "\<exists>zs. ys = xs @ zs \<and> length zs = length (what # whats) \<and> list_all ok zs \<and>
       (\<exists>r. cursor_rest c = concat (map enc zs) @ r) \<and> c' = advance (length (concat (map enc zs))) c"
    then obtain zs r where zs: "ys = xs @ zs" "length zs = length (what # whats)" "list_all ok zs"
      "cursor_rest c = concat (map enc zs) @ r" "c' = advance (length (concat (map enc zs))) c" by blast
    then obtain x ws where x: "zs = x # ws" by (cases zs) auto
    with zs Cons.prems have "rd what c = Inr (x, advance (length (enc x)) c)" by (auto simp: rd_iff)
    moreover have "cursor_ok (advance (length (enc x)) c)" using cursor_ok_advance Cons.prems x zs(4) by simp
    then have "fold_err (push_field rd) (xs @ [x], advance (length (enc x)) c) whats = Inr (ys, c')"
      using zs x by (subst Cons.IH) auto
    ultimately show "fold_err (push_field rd) (xs, c) (what # whats) = Inr (ys, c')" by (simp add: push_field_def)
  qed
qed

end


section \<open>UTF-8 and separators\<close>

definition NUL :: char where
  "NUL = char_of (0 :: nat)"

lemma in_bytes_NUL [simp]: "in_bytes lo hi NUL \<longleftrightarrow> lo = 0"
  by (simp add: in_bytes_def NUL_def)

declare utf8_valid.simps(2) [simp del]

lemma utf8_valid_NUL: "utf8_valid (xs @ NUL # ys) \<longleftrightarrow> utf8_valid xs \<and> utf8_valid ys"
proof (induction xs rule: measure_induct_rule [of length])
  case (less xs)
  show ?case
  proof (cases xs)
    case Nil
    then show ?thesis by (simp add: utf8_valid.simps(2) [of NUL])
  next
    case (Cons a s)
    have "utf8_valid (ws @ NUL # ys) \<longleftrightarrow> utf8_valid ws \<and> utf8_valid ys" if "length ws \<le> length s" for ws
      using less Cons that by simp
    note IH = this [of s] this [of "tl s"] this [of "tl (tl s)"] this [of "tl (tl (tl s))"]
    show ?thesis unfolding Cons using IH
      by (cases s; cases "tl s"; cases "tl (tl s)"; simp add: utf8_valid.simps(2) [of a] split: list.split; blast)
  qed
qed

lemma utf8_valid_terminated: "utf8_valid (terminated NUL ws) \<longleftrightarrow> (\<forall>w \<in> set ws. utf8_valid w)"
  by (induction ws) (auto simp: utf8_valid_NUL)

end
