(* ===== verification/OrthoBlob.thy ===== *)
theory OrthoBlob
  imports Ortho Blob
begin

text \<open>
  The orthography blob: its loader \<open>TaggerOrtho::from_bytes\<close> in \<open>src/src/spacy-rs/src/ortho.rs\<close> and the encoder
  of \<open>src/src/spacy-rs/build.rs\<close> that writes it. The fields of the format interpret the locale \<open>field_codec\<close>.
  Failures keep what their texts render.
\<close>

section \<open>Loader\<close>

definition BLOB_MAGIC_SOR1 :: "32 word" where
  "BLOB_MAGIC_SOR1 = 0x534F5231"

definition BLOB_VERSION_SOR1 :: "16 word" where
  "BLOB_VERSION_SOR1 = 1"

datatype ortho_error =
  TruncatedMagic | BadOrthoMagic "32 word" | TruncatedVersion | UnsupportedOrtho "16 word"
| TruncatedCount string | TruncatedLength string | EmptyList string | TruncatedBody string
| NotUtf8 string | FramingDrift string | EmptyEntry string | BadScalar string | TrailingBytes

definition split_list :: "string \<Rightarrow> nat \<Rightarrow> string \<Rightarrow> ortho_error + string list" where
  "split_list body cnt what =
     (if \<not> utf8_valid body then Inl (NotUtf8 what)
      else let parts = split_on NUL body
           in if length parts \<noteq> cnt + 1 \<or> parts ! cnt \<noteq> [] then Inl (FramingDrift what)
              else let items = take cnt parts
                   in if list_ex (\<lambda>w. w = []) items then Inl (EmptyEntry what) else Inr items)"

definition read_list :: "string \<Rightarrow> blob_cursor \<Rightarrow> ortho_error + string list \<times> blob_cursor" where
  "read_list what c =
     (case u32_le c of
        (None, _) \<Rightarrow> Inl (TruncatedCount what)
      | (Some cnt, c1) \<Rightarrow>
          (case u32_le c1 of
             (None, _) \<Rightarrow> Inl (TruncatedLength what)
           | (Some len, c2) \<Rightarrow>
               if unat cnt = 0 then Inl (EmptyList what)
               else case cursor_take (unat len) c2 of
                      (None, _) \<Rightarrow> Inl (TruncatedBody what)
                    | (Some body, c3) \<Rightarrow>
                        (case split_list body (unat cnt) what of Inl e \<Rightarrow> Inl e | Inr items \<Rightarrow> Inr (items, c3))))"

definition read_scalar :: "string \<Rightarrow> blob_cursor \<Rightarrow> ortho_error + string \<times> blob_cursor" where
  "read_scalar what c =
     (case u32_le c of
        (None, _) \<Rightarrow> Inl (TruncatedLength what)
      | (Some len, c1) \<Rightarrow>
          (case cursor_take (unat len) c1 of
             (None, _) \<Rightarrow> Inl (TruncatedBody what)
           | (Some body, c2) \<Rightarrow>
               if \<not> utf8_valid body then Inl (NotUtf8 what)
               else if body = [] \<or> NUL \<in> set body then Inl (BadScalar what)
               else Inr (body, c2)))"

definition ortho_from_bytes :: "string \<Rightarrow> ortho_error + tagger_ortho" where
  "ortho_from_bytes data =
     (case peek_u32 (cursor_new data) 0 of
        None \<Rightarrow> Inl TruncatedMagic
      | Some magic \<Rightarrow>
          if magic \<noteq> BLOB_MAGIC_SOR1 then Inl (BadOrthoMagic magic)
          else case peek_u16 (cursor_new data) 4 of
            None \<Rightarrow> Inl TruncatedVersion
          | Some version \<Rightarrow>
              if version \<noteq> BLOB_VERSION_SOR1 then Inl (UnsupportedOrtho version)
              else case fold_err (push_field read_list) ([], cursor_with_offset data 6)
                     [''trailing'', ''boundary'', ''bare_follow''] of
                Inl e \<Rightarrow> Inl e
              | Inr (ls, c) \<Rightarrow>
                  (case fold_err (push_field read_scalar) ([], c)
                          [''plural_s'', ''manner_ly'', ''past_ed'', ''part_ing'', ''comma''] of
                     Inl e \<Rightarrow> Inl e
                   | Inr (scalars, c') \<Rightarrow>
                       if bc_offset c' \<noteq> length data then Inl TrailingBytes
                       else Inr \<lparr>to_trailing = ls ! 0, to_boundary = ls ! 1, to_bare_follow = ls ! 2,
                                 to_plural_s = scalars ! 0, to_manner_ly = scalars ! 1, to_past_ed = scalars ! 2,
                                 to_part_ing = scalars ! 3, to_comma = scalars ! 4\<rparr>))"

section \<open>Encoder\<close>

text \<open>The assertions of the build script panic, which is \<open>None\<close>.\<close>

definition encode_list :: "string list \<Rightarrow> string" where
  "encode_list items =
     (let body = terminated NUL items
      in le_str 4 (of_nat (length items) :: 32 word) @ le_str 4 (of_nat (length body) :: 32 word) @ body)"

definition encode_scalar :: "string \<Rightarrow> string" where
  "encode_scalar s = le_str 4 (of_nat (length s) :: 32 word) @ s"

definition entry_ok :: "string \<Rightarrow> bool" where
  "entry_ok w \<longleftrightarrow> w \<noteq> [] \<and> NUL \<notin> set w"

definition ortho_lists :: "tagger_ortho \<Rightarrow> string list list" where
  "ortho_lists t = [to_trailing t, to_boundary t, to_bare_follow t]"

definition ortho_scalars :: "tagger_ortho \<Rightarrow> string list" where
  "ortho_scalars t = [to_plural_s t, to_manner_ly t, to_past_ed t, to_part_ing t, to_comma t]"

definition ortho_build :: "tagger_ortho \<Rightarrow> string option" where
  "ortho_build t =
     (if list_all (\<lambda>items. items \<noteq> [] \<and> list_all entry_ok items) (ortho_lists t) \<and> list_all entry_ok (ortho_scalars t)
      then Some (le_str 4 BLOB_MAGIC_SOR1 @ le_str 2 BLOB_VERSION_SOR1 @
                 concat (map encode_list (ortho_lists t)) @ concat (map encode_scalar (ortho_scalars t)))
      else None)"

section \<open>Exactness\<close>

definition list_ok :: "string list \<Rightarrow> bool" where
  "list_ok items \<longleftrightarrow>
     items \<noteq> [] \<and> list_all (\<lambda>w. entry_ok w \<and> utf8_valid w) items \<and> length (terminated NUL items) < 2 ^ 32"

definition scalar_ok :: "string \<Rightarrow> bool" where
  "scalar_ok s \<longleftrightarrow> entry_ok s \<and> utf8_valid s \<and> length s < 2 ^ 32"

lemma split_list_iff:
  "split_list body cnt what = Inr items \<longleftrightarrow>
     cnt = length items \<and> body = terminated NUL items \<and> list_all (\<lambda>w. entry_ok w \<and> utf8_valid w) items"
proof
  assume r: "split_list body cnt what = Inr items"
  let ?parts = "split_on NUL body"
  from r have u: "utf8_valid body" and len: "length ?parts = cnt + 1" and last: "?parts ! cnt = []"
    and items: "items = take cnt ?parts" and ne: "\<not> list_ex (\<lambda>w. w = []) items"
    by (auto simp: split_list_def Let_def split: if_splits)
  have "take (Suc cnt) ?parts = take cnt ?parts @ [?parts ! cnt]" by (rule take_Suc_conv_app_nth) (simp add: len)
  then have "?parts = items @ [[]]" using len last items by simp
  then have "body = terminated NUL items \<and> (\<forall>w \<in> set items. NUL \<notin> set w)" by (simp add: split_on_terminated_iff)
  moreover have "cnt = length items" using len items by simp
  ultimately show "cnt = length items \<and> body = terminated NUL items \<and> list_all (\<lambda>w. entry_ok w \<and> utf8_valid w) items"
    using u ne by (auto simp: list_all_iff list_ex_iff entry_ok_def utf8_valid_terminated)
next
  assume r: "cnt = length items \<and> body = terminated NUL items \<and> list_all (\<lambda>w. entry_ok w \<and> utf8_valid w) items"
  then have "split_on NUL body = items @ [[]]" by (auto simp: split_on_terminated_iff list_all_iff entry_ok_def)
  with r show "split_list body cnt what = Inr items"
    by (auto simp: split_list_def list_ex_iff list_all_iff entry_ok_def utf8_valid_terminated nth_append)
qed

lemma length_terminated: "length ws \<le> length (terminated c ws)"
  by (induction ws) auto

lemma read_list_iff:
  assumes ok: "cursor_ok c"
  shows "read_list what c = Inr (items, c') \<longleftrightarrow>
    list_ok items \<and> (\<exists>r. cursor_rest c = encode_list items @ r) \<and> c' = advance (length (encode_list items)) c"
proof
  assume r: "read_list what c = Inr (items, c')"
  then obtain cnt c1 len c2 body where reads: "u32_le c = (Some cnt, c1)" "u32_le c1 = (Some len, c2)"
      "cursor_take (unat len) c2 = (Some body, c')"
    and cnt: "unat cnt \<noteq> 0" and items: "split_list body (unat cnt) what = Inr items"
    by (auto simp: read_list_def split: prod.splits option.splits if_splits sum.splits)
  from reads(1) ok obtain r1 where r1: "cursor_rest c = le_str 4 cnt @ r1" "c1 = advance 4 c" by (auto simp: u32_le_iff)
  with ok have ok1: "cursor_ok c1" using cursor_ok_advance [of c "le_str 4 cnt" r1] by simp
  from reads(2) ok1 r1 obtain r2 where r2: "r1 = le_str 4 len @ r2" "c2 = advance 4 c1" by (auto simp: u32_le_iff)
  with ok1 r1 have ok2: "cursor_ok c2" using cursor_ok_advance [of c1 "le_str 4 len" r2] by simp
  from reads(3) ok2 r1 r2 obtain r3 where r3: "r2 = body @ r3" "length body = unat len" "c' = advance (unat len) c2"
    by (auto simp: cursor_take_iff)
  from items have it: "unat cnt = length items" "body = terminated NUL items"
      "list_all (\<lambda>w. entry_ok w \<and> utf8_valid w) items" by (simp_all add: split_list_iff)
  have enc: "encode_list items = le_str 4 cnt @ le_str 4 len @ body"
    using it r3(2) by (simp add: encode_list_def flip: it(1))
  have "list_ok items" using it cnt r3(2) unat_less_u32 [of len] by (auto simp: list_ok_def)
  then show "list_ok items \<and> (\<exists>r. cursor_rest c = encode_list items @ r) \<and> c' = advance (length (encode_list items)) c"
    using r1 r2 r3 by (simp add: enc add.commute)
next
  assume "list_ok items \<and> (\<exists>r. cursor_rest c = encode_list items @ r) \<and> c' = advance (length (encode_list items)) c"
  then obtain r where lo: "list_ok items" and r: "cursor_rest c = encode_list items @ r"
    and c': "c' = advance (length (encode_list items)) c" by blast
  let ?cnt = "of_nat (length items) :: 32 word" and ?body = "terminated NUL items"
  let ?len = "of_nat (length ?body) :: 32 word"
  have small: "length ?body < 2 ^ 32" "length items < 2 ^ 32" "items \<noteq> []"
    using lo length_terminated [of items NUL] by (auto simp: list_ok_def)
  have "u32_le c = (Some ?cnt, advance 4 c)" using ok r by (simp add: u32_le_iff encode_list_def Let_def)
  moreover have ok1: "cursor_ok (advance 4 c)"
    using cursor_ok_advance [of c "le_str 4 ?cnt"] ok r by (simp add: encode_list_def Let_def)
  then have "u32_le (advance 4 c) = (Some ?len, advance 8 c)" using r by (simp add: u32_le_iff encode_list_def Let_def)
  moreover have "cursor_ok (advance 8 c)"
    using cursor_ok_advance [of "advance 4 c" "le_str 4 ?len"] ok1 r by (simp add: encode_list_def Let_def)
  then have "cursor_take (unat ?len) (advance 8 c) = (Some ?body, c')"
    using r small c' by (simp add: cursor_take_iff encode_list_def Let_def)
  moreover have "split_list ?body (unat ?cnt) what = Inr items" using lo small by (simp add: split_list_iff list_ok_def)
  ultimately show "read_list what c = Inr (items, c')" using small by (simp add: read_list_def)
qed

lemma read_scalar_iff:
  assumes ok: "cursor_ok c"
  shows "read_scalar what c = Inr (s, c') \<longleftrightarrow>
    scalar_ok s \<and> (\<exists>r. cursor_rest c = encode_scalar s @ r) \<and> c' = advance (length (encode_scalar s)) c"
proof
  assume r: "read_scalar what c = Inr (s, c')"
  then obtain len c1 where reads: "u32_le c = (Some len, c1)" "cursor_take (unat len) c1 = (Some s, c')"
    and s: "utf8_valid s" "entry_ok s"
    by (auto simp: read_scalar_def entry_ok_def split: prod.splits option.splits if_splits)
  from reads(1) ok obtain r1 where r1: "cursor_rest c = le_str 4 len @ r1" "c1 = advance 4 c" by (auto simp: u32_le_iff)
  with ok have "cursor_ok c1" using cursor_ok_advance [of c "le_str 4 len" r1] by simp
  with reads(2) r1 obtain r2 where r2: "r1 = s @ r2" "length s = unat len" "c' = advance (unat len) c1"
    by (auto simp: cursor_take_iff)
  have enc: "encode_scalar s = le_str 4 len @ s" using r2(2) by (simp add: encode_scalar_def)
  show "scalar_ok s \<and> (\<exists>r. cursor_rest c = encode_scalar s @ r) \<and> c' = advance (length (encode_scalar s)) c"
    using r1 r2 s unat_less_u32 [of len] by (simp add: enc scalar_ok_def add.commute)
next
  assume "scalar_ok s \<and> (\<exists>r. cursor_rest c = encode_scalar s @ r) \<and> c' = advance (length (encode_scalar s)) c"
  then obtain r where so: "scalar_ok s" and r: "cursor_rest c = encode_scalar s @ r"
    and c': "c' = advance (length (encode_scalar s)) c" by blast
  let ?len = "of_nat (length s) :: 32 word"
  have "u32_le c = (Some ?len, advance 4 c)" using ok r by (simp add: u32_le_iff encode_scalar_def)
  moreover have "cursor_ok (advance 4 c)"
    using cursor_ok_advance [of c "le_str 4 ?len"] ok r by (simp add: encode_scalar_def)
  then have "cursor_take (unat ?len) (advance 4 c) = (Some s, c')"
    using r so c' by (simp add: cursor_take_iff encode_scalar_def scalar_ok_def)
  ultimately show "read_scalar what c = Inr (s, c')" using so by (simp add: read_scalar_def scalar_ok_def entry_ok_def)
qed

interpretation ortho_list: field_codec read_list encode_list list_ok
  by unfold_locales (rule read_list_iff)

interpretation ortho_scalar: field_codec read_scalar encode_scalar scalar_ok
  by unfold_locales (rule read_scalar_iff)

lemma ortho_header_iff:
  "peek_u32 (cursor_new data) 0 = Some magic \<and> peek_u16 (cursor_new data) 4 = Some version \<longleftrightarrow>
     (\<exists>r. data = le_str 4 magic @ le_str 2 version @ r)"
proof
  assume "peek_u32 (cursor_new data) 0 = Some magic \<and> peek_u16 (cursor_new data) 4 = Some version"
  then have "rd_u32 data 0 = Some magic" "rd_u16 data 4 = Some version"
    by (simp_all add: peek_u32_def peek_u16_def cursor_new_def)
  then have m: "magic = from_le_str (take 4 data)" and v: "version = from_le_str (take 2 (drop 4 data))" and len: "6 \<le> length data"
    by (auto simp: rd_u32_def rd_u16_def byte_range_Some)
  have "data = take 4 data @ take 2 (drop 4 data) @ drop 2 (drop 4 data)" by (simp only: append_take_drop_id)
  with m v len show "\<exists>r. data = le_str 4 magic @ le_str 2 version @ r" by (auto simp: le_str_from_le_str)
next
  assume "\<exists>r. data = le_str 4 magic @ le_str 2 version @ r"
  then obtain r where "data = le_str 4 magic @ le_str 2 version @ r" ..
  then show "peek_u32 (cursor_new data) 0 = Some magic \<and> peek_u16 (cursor_new data) 4 = Some version"
    using rd_u32_at [of 0 "[]" magic] by (simp add: peek_u32_def peek_u16_def cursor_new_def rd_u16_at)
qed

definition ortho_fits :: "tagger_ortho \<Rightarrow> bool" where
  "ortho_fits t \<longleftrightarrow>
     list_all (\<lambda>items. list_all utf8_valid items \<and> length (terminated NUL items) < 2 ^ 32) (ortho_lists t) \<and>
     list_all (\<lambda>s. utf8_valid s \<and> length s < 2 ^ 32) (ortho_scalars t)"

lemma ortho_ok_iff:
  "list_all list_ok (ortho_lists t) \<and> list_all scalar_ok (ortho_scalars t) \<longleftrightarrow>
     ortho_fits t \<and> list_all (\<lambda>items. items \<noteq> [] \<and> list_all entry_ok items) (ortho_lists t) \<and> list_all entry_ok (ortho_scalars t)"
  by (auto simp: ortho_fits_def list_all_iff list_ok_def scalar_ok_def)

lemma ortho_from_bytes_built:
  assumes "ortho_from_bytes data = Inr t"
  shows "ortho_build t = Some data \<and> ortho_fits t"
proof -
  let ?head = "le_str 4 BLOB_MAGIC_SOR1 @ le_str 2 BLOB_VERSION_SOR1"
  let ?ln = "[''trailing'', ''boundary'', ''bare_follow'']" and ?sn = "[''plural_s'', ''manner_ly'', ''past_ed'', ''part_ing'', ''comma'']"
  let ?start = "cursor_with_offset data 6"
  from assms obtain ls c sc c' where head: "peek_u32 (cursor_new data) 0 = Some BLOB_MAGIC_SOR1 \<and> peek_u16 (cursor_new data) 4 = Some BLOB_VERSION_SOR1"
    and ls: "fold_err (push_field read_list) ([], ?start) ?ln = Inr (ls, c)"
    and sc: "fold_err (push_field read_scalar) ([], c) ?sn = Inr (sc, c')" and fin: "bc_offset c' = length data"
    and t: "t = \<lparr>to_trailing = ls ! 0, to_boundary = ls ! 1, to_bare_follow = ls ! 2, to_plural_s = sc ! 0,
      to_manner_ly = sc ! 1, to_past_ed = sc ! 2, to_part_ing = sc ! 3, to_comma = sc ! 4\<rparr>"
    by (auto simp: ortho_from_bytes_def simp del: fold_err.simps split: option.splits if_splits sum.splits)
  from head obtain r0 where data: "data = ?head @ r0" by (auto simp: ortho_header_iff)
  then have ok0: "cursor_ok ?start" and rest0: "cursor_rest ?start = r0"
    by (simp_all add: cursor_ok_def cursor_rest_def cursor_with_offset_def)
  from ls ok0 rest0 obtain r1 where l: "length ls = 3" "list_all list_ok ls" "r0 = concat (map encode_list ls) @ r1"
    "c = advance (length (concat (map encode_list ls))) ?start" by (auto simp: ortho_list.rd_all_iff simp del: fold_err.simps)
  have ok1: "cursor_ok c" using cursor_ok_advance ok0 rest0 l by simp
  have "cursor_rest c = r1" using rest0 l by simp
  with sc ok1 obtain r2 where s: "length sc = 5" "list_all scalar_ok sc" "r1 = concat (map encode_scalar sc) @ r2"
    "c' = advance (length (concat (map encode_scalar sc))) c" by (auto simp: ortho_scalar.rd_all_iff simp del: fold_err.simps)
  have "r2 = []" using fin data l s by (simp add: cursor_with_offset_def)
  moreover have "ortho_lists t = ls" "ortho_scalars t = sc"
    using l(1) s(1) t by (auto simp: ortho_lists_def ortho_scalars_def numeral_eq_Suc length_Suc_conv)
  ultimately show "ortho_build t = Some data \<and> ortho_fits t"
    using data l s ortho_ok_iff [of t] by (simp add: ortho_build_def)
qed

lemma ortho_built_loads:
  assumes "ortho_build t = Some data \<and> ortho_fits t"
  shows "ortho_from_bytes data = Inr t"
proof -
  let ?head = "le_str 4 BLOB_MAGIC_SOR1 @ le_str 2 BLOB_VERSION_SOR1"
  let ?ln = "[''trailing'', ''boundary'', ''bare_follow'']" and ?sn = "[''plural_s'', ''manner_ly'', ''past_ed'', ''part_ing'', ''comma'']"
  let ?start = "cursor_with_offset data 6"
  let ?body = "concat (map encode_list (ortho_lists t)) @ concat (map encode_scalar (ortho_scalars t))"
  from assms have data: "data = ?head @ ?body" and ok: "list_all list_ok (ortho_lists t)" "list_all scalar_ok (ortho_scalars t)"
    using ortho_ok_iff [of t] by (auto simp: ortho_build_def split: if_splits)
  let ?mid = "advance (length (concat (map encode_list (ortho_lists t)))) ?start"
  have head: "peek_u32 (cursor_new data) 0 = Some BLOB_MAGIC_SOR1 \<and> peek_u16 (cursor_new data) 4 = Some BLOB_VERSION_SOR1"
    using data by (simp add: ortho_header_iff)
  have data': "data = ?head @ ?body" using data by simp
  have ok0: "cursor_ok ?start" and rest0: "cursor_rest ?start = ?body"
    unfolding data' by (rule cursor_at, simp)+
  have ls: "fold_err (push_field read_list) ([], ?start) ?ln = Inr (ortho_lists t, ?mid)"
    using ok rest0 by (subst ortho_list.rd_all_iff [OF ok0]) (auto simp: ortho_lists_def)
  have ok1: "cursor_ok ?mid" using cursor_ok_advance ok0 rest0 by simp
  have sc: "fold_err (push_field read_scalar) ([], ?mid) ?sn =
      Inr (ortho_scalars t, advance (length (concat (map encode_scalar (ortho_scalars t)))) ?mid)"
    using ok rest0 by (subst ortho_scalar.rd_all_iff [OF ok1]) (auto simp: ortho_scalars_def)
  have "bc_offset (advance (length (concat (map encode_scalar (ortho_scalars t)))) ?mid) = length data"
    using data by (simp add: cursor_with_offset_def)
  with head ls sc show "ortho_from_bytes data = Inr t"
    by (simp add: ortho_from_bytes_def del: fold_err.simps) (simp add: ortho_lists_def ortho_scalars_def)
qed

text \<open>
  C29. The loader accepts exactly the blobs the build script writes: it returns an orthography if and only if the
  encoder, without failing an assertion, produces these very bytes from it, its strings are valid UTF-8 and its
  sections fit 32-bit lengths. So loading inverts building, no two blobs load to the same tables, and anything else
  is refused.
\<close>

theorem ortho_from_bytes_exact:
  "ortho_from_bytes data = Inr t \<longleftrightarrow> ortho_build t = Some data \<and> ortho_fits t"
  using ortho_from_bytes_built ortho_built_loads by blast

end
