(* ===== verification/LexAttrs.thy ===== *)
theory LexAttrs
  imports Unicode Bytes
begin

text \<open>
  The lexeme attributes of \<open>src/src/spacy-rs/src/lex_attrs.rs\<close> and the base norms of
  \<open>src/src/spacy-rs/src/lang/norm_exceptions.rs\<close>, as functions of a word's bytes. The Unicode tables are the
  argument \<open>uc\<close>, and the final regular expression of \<open>like_url\<close> is the argument \<open>url_match\<close>.
\<close>

section \<open>Character classes of a word\<close>

definition la_is_alpha :: "unicode \<Rightarrow> string \<Rightarrow> bool" where
  "la_is_alpha uc s \<longleftrightarrow> s \<noteq> [] \<and> list_all (uc_alphabetic uc) (chars s)"

definition la_is_ascii :: "string \<Rightarrow> bool" where
  "la_is_ascii s = list_all (\<lambda>c. (of_char c :: nat) < 128) s"

definition la_is_digit :: "unicode \<Rightarrow> string \<Rightarrow> bool" where
  "la_is_digit uc s \<longleftrightarrow>
     s \<noteq> [] \<and> list_all (\<lambda>c. uc_decimal_number uc c \<or> c \<in> {utf8_enc 0xB2, utf8_enc 0xB3, utf8_enc 0xB9}) (chars s)"

definition la_is_lower :: "unicode \<Rightarrow> string \<Rightarrow> bool" where
  "la_is_lower uc s \<longleftrightarrow> list_ex (uc_lowercase uc) (chars s) \<and> list_all (\<lambda>c. \<not> uc_uppercase uc c) (chars s)"

definition la_is_space :: "string \<Rightarrow> bool" where
  "la_is_space s \<longleftrightarrow> s \<noteq> [] \<and> list_all is_whitespace (chars s)"

fun title_loop :: "unicode \<Rightarrow> bool \<Rightarrow> bool \<Rightarrow> string list \<Rightarrow> bool" where
  "title_loop uc cased at_word_start [] = cased"
| "title_loop uc cased at_word_start (c # cs) =
     (if uc_uppercase uc c \<or> uc_titlecase_letter uc c then
        (if at_word_start then title_loop uc True False cs else False)
      else if uc_lowercase uc c then
        (if at_word_start then False else title_loop uc True False cs)
      else title_loop uc cased True cs)"

definition la_is_title :: "unicode \<Rightarrow> string \<Rightarrow> bool" where
  "la_is_title uc s = title_loop uc False True (chars s)"

definition la_is_upper :: "unicode \<Rightarrow> string \<Rightarrow> bool" where
  "la_is_upper uc s \<longleftrightarrow> list_ex (uc_uppercase uc) (chars s) \<and> list_all (\<lambda>c. \<not> uc_lowercase uc c) (chars s)"

definition la_is_punct :: "unicode \<Rightarrow> string \<Rightarrow> bool" where
  "la_is_punct uc s \<longleftrightarrow> s \<noteq> [] \<and> list_all (uc_punctuation uc) (chars s)"

definition la_is_bracket :: "string \<Rightarrow> bool" where
  "la_is_bracket s \<longleftrightarrow> s \<in> set
     [
      ''('', '')'', ''['', '']'', ''{'', ''}'', ''<'', ''>'']"

definition la_is_quote :: "string \<Rightarrow> bool" where
  "la_is_quote s \<longleftrightarrow> s \<in> set
     [
      utf8_enc 0x22, utf8_enc 0x27, utf8_enc 0x60, utf8_enc 0xAB, utf8_enc 0xBB, utf8_enc 0x2018,
      utf8_enc 0x2019, utf8_enc 0x201A, utf8_enc 0x201B, utf8_enc 0x201C, utf8_enc 0x201D, utf8_enc 0x201E,
      utf8_enc 0x201F, utf8_enc 0x2039, utf8_enc 0x203A, utf8_enc 0x276E, utf8_enc 0x276F,
      utf8_enc 0x27 @ utf8_enc 0x27, utf8_enc 0x60 @ utf8_enc 0x60]"

definition la_is_left_punct :: "string \<Rightarrow> bool" where
  "la_is_left_punct s \<longleftrightarrow> s \<in> set
     [
      ''('', ''['', ''{'', ''<'', utf8_enc 0x22, utf8_enc 0x27, utf8_enc 0xAB, utf8_enc 0x2018,
      utf8_enc 0x201A, utf8_enc 0x201B, utf8_enc 0x201C, utf8_enc 0x201E, utf8_enc 0x201F, utf8_enc 0x2039,
      utf8_enc 0x276E, utf8_enc 0x60 @ utf8_enc 0x60]"

definition la_is_right_punct :: "string \<Rightarrow> bool" where
  "la_is_right_punct s \<longleftrightarrow> s \<in> set
     [
      '')'', '']'', ''}'', ''>'', utf8_enc 0x22, utf8_enc 0x27, utf8_enc 0xBB, utf8_enc 0x2019,
      utf8_enc 0x201D, utf8_enc 0x203A, utf8_enc 0x276F, utf8_enc 0x27 @ utf8_enc 0x27]"

definition la_is_currency :: "unicode \<Rightarrow> string \<Rightarrow> bool" where
  "la_is_currency uc s \<longleftrightarrow> s \<noteq> [] \<and> list_all (uc_currency_symbol uc) (chars s)"

section \<open>Numbers, addresses and shapes\<close>

definition ascii_digits :: "string \<Rightarrow> bool" where
  "ascii_digits s = list_all (\<lambda>c. 48 \<le> (of_char c :: nat) \<and> (of_char c :: nat) \<le> 57) s"

definition split_once :: "char \<Rightarrow> string \<Rightarrow> (string \<times> string) option" where
  "split_once c s =
     (case dropWhile (\<lambda>x. x \<noteq> c) s of [] \<Rightarrow> None | _ # rest \<Rightarrow> Some (takeWhile (\<lambda>x. x \<noteq> c) s, rest))"

definition rsplit_once :: "char \<Rightarrow> string \<Rightarrow> (string \<times> string) option" where
  "rsplit_once c s = map_option (\<lambda>(a, b). (rev b, rev a)) (split_once c (rev s))"

definition starts_with :: "string \<Rightarrow> string \<Rightarrow> bool" where
  "starts_with s p \<longleftrightarrow> take (length p) s = p"

definition ends_with :: "string \<Rightarrow> string \<Rightarrow> bool" where
  "ends_with s p \<longleftrightarrow> length p \<le> length s \<and> drop (length s - length p) s = p"

definition strip_sign :: "string \<Rightarrow> string" where
  "strip_sign text =
     (case chars text of
        [] \<Rightarrow> text
      | c # cs \<Rightarrow> if c \<in> set [''+'', ''-'', utf8_enc 0xB1, ''~''] then concat cs else text)"

definition no_separators :: "string \<Rightarrow> string" where
  "no_separators s = filter (\<lambda>c. c \<noteq> CHR ''.'' \<and> c \<noteq> CHR '','') s"

definition count_char :: "char \<Rightarrow> string \<Rightarrow> nat" where
  "count_char c s = length (filter (\<lambda>x. x = c) s)"

definition is_fraction :: "(string \<Rightarrow> bool) \<Rightarrow> string \<Rightarrow> bool" where
  "is_fraction digits s \<longleftrightarrow>
     count_char (CHR ''/'') s = 1 \<and>
     (case split_once (CHR ''/'') s of
        Some (num, denom) \<Rightarrow> num \<noteq> [] \<and> denom \<noteq> [] \<and> digits num \<and> digits denom
      | None \<Rightarrow> False)"

definition la_like_num :: "string \<Rightarrow> bool" where
  "la_like_num text \<longleftrightarrow>
     (let stripped = strip_sign text; normalized = no_separators stripped
      in normalized \<noteq> [] \<and> ascii_digits normalized \<or> is_fraction ascii_digits stripped)"

definition la_like_num_en :: "unicode \<Rightarrow> string set \<Rightarrow> string \<Rightarrow> bool" where
  "la_like_num_en uc num_words text \<longleftrightarrow>
     (let stripped = strip_sign text; lower = uc_to_lowercase uc text
      in la_is_digit uc (no_separators stripped) \<or>
         is_fraction (la_is_digit uc) stripped \<or>
         lower \<in> num_words \<or>
         list_ex (ends_with lower) [''st'', ''nd'', ''rd'', ''th''] \<and> la_is_digit uc (take (length lower - 2) lower))"

definition TLDS :: "string list" where
  "TLDS =
     [
      ''com'', ''org'', ''edu'', ''gov'', ''net'', ''mil'', ''aero'', ''asia'', ''biz'', ''cat'', ''coop'',
      ''info'', ''int'', ''jobs'', ''mobi'', ''museum'', ''name'', ''pro'', ''tel'', ''travel'', ''xyz'',
      ''icu'', ''xxx'', ''ac'', ''ad'', ''ae'', ''af'', ''ag'', ''ai'', ''al'', ''am'', ''an'', ''ao'', ''aq'',
      ''ar'', ''as'', ''at'', ''au'', ''aw'', ''ax'', ''az'', ''ba'', ''bb'', ''bd'', ''be'', ''bf'', ''bg'',
      ''bh'', ''bi'', ''bj'', ''bm'', ''bn'', ''bo'', ''br'', ''bs'', ''bt'', ''bv'', ''bw'', ''by'', ''bz'',
      ''ca'', ''cc'', ''cd'', ''cf'', ''cg'', ''ch'', ''ci'', ''ck'', ''cl'', ''cm'', ''cn'', ''co'', ''cr'',
      ''cs'', ''cu'', ''cv'', ''cx'', ''cy'', ''cz'', ''dd'', ''de'', ''dj'', ''dk'', ''dm'', ''do'', ''dz'',
      ''ec'', ''ee'', ''eg'', ''eh'', ''er'', ''es'', ''et'', ''eu'', ''fi'', ''fj'', ''fk'', ''fm'', ''fo'',
      ''fr'', ''ga'', ''gb'', ''gd'', ''ge'', ''gf'', ''gg'', ''gh'', ''gi'', ''gl'', ''gm'', ''gn'', ''gp'',
      ''gq'', ''gr'', ''gs'', ''gt'', ''gu'', ''gw'', ''gy'', ''hk'', ''hm'', ''hn'', ''hr'', ''ht'', ''hu'',
      ''id'', ''ie'', ''il'', ''im'', ''in'', ''io'', ''iq'', ''ir'', ''is'', ''it'', ''je'', ''jm'', ''jo'',
      ''jp'', ''ke'', ''kg'', ''kh'', ''ki'', ''km'', ''kn'', ''kp'', ''kr'', ''kw'', ''ky'', ''kz'', ''la'',
      ''lb'', ''lc'', ''li'', ''lk'', ''lr'', ''ls'', ''lt'', ''lu'', ''lv'', ''ly'', ''ma'', ''mc'', ''md'',
      ''me'', ''mg'', ''mh'', ''mk'', ''ml'', ''mm'', ''mn'', ''mo'', ''mp'', ''mq'', ''mr'', ''ms'', ''mt'',
      ''mu'', ''mv'', ''mw'', ''mx'', ''my'', ''mz'', ''na'', ''nc'', ''ne'', ''nf'', ''ng'', ''ni'', ''nl'',
      ''no'', ''np'', ''nr'', ''nu'', ''nz'', ''om'', ''pa'', ''pe'', ''pf'', ''pg'', ''ph'', ''pk'', ''pl'',
      ''pm'', ''pn'', ''pr'', ''ps'', ''pt'', ''pw'', ''py'', ''qa'', ''re'', ''ro'', ''rs'', ''ru'', ''rw'',
      ''sa'', ''sb'', ''sc'', ''sd'', ''se'', ''sg'', ''sh'', ''si'', ''sj'', ''sk'', ''sl'', ''sm'', ''sn'',
      ''so'', ''sr'', ''ss'', ''st'', ''su'', ''sv'', ''sy'', ''sz'', ''tc'', ''td'', ''tf'', ''tg'', ''th'',
      ''tj'', ''tk'', ''tl'', ''tm'', ''tn'', ''to'', ''tp'', ''tr'', ''tt'', ''tv'', ''tw'', ''tz'', ''ua'',
      ''ug'', ''uk'', ''us'', ''uy'', ''uz'', ''va'', ''vc'', ''ve'', ''vg'', ''vi'', ''vn'', ''vu'', ''wf'',
      ''ws'', ''ye'', ''yt'', ''za'', ''zm'', ''zw'']"

definition la_like_url :: "unicode \<Rightarrow> (string \<Rightarrow> bool) \<Rightarrow> string \<Rightarrow> bool" where
  "la_like_url uc url_match text \<longleftrightarrow>
     (if starts_with text ''http://'' \<or> starts_with text ''https://'' then True
      else if starts_with text ''www.'' \<and> length text \<ge> 5 then True
      else if starts_with text ''.'' \<or> ends_with text ''.'' then False
      else if CHR ''@'' \<in> set text then False
      else if CHR ''.'' \<notin> set text then False
      else let tld = (case rsplit_once (CHR ''.'') text of
                        Some (_, tld) \<Rightarrow> takeWhile (\<lambda>c. c \<noteq> CHR '':'') tld
                      | None \<Rightarrow> [])
           in if ends_with tld ''/'' then True
              else if list_all (uc_alphabetic uc) (chars tld) \<and> tld \<in> set TLDS then True
              else url_match text)"

definition ascii_alphanumeric :: "char \<Rightarrow> bool" where
  "ascii_alphanumeric c \<longleftrightarrow>
     (let b = (of_char c :: nat) in 48 \<le> b \<and> b \<le> 57 \<or> 65 \<le> b \<and> b \<le> 90 \<or> 97 \<le> b \<and> b \<le> 122)"

definition la_like_email :: "string \<Rightarrow> bool" where
  "la_like_email s \<longleftrightarrow>
     (case split_once (CHR ''@'') s of
        None \<Rightarrow> False
      | Some (loc, rest) \<Rightarrow>
          (case split_once (CHR ''.'') rest of
             None \<Rightarrow> False
           | Some (domain, tld) \<Rightarrow>
               loc \<noteq> [] \<and> domain \<noteq> [] \<and> tld \<noteq> [] \<and>
               list_all (\<lambda>c. ascii_alphanumeric c \<or> c \<in> set ''_.+-'') loc \<and>
               list_all (\<lambda>c. ascii_alphanumeric c \<or> c = CHR ''-'') domain \<and>
               list_all (\<lambda>c. ascii_alphanumeric c \<or> c \<in> set ''.-'') tld))"

definition shape_char :: "unicode \<Rightarrow> string \<Rightarrow> string" where
  "shape_char uc c =
     (if uc_alphabetic uc c then (if uc_uppercase uc c then ''X'' else ''x'')
      else if uc_numeric uc c then ''d'' else c)"

definition shape_step :: "unicode \<Rightarrow> string \<times> string option \<times> nat \<Rightarrow> string \<Rightarrow> string \<times> string option \<times> nat" where
  "shape_step uc st c =
     (case st of (shape, prev, seq) \<Rightarrow>
        let sc = shape_char uc c;
            (prev, seq) = (if Some sc = prev then (prev, seq + 1) else (Some sc, 0))
        in (if seq < 4 then shape @ sc else shape, prev, seq))"

definition la_word_shape :: "unicode \<Rightarrow> string \<Rightarrow> string" where
  "la_word_shape uc text =
     (if length (chars text) \<ge> 100 then ''LONG''
      else fst (foldl (shape_step uc) ([], None, 0) (chars text)))"

definition la_lower :: "unicode \<Rightarrow> string \<Rightarrow> string" where
  "la_lower uc s = uc_to_lowercase uc s"

definition la_prefix :: "string \<Rightarrow> string" where
  "la_prefix s = concat (take 1 (chars s))"

definition la_suffix :: "string \<Rightarrow> string" where
  "la_suffix s = concat (rev (take 3 (rev (chars s))))"

section \<open>Base norms\<close>

definition BASE_NORMS :: "(string \<times> string) list" where
  "BASE_NORMS =
     [
      (utf8_enc 0x27 @ ''s'', utf8_enc 0x27 @ ''s''), (utf8_enc 0x27 @ ''S'', utf8_enc 0x27 @ ''s''),
      (utf8_enc 0x2019 @ ''s'', utf8_enc 0x27 @ ''s''), (utf8_enc 0x2019 @ ''S'', utf8_enc 0x27 @ ''s''),
      (utf8_enc 0x2019, utf8_enc 0x27), (utf8_enc 0x2018, utf8_enc 0x27), (utf8_enc 0xB4, utf8_enc 0x27),
      (utf8_enc 0x60, utf8_enc 0x27), (utf8_enc 0x201D, utf8_enc 0x22), (utf8_enc 0x201C, utf8_enc 0x22),
      (utf8_enc 0x27 @ utf8_enc 0x27, utf8_enc 0x22), (utf8_enc 0x60 @ utf8_enc 0x60, utf8_enc 0x22),
      (utf8_enc 0xB4 @ utf8_enc 0xB4, utf8_enc 0x22), (utf8_enc 0x201E, utf8_enc 0x22),
      (utf8_enc 0xBB, utf8_enc 0x22), (utf8_enc 0xAB, utf8_enc 0x22),
      (utf8_enc 0x2018 @ utf8_enc 0x2018, utf8_enc 0x22), (utf8_enc 0x2019 @ utf8_enc 0x2019, utf8_enc 0x22),
      (utf8_enc 0xFF1F, ''?''), (utf8_enc 0xFF01, ''!''), (utf8_enc 0xFF0C, '',''), (utf8_enc 0xFF1B, '';''),
      (utf8_enc 0xFF1A, '':''), (utf8_enc 0x3002, ''.''), (utf8_enc 0x964, ''.''), (utf8_enc 0x2026, ''...''),
      (utf8_enc 0x2014, ''-''), (utf8_enc 0x2013, ''-''), (''--'', ''-''), (''---'', ''-''),
      (utf8_enc 0x2014 @ utf8_enc 0x2014, ''-''), (utf8_enc 0x20AC, ''$''), (utf8_enc 0xA3, ''$''),
      (utf8_enc 0xA5, ''$''), (utf8_enc 0xE3F, ''$''), (''US$'', ''$''), (''C$'', ''$''), (''A$'', ''$''),
      (utf8_enc 0x20BA, ''$''), (utf8_enc 0x20B9, ''$''), (utf8_enc 0x9F3, ''$''), (utf8_enc 0x20A9, ''$''),
      (''Mex$'', ''$''), (utf8_enc 0x20A3, ''$''), (''E'' @ utf8_enc 0xA3, ''$'')]"

definition base_norm :: "string \<Rightarrow> string option" where
  "base_norm text = map_option snd (find (\<lambda>p. fst p = text) BASE_NORMS)"

end
