(* ===== verification/Lexicon.thy ===== *)
theory Lexicon
  imports Attrs Hashing LexAttrs
begin

text \<open>
  The lexicon of \<open>src/src/spacy-rs/src/lexeme.rs\<close> and the vocabulary of \<open>src/src/spacy-rs/src/vocab.rs\<close>: one
  lexeme per word, computed on first sight and interned under the hash of the word, over the string store the
  vocabulary shares. The locks only serialise accesses, so an operation takes the vocabulary and returns it.
  Character counts stay below the \<open>2^30\<close> bytes the tokenizer accepts and are natural numbers.
\<close>

section \<open>Lexemes\<close>

definition OOV_RANK :: "64 word" where
  "OOV_RANK = - 1"

record lexeme =
  lx_flags :: lexeme_flags
  lx_lang :: "64 word"
  lx_id :: "64 word"
  lx_length :: nat
  lx_orth :: "64 word"
  lx_lower :: "64 word"
  lx_norm :: "64 word"
  lx_shape :: "64 word"
  lx_prefix :: "64 word"
  lx_suffix :: "64 word"

definition lexeme_empty :: lexeme where
  "lexeme_empty =
     \<lparr>lx_flags = 0, lx_lang = 0, lx_id = OOV_RANK, lx_length = 0, lx_orth = 0, lx_lower = 0, lx_norm = 0, lx_shape = 0,
      lx_prefix = 0, lx_suffix = 0\<rparr>"

definition orth_text :: "lexeme \<Rightarrow> string_store \<Rightarrow> string" where
  "orth_text lx strings = (case ss_get strings (lx_orth lx) of None \<Rightarrow> [] | Some s \<Rightarrow> s)"

record lexicon_config =
  lc_lang :: "64 word"
  lc_stop_words :: "string set"
  lc_norm_exceptions :: "(string, string) hmap"
  lc_num_words :: "string set"
  lc_function_words :: "(string, 64 word) hmap"

text \<open>What the language data and the standard tables provide.\<close>

record lex_env =
  le_unicode :: unicode
  le_url_match :: "string \<Rightarrow> bool"
  le_config :: lexicon_config

record vocab =
  vo_strings :: string_store
  vo_by_orth :: "(64 word, lexeme) hmap"

definition vocab_new :: vocab where
  "vocab_new = \<lparr>vo_strings = strings_new, vo_by_orth = hm_empty\<rparr>"

section \<open>Operations\<close>

definition lexicon_len :: "vocab \<Rightarrow> nat" where
  "lexicon_len v = length (vo_by_orth v)"

definition get_by_orth :: "vocab \<Rightarrow> 64 word \<Rightarrow> lexeme option" where
  "get_by_orth v orth = (if orth = 0 then Some lexeme_empty else hm_get (vo_by_orth v) orth)"

definition norm_text :: "lex_env \<Rightarrow> string \<Rightarrow> string" where
  "norm_text env text =
     (case hm_get (lc_norm_exceptions (le_config env)) text of
        Some n \<Rightarrow> n
      | None \<Rightarrow> (case base_norm text of Some n \<Rightarrow> n | None \<Rightarrow> la_lower (le_unicode env) text))"

definition compute_flags :: "lex_env \<Rightarrow> string \<Rightarrow> lexeme_flags" where
  "compute_flags env text =
     (let uc = le_unicode env; cfg = le_config env; lower_text = la_lower uc text;
          flags = foldl (\<lambda>f (flag_id, value). flags_set_bool f flag_id value) 0
            [(IsAlpha, la_is_alpha uc text), (IsAscii, la_is_ascii text), (IsDigit, la_is_digit uc text),
             (IsLower, la_is_lower uc text), (IsPunct, la_is_punct uc text), (IsSpace, la_is_space text),
             (IsTitle, la_is_title uc text), (IsUpper, la_is_upper uc text),
             (LikeUrl, la_like_url uc (le_url_match env) text),
             (LikeNum, if lc_num_words cfg = {} then la_like_num text else la_like_num_en uc (lc_num_words cfg) text),
             (LikeEmail, la_like_email text), (IsStop, lower_text \<in> lc_stop_words cfg),
             (IsBracket, la_is_bracket text), (IsQuote, la_is_quote text), (IsLeftPunct, la_is_left_punct text),
             (IsRightPunct, la_is_right_punct text), (IsCurrency, la_is_currency uc text)]
      in case hm_get (lc_function_words cfg) lower_text of Some extra \<Rightarrow> flags OR extra | None \<Rightarrow> flags)"

definition compute_lexeme :: "lex_env \<Rightarrow> string_store \<Rightarrow> string \<Rightarrow> 64 word \<Rightarrow> lexeme \<times> string_store" where
  "compute_lexeme env strings text orth =
     (let uc = le_unicode env;
          (lower, strings) = ss_add strings (la_lower uc text);
          (norm, strings) = ss_add strings (norm_text env text);
          (shape, strings) = ss_add strings (la_word_shape uc text);
          (prefix, strings) = ss_add strings (la_prefix text);
          (suffix, strings) = ss_add strings (la_suffix text)
      in (\<lparr>lx_flags = compute_flags env text, lx_lang = lc_lang (le_config env), lx_id = OOV_RANK,
           lx_length = length (chars text), lx_orth = orth, lx_lower = lower, lx_norm = norm, lx_shape = shape,
           lx_prefix = prefix, lx_suffix = suffix\<rparr>, strings))"

definition get_or_create :: "lex_env \<Rightarrow> vocab \<Rightarrow> string \<Rightarrow> lexeme \<times> vocab" where
  "get_or_create env v text =
     (if text = [] then (lexeme_empty, v)
      else let (orth, strings) = ss_add (vo_strings v) text; v = v\<lparr>vo_strings := strings\<rparr>
           in case get_by_orth v orth of
                Some lx \<Rightarrow> (lx, v)
              | None \<Rightarrow>
                  let (lx, strings) = compute_lexeme env (vo_strings v) text orth
                  in (lx, v\<lparr>vo_strings := strings, vo_by_orth := hm_insert (vo_by_orth v) orth lx\<rparr>))"

section \<open>Words and their lexemes\<close>

text \<open>The strings a word adds to the store.\<close>

definition lex_strings :: "lex_env \<Rightarrow> string \<Rightarrow> string list" where
  "lex_strings env text =
     [text, la_lower (le_unicode env) text, norm_text env text, la_word_shape (le_unicode env) text,
      la_prefix text, la_suffix text]"

text \<open>A set of strings whose hashes tell them apart and are not the reserved one.\<close>

definition hash_safe :: "string set \<Rightarrow> bool" where
  "hash_safe U \<longleftrightarrow> inj_on hash_utf8 U \<and> (\<forall>s \<in> U. hash_utf8 s \<noteq> 0)"

definition vocab_ok :: "string set \<Rightarrow> vocab \<Rightarrow> bool" where
  "vocab_ok U v \<longleftrightarrow>
     (\<forall>k s. hm_get (vo_strings v) k = Some s \<longrightarrow> s \<in> U \<and> k = hash_utf8 s) \<and>
     (\<forall>k lx. hm_get (vo_by_orth v) k = Some lx \<longrightarrow>
        lx_orth lx = k \<and> (\<exists>s. hm_get (vo_strings v) k = Some s \<and> lx_length lx = length (chars s)))"

definition vocab_grows :: "vocab \<Rightarrow> vocab \<Rightarrow> bool" where
  "vocab_grows v v' \<longleftrightarrow> (\<forall>k s. ss_get (vo_strings v) k = Some s \<longrightarrow> ss_get (vo_strings v') k = Some s)"

lemma vocab_grows_refl [simp]: "vocab_grows v v"
  by (simp add: vocab_grows_def)

lemma vocab_grows_trans: "vocab_grows u v \<Longrightarrow> vocab_grows v w \<Longrightarrow> vocab_grows u w"
  by (simp add: vocab_grows_def)

lemma vocab_ok_new: "vocab_ok U vocab_new"
  by (simp add: vocab_ok_def vocab_new_def strings_new_def)

text \<open>A token of a lexeme reads as a word.\<close>

definition reads_as :: "vocab \<Rightarrow> lexeme \<Rightarrow> string \<Rightarrow> bool" where
  "reads_as v lx s \<longleftrightarrow> orth_text lx (vo_strings v) = s \<and> lx_length lx = length (chars s) \<and>
     ss_get (vo_strings v) (lx_orth lx) \<noteq> None"

lemma reads_as_grows: "reads_as v lx s \<Longrightarrow> vocab_grows v v' \<Longrightarrow> reads_as v' lx s"
  by (auto simp: reads_as_def orth_text_def vocab_grows_def split: option.splits)

lemma ss_add_in:
  assumes "hash_safe U" and "s \<in> U \<or> s = []" and "\<forall>k t. hm_get m k = Some t \<longrightarrow> t \<in> U \<and> k = hash_utf8 t"
  shows "\<forall>k t. hm_get (snd (ss_add m s)) k = Some t \<longrightarrow> t \<in> U \<and> k = hash_utf8 t"
    and "\<forall>k t. hm_get m k = Some t \<longrightarrow> hm_get (snd (ss_add m s)) k = Some t"
    and "s \<noteq> [] \<Longrightarrow> hm_get (snd (ss_add m s)) (hash_utf8 s) = Some s"
  using assms
  by (auto simp: ss_add_def Let_def ss_intern_def hm_contains_def hash_safe_def hm_simps dest: inj_onD)

lemma ss_add_fold_in:
  assumes "hash_safe U" and "\<forall>k t. hm_get m k = Some t \<longrightarrow> t \<in> U \<and> k = hash_utf8 t" and "\<forall>s \<in> set ss. s \<in> U \<or> s = []"
  shows "(\<forall>k t. hm_get (ss_add_all m ss) k = Some t \<longrightarrow> t \<in> U \<and> k = hash_utf8 t) \<and>
    (\<forall>k t. hm_get m k = Some t \<longrightarrow> hm_get (ss_add_all m ss) k = Some t)"
  using assms(2,3)
proof (induction ss arbitrary: m)
  case (Cons s ss)
  note add = ss_add_in [OF assms(1) _ Cons.prems(1), of s]
  from Cons.prems(2) have "s \<in> U \<or> s = []" by simp
  from Cons.IH [of "snd (ss_add m s)"] add(1) [OF this] add(2) [OF this] Cons.prems(2) show ?case
    by (simp add: ss_add_all_def)
qed (simp add: ss_add_all_def)

lemma compute_lexeme_strings:
  "snd (compute_lexeme env m text orth) =
     ss_add_all m [la_lower (le_unicode env) text, norm_text env text, la_word_shape (le_unicode env) text,
       la_prefix text, la_suffix text]"
  by (simp add: compute_lexeme_def ss_add_all_def Let_def split: prod.split)

lemma compute_lexeme_fields:
  "lx_orth (fst (compute_lexeme env m text orth)) = orth"
  "lx_length (fst (compute_lexeme env m text orth)) = length (chars text)"
  by (simp_all add: compute_lexeme_def Let_def split: prod.split)

lemma get_or_create_spec:
  assumes safe: "hash_safe U" and ok: "vocab_ok U v" and ne: "text \<noteq> []" and U: "\<forall>s \<in> set (lex_strings env text). s \<in> U \<or> s = []"
    and r: "get_or_create env v text = (lx, v')"
  shows "vocab_ok U v' \<and> vocab_grows v v' \<and> reads_as v' lx text"
proof -
  let ?h = "hash_utf8 text"
  let ?m = "snd (ss_add (vo_strings v) text)"
  have tU: "text \<in> U" using U ne by (auto simp: lex_strings_def)
  have strings: "\<forall>k t. hm_get (vo_strings v) k = Some t \<longrightarrow> t \<in> U \<and> k = hash_utf8 t"
    and lexemes: "\<forall>k lx. hm_get (vo_by_orth v) k = Some lx \<longrightarrow>
        lx_orth lx = k \<and> (\<exists>s. hm_get (vo_strings v) k = Some s \<and> lx_length lx = length (chars s))"
    using ok by (auto simp: vocab_ok_def)
  note add = ss_add_in [OF safe disjI1 [OF tU] strings]
  have h: "fst (ss_add (vo_strings v) text) = ?h" using ne by (simp add: fst_ss_add)
  have h0: "?h \<noteq> 0" using safe tU by (simp add: hash_safe_def)
  have at: "hm_get ?m ?h = Some text" by (rule add(3) [OF ne])
  show ?thesis
  proof (cases "hm_get (vo_by_orth v) ?h")
    case (Some l)
    then have res: "lx = l" "v' = v\<lparr>vo_strings := ?m\<rparr>"
      using r ne h h0 by (auto simp: get_or_create_def get_by_orth_def split: prod.splits)
    obtain s where "lx_orth l = ?h" "hm_get (vo_strings v) ?h = Some s" "lx_length l = length (chars s)"
      using lexemes Some by blast
    moreover from this add(2) at have "s = text" by (metis option.inject)
    moreover have "vocab_ok U v'" using add(1,2) lexemes unfolding vocab_ok_def res by (auto, metis)
    moreover have "vocab_grows v v'" using add(2) by (auto simp: vocab_grows_def res ss_get_def)
    ultimately show ?thesis using h0 at by (simp add: reads_as_def orth_text_def res ss_get_def)
  next
    case None
    let ?c = "compute_lexeme env ?m text ?h"
    have res: "lx = fst ?c" "v' = v\<lparr>vo_strings := snd ?c, vo_by_orth := hm_insert (vo_by_orth v) ?h (fst ?c)\<rparr>"
      using r ne h h0 None by (auto simp: get_or_create_def get_by_orth_def split: prod.splits)
    have "\<forall>s \<in> set [la_lower (le_unicode env) text, norm_text env text, la_word_shape (le_unicode env) text,
       la_prefix text, la_suffix text]. s \<in> U \<or> s = []" using U by (simp add: lex_strings_def)
    from ss_add_fold_in [OF safe add(1) this]
    have fold: "\<forall>k t. hm_get (snd ?c) k = Some t \<longrightarrow> t \<in> U \<and> k = hash_utf8 t"
      "\<forall>k t. hm_get ?m k = Some t \<longrightarrow> hm_get (snd ?c) k = Some t" by (simp_all add: compute_lexeme_strings)
    have keep: "\<forall>k t. hm_get (vo_strings v) k = Some t \<longrightarrow> hm_get (snd ?c) k = Some t" using fold(2) add(2) by blast
    have at': "hm_get (snd ?c) ?h = Some text" using fold(2) at by blast
    have "lx_orth l = k \<and> (\<exists>s. hm_get (snd ?c) k = Some s \<and> lx_length l = length (chars s))"
      if "hm_get (hm_insert (vo_by_orth v) ?h (fst ?c)) k = Some l" for k l
    proof (cases "k = ?h")
      case True
      with that have "l = fst ?c" by (simp add: hm_simps)
      with True at' show ?thesis by (simp add: compute_lexeme_fields)
    next
      case False
      with that have "hm_get (vo_by_orth v) k = Some l" by (simp add: hm_simps)
      with lexemes keep show ?thesis by blast
    qed
    with fold(1) have "vocab_ok U v'" by (simp add: vocab_ok_def res)
    moreover have "vocab_grows v v'" using keep by (auto simp: vocab_grows_def res ss_get_def)
    ultimately show ?thesis using h0 at' by (simp add: reads_as_def orth_text_def res ss_get_def compute_lexeme_fields)
  qed
qed

end
