(* ===== verification/Doc.thy ===== *)
theory Doc
  imports Lexicon Sentencizer
begin

text \<open>
  Documents: \<open>src/src/spacy-rs/src/doc.rs\<close>. A document is its token array; the vocabulary it shares with the
  tokenizer is passed alongside. Indices, lengths and offsets (\<open>u32\<close>, below the \<open>2^30\<close> bytes the tokenizer
  accepts) are natural numbers, head offsets (\<open>i32\<close>) integers, and a confidence is kept as the bits of its float.
\<close>

section \<open>Errors\<close>

text \<open>The constructors carry an \<open>E\<close> where the annotation gate has one of the same name; rendered details are left out.\<close>

datatype spacy_error =
  HeadOutOfBoundsE nat int int nat
| ArrayLengthMismatch nat nat
| InvalidEntIob "64 word"
| InvalidEntIobText string
| UnknownAttribute nat
| UnknownAttributeText string
| ReadOnlyAttribute nat
| UnknownPosE string
| UnknownDepLabelE string
| UnknownNerType string
| AnnotationE string
| TextTooLong nat
| RegexE string
| SpecialCaseE string
| LemmaBlobE string
| OrthoBlobE string

section \<open>Tokens\<close>

datatype ent_iob = Missing | Inside | Outside | Begin

record token_record =
  tk_lexeme :: lexeme
  tk_morph :: "64 word"
  tk_pos :: upos
  tk_spacy :: bool
  tk_tag :: "64 word"
  tk_idx :: nat
  tk_lemma :: "64 word"
  tk_norm :: "64 word"
  tk_head :: int
  tk_dep :: "64 word"
  tk_l_kids :: nat
  tk_r_kids :: nat
  tk_l_edge :: nat
  tk_r_edge :: nat
  tk_sent_start :: sent_start
  tk_ent_iob :: ent_iob
  tk_ent_type :: "64 word"
  tk_ent_kb_id :: "64 word"
  tk_ent_id :: "64 word"
  tk_interlingua_lemma_id :: "64 word option"
  tk_interlingua_entity_id :: "64 word option"
  tk_confidence :: "64 word option"

definition token_record_new :: "lexeme \<Rightarrow> token_record" where
  "token_record_new lx =
     \<lparr>tk_lexeme = lx, tk_morph = 0, tk_pos = NoTag, tk_spacy = False, tk_tag = 0, tk_idx = 0, tk_lemma = 0, tk_norm = 0,
      tk_head = 0, tk_dep = 0, tk_l_kids = 0, tk_r_kids = 0, tk_l_edge = 0, tk_r_edge = 0, tk_sent_start = Unset,
      tk_ent_iob = Missing, tk_ent_type = 0, tk_ent_kb_id = 0, tk_ent_id = 0, tk_interlingua_lemma_id = None,
      tk_interlingua_entity_id = None, tk_confidence = None\<rparr>"

definition tk_has_head :: "token_record \<Rightarrow> bool" where
  "tk_has_head t \<longleftrightarrow> tk_dep t \<noteq> 0"

type_synonym doc_tokens = "token_record list"

section \<open>Appending tokens\<close>

definition next_idx :: "doc_tokens \<Rightarrow> nat" where
  "next_idx doc =
     (if doc = [] then 0
      else let prev = last doc in tk_idx prev + lx_length (tk_lexeme prev) + (if tk_spacy prev then 1 else 0))"

definition push_record :: "doc_tokens \<Rightarrow> token_record \<Rightarrow> bool \<Rightarrow> doc_tokens" where
  "push_record doc record has_space =
     (let i = length doc;
          record = record\<lparr>tk_idx := next_idx doc, tk_l_edge := i, tk_r_edge := i, tk_spacy := has_space\<rparr>
      in if i = 0 then [record\<lparr>tk_sent_start := Start\<rparr>] else doc @ [record])"

definition push_lexeme :: "doc_tokens \<Rightarrow> lexeme \<Rightarrow> bool \<Rightarrow> doc_tokens" where
  "push_lexeme doc lx has_space =
     (let i = length doc;
          record = (token_record_new lx)\<lparr>tk_idx := next_idx doc, tk_l_edge := i, tk_r_edge := i, tk_spacy := has_space\<rparr>
      in if i = 0 then [record\<lparr>tk_sent_start := Start\<rparr>] else doc @ [record])"

text \<open>\<open>None\<close> is the error for an empty token.\<close>

definition push_back :: "lex_env \<Rightarrow> vocab \<Rightarrow> doc_tokens \<Rightarrow> string \<Rightarrow> bool \<Rightarrow> (doc_tokens \<times> vocab) option" where
  "push_back env v doc text has_space =
     (if text = [] then None
      else let (lx, v) = get_or_create env v text in Some (push_lexeme doc lx has_space, v))"

definition token_piece :: "vocab \<Rightarrow> token_record \<Rightarrow> string" where
  "token_piece v t = orth_text (tk_lexeme t) (vo_strings v) @ (if tk_spacy t then '' '' else [])"

definition doc_text :: "vocab \<Rightarrow> doc_tokens \<Rightarrow> string" where
  "doc_text v doc = concat (map (token_piece v) doc)"

section \<open>Text and offsets\<close>

text \<open>Every token's lexeme resolves to a word, and its offset counts the characters before it.\<close>

definition piece_chars :: "token_record \<Rightarrow> nat" where
  "piece_chars t = lx_length (tk_lexeme t) + (if tk_spacy t then 1 else 0)"

definition offsets_ok :: "doc_tokens \<Rightarrow> bool" where
  "offsets_ok doc \<longleftrightarrow> (\<forall>i < length doc. tk_idx (doc ! i) = sum_list (map piece_chars (take i doc)))"

definition resolves :: "vocab \<Rightarrow> lexeme \<Rightarrow> bool" where
  "resolves v lx \<longleftrightarrow> reads_as v lx (orth_text lx (vo_strings v))"

definition doc_ok :: "vocab \<Rightarrow> doc_tokens \<Rightarrow> bool" where
  "doc_ok v doc \<longleftrightarrow> list_all (\<lambda>t. resolves v (tk_lexeme t)) doc \<and> offsets_ok doc"

lemma reads_as_resolves: "reads_as v lx s \<longleftrightarrow> resolves v lx \<and> orth_text lx (vo_strings v) = s"
  by (auto simp: resolves_def reads_as_def)

lemma resolves_grows: "resolves v lx \<Longrightarrow> vocab_grows v v' \<Longrightarrow> resolves v' lx \<and> orth_text lx (vo_strings v') = orth_text lx (vo_strings v)"
  by (metis reads_as_grows reads_as_resolves)

lemma doc_ok_grows: "doc_ok v doc \<Longrightarrow> vocab_grows v v' \<Longrightarrow> doc_ok v' doc \<and> doc_text v' doc = doc_text v doc"
proof -
  assume ok: "doc_ok v doc" and g: "vocab_grows v v'"
  then have "\<forall>t \<in> set doc. resolves v' (tk_lexeme t) \<and> token_piece v' t = token_piece v t"
    using resolves_grows by (auto simp: doc_ok_def list_all_iff token_piece_def)
  with ok show ?thesis by (simp add: doc_ok_def list_all_iff doc_text_def cong: map_cong)
qed

lemma next_idx_eq: "offsets_ok doc \<Longrightarrow> next_idx doc = sum_list (map piece_chars doc)"
proof (cases doc rule: rev_cases)
  case (snoc ds d)
  assume "offsets_ok doc"
  then have "tk_idx (doc ! length ds) = sum_list (map piece_chars (take (length ds) doc))"
    unfolding offsets_ok_def snoc by (drule_tac x = "length ds" in spec) simp
  then show ?thesis by (simp add: snoc next_idx_def Let_def piece_chars_def)
qed (simp add: next_idx_def)

lemma offsets_ok_snoc: "offsets_ok (doc @ [t]) \<longleftrightarrow> offsets_ok doc \<and> tk_idx t = sum_list (map piece_chars doc)"
  by (auto simp: offsets_ok_def nth_append less_Suc_eq)

lemma push_record_spec:
  assumes "doc_ok v doc" and "reads_as v (tk_lexeme r) s"
  shows "doc_ok v (push_record doc r False)" and "doc_text v (push_record doc r False) = doc_text v doc @ s"
    and "push_record doc r False \<noteq> []" and "tk_spacy (last (push_record doc r False)) = False"
proof -
  obtain t where t: "push_record doc r False = doc @ [t]" "tk_lexeme t = tk_lexeme r" "tk_idx t = next_idx doc" "\<not> tk_spacy t"
    by (cases "doc = []") (auto simp: push_record_def Let_def)
  show "doc_ok v (push_record doc r False)" "doc_text v (push_record doc r False) = doc_text v doc @ s"
    "push_record doc r False \<noteq> []" "tk_spacy (last (push_record doc r False)) = False"
    using assms t by (auto simp: doc_ok_def offsets_ok_snoc next_idx_eq doc_text_def token_piece_def reads_as_resolves)
qed

lemma push_lexeme_eq: "push_lexeme doc lx sp = push_record doc (token_record_new lx) sp"
  by (simp add: push_lexeme_def push_record_def)

lemma token_record_new_lexeme [simp]: "tk_lexeme (token_record_new lx) = lx" "tk_norm (token_record_new lx) = 0"
  by (simp_all add: token_record_new_def)

end
