(* ===== verification/Tokenizer.thy ===== *)
theory Tokenizer
  imports Doc "HOL-Library.Sublist" "HOL-Library.Product_Lexorder"
begin

text \<open>
  The two-pass tokenizer of \<open>src/src/spacy-rs/src/tokenizer.rs\<close>.

  The compiled regular expressions are arguments: records of the three searches the code runs, each of which may
  fail. What the proofs need of them is documented behaviour of the engine and of the patterns (prefix patterns
  are anchored at the start, suffix patterns at the end, iterated matches come in order without overlap) and is
  stated as \<open>affixes_ok\<close>. The mutexes only serialise accesses, so the tokenizer's stores are part of the state
  that every operation returns, after an error too. Slices of a string at the bounds of a match are \<open>take\<close> and
  \<open>drop\<close> of its bytes.
\<close>

section \<open>State\<close>

record regex =
  rx_is_match :: "string \<Rightarrow> string + bool"
  rx_find :: "string \<Rightarrow> string + (nat \<times> nat) option"
  rx_find_iter :: "string \<Rightarrow> (string + nat \<times> nat) list"

record special_token =
  sp_orth :: lexeme
  sp_norm :: "64 word"

record special_rule =
  rule_key :: string
  rule_tokens :: "special_token list"
  rule_phrase :: "64 word list"

record tokenizer_config =
  tc_prefix_pattern :: "string option"
  tc_suffix_pattern :: "string option"
  tc_infix_pattern :: "string option"
  tc_token_match :: "string option"
  tc_url_match :: "string option"
  tc_faster_heuristics :: bool
  tc_max_cache_size :: nat

definition tokenizer_config_default :: tokenizer_config where
  "tokenizer_config_default =
     \<lparr>tc_prefix_pattern = None, tc_suffix_pattern = None, tc_infix_pattern = None, tc_token_match = None,
      tc_url_match = None, tc_faster_heuristics = True, tc_max_cache_size = 10000\<rparr>"

record tokenizer =
  tz_vocab :: vocab
  tz_prefixes :: "regex option"
  tz_suffixes :: "regex option"
  tz_infixes :: "regex option"
  tz_token_match :: "regex option"
  tz_url_match :: "regex option"
  tz_faster_heuristics :: bool
  tz_max_cache_size :: nat
  tz_specials :: "(64 word, special_rule) hmap"
  tz_rules :: "(string, special_rule) hmap"
  tz_matcher :: "special_rule list"
  tz_cache :: "(64 word, lexeme list) hmap"

text \<open>The tokenizer, the document under construction and the flag that a special case was used.\<close>

record work =
  wk_tz :: tokenizer
  wk_doc :: doc_tokens
  wk_special :: bool

section \<open>Searches\<close>

definition match_len :: "regex option \<Rightarrow> string \<Rightarrow> spacy_error + nat" where
  "match_len re s =
     (case re of
        None \<Rightarrow> Inr 0
      | Some re \<Rightarrow>
          (case rx_find re s of
             Inl e \<Rightarrow> Inl (RegexE e)
           | Inr None \<Rightarrow> Inr 0
           | Inr (Some (a, b)) \<Rightarrow> Inr (b - a)))"

definition find_prefix :: "tokenizer \<Rightarrow> string \<Rightarrow> spacy_error + nat" where
  "find_prefix tz s = match_len (tz_prefixes tz) s"

definition find_suffix :: "tokenizer \<Rightarrow> string \<Rightarrow> spacy_error + nat" where
  "find_suffix tz s = match_len (tz_suffixes tz) s"

fun collect_matches :: "(string + nat \<times> nat) list \<Rightarrow> spacy_error + (nat \<times> nat) list" where
  "collect_matches [] = Inr []"
| "collect_matches (Inl e # ms) = Inl (RegexE e)"
| "collect_matches (Inr m # ms) = bind_err (collect_matches ms) (\<lambda>out. Inr (m # out))"

definition find_infix :: "tokenizer \<Rightarrow> string \<Rightarrow> spacy_error + (nat \<times> nat) list option" where
  "find_infix tz s =
     (case tz_infixes tz of
        None \<Rightarrow> Inr None
      | Some re \<Rightarrow> bind_err (collect_matches (rx_find_iter re s)) (\<lambda>out. Inr (Some out)))"

definition is_match :: "regex option \<Rightarrow> string \<Rightarrow> spacy_error + bool" where
  "is_match re s =
     (case re of
        None \<Rightarrow> Inr False
      | Some re \<Rightarrow> (case rx_is_match re s of Inl e \<Rightarrow> Inl (RegexE e) | Inr b \<Rightarrow> Inr b))"

definition has_special :: "tokenizer \<Rightarrow> string \<Rightarrow> bool" where
  "has_special tz s = hm_contains (tz_specials tz) (hash_utf8 s)"

definition tz_lex :: "lex_env \<Rightarrow> tokenizer \<Rightarrow> string \<Rightarrow> lexeme \<times> tokenizer" where
  "tz_lex env tz text = (let (lx, v) = get_or_create env (tz_vocab tz) text in (lx, tz\<lparr>tz_vocab := v\<rparr>))"

section \<open>Affixes\<close>

function split_loop ::
    "lex_env \<Rightarrow> bool \<Rightarrow> nat \<Rightarrow> string \<Rightarrow> lexeme list \<Rightarrow> lexeme list \<Rightarrow> tokenizer
     \<Rightarrow> (spacy_error + string \<times> lexeme list \<times> lexeme list) \<times> tokenizer" where
  "split_loop env with_special last_size s ps ss tz =
     (if s = [] \<or> length s = last_size then (Inr (s, ps, ss), tz)
      else case is_match (tz_token_match tz) s of
        Inl e \<Rightarrow> (Inl e, tz)
      | Inr True \<Rightarrow> (Inr (s, ps, ss), tz)
      | Inr False \<Rightarrow>
          if with_special \<and> has_special tz s then (Inr (s, ps, ss), tz)
          else case find_prefix tz s of
            Inl e \<Rightarrow> (Inl e, tz)
          | Inr pre_len \<Rightarrow>
              if pre_len \<noteq> 0 \<and> drop pre_len s \<noteq> [] \<and> with_special \<and> has_special tz (drop pre_len s) then
                (case tz_lex env tz (take pre_len s) of (p, tz) \<Rightarrow> (Inr (drop pre_len s, ps @ [p], ss), tz))
              else case find_suffix tz (drop pre_len s) of
                Inl e \<Rightarrow> (Inl e, tz)
              | Inr suf_len \<Rightarrow>
                  let at = length s - suf_len in
                  if suf_len \<noteq> 0 \<and> take at s \<noteq> [] \<and> with_special \<and> has_special tz (take at s) then
                    (case tz_lex env tz (drop at s) of (q, tz) \<Rightarrow> (Inr (take at s, ps, ss @ [q]), tz))
                  else if pre_len \<noteq> 0 \<and> suf_len \<noteq> 0 \<and> pre_len + suf_len \<le> length s then
                    (case tz_lex env tz (take pre_len s) of (p, tz) \<Rightarrow>
                     case tz_lex env tz (drop at s) of (q, tz) \<Rightarrow>
                       split_loop env with_special (length s) (drop pre_len (take at s)) (ps @ [p]) (ss @ [q]) tz)
                  else if pre_len \<noteq> 0 then
                    (case tz_lex env tz (take pre_len s) of (p, tz) \<Rightarrow>
                       split_loop env with_special (length s) (drop pre_len s) (ps @ [p]) ss tz)
                  else if suf_len \<noteq> 0 then
                    (case tz_lex env tz (drop at s) of (q, tz) \<Rightarrow>
                       split_loop env with_special (length s) (take at s) ps (ss @ [q]) tz)
                  else split_loop env with_special (length s) s ps ss tz)"
  by pat_completeness auto
termination
  by (relation "measure (\<lambda>(_, _, last_size, s, _). 2 * length s + (if length s = last_size then 0 else 1))") auto

declare split_loop.simps [simp del]

definition split_affixes ::
    "lex_env \<Rightarrow> bool \<Rightarrow> string \<Rightarrow> tokenizer \<Rightarrow> (spacy_error + string \<times> lexeme list \<times> lexeme list) \<times> tokenizer" where
  "split_affixes env with_special s tz = split_loop env with_special 0 s [] [] tz"

section \<open>Attaching tokens\<close>

definition push_lex :: "work \<Rightarrow> lexeme \<Rightarrow> work" where
  "push_lex w lx = w\<lparr>wk_doc := push_lexeme (wk_doc w) lx False\<rparr>"

definition push_special :: "work \<Rightarrow> special_token \<Rightarrow> work" where
  "push_special w st = w\<lparr>wk_doc := push_record (wk_doc w) ((token_record_new (sp_orth st))\<lparr>tk_norm := sp_norm st\<rparr>) False\<rparr>"

definition push_word :: "lex_env \<Rightarrow> work \<Rightarrow> string \<Rightarrow> work" where
  "push_word env w s = (case tz_lex env (wk_tz w) s of (lx, tz) \<Rightarrow> push_lex (w\<lparr>wk_tz := tz\<rparr>) lx)"

definition try_specials_and_cache :: "bool \<Rightarrow> 64 word \<Rightarrow> work \<Rightarrow> bool \<times> work" where
  "try_specials_and_cache with_special key w =
     (case if with_special then hm_get (tz_specials (wk_tz w)) key else None of
        Some rule \<Rightarrow> (True, (foldl push_special w (rule_tokens rule))\<lparr>wk_special := True\<rparr>)
      | None \<Rightarrow>
          (case hm_get (tz_cache (wk_tz w)) key of
             Some cached \<Rightarrow> (True, foldl push_lex w cached)
           | None \<Rightarrow> (False, w)))"

definition infix_step :: "lex_env \<Rightarrow> string \<Rightarrow> nat \<times> work \<Rightarrow> nat \<times> nat \<Rightarrow> nat \<times> work" where
  "infix_step env s st m =
     (case st of (start, w) \<Rightarrow> case m of (a, b) \<Rightarrow>
        if a = 0 then (start, w)
        else let w = (if a \<noteq> start then push_word env w (take (a - start) (drop start s)) else w);
                 w = (if a \<noteq> b then push_word env w (take (b - a) (drop a s)) else w)
             in (b, w))"

definition attach_infixes :: "lex_env \<Rightarrow> string \<Rightarrow> (nat \<times> nat) list \<Rightarrow> work \<Rightarrow> work" where
  "attach_infixes env s ms w =
     (case foldl (infix_step env s) (0, w) ms of
        (start, w) \<Rightarrow> if drop start s \<noteq> [] then push_word env w (drop start s) else w)"

definition attach_core :: "lex_env \<Rightarrow> bool \<Rightarrow> string \<Rightarrow> work \<Rightarrow> (spacy_error + unit) \<times> work" where
  "attach_core env with_special s w =
     (if s = [] then (Inr (), w)
      else case try_specials_and_cache with_special (hash_utf8 s) w of
        (True, w) \<Rightarrow> (Inr (), w)
      | (False, w) \<Rightarrow>
          (case is_match (tz_token_match (wk_tz w)) s of
             Inl e \<Rightarrow> (Inl e, w)
           | Inr token_match_hit \<Rightarrow>
               (case is_match (tz_url_match (wk_tz w)) s of
                  Inl e \<Rightarrow> (Inl e, w)
                | Inr url_match_hit \<Rightarrow>
                    if token_match_hit \<or> url_match_hit then (Inr (), push_word env w s)
                    else case find_infix (wk_tz w) s of
                      Inl e \<Rightarrow> (Inl e, w)
                    | Inr None \<Rightarrow> (Inr (), push_word env w s)
                    | Inr (Some ms) \<Rightarrow>
                        if ms = [] then (Inr (), push_word env w s) else (Inr (), attach_infixes env s ms w))))"

definition attach_tokens ::
    "lex_env \<Rightarrow> bool \<Rightarrow> string \<Rightarrow> lexeme list \<Rightarrow> lexeme list \<Rightarrow> work \<Rightarrow> (spacy_error + unit) \<times> work" where
  "attach_tokens env with_special s ps ss w =
     (case attach_core env with_special s (foldl push_lex w ps) of
        (Inl e, w) \<Rightarrow> (Inl e, w)
      | (Inr _, w) \<Rightarrow> (Inr (), foldl push_lex w (rev ss)))"

definition tokenize_span :: "lex_env \<Rightarrow> bool \<Rightarrow> string \<Rightarrow> 64 word \<Rightarrow> work \<Rightarrow> (spacy_error + unit) \<times> work" where
  "tokenize_span env with_special span key w =
     (let orig_size = length (wk_doc w) in
      case split_affixes env with_special span (wk_tz w) of
        (Inl e, tz) \<Rightarrow> (Inl e, w\<lparr>wk_tz := tz\<rparr>)
      | (Inr (remaining, ps, ss), tz) \<Rightarrow>
          (case attach_tokens env with_special remaining ps ss (w\<lparr>wk_tz := tz\<rparr>) of
             (Inl e, w) \<Rightarrow> (Inl e, w)
           | (Inr _, w) \<Rightarrow>
               let n = length (wk_doc w) - orig_size; tz = wk_tz w in
               if \<not> wk_special w \<and> n > 0 \<and> length (tz_cache tz) < tz_max_cache_size tz then
                 (Inr (), w\<lparr>wk_tz := tz\<lparr>tz_cache :=
                    hm_insert (tz_cache tz) key (map tk_lexeme (drop orig_size (wk_doc w)))\<rparr>\<rparr>)
               else (Inr (), w)))"

section \<open>Pass 1\<close>

definition run_span :: "lex_env \<Rightarrow> bool \<Rightarrow> string \<Rightarrow> work \<Rightarrow> (spacy_error + unit) \<times> work" where
  "run_span env with_special span w =
     (case try_specials_and_cache with_special (hash_utf8 span) w of
        (True, w) \<Rightarrow> (Inr (), w)
      | (False, w) \<Rightarrow> tokenize_span env with_special span (hash_utf8 span) w)"

definition set_last_spacy :: "bool \<Rightarrow> string \<Rightarrow> work \<Rightarrow> (spacy_error + unit) \<times> work" where
  "set_last_spacy sp msg w =
     (if wk_doc w = [] then (Inl (AnnotationE msg), w)
      else (Inr (), w\<lparr>wk_doc := butlast (wk_doc w) @ [(last (wk_doc w))\<lparr>tk_spacy := sp\<rparr>]\<rparr>))"

text \<open>One round of the scan over the characters: the start of the pending run and whether it is white space.\<close>

definition scan_char ::
    "lex_env \<Rightarrow> bool \<Rightarrow> string list \<Rightarrow> nat \<Rightarrow> nat \<times> bool \<times> work \<Rightarrow> (spacy_error + nat \<times> bool) \<times> work" where
  "scan_char env with_special cs i st =
     (case st of (start, in_ws, w) \<Rightarrow>
        if is_whitespace (cs ! i) = in_ws then (Inr (start, in_ws), w)
        else case (if start < i then run_span env with_special (concat (take (i - start) (drop start cs))) w else (Inr (), w)) of
          (Inl e, w) \<Rightarrow> (Inl e, w)
        | (Inr _, w) \<Rightarrow>
            if cs ! i = '' '' then
              (case set_last_spacy True ''no token before space'' w of
                 (Inl e, w) \<Rightarrow> (Inl e, w)
               | (Inr _, w) \<Rightarrow> (Inr (i + 1, \<not> in_ws), w))
            else (Inr (i, \<not> in_ws), w))"

fun scan ::
    "lex_env \<Rightarrow> bool \<Rightarrow> string list \<Rightarrow> nat list \<Rightarrow> nat \<times> bool \<times> work \<Rightarrow> (spacy_error + nat \<times> bool) \<times> work" where
  "scan env with_special cs [] (start, in_ws, w) = (Inr (start, in_ws), w)"
| "scan env with_special cs (i # is) (start, in_ws, w) =
     (case scan_char env with_special cs i (start, in_ws, w) of
        (Inl e, w) \<Rightarrow> (Inl e, w)
      | (Inr (start, in_ws), w) \<Rightarrow> scan env with_special cs is (start, in_ws, w))"

definition tokenize_affixes :: "lex_env \<Rightarrow> bool \<Rightarrow> string \<Rightarrow> tokenizer \<Rightarrow> (spacy_error + doc_tokens) \<times> tokenizer" where
  "tokenize_affixes env with_special text tz =
     (if length text \<ge> 2 ^ 30 then (Inl (TextTooLong (length text)), tz)
      else if text = [] then (Inr [], tz)
      else let cs = chars text; n = length cs in
        case scan env with_special cs [0..<n] (0, is_whitespace (cs ! 0), \<lparr>wk_tz = tz, wk_doc = [], wk_special = False\<rparr>) of
          (Inl e, w) \<Rightarrow> (Inl e, wk_tz w)
        | (Inr (start, in_ws), w) \<Rightarrow>
            if start < n then
              (case run_span env with_special (concat (drop start cs)) w of
                 (Inl e, w) \<Rightarrow> (Inl e, wk_tz w)
               | (Inr _, w) \<Rightarrow>
                   (case set_last_spacy (last cs = '' '' \<and> \<not> in_ws) ''no token after final span'' w of
                      (Inl e, w) \<Rightarrow> (Inl e, wk_tz w)
                    | (Inr _, w) \<Rightarrow> (Inr (wk_doc w), wk_tz w)))
            else (Inr (wk_doc w), wk_tz w))"

section \<open>Pass 2\<close>

definition find_phrase_matches :: "tokenizer \<Rightarrow> doc_tokens \<Rightarrow> (special_rule \<times> nat \<times> nat) list" where
  "find_phrase_matches tz doc =
     (let orth = map (\<lambda>t. lx_orth (tk_lexeme t)) doc; n = length orth in
      concat (map (\<lambda>rule.
        let phrase = rule_phrase rule; plen = length phrase in
        if plen = 0 \<or> plen > n then []
        else map (\<lambda>start. (rule, start, start + plen))
               (filter (\<lambda>start. take plen (drop start orth) = phrase) [0..<n - plen + 1])) (tz_matcher tz)))"

definition filter_step ::
    "nat set \<times> (special_rule \<times> nat \<times> nat) list \<Rightarrow> special_rule \<times> nat \<times> nat \<Rightarrow> nat set \<times> (special_rule \<times> nat \<times> nat) list" where
  "filter_step st m =
     (case st of (seen, filtered) \<Rightarrow> case m of (rule, start, stop) \<Rightarrow>
        (seen \<union> {start..<stop},
         if start \<notin> seen \<and> stop - 1 \<notin> seen then filtered @ [(rule, start, stop)] else filtered))"

definition filter_special_spans :: "(special_rule \<times> nat \<times> nat) list \<Rightarrow> (special_rule \<times> nat \<times> nat) list" where
  "filter_special_spans ms =
     (let sorted_ms = sort_key (\<lambda>(_, start, stop). (stop - start, - int start)) ms
      in sort_key (\<lambda>(_, start, _). start) (snd (foldl filter_step ({}, []) (rev sorted_ms))))"

text \<open>The tokens a rule puts in place of the tokens from \<open>i\<close> to \<open>stop\<close>.\<close>

fun special_records :: "nat \<Rightarrow> bool \<Rightarrow> special_token list \<Rightarrow> token_record list" where
  "special_records idx final_spacy [] = []"
| "special_records idx final_spacy (st # sts) =
     (token_record_new (sp_orth st))\<lparr>tk_norm := sp_norm st, tk_idx := idx, tk_spacy := sts = [] \<and> final_spacy\<rparr>
     # special_records (idx + lx_length (sp_orth st)) final_spacy sts"

text \<open>
  The splicing loop. \<open>None\<close> where a span's end is out of range (the code would panic) or not beyond its start (it
  would loop for ever).
\<close>

function splice_loop ::
    "doc_tokens \<Rightarrow> (nat, special_rule \<times> nat) hmap \<Rightarrow> nat \<Rightarrow> doc_tokens \<Rightarrow> doc_tokens option" where
  "splice_loop doc span_data i out =
     (if i < length doc then
        (case hm_get span_data i of
           Some (rule, stop) \<Rightarrow>
             if stop \<le> i \<or> stop > length doc then None
             else splice_loop doc span_data stop
               (out @ special_records (tk_idx (doc ! i)) (tk_spacy (doc ! (stop - 1))) (rule_tokens rule))
         | None \<Rightarrow> splice_loop doc span_data (i + 1) (out @ [doc ! i]))
      else Some out)"
  by pat_completeness auto
termination by (relation "measure (\<lambda>(doc, _, i, _). length doc - i)") auto

declare splice_loop.simps [simp del]

definition apply_special_cases :: "tokenizer \<Rightarrow> doc_tokens \<Rightarrow> doc_tokens option" where
  "apply_special_cases tz doc =
     (let matches = find_phrase_matches tz doc in
      if matches = [] then Some doc
      else splice_loop doc
        (foldl (\<lambda>d (rule, start, stop). hm_insert d start (rule, stop)) hm_empty (filter_special_spans matches)) 0 [])"

definition tokenize :: "lex_env \<Rightarrow> string \<Rightarrow> tokenizer \<Rightarrow> (spacy_error + doc_tokens) option \<times> tokenizer" where
  "tokenize env text tz =
     (case tokenize_affixes env True text tz of
        (Inl e, tz) \<Rightarrow> (Some (Inl e), tz)
      | (Inr doc, tz) \<Rightarrow> (case apply_special_cases tz doc of None \<Rightarrow> (None, tz) | Some doc \<Rightarrow> (Some (Inr doc), tz)))"

section \<open>Special cases\<close>

text \<open>A rule as the language data has it: its text and the tokens it is split into, each with an optional norm.\<close>

type_synonym special_case_data = "string \<times> (string \<times> string option) list"

definition intern_special :: "lex_env \<Rightarrow> special_token list \<times> tokenizer \<Rightarrow> string \<times> string option \<Rightarrow> special_token list \<times> tokenizer" where
  "intern_special env st tok =
     (case st of (sts, tz) \<Rightarrow> case tok of (orth, norm) \<Rightarrow>
      case tz_lex env tz orth of (lx, tz) \<Rightarrow>
        (case norm of
           None \<Rightarrow> (sts @ [\<lparr>sp_orth = lx, sp_norm = 0\<rparr>], tz)
         | Some n \<Rightarrow>
             (case ss_add (vo_strings (tz_vocab tz)) n of (h, strings) \<Rightarrow>
               (sts @ [\<lparr>sp_orth = lx, sp_norm = h\<rparr>], tz\<lparr>tz_vocab := (tz_vocab tz)\<lparr>vo_strings := strings\<rparr>\<rparr>))))"

definition has_affix :: "tokenizer \<Rightarrow> string \<Rightarrow> spacy_error + bool" where
  "has_affix tz key =
     bind_err (find_prefix tz key) (\<lambda>p.
       if p \<noteq> 0 then Inr True
       else bind_err (find_infix tz key) (\<lambda>ms.
         if (case ms of None \<Rightarrow> False | Some v \<Rightarrow> v \<noteq> []) then Inr True
         else bind_err (find_suffix tz key) (\<lambda>q. Inr (q \<noteq> 0))))"

definition insert_rule :: "tokenizer \<Rightarrow> special_rule \<Rightarrow> bool \<Rightarrow> tokenizer" where
  "insert_rule tz rule in_matcher =
     tz\<lparr>tz_specials := hm_insert (tz_specials tz) (hash_utf8 (rule_key rule)) rule,
        tz_rules := hm_insert (tz_rules tz) (rule_key rule) rule,
        tz_matcher := (if in_matcher then tz_matcher tz @ [rule] else tz_matcher tz), tz_cache := hm_empty\<rparr>"

definition add_special_case :: "lex_env \<Rightarrow> tokenizer \<Rightarrow> special_case_data \<Rightarrow> (spacy_error + unit) \<times> tokenizer" where
  "add_special_case env tz ex =
     (case ex of (key, tokens) \<Rightarrow>
      if concat (map fst tokens) \<noteq> key then (Inl (SpecialCaseE key), tz)
      else case foldl (intern_special env) ([], tz) tokens of (special_tokens, tz) \<Rightarrow>
        (case has_affix tz key of
           Inl e \<Rightarrow> (Inl e, tz)
         | Inr affix \<Rightarrow>
             let has_space = CHR '' '' \<in> set key; in_matcher = (\<not> tz_faster_heuristics tz \<or> has_space \<or> affix) in
             if in_matcher then
               (case tokenize_affixes env False key tz of
                  (Inl e, tz) \<Rightarrow> (Inl e, tz)
                | (Inr doc, tz) \<Rightarrow>
                    (Inr (), insert_rule tz
                       \<lparr>rule_key = key, rule_tokens = special_tokens, rule_phrase = map (\<lambda>t. lx_orth (tk_lexeme t)) doc\<rparr> True))
             else (Inr (), insert_rule tz \<lparr>rule_key = key, rule_tokens = special_tokens, rule_phrase = []\<rparr> False)))"

fun add_special_cases :: "lex_env \<Rightarrow> special_case_data list \<Rightarrow> tokenizer \<Rightarrow> spacy_error + tokenizer" where
  "add_special_cases env [] tz = Inr tz"
| "add_special_cases env (ex # exs) tz =
     (case add_special_case env tz ex of (Inl e, tz) \<Rightarrow> Inl e | (Inr _, tz) \<Rightarrow> add_special_cases env exs tz)"

definition compile_opt :: "(string \<Rightarrow> string + regex) \<Rightarrow> string option \<Rightarrow> spacy_error + regex option" where
  "compile_opt compile p =
     (case p of None \<Rightarrow> Inr None | Some p \<Rightarrow> (case compile p of Inl e \<Rightarrow> Inl (RegexE e) | Inr re \<Rightarrow> Inr (Some re)))"

definition tokenizer_new ::
    "(string \<Rightarrow> string + regex) \<Rightarrow> lex_env \<Rightarrow> vocab \<Rightarrow> tokenizer_config \<Rightarrow> special_case_data list \<Rightarrow> spacy_error + tokenizer" where
  "tokenizer_new compile env v config exceptions =
     bind_err (compile_opt compile (tc_prefix_pattern config)) (\<lambda>prefixes.
     bind_err (compile_opt compile (tc_suffix_pattern config)) (\<lambda>suffixes.
     bind_err (compile_opt compile (tc_infix_pattern config)) (\<lambda>infixes.
     bind_err (compile_opt compile (tc_token_match config)) (\<lambda>token_match.
     bind_err (compile_opt compile (tc_url_match config)) (\<lambda>url_match.
       add_special_cases env exceptions
         \<lparr>tz_vocab = v, tz_prefixes = prefixes, tz_suffixes = suffixes, tz_infixes = infixes,
          tz_token_match = token_match, tz_url_match = url_match,
          tz_faster_heuristics = tc_faster_heuristics config, tz_max_cache_size = tc_max_cache_size config,
          tz_specials = hm_empty, tz_rules = hm_empty, tz_matcher = [], tz_cache = hm_empty\<rparr>)))))"

end
