(* ===== verification/TokenizerText.thy ===== *)
theory TokenizerText
  imports Tokenizer
begin

text \<open>
  The tokenizer keeps the text. Every operation of the first pass appends unspaced tokens that spell the string it
  was given (\<open>adds\<close>), whatever the special cases and the span cache contain, and the scan over runs of white space
  adds the single spaces back as flags; the tokens of the finished document then concatenate to the input, and
  their offsets count its characters. Words are told apart by their 64-bit hashes, so the statements are relative
  to a set \<open>U\<close> of strings without collisions that contains every piece of the text and the strings interned with
  it.
\<close>

section \<open>Well-formed tokenizers\<close>

definition interned :: "lex_env \<Rightarrow> string set \<Rightarrow> string \<Rightarrow> bool" where
  "interned env U text \<longleftrightarrow> (\<forall>t \<in> set (sublists text) - {[]}. \<forall>s \<in> set (lex_strings env t). s \<in> U \<or> s = [])"

definition prefix_ok :: "regex \<Rightarrow> bool" where
  "prefix_ok re \<longleftrightarrow> (\<forall>s a b. rx_find re s = Inr (Some (a, b)) \<longrightarrow> a = 0 \<and> b \<le> length s)"

definition suffix_ok :: "regex \<Rightarrow> bool" where
  "suffix_ok re \<longleftrightarrow> (\<forall>s a b. rx_find re s = Inr (Some (a, b)) \<longrightarrow> a \<le> b \<and> b = length s)"

text \<open>Matches from position \<open>p\<close> on, in order and without overlap.\<close>

fun ordered_from :: "nat \<Rightarrow> nat \<Rightarrow> (nat \<times> nat) list \<Rightarrow> bool" where
  "ordered_from p n [] \<longleftrightarrow> p \<le> n"
| "ordered_from p n ((a, b) # ms) \<longleftrightarrow> p \<le> a \<and> a \<le> b \<and> ordered_from b n ms"

definition infix_ok :: "regex \<Rightarrow> bool" where
  "infix_ok re \<longleftrightarrow> (\<forall>s ms. rx_find_iter re s = map Inr ms \<longrightarrow> ordered_from 0 (length s) ms)"

definition affixes_ok :: "tokenizer \<Rightarrow> bool" where
  "affixes_ok tz \<longleftrightarrow> pred_option prefix_ok (tz_prefixes tz) \<and> pred_option suffix_ok (tz_suffixes tz) \<and>
     pred_option infix_ok (tz_infixes tz)"

definition spells :: "vocab \<Rightarrow> lexeme list \<Rightarrow> string \<Rightarrow> bool" where
  "spells v ls s \<longleftrightarrow> list_all (resolves v) ls \<and> concat (map (\<lambda>lx. orth_text lx (vo_strings v)) ls) = s"

text \<open>A rule's tokens spell its text, and so does its phrase when the text has no space to lose.\<close>

definition orth_str :: "vocab \<Rightarrow> 64 word \<Rightarrow> string" where
  "orth_str v k = (case ss_get (vo_strings v) k of None \<Rightarrow> [] | Some s \<Rightarrow> s)"

definition rule_ok :: "string set \<Rightarrow> vocab \<Rightarrow> special_rule \<Rightarrow> bool" where
  "rule_ok U v r \<longleftrightarrow> rule_key r \<in> U \<and> spells v (map sp_orth (rule_tokens r)) (rule_key r)"

definition phrase_ok :: "vocab \<Rightarrow> special_rule \<Rightarrow> bool" where
  "phrase_ok v r \<longleftrightarrow> (rule_key r = [] \<longrightarrow> rule_phrase r = []) \<and> (CHR '' '' \<notin> set (rule_key r) \<longrightarrow>
     list_all (\<lambda>k. ss_get (vo_strings v) k \<noteq> None) (rule_phrase r) \<and> concat (map (orth_str v) (rule_phrase r)) = rule_key r)"

definition tz_ok :: "string set \<Rightarrow> tokenizer \<Rightarrow> bool" where
  "tz_ok U tz \<longleftrightarrow> hash_safe U \<and> vocab_ok U (tz_vocab tz) \<and> affixes_ok tz \<and>
     (\<forall>k r. hm_get (tz_specials tz) k = Some r \<longrightarrow> k = hash_utf8 (rule_key r) \<and> rule_ok U (tz_vocab tz) r) \<and>
     (\<forall>r \<in> set (tz_matcher tz). rule_ok U (tz_vocab tz) r \<and> phrase_ok (tz_vocab tz) r) \<and>
     (\<forall>k ls. hm_get (tz_cache tz) k = Some ls \<longrightarrow> (\<exists>s \<in> U. k = hash_utf8 s \<and> spells (tz_vocab tz) ls s))"

definition steps :: "string set \<Rightarrow> tokenizer \<Rightarrow> tokenizer \<Rightarrow> bool" where
  "steps U tz tz' \<longleftrightarrow> tz_ok U tz' \<and> vocab_grows (tz_vocab tz) (tz_vocab tz') \<and>
     tz' = tz\<lparr>tz_vocab := tz_vocab tz', tz_cache := tz_cache tz'\<rparr>"

definition adds :: "string set \<Rightarrow> work \<Rightarrow> work \<Rightarrow> string \<Rightarrow> bool" where
  "adds U w w' s \<longleftrightarrow> steps U (wk_tz w) (wk_tz w') \<and> offsets_ok (wk_doc w') \<and>
     (\<exists>ts. wk_doc w' = wk_doc w @ ts \<and> list_all (\<lambda>t. \<not> tk_spacy t) ts \<and> spells (tz_vocab (wk_tz w')) (map tk_lexeme ts) s)"

definition wk_ok :: "string set \<Rightarrow> work \<Rightarrow> bool" where
  "wk_ok U w \<longleftrightarrow> tz_ok U (wk_tz w) \<and> offsets_ok (wk_doc w)"

text \<open>An operation on a string: it adds the string or reports an error of the regex engine.\<close>

definition outcome :: "string set \<Rightarrow> work \<Rightarrow> string \<Rightarrow> (spacy_error + unit) \<times> work \<Rightarrow> bool" where
  "outcome U w s res \<longleftrightarrow>
     (case res of
        (Inl e, w') \<Rightarrow> (\<exists>m. e = RegexE m) \<and> steps U (wk_tz w) (wk_tz w')
      | (Inr _, w') \<Rightarrow> adds U w w' s)"

section \<open>Growing vocabularies\<close>

lemma spells_simps [simp]:
  "spells v [] s \<longleftrightarrow> s = []"
  "spells v (lx # ls) s \<longleftrightarrow> (\<exists>a b. s = a @ b \<and> reads_as v lx a \<and> spells v ls b)"
  by (auto simp: spells_def reads_as_resolves)

lemma spells_append: "spells v ls s \<Longrightarrow> spells v ms t \<Longrightarrow> spells v (ls @ ms) (s @ t)"
  by (auto simp: spells_def)

lemma spells_grows: "spells v ls s \<Longrightarrow> vocab_grows v v' \<Longrightarrow> spells v' ls s"
  by (induction ls arbitrary: s) (auto dest: reads_as_grows)

lemma phrase_ok_grows:
  assumes "phrase_ok v r" and "vocab_grows v v'"
  shows "phrase_ok v' r"
proof -
  have "ss_get (vo_strings v') k \<noteq> None \<and> orth_str v' k = orth_str v k" if "ss_get (vo_strings v) k \<noteq> None" for k
    using that assms(2) by (auto simp: vocab_grows_def orth_str_def)
  then show ?thesis using assms(1) by (auto simp: phrase_ok_def list_all_iff cong: map_cong)
qed

lemma tz_ok_grows:
  assumes "tz_ok U tz" and "vocab_grows (tz_vocab tz) v" and "vocab_ok U v"
  shows "steps U tz (tz\<lparr>tz_vocab := v\<rparr>)"
proof -
  note g = spells_grows [OF _ assms(2)] phrase_ok_grows [OF _ assms(2)]
  have "tz_ok U (tz\<lparr>tz_vocab := v\<rparr>)"
    using assms(1,3) g unfolding tz_ok_def rule_ok_def by (simp add: affixes_ok_def) blast
  then show ?thesis using assms(2) by (simp add: steps_def)
qed

lemma steps_refl [simp]: "tz_ok U tz \<Longrightarrow> steps U tz tz"
  by (simp add: steps_def)

lemma steps_trans:
  assumes "steps U a b" and "steps U b c"
  shows "steps U a c"
proof -
  have "b = a\<lparr>tz_vocab := tz_vocab b, tz_cache := tz_cache b\<rparr>" "c = b\<lparr>tz_vocab := tz_vocab c, tz_cache := tz_cache c\<rparr>"
    using assms by (simp_all add: steps_def)
  then have "c = a\<lparr>tz_vocab := tz_vocab c, tz_cache := tz_cache c\<rparr>"
    by (cases a; cases b; cases c) simp
  with assms show ?thesis by (auto simp: steps_def intro: vocab_grows_trans)
qed

lemma stepsD:
  "steps U tz tz' \<Longrightarrow> tz_ok U tz'" "steps U tz tz' \<Longrightarrow> vocab_grows (tz_vocab tz) (tz_vocab tz')"
  by (simp_all add: steps_def)

lemma steps_matcher: "steps U tz tz' \<Longrightarrow> tz_matcher tz' = tz_matcher tz"
  unfolding steps_def by (cases tz; cases tz') simp

lemma interned_sublist: "interned env U s \<Longrightarrow> sublist t s \<Longrightarrow> interned env U t"
  by (auto simp: interned_def intro: sublist_order.order.trans)

lemma interned_mem: "interned env U s \<Longrightarrow> s \<noteq> [] \<Longrightarrow> s \<in> U"
  by (auto simp: interned_def lex_strings_def)

lemma tz_lex_spec:
  assumes "tz_ok U tz" and "interned env U s" and "tz_lex env tz s = (lx, tz')"
  shows "steps U tz tz' \<and> reads_as (tz_vocab tz') lx s"
proof (cases "s = []")
  case True
  with assms show ?thesis
    by (auto simp: tz_lex_def get_or_create_def reads_as_def lexeme_empty_def orth_text_def ss_get_def)
next
  case False
  obtain v where v: "get_or_create env (tz_vocab tz) s = (lx, v)" and tz': "tz' = tz\<lparr>tz_vocab := v\<rparr>"
    using assms(3) by (auto simp: tz_lex_def split: prod.splits)
  have "\<forall>x \<in> set (lex_strings env s). x \<in> U \<or> x = []" using assms(2) False by (auto simp: interned_def)
  moreover have "hash_safe U" "vocab_ok U (tz_vocab tz)" using assms(1) by (simp_all add: tz_ok_def)
  ultimately show ?thesis
    using get_or_create_spec [OF _ _ False _ v] tz_ok_grows [OF assms(1), of v] by (simp add: tz')
qed

lemma interned_piece [intro]: "interned env U s \<Longrightarrow> interned env U (take n s)" "interned env U s \<Longrightarrow> interned env U (drop n s)"
  by (auto elim: interned_sublist)

section \<open>Searches\<close>

lemma match_len_cases:
  assumes "pred_option prefix_ok re \<or> pred_option suffix_ok re"
  shows "(\<exists>m. match_len re s = Inl (RegexE m)) \<or> (\<exists>n \<le> length s. match_len re s = Inr n)"
proof -
  have "b - a \<le> length s" if "re = Some r" "rx_find r s = Inr (Some (a, b))" for r a b
    using assms that by (fastforce simp: prefix_ok_def suffix_ok_def)
  then show ?thesis by (auto simp: match_len_def split: option.splits sum.splits)
qed

lemma find_cases:
  assumes "tz_ok U tz"
  shows "(\<exists>m. find_prefix tz s = Inl (RegexE m)) \<or> (\<exists>n \<le> length s. find_prefix tz s = Inr n)"
    and "(\<exists>m. find_suffix tz s = Inl (RegexE m)) \<or> (\<exists>n \<le> length s. find_suffix tz s = Inr n)"
  using assms match_len_cases by (auto simp: tz_ok_def affixes_ok_def find_prefix_def find_suffix_def)

lemma is_match_cases: "(\<exists>m. is_match re s = Inl (RegexE m)) \<or> (\<exists>b. is_match re s = Inr b)"
  by (auto simp: is_match_def split: option.split sum.split)

lemma collect_matches_Inr: "collect_matches xs = Inr ms \<longleftrightarrow> xs = map Inr ms"
  by (induction xs arbitrary: ms rule: collect_matches.induct) (auto simp: bind_err_Inr)

lemma collect_matches_Inl: "collect_matches xs = Inl e \<Longrightarrow> \<exists>m. e = RegexE m"
  by (induction xs rule: collect_matches.induct) (auto simp: bind_err_def split: sum.splits)

lemma find_infix_cases:
  assumes "tz_ok U tz"
  shows "(\<exists>m. find_infix tz s = Inl (RegexE m)) \<or> find_infix tz s = Inr None \<or>
    (\<exists>ms. find_infix tz s = Inr (Some ms) \<and> ordered_from 0 (length s) ms)"
proof (cases "tz_infixes tz")
  case (Some re)
  with assms have ok: "infix_ok re" by (simp add: tz_ok_def affixes_ok_def)
  show ?thesis
  proof (cases "collect_matches (rx_find_iter re s)")
    case (Inl e)
    with collect_matches_Inl Some show ?thesis by (fastforce simp: find_infix_def bind_err_def)
  next
    case (Inr ms)
    then have "ordered_from 0 (length s) ms" using ok by (auto simp: collect_matches_Inr infix_ok_def)
    with Inr Some show ?thesis by (simp add: find_infix_def)
  qed
qed (simp add: find_infix_def)

section \<open>Splitting affixes\<close>

definition split_to ::
    "string set \<Rightarrow> tokenizer \<Rightarrow> string \<Rightarrow> lexeme list \<Rightarrow> lexeme list
     \<Rightarrow> (spacy_error + string \<times> lexeme list \<times> lexeme list) \<times> tokenizer \<Rightarrow> bool" where
  "split_to U tz s ps ss res \<longleftrightarrow>
     (case res of
        (Inl e, tz') \<Rightarrow> (\<exists>m. e = RegexE m) \<and> steps U tz tz'
      | (Inr (r, ps', ss'), tz') \<Rightarrow> steps U tz tz' \<and>
          (\<exists>a b as bs. s = a @ r @ b \<and> ps' = ps @ as \<and> ss' = ss @ bs \<and>
             spells (tz_vocab tz') as a \<and> spells (tz_vocab tz') (rev bs) b))"

lemma split_to_InrI:
  assumes "steps U tz tz'" and "s = a @ r @ b" and "ps' = ps @ as" and "ss' = ss @ bs" and "spells (tz_vocab tz') as a"
    and "spells (tz_vocab tz') (rev bs) b"
  shows "split_to U tz s ps ss (Inr (r, ps', ss'), tz')"
  using assms by (auto simp: split_to_def)

lemma split_stop: "tz_ok U tz \<Longrightarrow> split_to U tz s ps ss (Inr (s, ps, ss), tz)"
  by (auto simp: split_to_def)

lemma split_err: "tz_ok U tz \<Longrightarrow> split_to U tz s ps ss (Inl (RegexE m), tz)"
  by (auto simp: split_to_def)

lemma split_left:
  assumes st: "steps U tz tz'" and r: "reads_as (tz_vocab tz') p (take n s)" and to: "split_to U tz' (drop n s) (ps @ [p]) ss res"
  shows "split_to U tz s ps ss res"
proof (cases res)
  case (Pair o' tz'')
  show ?thesis
  proof (cases o')
    case (Inl e)
    with to Pair st show ?thesis by (auto simp: split_to_def intro: steps_trans)
  next
    case (Inr x)
    obtain q ps' ss' where x: "x = (q, ps', ss')" by (cases x)
    from to Pair Inr x obtain a b as bs where *: "steps U tz' tz''" "drop n s = a @ q @ b" "ps' = ps @ [p] @ as" "ss' = ss @ bs"
        "spells (tz_vocab tz'') as a" "spells (tz_vocab tz'') (rev bs) b"
      by (auto simp: split_to_def)
    have "reads_as (tz_vocab tz'') p (take n s)" using r stepsD(2) [OF *(1)] by (rule reads_as_grows)
    then have "spells (tz_vocab tz'') (p # as) (take n s @ a)" using *(5) by auto
    moreover have "s = (take n s @ a) @ q @ b" using *(2) by (metis append.assoc append_take_drop_id)
    moreover have "steps U tz tz''" using st *(1) by (rule steps_trans)
    ultimately show ?thesis unfolding Pair Inr x using *(3,4,6) by (intro split_to_InrI [of _ _ _ _ _ _ b _ _ "p # as"]) simp_all
  qed
qed

lemma split_right:
  assumes st: "steps U tz tz'" and r: "reads_as (tz_vocab tz') p (drop n s)" and to: "split_to U tz' (take n s) ps (ss @ [p]) res"
  shows "split_to U tz s ps ss res"
proof (cases res)
  case (Pair o' tz'')
  show ?thesis
  proof (cases o')
    case (Inl e)
    with to Pair st show ?thesis by (auto simp: split_to_def intro: steps_trans)
  next
    case (Inr x)
    obtain q ps' ss' where x: "x = (q, ps', ss')" by (cases x)
    from to Pair Inr x obtain a b as bs where *: "steps U tz' tz''" "take n s = a @ q @ b" "ps' = ps @ as" "ss' = ss @ [p] @ bs"
        "spells (tz_vocab tz'') as a" "spells (tz_vocab tz'') (rev bs) b"
      by (auto simp: split_to_def)
    have "reads_as (tz_vocab tz'') p (drop n s)" using r stepsD(2) [OF *(1)] by (rule reads_as_grows)
    then have "spells (tz_vocab tz'') (rev (p # bs)) (b @ drop n s)" using spells_append [OF *(6), of "[p]"] by simp
    moreover have "s = a @ q @ b @ drop n s" using *(2) by (metis append.assoc append_take_drop_id)
    moreover have "steps U tz tz''" using st *(1) by (rule steps_trans)
    ultimately show ?thesis unfolding Pair Inr x using *(3,4,5)
      by (intro split_to_InrI [of _ _ _ _ a _ "b @ drop n s" _ _ _ _ _ "p # bs"]) simp_all
  qed
qed

text \<open>A turn that stops at a special case after peeling off one affix.\<close>

lemma split_lexed:
  assumes ok: "tz_ok U tz" and int: "interned env U s"
  shows "split_to U tz s ps ss (case tz_lex env tz (take n s) of (p, tz) \<Rightarrow> (Inr (drop n s, ps @ [p], ss), tz))"
    and "split_to U tz s ps ss (case tz_lex env tz (drop n s) of (q, tz) \<Rightarrow> (Inr (take n s, ps, ss @ [q]), tz))"
proof -
  obtain p tzp where p: "tz_lex env tz (take n s) = (p, tzp)" by force
  obtain q tzq where q: "tz_lex env tz (drop n s) = (q, tzq)" by force
  from tz_lex_spec [OF ok interned_piece(1) [OF int] p] have lp: "steps U tz tzp" "reads_as (tz_vocab tzp) p (take n s)" by auto
  from tz_lex_spec [OF ok interned_piece(2) [OF int] q] have lq: "steps U tz tzq" "reads_as (tz_vocab tzq) q (drop n s)" by auto
  show "split_to U tz s ps ss (case tz_lex env tz (take n s) of (p, tz) \<Rightarrow> (Inr (drop n s, ps @ [p], ss), tz))"
    using split_left [OF lp split_stop [OF stepsD(1) [OF lp(1)]]] by (simp add: p)
  show "split_to U tz s ps ss (case tz_lex env tz (drop n s) of (q, tz) \<Rightarrow> (Inr (take n s, ps, ss @ [q]), tz))"
    using split_right [OF lq split_stop [OF stepsD(1) [OF lq(1)]]] by (simp add: q)
qed

lemma split_both:
  assumes p: "steps U tz tz'" "reads_as (tz_vocab tz') p (take n s)" and q: "steps U tz' tz''" "reads_as (tz_vocab tz'') q (drop m s)"
    and "n \<le> m" and to: "split_to U tz'' (drop n (take m s)) (ps @ [p]) (ss @ [q]) res"
  shows "split_to U tz s ps ss res"
proof (rule split_left [OF p], rule split_right [OF q(1)])
  show "reads_as (tz_vocab tz'') q (drop (m - n) (drop n s))" using q(2) \<open>n \<le> m\<close> by simp
  show "split_to U tz'' (take (m - n) (drop n s)) (ps @ [p]) (ss @ [q]) res" using to by (simp add: drop_take)
qed

text \<open>A turn that peels off a prefix of \<open>n\<close> and a suffix of \<open>k\<close> bytes and goes on with what is left.\<close>

lemma split_continue:
  assumes ok: "tz_ok U tz" and int: "interned env U s" and s: "s \<noteq> []" and n: "n \<le> length s" and k: "k \<le> length s - n"
    and rest: "\<And>t tz' ps ss. length t < length s \<or> t = s \<Longrightarrow> tz_ok U tz' \<Longrightarrow> interned env U t \<Longrightarrow> split_to U tz' t ps ss (go t ps ss tz')"
  shows "split_to U tz s ps ss
    (let at = length s - k in
     if n \<noteq> 0 \<and> k \<noteq> 0 \<and> n + k \<le> length s then
       (case tz_lex env tz (take n s) of (p, tz) \<Rightarrow> case tz_lex env tz (drop at s) of (q, tz) \<Rightarrow>
          go (drop n (take at s)) (ps @ [p]) (ss @ [q]) tz)
     else if n \<noteq> 0 then (case tz_lex env tz (take n s) of (p, tz) \<Rightarrow> go (drop n s) (ps @ [p]) ss tz)
     else if k \<noteq> 0 then (case tz_lex env tz (drop at s) of (q, tz) \<Rightarrow> go (take at s) ps (ss @ [q]) tz)
     else go s ps ss tz)"
proof -
  let ?at = "length s - k"
  obtain p tzp where p: "tz_lex env tz (take n s) = (p, tzp)" by force
  obtain q tzq where q: "tz_lex env tz (drop ?at s) = (q, tzq)" by force
  obtain q' tzr where q': "tz_lex env tzp (drop ?at s) = (q', tzr)" by force
  from tz_lex_spec [OF ok interned_piece(1) [OF int] p] have lp: "steps U tz tzp" "reads_as (tz_vocab tzp) p (take n s)" by auto
  from tz_lex_spec [OF ok interned_piece(2) [OF int] q] have lq: "steps U tz tzq" "reads_as (tz_vocab tzq) q (drop ?at s)" by auto
  from tz_lex_spec [OF stepsD(1) [OF lp(1)] interned_piece(2) [OF int] q']
  have lr: "steps U tzp tzr" "reads_as (tz_vocab tzr) q' (drop ?at s)" by auto
  note go = rest [OF _ stepsD(1) [OF lp(1)] interned_piece(2) [OF int]] rest [OF _ stepsD(1) [OF lq(1)] interned_piece(1) [OF int]]
    rest [OF _ stepsD(1) [OF lr(1)] interned_piece(2) [OF interned_piece(1) [OF int]]] rest [OF _ ok int]
  consider "n \<noteq> 0" "k \<noteq> 0" | "n \<noteq> 0" "k = 0" | "n = 0" "k \<noteq> 0" | "n = 0" "k = 0" by blast
  then show ?thesis
  proof cases
    case 1
    then have "split_to U tz s ps ss (go (drop n (take ?at s)) (ps @ [p]) (ss @ [q']) tzr)"
      using n k s by (intro split_both [OF lp lr] go) auto
    moreover from n k have "n + k \<le> length s" by simp
    ultimately show ?thesis using 1 by (simp add: p q' Let_def)
  next
    case 2
    then show ?thesis using s n by (auto simp: p Let_def intro!: split_left [OF lp] go)
  next
    case 3
    then show ?thesis using s k by (auto simp: q Let_def intro!: split_right [OF lq] go)
  next
    case 4
    then show ?thesis using go(4) by (simp add: Let_def)
  qed
qed

lemma split_loop_spec:
  "tz_ok U tz \<Longrightarrow> interned env U s \<Longrightarrow> split_to U tz s ps ss (split_loop env sp last_size s ps ss tz)"
proof (induction "2 * length s + (if length s = last_size then 0 else 1)" arbitrary: s ps ss tz last_size rule: less_induct)
  case (less s last_size ps ss tz)
  note ok = less.prems(1) and int = less.prems(2)
  show ?case
  proof (cases "s = [] \<or> length s = last_size \<or> (\<exists>m. is_match (tz_token_match tz) s = Inl (RegexE m)) \<or>
      is_match (tz_token_match tz) s = Inr True \<or> (sp \<and> has_special tz s) \<or> (\<exists>m. find_prefix tz s = Inl (RegexE m))")
    case True
    then show ?thesis using ok is_match_cases [of "tz_token_match tz" s]
      by (auto simp: split_loop.simps [of env _ last_size] intro: split_stop split_err split: bool.splits)
  next
    case False
    then obtain n where n: "find_prefix tz s = Inr n" "n \<le> length s" and m: "is_match (tz_token_match tz) s = Inr False"
        and a: "s \<noteq> []" "length s \<noteq> last_size" "\<not> (sp \<and> has_special tz s)"
      using find_cases(1) [OF ok, of s] is_match_cases [of "tz_token_match tz" s] by auto
    note unfold = split_loop.simps [of env _ last_size s] n(1) m a(1,2)
    consider (special) "n \<noteq> 0" "drop n s \<noteq> []" "sp" "has_special tz (drop n s)"
      | (err) e where "find_suffix tz (drop n s) = Inl (RegexE e)" "\<not> (n \<noteq> 0 \<and> drop n s \<noteq> [] \<and> sp \<and> has_special tz (drop n s))"
      | (suf) k where "find_suffix tz (drop n s) = Inr k" "k \<le> length s - n" "\<not> (n \<noteq> 0 \<and> drop n s \<noteq> [] \<and> sp \<and> has_special tz (drop n s))"
      using find_cases(2) [OF ok, of "drop n s"] by auto
    then show ?thesis
    proof cases
      case special
      then show ?thesis using a(3) split_lexed(1) [OF ok int, where n = n]
        by (auto simp: unfold simp del: drop_eq_Nil split: prod.splits)
    next
      case err
      then show ?thesis using ok a(3) by (auto simp: unfold split_err simp del: drop_eq_Nil)
    next
      case suf
      let ?at = "length s - k"
      show ?thesis
      proof (cases "k \<noteq> 0 \<and> take ?at s \<noteq> [] \<and> sp \<and> has_special tz (take ?at s)")
        case True
        then show ?thesis using a(3) suf split_lexed(2) [OF ok int, where n = ?at]
          by (auto simp: unfold Let_def simp del: drop_eq_Nil take_eq_Nil split: prod.splits)
      next
        case False
        have "split_to U tz' t ps ss (split_loop env sp (length s) t ps ss tz')"
          if "length t < length s \<or> t = s" "tz_ok U tz'" "interned env U t" for t tz' ps ss
          using that a(2) by (intro less.hyps) auto
        from split_continue [OF ok int a(1) n(2) suf(2) this] suf(1,3) a(3) False show ?thesis
          by (simp add: unfold Let_def del: drop_eq_Nil take_eq_Nil) blast
      qed
    qed
  qed
qed

section \<open>Appending tokens\<close>

lemma adds_refl: "wk_ok U w \<Longrightarrow> adds U w w []"
  by (auto simp: adds_def wk_ok_def)

lemma addsD: "adds U w w' s \<Longrightarrow> wk_ok U w'" "adds U w w' s \<Longrightarrow> steps U (wk_tz w) (wk_tz w')"
  by (auto simp: adds_def wk_ok_def stepsD)

lemma adds_trans:
  assumes "adds U w w' s" and "adds U w' w'' t"
  shows "adds U w w'' (s @ t)"
proof -
  obtain ts where ts: "wk_doc w' = wk_doc w @ ts" "list_all (\<lambda>t. \<not> tk_spacy t) ts" "spells (tz_vocab (wk_tz w')) (map tk_lexeme ts) s"
    using assms(1) by (auto simp: adds_def)
  obtain us where us: "wk_doc w'' = wk_doc w' @ us" "list_all (\<lambda>t. \<not> tk_spacy t) us" "spells (tz_vocab (wk_tz w'')) (map tk_lexeme us) t"
    and st: "steps U (wk_tz w') (wk_tz w'')" "offsets_ok (wk_doc w'')"
    using assms(2) by (auto simp: adds_def)
  have "spells (tz_vocab (wk_tz w'')) (map tk_lexeme (ts @ us)) (s @ t)"
    using spells_append [OF spells_grows [OF ts(3) stepsD(2) [OF st(1)]] us(3)] by simp
  moreover have "wk_doc w'' = wk_doc w @ ts @ us" "list_all (\<lambda>t. \<not> tk_spacy t) (ts @ us)" using ts us by simp_all
  moreover have "steps U (wk_tz w) (wk_tz w'')" using addsD(2) [OF assms(1)] st(1) by (rule steps_trans)
  ultimately show ?thesis using st(2) unfolding adds_def by blast
qed

lemma adds_steps: "steps U (wk_tz w) tz \<Longrightarrow> offsets_ok (wk_doc w) \<Longrightarrow> adds U w (w\<lparr>wk_tz := tz\<rparr>) []"
  by (simp add: adds_def)

lemma adds_push:
  assumes "wk_ok U w" and "reads_as (tz_vocab (wk_tz w)) (tk_lexeme r) s"
  shows "adds U w (w\<lparr>wk_doc := push_record (wk_doc w) r False\<rparr>) s"
proof -
  obtain t where t: "push_record (wk_doc w) r False = wk_doc w @ [t]" "tk_lexeme t = tk_lexeme r" "tk_idx t = next_idx (wk_doc w)" "\<not> tk_spacy t"
    by (cases "wk_doc w = []") (auto simp: push_record_def Let_def)
  then have "offsets_ok (push_record (wk_doc w) r False)" using assms(1) by (simp add: wk_ok_def offsets_ok_snoc next_idx_eq)
  then show ?thesis using assms t by (auto simp: adds_def wk_ok_def intro!: exI [of _ "[t]"])
qed

lemma adds_push_lex:
  "wk_ok U w \<Longrightarrow> reads_as (tz_vocab (wk_tz w)) lx s \<Longrightarrow> adds U w (push_lex w lx) s"
  "wk_ok U w \<Longrightarrow> reads_as (tz_vocab (wk_tz w)) (sp_orth st) s \<Longrightarrow> adds U w (push_special w st) s"
  using adds_push [of U w "token_record_new lx"] adds_push [of U w "(token_record_new (sp_orth st))\<lparr>tk_norm := sp_norm st\<rparr>"]
  by (simp_all add: push_lex_def push_lexeme_eq push_special_def)

lemma adds_fold:
  assumes "\<And>w x s. wk_ok U w \<Longrightarrow> reads_as (tz_vocab (wk_tz w)) (lx x) s \<Longrightarrow> adds U w (f w x) s"
  shows "wk_ok U w \<Longrightarrow> spells (tz_vocab (wk_tz w)) (map lx xs) s \<Longrightarrow> adds U w (foldl f w xs) s"
proof (induction xs arbitrary: w s)
  case (Cons x xs)
  then obtain a b where ab: "s = a @ b" "reads_as (tz_vocab (wk_tz w)) (lx x) a" "spells (tz_vocab (wk_tz w)) (map lx xs) b" by auto
  note add = assms [OF Cons.prems(1) ab(2)]
  have "adds U (f w x) (foldl f (f w x) xs) b"
    using Cons.IH [OF addsD(1) [OF add]] spells_grows [OF ab(3) stepsD(2) [OF addsD(2) [OF add]]] .
  with add show ?case by (simp add: ab(1) adds_trans)
qed (simp add: adds_refl)

lemma adds_lexemes: "wk_ok U w \<Longrightarrow> spells (tz_vocab (wk_tz w)) ls s \<Longrightarrow> adds U w (foldl push_lex w ls) s"
  using adds_fold [of U "\<lambda>lx. lx" push_lex] adds_push_lex(1) by simp

lemma adds_specials:
  "wk_ok U w \<Longrightarrow> spells (tz_vocab (wk_tz w)) (map sp_orth sts) s \<Longrightarrow> adds U w (foldl push_special w sts) s"
  using adds_fold [of U sp_orth push_special] adds_push_lex(2) by blast

lemma adds_word:
  assumes "wk_ok U w" and "interned env U s"
  shows "adds U w (push_word env w s) s"
proof -
  obtain lx tz where l: "tz_lex env (wk_tz w) s = (lx, tz)" by force
  have spec: "steps U (wk_tz w) tz \<and> reads_as (tz_vocab tz) lx s"
    using assms by (intro tz_lex_spec [OF _ _ l]) (simp_all add: wk_ok_def)
  have a: "adds U w (w\<lparr>wk_tz := tz\<rparr>) []" using spec assms(1) by (simp add: adds_steps wk_ok_def)
  show ?thesis using adds_trans [OF a adds_push_lex(1) [OF addsD(1) [OF a]]] spec by (simp add: push_word_def l)
qed

lemma adds_special_flag: "adds U w w' s \<Longrightarrow> adds U w (w'\<lparr>wk_special := b\<rparr>) s"
  by (simp add: adds_def)

lemma hash_safeD: "hash_safe U \<Longrightarrow> s \<in> U \<Longrightarrow> t \<in> U \<Longrightarrow> hash_utf8 s = hash_utf8 t \<Longrightarrow> s = t"
  by (auto simp: hash_safe_def dest: inj_onD)

lemma try_specials_and_cache_spec:
  assumes ok: "wk_ok U w" and s: "s \<in> U" and r: "try_specials_and_cache sp (hash_utf8 s) w = (hit, w')"
  shows "if hit then adds U w w' s else w' = w"
proof (cases "if sp then hm_get (tz_specials (wk_tz w)) (hash_utf8 s) else None")
  case (Some rule)
  with ok have "hash_utf8 s = hash_utf8 (rule_key rule)" "rule_ok U (tz_vocab (wk_tz w)) rule" "hash_safe U"
    by (auto simp: wk_ok_def tz_ok_def split: if_splits)
  then have "spells (tz_vocab (wk_tz w)) (map sp_orth (rule_tokens rule)) s" using s by (auto simp: rule_ok_def dest: hash_safeD)
  from adds_specials [OF ok this] Some r show ?thesis by (auto simp: try_specials_and_cache_def adds_special_flag)
next
  case None
  show ?thesis
  proof (cases "hm_get (tz_cache (wk_tz w)) (hash_utf8 s)")
    case (Some ls)
    with ok obtain t where "t \<in> U" "hash_utf8 s = hash_utf8 t" "spells (tz_vocab (wk_tz w)) ls t" "hash_safe U"
      unfolding wk_ok_def tz_ok_def by blast
    with s have "spells (tz_vocab (wk_tz w)) ls s" by (auto dest: hash_safeD)
    from adds_lexemes [OF ok this] Some None r show ?thesis by (auto simp: try_specials_and_cache_def)
  qed (use None r in \<open>auto simp: try_specials_and_cache_def\<close>)
qed

section \<open>Spans\<close>

lemma take_drop_cut:
  assumes "x \<le> y" and "y \<le> z"
  shows "take (y - x) (drop x s) @ take (z - y) (drop y s) = take (z - x) (drop x s)"
proof -
  have "drop (y - x) (drop x s) = drop y s" "z - x = (y - x) + (z - y)" using assms by simp_all
  then show ?thesis by (metis take_add)
qed

lemma infix_steps:
  assumes int: "interned env U s"
  shows "wk_ok U w \<Longrightarrow> start \<le> p \<Longrightarrow> start = p \<or> start = 0 \<Longrightarrow> ordered_from p (length s) ms \<Longrightarrow>
    foldl (infix_step env s) (start, w) ms = (stop, w') \<Longrightarrow>
    start \<le> stop \<and> stop \<le> length s \<and> adds U w w' (take (stop - start) (drop start s))"
proof (induction ms arbitrary: start p w)
  case (Cons m ms)
  obtain a b where m: "m = (a, b)" by force
  then have ab: "p \<le> a" "a \<le> b" "ordered_from b (length s) ms" using Cons.prems(4) by auto
  show ?case
  proof (cases "a = 0")
    case True
    then have "start = 0" "p = 0" using Cons.prems(2) ab(1) by auto
    then show ?thesis using Cons.IH [of w start b] Cons.prems(1,5) ab(3) True by (simp add: m infix_step_def)
  next
    case False
    define v where "v = (if a \<noteq> start then push_word env w (take (a - start) (drop start s)) else w)"
    define u where "u = (if a \<noteq> b then push_word env v (take (b - a) (drop a s)) else v)"
    have v: "adds U w v (take (a - start) (drop start s))"
      using adds_word [OF Cons.prems(1) interned_piece(1) [OF interned_piece(2) [OF int]]] adds_refl [OF Cons.prems(1)]
      by (auto simp: v_def)
    have u: "adds U v u (take (b - a) (drop a s))"
      using adds_word [OF addsD(1) [OF v] interned_piece(1) [OF interned_piece(2) [OF int]]] adds_refl [OF addsD(1) [OF v]]
      by (auto simp: u_def)
    note vu = adds_trans [OF v u]
    have "infix_step env s (start, w) m = (b, u)" using False by (simp add: m infix_step_def v_def u_def Let_def)
    then have "foldl (infix_step env s) (b, u) ms = (stop, w')" using Cons.prems(5) by simp
    from Cons.IH [OF addsD(1) [OF vu] _ _ ab(3) this]
    have "b \<le> stop" "stop \<le> length s" and rest: "adds U u w' (take (stop - b) (drop b s))" by auto
    moreover have "take (a - start) (drop start s) @ take (b - a) (drop a s) @ take (stop - b) (drop b s) = take (stop - start) (drop start s)"
      using Cons.prems(2) ab \<open>b \<le> stop\<close> by (simp add: take_drop_cut)
    ultimately show ?thesis using adds_trans [OF vu rest] Cons.prems(2) ab by simp
  qed
qed (auto simp: adds_refl)

lemma attach_infixes_spec:
  assumes "wk_ok U w" and "interned env U s" and "ordered_from 0 (length s) ms"
  shows "adds U w (attach_infixes env s ms w) s"
proof -
  obtain stop w' where f: "foldl (infix_step env s) (0, w) ms = (stop, w')" by force
  from infix_steps [OF assms(2,1) _ _ assms(3) f] have a: "adds U w w' (take stop s)" by simp
  have "adds U w' (if drop stop s \<noteq> [] then push_word env w' (drop stop s) else w') (drop stop s)"
    using adds_word [OF addsD(1) [OF a] interned_piece(2) [OF assms(2)]] adds_refl [OF addsD(1) [OF a]] by auto
  from adds_trans [OF a this] show ?thesis by (simp add: attach_infixes_def f)
qed

lemma outcome_trans:
  assumes "adds U w w' s" and "outcome U w' t res"
  shows "outcome U w (s @ t) res"
  using assms adds_trans steps_trans [OF addsD(2) [OF assms(1)]] by (auto simp: outcome_def split: sum.splits prod.splits)

lemma outcome_err: "wk_ok U w \<Longrightarrow> outcome U w s (Inl (RegexE m), w)"
  by (simp add: outcome_def wk_ok_def)

lemma outcome_adds: "outcome U w s (Inr (), w') \<longleftrightarrow> adds U w w' s"
  by (simp add: outcome_def)

lemma attach_core_spec:
  assumes ok: "wk_ok U w" and int: "interned env U s"
  shows "outcome U w s (attach_core env sp s w)"
proof (cases "s = []")
  case False
  obtain hit w' where t: "try_specials_and_cache sp (hash_utf8 s) w = (hit, w')" by force
  note try_specials_and_cache_spec [OF ok interned_mem [OF int False] t]
  moreover have "tz_ok U (wk_tz w)" using ok by (simp add: wk_ok_def)
  note find_infix_cases [OF this, of s] is_match_cases [of "tz_token_match (wk_tz w)" s] is_match_cases [of "tz_url_match (wk_tz w)" s]
  ultimately show ?thesis using False t ok adds_word [OF ok int] attach_infixes_spec [OF ok int]
    by (cases hit) (auto simp: attach_core_def outcome_adds outcome_err)
qed (use ok in \<open>simp add: attach_core_def outcome_adds adds_refl\<close>)

lemma attach_tokens_spec:
  assumes ok: "wk_ok U w" and int: "interned env U s" and ps: "spells (tz_vocab (wk_tz w)) ps a"
    and ss: "spells (tz_vocab (wk_tz w)) (rev ss) b"
  shows "outcome U w (a @ s @ b) (attach_tokens env sp s ps ss w)"
proof -
  note a = adds_lexemes [OF ok ps]
  obtain r w' where c: "attach_core env sp s (foldl push_lex w ps) = (r, w')" by force
  note o = outcome_trans [OF a attach_core_spec [OF addsD(1) [OF a] int, of sp], unfolded c]
  show ?thesis
  proof (cases r)
    case (Inl e)
    with o show ?thesis by (simp add: attach_tokens_def c outcome_def)
  next
    case (Inr u)
    with o have w': "adds U w w' (a @ s)" by (simp add: outcome_def)
    from adds_lexemes [OF addsD(1) [OF this] spells_grows [OF ss stepsD(2) [OF addsD(2) [OF this]]]]
    show ?thesis using Inr adds_trans [OF w'] by (fastforce simp: attach_tokens_def c outcome_def)
  qed
qed

lemma tz_ok_cache:
  assumes "tz_ok U tz" and "s \<in> U" and "spells (tz_vocab tz) ls s"
  shows "steps U tz (tz\<lparr>tz_cache := hm_insert (tz_cache tz) (hash_utf8 s) ls\<rparr>)"
proof -
  have "\<exists>t \<in> U. k = hash_utf8 t \<and> spells (tz_vocab tz) ms t"
    if "hm_get (hm_insert (tz_cache tz) (hash_utf8 s) ls) k = Some ms" for k ms
    using assms that unfolding tz_ok_def by (cases "k = hash_utf8 s") (auto simp: hm_simps)
  then have "tz_ok U (tz\<lparr>tz_cache := hm_insert (tz_cache tz) (hash_utf8 s) ls\<rparr>)"
    using assms(1) by (simp add: tz_ok_def affixes_ok_def)
  then show ?thesis by (simp add: steps_def)
qed

lemma tokenize_span_spec:
  assumes ok: "wk_ok U w" and int: "interned env U s" and ne: "s \<noteq> []"
  shows "outcome U w s (tokenize_span env sp s (hash_utf8 s) w)"
proof -
  obtain r tz where sp: "split_affixes env sp s (wk_tz w) = (r, tz)" by force
  have "tz_ok U (wk_tz w)" using ok by (simp add: wk_ok_def)
  from split_loop_spec [OF this int, of "[]" "[]" sp 0] have to: "split_to U (wk_tz w) s [] [] (r, tz)"
    using sp by (simp add: split_affixes_def)
  show ?thesis
  proof (cases r)
    case (Inl e)
    with to sp show ?thesis by (auto simp: tokenize_span_def split_to_def outcome_def)
  next
    case (Inr x)
    obtain q ps ss where x: "x = (q, ps, ss)" by (cases x)
    let ?w = "w\<lparr>wk_tz := tz\<rparr>"
    obtain a b where ab: "s = a @ q @ b" "spells (tz_vocab tz) ps a" "spells (tz_vocab tz) (rev ss) b" and st: "steps U (wk_tz w) tz"
      using to Inr x by (auto simp: split_to_def)
    have w: "adds U w ?w []" using st ok by (simp add: adds_steps wk_ok_def)
    have "interned env U q" using int ab(1) by (auto intro: interned_sublist)
    from attach_tokens_spec [OF addsD(1) [OF w] this, of ps a ss b sp] ab
    have o: "outcome U ?w s (attach_tokens env sp q ps ss ?w)" by simp
    obtain t w' where t: "attach_tokens env sp q ps ss ?w = (t, w')" by force
    show ?thesis
    proof (cases t)
      case (Inl e)
      with outcome_trans [OF w o] show ?thesis by (simp add: tokenize_span_def sp Inr x t outcome_def)
    next
      case (Inr u)
      with o t have add: "adds U ?w w' s" by (simp add: outcome_def)
      then obtain ts where ts: "wk_doc w' = wk_doc w @ ts" "spells (tz_vocab (wk_tz w')) (map tk_lexeme ts) s"
        by (auto simp: adds_def)
      have w'': "wk_ok U w'" using add by (rule addsD)
      have "steps U (wk_tz w') (wk_tz w'\<lparr>tz_cache := hm_insert (tz_cache (wk_tz w')) (hash_utf8 s) (map tk_lexeme ts)\<rparr>)"
        using w'' interned_mem [OF int ne] ts(2) by (intro tz_ok_cache) (simp_all add: wk_ok_def)
      with w'' have "adds U w' (w'\<lparr>wk_tz := wk_tz w'\<lparr>tz_cache := hm_insert (tz_cache (wk_tz w')) (hash_utf8 s) (map tk_lexeme ts)\<rparr>\<rparr>) []"
        by (intro adds_steps) (simp_all add: wk_ok_def)
      from adds_trans [OF adds_trans [OF w add] this] adds_trans [OF w add] show ?thesis
        using \<open>r = Inr x\<close> Inr x t ts(1) by (auto simp: tokenize_span_def sp outcome_adds Let_def)
    qed
  qed
qed

lemma run_span_spec:
  assumes ok: "wk_ok U w" and int: "interned env U s" and ne: "s \<noteq> []"
  shows "outcome U w s (run_span env sp s w)"
proof -
  obtain hit w' where t: "try_specials_and_cache sp (hash_utf8 s) w = (hit, w')" by force
  with try_specials_and_cache_spec [OF ok interned_mem [OF int ne] t] tokenize_span_spec [OF ok int ne, of sp] show ?thesis
    by (cases hit) (auto simp: run_span_def outcome_adds)
qed

lemma adds_text:
  assumes "adds U w w' s" and "doc_ok (tz_vocab (wk_tz w)) (wk_doc w)"
  shows "doc_ok (tz_vocab (wk_tz w')) (wk_doc w')"
    and "doc_text (tz_vocab (wk_tz w')) (wk_doc w') = doc_text (tz_vocab (wk_tz w)) (wk_doc w) @ s"
    and "s \<noteq> [] \<Longrightarrow> wk_doc w' \<noteq> [] \<and> \<not> tk_spacy (last (wk_doc w'))"
proof -
  let ?v = "tz_vocab (wk_tz w')"
  obtain ts where ts: "wk_doc w' = wk_doc w @ ts" "list_all (\<lambda>t. \<not> tk_spacy t) ts" "spells ?v (map tk_lexeme ts) s"
    and o: "offsets_ok (wk_doc w')" using assms(1) by (auto simp: adds_def)
  have grow: "doc_ok ?v (wk_doc w)" "doc_text ?v (wk_doc w) = doc_text (tz_vocab (wk_tz w)) (wk_doc w)"
    using doc_ok_grows [OF assms(2) stepsD(2) [OF addsD(2) [OF assms(1)]]] by simp_all
  have "map (token_piece ?v) ts = map (\<lambda>lx. orth_text lx (vo_strings ?v)) (map tk_lexeme ts)"
    using ts(2) by (simp add: token_piece_def list_all_iff)
  then have "concat (map (token_piece ?v) ts) = s" using ts(3) unfolding spells_def by metis
  then show "doc_text ?v (wk_doc w') = doc_text (tz_vocab (wk_tz w)) (wk_doc w) @ s"
    using grow(2) ts(1) by (simp add: doc_text_def)
  show "doc_ok ?v (wk_doc w')" using grow(1) ts o by (auto simp: doc_ok_def spells_def list_all_iff)
  show "wk_doc w' \<noteq> [] \<and> \<not> tk_spacy (last (wk_doc w'))" if "s \<noteq> []"
  proof -
    have "ts \<noteq> []" using that ts(3) by auto
    with ts(1,2) show ?thesis by (simp add: list_all_iff)
  qed
qed

lemma offsets_ok_last: "doc \<noteq> [] \<Longrightarrow> offsets_ok (butlast doc @ [(last doc)\<lparr>tk_spacy := b\<rparr>]) = offsets_ok doc"
  by (cases doc rule: rev_cases) (simp_all add: offsets_ok_snoc)

lemma set_last_spacy_spec:
  assumes "wk_doc w \<noteq> []" and "\<not> tk_spacy (last (wk_doc w))" and "doc_ok v (wk_doc w)"
  shows "\<exists>w'. set_last_spacy b msg w = (Inr (), w') \<and> wk_tz w' = wk_tz w \<and> doc_ok v (wk_doc w') \<and>
    doc_text v (wk_doc w') = doc_text v (wk_doc w) @ (if b then '' '' else [])"
proof -
  obtain ts t where ts: "wk_doc w = ts @ [t]" using assms(1) by (cases "wk_doc w" rule: rev_cases) auto
  with assms show ?thesis using offsets_ok_last [OF assms(1), of b]
    by (auto simp: set_last_spacy_def doc_ok_def doc_text_def token_piece_def)
qed

section \<open>The scan\<close>

text \<open>
  After \<open>i\<close> characters the document and the pending run make up the text read so far; the run is of one kind, and
  a run of words is not empty.
\<close>

definition scan_inv :: "string set \<Rightarrow> tokenizer \<Rightarrow> string list \<Rightarrow> nat \<Rightarrow> nat \<times> bool \<times> work \<Rightarrow> bool" where
  "scan_inv U tz cs i st \<longleftrightarrow>
     (case st of (start, in_ws, w) \<Rightarrow>
        steps U tz (wk_tz w) \<and> doc_ok (tz_vocab (wk_tz w)) (wk_doc w) \<and> start \<le> i \<and>
        (\<forall>j. start \<le> j \<longrightarrow> j < i \<longrightarrow> is_whitespace (cs ! j) = in_ws) \<and>
        (if i = 0 then in_ws = is_whitespace (cs ! 0) else in_ws \<or> start < i) \<and>
        doc_text (tz_vocab (wk_tz w)) (wk_doc w) @ concat (take (i - start) (drop start cs)) = concat (take i cs))"

definition scan_outcome :: "string set \<Rightarrow> tokenizer \<Rightarrow> string list \<Rightarrow> nat \<Rightarrow> (spacy_error + nat \<times> bool) \<times> work \<Rightarrow> bool" where
  "scan_outcome U tz cs i res \<longleftrightarrow>
     (case res of
        (Inl e, w) \<Rightarrow> (\<exists>m. e = RegexE m) \<and> steps U tz (wk_tz w)
      | (Inr (start, in_ws), w) \<Rightarrow> scan_inv U tz cs i (start, in_ws, w))"

lemma space_is_whitespace: "is_whitespace '' ''"
proof -
  have "char_of (32 :: nat) = CHR '' ''" by (simp add: char_of_def bit_Suc_0_iff)
  then show ?thesis by (simp add: is_whitespace_def white_space_def utf8_enc_def)
qed

lemma concat_run: "sublist (concat (take k (drop start cs))) (concat cs)"
  unfolding sublist_def
proof (intro exI)
  show "concat cs = concat (take start cs) @ concat (take k (drop start cs)) @ concat (drop k (drop start cs))"
    by (simp only: concat_append [symmetric] append_take_drop_id)
qed

lemma run_nonempty:
  assumes "\<And>c. c \<in> set cs \<Longrightarrow> c \<noteq> []" and "start < i" and "i \<le> length cs"
  shows "concat (take (i - start) (drop start cs)) \<noteq> []"
proof -
  have "cs ! start \<in> set (take (i - start) (drop start cs))"
    using assms(2,3) by (auto simp: in_set_conv_nth intro!: exI [of _ 0])
  moreover have "cs ! start \<noteq> []" using assms by simp
  ultimately show ?thesis by auto
qed

lemma flush_run:
  assumes inv: "scan_inv U tz cs i (start, in_ws, w)" and ne: "\<And>c. c \<in> set cs \<Longrightarrow> c \<noteq> []" and i: "i \<le> length cs"
    and int: "interned env U (concat cs)" and run: "start < i"
    and r: "run_span env sp (concat (take (i - start) (drop start cs))) w = (r, w')"
  shows "(\<exists>m. r = Inl (RegexE m)) \<and> steps U tz (wk_tz w') \<or>
    r = Inr () \<and> steps U tz (wk_tz w') \<and> doc_ok (tz_vocab (wk_tz w')) (wk_doc w') \<and>
    doc_text (tz_vocab (wk_tz w')) (wk_doc w') = concat (take i cs) \<and> wk_doc w' \<noteq> [] \<and> \<not> tk_spacy (last (wk_doc w'))"
proof -
  let ?s = "concat (take (i - start) (drop start cs))"
  have w: "wk_ok U w" "steps U tz (wk_tz w)" and doc: "doc_ok (tz_vocab (wk_tz w)) (wk_doc w)"
    and tx: "doc_text (tz_vocab (wk_tz w)) (wk_doc w) @ ?s = concat (take i cs)"
    using inv by (auto simp: scan_inv_def wk_ok_def doc_ok_def stepsD)
  have s: "?s \<noteq> []" using run_nonempty [OF ne run i] .
  have "interned env U ?s" using int concat_run by (rule interned_sublist)
  from run_span_spec [OF w(1) this s, of sp] r have o: "outcome U w ?s (r, w')" by simp
  show ?thesis
  proof (cases r)
    case (Inl e)
    with o w(2) show ?thesis by (auto simp: outcome_def intro: steps_trans)
  next
    case (Inr u)
    with o have a: "adds U w w' ?s" by (simp add: outcome_def)
    from adds_text [OF a doc] s tx Inr steps_trans [OF w(2) addsD(2) [OF a]] show ?thesis by simp
  qed
qed

lemma scan_char_spec:
  assumes inv: "scan_inv U tz cs i (start, in_ws, w)" and ne: "\<And>c. c \<in> set cs \<Longrightarrow> c \<noteq> []" and i: "i < length cs"
    and int: "interned env U (concat cs)"
  shows "scan_outcome U tz cs (i + 1) (scan_char env sp cs i (start, in_ws, w))"
proof (cases "is_whitespace (cs ! i) = in_ws")
  case True
  have "start \<le> i" using inv by (simp add: scan_inv_def)
  then have "take (Suc i - start) (drop start cs) = take (i - start) (drop start cs) @ [cs ! i]"
    using i by (simp add: Suc_diff_le take_Suc_conv_app_nth)
  moreover have "is_whitespace (cs ! j) = in_ws" if "start \<le> j" "j < Suc i" for j
    using that inv True by (cases "j = i") (auto simp: scan_inv_def)
  ultimately show ?thesis using inv True i
    by (auto simp: scan_outcome_def scan_char_def scan_inv_def take_Suc_conv_app_nth simp flip: append_assoc split: if_splits)
next
  case False
  note inv' = inv [unfolded scan_inv_def, simplified]
  have i0: "i \<noteq> 0" using inv' False by (auto split: if_splits)
  show ?thesis
  proof (cases "start < i")
    case run: True
    obtain r w' where r: "run_span env sp (concat (take (i - start) (drop start cs))) w = (r, w')" by force
    from flush_run [OF inv ne _ int run r] i
    consider m where "r = Inl (RegexE m)" "steps U tz (wk_tz w')"
      | "r = Inr ()" "steps U tz (wk_tz w')" "doc_ok (tz_vocab (wk_tz w')) (wk_doc w')"
        "doc_text (tz_vocab (wk_tz w')) (wk_doc w') = concat (take i cs)" "wk_doc w' \<noteq> []" "\<not> tk_spacy (last (wk_doc w'))"
      by auto
    then show ?thesis
    proof cases
      case 1
      with False run r show ?thesis by (auto simp: scan_outcome_def scan_char_def)
    next
      case 2
      show ?thesis
      proof (cases "cs ! i = '' ''")
        case True
        obtain w'' where w'': "set_last_spacy True ''no token before space'' w' = (Inr (), w'')" "wk_tz w'' = wk_tz w'"
            "doc_ok (tz_vocab (wk_tz w')) (wk_doc w'')"
            "doc_text (tz_vocab (wk_tz w')) (wk_doc w'') = concat (take i cs) @ '' ''"
          using set_last_spacy_spec [OF 2(5,6,3), of True "''no token before space''"] 2(4) by auto
        have "is_whitespace (cs ! i)" using True space_is_whitespace by simp
        then have "\<not> in_ws" using False by simp
        with 2 w'' False run r True i show ?thesis
          by (simp add: scan_outcome_def scan_char_def scan_inv_def take_Suc_conv_app_nth)
      next
        case sp: False
        with 2 False run r i show ?thesis
          by (simp add: scan_outcome_def scan_char_def scan_inv_def take_Suc_conv_app_nth less_Suc_eq)
      qed
    qed
  next
    case no_run: False
    then have ws: "in_ws" "start = i" using inv' i0 by auto
    then have "\<not> is_whitespace (cs ! i)" using False by simp
    then have "cs ! i \<noteq> '' ''" using space_is_whitespace by auto
    with no_run ws False inv' i show ?thesis
      by (simp add: scan_outcome_def scan_char_def scan_inv_def take_Suc_conv_app_nth less_Suc_eq)
  qed
qed

lemma scan_spec:
  assumes ne: "\<And>c. c \<in> set cs \<Longrightarrow> c \<noteq> []" and int: "interned env U (concat cs)"
  shows "k \<le> length cs \<Longrightarrow> scan_inv U tz cs i (start, in_ws, w) \<Longrightarrow> k = i + n \<Longrightarrow>
    scan_outcome U tz cs k (scan env sp cs [i..<i + n] (start, in_ws, w))"
proof (induction n arbitrary: i start in_ws w)
  case (Suc n)
  have i: "[i..<i + Suc n] = i # [i + 1..<(i + 1) + n]" by (simp add: upt_conv_Cons)
  obtain r w' where r: "scan_char env sp cs i (start, in_ws, w) = (r, w')" by force
  have o: "scan_outcome U tz cs (i + 1) (r, w')"
    using scan_char_spec [OF Suc.prems(2) ne _ int, of sp] Suc.prems(1,3) by (simp add: r)
  show ?case
  proof (cases r)
    case (Inl e)
    with o show ?thesis unfolding i by (simp add: r scan_outcome_def)
  next
    case (Inr st)
    obtain start' in_ws' where st: "st = (start', in_ws')" by force
    with o Inr have "scan_inv U tz cs (i + 1) (start', in_ws', w')" by (simp add: scan_outcome_def)
    from Suc.IH [OF Suc.prems(1) this] Suc.prems(3) show ?thesis unfolding i by (simp add: r Inr st)
  qed
qed (simp add: scan_outcome_def)

definition pass_outcome :: "string set \<Rightarrow> tokenizer \<Rightarrow> string \<Rightarrow> (spacy_error + doc_tokens) \<times> tokenizer \<Rightarrow> bool" where
  "pass_outcome U tz s res \<longleftrightarrow> steps U tz (snd res) \<and>
     (case fst res of
        Inl e \<Rightarrow> (\<exists>m. e = RegexE m)
      | Inr doc \<Rightarrow> doc_ok (tz_vocab (snd res)) doc \<and> doc_text (tz_vocab (snd res)) doc = s)"

lemma tokenize_affixes_spec:
  assumes ok: "tz_ok U tz" and int: "interned env U s" and len: "length s < 2 ^ 30"
  shows "pass_outcome U tz s (tokenize_affixes env sp s tz)"
proof (cases "s = []")
  case True
  with ok show ?thesis by (simp add: tokenize_affixes_def pass_outcome_def doc_ok_def offsets_ok_def doc_text_def)
next
  case False
  define cs where "cs = chars s"
  have cs: "\<And>c. c \<in> set cs \<Longrightarrow> c \<noteq> []" "concat cs = s" "cs \<noteq> []" using False by (simp_all add: cs_def chars_nonempty)
  let ?w = "\<lparr>wk_tz = tz, wk_doc = [], wk_special = False\<rparr>"
  let ?sc = "scan env sp cs [0..<length cs] (0, is_whitespace (cs ! 0), ?w)"
  have "scan_inv U tz cs 0 (0, is_whitespace (cs ! 0), ?w)"
    using ok by (simp add: scan_inv_def doc_ok_def offsets_ok_def doc_text_def)
  from scan_spec [OF cs(1) _ _ this, where k = "length cs" and n = "length cs"] int cs(2)
  have o: "scan_outcome U tz cs (length cs) ?sc" by simp
  obtain r w where r: "?sc = (r, w)" by force
  note unfold = tokenize_affixes_def Let_def cs_def [symmetric] r len False
  show ?thesis
  proof (cases r)
    case (Inl e)
    with o r len False show ?thesis by (simp add: unfold scan_outcome_def pass_outcome_def)
  next
    case (Inr st)
    obtain start in_ws where st: "st = (start, in_ws)" by force
    with o Inr r have inv: "scan_inv U tz cs (length cs) (start, in_ws, w)" by (simp add: scan_outcome_def)
    show ?thesis
    proof (cases "start < length cs")
      case run: True
      obtain q w' where q: "run_span env sp (concat (drop start cs)) w = (q, w')" by force
      have "is_whitespace (last cs) = in_ws" using inv run cs(3) by (simp add: scan_inv_def last_conv_nth)
      then have last: "\<not> (last cs = '' '' \<and> \<not> in_ws)" using space_is_whitespace by auto
      have "(\<exists>m. q = Inl (RegexE m)) \<and> steps U tz (wk_tz w') \<or>
        q = Inr () \<and> steps U tz (wk_tz w') \<and> doc_ok (tz_vocab (wk_tz w')) (wk_doc w') \<and>
        doc_text (tz_vocab (wk_tz w')) (wk_doc w') = s \<and> wk_doc w' \<noteq> [] \<and> \<not> tk_spacy (last (wk_doc w'))"
        using flush_run [OF inv cs(1) _ _ run, of env sp q w'] int q by (simp add: cs(2))
      then show ?thesis
        using set_last_spacy_spec [of w' "tz_vocab (wk_tz w')" False "''no token after final span''"] len False Inr st run q last
        by (auto simp: unfold pass_outcome_def)
    next
      case nrun: False
      with inv have "start = length cs" by (simp add: scan_inv_def)
      with inv nrun len False Inr st cs(2) show ?thesis by (simp add: unfold pass_outcome_def scan_inv_def)
    qed
  qed
qed

section \<open>Special cases\<close>

text \<open>A rule of the language data whose strings are in the universe.\<close>

definition case_ok :: "lex_env \<Rightarrow> string set \<Rightarrow> special_case_data \<Rightarrow> bool" where
  "case_ok env U ex \<longleftrightarrow>
     (case ex of (key, tokens) \<Rightarrow>
        key \<in> U \<and> interned env U key \<and> length key < 2 ^ 30 \<and>
        list_all (\<lambda>(_, norm). case norm of None \<Rightarrow> True | Some n \<Rightarrow> n \<in> U \<or> n = []) tokens)"

lemma sublist_concat: "x \<in> set xs \<Longrightarrow> sublist x (concat xs)"
  by (auto dest!: split_list)

lemma vocab_ok_add:
  assumes "hash_safe U" and "vocab_ok U v" and "n \<in> U \<or> n = []"
  shows "vocab_ok U (v\<lparr>vo_strings := snd (ss_add (vo_strings v) n)\<rparr>) \<and> vocab_grows v (v\<lparr>vo_strings := snd (ss_add (vo_strings v) n)\<rparr>)"
proof -
  have strings: "\<forall>k t. hm_get (vo_strings v) k = Some t \<longrightarrow> t \<in> U \<and> k = hash_utf8 t"
    using assms(2) by (auto simp: vocab_ok_def)
  note add = ss_add_in(1,2) [OF assms(1,3) strings]
  have "vocab_ok U (v\<lparr>vo_strings := snd (ss_add (vo_strings v) n)\<rparr>)"
    using assms(2) add unfolding vocab_ok_def by (auto, metis)
  moreover have "vocab_grows v (v\<lparr>vo_strings := snd (ss_add (vo_strings v) n)\<rparr>)"
    using add(2) by (auto simp: vocab_grows_def ss_get_def)
  ultimately show ?thesis by simp
qed

lemma intern_special_spec:
  assumes ok: "tz_ok U tz" and orth: "interned env U orth" and norm: "case norm of None \<Rightarrow> True | Some n \<Rightarrow> n \<in> U \<or> n = []"
    and r: "intern_special env (sts, tz) (orth, norm) = (sts', tz')" and sts: "spells (tz_vocab tz) (map sp_orth sts) s"
  shows "steps U tz tz' \<and> spells (tz_vocab tz') (map sp_orth sts') (s @ orth)"
proof -
  obtain lx u where lx: "tz_lex env tz orth = (lx, u)" by force
  note l = tz_lex_spec [OF ok orth lx]
  have u: "tz_ok U u" "hash_safe U" "vocab_ok U (tz_vocab u)" using l stepsD(1) by (auto simp: tz_ok_def)
  have "steps U u tz' \<and> map sp_orth sts' = map sp_orth sts @ [lx]"
  proof (cases norm)
    case None
    with r u(1) show ?thesis by (auto simp: intern_special_def lx)
  next
    case (Some n)
    then have n: "n \<in> U \<or> n = []" using norm by simp
    from vocab_ok_add [OF u(2,3) n] tz_ok_grows [OF u(1)]
    have "steps U u (u\<lparr>tz_vocab := (tz_vocab u)\<lparr>vo_strings := snd (ss_add (vo_strings (tz_vocab u)) n)\<rparr>\<rparr>)" by blast
    with r Some show ?thesis by (auto simp: intern_special_def lx split: prod.splits)
  qed
  then have st: "steps U u tz'" and sts': "map sp_orth sts' = map sp_orth sts @ [lx]" by auto
  have "spells (tz_vocab u) (map sp_orth sts @ [lx]) (s @ orth)"
    using l by (intro spells_append spells_grows [OF sts]) (auto simp: stepsD)
  with st sts' l show ?thesis by (auto dest: stepsD(2) intro: spells_grows steps_trans)
qed

lemma intern_specials_spec:
  assumes "foldl (intern_special env) (sts, tz) tokens = (sts', tz')" and "tz_ok U tz"
    and "spells (tz_vocab tz) (map sp_orth sts) s" and "\<And>orth. orth \<in> set (map fst tokens) \<Longrightarrow> interned env U orth"
    and "list_all (\<lambda>(_, norm). case norm of None \<Rightarrow> True | Some n \<Rightarrow> n \<in> U \<or> n = []) tokens"
  shows "steps U tz tz' \<and> spells (tz_vocab tz') (map sp_orth sts') (s @ concat (map fst tokens))"
  using assms
proof (induction tokens arbitrary: sts tz s)
  case (Cons tok tokens)
  obtain orth norm where tok: "tok = (orth, norm)" by force
  obtain sts1 tz1 where i: "intern_special env (sts, tz) (orth, norm) = (sts1, tz1)" by force
  have orth: "interned env U orth" using Cons.prems(4) tok by simp
  have norm: "case norm of None \<Rightarrow> True | Some n \<Rightarrow> n \<in> U \<or> n = []" using Cons.prems(5) tok by simp
  have one: "steps U tz tz1" "spells (tz_vocab tz1) (map sp_orth sts1) (s @ orth)"
    using intern_special_spec [OF Cons.prems(2) orth norm i Cons.prems(3)] by auto
  have "foldl (intern_special env) (sts1, tz1) tokens = (sts', tz')" using Cons.prems(1) tok i by simp
  from Cons.IH [OF this stepsD(1) [OF one(1)] one(2)] Cons.prems(4,5) tok one(1) show ?case
    by (auto intro: steps_trans)
qed simp

lemma insert_rule_ok:
  assumes ok: "tz_ok U tz" and rule: "rule_ok U (tz_vocab tz) rule" and phrase: "m \<Longrightarrow> phrase_ok (tz_vocab tz) rule"
  shows "tz_ok U (insert_rule tz rule m)"
proof -
  let ?tz = "insert_rule tz rule m"
  have same: "tz_vocab ?tz = tz_vocab tz" "affixes_ok ?tz = affixes_ok tz" "hm_get (tz_cache ?tz) k = None" for k
    by (simp_all add: insert_rule_def affixes_ok_def)
  have "k = hash_utf8 (rule_key r) \<and> rule_ok U (tz_vocab tz) r" if "hm_get (tz_specials ?tz) k = Some r" for k r
  proof (cases "k = hash_utf8 (rule_key rule)")
    case True
    with that rule show ?thesis by (simp add: insert_rule_def hm_simps)
  next
    case False
    with that have "hm_get (tz_specials tz) k = Some r" by (simp add: insert_rule_def hm_simps)
    with ok show ?thesis unfolding tz_ok_def by blast
  qed
  moreover have "rule_ok U (tz_vocab tz) r \<and> phrase_ok (tz_vocab tz) r" if "r \<in> set (tz_matcher ?tz)" for r
  proof -
    have "r \<in> set (tz_matcher tz) \<or> m \<and> r = rule" using that by (auto simp: insert_rule_def split: if_splits)
    then show ?thesis using ok rule phrase unfolding tz_ok_def by blast
  qed
  ultimately show ?thesis using ok unfolding tz_ok_def same by blast
qed

lemma phrase_of_doc:
  assumes "doc_ok v doc" and "doc_text v doc = key" and "CHR '' '' \<notin> set key"
  shows "list_all (\<lambda>k. ss_get (vo_strings v) k \<noteq> None) (map (\<lambda>t. lx_orth (tk_lexeme t)) doc) \<and>
    concat (map (orth_str v) (map (\<lambda>t. lx_orth (tk_lexeme t)) doc)) = key"
proof -
  have "\<not> tk_spacy t" if "t \<in> set doc" for t
    using that assms(2,3) by (auto simp: doc_text_def token_piece_def dest!: split_list split: if_splits)
  then have "map (token_piece v) doc = map (\<lambda>t. orth_str v (lx_orth (tk_lexeme t))) doc"
    by (simp add: token_piece_def orth_str_def orth_text_def)
  then have "concat (map (\<lambda>t. orth_str v (lx_orth (tk_lexeme t))) doc) = key" using assms(2) unfolding doc_text_def by metis
  then show ?thesis using assms(1) by (simp add: doc_ok_def list_all_iff resolves_def reads_as_def comp_def)
qed

lemma add_special_case_ok:
  assumes ok: "tz_ok U tz" and ex: "case_ok env U ex"
  shows "tz_ok U (snd (add_special_case env tz ex))"
proof -
  obtain key tokens where ex': "ex = (key, tokens)" by force
  show ?thesis
  proof (cases "concat (map fst tokens) = key")
    case key: True
    have k: "key \<in> U" "interned env U key" "length key < 2 ^ 30" using ex by (simp_all add: case_ok_def ex')
    obtain sts tz' where i: "foldl (intern_special env) ([], tz) tokens = (sts, tz')" by force
    have "interned env U orth" if "orth \<in> set (map fst tokens)" for orth
      using k(2) sublist_concat [OF that] unfolding key by (rule interned_sublist)
    from intern_specials_spec [OF i ok _ this, where s = "[]"] ex
    have st: "steps U tz tz'" and sts: "spells (tz_vocab tz') (map sp_orth sts) key" by (simp_all add: case_ok_def ex' key)
    note ok' = stepsD(1) [OF st]
    obtain r u where t: "tokenize_affixes env False key tz' = (r, u)" by force
    from tokenize_affixes_spec [OF ok' k(2,3), of False] have p: "pass_outcome U tz' key (r, u)" by (simp add: t)
    then have u: "steps U tz' u" "tz_ok U u" using stepsD(1) by (auto simp: pass_outcome_def)
    have "tz_ok U (insert_rule u \<lparr>rule_key = key, rule_tokens = sts, rule_phrase = map (\<lambda>t. lx_orth (tk_lexeme t)) doc\<rparr> True)"
      if "r = Inr doc" for doc
    proof (rule insert_rule_ok [OF u(2)])
      show "rule_ok U (tz_vocab u) \<lparr>rule_key = key, rule_tokens = sts, rule_phrase = map (\<lambda>t. lx_orth (tk_lexeme t)) doc\<rparr>"
        using k(1) spells_grows [OF sts stepsD(2) [OF u(1)]] by (simp add: rule_ok_def)
      show "phrase_ok (tz_vocab u) \<lparr>rule_key = key, rule_tokens = sts, rule_phrase = map (\<lambda>t. lx_orth (tk_lexeme t)) doc\<rparr>"
        using phrase_of_doc [of "tz_vocab u" doc key] p t that
        by (auto simp: pass_outcome_def phrase_ok_def tokenize_affixes_def)
    qed
    moreover have "tz_ok U (insert_rule tz' \<lparr>rule_key = key, rule_tokens = sts, rule_phrase = []\<rparr> False)"
      using k(1) sts by (intro insert_rule_ok [OF ok']) (simp_all add: rule_ok_def)
    ultimately show ?thesis using ok' u by (simp add: add_special_case_def ex' key i t Let_def split: sum.splits)
  qed (use ok in \<open>simp add: add_special_case_def ex'\<close>)
qed

lemma add_special_cases_ok:
  assumes "tz_ok U tz" and "list_all (case_ok env U) exs" and "add_special_cases env exs tz = Inr tz'"
  shows "tz_ok U tz'"
  using assms
proof (induction exs arbitrary: tz)
  case (Cons ex exs)
  obtain r u where r: "add_special_case env tz ex = (r, u)" by force
  from add_special_case_ok [OF Cons.prems(1), of env ex] Cons.prems(2) have "tz_ok U u" by (simp add: r)
  with Cons.IH [of u] Cons.prems(2,3) show ?case by (simp add: r split: sum.splits)
qed simp

text \<open>The patterns of a configuration compile to anchored affixes and ordered infixes.\<close>

definition patterns_ok :: "(string \<Rightarrow> string + regex) \<Rightarrow> tokenizer_config \<Rightarrow> bool" where
  "patterns_ok compile config \<longleftrightarrow>
     (\<forall>p re. tc_prefix_pattern config = Some p \<longrightarrow> compile p = Inr re \<longrightarrow> prefix_ok re) \<and>
     (\<forall>p re. tc_suffix_pattern config = Some p \<longrightarrow> compile p = Inr re \<longrightarrow> suffix_ok re) \<and>
     (\<forall>p re. tc_infix_pattern config = Some p \<longrightarrow> compile p = Inr re \<longrightarrow> infix_ok re)"

lemma compile_opt_Inr:
  "compile_opt compile p = Inr re \<longleftrightarrow> p = None \<and> re = None \<or> (\<exists>q r. p = Some q \<and> compile q = Inr r \<and> re = Some r)"
  by (auto simp: compile_opt_def split: option.splits sum.splits)

lemma tokenizer_new_ok:
  assumes "hash_safe U" and "vocab_ok U v" and "patterns_ok compile config" and "list_all (case_ok env U) exs"
    and "tokenizer_new compile env v config exs = Inr tz"
  shows "tz_ok U tz"
proof -
  obtain tz0 where "compile_opt compile (tc_prefix_pattern config) = Inr (tz_prefixes tz0)"
      "compile_opt compile (tc_suffix_pattern config) = Inr (tz_suffixes tz0)"
      "compile_opt compile (tc_infix_pattern config) = Inr (tz_infixes tz0)"
    and new: "tz_vocab tz0 = v" "tz_specials tz0 = hm_empty" "tz_matcher tz0 = []" "tz_cache tz0 = hm_empty"
    and add: "add_special_cases env exs tz0 = Inr tz"
    using assms(5) unfolding tokenizer_new_def bind_err_Inr by force
  then have "affixes_ok tz0" using assms(3) by (auto simp: compile_opt_Inr patterns_ok_def affixes_ok_def)
  then have "tz_ok U tz0" using assms(1,2) by (simp add: tz_ok_def new)
  with add assms(4) show ?thesis by (blast intro: add_special_cases_ok)
qed

section \<open>The matcher pass\<close>

text \<open>Every match of a special case is of a rule without spaces and spans words that were written without spaces.\<close>

definition keeps_spacing :: "tokenizer \<Rightarrow> doc_tokens \<Rightarrow> bool" where
  "keeps_spacing tz doc \<longleftrightarrow>
     list_all (\<lambda>(rule, start, stop). CHR '' '' \<notin> set (rule_key rule) \<and>
         list_all (\<lambda>t. \<not> tk_spacy t) (take (stop - 1 - start) (drop start doc))) (find_phrase_matches tz doc)"

lemma find_phrase_matchesD:
  assumes "(rule, start, stop) \<in> set (find_phrase_matches tz doc)"
  shows "rule \<in> set (tz_matcher tz)" and "rule_phrase rule \<noteq> []" and "start < stop" and "stop \<le> length doc"
    and "map (\<lambda>t. lx_orth (tk_lexeme t)) (take (stop - start) (drop start doc)) = rule_phrase rule"
  using assms by (auto simp: find_phrase_matches_def Let_def take_map drop_map simp del: upt_Suc split: if_splits)

lemma filter_steps_subset: "set (snd (foldl filter_step (seen, fs) ms)) \<subseteq> set fs \<union> set ms"
proof (induction ms arbitrary: seen fs)
  case (Cons m ms)
  obtain rule a b where m: "m = (rule, a, b)" by (cases m)
  show ?case using Cons [of "seen \<union> {a..<b}" "fs @ [m]"] Cons [of "seen \<union> {a..<b}" fs]
    by (auto simp: m filter_step_def)
qed simp

lemma filter_special_spans_subset: "set (filter_special_spans ms) \<subseteq> set ms"
  using filter_steps_subset [of "{}" "[]"] by (fastforce simp: filter_special_spans_def Let_def)

lemma span_data_mem:
  "hm_get (foldl (\<lambda>d (rule, start, stop). hm_insert d start (rule, stop)) d ms) i = Some (rule, stop) \<Longrightarrow>
     hm_get d i = Some (rule, stop) \<or> (rule, i, stop) \<in> set ms"
proof (induction ms arbitrary: d)
  case (Cons m ms)
  obtain r a b where m: "m = (r, a, b)" by (cases m)
  from Cons.IH [of "hm_insert d a (r, b)"] Cons.prems show ?case by (cases "a = i") (auto simp: m hm_simps)
qed simp

lemma special_records_text:
  "sts \<noteq> [] \<Longrightarrow> doc_text v (special_records idx sp sts) =
     concat (map (\<lambda>lx. orth_text lx (vo_strings v)) (map sp_orth sts)) @ (if sp then '' '' else [])"
proof (induction sts arbitrary: idx)
  case (Cons st sts)
  then show ?case by (cases "sts = []") (auto simp: doc_text_def token_piece_def)
qed simp

lemma text_unspaced:
  assumes "list_all (\<lambda>t. \<not> tk_spacy t) ts"
  shows "doc_text v (ts @ [t]) = concat (map (orth_str v) (map (\<lambda>t. lx_orth (tk_lexeme t)) (ts @ [t]))) @ (if tk_spacy t then '' '' else [])"
proof -
  have "map (token_piece v) ts = map (\<lambda>t. orth_str v (lx_orth (tk_lexeme t))) ts"
    using assms by (simp add: token_piece_def orth_str_def orth_text_def list_all_iff)
  then have "concat (map (token_piece v) ts) = concat (map (\<lambda>t. orth_str v (lx_orth (tk_lexeme t))) ts)" by (rule arg_cong)
  then show ?thesis by (simp add: doc_text_def token_piece_def orth_str_def orth_text_def comp_def)
qed

lemma match_text:
  assumes ok: "tz_ok U tz" and sp: "keeps_spacing tz doc" and m: "(rule, start, stop) \<in> set (find_phrase_matches tz doc)"
  shows "doc_text (tz_vocab tz) (take (stop - start) (drop start doc)) =
      doc_text (tz_vocab tz) (special_records idx (tk_spacy (doc ! (stop - 1))) (rule_tokens rule))"
proof -
  note match = find_phrase_matchesD [OF m]
  have "CHR '' '' \<notin> set (rule_key rule)" and un: "list_all (\<lambda>t. \<not> tk_spacy t) (take (stop - 1 - start) (drop start doc))"
    using sp m by (auto simp: keeps_spacing_def list_all_iff)
  then have key: "concat (map (orth_str (tz_vocab tz)) (rule_phrase rule)) = rule_key rule" and ne: "rule_key rule \<noteq> []"
    and toks: "spells (tz_vocab tz) (map sp_orth (rule_tokens rule)) (rule_key rule)"
    using ok match(1,2) by (auto simp: tz_ok_def phrase_ok_def rule_ok_def)
  have ts: "take (stop - start) (drop start doc) = take (stop - 1 - start) (drop start doc) @ [doc ! (stop - 1)]"
    using match(3,4) take_Suc_conv_app_nth [of "stop - 1 - start" "drop start doc"] by (simp add: Suc_diff_Suc)
  have "rule_tokens rule \<noteq> []" using toks ne by auto
  moreover have "concat (map (\<lambda>lx. orth_text lx (vo_strings (tz_vocab tz))) (map sp_orth (rule_tokens rule))) = rule_key rule"
    using toks by (simp only: spells_def)
  ultimately show ?thesis
    unfolding ts text_unspaced [OF un] using match(5) key by (simp add: special_records_text ts)
qed

lemma splice_loop_spec:
  assumes "\<And>k rule stop idx. hm_get sd k = Some (rule, stop) \<Longrightarrow> k < stop \<and> stop \<le> length doc \<and>
      doc_text v (take (stop - k) (drop k doc)) = doc_text v (special_records idx (tk_spacy (doc ! (stop - 1))) (rule_tokens rule))"
  shows "\<exists>res. splice_loop doc sd i out = Some res \<and> doc_text v res = doc_text v out @ doc_text v (drop i doc)"
  using assms
proof (induction doc sd i out rule: splice_loop.induct)
  case (1 doc sd i out)
  have join: "doc_text v (xs @ ys) = doc_text v xs @ doc_text v ys" for xs ys by (simp add: doc_text_def)
  show ?case
  proof (cases "i < length doc")
    case i: True
    show ?thesis
    proof (cases "hm_get sd i")
      case None
      from "1.IH"(1) [OF i None "1.prems"] obtain res where
        "splice_loop doc sd (i + 1) (out @ [doc ! i]) = Some res"
        "doc_text v res = doc_text v (out @ [doc ! i]) @ doc_text v (drop (i + 1) doc)" by blast
      moreover have "drop i doc = [doc ! i] @ drop (i + 1) doc" using i by (simp add: Cons_nth_drop_Suc)
      ultimately show ?thesis using i None by (simp add: splice_loop.simps [of doc sd i] doc_text_def)
    next
      case (Some x)
      obtain rule stop where x: "x = (rule, stop)" by force
      let ?new = "special_records (tk_idx (doc ! i)) (tk_spacy (doc ! (stop - 1))) (rule_tokens rule)"
      have s: "i < stop" "stop \<le> length doc" "doc_text v (take (stop - i) (drop i doc)) = doc_text v ?new"
        using "1.prems" Some x by blast+
      then have ns: "\<not> (stop \<le> i \<or> length doc < stop)" by simp
      from "1.IH"(2) [OF i Some x [symmetric] ns "1.prems"] obtain res where
        "splice_loop doc sd stop (out @ ?new) = Some res" "doc_text v res = doc_text v (out @ ?new) @ doc_text v (drop stop doc)"
        by blast
      moreover have "splice_loop doc sd i out = splice_loop doc sd stop (out @ ?new)"
        using i Some x ns by (simp add: splice_loop.simps [of doc sd i])
      moreover have "take (stop - i) (drop i doc) @ drop stop doc = drop i doc"
        using s(1) append_take_drop_id [of "stop - i" "drop i doc"] by simp
      then have "doc_text v (drop i doc) = doc_text v ?new @ doc_text v (drop stop doc)" using s(3) by (metis join)
      ultimately show ?thesis by (simp add: join)
    qed
  qed (simp add: splice_loop.simps [of doc sd i] doc_text_def)
qed

lemma apply_special_cases_text:
  assumes "tz_ok U tz" and "keeps_spacing tz doc"
  shows "\<exists>doc'. apply_special_cases tz doc = Some doc' \<and> doc_text (tz_vocab tz) doc' = doc_text (tz_vocab tz) doc"
proof (cases "find_phrase_matches tz doc = []")
  case False
  let ?ms = "find_phrase_matches tz doc"
  define sd where "sd = foldl (\<lambda>d (rule, start, stop). hm_insert d start (rule, stop)) hm_empty (filter_special_spans ?ms)"
  have "(rule, k, stop) \<in> set ?ms" if "hm_get sd k = Some (rule, stop)" for k rule stop
    using span_data_mem [OF that [unfolded sd_def]] filter_special_spans_subset by auto
  with match_text [OF assms] find_phrase_matchesD(3,4)
  have "k < stop \<and> stop \<le> length doc \<and> doc_text (tz_vocab tz) (take (stop - k) (drop k doc)) =
      doc_text (tz_vocab tz) (special_records idx (tk_spacy (doc ! (stop - 1))) (rule_tokens rule))"
    if "hm_get sd k = Some (rule, stop)" for k rule stop idx using that by blast
  from splice_loop_spec [of sd doc, OF this, of 0 "[]"] False show ?thesis
    by (auto simp: apply_special_cases_def sd_def doc_text_def)
qed (simp add: apply_special_cases_def)

section \<open>Engines that never fail\<close>

text \<open>
  The regex engine reports an error when a search exceeds its limits. When the searches never do, no operation of the first
  pass returns an error of the engine.
\<close>

definition total_regex :: "regex \<Rightarrow> bool" where
  "total_regex re \<longleftrightarrow> (\<forall>s. (\<exists>b. rx_is_match re s = Inr b) \<and> (\<exists>r. rx_find re s = Inr r) \<and> (\<exists>ms. rx_find_iter re s = map Inr ms))"

definition engine_total :: "tokenizer \<Rightarrow> bool" where
  "engine_total tz \<longleftrightarrow> list_all (pred_option total_regex)
     [tz_prefixes tz, tz_suffixes tz, tz_infixes tz, tz_token_match tz, tz_url_match tz]"

definition regex_failed :: "spacy_error + 'a \<Rightarrow> bool" where
  "regex_failed r \<longleftrightarrow> (\<exists>m. r = Inl (RegexE m))"

lemma regex_failed_simps [simp]: "\<not> regex_failed (Inr x)" "regex_failed (Inl e) \<longleftrightarrow> (\<exists>m. e = RegexE m)"
  by (auto simp: regex_failed_def)

lemma engine_total_cong [simp]: "engine_total (tz\<lparr>tz_vocab := v\<rparr>) = engine_total tz" "engine_total (tz\<lparr>tz_cache := c\<rparr>) = engine_total tz"
  by (simp_all add: engine_total_def)

lemma steps_engine: "steps U tz tz' \<Longrightarrow> engine_total tz' = engine_total tz"
  unfolding steps_def by (cases tz; cases tz') (simp add: engine_total_def)

lemma total_searches:
  assumes "engine_total tz"
  obtains a b c d f where "is_match (tz_token_match tz) s = Inr a" "is_match (tz_url_match tz) s = Inr b" "find_prefix tz s = Inr c"
    "find_suffix tz s = Inr d" "find_infix tz s = Inr f"
proof -
  have match: "\<exists>b. is_match re s = Inr b" and len: "\<exists>n. match_len re s = Inr n" if "pred_option total_regex re" for re
    using that by (auto simp: is_match_def match_len_def total_regex_def split: option.splits sum.splits) (metis sum.distinct(1))+
  have "\<exists>f. find_infix tz s = Inr f"
  proof (cases "tz_infixes tz")
    case (Some re)
    with assms obtain ms where "rx_find_iter re s = map Inr ms" by (auto simp: engine_total_def total_regex_def)
    moreover have "collect_matches (map Inr ms) = Inr ms" by (simp add: collect_matches_Inr)
    ultimately show ?thesis by (simp add: find_infix_def Some)
  qed (simp add: find_infix_def)
  with that match len show ?thesis using assms by (auto simp: engine_total_def find_prefix_def find_suffix_def) metis
qed

lemma tz_lex_engine: "engine_total (snd (tz_lex env tz s)) = engine_total tz"
  by (simp add: tz_lex_def split: prod.split)

definition succeeds :: "(spacy_error + 'a) \<times> tokenizer \<Rightarrow> bool" where
  "succeeds r \<longleftrightarrow> \<not> regex_failed (fst r) \<and> engine_total (snd r)"

lemma succeeds_Inr [simp]: "succeeds (Inr x, tz) = engine_total tz"
  by (simp add: succeeds_def)

lemma split_loop_total: "engine_total tz \<Longrightarrow> succeeds (split_loop env sp last_size s ps ss tz)"
proof (induction "2 * length s + (if length s = last_size then 0 else 1)" arbitrary: s ps ss tz last_size rule: less_induct)
  case (less s last_size ps ss tz)
  note total = total_searches [OF less.prems]
  obtain a n where s: "is_match (tz_token_match tz) s = Inr a" "find_prefix tz s = Inr n" by (rule total [of s]) blast
  obtain k where k: "find_suffix tz (drop n s) = Inr k" by (rule total [of "drop n s"]) blast
  let ?at = "length s - k"
  obtain p tzp where p: "tz_lex env tz (take n s) = (p, tzp)" by force
  obtain q tzq where q: "tz_lex env tz (drop ?at s) = (q, tzq)" by force
  obtain q' tzr where q': "tz_lex env tzp (drop ?at s) = (q', tzr)" by force
  have lex: "engine_total tzp" "engine_total tzq" "engine_total tzr"
    using tz_lex_engine [of env tz "take n s"] tz_lex_engine [of env tz "drop ?at s"] tz_lex_engine [of env tzp "drop ?at s"]
      p q q' less.prems by simp_all
  show ?case
  proof (cases "s = [] \<or> length s = last_size")
    case True
    then show ?thesis using less.prems by (simp add: split_loop.simps [of env sp last_size])
  next
    case False
    have go: "succeeds (split_loop env sp (length s) t ps ss tz')" if "length t < length s \<or> t = s" "engine_total tz'" for t ps ss tz'
      using that False by (intro less.hyps) auto
    have "succeeds (split_loop env sp (length s) (drop n (take ?at s)) ps' ss' tzr)" if "n \<noteq> 0" for ps' ss'
      using that False lex(3) by (intro go) auto
    moreover have "succeeds (split_loop env sp (length s) (drop n s) ps' ss' tzp)" if "n \<noteq> 0" for ps' ss'
      using that False lex(1) by (intro go) auto
    moreover have "succeeds (split_loop env sp (length s) (take ?at s) ps' ss' tzq)" if "k \<noteq> 0" for ps' ss'
      using that False lex(2) by (intro go) auto
    moreover note go [OF disjI2 [OF refl] less.prems]
    ultimately show ?thesis using False s k less.prems lex
      by (cases a) (simp_all add: split_loop.simps [of env sp last_size] Let_def p q q'
          del: drop_eq_Nil take_eq_Nil take_all drop_all diff_is_0_eq diff_is_0_eq')
  qed
qed

definition runs :: "(spacy_error + 'a) \<times> work \<Rightarrow> bool" where
  "runs r \<longleftrightarrow> \<not> regex_failed (fst r) \<and> engine_total (wk_tz (snd r))"

lemma runs_simps [simp]:
  "runs (Inr x, w) = engine_total (wk_tz w)" "runs (Inl (AnnotationE m), w) = engine_total (wk_tz w)"
  by (simp_all add: runs_def)

lemma wk_tz_fold [simp]: "wk_tz (foldl push_lex w ls) = wk_tz w" "wk_tz (foldl push_special w sts) = wk_tz w"
  by (induction ls arbitrary: w, simp_all add: push_lex_def) (induction sts arbitrary: w, simp_all add: push_special_def)

lemma push_word_engine [simp]: "engine_total (wk_tz (push_word env w s)) = engine_total (wk_tz w)"
  using tz_lex_engine [of env "wk_tz w" s] by (cases "tz_lex env (wk_tz w) s") (simp add: push_word_def push_lex_def)

lemma infix_fold_engine: "engine_total (wk_tz (snd (foldl (infix_step env s) st ms))) = engine_total (wk_tz (snd st))"
proof (induction ms arbitrary: st)
  case (Cons m ms)
  have "engine_total (wk_tz (snd (infix_step env s st m))) = engine_total (wk_tz (snd st))"
    by (cases st; cases m) (simp add: infix_step_def Let_def)
  with Cons.IH [of "infix_step env s st m"] show ?case by simp
qed simp

lemma attach_infixes_engine [simp]: "engine_total (wk_tz (attach_infixes env s ms w)) = engine_total (wk_tz w)"
  using infix_fold_engine [of env s "(0, w)" ms] by (auto simp: attach_infixes_def split: prod.split)

lemma try_specials_tz: "try_specials_and_cache sp key w = (hit, w') \<Longrightarrow> wk_tz w' = wk_tz w"
  by (auto simp: try_specials_and_cache_def split: option.splits if_splits)

lemma attach_core_total:
  assumes "engine_total (wk_tz w)"
  shows "runs (attach_core env sp s w)"
proof -
  obtain hit w' where t: "try_specials_and_cache sp (hash_utf8 s) w = (hit, w')" by force
  from total_searches [OF assms, of s] obtain a b f where
    "is_match (tz_token_match (wk_tz w)) s = Inr a" "is_match (tz_url_match (wk_tz w)) s = Inr b" "find_infix (wk_tz w) s = Inr f" .
  then show ?thesis using assms t try_specials_tz [OF t] by (auto simp: attach_core_def split: option.split bool.split)
qed

lemma attach_tokens_total: "engine_total (wk_tz w) \<Longrightarrow> runs (attach_tokens env sp s ps ss w)"
  using attach_core_total [of "foldl push_lex w ps" env sp s]
  by (auto simp: attach_tokens_def runs_def split: prod.split sum.split)

lemma tokenize_span_total:
  assumes "engine_total (wk_tz w)"
  shows "runs (tokenize_span env sp t key w)"
proof -
  obtain r tz where sp: "split_affixes env sp t (wk_tz w) = (r, tz)" by force
  with split_loop_total [OF assms, of env sp 0 t "[]" "[]"] have ok: "\<not> regex_failed r" "engine_total tz"
    by (simp_all add: split_affixes_def succeeds_def)
  show ?thesis
  proof (cases r)
    case (Inl e)
    with ok sp show ?thesis by (simp add: tokenize_span_def runs_def)
  next
    case (Inr x)
    obtain rem ps ss where x: "x = (rem, ps, ss)" by (cases x)
    have "runs (attach_tokens env sp rem ps ss (w\<lparr>wk_tz := tz\<rparr>))" using ok(2) by (intro attach_tokens_total) simp
    with sp Inr x show ?thesis by (auto simp: tokenize_span_def runs_def Let_def split: prod.split sum.split)
  qed
qed

lemma run_span_total: "engine_total (wk_tz w) \<Longrightarrow> runs (run_span env sp t w)"
  by (auto simp: run_span_def intro!: tokenize_span_total dest!: try_specials_tz split: prod.split bool.split)

lemma set_last_spacy_engine: "runs (set_last_spacy b msg w) = engine_total (wk_tz w)"
  by (simp add: set_last_spacy_def)

lemma scan_char_total:
  assumes "engine_total (wk_tz w)"
  shows "runs (scan_char env sp cs i (start, in_ws, w))"
proof -
  have run: "runs (if start < i then run_span env sp (concat (take (i - start) (drop start cs))) w else (Inr (), w))"
    using assms run_span_total by auto
  obtain r w' where r: "(if start < i then run_span env sp (concat (take (i - start) (drop start cs))) w else (Inr (), w)) = (r, w')" by force
  obtain r' w'' where r': "set_last_spacy True ''no token before space'' w' = (r', w'')" by force
  from run r have "runs (r, w')" by simp
  with set_last_spacy_engine [of True "''no token before space''" w', unfolded r'] show ?thesis
    using assms r r' by (cases r; cases r') (auto simp: scan_char_def runs_def)
qed

lemma scan_total: "engine_total (wk_tz w) \<Longrightarrow> runs (scan env sp cs is (start, in_ws, w))"
proof (induction "is" arbitrary: start in_ws w)
  case (Cons i "is")
  obtain r w' where r: "scan_char env sp cs i (start, in_ws, w) = (r, w')" by force
  with scan_char_total [OF Cons.prems] have "runs (r, w')" by metis
  with r Cons.IH [of w'] show ?case by (cases r) (auto simp: runs_def split: prod.split)
qed simp

lemma tokenize_affixes_total:
  assumes "engine_total tz"
  shows "succeeds (tokenize_affixes env sp text tz)"
proof -
  let ?cs = "chars text"
  obtain r w where r: "scan env sp ?cs [0..<length ?cs] (0, is_whitespace (?cs ! 0), \<lparr>wk_tz = tz, wk_doc = [], wk_special = False\<rparr>) = (r, w)"
    by force
  have rw: "runs (r, w)" using scan_total [of "\<lparr>wk_tz = tz, wk_doc = [], wk_special = False\<rparr>" env sp ?cs] assms
    unfolding r [symmetric] by simp
  show ?thesis
  proof (cases r)
    case (Inl e)
    with rw r assms show ?thesis by (auto simp: tokenize_affixes_def succeeds_def runs_def Let_def)
  next
    case (Inr x)
    obtain start in_ws where x: "x = (start, in_ws)" by (cases x)
    obtain r' w' where r': "run_span env sp (concat (drop start ?cs)) w = (r', w')" by force
    have rw': "runs (r', w')" using run_span_total [of w env sp] rw Inr r' by (metis runs_simps(1))
    obtain r'' w'' where r'': "set_last_spacy (last ?cs = '' '' \<and> \<not> in_ws) ''no token after final span'' w' = (r'', w'')" by force
    have "runs (r'', w'')" if "engine_total (wk_tz w')"
      using set_last_spacy_engine [of "last ?cs = '' '' \<and> \<not> in_ws" "''no token after final span''" w'] that by (simp add: r'')
    with rw rw' r r' r'' Inr x assms show ?thesis
      by (cases r'; cases r'') (auto simp: tokenize_affixes_def succeeds_def runs_def Let_def)
  qed
qed

lemma has_affix_total: "engine_total tz \<Longrightarrow> \<exists>b. has_affix tz key = Inr b"
  by (rule total_searches [of tz key]) (auto simp: has_affix_def)

lemma add_special_case_total:
  assumes ok: "tz_ok U tz" and ex: "case_ok env U (key, tokens)" and key: "concat (map fst tokens) = key" and tot: "engine_total tz"
  shows "fst (add_special_case env tz (key, tokens)) = Inr () \<and> engine_total (snd (add_special_case env tz (key, tokens)))"
proof -
  have k: "interned env U key" "length key < 2 ^ 30" using ex by (simp_all add: case_ok_def)
  obtain sts tz' where i: "foldl (intern_special env) ([], tz) tokens = (sts, tz')" by force
  have "interned env U orth" if "orth \<in> set (map fst tokens)" for orth
    using k(1) sublist_concat [OF that] unfolding key by (rule interned_sublist)
  from intern_specials_spec [OF i ok _ this, where s = "[]"] ex have st: "steps U tz tz'" by (simp_all add: case_ok_def)
  then have tot': "engine_total tz'" using steps_engine tot by blast
  obtain b where b: "has_affix tz' key = Inr b" using has_affix_total [OF tot'] by blast
  obtain r u where t: "tokenize_affixes env False key tz' = (r, u)" by force
  have "succeeds (r, u)" using tokenize_affixes_total [OF tot', of env False key] by (simp add: t)
  moreover have "pass_outcome U tz' key (r, u)" using tokenize_affixes_spec [OF stepsD(1) [OF st] k, of False] by (simp add: t)
  ultimately obtain doc where "r = Inr doc" "engine_total u" by (cases r) (auto simp: pass_outcome_def succeeds_def)
  then show ?thesis using tot' b t by (simp add: add_special_case_def key i Let_def) (simp add: insert_rule_def engine_total_def)
qed

lemma add_special_cases_total:
  assumes "tz_ok U tz" and "list_all (case_ok env U) exs" and "list_all (\<lambda>(key, tokens). concat (map fst tokens) = key) exs"
    and "engine_total tz"
  shows "\<exists>tz'. add_special_cases env exs tz = Inr tz' \<and> engine_total tz'"
  using assms
proof (induction exs arbitrary: tz)
  case (Cons ex exs)
  obtain key tokens where ex: "ex = (key, tokens)" by force
  with Cons.prems have c: "case_ok env U (key, tokens)" "concat (map fst tokens) = key" by simp_all
  obtain r u where r: "add_special_case env tz ex = (r, u)" by force
  have "r = Inr ()" "engine_total u" using add_special_case_total [OF Cons.prems(1) c Cons.prems(4)] r ex by simp_all
  moreover have "tz_ok U u" using add_special_case_ok [OF Cons.prems(1) c(1)] r ex by simp
  ultimately show ?case using Cons.IH [of u] Cons.prems(2,3) r by simp
qed simp

text \<open>The matcher holds rules of the language data only.\<close>

lemma add_special_case_matcher:
  assumes ok: "tz_ok U tz" and ex: "case_ok env U (key, tokens)" and r: "r \<in> set (tz_matcher (snd (add_special_case env tz (key, tokens))))"
  shows "r \<in> set (tz_matcher tz) \<or> rule_key r = key"
proof (cases "concat (map fst tokens) = key")
  case key: True
  have k: "interned env U key" "length key < 2 ^ 30" using ex by (simp_all add: case_ok_def)
  obtain sts tz' where i: "foldl (intern_special env) ([], tz) tokens = (sts, tz')" by force
  have "interned env U orth" if "orth \<in> set (map fst tokens)" for orth
    using k(1) sublist_concat [OF that] unfolding key by (rule interned_sublist)
  from intern_specials_spec [OF i ok _ this, where s = "[]"] ex have st: "steps U tz tz'" by (simp_all add: case_ok_def)
  obtain x u where t: "tokenize_affixes env False key tz' = (x, u)" by force
  have "steps U tz' u" using tokenize_affixes_spec [OF stepsD(1) [OF st] k, of False] by (simp add: t pass_outcome_def)
  with st have "tz_matcher u = tz_matcher tz" "tz_matcher tz' = tz_matcher tz" using steps_matcher by metis+
  with r show ?thesis by (auto simp: add_special_case_def key i t Let_def insert_rule_def split: sum.splits if_splits)
qed (use r in \<open>simp add: add_special_case_def\<close>)

lemma add_special_cases_matcher:
  assumes "tz_ok U tz" and "list_all (case_ok env U) exs" and "add_special_cases env exs tz = Inr tz'" and "r \<in> set (tz_matcher tz')"
  shows "r \<in> set (tz_matcher tz) \<or> rule_key r \<in> fst ` set exs"
  using assms
proof (induction exs arbitrary: tz)
  case (Cons ex exs)
  obtain key tokens where ex: "ex = (key, tokens)" by force
  obtain x u where x: "add_special_case env tz ex = (x, u)" by force
  have c: "case_ok env U (key, tokens)" using Cons.prems(2) ex by simp
  have "tz_ok U u" using add_special_case_ok [OF Cons.prems(1) c] x ex by simp
  with Cons.IH [of u] Cons.prems x have "r \<in> set (tz_matcher u) \<or> rule_key r \<in> fst ` set exs" by (auto split: sum.splits)
  with add_special_case_matcher [OF Cons.prems(1) c, of r] x ex show ?case by auto
qed simp

lemma tokenizer_new_matcher:
  assumes "hash_safe U" and "vocab_ok U v" and "patterns_ok compile config" and "list_all (case_ok env U) exs"
    and "tokenizer_new compile env v config exs = Inr tz" and "r \<in> set (tz_matcher tz)"
  shows "rule_key r \<in> fst ` set exs"
proof -
  obtain tz0 where "compile_opt compile (tc_prefix_pattern config) = Inr (tz_prefixes tz0)"
      "compile_opt compile (tc_suffix_pattern config) = Inr (tz_suffixes tz0)"
      "compile_opt compile (tc_infix_pattern config) = Inr (tz_infixes tz0)"
    and new: "tz_vocab tz0 = v" "tz_specials tz0 = hm_empty" "tz_matcher tz0 = []" "tz_cache tz0 = hm_empty"
    and add: "add_special_cases env exs tz0 = Inr tz"
    using assms(5) unfolding tokenizer_new_def bind_err_Inr by force
  then have "affixes_ok tz0" using assms(3) by (auto simp: compile_opt_Inr patterns_ok_def affixes_ok_def)
  then have "tz_ok U tz0" using assms(1,2) by (simp add: tz_ok_def new)
  from add_special_cases_matcher [OF this assms(4) add assms(6)] show ?thesis by (simp add: new)
qed

text \<open>Every pattern of a configuration compiles, to searches that never fail.\<close>

definition patterns_total :: "(string \<Rightarrow> string + regex) \<Rightarrow> tokenizer_config \<Rightarrow> bool" where
  "patterns_total compile config \<longleftrightarrow>
     (\<forall>p \<in> set [tc_prefix_pattern config, tc_suffix_pattern config, tc_infix_pattern config, tc_token_match config, tc_url_match config].
        pred_option (\<lambda>p. \<exists>re. compile p = Inr re \<and> total_regex re) p)"

lemma tokenizer_new_total:
  assumes "hash_safe U" and "vocab_ok U v" and "patterns_ok compile config" and "list_all (case_ok env U) exs"
    and "patterns_total compile config" and "list_all (\<lambda>(key, tokens). concat (map fst tokens) = key) exs"
  shows "\<exists>new. tokenizer_new compile env v config exs = Inr new \<and> engine_total new"
proof -
  have comp: "\<exists>re. compile_opt compile p = Inr re \<and> pred_option total_regex re" if "pred_option (\<lambda>p. \<exists>re. compile p = Inr re \<and> total_regex re) p" for p
    using that by (cases p) (auto simp: compile_opt_def)
  note all = assms(5) [unfolded patterns_total_def, rule_format]
  obtain pre where pre: "compile_opt compile (tc_prefix_pattern config) = Inr pre" "pred_option total_regex pre"
    using comp [OF all, of "tc_prefix_pattern config"] by auto
  obtain suf where suf: "compile_opt compile (tc_suffix_pattern config) = Inr suf" "pred_option total_regex suf"
    using comp [OF all, of "tc_suffix_pattern config"] by auto
  obtain inf where inf: "compile_opt compile (tc_infix_pattern config) = Inr inf" "pred_option total_regex inf"
    using comp [OF all, of "tc_infix_pattern config"] by auto
  obtain tok where tok: "compile_opt compile (tc_token_match config) = Inr tok" "pred_option total_regex tok"
    using comp [OF all, of "tc_token_match config"] by auto
  obtain url where url: "compile_opt compile (tc_url_match config) = Inr url" "pred_option total_regex url"
    using comp [OF all, of "tc_url_match config"] by auto
  note c = pre(1) suf(1) inf(1) tok(1) url(1) and t = pre(2) suf(2) inf(2) tok(2) url(2)
  let ?tz = "\<lparr>tz_vocab = v, tz_prefixes = pre, tz_suffixes = suf, tz_infixes = inf, tz_token_match = tok, tz_url_match = url,
    tz_faster_heuristics = tc_faster_heuristics config, tz_max_cache_size = tc_max_cache_size config,
    tz_specials = hm_empty, tz_rules = hm_empty, tz_matcher = [], tz_cache = hm_empty\<rparr>"
  have "affixes_ok ?tz" using assms(3) c by (auto simp: compile_opt_Inr patterns_ok_def affixes_ok_def)
  then have "tz_ok U ?tz" using assms(1,2) by (simp add: tz_ok_def)
  moreover have "engine_total ?tz" using t by (simp add: engine_total_def)
  ultimately show ?thesis using add_special_cases_total [of U ?tz env exs] assms(4,6) c by (simp add: tokenizer_new_def)
qed

section \<open>Properties\<close>

lemma tokenize_tz: "snd (tokenize env s tz) = snd (tokenize_affixes env True s tz)"
  by (simp add: tokenize_def split: prod.split sum.split option.split)

lemma tokenize_steps:
  assumes "tz_ok U tz" and "interned env U s"
  shows "steps U tz (snd (tokenize env s tz))"
proof (cases "length s < 2 ^ 30")
  case True
  with tokenize_affixes_spec [OF assms, of True] show ?thesis by (simp add: tokenize_tz pass_outcome_def)
next
  case False
  with assms(1) show ?thesis by (simp add: tokenize_tz tokenize_affixes_def)
qed

lemma tokenize_all_steps:
  assumes "tz_ok U tz" and "\<And>s. s \<in> set ss \<Longrightarrow> interned env U s"
  shows "steps U tz (foldl (\<lambda>tz s. snd (tokenize env s tz)) tz ss)"
  using assms
proof (induction ss arbitrary: tz)
  case (Cons s ss)
  have st: "steps U tz (snd (tokenize env s tz))" using Cons.prems by (simp add: tokenize_steps)
  from steps_trans [OF st] Cons.IH [OF stepsD(1) [OF st]] Cons.prems(2) show ?case by simp
qed simp

text \<open>
  The first pass keeps the text: whatever special cases and cached spans the tokenizer holds, it either reports
  an error of the regex engine or returns tokens that resolve in the vocabulary, concatenate with their space flags
  to the text, and carry as offset the number of characters before them; the tokenizer stays well formed.
\<close>

theorem tokenize_affixes_lossless:
  assumes "tz_ok U tz" and "interned env U s" and "length s < 2 ^ 30"
  shows "case tokenize_affixes env with_special s tz of
      (Inl e, tz') \<Rightarrow> (\<exists>m. e = RegexE m) \<and> tz_ok U tz'
    | (Inr doc, tz') \<Rightarrow> tz_ok U tz' \<and> doc_text (tz_vocab tz') doc = s \<and> list_all (\<lambda>t. resolves (tz_vocab tz') (tk_lexeme t)) doc \<and>
        offsets_ok doc"
proof -
  obtain r tz' where r: "tokenize_affixes env with_special s tz = (r, tz')" by force
  with tokenize_affixes_spec [OF assms, of with_special] have "pass_outcome U tz s (r, tz')" by simp
  then show ?thesis by (cases r) (auto simp: r pass_outcome_def doc_ok_def dest: stepsD(1))
qed

text \<open>
  C5. Tokenizing is lossless. Take a tokenizer built from language data whose affix patterns are anchored and whose infix
  matches are ordered, over strings that hashing tells apart, after any texts it has tokenized before (and so with any
  span cache), and a text of less than \<open>2 ^ 30\<close> bytes in which no special-case match joins words separated by a space.
  It returns a document whose text is the input, or an error of the regex engine, the latter only if some search of the
  engine can fail. Both loops of the matcher pass end and no index goes out of range.
\<close>

theorem tokenize_lossless:
  assumes "hash_safe U" and "vocab_ok U v" and "patterns_ok compile config" and "list_all (case_ok env U) exceptions"
    and "tokenizer_new compile env v config exceptions = Inr new"
    and "tz = foldl (\<lambda>tz s. snd (tokenize env s tz)) new earlier" and "\<forall>s \<in> set earlier. interned env U s"
    and "interned env U s" and "length s < 2 ^ 30"
    and "\<forall>doc tz'. tokenize_affixes env True s tz = (Inr doc, tz') \<longrightarrow> keeps_spacing tz' doc"
  shows "(\<exists>m. fst (tokenize env s tz) = Some (Inl (RegexE m)) \<and> \<not> engine_total new) \<or>
    (\<exists>doc. fst (tokenize env s tz) = Some (Inr doc) \<and> doc_text (tz_vocab (snd (tokenize env s tz))) doc = s)"
proof -
  have "tz_ok U new" using assms(1-5) by (rule tokenizer_new_ok)
  then have st: "steps U new tz" unfolding assms(6) using assms(7) by (intro tokenize_all_steps) auto
  obtain r tz' where r: "tokenize_affixes env True s tz = (r, tz')" by force
  from tokenize_affixes_spec [OF stepsD(1) [OF st] assms(8,9), of True] r have p: "pass_outcome U tz s (r, tz')" by simp
  show ?thesis
  proof (cases r)
    case (Inl e)
    with p have "\<exists>m. e = RegexE m" by (simp add: pass_outcome_def)
    moreover have "\<not> engine_total new"
      using tokenize_affixes_total [of tz env True s] steps_engine [OF st] r Inl calculation by (auto simp: succeeds_def)
    ultimately show ?thesis using r Inl by (auto simp: tokenize_def)
  next
    case (Inr doc)
    with p have "tz_ok U tz'" "doc_text (tz_vocab tz') doc = s" by (auto simp: pass_outcome_def dest: stepsD(1))
    with apply_special_cases_text [of U tz' doc] assms(10) r Inr show ?thesis by (auto simp: tokenize_def)
  qed
qed

section \<open>Examples\<close>

text \<open>A language without letter classes or special cases, and the pieces of the text \<open>a\<close> with a space.\<close>

definition example_words :: "string list" where
  "example_words = ['' '', ''a'', ''a '']"

definition example_env :: lex_env where
  "example_env =
     \<lparr>le_unicode =
        \<lparr>uc_alphabetic = (\<lambda>_. False), uc_lowercase = (\<lambda>_. False), uc_uppercase = (\<lambda>_. False), uc_numeric = (\<lambda>_. False),
         uc_titlecase_letter = (\<lambda>_. False), uc_decimal_number = (\<lambda>_. False), uc_punctuation = (\<lambda>_. False),
         uc_currency_symbol = (\<lambda>_. False), uc_to_lowercase = (\<lambda>s. s)\<rparr>,
      le_url_match = (\<lambda>_. False),
      le_config =
        \<lparr>lc_lang = 0, lc_stop_words = {}, lc_norm_exceptions = map (\<lambda>s. (s, s)) example_words, lc_num_words = {},
         lc_function_words = hm_empty\<rparr>\<rparr>"

definition example_tokenizer :: tokenizer where
  "example_tokenizer =
     \<lparr>tz_vocab = vocab_new, tz_prefixes = None, tz_suffixes = None, tz_infixes = None, tz_token_match = None,
      tz_url_match = None, tz_faster_heuristics = True, tz_max_cache_size = 10000, tz_specials = hm_empty,
      tz_rules = hm_empty, tz_matcher = [], tz_cache = hm_empty\<rparr>"

lemma example_safe: "hash_safe (set example_words)"
proof -
  have "distinct (map hash_utf8 example_words) \<and> 0 \<notin> set (map hash_utf8 example_words)"
    by (simp add: example_words_def hash_eval)
  then show ?thesis by (auto simp: hash_safe_def distinct_map)
qed

lemma example_strings:
  assumes "s \<in> set example_words"
  shows "set (lex_strings example_env s) \<subseteq> set example_words"
proof -
  have "la_word_shape (le_unicode example_env) s = s" "la_suffix s \<in> set example_words" "la_prefix s \<in> set example_words"
    using assms by (auto simp: la_word_shape_def shape_step_def shape_char_def Let_def la_suffix_def la_prefix_def
        example_env_def example_words_def utf8_width_def)
  moreover have "norm_text example_env s = s" "la_lower (le_unicode example_env) s = s"
    using assms by (auto simp: norm_text_def la_lower_def example_env_def example_words_def hm_get_def)
  ultimately show ?thesis using assms by (simp add: lex_strings_def)
qed

lemma example_interned: "s \<in> set example_words \<Longrightarrow> interned example_env (set example_words) s"
proof -
  assume s: "s \<in> set example_words"
  have "set (sublists s) \<subseteq> insert [] (set example_words)" using s by (auto simp: example_words_def)
  then show ?thesis using example_strings unfolding interned_def by blast
qed

lemma example_ok: "tz_ok (set example_words) example_tokenizer"
  using example_safe by (simp add: tz_ok_def example_tokenizer_def vocab_ok_new affixes_ok_def)

theorem tokenize_affixes_lossless_witness:
  "case tokenize_affixes example_env True ''a '' example_tokenizer of
      (Inl e, tz') \<Rightarrow> (\<exists>m. e = RegexE m) \<and> tz_ok (set example_words) tz'
    | (Inr doc, tz') \<Rightarrow> tz_ok (set example_words) tz' \<and> doc_text (tz_vocab tz') doc = ''a '' \<and>
        list_all (\<lambda>t. resolves (tz_vocab tz') (tk_lexeme t)) doc \<and> offsets_ok doc"
  by (rule tokenize_affixes_lossless [OF example_ok example_interned]) (simp_all add: example_words_def)


text \<open>
  An engine for three kinds of pattern: \<open>^c\<close> matches the character \<open>c\<close> at the start, \<open>c$\<close> at the end, and \<open>c\<close> anywhere.
\<close>

definition prefix_regex :: "char \<Rightarrow> regex" where
  "prefix_regex c =
     \<lparr>rx_is_match = (\<lambda>s. Inr (s \<noteq> [] \<and> hd s = c)),
      rx_find = (\<lambda>s. Inr (if s \<noteq> [] \<and> hd s = c then Some (0, 1) else None)),
      rx_find_iter = (\<lambda>s. map Inr (if s \<noteq> [] \<and> hd s = c then [(0, 1)] else []))\<rparr>"

definition suffix_regex :: "char \<Rightarrow> regex" where
  "suffix_regex c =
     \<lparr>rx_is_match = (\<lambda>s. Inr (s \<noteq> [] \<and> last s = c)),
      rx_find = (\<lambda>s. Inr (if s \<noteq> [] \<and> last s = c then Some (length s - 1, length s) else None)),
      rx_find_iter = (\<lambda>s. map Inr (if s \<noteq> [] \<and> last s = c then [(length s - 1, length s)] else []))\<rparr>"

definition occurrences :: "char \<Rightarrow> string \<Rightarrow> (nat \<times> nat) list" where
  "occurrences c s = map (\<lambda>i. (i, i + 1)) (filter (\<lambda>i. s ! i = c) [0..<length s])"

definition char_regex :: "char \<Rightarrow> regex" where
  "char_regex c =
     \<lparr>rx_is_match = (\<lambda>s. Inr (c \<in> set s)),
      rx_find = (\<lambda>s. Inr (case occurrences c s of [] \<Rightarrow> None | m # _ \<Rightarrow> Some m)),
      rx_find_iter = (\<lambda>s. map Inr (occurrences c s))\<rparr>"

definition literal_engine :: "string \<Rightarrow> string + regex" where
  "literal_engine p =
     (case p of
        [c] \<Rightarrow> Inr (char_regex c)
      | [a, b] \<Rightarrow> if a = CHR ''^'' then Inr (prefix_regex b) else if b = CHR ''$'' then Inr (suffix_regex a) else Inl ''unsupported''
      | _ \<Rightarrow> Inl ''unsupported'')"

lemma ordered_occurrences: "sorted_wrt (<) is \<Longrightarrow> \<forall>i \<in> set is. p \<le> i \<and> i < n \<Longrightarrow> p \<le> n \<Longrightarrow> ordered_from p n (map (\<lambda>i. (i, i + 1)) is)"
  by (induction "is" arbitrary: p) (auto simp: Suc_le_eq)

lemma literal_regex_ok: "prefix_ok (prefix_regex c)" "suffix_ok (suffix_regex c)" "infix_ok (char_regex c)"
proof -
  show "prefix_ok (prefix_regex c)" by (auto simp: prefix_ok_def prefix_regex_def Suc_le_eq split: if_splits)
  show "suffix_ok (suffix_regex c)" by (auto simp: suffix_ok_def suffix_regex_def split: if_splits)
  have "ordered_from 0 (length s) (occurrences c s)" for s
    unfolding occurrences_def by (rule ordered_occurrences) (auto intro: sorted_wrt_filter)
  moreover have "map Inr ms = (map Inr ns :: (string + nat \<times> nat) list) \<longleftrightarrow> ms = ns" for ms ns
    by (simp add: inj_map_eq_map inj_def)
  ultimately show "infix_ok (char_regex c)" by (auto simp: infix_ok_def char_regex_def)
qed

lemma literal_regex_total: "total_regex (prefix_regex c)" "total_regex (suffix_regex c)" "total_regex (char_regex c)"
  by (auto simp: total_regex_def prefix_regex_def suffix_regex_def char_regex_def)

text \<open>
  A language with brackets as affixes, the colon as infix and the smiley as a special case, and the pieces of a text in which
  the smiley is found by the matcher only.
\<close>

definition smiley_words :: "string list" where
  "smiley_words = [''('', ''a'', '':'', '')'', ''(a'', ''a:'', '':)'', ''(a:'', ''a:)'', ''(a:)'']"

definition smiley_env :: lex_env where
  "smiley_env = example_env\<lparr>le_config := (le_config example_env)\<lparr>lc_norm_exceptions := map (\<lambda>s. (s, s)) smiley_words\<rparr>\<rparr>"

definition smiley_config :: tokenizer_config where
  "smiley_config = tokenizer_config_default\<lparr>tc_prefix_pattern := Some ''^('', tc_suffix_pattern := Some '')$'', tc_infix_pattern := Some '':''\<rparr>"

definition smiley_cases :: "special_case_data list" where
  "smiley_cases = [('':)'', [('':)'', None)])]"

lemma smiley_safe: "hash_safe (set smiley_words)"
proof -
  have "distinct (map hash_utf8 smiley_words) \<and> 0 \<notin> set (map hash_utf8 smiley_words)"
    by (simp add: smiley_words_def hash_eval)
  then show ?thesis by (auto simp: hash_safe_def distinct_map)
qed

lemma smiley_strings:
  assumes "s \<in> set smiley_words"
  shows "set (lex_strings smiley_env s) \<subseteq> set smiley_words"
proof -
  have "la_word_shape (le_unicode smiley_env) s = s" "la_suffix s \<in> set smiley_words" "la_prefix s \<in> set smiley_words"
    using assms by (auto simp: la_word_shape_def shape_step_def shape_char_def Let_def la_suffix_def la_prefix_def
        smiley_env_def example_env_def smiley_words_def utf8_width_def)
  moreover have "norm_text smiley_env s = s" "la_lower (le_unicode smiley_env) s = s"
    using assms by (auto simp: norm_text_def la_lower_def smiley_env_def example_env_def smiley_words_def hm_get_def)
  ultimately show ?thesis using assms by (simp add: lex_strings_def)
qed

lemma smiley_interned: "s \<in> set smiley_words \<Longrightarrow> interned smiley_env (set smiley_words) s"
proof -
  assume s: "s \<in> set smiley_words"
  have "set (sublists s) \<subseteq> insert [] (set smiley_words)" using s by (auto simp: smiley_words_def)
  then show ?thesis using smiley_strings unfolding interned_def by blast
qed

lemma smiley_patterns: "patterns_ok literal_engine smiley_config" "patterns_total literal_engine smiley_config"
  using literal_regex_ok literal_regex_total
  by (auto simp: patterns_ok_def patterns_total_def smiley_config_def tokenizer_config_default_def literal_engine_def)

lemma smiley_case: "list_all (case_ok smiley_env (set smiley_words)) smiley_cases"
  using smiley_interned [of "'':)''"] by (simp add: smiley_cases_def case_ok_def smiley_words_def)

text \<open>A text without spaces keeps its spacing when no rule has a space.\<close>

lemma spaceless_keeps:
  assumes "doc_text v doc = s" and "CHR '' '' \<notin> set s" and "\<forall>r \<in> set (tz_matcher tz). CHR '' '' \<notin> set (rule_key r)"
  shows "keeps_spacing tz doc"
proof -
  have "\<not> tk_spacy t" if "t \<in> set doc" for t
    using that assms(1,2) by (auto simp: doc_text_def token_piece_def dest!: split_list split: if_splits)
  then show ?thesis using assms(3) find_phrase_matchesD(1)
    by (fastforce simp: keeps_spacing_def list_all_iff dest: in_set_takeD in_set_dropD)
qed

lemma smiley_new:
  obtains new where "tokenizer_new literal_engine smiley_env vocab_new smiley_config smiley_cases = Inr new" "engine_total new"
    "\<forall>r \<in> set (tz_matcher new). rule_key r = '':)''"
proof -
  from tokenizer_new_total [OF smiley_safe vocab_ok_new smiley_patterns(1) smiley_case smiley_patterns(2)] obtain new where
    new: "tokenizer_new literal_engine smiley_env vocab_new smiley_config smiley_cases = Inr new" "engine_total new"
    by (auto simp: smiley_cases_def)
  from tokenizer_new_matcher [OF smiley_safe vocab_ok_new smiley_patterns(1) smiley_case new(1)]
  have "\<forall>r \<in> set (tz_matcher new). rule_key r = '':)''" by (auto simp: smiley_cases_def)
  with that new show ?thesis by blast
qed

text \<open>The bracketed smiley, after another text has filled the cache: the regular expressions, the special case and the matcher all apply.\<close>

theorem tokenize_lossless_witness:
  "\<exists>new. tokenizer_new literal_engine smiley_env vocab_new smiley_config smiley_cases = Inr new \<and>
     (let tz = snd (tokenize smiley_env ''a:)'' new) in
      \<exists>doc. fst (tokenize smiley_env ''(a:)'' tz) = Some (Inr doc) \<and>
        doc_text (tz_vocab (snd (tokenize smiley_env ''(a:)'' tz))) doc = ''(a:)'')"
proof -
  obtain new where new: "tokenizer_new literal_engine smiley_env vocab_new smiley_config smiley_cases = Inr new" "engine_total new"
    "\<forall>r \<in> set (tz_matcher new). rule_key r = '':)''" by (rule smiley_new)
  define tz where "tz = foldl (\<lambda>tz s. snd (tokenize smiley_env s tz)) new [''a:)'']"
  have int: "interned smiley_env (set smiley_words) ''a:)''" "interned smiley_env (set smiley_words) ''(a:)''"
    by (rule smiley_interned; simp add: smiley_words_def)+
  have ok: "tz_ok (set smiley_words) new" by (rule tokenizer_new_ok [OF smiley_safe vocab_ok_new smiley_patterns(1) smiley_case new(1)])
  have st: "steps (set smiley_words) new tz" unfolding tz_def using int(1) by (intro tokenize_all_steps ok) simp
  have keep: "keeps_spacing tz' doc" if "tokenize_affixes smiley_env True ''(a:)'' tz = (Inr doc, tz')" for doc tz'
  proof (rule spaceless_keeps)
    have p: "pass_outcome (set smiley_words) tz ''(a:)'' (Inr doc, tz')"
      using tokenize_affixes_spec [OF stepsD(1) [OF st] int(2), of True] that by simp
    then show "doc_text (tz_vocab tz') doc = ''(a:)''" by (simp add: pass_outcome_def)
    have "tz_matcher tz' = tz_matcher new" using p steps_matcher [OF st] steps_matcher by (fastforce simp: pass_outcome_def)
    then show "\<forall>r \<in> set (tz_matcher tz'). CHR '' '' \<notin> set (rule_key r)" using new(3) by simp
  qed simp
  have "(\<exists>m. fst (tokenize smiley_env ''(a:)'' tz) = Some (Inl (RegexE m)) \<and> \<not> engine_total new) \<or>
    (\<exists>doc. fst (tokenize smiley_env ''(a:)'' tz) = Some (Inr doc) \<and>
       doc_text (tz_vocab (snd (tokenize smiley_env ''(a:)'' tz))) doc = ''(a:)'')"
    using keep int
    by (intro tokenize_lossless [OF smiley_safe vocab_ok_new smiley_patterns(1) smiley_case new(1), of tz "[''a:)'']"])
      (simp_all add: tz_def)
  with new(1,2) show ?thesis by (auto simp: tz_def Let_def)
qed

text \<open>
  The matcher compares words only, so a special case also matches words that a space separates, and the space is
  lost: the emoticon rule turns the two words of \<open>: )\<close> into one.
\<close>

lemma special_case_drops_space:
  fixes colon paren smile :: lexeme
  defines "v \<equiv> \<lparr>vo_strings = [(1, '':''), (2, '')''), (3, '':)'')], vo_by_orth = hm_empty\<rparr>"
    and "doc \<equiv> [(token_record_new colon)\<lparr>tk_spacy := True\<rparr>, token_record_new paren]"
    and "rule \<equiv> \<lparr>rule_key = '':)'', rule_tokens = [\<lparr>sp_orth = smile, sp_norm = 0\<rparr>], rule_phrase = [1, 2]\<rparr>"
  assumes "lx_orth colon = 1" and "lx_orth paren = 2" and "lx_orth smile = 3"
  shows "doc_text v doc = '': )''"
    and "map_option (doc_text v) (apply_special_cases (example_tokenizer\<lparr>tz_matcher := [rule]\<rparr>) doc) = Some '':)''"
proof -
  let ?tz = "example_tokenizer\<lparr>tz_matcher := [rule]\<rparr>"
  have m: "find_phrase_matches ?tz doc = [(rule, 0, 2)]"
    using assms(4,5) by (simp add: find_phrase_matches_def doc_def rule_def)
  have f: "filter_special_spans [(rule, 0, 2)] = [(rule, 0, 2)]"
    by (simp add: filter_special_spans_def filter_step_def)
  have d: "length doc = 2" "doc ! 0 = (token_record_new colon)\<lparr>tk_spacy := True\<rparr>" "doc ! 1 = token_record_new paren"
    by (simp_all add: doc_def)
  have "apply_special_cases ?tz doc = Some (special_records 0 False (rule_tokens rule))"
    by (simp add: apply_special_cases_def m f hm_simps splice_loop.simps [of _ _ 0] splice_loop.simps [of _ _ 2] d)
      (simp add: doc_def token_record_new_def)
  then show "map_option (doc_text v) (apply_special_cases ?tz doc) = Some '':)''"
    using assms(6) by (simp add: rule_def v_def doc_text_def token_piece_def orth_text_def ss_get_def hm_get_def)
  show "doc_text v doc = '': )''" using assms(4,5)
    by (simp add: doc_def v_def doc_text_def token_piece_def orth_text_def ss_get_def hm_get_def token_record_new_def)
qed

end
