(* ===== verification/DocTree.thy ===== *)
theory DocTree
  imports Doc Forest "HOL-Library.Sublist"
begin

text \<open>
  The dependency tree of a document (\<open>src/src/spacy-rs/src/doc.rs\<close>): rebuilding child counts, subtree edges and
  sentence starts from the heads, and the navigation that reads them. The two passes over the tokens relax the
  edges of a head by those of its children; one left-to-right and one right-to-left pass suffice because a chain of
  heads to the leftmost descendant of a projective tree runs left to right, and dually.

  Token indices that the code computes from a checked head are natural numbers; the subtree walk takes a recursion
  depth and is \<open>None\<close> when it is exceeded.
\<close>

section \<open>Rebuilding the tree\<close>

definition head_abs :: "doc_tokens \<Rightarrow> nat \<Rightarrow> int" where
  "head_abs tokens i = int i + tk_head (tokens ! i)"

definition tree_head :: "doc_tokens \<Rightarrow> nat \<Rightarrow> nat" where
  "tree_head tokens i = nat (head_abs tokens i)"

definition head_fault :: "doc_tokens \<Rightarrow> nat \<Rightarrow> bool" where
  "head_fault tokens i \<longleftrightarrow> head_abs tokens i < 0 \<or> int (length tokens) \<le> head_abs tokens i"

definition widen :: "token_record \<Rightarrow> token_record \<Rightarrow> token_record" where
  "widen child head =
     (let head = (if tk_l_edge child < tk_l_edge head then head\<lparr>tk_l_edge := tk_l_edge child\<rparr> else head)
      in if tk_r_edge child > tk_r_edge head then head\<lparr>tk_r_edge := tk_r_edge child\<rparr> else head)"

definition left_step :: "nat \<Rightarrow> doc_tokens \<Rightarrow> nat \<Rightarrow> doc_tokens" where
  "left_step loop_count tokens i =
     (let hi = tree_head tokens i in
      if hi = i then tokens
      else let head = tokens ! hi;
               head = (if loop_count = 0 \<and> i < hi then head\<lparr>tk_l_kids := tk_l_kids head + 1\<rparr> else head)
           in tokens[hi := widen (tokens ! i) head])"

definition right_step :: "nat \<Rightarrow> doc_tokens \<Rightarrow> nat \<Rightarrow> doc_tokens" where
  "right_step loop_count tokens i =
     (let hi = tree_head tokens i in
      if hi = i then tokens
      else let head = tokens ! hi;
               head = (if loop_count = 0 \<and> i > hi then head\<lparr>tk_r_kids := tk_r_kids head + 1\<rparr> else head)
           in tokens[hi := widen (tokens ! i) head])"

text \<open>The check that no head leaves its segment, over the positions still to visit.\<close>

fun segments_closed :: "doc_tokens \<Rightarrow> nat set \<Rightarrow> nat \<Rightarrow> nat list \<Rightarrow> bool" where
  "segments_closed tokens sent_starts curr_start [] \<longleftrightarrow> True"
| "segments_closed tokens sent_starts curr_start (i # is) \<longleftrightarrow>
     (if (i > 0 \<and> i \<in> sent_starts) \<or> i = length tokens - 1 then
        list_all (\<lambda>j. int curr_start \<le> head_abs tokens j \<and> head_abs tokens j \<le> int i) [curr_start..<i] \<and>
        segments_closed tokens sent_starts i is
      else segments_closed tokens sent_starts curr_start is)"

definition set_lr_kids_and_edges :: "nat \<Rightarrow> doc_tokens \<Rightarrow> bool \<times> doc_tokens" where
  "set_lr_kids_and_edges loop_count tokens =
     (let is = [0..<length tokens];
          tokens = foldl (left_step loop_count) tokens is;
          tokens = foldl (right_step loop_count) tokens (rev is);
          sent_starts = set (map tk_l_edge (filter (\<lambda>t. tk_head t = 0) tokens))
      in (segments_closed tokens sent_starts 0 is, tokens))"

function settle :: "nat \<Rightarrow> doc_tokens \<Rightarrow> doc_tokens" where
  "settle loop_count tokens =
     (case set_lr_kids_and_edges loop_count tokens of
        (within, tokens) \<Rightarrow> if within \<or> loop_count > 10 then tokens else settle (loop_count + 1) tokens)"
  by pat_completeness auto
termination by (relation "measure (\<lambda>(loop_count, _). 12 - loop_count)") auto

declare settle.simps [simp del]

definition reset_token :: "nat \<Rightarrow> token_record \<Rightarrow> token_record" where
  "reset_token i t = t\<lparr>tk_l_kids := 0, tk_r_kids := 0, tk_l_edge := i, tk_r_edge := i\<rparr>"

definition mark_root :: "doc_tokens \<Rightarrow> nat \<Rightarrow> doc_tokens" where
  "mark_root tokens i =
     (let token = tokens ! i in
      if tk_head token = 0 \<and> tk_has_head token
      then let edge = tk_l_edge token in tokens[edge := (tokens ! edge)\<lparr>tk_sent_start := Start\<rparr>]
      else tokens)"

definition set_children_from_heads :: "doc_tokens \<Rightarrow> spacy_error + doc_tokens" where
  "set_children_from_heads tokens =
     (let len = length tokens in
      case find (head_fault tokens) [0..<len] of
        Some i \<Rightarrow> Inl (HeadOutOfBoundsE i (tk_head (tokens ! i)) (head_abs tokens i) len)
      | None \<Rightarrow>
          let tokens = settle 0 (map (\<lambda>(i, t). reset_token i t) (enumerate 0 tokens));
              tokens = map (\<lambda>t. t\<lparr>tk_sent_start := NotStart\<rparr>) tokens
          in Inr (foldl mark_root tokens [0..<len]))"

section \<open>Navigation\<close>

definition head_index :: "doc_tokens \<Rightarrow> nat \<Rightarrow> nat" where
  "head_index doc i = (if tk_has_head (doc ! i) then tree_head doc i else i)"

definition lefts :: "doc_tokens \<Rightarrow> nat \<Rightarrow> nat list" where
  "lefts doc i = filter (\<lambda>j. head_index doc j = i) [tk_l_edge (doc ! i)..<i]"

definition rights :: "doc_tokens \<Rightarrow> nat \<Rightarrow> nat list" where
  "rights doc i = filter (\<lambda>j. head_index doc j = i) (rev [i + 1..<tk_r_edge (doc ! i) + 1])"

definition children :: "doc_tokens \<Rightarrow> nat \<Rightarrow> nat list" where
  "children doc i = lefts doc i @ rights doc i"

fun ancestors_loop :: "doc_tokens \<Rightarrow> nat \<Rightarrow> nat \<Rightarrow> nat list" where
  "ancestors_loop doc 0 cur = []"
| "ancestors_loop doc (Suc guard) cur =
     (if tk_head (doc ! cur) = 0 \<or> \<not> tk_has_head (doc ! cur) then []
      else let head = tree_head doc cur in head # ancestors_loop doc guard head)"

definition ancestors :: "doc_tokens \<Rightarrow> nat \<Rightarrow> nat list" where
  "ancestors doc i = ancestors_loop doc (length doc) i"

fun subtree :: "doc_tokens \<Rightarrow> nat \<Rightarrow> nat \<Rightarrow> nat list option" where
  "subtree doc 0 i = None"
| "subtree doc (Suc depth) i =
     (case those (map (subtree doc depth) (lefts doc i)) of
        None \<Rightarrow> None
      | Some ls \<Rightarrow>
          (case those (map (subtree doc depth) (rights doc i)) of
             None \<Rightarrow> None
           | Some rs \<Rightarrow> Some (concat ls @ [i] @ concat rs)))"

definition is_ancestor :: "doc_tokens \<Rightarrow> nat \<Rightarrow> nat \<Rightarrow> bool" where
  "is_ancestor doc i j \<longleftrightarrow> i \<in> set (ancestors doc j)"

section \<open>Relaxation\<close>

text \<open>What a pass does to the edges: the value of a head is lowered to that of its child.\<close>

definition relax :: "(nat \<Rightarrow> nat) \<Rightarrow> (nat \<Rightarrow> int) \<Rightarrow> nat \<Rightarrow> nat \<Rightarrow> int" where
  "relax up e i = (if up i = i then e else e(up i := min (e (up i)) (e i)))"

fun chain :: "(nat \<Rightarrow> nat) \<Rightarrow> nat list \<Rightarrow> nat \<Rightarrow> bool" where
  "chain up [] q \<longleftrightarrow> True"
| "chain up (p # ps) q \<longleftrightarrow> up p = hd (ps @ [q]) \<and> chain up ps q"

lemma relax_le: "relax up e i q \<le> e q"
  by (simp add: relax_def)

lemma foldl_relax_le: "foldl (relax up) e is q \<le> e q"
  by (induction "is" arbitrary: e) (auto intro: order.trans relax_le)

text \<open>Visiting a chain of heads in order carries the value of its start to its end.\<close>

lemma relax_chain:
  "subseq ps is \<Longrightarrow> chain up ps q \<Longrightarrow> foldl (relax up) e is q \<le> e (hd (ps @ [q]))"
proof (induction "is" arbitrary: ps e)
  case Nil
  then show ?case by (cases ps) auto
next
  case (Cons i "is")
  show ?case
  proof (cases "\<exists>qs. ps = i # qs \<and> subseq qs is")
    case True
    then obtain qs where qs: "ps = i # qs" "subseq qs is" by blast
    have "foldl (relax up) (relax up e i) is q \<le> relax up e i (hd (qs @ [q]))"
      using Cons.IH [OF qs(2)] Cons.prems(2) qs(1) by simp
    also have "\<dots> \<le> e i" using Cons.prems(2) qs(1) by (auto simp: relax_def)
    finally show ?thesis using qs(1) by simp
  next
    case False
    then have "subseq ps is" using Cons.prems(1) by (cases ps) (auto split: if_splits)
    from order.trans [OF Cons.IH [OF this Cons.prems(2)] relax_le] show ?thesis by simp
  qed
qed

lemma relax_sound:
  assumes "\<And>i v. P i v \<Longrightarrow> P (up i) v" and "\<And>i. P i (e i)"
  shows "P i (foldl (relax up) e is i)"
  using assms(2)
proof (induction "is" arbitrary: e)
  case (Cons j "is")
  have "P k (relax up e j k)" for k using Cons.prems assms(1) [of j] by (auto simp: relax_def min_def)
  then show ?case using Cons.IH by simp
qed simp

section \<open>A pass\<close>

definition l_val :: "doc_tokens \<Rightarrow> nat \<Rightarrow> int" where
  "l_val tokens i = int (tk_l_edge (tokens ! i))"

definition r_val :: "doc_tokens \<Rightarrow> nat \<Rightarrow> int" where
  "r_val tokens i = - int (tk_r_edge (tokens ! i))"

text \<open>Everything but the fields the rebuild computes.\<close>

definition core :: "token_record \<Rightarrow> token_record" where
  "core t = t\<lparr>tk_l_kids := 0, tk_r_kids := 0, tk_l_edge := 0, tk_r_edge := 0, tk_sent_start := Unset\<rparr>"

lemma core_fields: "core t = core t' \<Longrightarrow> tk_head t = tk_head t' \<and> tk_dep t = tk_dep t' \<and> tk_lexeme t = tk_lexeme t'"
  by (cases t; cases t') (simp add: core_def)

lemma widen_fields [simp]:
  "tk_l_edge (widen c h) = min (tk_l_edge c) (tk_l_edge h)" "tk_r_edge (widen c h) = max (tk_r_edge c) (tk_r_edge h)"
  "tk_l_kids (widen c h) = tk_l_kids h" "tk_r_kids (widen c h) = tk_r_kids h" "core (widen c h) = core h"
  "tk_head (widen c h) = tk_head h"
  by (simp_all add: widen_def Let_def core_def)

definition in_bounds :: "doc_tokens \<Rightarrow> bool" where
  "in_bounds tokens \<longleftrightarrow> (\<forall>i < length tokens. \<not> head_fault tokens i)"

lemma in_bounds_less: "in_bounds tokens \<Longrightarrow> i < length tokens \<Longrightarrow> tree_head tokens i < length tokens"
  by (auto simp: in_bounds_def head_fault_def tree_head_def)

lemma map_core_heads:
  assumes "map core tokens = map core tokens'"
  shows "length tokens = length tokens'" "i < length tokens \<Longrightarrow> head_abs tokens i = head_abs tokens' i"
    "i < length tokens \<Longrightarrow> tree_head tokens i = tree_head tokens' i" "in_bounds tokens = in_bounds tokens'"
proof -
  show len: "length tokens = length tokens'" using assms by (rule map_eq_imp_length_eq)
  have eq: "core (tokens ! i) = core (tokens' ! i)" if "i < length tokens" for i
    using assms that len by (metis nth_map)
  show head: "i < length tokens \<Longrightarrow> head_abs tokens i = head_abs tokens' i" for i
    using core_fields [OF eq] by (simp add: head_abs_def)
  then show "i < length tokens \<Longrightarrow> tree_head tokens i = tree_head tokens' i" by (simp add: tree_head_def)
  show "in_bounds tokens = in_bounds tokens'" using head len by (simp add: in_bounds_def head_fault_def)
qed

text \<open>The head function of a document, the identity beyond its end.\<close>

definition tree_up :: "doc_tokens \<Rightarrow> nat \<Rightarrow> nat" where
  "tree_up tokens i = (if i < length tokens then tree_head tokens i else i)"

text \<open>One step: the head's record is widened, and a counter of it may grow.\<close>

definition is_step :: "(doc_tokens \<Rightarrow> nat \<Rightarrow> doc_tokens) \<Rightarrow> bool" where
  "is_step f \<longleftrightarrow> (\<forall>tokens i. i < length tokens \<longrightarrow> in_bounds tokens \<longrightarrow>
     map core (f tokens i) = map core tokens \<and>
     (\<forall>q. l_val (f tokens i) q = relax (tree_up tokens) (l_val tokens) i q \<and>
          r_val (f tokens i) q = relax (tree_up tokens) (r_val tokens) i q))"

lemma is_step_steps: "is_step (left_step c)" "is_step (right_step c)"
proof -
  have core_kids: "core (t\<lparr>tk_l_kids := k\<rparr>) = core t" "core (t\<lparr>tk_r_kids := k\<rparr>) = core t" for t k
    by (simp_all add: core_def)
  have "map core (tokens[hi := x]) = map core tokens" if "core x = core (tokens ! hi)" "hi < length tokens" for tokens hi x
    using that by (metis list_update_id map_update)
  note upd = this
  have edges: "l_val (tokens[hi := x]) q = ((l_val tokens)(hi := int (tk_l_edge x))) q"
    "r_val (tokens[hi := x]) q = ((r_val tokens)(hi := - int (tk_r_edge x))) q" if "hi < length tokens" for tokens hi x q
    using that by (simp_all add: l_val_def r_val_def nth_list_update)
  have mins: "int (min a b) = min (int a) (int b)" "- int (max a b) = min (- int a) (- int b)" for a b by linarith+
  have "map core (tokens[hi := widen (tokens ! i) h]) = map core tokens \<and>
      (\<forall>q. l_val (tokens[hi := widen (tokens ! i) h]) q = relax (tree_up tokens) (l_val tokens) i q \<and>
           r_val (tokens[hi := widen (tokens ! i) h]) q = relax (tree_up tokens) (r_val tokens) i q)"
    if "hi < length tokens" "hi = tree_head tokens i" "i < length tokens" "hi \<noteq> i" "core h = core (tokens ! hi)"
      "tk_l_edge h = tk_l_edge (tokens ! hi)" "tk_r_edge h = tk_r_edge (tokens ! hi)" for tokens hi i h
    using that upd [of "widen (tokens ! i) h"] edges [OF that(1)]
    by (auto simp: relax_def tree_up_def mins l_val_def r_val_def min.commute)
  then show "is_step (left_step c)" "is_step (right_step c)"
    by (auto simp: is_step_def left_step_def right_step_def Let_def core_kids in_bounds_less relax_def tree_up_def)
qed

lemma pass_spec:
  assumes f: "is_step f" and b: "in_bounds tokens" and "set is \<subseteq> {..<length tokens}"
  shows "map core (foldl f tokens is) = map core tokens \<and>
    (\<forall>q. l_val (foldl f tokens is) q = foldl (relax (tree_up tokens)) (l_val tokens) is q \<and>
         r_val (foldl f tokens is) q = foldl (relax (tree_up tokens)) (r_val tokens) is q)"
  using assms(3) 
proof (induction "is" rule: rev_induct)
  case (snoc i "is")
  let ?t = "foldl f tokens is"
  have IH: "map core ?t = map core tokens" "l_val ?t = foldl (relax (tree_up tokens)) (l_val tokens) is"
    "r_val ?t = foldl (relax (tree_up tokens)) (r_val tokens) is" using snoc by auto
  note same = map_core_heads [OF IH(1)]
  have i: "i < length ?t" using snoc.prems same(1) by simp
  have ib: "in_bounds ?t" using b same(4) by simp
  have "map core (f ?t i) = map core ?t" "\<And>q. l_val (f ?t i) q = relax (tree_up ?t) (l_val ?t) i q"
    "\<And>q. r_val (f ?t i) q = relax (tree_up ?t) (r_val ?t) i q"
    using f i ib unfolding is_step_def by blast+
  moreover have "relax (tree_up ?t) e i = relax (tree_up tokens) e i" for e
    using same(1) same(3) [OF i] i by (simp add: relax_def tree_up_def)
  ultimately show ?case using IH by simp
qed simp

lemma tree_up_cong: "map core tokens = map core tokens' \<Longrightarrow> tree_up tokens = tree_up tokens'"
  by (rule ext) (simp add: tree_up_def map_core_heads [of tokens tokens'])

lemma tree_up_less: "in_bounds tokens \<Longrightarrow> i < length tokens \<Longrightarrow> tree_up tokens i < length tokens"
  by (simp add: tree_up_def in_bounds_less)

lemma step_kids:
  assumes "tree_head t i < length t"
  shows "tk_l_kids (left_step c t i ! q) = tk_l_kids (t ! q) + (if c = 0 \<and> tree_head t i = q \<and> i < q then 1 else 0)"
    and "tk_r_kids (left_step c t i ! q) = tk_r_kids (t ! q)"
    and "tk_r_kids (right_step c t i ! q) = tk_r_kids (t ! q) + (if c = 0 \<and> tree_head t i = q \<and> i > q then 1 else 0)"
    and "tk_l_kids (right_step c t i ! q) = tk_l_kids (t ! q)"
  using assms by (auto simp: left_step_def right_step_def Let_def nth_list_update)

lemma left_kids:
  assumes "in_bounds tokens" and "set is \<subseteq> {..<length tokens}"
  shows "tk_l_kids (foldl (left_step c) tokens is ! q) =
      tk_l_kids (tokens ! q) + (if c = 0 then length (filter (\<lambda>i. tree_up tokens i = q \<and> i < q) is) else 0) \<and>
    tk_r_kids (foldl (left_step c) tokens is ! q) = tk_r_kids (tokens ! q)"
  using assms(2)
proof (induction "is" rule: rev_induct)
  case (snoc i "is")
  let ?t = "foldl (left_step c) tokens is"
  have "map core ?t = map core tokens" using pass_spec [OF is_step_steps(1) assms(1)] snoc.prems by simp
  note same = tree_up_cong [OF this] map_core_heads(1,4) [OF this]
  have i: "i < length ?t" "tree_head ?t i < length ?t" "tree_head ?t i = tree_up tokens i"
    using snoc.prems same assms(1) in_bounds_less [of ?t i] by (auto simp: tree_up_def fun_eq_iff split: if_splits)
  show ?case using snoc i by (simp add: step_kids)
qed simp

lemma right_kids:
  assumes "in_bounds tokens" and "set is \<subseteq> {..<length tokens}"
  shows "tk_r_kids (foldl (right_step c) tokens is ! q) =
      tk_r_kids (tokens ! q) + (if c = 0 then length (filter (\<lambda>i. tree_up tokens i = q \<and> i > q) is) else 0) \<and>
    tk_l_kids (foldl (right_step c) tokens is ! q) = tk_l_kids (tokens ! q)"
  using assms(2)
proof (induction "is" rule: rev_induct)
  case (snoc i "is")
  let ?t = "foldl (right_step c) tokens is"
  have "map core ?t = map core tokens" using pass_spec [OF is_step_steps(2) assms(1)] snoc.prems by simp
  note same = tree_up_cong [OF this] map_core_heads(1,4) [OF this]
  have i: "i < length ?t" "tree_head ?t i < length ?t" "tree_head ?t i = tree_up tokens i"
    using snoc.prems same assms(1) in_bounds_less [of ?t i] by (auto simp: tree_up_def fun_eq_iff split: if_splits)
  show ?case using snoc i by (simp add: step_kids)
qed simp

text \<open>A descendant of a token, itself included.\<close>

definition below :: "doc_tokens \<Rightarrow> nat \<Rightarrow> nat \<Rightarrow> bool" where
  "below tokens q j \<longleftrightarrow> j < length tokens \<and> (\<exists>k. (tree_up tokens ^^ k) j = q)"

text \<open>Every edge is a descendant.\<close>

definition edges_sound :: "doc_tokens \<Rightarrow> bool" where
  "edges_sound tokens \<longleftrightarrow> (\<forall>q < length tokens. below tokens q (tk_l_edge (tokens ! q)) \<and> below tokens q (tk_r_edge (tokens ! q)))"

lemma below_refl: "q < length tokens \<Longrightarrow> below tokens q q"
  by (auto simp: below_def intro: exI [of _ 0])

lemma below_up: "below tokens q j \<Longrightarrow> below tokens (tree_up tokens q) j"
  by (auto simp: below_def intro: exI [of _ "Suc k" for k])

lemma edges_sound_pass:
  assumes f: "is_step f" and b: "in_bounds tokens" and i: "set is \<subseteq> {..<length tokens}" and s: "edges_sound tokens"
  shows "edges_sound (foldl f tokens is)"
proof -
  let ?t = "foldl f tokens is"
  note spec = pass_spec [OF f b i]
  have up: "tree_up ?t = tree_up tokens" "length ?t = length tokens" using spec tree_up_cong map_core_heads(1) by blast+
  have bel: "below ?t = below tokens" by (simp add: below_def fun_eq_iff up)
  have "q < length tokens \<longrightarrow> (\<exists>j. l_val ?t q = int j \<and> below tokens q j)" for q
    unfolding spec [THEN conjunct2, rule_format, THEN conjunct1]
    by (rule relax_sound [where P = "\<lambda>q v. q < length tokens \<longrightarrow> (\<exists>j. v = int j \<and> below tokens q j)"])
      (use s in \<open>auto simp: edges_sound_def l_val_def tree_up_def dest: below_up split: if_splits\<close>)
  moreover have "q < length tokens \<longrightarrow> (\<exists>j. r_val ?t q = - int j \<and> below tokens q j)" for q
    unfolding spec [THEN conjunct2, rule_format, THEN conjunct2]
    by (rule relax_sound [where P = "\<lambda>q v. q < length tokens \<longrightarrow> (\<exists>j. v = - int j \<and> below tokens q j)"])
      (use s in \<open>auto simp: edges_sound_def r_val_def tree_up_def dest: below_up split: if_splits\<close>)
  ultimately show ?thesis using up(2) by (auto simp: edges_sound_def bel l_val_def r_val_def)
qed

section \<open>The rebuild\<close>

lemma pass_facts:
  fixes c :: nat
  assumes b: "in_bounds tokens"
  defines "n \<equiv> length tokens" and "t \<equiv> snd (set_lr_kids_and_edges c tokens)"
  shows "map core t = map core tokens"
    and "tk_l_kids (t ! q) = tk_l_kids (tokens ! q) + (if c = 0 then length (filter (\<lambda>i. tree_up tokens i = q \<and> i < q) [0..<n]) else 0)"
    and "tk_r_kids (t ! q) = tk_r_kids (tokens ! q) + (if c = 0 then length (filter (\<lambda>i. tree_up tokens i = q \<and> i > q) [0..<n]) else 0)"
    and "edges_sound tokens \<Longrightarrow> edges_sound t"
    and "subseq ps [0..<n] \<Longrightarrow> chain (tree_up tokens) ps q \<Longrightarrow> l_val t q \<le> l_val tokens (hd (ps @ [q]))"
    and "subseq ps (rev [0..<n]) \<Longrightarrow> chain (tree_up tokens) ps q \<Longrightarrow> r_val t q \<le> r_val tokens (hd (ps @ [q]))"
proof -
  let ?l = "foldl (left_step c) tokens [0..<n]"
  have t: "t = foldl (right_step c) ?l (rev [0..<n])"
    by (simp add: t_def set_lr_kids_and_edges_def Let_def n_def)
  have s: "set [0..<n] \<subseteq> {..<length tokens}" by (auto simp: n_def)
  note left = pass_spec [OF is_step_steps(1) b s, of c]
  note same = map_core_heads(1,4) [OF conjunct1 [OF left]] tree_up_cong [OF conjunct1 [OF left]]
  have lb: "in_bounds ?l" using b same by simp
  have s': "set (rev [0..<n]) \<subseteq> {..<length ?l}" using same by (auto simp: n_def)
  note right = pass_spec [OF is_step_steps(2) lb s', of c]
  show "map core t = map core tokens" using left right t by simp
  show "tk_l_kids (t ! q) = tk_l_kids (tokens ! q) + (if c = 0 then length (filter (\<lambda>i. tree_up tokens i = q \<and> i < q) [0..<n]) else 0)"
    "tk_r_kids (t ! q) = tk_r_kids (tokens ! q) + (if c = 0 then length (filter (\<lambda>i. tree_up tokens i = q \<and> i > q) [0..<n]) else 0)"
    using left_kids [OF b s, of c q] right_kids [OF lb s', of c q, unfolded same(3)]
    by (simp_all add: t rev_filter [symmetric])
  show "edges_sound t" if "edges_sound tokens"
    unfolding t by (rule edges_sound_pass [OF is_step_steps(2) lb s' edges_sound_pass [OF is_step_steps(1) b s that]])
  show "l_val t q \<le> l_val tokens (hd (ps @ [q]))" if "subseq ps [0..<n]" "chain (tree_up tokens) ps q"
  proof -
    have "l_val t q \<le> l_val ?l q" using right foldl_relax_le unfolding t by metis
    also have "\<dots> \<le> l_val tokens (hd (ps @ [q]))" using left relax_chain [OF that] by simp
    finally show ?thesis .
  qed
  show "r_val t q \<le> r_val tokens (hd (ps @ [q]))" if "subseq ps (rev [0..<n])" "chain (tree_up tokens) ps q"
  proof -
    have "r_val t q \<le> r_val ?l (hd (ps @ [q]))" using right relax_chain [OF that] by (simp add: t same)
    also have "\<dots> \<le> r_val tokens (hd (ps @ [q]))" using left foldl_relax_le by metis
    finally show ?thesis .
  qed
qed

text \<open>Later rounds keep the counts and only widen the edges, never beyond the descendants.\<close>

definition refines :: "doc_tokens \<Rightarrow> doc_tokens \<Rightarrow> bool" where
  "refines t t' \<longleftrightarrow> map core t' = map core t \<and> (edges_sound t \<longrightarrow> edges_sound t') \<and>
     (\<forall>q. tk_l_kids (t' ! q) = tk_l_kids (t ! q) \<and> tk_r_kids (t' ! q) = tk_r_kids (t ! q) \<and>
          l_val t' q \<le> l_val t q \<and> r_val t' q \<le> r_val t q)"

lemma refines_pass:
  assumes "in_bounds t" and "c > 0"
  shows "refines t (snd (set_lr_kids_and_edges c t))"
  using pass_facts(1-4) [OF assms(1), of c] pass_facts(5,6) [OF assms(1), where ps = "[]" and c = c] assms(2)
  by (auto simp: refines_def)

lemma refines_trans: "refines a b \<Longrightarrow> refines b c \<Longrightarrow> refines a c"
  unfolding refines_def by (intro conjI allI impI; elim conjE; simp; blast intro: order.trans)

lemma settle_later:
  assumes "in_bounds t" and "c > 0"
  shows "refines t (settle c t)"
  using assms
proof (induction c t rule: settle.induct)
  case (1 c t)
  obtain w u where u: "set_lr_kids_and_edges c t = (w, u)" by force
  have r: "refines t u" using refines_pass [OF "1.prems"] u by simp
  then have "map core u = map core t" by (simp only: refines_def)
  from map_core_heads(4) [OF this] "1.prems"(1) have "in_bounds u" by simp
  show ?case
  proof (cases "w \<or> c > 10")
    case True
    with u r show ?thesis by (simp add: settle.simps [of c])
  next
    case False
    from "1.IH" [OF u [symmetric] False \<open>in_bounds u\<close>] refines_trans [OF r] u False show ?thesis
      by (simp add: settle.simps [of c])
  qed
qed

lemma settle_first:
  assumes "in_bounds t"
  shows "refines (snd (set_lr_kids_and_edges 0 t)) (settle 0 t)"
proof -
  obtain w u where u: "set_lr_kids_and_edges 0 t = (w, u)" by force
  have "in_bounds u" using map_core_heads(4) [OF pass_facts(1) [OF assms, of 0]] assms u by simp
  with settle_later [of u 1] u show ?thesis by (auto simp: settle.simps [of 0] refines_def)
qed

lemma map_update_same:
  assumes "\<And>x. f (g x) = f x"
  shows "map f (xs[e := g (xs ! e)]) = map f xs"
proof (cases "e < length xs")
  case True
  then show ?thesis by (intro nth_equalityI) (auto simp: nth_list_update assms)
qed (simp add: list_update_beyond)

lemma mark_root_facts:
  "map core (mark_root t i) = map core t" "map tk_l_edge (mark_root t i) = map tk_l_edge t"
  "map tk_r_edge (mark_root t i) = map tk_r_edge t" "map tk_l_kids (mark_root t i) = map tk_l_kids t"
  "map tk_r_kids (mark_root t i) = map tk_r_kids t"
proof -
  have "core (x\<lparr>tk_sent_start := Start\<rparr>) = core x" for x by (simp add: core_def)
  then show "map core (mark_root t i) = map core t" by (simp add: mark_root_def Let_def map_update_same)
  show "map tk_l_edge (mark_root t i) = map tk_l_edge t"
    "map tk_r_edge (mark_root t i) = map tk_r_edge t" "map tk_l_kids (mark_root t i) = map tk_l_kids t"
    "map tk_r_kids (mark_root t i) = map tk_r_kids t"
    by (simp_all add: mark_root_def Let_def map_update_same)
qed

text \<open>The tokens whose left edge starts a sentence.\<close>

definition labelled_root :: "doc_tokens \<Rightarrow> nat \<Rightarrow> bool" where
  "labelled_root t i \<longleftrightarrow> tk_head (t ! i) = 0 \<and> tk_has_head (t ! i)"

lemma mark_roots_spec:
  assumes "set is \<subseteq> {..<length t}" and "\<And>i. i < length t \<Longrightarrow> tk_l_edge (t ! i) < length t"
  shows "map core (foldl mark_root t is) = map core t \<and> map tk_l_edge (foldl mark_root t is) = map tk_l_edge t \<and>
    map tk_r_edge (foldl mark_root t is) = map tk_r_edge t \<and> map tk_l_kids (foldl mark_root t is) = map tk_l_kids t \<and>
    map tk_r_kids (foldl mark_root t is) = map tk_r_kids t \<and>
    (\<forall>q < length t. tk_sent_start (foldl mark_root t is ! q) =
       (if \<exists>i \<in> set is. labelled_root t i \<and> tk_l_edge (t ! i) = q then Start else tk_sent_start (t ! q)))"
  using assms(1)
proof (induction "is" rule: rev_induct)
  case (snoc i "is")
  let ?u = "foldl mark_root t is"
  have IH: "map core ?u = map core t" "map tk_l_edge ?u = map tk_l_edge t" and len: "length ?u = length t"
    and st: "\<forall>q < length t. tk_sent_start (?u ! q) =
       (if \<exists>i \<in> set is. labelled_root t i \<and> tk_l_edge (t ! i) = q then Start else tk_sent_start (t ! q))"
    using snoc by (auto dest: map_eq_imp_length_eq)
  have i: "i < length t" using snoc.prems by simp
  have c: "core (?u ! i) = core (t ! i)" and l: "tk_l_edge (?u ! i) = tk_l_edge (t ! i)" using IH len i by (metis nth_map)+
  have "mark_root ?u i = (if labelled_root t i
      then ?u[tk_l_edge (t ! i) := (?u ! tk_l_edge (t ! i))\<lparr>tk_sent_start := Start\<rparr>] else ?u)"
    using core_fields [OF c] l by (simp add: mark_root_def labelled_root_def Let_def tk_has_head_def)
  then have "tk_sent_start (mark_root ?u i ! q) =
      (if labelled_root t i \<and> tk_l_edge (t ! i) = q then Start else tk_sent_start (?u ! q))" if "q < length t" for q
    using assms(2) [OF i] len that by (simp add: nth_list_update)
  then show ?case using snoc st by (auto simp: mark_root_facts)
qed simp

definition left_children :: "doc_tokens \<Rightarrow> nat \<Rightarrow> nat list" where
  "left_children tokens q = filter (\<lambda>i. tree_up tokens i = q) [0..<q]"

definition right_children :: "doc_tokens \<Rightarrow> nat \<Rightarrow> nat list" where
  "right_children tokens q = filter (\<lambda>i. tree_up tokens i = q) [q + 1..<length tokens]"

lemma children_filter:
  assumes "q < n"
  shows "filter (\<lambda>i. P i \<and> i < q) [0..<n] = filter P [0..<q]" and "filter (\<lambda>i. P i \<and> i > q) [0..<n] = filter P [q + 1..<n]"
proof -
  have n: "[0..<n] = [0..<q] @ q # [q + 1..<n]" using assms upt_add_eq_append [of 0 q "n - q"] by (simp add: upt_conv_Cons)
  show "filter (\<lambda>i. P i \<and> i < q) [0..<n] = filter P [0..<q]" "filter (\<lambda>i. P i \<and> i > q) [0..<n] = filter P [q + 1..<n]"
    unfolding n by (auto simp: filter_empty_conv intro!: filter_cong)
qed

lemma subseq_hd:
  assumes "subseq ps xs" and "\<And>x. x \<in> set xs \<Longrightarrow> x < n" and "q < n"
  shows "hd (ps @ [q]) < (n :: nat)"
proof (cases ps)
  case (Cons p qs)
  then obtain x where "x \<in> set xs" "p = x" using list_emb_set [OF assms(1), of p] by auto
  with assms(2) Cons show ?thesis by simp
qed (use assms(3) in simp)

text \<open>The tokens once the propagation of edges has settled.\<close>

definition settled :: "doc_tokens \<Rightarrow> doc_tokens" where
  "settled tokens = settle 0 (map (\<lambda>(i, t). reset_token i t) (enumerate 0 tokens))"

lemma settled_spec:
  assumes b: "in_bounds tokens"
  shows "map core (settled tokens) = map core tokens" and "edges_sound (settled tokens)"
    and "q < length tokens \<Longrightarrow> tk_l_kids (settled tokens ! q) = length (left_children tokens q)"
    and "q < length tokens \<Longrightarrow> tk_r_kids (settled tokens ! q) = length (right_children tokens q)"
    and "q < length tokens \<Longrightarrow> subseq ps [0..<length tokens] \<Longrightarrow> chain (tree_up tokens) ps q \<Longrightarrow>
      tk_l_edge (settled tokens ! q) \<le> hd (ps @ [q])"
    and "q < length tokens \<Longrightarrow> subseq ps (rev [0..<length tokens]) \<Longrightarrow> chain (tree_up tokens) ps q \<Longrightarrow>
      hd (ps @ [q]) \<le> tk_r_edge (settled tokens ! q)"
proof -
  let ?n = "length tokens"
  define r where "r = map (\<lambda>(i, t). reset_token i t) (enumerate 0 tokens)"
  have rn: "length r = ?n" "\<And>i. i < ?n \<Longrightarrow> r ! i = reset_token i (tokens ! i)" by (simp_all add: r_def nth_enumerate_eq)
  have rc: "map core r = map core tokens" by (rule nth_equalityI) (simp_all add: rn reset_token_def core_def)
  note rsame = map_core_heads(4) [OF rc] tree_up_cong [OF rc]
  have rb: "in_bounds r" using b rsame by simp
  have rs: "edges_sound r" by (auto simp: edges_sound_def rn reset_token_def intro: below_refl)
  note pf = pass_facts [OF rb, where c = 0]
  have ref: "refines (snd (set_lr_kids_and_edges 0 r)) (settled tokens)"
    unfolding settled_def r_def [symmetric] by (rule settle_first [OF rb])
  show "map core (settled tokens) = map core tokens" using ref pf(1) rc by (simp add: refines_def)
  show "edges_sound (settled tokens)" using ref pf(4) [OF rs] by (simp add: refines_def)
  show "tk_l_kids (settled tokens ! q) = length (left_children tokens q)" "tk_r_kids (settled tokens ! q) = length (right_children tokens q)"
    if "q < ?n" for q
    using ref pf(2,3) [of q] that children_filter [OF that] unfolding refines_def rsame rn(1)
    by (simp_all add: rn reset_token_def left_children_def right_children_def)
  show "tk_l_edge (settled tokens ! q) \<le> hd (ps @ [q])"
    if "q < ?n" "subseq ps [0..<?n]" "chain (tree_up tokens) ps q"
  proof -
    have "hd (ps @ [q]) < ?n" using subseq_hd [OF that(2)] that(1) by simp
    moreover have "l_val (settled tokens) q \<le> l_val r (hd (ps @ [q]))"
      using pf(5) [of ps q] that ref unfolding refines_def rsame rn(1) by (meson order.trans)
    ultimately show ?thesis by (simp add: l_val_def rn reset_token_def)
  qed
  show "hd (ps @ [q]) \<le> tk_r_edge (settled tokens ! q)"
    if "q < ?n" "subseq ps (rev [0..<?n])" "chain (tree_up tokens) ps q"
  proof -
    have "hd (ps @ [q]) < ?n" using subseq_hd [OF that(2)] that(1) by simp
    moreover have "r_val (settled tokens) q \<le> r_val r (hd (ps @ [q]))"
      using pf(6) [of ps q] that ref unfolding refines_def rsame rn(1) by (meson order.trans)
    ultimately show ?thesis by (simp add: r_val_def rn reset_token_def)
  qed
qed

text \<open>Marking the sentence starts keeps everything else.\<close>

lemma marked_spec:
  assumes sc: "map core s = map core tokens" and ss: "edges_sound s" and n: "n = length tokens"
    and t: "t = foldl mark_root (map (\<lambda>t. t\<lparr>tk_sent_start := NotStart\<rparr>) s) [0..<n]"
  shows "map core t = map core tokens"
    and "q < n \<Longrightarrow> tk_l_edge (t ! q) = tk_l_edge (s ! q) \<and> tk_r_edge (t ! q) = tk_r_edge (s ! q) \<and>
      tk_l_kids (t ! q) = tk_l_kids (s ! q) \<and> tk_r_kids (t ! q) = tk_r_kids (s ! q)"
    and "q < n \<Longrightarrow> tk_sent_start (t ! q) =
      (if \<exists>i < n. labelled_root tokens i \<and> tk_l_edge (s ! i) = q then Start else NotStart)"
proof -
  define u where "u = map (\<lambda>t. t\<lparr>tk_sent_start := NotStart\<rparr>) s"
  have sn: "length s = n" using map_core_heads(1) [OF sc] n by simp
  have un: "length u = n" "\<And>i. i < n \<Longrightarrow> u ! i = (s ! i)\<lparr>tk_sent_start := NotStart\<rparr>" by (simp_all add: u_def sn)
  have uc: "map core u = map core tokens" unfolding sc [symmetric] by (simp add: u_def core_def)
  have ul: "tk_l_edge (u ! i) < length u" if "i < length u" for i using ss that by (simp add: un edges_sound_def below_def sn)
  have "set [0..<n] \<subseteq> {..<length u}" by (auto simp: un)
  note mark = mark_roots_spec [OF this ul, folded u_def, unfolded u_def, folded t, folded u_def, unfolded un(1) uc]
  show tc: "map core t = map core tokens" using mark by blast
  have tm: "map tk_l_edge t = map tk_l_edge u" "map tk_r_edge t = map tk_r_edge u" "map tk_l_kids t = map tk_l_kids u"
      "map tk_r_kids t = map tk_r_kids u"
    and ts: "\<forall>q < n. tk_sent_start (t ! q) =
      (if \<exists>i \<in> set [0..<n]. labelled_root u i \<and> tk_l_edge (u ! i) = q then Start else tk_sent_start (u ! q))"
    using mark by blast+
  have nth: "f (t ! q) = f (u ! q)" if "map f t = map f u" "q < n" for f :: "token_record \<Rightarrow> nat" and q
    using that map_core_heads(1) [OF tc] n un(1) by (metis nth_map)
  show "tk_l_edge (t ! q) = tk_l_edge (s ! q) \<and> tk_r_edge (t ! q) = tk_r_edge (s ! q) \<and>
      tk_l_kids (t ! q) = tk_l_kids (s ! q) \<and> tk_r_kids (t ! q) = tk_r_kids (s ! q)" if "q < n"
    using tm [THEN nth, OF that] by (simp add: un that)
  have lab: "labelled_root u i = labelled_root tokens i" if "i < n" for i
  proof -
    have "core (u ! i) = core (tokens ! i)" using uc that un(1) n by (metis nth_map)
    from core_fields [OF this] show ?thesis by (simp add: labelled_root_def tk_has_head_def)
  qed
  show "tk_sent_start (t ! q) = (if \<exists>i < n. labelled_root tokens i \<and> tk_l_edge (s ! i) = q then Start else NotStart)"
    if "q < n" using ts that un lab by auto
qed

lemma rebuild_spec:
  assumes b: "in_bounds tokens"
  shows "\<exists>t. set_children_from_heads tokens = Inr t \<and> map core t = map core tokens \<and> edges_sound t \<and>
    (\<forall>q < length tokens.
       tk_l_kids (t ! q) = length (left_children tokens q) \<and> tk_r_kids (t ! q) = length (right_children tokens q) \<and>
       (\<forall>ps. subseq ps [0..<length tokens] \<longrightarrow> chain (tree_up tokens) ps q \<longrightarrow> tk_l_edge (t ! q) \<le> hd (ps @ [q])) \<and>
       (\<forall>ps. subseq ps (rev [0..<length tokens]) \<longrightarrow> chain (tree_up tokens) ps q \<longrightarrow> hd (ps @ [q]) \<le> tk_r_edge (t ! q)) \<and>
       tk_sent_start (t ! q) = (if \<exists>i < length tokens. labelled_root tokens i \<and> tk_l_edge (t ! i) = q then Start else NotStart))"
proof -
  let ?n = "length tokens" and ?s = "settled tokens"
  define t where "t = foldl mark_root (map (\<lambda>t. t\<lparr>tk_sent_start := NotStart\<rparr>) ?s) [0..<?n]"
  have "find (head_fault tokens) [0..<?n] = None" using b by (auto simp: find_None_iff in_bounds_def)
  then have res: "set_children_from_heads tokens = Inr t"
    by (simp add: set_children_from_heads_def Let_def t_def settled_def)
  note s = settled_spec [OF b] and m = marked_spec [OF settled_spec(1,2) [OF b] refl t_def]
  have "length t = ?n" "length ?s = ?n" "tree_up t = tree_up ?s"
    using map_core_heads(1) [OF m(1)] map_core_heads(1) [OF s(1)] tree_up_cong [of t ?s] m(1) s(1) by simp_all
  then have "edges_sound t" using s(2) m(2) by (simp add: edges_sound_def below_def)
  moreover have "tk_sent_start (t ! q) = (if \<exists>i < ?n. labelled_root tokens i \<and> tk_l_edge (t ! i) = q then Start else NotStart)"
    if "q < ?n" for q using m(3) [OF that] m(2) by auto
  ultimately show ?thesis using res m(1,2) s(3-6) by (intro exI [of _ t]) simp
qed

section \<open>Navigation over a rebuilt tree\<close>

text \<open>Only tokens without a head may be unlabelled.\<close>

definition all_labelled :: "doc_tokens \<Rightarrow> bool" where
  "all_labelled tokens \<longleftrightarrow> list_all (\<lambda>t. tk_head t = 0 \<or> tk_has_head t) tokens"

text \<open>What the rebuild leaves for navigation: the heads, and edges that reach over all children.\<close>

definition navigable :: "doc_tokens \<Rightarrow> doc_tokens \<Rightarrow> bool" where
  "navigable tokens t \<longleftrightarrow> map core t = map core tokens \<and> in_bounds tokens \<and> all_labelled tokens \<and> edges_sound t \<and>
     (\<forall>q < length tokens. tk_l_edge (t ! q) \<le> q \<and> q \<le> tk_r_edge (t ! q)) \<and>
     (\<forall>j < length tokens. tk_l_edge (t ! tree_up tokens j) \<le> j \<and> j \<le> tk_r_edge (t ! tree_up tokens j))"

lemma rebuild_navigable:
  assumes "in_bounds tokens" and "all_labelled tokens" and "set_children_from_heads tokens = Inr t"
  shows "navigable tokens t"
proof -
  note r = rebuild_spec [OF assms(1), unfolded assms(3), simplified]
  have l: "tk_l_edge (t ! q) \<le> hd (ps @ [q])" if "q < length tokens" "subseq ps [0..<length tokens]" "chain (tree_up tokens) ps q" for q ps
    using r that by blast
  have u: "hd (ps @ [q]) \<le> tk_r_edge (t ! q)" if "q < length tokens" "subseq ps (rev [0..<length tokens])" "chain (tree_up tokens) ps q" for q ps
    using r that by blast
  have "subseq [j] [0..<length tokens]" "subseq [j] (rev [0..<length tokens])" if "j < length tokens" for j
    using that by (simp_all add: subseq_singleton_left)
  with l [of _ "[]"] u [of _ "[]"] l [of "tree_up tokens j" "[j]" for j] u [of "tree_up tokens j" "[j]" for j] r
    tree_up_less [OF assms(1)] assms(1,2) show ?thesis by (simp add: navigable_def)
qed

lemma navigableD:
  assumes "navigable tokens t"
  shows "length t = length tokens" and "q < length tokens \<Longrightarrow> tk_l_edge (t ! q) \<le> q \<and> q \<le> tk_r_edge (t ! q)"
    and "j < length tokens \<Longrightarrow> tree_up tokens j = q \<Longrightarrow> tk_l_edge (t ! q) \<le> j \<and> j \<le> tk_r_edge (t ! q)"
    and "q < length tokens \<Longrightarrow> tk_r_edge (t ! q) < length tokens"
proof -
  have c: "map core t = map core tokens" using assms by (simp only: navigable_def)
  show len: "length t = length tokens" by (rule map_core_heads(1) [OF c])
  show "q < length tokens \<Longrightarrow> tk_l_edge (t ! q) \<le> q \<and> q \<le> tk_r_edge (t ! q)"
    "j < length tokens \<Longrightarrow> tree_up tokens j = q \<Longrightarrow> tk_l_edge (t ! q) \<le> j \<and> j \<le> tk_r_edge (t ! q)"
    "q < length tokens \<Longrightarrow> tk_r_edge (t ! q) < length tokens"
    using assms len unfolding navigable_def edges_sound_def below_def by metis+
qed

lemma head_index_up:
  assumes "navigable tokens t" and "j < length tokens"
  shows "head_index t j = tree_up tokens j"
proof -
  have len: "length t = length tokens" and c: "core (t ! j) = core (tokens ! j)"
    using assms map_core_heads(1) [of t tokens] by (auto simp: navigable_def) (metis nth_map)
  have "tree_head t j = tree_head tokens j" using assms map_core_heads(3) [of t tokens j] len by (simp add: navigable_def)
  moreover have "tk_head (tokens ! j) = 0 \<or> tk_has_head (tokens ! j)"
    using assms by (auto simp: navigable_def all_labelled_def list_all_iff)
  moreover have "tk_has_head (t ! j) = tk_has_head (tokens ! j)" using core_fields [OF c] by (simp add: tk_has_head_def)
  ultimately show ?thesis using assms(2) by (auto simp: head_index_def tree_up_def tree_head_def head_abs_def)
qed

lemma upt_split: "a \<le> b \<Longrightarrow> b \<le> c \<Longrightarrow> [a..<c] = [a..<b] @ [b..<c]"
  by (metis le_Suc_ex upt_add_eq_append)

lemma lefts_children:
  assumes nav: "navigable tokens t" and q: "q < length tokens"
  shows "lefts t q = left_children tokens q"
proof -
  let ?e = "tk_l_edge (t ! q)"
  have e: "?e \<le> q" using navigableD(2) [OF nav q] by simp
  have "lefts t q = filter (\<lambda>j. tree_up tokens j = q) [?e..<q]"
    using head_index_up [OF nav] q by (auto simp: lefts_def intro!: filter_cong)
  moreover have "tree_up tokens j \<noteq> q" if "j < ?e" for j using navigableD(3) [OF nav, of j q] that e q by auto
  then have "filter (\<lambda>j. tree_up tokens j = q) [0..<?e] = []" by (simp add: filter_empty_conv)
  moreover have "[0..<q] = [0..<?e] @ [?e..<q]" using e by (intro upt_split) simp_all
  ultimately show ?thesis by (simp add: left_children_def)
qed

lemma rights_children:
  assumes nav: "navigable tokens t" and q: "q < length tokens"
  shows "rights t q = rev (right_children tokens q)"
proof -
  let ?e = "tk_r_edge (t ! q)"
  have e: "q \<le> ?e" "?e < length tokens" using navigableD(2,4) [OF nav q] by simp_all
  have "rights t q = rev (filter (\<lambda>j. tree_up tokens j = q) [q + 1..<?e + 1])"
    unfolding rights_def rev_filter [symmetric] using head_index_up [OF nav] e by (intro arg_cong [where f = rev] filter_cong) auto
  moreover have "tree_up tokens j \<noteq> q" if "?e < j" "j < length tokens" for j using navigableD(3) [OF nav, of j q] that by auto
  then have "filter (\<lambda>j. tree_up tokens j = q) [?e + 1..<length tokens] = []" by (simp add: filter_empty_conv)
  moreover have "[q + 1..<length tokens] = [q + 1..<?e + 1] @ [?e + 1..<length tokens]"
    using e by (intro upt_split) simp_all
  ultimately show ?thesis by (simp add: right_children_def)
qed

section \<open>Forests\<close>

definition forest :: "doc_tokens \<Rightarrow> bool" where
  "forest tokens \<longleftrightarrow> (\<forall>i < length tokens. reaches_root (tree_up tokens) i)"

text \<open>A document with checked heads has a head function.\<close>

lemma head_function_doc: "in_bounds tokens \<Longrightarrow> head_function (length tokens) (tree_up tokens)"
  by unfold_locales (rule tree_up_less)

lemma below_less: "in_bounds tokens \<Longrightarrow> below tokens q j \<Longrightarrow> q < length tokens \<and> j < length tokens"
  using head_function.funpow_less [OF head_function_doc] by (auto simp: below_def)

lemma below_trans: "below tokens r q \<Longrightarrow> below tokens q j \<Longrightarrow> below tokens r j"
  unfolding below_def by (metis comp_apply funpow_add)

lemma below_edges:
  assumes "in_bounds tokens" and "below tokens q j"
  shows "(q, j) \<in> (head_edges (length tokens) (tree_up tokens))\<^sup>*"
  using assms(2) head_function.funpow_rtrancl [OF head_function_doc [OF assms(1)]] by (auto simp: below_def)

lemma below_antisym:
  assumes b: "in_bounds tokens" and f: "forest tokens" and q: "below tokens q j" and j: "below tokens j q"
  shows "q = j"
proof -
  let ?E = "head_edges (length tokens) (tree_up tokens)"
  have "acyclic ?E" using f head_function.forest_acyclic [OF head_function_doc [OF b]] by (simp add: forest_def)
  then have "antisym (?E\<^sup>*)" by (rule acyclic_impl_antisym_rtrancl)
  moreover have "(q, j) \<in> ?E\<^sup>*" "(j, q) \<in> ?E\<^sup>*"
    using below_edges [OF b] q j by blast+
  ultimately show ?thesis by (rule antisymD)
qed

definition child_of :: "doc_tokens \<Rightarrow> nat \<Rightarrow> nat \<Rightarrow> bool" where
  "child_of tokens q c \<longleftrightarrow> c < length tokens \<and> tree_up tokens c = q \<and> c \<noteq> q"

lemma below_child:
  assumes "below tokens q j" and "j \<noteq> q"
  shows "\<exists>c. child_of tokens q c \<and> below tokens c j"
proof -
  let ?P = "\<lambda>k. (tree_up tokens ^^ k) j = q"
  have ex: "\<exists>k. ?P k" and j: "j < length tokens" using assms(1) by (auto simp: below_def)
  define k where "k = (LEAST k. ?P k)"
  have k: "?P k" unfolding k_def using ex by (rule LeastI_ex)
  then obtain m where m: "k = Suc m" using assms(2) by (cases k) auto
  have "\<not> ?P m" using m not_less_Least [of m ?P] by (simp add: k_def)
  moreover have "tree_up tokens ((tree_up tokens ^^ m) j) = q" using k m by simp
  moreover from this have "(tree_up tokens ^^ m) j < length tokens"
    using \<open>\<not> ?P m\<close> by (cases "(tree_up tokens ^^ m) j < length tokens") (auto simp: tree_up_def)
  ultimately show ?thesis using j by (intro exI [of _ "(tree_up tokens ^^ m) j"]) (auto simp: child_of_def below_def)
qed

lemma child_below: "child_of tokens q c \<Longrightarrow> below tokens c j \<Longrightarrow> below tokens q j"
  using below_up by (auto simp: child_of_def)

lemma below_eq: "q < length tokens \<Longrightarrow> {j. below tokens q j} = insert q (\<Union>c \<in> {c. child_of tokens q c}. {j. below tokens c j})"
  by (auto intro: below_refl child_below dest: below_child)

lemma set_children: "q < length tokens \<Longrightarrow> set (left_children tokens q) \<union> set (right_children tokens q) = {c. child_of tokens q c}"
  by (auto simp: left_children_def right_children_def child_of_def)

text \<open>Below different children nothing is shared, and a node is not below its child.\<close>

lemma below_disjoint:
  assumes b: "in_bounds tokens" and f: "forest tokens" and c: "child_of tokens q c" and d: "child_of tokens q d" and "c \<noteq> d"
  shows "\<not> (below tokens c j \<and> below tokens d j)"
proof
  assume "below tokens c j \<and> below tokens d j"
  then obtain k m where j: "(tree_up tokens ^^ k) j = c" "(tree_up tokens ^^ m) j = d" by (auto simp: below_def)
  have no: False if x: "child_of tokens q x" and xy: "below tokens y x" and y: "child_of tokens q y" and ne: "x \<noteq> y" for x y
  proof -
    obtain i where i: "(tree_up tokens ^^ i) x = y" using xy by (auto simp: below_def)
    with ne obtain i' where "i = Suc i'" by (cases i) auto
    with i x have "(tree_up tokens ^^ i') q = y" by (simp add: child_of_def funpow_swap1)
    moreover have "q < length tokens" using x tree_up_less [OF b] by (auto simp: child_of_def)
    ultimately have "below tokens y q" by (auto simp: below_def)
    moreover have "below tokens q y" using y below_up [OF below_refl] by (auto simp: child_of_def)
    ultimately have "y = q" by (rule below_antisym [OF b f])
    with y show False by (simp add: child_of_def)
  qed
  show False
  proof (cases "k \<le> m")
    case True
    then have "(tree_up tokens ^^ (m - k)) c = d" using j by (metis comp_apply funpow_add le_add_diff_inverse2)
    with no [of c d] c d assms(5) show False by (auto simp: below_def child_of_def)
  next
    case False
    then have "(tree_up tokens ^^ (k - m)) d = c" using j by (metis comp_apply funpow_add le_add_diff_inverse2 nat_le_linear)
    with no [of d c] c d assms(5) show False by (auto simp: below_def child_of_def)
  qed
qed

lemma not_below_child: "in_bounds tokens \<Longrightarrow> forest tokens \<Longrightarrow> child_of tokens q c \<Longrightarrow> \<not> below tokens c q"
  using below_antisym [of tokens q c] below_up [OF below_refl, of c tokens] by (auto simp: child_of_def)

lemma those_map: "(\<And>c. c \<in> set cs \<Longrightarrow> f c = Some (g c)) \<Longrightarrow> those (map f cs) = Some (map g cs)"
  by (induction cs) auto

lemma distinct_concat_map:
  assumes "distinct cs" and "\<And>c. c \<in> set cs \<Longrightarrow> distinct (g c)"
    and "\<And>c d. c \<in> set cs \<Longrightarrow> d \<in> set cs \<Longrightarrow> c \<noteq> d \<Longrightarrow> set (g c) \<inter> set (g d) = {}"
  shows "distinct (concat (map g cs))"
  using assms by (induction cs) auto

lemma subtree_spec:
  assumes nav: "navigable tokens t" and f: "forest tokens"
  shows "q < length tokens \<Longrightarrow> card {j. below tokens q j} \<le> d \<Longrightarrow>
    \<exists>xs. subtree t d q = Some xs \<and> distinct xs \<and> set xs = {j. below tokens q j}"
proof (induction d arbitrary: q)
  have fin: "finite {j. below tokens q j}" for q by (rule finite_subset [of _ "{..<length tokens}"]) (auto simp: below_def)
  {
    case 0
    with fin [of q] below_refl [of q tokens] show ?case by auto
  next
    case (Suc d)
    have b: "in_bounds tokens" using nav by (simp add: navigable_def)
    let ?ls = "left_children tokens q" and ?rs = "rev (right_children tokens q)"
    let ?g = "\<lambda>c. the (subtree t d c)"
    have ch: "set ?ls \<union> set ?rs = {c. child_of tokens q c}" using set_children [OF Suc.prems(1)] by simp
    have "subtree t d c = Some (?g c) \<and> distinct (?g c) \<and> set (?g c) = {j. below tokens c j}" if "child_of tokens q c" for c
    proof -
      have "{j. below tokens c j} \<subset> {j. below tokens q j}"
        using that child_below not_below_child [OF b f that] below_refl [OF Suc.prems(1)] by blast
      then have "card {j. below tokens c j} < card {j. below tokens q j}" by (rule psubset_card_mono [OF fin])
      with Suc.IH [of c] Suc.prems(2) that show ?thesis by (auto simp: child_of_def)
    qed
    then have g: "subtree t d c = Some (?g c)" "distinct (?g c)" "set (?g c) = {j. below tokens c j}"
      if "c \<in> set ?ls \<union> set ?rs" for c using that ch by blast+
    let ?xs = "concat (map ?g ?ls) @ [q] @ concat (map ?g ?rs)"
    have "those (map (subtree t d) ?ls) = Some (map ?g ?ls)" "those (map (subtree t d) ?rs) = Some (map ?g ?rs)"
      using g(1) by (intro those_map; blast)+
    then have "subtree t (Suc d) q = Some ?xs"
      by (simp add: lefts_children [OF nav Suc.prems(1)] rights_children [OF nav Suc.prems(1)])
    moreover have "set ?xs = insert q (\<Union>c \<in> set ?ls \<union> set ?rs. {j. below tokens c j})" using g(3) by auto
    then have "set ?xs = {j. below tokens q j}" unfolding ch below_eq [OF Suc.prems(1)] .
    moreover have "distinct ?xs"
    proof -
      have dc: "distinct (?ls @ ?rs)" by (auto simp: left_children_def right_children_def)
      have cc: "child_of tokens q c" if "c \<in> set (?ls @ ?rs)" for c using that ch unfolding set_append by blast
      have disj: "set (?g x) \<inter> set (?g y) = {}" if "x \<in> set (?ls @ ?rs)" "y \<in> set (?ls @ ?rs)" "x \<noteq> y" for x y
        using that g(3) below_disjoint [OF b f cc [OF that(1)] cc [OF that(2)] that(3)] by auto
      have "distinct (concat (map ?g (?ls @ ?rs)))" using g(2) disj by (intro distinct_concat_map dc) auto
      moreover have "q \<notin> set (?g c)" if "c \<in> set (?ls @ ?rs)" for c
        using that g(3) not_below_child [OF b f cc [OF that]] by auto
      ultimately show ?thesis by auto
    qed
    ultimately show ?case by blast
  }
qed

lemma root_iff:
  assumes "navigable tokens t" and "i < length tokens"
  shows "tk_head (t ! i) = 0 \<or> \<not> tk_has_head (t ! i) \<longleftrightarrow> tree_up tokens i = i"
    and "tree_head t i = tree_up tokens i"
proof -
  have c: "map core t = map core tokens" and b: "in_bounds tokens" and l: "all_labelled tokens"
    using assms(1) by (simp_all only: navigable_def)
  have "core (t ! i) = core (tokens ! i)" using c assms(2) map_core_heads(1) [OF c] by (metis nth_map)
  note same = core_fields [OF this]
  show up: "tree_head t i = tree_up tokens i"
    using map_core_heads(1,3) [OF c] assms(2) by (simp add: tree_up_def)
  have "\<not> head_fault tokens i" using b assms(2) by (simp add: in_bounds_def)
  then have "tree_up tokens i = i \<longleftrightarrow> tk_head (tokens ! i) = 0"
    using assms(2) by (auto simp: tree_up_def tree_head_def head_abs_def head_fault_def)
  moreover have "tk_head (tokens ! i) = 0 \<or> tk_has_head (tokens ! i)" using l assms(2) by (auto simp: all_labelled_def list_all_iff)
  ultimately show "tk_head (t ! i) = 0 \<or> \<not> tk_has_head (t ! i) \<longleftrightarrow> tree_up tokens i = i"
    using same by (auto simp: tk_has_head_def)
qed

lemma below_of_root: "tree_up tokens i = i \<Longrightarrow> below tokens q i \<Longrightarrow> q = i"
  by (auto simp: below_def funpow_fixed)

lemma ancestors_loop_spec:
  assumes nav: "navigable tokens t" and f: "forest tokens"
  shows "i < length tokens \<Longrightarrow> \<exists>k \<le> g. tree_up tokens ((tree_up tokens ^^ k) i) = (tree_up tokens ^^ k) i \<Longrightarrow>
    set (ancestors_loop t g i) = {q. below tokens q i \<and> q \<noteq> i}"
proof (induction g arbitrary: i)
  case 0
  then show ?case using below_of_root by auto
next
  case (Suc g)
  have b: "in_bounds tokens" using nav by (simp only: navigable_def)
  show ?case
  proof (cases "tree_up tokens i = i")
    case True
    then show ?thesis using root_iff [OF nav Suc.prems(1)] below_of_root by auto
  next
    case False
    let ?h = "tree_up tokens i"
    obtain k where k: "k \<le> Suc g" "tree_up tokens ((tree_up tokens ^^ k) i) = (tree_up tokens ^^ k) i" using Suc.prems(2) by blast
    with False obtain m where m: "k = Suc m" by (cases k) auto
    then have "\<exists>m \<le> g. tree_up tokens ((tree_up tokens ^^ m) ?h) = (tree_up tokens ^^ m) ?h"
      using k by (intro exI [of _ m]) (simp add: funpow_swap1)
    with Suc.IH tree_up_less [OF b Suc.prems(1)]
    have "set (ancestors_loop t g ?h) = {q. below tokens q ?h \<and> q \<noteq> ?h}" by blast
    moreover have "ancestors_loop t (Suc g) i = ?h # ancestors_loop t g ?h"
      using root_iff [OF nav Suc.prems(1)] False by (simp add: Let_def)
    ultimately have "set (ancestors_loop t (Suc g) i) = {q. below tokens q ?h}"
      using below_refl [OF tree_up_less [OF b Suc.prems(1)]] by auto
    moreover have "below tokens q i \<and> q \<noteq> i \<longleftrightarrow> below tokens q ?h" for q
    proof
      assume q: "below tokens q i \<and> q \<noteq> i"
      then obtain n where n: "(tree_up tokens ^^ n) i = q" by (auto simp: below_def)
      with q obtain l where "n = Suc l" by (cases n) auto
      with n tree_up_less [OF b Suc.prems(1)] show "below tokens q ?h" by (auto simp: below_def funpow_swap1)
    next
      assume q: "below tokens q ?h"
      have hi: "below tokens ?h i" using below_up [OF below_refl [OF Suc.prems(1)]] .
      with q have "below tokens q i" by (blast intro: below_trans)
      moreover have "q \<noteq> i" using q hi below_antisym [OF b f, of ?h i] False by auto
      ultimately show "below tokens q i \<and> q \<noteq> i" by blast
    qed
    ultimately show ?thesis by simp
  qed
qed

lemma ancestors_spec:
  assumes nav: "navigable tokens t" and f: "forest tokens" and i: "i < length tokens"
  shows "set (ancestors t i) = {q. below tokens q i \<and> q \<noteq> i}"
proof -
  note hf = head_function_doc [of tokens]
  have b: "in_bounds tokens" using nav by (simp only: navigable_def)
  have r: "reaches_root (tree_up tokens) i" using f i by (simp add: forest_def)
  have "\<exists>k \<le> length tokens. tree_up tokens ((tree_up tokens ^^ k) i) = (tree_up tokens ^^ k) i"
    using head_function.depth_less [OF hf [OF b] r i] head_function.root_at_depth [OF hf [OF b] r]
    by (metis less_imp_le)
  from ancestors_loop_spec [OF nav f i this] show ?thesis using navigableD(1) [OF nav] by (simp add: ancestors_def)
qed

section \<open>Projective forests\<close>

definition projective :: "doc_tokens \<Rightarrow> bool" where
  "projective tokens \<longleftrightarrow> (\<forall>q j k. below tokens q j \<longrightarrow> q < k \<and> k < j \<or> j < k \<and> k < q \<longrightarrow> below tokens q k)"

text \<open>
  The heads from the outermost descendant of a node up to the node run in one direction: a head on the other side
  would lie between the descendant and its own child and so below it.
\<close>

lemma outer_chain:
  assumes b: "in_bounds tokens" and f: "forest tokens" and p: "projective tokens" and lt: "lt = (<) \<or> lt = (>)"
    and outer: "\<And>j. below tokens q j \<Longrightarrow> m = j \<or> lt m j"
  shows "(tree_up tokens ^^ k) x = q \<Longrightarrow> below tokens x m \<Longrightarrow>
    \<exists>ps. chain (tree_up tokens) ps q \<and> sorted_wrt lt (ps @ [q]) \<and> hd (ps @ [q]) = x \<and> set ps \<subseteq> {..<length tokens}"
proof (induction k arbitrary: x)
  case (Suc k)
  let ?h = "tree_up tokens x"
  have x: "x < length tokens" using below_less [OF b Suc.prems(2)] by simp
  show ?case
  proof (cases "x = q")
    case False
    have k: "(tree_up tokens ^^ k) ?h = q" using Suc.prems(1) by (simp add: funpow_swap1)
    then have "?h \<noteq> x" using False funpow_fixed [of "tree_up tokens" x k] by auto
    have qx: "below tokens q x" using Suc.prems(1) x unfolding below_def by blast
    have qh: "below tokens q ?h" using k tree_up_less [OF b x] unfolding below_def by blast
    have hx: "below tokens ?h x" using below_up [OF below_refl [OF x]] .
    have "lt x ?h"
    proof (rule ccontr)
      assume "\<not> lt x ?h"
      then have "lt ?h x" using lt \<open>?h \<noteq> x\<close> by auto
      moreover have "m \<noteq> ?h" using Suc.prems(2) hx below_antisym [OF b f, of x ?h] \<open>?h \<noteq> x\<close> by auto
      then have "lt m ?h" using outer [OF qh] by auto
      ultimately have "x < ?h \<and> ?h < m \<or> m < ?h \<and> ?h < x" using lt by auto
      with p Suc.prems(2) have "below tokens x ?h" unfolding projective_def by blast
      with hx have "x = ?h" by (rule below_antisym [OF b f, rotated])
      with \<open>?h \<noteq> x\<close> show False by simp
    qed
    obtain ps where ps: "chain (tree_up tokens) ps q" "sorted_wrt lt (ps @ [q])" "hd (ps @ [q]) = ?h" "set ps \<subseteq> {..<length tokens}"
      using Suc.IH [OF k below_up [OF Suc.prems(2)]] by blast
    have "\<forall>y \<in> set (ps @ [q]). lt x y"
      using ps(2,3) \<open>lt x ?h\<close> lt by (cases ps) auto
    with ps x show ?thesis by (intro exI [of _ "x # ps"]) auto
  qed (auto intro: exI [of _ "[]"])
qed (auto intro: exI [of _ "[]"])

lemma subseq_rev: "subseq xs ys \<Longrightarrow> subseq (rev xs) (rev ys)"
  by (induction rule: list_emb.induct) (auto intro: list_emb_append_mono)

lemma subseq_upt: "set ps \<subseteq> {..<n} \<Longrightarrow> sorted_wrt (<) ps \<Longrightarrow> subseq ps [0..<n]"
  by (intro sorted_subset_imp_subseq) auto

lemma subseq_rev_upt:
  assumes "set ps \<subseteq> {..<n}" and "sorted_wrt (>) ps"
  shows "subseq ps (rev [0..<n])"
proof -
  have "subseq (rev ps) [0..<n]" using assms by (intro subseq_upt) (simp_all add: sorted_wrt_rev)
  then show ?thesis using subseq_rev by fastforce
qed

lemma projective_edges:
  assumes b: "in_bounds tokens" and f: "forest tokens" and p: "projective tokens" and r: "set_children_from_heads tokens = Inr t"
    and q: "q < length tokens"
  shows "tk_l_edge (t ! q) = Min {j. below tokens q j}" and "tk_r_edge (t ! q) = Max {j. below tokens q j}"
proof -
  let ?D = "{j. below tokens q j}"
  have fin: "finite ?D" by (rule finite_subset [of _ "{..<length tokens}"]) (auto simp: below_def)
  have ne: "?D \<noteq> {}" using below_refl [OF q] by blast
  note spec = rebuild_spec [OF b, unfolded r, simplified]
  have "map core t = map core tokens" and snd: "edges_sound t" using spec by blast+
  note up = tree_up_cong [OF this(1)] map_core_heads(1) [OF this(1)]
  have in_D: "tk_l_edge (t ! q) \<in> ?D" "tk_r_edge (t ! q) \<in> ?D" using snd q by (simp_all add: edges_sound_def below_def up)
  have l: "tk_l_edge (t ! q) \<le> hd (ps @ [q])" if "subseq ps [0..<length tokens]" "chain (tree_up tokens) ps q" for ps
    using spec q that by blast
  have u: "hd (ps @ [q]) \<le> tk_r_edge (t ! q)" if "subseq ps (rev [0..<length tokens])" "chain (tree_up tokens) ps q" for ps
    using spec q that by blast
  have path: "\<exists>k. (tree_up tokens ^^ k) m = q" "below tokens m m" if "m \<in> ?D" for m
    using that below_refl by (auto simp: below_def)
  obtain ps where ps: "chain (tree_up tokens) ps q" "sorted_wrt (<) (ps @ [q])" "hd (ps @ [q]) = Min ?D" "set ps \<subseteq> {..<length tokens}"
    using outer_chain [OF b f p, of "(<)" q "Min ?D"] path [OF Min_in [OF fin ne]] Min_le [OF fin] by (metis le_neq_implies_less mem_Collect_eq)
  have "tk_l_edge (t ! q) \<le> Min ?D" using l [OF subseq_upt [OF ps(4)] ps(1)] ps(2,3) by (simp add: sorted_wrt_append)
  with Min_le [OF fin in_D(1)] show "tk_l_edge (t ! q) = Min ?D" by simp
  obtain qs where qs: "chain (tree_up tokens) qs q" "sorted_wrt (>) (qs @ [q])" "hd (qs @ [q]) = Max ?D" "set qs \<subseteq> {..<length tokens}"
    using outer_chain [OF b f p, of "(>)" q "Max ?D"] path [OF Max_in [OF fin ne]] Max_ge [OF fin] by (metis le_neq_implies_less mem_Collect_eq)
  have "Max ?D \<le> tk_r_edge (t ! q)" using u [OF subseq_rev_upt [OF qs(4)] qs(1)] qs(2,3) by (simp add: sorted_wrt_append)
  with Max_ge [OF fin in_D(2)] show "tk_r_edge (t ! q) = Max ?D" by simp
qed

section \<open>Properties\<close>

text \<open>
  C30. Rebuilding a tree from heads fails exactly on the first head outside the document. Otherwise it keeps the
  words, labels and heads, counts the children on either side, and marks as sentence starts exactly the left edges of
  the labelled roots; in a projective forest the edges are the first and the last descendant.
\<close>

theorem set_children_exact:
  "case set_children_from_heads tokens of
     Inl e \<Rightarrow> \<exists>i < length tokens. e = HeadOutOfBoundsE i (tk_head (tokens ! i)) (head_abs tokens i) (length tokens) \<and>
       head_fault tokens i \<and> (\<forall>j < i. \<not> head_fault tokens j)
   | Inr t \<Rightarrow> in_bounds tokens \<and> map core t = map core tokens \<and>
       (\<forall>q < length tokens.
          tk_l_kids (t ! q) = card {c. child_of tokens q c \<and> c < q} \<and> tk_r_kids (t ! q) = card {c. child_of tokens q c \<and> q < c} \<and>
          (forest tokens \<and> projective tokens \<longrightarrow>
             tk_l_edge (t ! q) = Min {j. below tokens q j} \<and> tk_r_edge (t ! q) = Max {j. below tokens q j}) \<and>
          tk_sent_start (t ! q) = (if \<exists>i < length tokens. labelled_root tokens i \<and> tk_l_edge (t ! i) = q then Start else NotStart))"
proof (cases "find (head_fault tokens) [0..<length tokens]")
  case None
  then have b: "in_bounds tokens" by (auto simp: find_None_iff in_bounds_def)
  from rebuild_spec [OF b] obtain t where t: "set_children_from_heads tokens = Inr t" "map core t = map core tokens"
    and kids: "\<forall>q < length tokens. tk_l_kids (t ! q) = length (left_children tokens q) \<and> tk_r_kids (t ! q) = length (right_children tokens q)"
    and st: "\<forall>q < length tokens. tk_sent_start (t ! q) =
      (if \<exists>i < length tokens. labelled_root tokens i \<and> tk_l_edge (t ! i) = q then Start else NotStart)"
    by blast
  have "length (left_children tokens q) = card {c. child_of tokens q c \<and> c < q}"
    "length (right_children tokens q) = card {c. child_of tokens q c \<and> q < c}" if "q < length tokens" for q
  proof -
    have "set (left_children tokens q) = {c. child_of tokens q c \<and> c < q}" "set (right_children tokens q) = {c. child_of tokens q c \<and> q < c}"
      using that by (auto simp: left_children_def right_children_def child_of_def)
    then show "length (left_children tokens q) = card {c. child_of tokens q c \<and> c < q}"
      "length (right_children tokens q) = card {c. child_of tokens q c \<and> q < c}"
      by (metis distinct_card distinct_filter distinct_upt left_children_def, metis distinct_card distinct_filter distinct_upt right_children_def)
  qed
  with t b kids st projective_edges [OF b _ _ t(1)] show ?thesis by simp
next
  case (Some i)
  then obtain k where "k < length tokens" "head_fault tokens k" "i = k" "\<forall>j < k. \<not> head_fault tokens j"
    by (auto simp: find_Some_iff)
  with Some show ?thesis by (auto simp: set_children_from_heads_def)
qed

text \<open>The right children are listed from the right edge inwards.\<close>

lemma rights_descending:
  assumes "all_labelled tokens" and "set_children_from_heads tokens = Inr t" and "in_bounds tokens" and "q < length tokens"
  shows "rights t q = rev (filter (child_of tokens q) [q + 1..<length tokens])"
  unfolding rights_children [OF rebuild_navigable [OF assms(3,1,2)] assms(4)] right_children_def
  by (intro arg_cong [where f = rev] filter_cong) (auto simp: child_of_def)

lemma rebuilt_in_bounds: "set_children_from_heads tokens = Inr t \<Longrightarrow> in_bounds tokens"
  by (auto simp: set_children_from_heads_def in_bounds_def find_None_iff Let_def split: option.splits)

text \<open>
  C31. On a document rebuilt from heads, in which only roots may be unlabelled, \<open>lefts\<close> lists the left children in document
  order and \<open>rights\<close> every right child once. When the heads form a forest as well, \<open>subtree\<close>, whose recursion then ends
  within as many levels as there are tokens, lists the token and every descendant once, and \<open>is_ancestor\<close> holds
  exactly for the tokens properly above.
\<close>

theorem navigation_exact:
  assumes "all_labelled tokens" and "set_children_from_heads tokens = Inr t" and "q < length tokens"
  shows "lefts t q = filter (child_of tokens q) [0..<q] \<and>
    distinct (rights t q) \<and> set (rights t q) = {c. child_of tokens q c \<and> q < c} \<and>
    (forest tokens \<longrightarrow>
      (\<exists>xs. subtree t (length tokens) q = Some xs \<and> distinct xs \<and> set xs = {j. below tokens q j}) \<and>
      (is_ancestor t i q \<longleftrightarrow> below tokens i q \<and> i \<noteq> q))"
proof (intro conjI impI)
  have b: "in_bounds tokens" using assms(2) by (rule rebuilt_in_bounds)
  note nav = rebuild_navigable [OF b assms(1,2)]
  show "lefts t q = filter (child_of tokens q) [0..<q]"
    unfolding lefts_children [OF nav assms(3)] left_children_def using assms(3) by (auto simp: child_of_def intro!: filter_cong)
  have r: "rights t q = rev (filter (child_of tokens q) [q + 1..<length tokens])"
    by (rule rights_descending [OF assms(1,2) b assms(3)])
  show "distinct (rights t q)" by (simp add: r)
  show "set (rights t q) = {c. child_of tokens q c \<and> q < c}" by (auto simp: r child_of_def)
  assume f: "forest tokens"
  have "{j. below tokens q j} \<subseteq> {..<length tokens}" by (auto simp: below_def)
  then have "card {j. below tokens q j} \<le> length tokens" using card_mono [of "{..<length tokens}"] by fastforce
  from subtree_spec [OF nav f assms(3) this]
  show "\<exists>xs. subtree t (length tokens) q = Some xs \<and> distinct xs \<and> set xs = {j. below tokens q j}" .
  show "is_ancestor t i q \<longleftrightarrow> below tokens i q \<and> i \<noteq> q"
    using ancestors_spec [OF nav f assms(3)] by (simp add: is_ancestor_def)
qed

section \<open>Example\<close>

text \<open>Three words, each the head of the one before.\<close>

definition example_tree :: doc_tokens where
  "example_tree = map (\<lambda>h. (token_record_new lexeme_empty)\<lparr>tk_head := h, tk_dep := 1\<rparr>) [1, 1, 0]"

lemma example_up: "length example_tree = 3" "tree_up example_tree 0 = 1" "tree_up example_tree 1 = 2" "tree_up example_tree 2 = 2"
  by (simp_all add: example_tree_def tree_up_def tree_head_def head_abs_def)

lemma example_nodes: "i < length example_tree \<longleftrightarrow> i = 0 \<or> i = 1 \<or> i = 2"
  by (auto simp: example_up)

lemma example_bounds: "in_bounds example_tree" "all_labelled example_tree"
  by (auto simp: in_bounds_def head_fault_def head_abs_def all_labelled_def tk_has_head_def example_tree_def less_Suc_eq nth_Cons')

lemma example_below: "below example_tree 2 j \<longleftrightarrow> j < 3"
proof -
  have "below example_tree 2 2" by (rule below_refl) (simp add: example_up)
  moreover have "below example_tree 2 1" using below_up [OF below_refl [of 1 example_tree]] by (simp add: example_up del: One_nat_def)
  moreover have "below example_tree 1 0" using below_up [OF below_refl [of 0 example_tree]] by (simp add: example_up del: One_nat_def)
  from below_up [OF this] have "below example_tree 2 0" by (simp only: example_up)
  ultimately show ?thesis using below_less [OF example_bounds(1), of 2 j] example_nodes [of j] by (auto simp: example_up)
qed

lemma example_forest: "forest example_tree"
proof -
  have "\<exists>k. (tree_up example_tree ^^ k) i = 2" if "i < length example_tree" for i
    using example_below [of i] that by (auto simp: below_def example_up)
  then show ?thesis unfolding forest_def reaches_root_def using example_up(4) by metis
qed

lemma example_children: "child_of example_tree 2 c \<longleftrightarrow> c = 1" "child_of example_tree 0 c \<longleftrightarrow> False"
  unfolding child_of_def example_nodes using example_up by auto

lemma example_rebuilt: "\<exists>t. set_children_from_heads example_tree = Inr t"
  using rebuild_spec [OF example_bounds(1)] by blast

theorem set_children_exact_witness:
  "\<exists>t. set_children_from_heads example_tree = Inr t \<and> tk_l_kids (t ! 2) = 1 \<and> tk_r_kids (t ! 2) = 0"
proof -
  obtain t where t: "set_children_from_heads example_tree = Inr t" using example_rebuilt by blast
  have "card {c. child_of example_tree 2 c \<and> c < 2} = 1" "card {c. child_of example_tree 2 c \<and> 2 < c} = 0"
    by (simp_all add: example_children Collect_conv_if)
  moreover have "(2 :: nat) < length example_tree" by (simp add: example_up)
  ultimately show ?thesis using set_children_exact [of example_tree] by (simp add: t)
qed

theorem navigation_exact_witness:
  "\<exists>t. set_children_from_heads example_tree = Inr t \<and> lefts t 2 = [1] \<and> rights t 2 = [] \<and>
     (\<exists>xs. subtree t 3 2 = Some xs \<and> distinct xs \<and> set xs = {..<3}) \<and> is_ancestor t 2 0"
proof -
  obtain t where t: "set_children_from_heads example_tree = Inr t" using example_rebuilt by blast
  note nav = navigation_exact [OF example_bounds(2) t]
  have "filter (child_of example_tree 2) [0..<2] = [1]" by (simp add: example_children example_up upt_rec)
  moreover have "rights t 2 = []"
  proof -
    have "set (rights t 2) = {c. child_of example_tree 2 c \<and> 2 < c}" using nav [of 2 2] by (simp add: example_up)
    also have "\<dots> = {}" by (auto simp: child_of_def example_nodes)
    finally show ?thesis by simp
  qed
  moreover have "{j. below example_tree 2 j} = {..<3}" by (auto simp: example_below)
  ultimately show ?thesis using t nav [of 2 2] nav [of 0 2] example_forest by (simp add: example_up example_below)
qed

end
