(* ===== verification/DocArray.thy ===== *)
theory DocArray
  imports DocTree
begin

text \<open>
  Attribute access and the array form of documents: \<open>src/src/spacy-rs/src/attrs.rs\<close>, and \<open>get_token_attr\<close>,
  \<open>set_token_attr\<close>, \<open>to_array\<close> and \<open>from_array\<close> of \<open>src/src/spacy-rs/src/doc.rs\<close>. The variants of the attribute
  enumeration for the boolean flags are one constructor with the id; the others carry an \<open>A\<close>. Cells are 64-bit
  words: a head is sign-extended on the way out and truncated to 32 bits on the way in. An operation that panics
  (a row that is too short) is \<open>None\<close>, and an error leaves the cells written before it in place.
\<close>

section \<open>Attributes\<close>

datatype attribute =
  FlagAttr nat
| IdA
| OrthA
| LowerA
| NormA
| ShapeA
| PrefixA
| SuffixA
| LengthA
| ClusterA
| LemmaA
| PosA
| TagA
| DepA
| EntIobA
| EntTypeA
| HeadA
| SentStartA
| SpacyA
| ProbA
| LangA
| EntKbIdA
| MorphA
| EntIdA
| IdxA
| SentEndA
| InterlinguaLemmaIdA
| InterlinguaEntityIdA
| AnnotationConfidenceA
| OtherA nat

definition value_attrs :: "attribute list" where
  "value_attrs =
     [IdA, OrthA, LowerA, NormA, ShapeA, PrefixA, SuffixA, LengthA,
      ClusterA, LemmaA, PosA, TagA, DepA, EntIobA, EntTypeA, HeadA,
      SentStartA, SpacyA, ProbA, LangA, EntKbIdA, MorphA, EntIdA, IdxA,
      SentEndA, InterlinguaLemmaIdA, InterlinguaEntityIdA, AnnotationConfidenceA]"

fun attr_id :: "attribute \<Rightarrow> nat" where
  "attr_id (FlagAttr i) = i"
| "attr_id IdA = 64"
| "attr_id OrthA = 65"
| "attr_id LowerA = 66"
| "attr_id NormA = 67"
| "attr_id ShapeA = 68"
| "attr_id PrefixA = 69"
| "attr_id SuffixA = 70"
| "attr_id LengthA = 71"
| "attr_id ClusterA = 72"
| "attr_id LemmaA = 73"
| "attr_id PosA = 74"
| "attr_id TagA = 75"
| "attr_id DepA = 76"
| "attr_id EntIobA = 77"
| "attr_id EntTypeA = 78"
| "attr_id HeadA = 79"
| "attr_id SentStartA = 80"
| "attr_id SpacyA = 81"
| "attr_id ProbA = 82"
| "attr_id LangA = 83"
| "attr_id EntKbIdA = 84"
| "attr_id MorphA = 85"
| "attr_id EntIdA = 86"
| "attr_id IdxA = 87"
| "attr_id SentEndA = 88"
| "attr_id InterlinguaLemmaIdA = 89"
| "attr_id InterlinguaEntityIdA = 90"
| "attr_id AnnotationConfidenceA = 91"
| "attr_id (OtherA i) = i"

definition attr_from_id :: "nat \<Rightarrow> attribute" where
  "attr_from_id i =
     (if 1 \<le> i \<and> i \<le> 55 then FlagAttr i
      else case find (\<lambda>a. attr_id a = i) value_attrs of Some a \<Rightarrow> a | None \<Rightarrow> OtherA i)"

definition is_flag :: "attribute \<Rightarrow> bool" where
  "is_flag a \<longleftrightarrow> attr_id a < 64"

text \<open>The names of the attributes, with their ids.\<close>

definition attr_names :: "(string \<times> nat) list" where
  "attr_names =
     [(''IS_ALPHA'', 1), (''IS_ASCII'', 2), (''IS_DIGIT'', 3), (''IS_LOWER'', 4),
      (''IS_PUNCT'', 5), (''IS_SPACE'', 6), (''IS_TITLE'', 7), (''IS_UPPER'', 8),
      (''LIKE_URL'', 9), (''LIKE_NUM'', 10), (''LIKE_EMAIL'', 11), (''IS_STOP'', 12),
      (''IS_OOV_DEPRECATED'', 13), (''IS_BRACKET'', 14), (''IS_QUOTE'', 15), (''IS_LEFT_PUNCT'', 16),
      (''IS_RIGHT_PUNCT'', 17), (''IS_CURRENCY'', 18), (''IS_DET_WORD'', 19), (''IS_ADP_WORD'', 20),
      (''IS_AUX_WORD'', 21), (''IS_CCONJ_WORD'', 22), (''IS_SCONJ_WORD'', 23), (''IS_PRON_WORD'', 24),
      (''IS_VERB_WORD'', 25), (''IS_BE_VERB'', 26), (''IS_BARE_INF_HOST'', 27), (''IS_NEGATOR'', 28),
      (''IS_NOMINATIVE'', 29), (''IS_POSSESSIVE'', 30), (''IS_RELATIVIZER'', 31), (''IS_SENSORY_VERB'', 32),
      (''IS_EPISTEMIC_VERB'', 33), (''IS_DISCOURSE_MARKER'', 34), (''IS_ADVERB_WORD'', 35), (''IS_SUBORD_COMPLEMENT'', 36),
      (''IS_SUBORD_ADVERBIAL'', 37), (''IS_WHERE_WORD'', 38), (''IS_LOCATIVE'', 39), (''IS_DEMONSTRATIVE'', 40),
      (''IS_TODAY_WORD'', 41), (''IS_AS_WORD'', 42), (''IS_AFTER_WORD'', 43), (''IS_THAT_WORD'', 44),
      (''IS_TWICE_WORD'', 45), (''IS_YET_WORD'', 46), (''IS_PLEASE_WORD'', 47), (''IS_BE_CLITIC_S'', 48),
      (''IS_BE_CLITIC'', 49), (''IS_THERE_WORD'', 50), (''IS_WH_ADVERBIAL'', 51), (''IS_GET_WORD'', 52),
      (''IS_HAVE_CLITIC'', 53), (''IS_WILL_CLITIC'', 54), (''IS_INDEFINITE_PRONOUN'', 55), (''ID'', 64),
      (''ORTH'', 65), (''LOWER'', 66), (''NORM'', 67), (''SHAPE'', 68),
      (''PREFIX'', 69), (''SUFFIX'', 70), (''LENGTH'', 71), (''CLUSTER'', 72),
      (''LEMMA'', 73), (''POS'', 74), (''TAG'', 75), (''DEP'', 76),
      (''ENT_IOB'', 77), (''ENT_TYPE'', 78), (''ENT_KB_ID'', 84), (''ENT_ID'', 86),
      (''HEAD'', 79), (''SENT_START'', 80), (''SPACY'', 81), (''PROB'', 82),
      (''LANG'', 83), (''MORPH'', 85), (''IDX'', 87), (''SENT_END'', 88),
      (''INTERLINGUA_LEMMA_ID'', 89), (''INTERLINGUA_ENTITY_ID'', 90), (''ANNOTATION_CONFIDENCE'', 91)]"

definition attr_from_name :: "string \<Rightarrow> spacy_error + attribute" where
  "attr_from_name name =
     (let upper = to_ascii_uppercase name in
      case map_of attr_names upper of
        Some i \<Rightarrow> Inr (attr_from_id i)
      | None \<Rightarrow> Inl (UnknownAttributeText upper))"

section \<open>Cells\<close>

fun iob_id :: "ent_iob \<Rightarrow> nat" where
  "iob_id Missing = 0"
| "iob_id Inside = 1"
| "iob_id Outside = 2"
| "iob_id Begin = 3"

definition iob_from_id :: "nat \<Rightarrow> spacy_error + ent_iob" where
  "iob_from_id value =
     (if value = 0 then Inr Missing else if value = 1 then Inr Inside else if value = 2 then Inr Outside
      else if value = 3 then Inr Begin else Inl (InvalidEntIob (of_nat value)))"

fun sent_start_value :: "sent_start \<Rightarrow> 64 word" where
  "sent_start_value NotStart = - 1"
| "sent_start_value Unset = 0"
| "sent_start_value Start = 1"

definition sent_start_from :: "8 word \<Rightarrow> sent_start" where
  "sent_start_from value = (if value = - 1 then NotStart else if value = 1 then Start else Unset)"

fun get_token_attr :: "token_record \<Rightarrow> attribute \<Rightarrow> spacy_error + 64 word" where
  "get_token_attr t (FlagAttr i) = Inr (if flags_check (lx_flags (tk_lexeme t)) i then 1 else 0)"
| "get_token_attr t IdA = Inr (lx_id (tk_lexeme t))"
| "get_token_attr t OrthA = Inr (lx_orth (tk_lexeme t))"
| "get_token_attr t LowerA = Inr (lx_lower (tk_lexeme t))"
| "get_token_attr t NormA = Inr (if tk_norm t = 0 then lx_norm (tk_lexeme t) else tk_norm t)"
| "get_token_attr t ShapeA = Inr (lx_shape (tk_lexeme t))"
| "get_token_attr t PrefixA = Inr (lx_prefix (tk_lexeme t))"
| "get_token_attr t SuffixA = Inr (lx_suffix (tk_lexeme t))"
| "get_token_attr t LengthA = Inr (of_nat (lx_length (tk_lexeme t)))"
| "get_token_attr t ClusterA = Inr 0"
| "get_token_attr t ProbA = Inr 0"
| "get_token_attr t SentEndA = Inr 0"
| "get_token_attr t LemmaA = Inr (tk_lemma t)"
| "get_token_attr t PosA = Inr (of_nat (upos_id (tk_pos t)))"
| "get_token_attr t TagA = Inr (tk_tag t)"
| "get_token_attr t DepA = Inr (tk_dep t)"
| "get_token_attr t EntIobA = Inr (of_nat (iob_id (tk_ent_iob t)))"
| "get_token_attr t EntTypeA = Inr (tk_ent_type t)"
| "get_token_attr t HeadA = Inr (word_of_int (tk_head t))"
| "get_token_attr t SentStartA = Inr (sent_start_value (tk_sent_start t))"
| "get_token_attr t SpacyA = Inr (if tk_spacy t then 1 else 0)"
| "get_token_attr t LangA = Inr (lx_lang (tk_lexeme t))"
| "get_token_attr t EntKbIdA = Inr (tk_ent_kb_id t)"
| "get_token_attr t MorphA = Inr (tk_morph t)"
| "get_token_attr t EntIdA = Inr (tk_ent_id t)"
| "get_token_attr t IdxA = Inr (of_nat (tk_idx t))"
| "get_token_attr t InterlinguaLemmaIdA = Inr (case tk_interlingua_lemma_id t of None \<Rightarrow> 0 | Some v \<Rightarrow> v)"
| "get_token_attr t InterlinguaEntityIdA = Inr (case tk_interlingua_entity_id t of None \<Rightarrow> 0 | Some v \<Rightarrow> v)"
| "get_token_attr t AnnotationConfidenceA = Inr (case tk_confidence t of None \<Rightarrow> 0 | Some v \<Rightarrow> v)"
| "get_token_attr t (OtherA i) = Inl (UnknownAttribute i)"

definition nonzero :: "64 word \<Rightarrow> 64 word option" where
  "nonzero value = (if value = 0 then None else Some value)"

definition head_of_cell :: "64 word \<Rightarrow> int" where
  "head_of_cell value = sint (ucast value :: 32 word)"

fun set_token_attr :: "token_record \<Rightarrow> attribute \<Rightarrow> 64 word \<Rightarrow> spacy_error + token_record" where
  "set_token_attr t LemmaA value = Inr (t\<lparr>tk_lemma := value\<rparr>)"
| "set_token_attr t PosA value =
     (case upos_from_id (unat value) of None \<Rightarrow> Inl (UnknownPosE (show_nat (unat value))) | Some p \<Rightarrow> Inr (t\<lparr>tk_pos := p\<rparr>))"
| "set_token_attr t TagA value = Inr (t\<lparr>tk_tag := value\<rparr>)"
| "set_token_attr t DepA value = Inr (t\<lparr>tk_dep := value\<rparr>)"
| "set_token_attr t EntIobA value =
     (if unat value < 256 then
        (case iob_from_id (unat value) of Inl e \<Rightarrow> Inl e | Inr i \<Rightarrow> Inr (t\<lparr>tk_ent_iob := i\<rparr>))
      else Inl (InvalidEntIob value))"
| "set_token_attr t EntTypeA value = Inr (t\<lparr>tk_ent_type := value\<rparr>)"
| "set_token_attr t HeadA value = Inr (t\<lparr>tk_head := head_of_cell value\<rparr>)"
| "set_token_attr t SentStartA value = Inr (t\<lparr>tk_sent_start := sent_start_from (ucast value)\<rparr>)"
| "set_token_attr t SpacyA value = Inr (t\<lparr>tk_spacy := value \<noteq> 0\<rparr>)"
| "set_token_attr t NormA value = Inr (t\<lparr>tk_norm := value\<rparr>)"
| "set_token_attr t MorphA value = Inr (t\<lparr>tk_morph := value\<rparr>)"
| "set_token_attr t EntKbIdA value = Inr (t\<lparr>tk_ent_kb_id := value\<rparr>)"
| "set_token_attr t EntIdA value = Inr (t\<lparr>tk_ent_id := value\<rparr>)"
| "set_token_attr t IdxA value = Inr (t\<lparr>tk_idx := unat (ucast value :: 32 word)\<rparr>)"
| "set_token_attr t InterlinguaLemmaIdA value = Inr (t\<lparr>tk_interlingua_lemma_id := nonzero value\<rparr>)"
| "set_token_attr t InterlinguaEntityIdA value = Inr (t\<lparr>tk_interlingua_entity_id := nonzero value\<rparr>)"
| "set_token_attr t AnnotationConfidenceA value = Inr (t\<lparr>tk_confidence := nonzero value\<rparr>)"
| "set_token_attr t a value = Inl (ReadOnlyAttribute (attr_id a))"


section \<open>Arrays\<close>

fun collect_res :: "('a \<Rightarrow> 'e + 'b) \<Rightarrow> 'a list \<Rightarrow> 'e + 'b list" where
  "collect_res f [] = Inr []"
| "collect_res f (x # xs) =
     (case f x of Inl e \<Rightarrow> Inl e | Inr y \<Rightarrow> (case collect_res f xs of Inl e \<Rightarrow> Inl e | Inr ys \<Rightarrow> Inr (y # ys)))"

definition to_array :: "attribute list \<Rightarrow> doc_tokens \<Rightarrow> spacy_error + 64 word list list" where
  "to_array attrs doc = collect_res (\<lambda>t. collect_res (get_token_attr t) attrs) doc"

text \<open>The position of the first occurrence.\<close>

fun attr_position :: "'a \<Rightarrow> 'a list \<Rightarrow> nat option" where
  "attr_position x [] = None"
| "attr_position x (y # ys) = (if y = x then Some 0 else map_option Suc (attr_position x ys))"

text \<open>The checks of one column: \<open>None\<close> is a row too short, \<open>Some (Some e)\<close> the first fault.\<close>

fun check_heads :: "nat \<Rightarrow> nat \<Rightarrow> nat \<Rightarrow> 64 word list list \<Rightarrow> spacy_error option option" where
  "check_heads len col i [] = Some None"
| "check_heads len col i (row # rows) =
     (if length row \<le> col then None
      else let head = head_of_cell (row ! col); head_pos = int i + head
           in if head_pos < 0 \<or> int len \<le> head_pos then Some (Some (HeadOutOfBoundsE i head head_pos len))
              else check_heads len col (i + 1) rows)"

fun check_iobs :: "nat \<Rightarrow> 64 word list list \<Rightarrow> spacy_error option option" where
  "check_iobs col [] = Some None"
| "check_iobs col (row # rows) =
     (if length row \<le> col then None
      else if row ! col \<ge> 4 then Some (Some (InvalidEntIob (row ! col)))
      else check_iobs col rows)"

definition check_column :: "attribute \<Rightarrow> attribute list \<Rightarrow> (nat \<Rightarrow> spacy_error option option) \<Rightarrow> spacy_error option option" where
  "check_column a attrs check = (case attr_position a attrs of None \<Rightarrow> Some None | Some col \<Rightarrow> check col)"

fun set_row :: "token_record \<Rightarrow> attribute list \<Rightarrow> 64 word list \<Rightarrow> (spacy_error option \<times> token_record) option" where
  "set_row t [] row = Some (None, t)"
| "set_row t (a # attrs) [] = None"
| "set_row t (a # attrs) (v # row) =
     (case set_token_attr t a v of Inl e \<Rightarrow> Some (Some e, t) | Inr t \<Rightarrow> set_row t attrs row)"

fun set_rows :: "attribute list \<Rightarrow> doc_tokens \<Rightarrow> 64 word list list \<Rightarrow> (spacy_error option \<times> doc_tokens) option" where
  "set_rows attrs (t # ts) (row # rows) =
     (case set_row t attrs row of
        None \<Rightarrow> None
      | Some (Some e, t) \<Rightarrow> Some (Some e, t # ts)
      | Some (None, t) \<Rightarrow> map_option (\<lambda>(e, ts). (e, t # ts)) (set_rows attrs ts rows))"
| "set_rows attrs ts rows = Some (None, ts)"

definition from_array :: "attribute list \<Rightarrow> 64 word list list \<Rightarrow> doc_tokens \<Rightarrow> (spacy_error option \<times> doc_tokens) option" where
  "from_array attrs array doc =
     (if length array \<noteq> length doc then Some (Some (ArrayLengthMismatch (length array) (length doc)), doc)
      else case check_column HeadA attrs (\<lambda>col. check_heads (length doc) col 0 array) of
        None \<Rightarrow> None
      | Some (Some e) \<Rightarrow> Some (Some e, doc)
      | Some None \<Rightarrow>
          (case check_column EntIobA attrs (\<lambda>col. check_iobs col array) of
             None \<Rightarrow> None
           | Some (Some e) \<Rightarrow> Some (Some e, doc)
           | Some None \<Rightarrow>
               (case set_rows attrs doc array of
                  None \<Rightarrow> None
                | Some (Some e, doc) \<Rightarrow> Some (Some e, doc)
                | Some (None, doc) \<Rightarrow>
                    if HeadA \<in> set attrs \<and> DepA \<in> set attrs \<and> list_ex (\<lambda>t. tk_dep t \<noteq> 0) doc
                    then (case set_children_from_heads doc of Inl e \<Rightarrow> Some (Some e, doc) | Inr doc \<Rightarrow> Some (None, doc))
                    else Some (None, doc))))"

section \<open>Attribute ids and names\<close>

text \<open>
  Decoding keeps the id, and a value attribute is decoded from its own id. A name of the table resolves to an attribute
  with the id the table gives it, any other name is refused.
\<close>

lemma attr_id_from_id: "attr_id (attr_from_id i) = i"
  by (cases "find (\<lambda>a. attr_id a = i) value_attrs") (auto simp: attr_from_id_def dest: find_SomeD)

lemma attr_from_id_value: "a \<in> set value_attrs \<Longrightarrow> attr_from_id (attr_id a) = a"
  unfolding value_attrs_def by (elim set_ConsD [THEN disjE]) (simp_all add: attr_from_id_def value_attrs_def)

lemma attr_names_resolve:
  assumes "attr_from_name name = r"
  shows "case r of Inl e \<Rightarrow> e = UnknownAttributeText (to_ascii_uppercase name) \<and> to_ascii_uppercase name \<notin> fst ` set attr_names
    | Inr a \<Rightarrow> (to_ascii_uppercase name, attr_id a) \<in> set attr_names"
  unfolding assms [symmetric] attr_from_name_def Let_def
  by (cases "map_of attr_names (to_ascii_uppercase name)")
    (simp_all add: attr_id_from_id map_of_SomeD, simp add: map_of_eq_None_iff)

section \<open>Reading back what was written\<close>

definition writable :: "attribute \<Rightarrow> bool" where
  "writable a \<longleftrightarrow> a \<in> {LemmaA, PosA, TagA, DepA, EntIobA, EntTypeA, HeadA, SentStartA, SpacyA, NormA, MorphA, EntKbIdA,
     EntIdA, IdxA, InterlinguaLemmaIdA, InterlinguaEntityIdA, AnnotationConfidenceA}"

text \<open>The machine types of the integer fields.\<close>

definition token_ok :: "token_record \<Rightarrow> bool" where
  "token_ok t \<longleftrightarrow> - (2 ^ 31) \<le> tk_head t \<and> tk_head t < 2 ^ 31 \<and> tk_idx t < 2 ^ 32"


lemma head_of_cell_of_int:
  assumes "- (2 ^ 31) \<le> h" and "h < 2 ^ 31"
  shows "head_of_cell (word_of_int h) = h"
proof -
  have "signed_take_bit 31 h = h" using assms by (intro signed_take_bit_int_eq_self) simp_all
  then show ?thesis
    by (simp add: head_of_cell_def unsigned_of_int signed_of_int signed_take_bit_take_bit)
qed

lemma head_of_cell_range: "- (2 ^ 31) \<le> head_of_cell v" "head_of_cell v < 2 ^ 31"
  using sint_greater_eq [of "ucast v :: 32 word"] sint_less [of "ucast v :: 32 word"] by (simp_all add: head_of_cell_def)

lemma cell_upos: "upos_from_id (unat (of_nat (upos_id p) :: 64 word)) = Some p"
  by (cases p) (simp_all add: upos_from_id_def all_tags_def)

lemma cell_iob: "unat (of_nat (iob_id i) :: 64 word) < 4 \<and> iob_from_id (unat (of_nat (iob_id i) :: 64 word)) = Inr i"
  by (cases i) (simp_all add: iob_from_id_def)

lemma cell_sent_start: "sent_start_from (ucast (sent_start_value s)) = s"
  by (cases s) (simp_all add: sent_start_from_def unsigned_minus_1_eq_mask mask_eq_exp_minus_1)

lemma cell_idx: "n < 2 ^ 32 \<Longrightarrow> unat (ucast (of_nat n :: 64 word) :: 32 word) = n"
  by (simp add: unsigned_of_nat unsigned_ucast_eq take_bit_nat_eq_self_iff)

lemma cell_idx_cast: "n < 2 ^ 32 \<Longrightarrow> ucast (ucast (of_nat n :: 64 word) :: 32 word) = (of_nat n :: 64 word)"
  using arg_cong [OF cell_idx, of n of_nat] by simp

lemma get_set_same:
  assumes "get_token_attr s a = Inr v" and "writable a" and "token_ok s" and "a = NormA \<longrightarrow> v \<noteq> 0"
  obtains t' where "set_token_attr t a v = Inr t'" "get_token_attr t' a = Inr v"
proof -
  have "\<exists>t'. set_token_attr t a v = Inr t' \<and> get_token_attr t' a = Inr v"
    using assms cell_iob [of "tk_ent_iob s"]
    by (cases a) (auto simp: writable_def token_ok_def cell_upos cell_sent_start nonzero_def head_of_cell_of_int cell_idx cell_idx_cast
      split: option.splits if_splits)
  then show ?thesis using that by blast
qed

lemma get_set_other:
  assumes "set_token_attr t a v = Inr t'" and "b \<noteq> a"
  shows "get_token_attr t' b = get_token_attr t b"
  using assms by (cases a; auto split: option.splits sum.splits if_splits; cases b; simp)

lemma set_ok: "set_token_attr t a v = Inr t' \<Longrightarrow> token_ok t \<Longrightarrow> token_ok t'"
  using head_of_cell_range [of v] unsigned_less [where ?'b = 32 and ?'a = nat, of "ucast v"]
  by (cases a) (auto simp: token_ok_def split: option.splits sum.splits if_splits)

subsection \<open>Rows\<close>

lemma collect_res_Inr: "collect_res f xs = Inr ys \<longleftrightarrow> list_all2 (\<lambda>x y. f x = Inr y) xs ys"
  by (induction xs arbitrary: ys) (auto simp: list_all2_Cons1 split: sum.splits, metis Inr_inject)

lemma collect_res_total: "(\<And>x. x \<in> set xs \<Longrightarrow> \<exists>y. f x = Inr y) \<Longrightarrow> \<exists>ys. collect_res f xs = Inr ys"
  by (induction xs) (force split: sum.splits)+

lemma collect_res_cong: "list_all2 (\<lambda>x y. f x = g y) xs ys \<Longrightarrow> collect_res f xs = collect_res g ys"
  by (induction rule: list_all2_induct) (simp_all split: sum.split)

definition same_cells :: "attribute set \<Rightarrow> token_record \<Rightarrow> token_record \<Rightarrow> bool" where
  "same_cells A t s \<longleftrightarrow> (\<forall>a\<in>A. get_token_attr t a = get_token_attr s a)"

lemma to_array_cong: "list_all2 (same_cells (set attrs)) ts ss \<Longrightarrow> to_array attrs ts = to_array attrs ss"
  unfolding to_array_def
  by (rule collect_res_cong, erule list_all2_mono, rule collect_res_cong) (simp add: same_cells_def list_all2_same)

lemma get_total: "writable a \<Longrightarrow> \<exists>v. get_token_attr t a = Inr v"
  by (auto simp: writable_def)

lemma row_total: "list_all writable attrs \<Longrightarrow> \<exists>row. collect_res (get_token_attr t) attrs = Inr row"
  by (rule collect_res_total) (auto simp: list_all_iff intro: get_total)

definition row_source :: "attribute list \<Rightarrow> token_record \<Rightarrow> bool" where
  "row_source attrs s \<longleftrightarrow> token_ok s \<and> (NormA \<in> set attrs \<longrightarrow> get_token_attr s NormA \<noteq> Inr 0)"

lemma set_row_spec:
  assumes "distinct attrs" and "list_all writable attrs" and "row_source attrs s"
    and "list_all2 (\<lambda>a v. get_token_attr s a = Inr v) attrs row"
  shows "\<exists>t'. set_row t attrs row = Some (None, t') \<and> same_cells (set attrs) t' s \<and> same_cells (- set attrs) t' t \<and>
    (token_ok t \<longrightarrow> token_ok t')"
  using assms
proof (induction attrs arbitrary: t row)
  case Nil
  then show ?case by (simp add: same_cells_def)
next
  case (Cons a attrs)
  from Cons.prems obtain v vs where row: "row = v # vs" "get_token_attr s a = Inr v"
    "list_all2 (\<lambda>a v. get_token_attr s a = Inr v) attrs vs" by (auto simp: list_all2_Cons1)
  have "writable a" "token_ok s" "a = NormA \<longrightarrow> v \<noteq> 0" using Cons.prems row(2) by (auto simp: row_source_def)
  then obtain u where u: "set_token_attr t a v = Inr u" "get_token_attr u a = Inr v" using get_set_same [OF row(2)] by blast
  have "row_source attrs s" using Cons.prems(3) by (auto simp: row_source_def)
  with Cons.IH [OF _ _ _ row(3), of u] Cons.prems obtain t' where t': "set_row u attrs vs = Some (None, t')"
    "same_cells (set attrs) t' s" "same_cells (- set attrs) t' u" "token_ok u \<longrightarrow> token_ok t'" by auto
  have "same_cells (set (a # attrs)) t' s" "same_cells (- set (a # attrs)) t' t"
    using t'(2,3) u row(2) Cons.prems(1) get_set_other [OF u(1)] by (auto simp: same_cells_def)
  then show ?case using t'(1,4) u(1) row(1) set_ok [OF u(1)] by auto
qed

lemma set_rows_spec:
  assumes "distinct attrs" and "list_all writable attrs"
    and "list_all2 (\<lambda>s row. row_source attrs s \<and> list_all2 (\<lambda>a v. get_token_attr s a = Inr v) attrs row) src array"
    and "length dst = length src"
  shows "\<exists>d. set_rows attrs dst array = Some (None, d) \<and> list_all2 (same_cells (set attrs)) d src \<and>
    list_all2 (same_cells (- set attrs)) d dst \<and> (list_all token_ok dst \<longrightarrow> list_all token_ok d)"
  using assms(3,4)
proof (induction arbitrary: dst rule: list_all2_induct)
  case Nil
  then show ?case by simp
next
  case (Cons s src row array)
  from Cons.prems obtain t ts where dst: "dst = t # ts" "length ts = length src" by (cases dst) auto
  from set_row_spec [OF assms(1,2), of s row t] Cons.hyps obtain t' where t': "set_row t attrs row = Some (None, t')"
    "same_cells (set attrs) t' s" "same_cells (- set attrs) t' t" "token_ok t \<longrightarrow> token_ok t'" by blast
  from Cons.IH [OF dst(2)] obtain d where "set_rows attrs ts array = Some (None, d)" "list_all2 (same_cells (set attrs)) d src"
    "list_all2 (same_cells (- set attrs)) d ts" "list_all token_ok ts \<longrightarrow> list_all token_ok d" by blast
  with t' dst(1) show ?case by simp
qed

lemma attr_position_Some: "attr_position x xs = Some i \<Longrightarrow> i < length xs \<and> xs ! i = x"
  by (induction xs arbitrary: i) (auto split: if_splits)

lemma attr_position_None: "attr_position x xs = None \<longleftrightarrow> x \<notin> set xs"
  by (induction xs) auto

lemma check_heads_ok:
  "(\<And>k. k < length rows \<Longrightarrow> col < length (rows ! k) \<and> 0 \<le> int (i + k) + head_of_cell (rows ! k ! col) \<and>
      int (i + k) + head_of_cell (rows ! k ! col) < int len) \<Longrightarrow> check_heads len col i rows = Some None"
proof (induction rows arbitrary: i)
  case (Cons row rows)
  have "check_heads len col (i + 1) rows = Some None"
    using Cons.prems [of "Suc k" for k] by (intro Cons.IH) (simp add: add.commute add.left_commute)
  then show ?case using Cons.prems [of 0] by (simp add: Let_def)
qed simp

lemma check_iobs_ok:
  "(\<And>row. row \<in> set rows \<Longrightarrow> col < length row \<and> row ! col < 4) \<Longrightarrow> check_iobs col rows = Some None"
  by (induction rows) (simp_all add: not_le)

section \<open>Properties\<close>

lemma get_core:
  assumes "core t = core t'" and "a \<noteq> SentStartA"
  shows "get_token_attr t a = get_token_attr t' a"
proof -
  have "get_token_attr (core s) a = get_token_attr s a" for s using assms(2) by (cases a) (simp_all add: core_def)
  then show ?thesis using assms(1) by metis
qed

lemma cells_transfer:
  assumes "map core t = map core d" and "list_all2 (same_cells A) d s" and "SentStartA \<notin> A"
  shows "list_all2 (same_cells A) t s"
proof -
  have len: "length t = length d" using assms(1) by (rule map_eq_imp_length_eq)
  have "same_cells A (t ! i) (s ! i)" if "i < length t" for i
  proof -
    have "core (t ! i) = core (d ! i)" using assms(1) that len by (metis nth_map)
    moreover have "same_cells A (d ! i) (s ! i)" using list_all2_nthD [OF assms(2)] that len by simp
    ultimately show ?thesis unfolding same_cells_def using get_core assms(3) by metis
  qed
  then show ?thesis using len list_all2_lengthD [OF assms(2)] by (simp add: list_all2_conv_all_nth)
qed

lemma written_heads:
  assumes "list_all2 (same_cells A) d s" and "HeadA \<in> A" and "list_all token_ok d" and "list_all token_ok s" and "in_bounds s"
  shows "in_bounds d"
proof -
  have "tk_head (d ! i) = tk_head (s ! i)" if "i < length d" for i
  proof -
    have "token_ok (d ! i)" "token_ok (s ! i)" "same_cells A (d ! i) (s ! i)"
      using assms that list_all2_lengthD [OF assms(1)] by (auto simp: list_all_length list_all2_conv_all_nth)
    then have "word_of_int (tk_head (d ! i)) = (word_of_int (tk_head (s ! i)) :: 64 word)" "token_ok (d ! i)" "token_ok (s ! i)"
      using assms(2) by (force simp: same_cells_def)+
    then show ?thesis unfolding token_ok_def using head_of_cell_of_int by metis
  qed
  then show ?thesis using assms(5) list_all2_lengthD [OF assms(1)] by (simp add: in_bounds_def head_fault_def head_abs_def)
qed

lemma row_cell: "list_all2 (\<lambda>a v. get_token_attr s a = Inr v) attrs row \<Longrightarrow> attr_position a attrs = Some col \<Longrightarrow>
    col < length row \<and> get_token_attr s a = Inr (row ! col)"
  by (auto dest!: attr_position_Some simp: list_all2_conv_all_nth)

text \<open>The rows exported from a document pass the checks of the import.\<close>

lemma exported_checks:
  assumes rows: "list_all2 (\<lambda>s row. list_all2 (\<lambda>a v. get_token_attr s a = Inr v) attrs row) src array"
    and "list_all token_ok src" and "in_bounds src"
  shows "check_column HeadA attrs (\<lambda>col. check_heads (length src) col 0 array) = Some None"
    "check_column EntIobA attrs (\<lambda>col. check_iobs col array) = Some None"
proof -
  have len: "length array = length src" using list_all2_lengthD [OF rows] by simp
  have row: "list_all2 (\<lambda>a v. get_token_attr (src ! k) a = Inr v) attrs (array ! k)" if "k < length src" for k
    using rows that by (simp add: list_all2_conv_all_nth)
  have "check_heads (length src) col 0 array = Some None" if "attr_position HeadA attrs = Some col" for col
  proof (rule check_heads_ok)
    fix k assume "k < length array"
    with len have k: "k < length src" by simp
    have "token_ok (src ! k)" using assms(2) k by (simp add: list_all_length)
    then have "head_of_cell (array ! k ! col) = tk_head (src ! k)"
      using row_cell [OF row [OF k] that] head_of_cell_of_int [of "tk_head (src ! k)"] by (auto simp: token_ok_def)
    moreover have "\<not> head_fault src k" using assms(3) k by (simp add: in_bounds_def)
    ultimately show "col < length (array ! k) \<and> 0 \<le> int (0 + k) + head_of_cell (array ! k ! col) \<and>
        int (0 + k) + head_of_cell (array ! k ! col) < int (length src)"
      using row_cell [OF row [OF k] that] by (simp add: head_fault_def head_abs_def)
  qed
  then show "check_column HeadA attrs (\<lambda>col. check_heads (length src) col 0 array) = Some None"
    by (simp add: check_column_def split: option.split)
  have "check_iobs col array = Some None" if "attr_position EntIobA attrs = Some col" for col
  proof (rule check_iobs_ok)
    fix r assume "r \<in> set array"
    then obtain k where k: "k < length src" "r = array ! k" using len by (metis in_set_conv_nth)
    from row_cell [OF row [OF k(1)] that] cell_iob [of "tk_ent_iob (src ! k)"] k(2)
    show "col < length r \<and> r ! col < 4" by (auto simp: word_less_nat_alt)
  qed
  then show "check_column EntIobA attrs (\<lambda>col. check_iobs col array) = Some None"
    by (simp add: check_column_def split: option.split)
qed

text \<open>
  C32. Take distinct attributes an import can write, sentence starts not together with both heads and labels, a document
  with heads inside it whose cells an export can give back, and a well-formed document of the same length. Exporting the
  attributes of the first and importing the array into the second succeeds, the export of the result is the same array,
  and every other attribute of the second is as it was, but for the sentence starts, which an import of heads and labels
  recomputes.
\<close>

theorem array_roundtrip:
  assumes "distinct attrs" and "list_all writable attrs" and "list_all (row_source attrs) src" and "list_all token_ok dst"
    and "in_bounds src" and "length dst = length src" and "SentStartA \<in> set attrs \<Longrightarrow> {HeadA, DepA} \<subseteq> set attrs \<Longrightarrow> False"
  shows "\<exists>array doc. to_array attrs src = Inr array \<and> from_array attrs array dst = Some (None, doc) \<and>
    to_array attrs doc = Inr array \<and> list_all2 (same_cells (- set attrs - {SentStartA})) doc dst"
proof -
  have "\<exists>array. to_array attrs src = Inr array"
    unfolding to_array_def by (rule collect_res_total) (rule row_total [OF assms(2)])
  then obtain array where array: "to_array attrs src = Inr array" by blast
  then have rows: "list_all2 (\<lambda>s row. list_all2 (\<lambda>a v. get_token_attr s a = Inr v) attrs row) src array"
    by (simp add: to_array_def collect_res_Inr)
  have ok: "list_all token_ok src" using assms(3) by (auto simp: list_all_iff row_source_def)
  have len: "length array = length dst" using list_all2_lengthD [OF rows] assms(6) by simp
  have "list_all2 (\<lambda>s row. row_source attrs s \<and> list_all2 (\<lambda>a v. get_token_attr s a = Inr v) attrs row) src array"
    using rows assms(3) by (auto simp: list_all2_conv_all_nth list_all_length)
  from set_rows_spec [OF assms(1,2) this assms(6)] assms(4) obtain d where d: "set_rows attrs dst array = Some (None, d)"
    "list_all2 (same_cells (set attrs)) d src" "list_all2 (same_cells (- set attrs)) d dst" "list_all token_ok d" by blast
  note checks = exported_checks [OF rows ok assms(5), unfolded assms(6) [symmetric]]
  have kept: "list_all2 (same_cells (- set attrs - {SentStartA})) d dst"
    using d(3) by (rule list_all2_mono) (auto simp: same_cells_def)
  show ?thesis
  proof (cases "HeadA \<in> set attrs \<and> DepA \<in> set attrs \<and> list_ex (\<lambda>t. tk_dep t \<noteq> 0) d")
    case False
    then have "from_array attrs array dst = Some (None, d)" using len checks d(1) by (auto simp: from_array_def)
    with array kept to_array_cong [OF d(2)] show ?thesis by auto
  next
    case True
    from rebuild_spec [OF written_heads [OF d(2) _ d(4) ok assms(5)]] True obtain t where
      t: "set_children_from_heads d = Inr t" "map core t = map core d" by blast
    then have "from_array attrs array dst = Some (None, t)" using True len checks d(1) by (simp add: from_array_def)
    moreover have "SentStartA \<notin> set attrs" using assms(7) True by auto
    with cells_transfer [OF t(2) d(2)] have "to_array attrs t = Inr array" using array to_array_cong by auto
    moreover have "list_all2 (same_cells (- set attrs - {SentStartA})) t dst" using cells_transfer [OF t(2) kept] by simp
    ultimately show ?thesis using array by blast
  qed
qed

definition example_source :: doc_tokens where
  "example_source = map (\<lambda>h. (token_record_new lexeme_empty)\<lparr>tk_head := h, tk_dep := 7, tk_pos := Noun\<rparr>) [1, 0]"

theorem array_roundtrip_witness:
  "\<exists>doc. from_array [HeadA, DepA, PosA] [[1, 7, 92], [0, 7, 92]] [token_record_new lexeme_empty, token_record_new lexeme_empty] =
     Some (None, doc) \<and> to_array [HeadA, DepA, PosA] doc = Inr [[1, 7, 92], [0, 7, 92]]"
proof -
  have cells: "to_array [HeadA, DepA, PosA] example_source = Inr [[1, 7, 92], [0, 7, 92]]"
    by (simp add: to_array_def example_source_def)
  have "list_all (row_source [HeadA, DepA, PosA]) example_source"
    by (simp add: example_source_def row_source_def token_ok_def token_record_new_def)
  moreover have "list_all token_ok [token_record_new lexeme_empty, token_record_new lexeme_empty]"
    by (simp add: token_ok_def token_record_new_def)
  moreover have "in_bounds example_source"
    by (auto simp: in_bounds_def head_fault_def head_abs_def example_source_def less_Suc_eq)
  ultimately show ?thesis
    using array_roundtrip [of "[HeadA, DepA, PosA]" example_source "[token_record_new lexeme_empty, token_record_new lexeme_empty]"] cells
    by (auto simp: writable_def example_source_def)
qed

end
