(* ===== verification/LemmaBlob.thy ===== *)
theory LemmaBlob
  imports Labels Blob "HOL-Library.Char_ord" "HOL-Library.List_Lexorder"
begin

text \<open>
  The lemma blob: the loader and the lookups of \<open>src/src/spacy-rs/src/lemma_blob.rs\<close> and the encoder of
  \<open>src/src/spacy-rs/build.rs\<close>. Words are compared as byte strings, in the lexicographic order of lists. A slice
  outside the words panics in the code; the search returns the outer \<open>None\<close> there.
\<close>

section \<open>Tables\<close>

definition BLOB_MAGIC :: "32 word" where
  "BLOB_MAGIC = 0x534C4D31"

definition BLOB_MAGIC_SLM2 :: "32 word" where
  "BLOB_MAGIC_SLM2 = 0x534C4D32"

definition BLOB_VERSION :: "16 word" where
  "BLOB_VERSION = 1"

definition BLOB_VERSION_SLM2 :: "16 word" where
  "BLOB_VERSION_SLM2 = 2"

record exc_section =
  ex_n :: nat
  ex_surfaces :: string
  ex_offsets :: string
  ex_lemmas :: string

record pos_entry =
  pe_key :: string
  pe_rules :: "(string \<times> string) list"
  pe_index :: string
  pe_exc :: exc_section

type_synonym lemma_blob = "pos_entry list"

datatype lemma_error = LemmaMsg string | UnsupportedLemma string nat

definition or_msg :: "'a option \<Rightarrow> string \<Rightarrow> lemma_error + 'a" where
  "or_msg v m = (case v of None \<Rightarrow> Inl (LemmaMsg m) | Some x \<Rightarrow> Inr x)"

definition read_msg :: "(blob_cursor \<Rightarrow> 'a option \<times> blob_cursor) \<Rightarrow> string \<Rightarrow> blob_cursor \<Rightarrow> lemma_error + 'a \<times> blob_cursor" where
  "read_msg rd m c = (case rd c of (None, _) \<Rightarrow> Inl (LemmaMsg m) | (Some x, c') \<Rightarrow> Inr (x, c'))"

section \<open>Loader\<close>

definition read_rule :: "'w \<Rightarrow> blob_cursor \<Rightarrow> lemma_error + (string \<times> string) \<times> blob_cursor" where
  "read_rule what c =
     bind_err (read_msg sized_str ''truncated rule suffix'' c) (\<lambda>(old, c1).
     bind_err (read_msg sized_str ''truncated rule replacement'' c1) (\<lambda>(new, c2). Inr ((old, new), c2)))"

definition parse_rules :: "string \<Rightarrow> lemma_error + (string \<times> string) list" where
  "parse_rules raw =
     (if raw = [] then Inr []
      else bind_err (or_msg (peek_u32 (cursor_new raw) 0) ''truncated rule count'') (\<lambda>n.
           bind_err (fold_err (push_field read_rule) ([], cursor_with_offset raw 4) [0..<unat n]) (\<lambda>(out, _). Inr out)))"

definition parse_index :: "string \<Rightarrow> lemma_error + string" where
  "parse_index raw =
     (if raw = [] then Inr []
      else bind_err (or_msg (peek_u32 (cursor_new raw) 0) ''truncated index count'') (\<lambda>_.
           bind_err (or_msg (peek_u32 (cursor_new raw) 4) ''truncated index words len'') (\<lambda>words_len.
           or_msg (blob_slice raw 8 (unat words_len)) ''index words out of range'')))"

definition parse_exc :: "string \<Rightarrow> lemma_error + exc_section" where
  "parse_exc raw =
     (if raw = [] then Inr \<lparr>ex_n = 0, ex_surfaces = [], ex_offsets = [], ex_lemmas = []\<rparr>
      else bind_err (or_msg (peek_u32 (cursor_new raw) 0) ''truncated exc count'') (\<lambda>n.
           bind_err (or_msg (peek_u32 (cursor_new raw) 4) ''truncated exc surfaces len'') (\<lambda>surfaces_len.
           bind_err (or_msg (blob_slice raw 8 (unat surfaces_len)) ''exc surfaces out of range'') (\<lambda>surfaces.
           let at = 8 + unat surfaces_len in
           bind_err (or_msg (peek_u32 (cursor_new raw) at) ''truncated exc offsets len'') (\<lambda>offsets_len.
           if unat offsets_len \<noteq> unat n * 4 then Inl (LemmaMsg ''exc offset table size mismatch'')
           else
             bind_err (or_msg (blob_slice raw (at + 4) (unat offsets_len)) ''exc offsets out of range'') (\<lambda>offsets.
             bind_err (or_msg (peek_u32 (cursor_new raw) (at + 4 + unat offsets_len)) ''truncated exc lemmas len'') (\<lambda>lemmas_len.
             bind_err (or_msg (blob_slice raw (at + 8 + unat offsets_len) (unat lemmas_len)) ''exc lemmas out of range'') (\<lambda>lemmas.
             Inr \<lparr>ex_n = unat n, ex_surfaces = surfaces, ex_offsets = offsets, ex_lemmas = lemmas\<rparr>))))))))"

definition read_entry :: "string \<Rightarrow> 'w \<Rightarrow> blob_cursor \<Rightarrow> lemma_error + pos_entry \<times> blob_cursor" where
  "read_entry data what dir =
     bind_err (read_msg sized_str ''truncated pos key'' dir) (\<lambda>(key, c1).
     bind_err (read_msg usize_le ''truncated rules offset'' c1) (\<lambda>(rules_off, c2).
     bind_err (read_msg usize_le ''truncated rules length'' c2) (\<lambda>(rules_len, c3).
     bind_err (read_msg usize_le ''truncated index offset'' c3) (\<lambda>(index_off, c4).
     bind_err (read_msg usize_le ''truncated index length'' c4) (\<lambda>(index_len, c5).
     bind_err (read_msg usize_le ''truncated exc offset'' c5) (\<lambda>(exc_off, c6).
     bind_err (read_msg usize_le ''truncated exc length'' c6) (\<lambda>(exc_len, c7).
     bind_err (or_msg (blob_slice data rules_off rules_len) ''rules section out of range'') (\<lambda>rules_raw.
     bind_err (or_msg (blob_slice data index_off index_len) ''index section out of range'') (\<lambda>index_raw.
     bind_err (or_msg (blob_slice data exc_off exc_len) ''exc section out of range'') (\<lambda>exc_raw.
     bind_err (parse_rules rules_raw) (\<lambda>rules.
     bind_err (parse_index index_raw) (\<lambda>index.
     bind_err (parse_exc exc_raw) (\<lambda>exc.
     Inr (\<lparr>pe_key = key, pe_rules = rules, pe_index = index, pe_exc = exc\<rparr>, c7))))))))))))))"

definition lemma_header :: "string \<Rightarrow> lemma_error + nat \<times> nat" where
  "lemma_header data =
     (let probe = cursor_new data in
      bind_err (or_msg (peek_u32 probe 0) ''truncated magic'') (\<lambda>magic.
      if magic = BLOB_MAGIC_SLM2 then
        bind_err (or_msg (peek_u16 probe 4) ''truncated header version'') (\<lambda>header_version.
        if header_version \<noteq> 1 then Inl (UnsupportedLemma ''SLM2 header version'' (unat header_version))
        else bind_err (or_msg (peek_u16 probe 6) ''truncated section version'') (\<lambda>section_version.
             if section_version \<noteq> BLOB_VERSION_SLM2 then
               Inl (UnsupportedLemma ''SLM2 section version'' (unat section_version))
             else bind_err (or_msg (peek_u32 probe 16) ''truncated pos count'') (\<lambda>cnt.
                  bind_err (or_msg (peek_u32 probe 20) ''truncated section off'') (\<lambda>section_off.
                  Inr (unat cnt, unat section_off)))))
      else if magic = BLOB_MAGIC then
        bind_err (or_msg (peek_u16 probe 4) ''truncated version'') (\<lambda>version.
        if version \<noteq> BLOB_VERSION then Inl (UnsupportedLemma ''blob version'' (unat version))
        else bind_err (or_msg (peek_u16 probe 6) ''truncated pos count'') (\<lambda>cnt. Inr (unat cnt, 8)))
      else Inl (LemmaMsg ''bad magic'')))"

definition lemma_from_bytes :: "string \<Rightarrow> lemma_error + lemma_blob" where
  "lemma_from_bytes data =
     bind_err (lemma_header data) (\<lambda>(n, section_off).
     bind_err (fold_err (push_field (read_entry data)) ([], cursor_with_offset data section_off) [0..<n]) (\<lambda>(pos, _).
     Inr pos))"

section \<open>Lookups\<close>

definition rposition :: "char \<Rightarrow> string \<Rightarrow> nat option" where
  "rposition b s = find (\<lambda>i. s ! i = b) (rev [0..<length s])"

definition position :: "char \<Rightarrow> string \<Rightarrow> nat option" where
  "position b s = find (\<lambda>i. s ! i = b) [0..<length s]"

text \<open>The bounds of the word around a byte position.\<close>

definition word_start :: "string \<Rightarrow> nat \<Rightarrow> nat" where
  "word_start words mid = (case rposition NUL (take mid words) of None \<Rightarrow> 0 | Some sep \<Rightarrow> sep + 1)"

definition word_end :: "string \<Rightarrow> nat \<Rightarrow> nat" where
  "word_end words mid = (case position NUL (drop mid words) of None \<Rightarrow> length words | Some rel \<Rightarrow> mid + rel)"

lemma word_end_ge: "mid \<le> length words \<Longrightarrow> mid \<le> word_end words mid"
  by (auto simp: word_end_def split: option.splits)

lemma word_start_le: "word_start words mid \<le> mid"
  by (auto simp: word_start_def rposition_def dest!: find_SomeD split: option.splits)

function bsearch_loop :: "string \<Rightarrow> string \<Rightarrow> nat \<Rightarrow> nat \<Rightarrow> nat option option" where
  "bsearch_loop words target lo hi =
     (if lo < hi then
        if length words < hi then None
        else let mid = lo + (hi - lo) div 2; start = word_start words mid; end = word_end words mid
             in if end \<le> start then bsearch_loop words target (end + 1) hi
                else let w = take (end - start) (drop start words)
                     in if w = target then Some (Some (length (filter (\<lambda>b. b = NUL) (take start words))))
                        else if w < target then
                          bsearch_loop words target (if end + 1 < length words then end + 1 else length words) hi
                        else bsearch_loop words target lo start
      else Some None)"
  by pat_completeness auto

termination
proof (relation "measure (\<lambda>(_, _, lo, hi). hi - lo)")
  fix words target :: string and lo hi mid start "end" :: nat
  assume b: "lo < hi" "\<not> length words < hi" "mid = lo + (hi - lo) div 2"
  have mid: "lo \<le> mid" "mid < hi" using b by auto
  { assume e: "end = word_end words mid"
    then have "lo \<le> end" using word_end_ge [of mid words] b mid by simp
    then show "((words, target, end + 1, hi), words, target, lo, hi) \<in> measure (\<lambda>(_, _, lo, hi). hi - lo)" using b by simp
    show "((words, target, if end + 1 < length words then end + 1 else length words, hi), words, target, lo, hi)
      \<in> measure (\<lambda>(_, _, lo, hi). hi - lo)" using b \<open>lo \<le> end\<close> by auto }
  { assume "start = word_start words mid"
    then have "start < hi" using word_start_le [of words mid] mid by simp
    then show "((words, target, lo, start), words, target, lo, hi) \<in> measure (\<lambda>(_, _, lo, hi). hi - lo)" using b by auto }
qed auto

declare bsearch_loop.simps [simp del]

definition bsearch_words :: "string \<Rightarrow> string \<Rightarrow> nat option option" where
  "bsearch_words words target = bsearch_loop words target 0 (length words)"

definition find_entry :: "lemma_blob \<Rightarrow> string \<Rightarrow> pos_entry option" where
  "find_entry blob key = find (\<lambda>p. pe_key p = key) blob"

definition lb_rules :: "lemma_blob \<Rightarrow> string \<Rightarrow> (string \<times> string) list" where
  "lb_rules blob key = (case find_entry blob key of None \<Rightarrow> [] | Some p \<Rightarrow> pe_rules p)"

definition lb_has_pos :: "lemma_blob \<Rightarrow> upos \<Rightarrow> bool" where
  "lb_has_pos blob pos = list_ex (\<lambda>p. pe_key p = upos_str pos) blob"

definition index_contains :: "lemma_blob \<Rightarrow> string \<Rightarrow> string \<Rightarrow> bool option" where
  "index_contains blob key word =
     (case find_entry blob key of
        None \<Rightarrow> Some False
      | Some p \<Rightarrow> map_option (\<lambda>r. r \<noteq> None) (bsearch_words (pe_index p) word))"

definition exc_for :: "lemma_blob \<Rightarrow> string \<Rightarrow> string \<Rightarrow> string option option" where
  "exc_for blob key surface =
     (case find_entry blob key of
        None \<Rightarrow> Some None
      | Some p \<Rightarrow>
          (case bsearch_words (ex_surfaces (pe_exc p)) surface of
             None \<Rightarrow> None
           | Some None \<Rightarrow> Some None
           | Some (Some i) \<Rightarrow>
               Some (case rd_u32 (ex_offsets (pe_exc p)) (i * 4) of
                 None \<Rightarrow> None
               | Some start \<Rightarrow>
                   (case if i + 1 < ex_n (pe_exc p) then map_option unat (rd_u32 (ex_offsets (pe_exc p)) ((i + 1) * 4))
                         else Some (length (ex_lemmas (pe_exc p))) of
                      None \<Rightarrow> None
                    | Some stop \<Rightarrow> byte_range (ex_lemmas (pe_exc p)) (unat start) stop))))"

section \<open>Encoder\<close>

definition encode_sized :: "string \<Rightarrow> string" where
  "encode_sized s = char_of (length s) # s"

definition u32_of :: "nat \<Rightarrow> string" where
  "u32_of n = le_str 4 (of_nat n :: 32 word)"

definition encode_rule :: "string \<times> string \<Rightarrow> string" where
  "encode_rule r = encode_sized (fst r) @ encode_sized (snd r)"

definition encode_rules :: "(string \<times> string) list \<Rightarrow> string" where
  "encode_rules rules = u32_of (length rules) @ concat (map encode_rule rules)"

definition encode_index :: "string list \<Rightarrow> string" where
  "encode_index words =
     (let sorted = remdups_adj (sort words); body = terminated NUL (filter (\<lambda>w. w \<noteq> []) sorted)
      in u32_of (length sorted) @ u32_of (length body) @ body)"

definition add_exc :: "string \<times> nat list \<times> string \<Rightarrow> string \<times> string list \<Rightarrow> string \<times> nat list \<times> string" where
  "add_exc st entry =
     (case st of (surfaces, offsets, lemmas) \<Rightarrow>
        (surfaces @ fst entry @ [NUL], offsets @ [length lemmas],
         lemmas @ terminated NUL (filter (\<lambda>l. l \<noteq> []) (snd entry))))"

definition encode_exc :: "(string \<times> string list) list \<Rightarrow> string" where
  "encode_exc table =
     (let entries = sort_key fst table;
          (surfaces, offsets, lemmas) = foldl add_exc ([], [], []) entries
      in u32_of (length entries) @ u32_of (length surfaces) @ surfaces @
         u32_of (length offsets * 4) @ concat (map u32_of offsets) @ u32_of (length lemmas) @ lemmas)"

record lemma_tables =
  lt_rules :: "(string \<times> (string \<times> string) list) list"
  lt_index :: "(string \<times> string list) list"
  lt_exc :: "(string \<times> (string \<times> string list) list) list"

definition lt_keys :: "lemma_tables \<Rightarrow> string list" where
  "lt_keys t = sort (map fst (lt_rules t))"

definition rules_bytes :: "lemma_tables \<Rightarrow> string \<Rightarrow> string" where
  "rules_bytes t k = encode_rules (the (map_of (lt_rules t) k))"

definition index_bytes :: "lemma_tables \<Rightarrow> string \<Rightarrow> string" where
  "index_bytes t k = (case map_of (lt_index t) k of None \<Rightarrow> [] | Some v \<Rightarrow> encode_index v)"

definition exc_bytes :: "lemma_tables \<Rightarrow> string \<Rightarrow> string" where
  "exc_bytes t k = (case map_of (lt_exc t) k of None \<Rightarrow> [] | Some v \<Rightarrow> encode_exc v)"

definition build_entry :: "lemma_tables \<Rightarrow> nat \<times> string \<times> string \<Rightarrow> string \<Rightarrow> nat \<times> string \<times> string" where
  "build_entry t st k =
     (case st of (off, dir, sections) \<Rightarrow>
        let r = rules_bytes t k; x = index_bytes t k; e = exc_bytes t k
        in (off + length r + length x + length e,
            dir @ encode_sized k @ u32_of off @ u32_of (length r) @ u32_of (off + length r) @ u32_of (length x) @
              u32_of (off + length r + length x) @ u32_of (length e),
            sections @ r @ x @ e))"

definition lemma_payload :: "lemma_tables \<Rightarrow> string" where
  "lemma_payload t =
     (let keys = lt_keys t; dir_len = sum_list (map (\<lambda>k. 1 + length k + 6 * 4) keys);
          (_, dir, sections) = foldl (build_entry t) (44 + dir_len, [], []) keys
      in dir @ sections)"

definition lemma_build :: "(string \<Rightarrow> 32 word) \<Rightarrow> (string \<Rightarrow> string) \<Rightarrow> 64 word \<Rightarrow> lemma_tables \<Rightarrow> string" where
  "lemma_build crc sha section_hash t =
     (let payload = lemma_payload t;
          blob = le_str 4 BLOB_MAGIC_SLM2 @ le_str 2 (1 :: 16 word) @ le_str 2 (2 :: 16 word) @ le_str 8 section_hash @
            u32_of (length (lt_keys t)) @ u32_of 44 @ le_str 4 (crc payload) @ take 16 (sha payload) @ payload
      in blob @ le_str 4 (crc blob))"

section \<open>The search is a lookup\<close>

lemma rposition_snoc: "rposition b (s @ [x]) = (if x = b then Some (length s) else rposition b s)"
proof -
  have "find (\<lambda>i. (s @ [x]) ! i = b) (rev [0..<length s]) = find (\<lambda>i. s ! i = b) (rev [0..<length s])"
    by (rule find_cong) (auto simp: nth_append)
  then show ?thesis by (simp add: rposition_def)
qed

lemma rposition_free: "b \<notin> set ys \<Longrightarrow> rposition b ys = None"
  by (induction ys rule: rev_induct) (auto simp: rposition_snoc, simp add: rposition_def)

lemma rposition_append: "b \<notin> set ys \<Longrightarrow> rposition b (xs @ b # ys) = Some (length xs)"
proof (induction ys rule: rev_induct)
  case Nil
  then show ?case by (simp add: rposition_snoc)
next
  case (snoc y ys)
  then show ?case using rposition_snoc [of b "xs @ b # ys" y] by auto
qed

lemma position_append: "b \<notin> set xs \<Longrightarrow> position b (xs @ b # ys) = Some (length xs)"
  by (auto simp: position_def find_Some_iff nth_append intro!: exI [of _ "length xs"])

definition word_off :: "string list \<Rightarrow> nat \<Rightarrow> nat" where
  "word_off ws k = length (terminated NUL (take k ws))"

lemma word_off_Suc: "k < length ws \<Longrightarrow> word_off ws (Suc k) = word_off ws k + length (ws ! k) + 1"
  by (simp add: word_off_def take_Suc_conv_app_nth)

lemma word_off_mono: "a \<le> b \<Longrightarrow> word_off ws a \<le> word_off ws b"
proof -
  assume "a \<le> b"
  then have "take b ws = take a ws @ take (b - a) (drop a ws)" by (metis le_add_diff_inverse take_add)
  then show ?thesis by (simp add: word_off_def)
qed

lemma terminated_split:
  "k < length ws \<Longrightarrow> terminated NUL ws =
     terminated NUL (take k ws) @ ws ! k @ NUL # terminated NUL (drop (Suc k) ws)"
  by (metis terminated_simps(2,3) append_take_drop_id Cons_nth_drop_Suc)

lemma word_bounds:
  assumes k: "k < length ws" and free: "\<forall>w \<in> set ws. NUL \<notin> set w"
    and mid: "word_off ws k \<le> mid" "mid \<le> word_off ws k + length (ws ! k)"
  shows "word_start (terminated NUL ws) mid = word_off ws k"
    and "word_end (terminated NUL ws) mid = word_off ws k + length (ws ! k)"
proof -
  let ?T = "terminated NUL ws" and ?A = "terminated NUL (take k ws)" and ?m = "mid - word_off ws k"
  have T: "?T = ?A @ ws ! k @ NUL # terminated NUL (drop (Suc k) ws)" using k by (rule terminated_split)
  have len: "length ?A = word_off ws k" by (simp add: word_off_def)
  have nk: "NUL \<notin> set (ws ! k)" using free k by simp
  have pre: "take mid ?T = ?A @ take ?m (ws ! k)" using mid len by (simp add: T)
  have post: "drop mid ?T = drop ?m (ws ! k) @ NUL # terminated NUL (drop (Suc k) ws)" using mid len by (simp add: T)
  have nm: "NUL \<notin> set (take ?m (ws ! k))" "NUL \<notin> set (drop ?m (ws ! k))"
    using nk by (auto dest: in_set_takeD in_set_dropD)
  show "word_end ?T mid = word_off ws k + length (ws ! k)"
    using mid nm by (simp add: word_end_def post position_append)
  show "word_start ?T mid = word_off ws k"
  proof (cases k)
    case 0
    then show ?thesis using nm by (simp add: word_start_def pre rposition_free word_off_def)
  next
    case (Suc j)
    then have "?A = terminated NUL (take j ws) @ ws ! j @ [NUL]" using k by (simp add: take_Suc_conv_app_nth)
    with nm len show ?thesis
      using rposition_append [of NUL "take ?m (ws ! k)" "terminated NUL (take j ws) @ ws ! j"]
      by (simp add: word_start_def pre)
  qed
qed

lemma word_at: "mid < length (terminated NUL ws) \<Longrightarrow>
  \<exists>k < length ws. word_off ws k \<le> mid \<and> mid \<le> word_off ws k + length (ws ! k)"
proof (induction ws arbitrary: mid)
  case (Cons w ws)
  show ?case
  proof (cases "mid \<le> length w")
    case True
    then show ?thesis by (intro exI [of _ 0]) (simp add: word_off_def)
  next
    case False
    with Cons.prems have "mid - length w - 1 < length (terminated NUL ws)" by simp
    from Cons.IH [OF this] obtain k where "k < length ws" "word_off ws k \<le> mid - length w - 1"
      "mid - length w - 1 \<le> word_off ws k + length (ws ! k)" by blast
    with False show ?thesis by (intro exI [of _ "Suc k"]) (simp add: word_off_def, linarith)
  qed
qed simp

lemma find_upt_drop: "a \<le> c \<Longrightarrow> c \<le> b \<Longrightarrow> \<forall>j. a \<le> j \<and> j < c \<longrightarrow> \<not> P j \<Longrightarrow> find P [a..<b] = find P [c..<b]"
proof (induction "c - a" arbitrary: a)
  case (Suc n)
  then show ?case by (simp add: upt_conv_Cons)
qed simp

lemma find_upt_take: "c \<le> b \<Longrightarrow> \<forall>j. c \<le> j \<and> j < b \<longrightarrow> \<not> P j \<Longrightarrow> find P [a..<b] = find P [a..<c]"
proof (induction "b - a" arbitrary: a)
  case (Suc n)
  then show ?case by (cases "a < c") (auto simp: upt_conv_Cons find_None_iff)
qed auto

lemma count_terminated: "\<forall>w \<in> set ws. NUL \<notin> set w \<Longrightarrow> length (filter (\<lambda>b. b = NUL) (terminated NUL ws)) = length ws"
  by (induction ws) (auto simp: filter_empty_conv)

definition word_list :: "string list \<Rightarrow> bool" where
  "word_list ws \<longleftrightarrow> sorted_wrt (<) ws \<and> list_all (\<lambda>w. w \<noteq> [] \<and> NUL \<notin> set w) ws"

text \<open>One turn of the search looks at the word \<open>k\<close> around the middle of the words \<open>a\<close> to \<open>b\<close>.\<close>

lemma bsearch_turn:
  assumes ws: "word_list ws" and ab: "a < b" "b \<le> length ws"
  obtains k where "a \<le> k" "k < b"
    "bsearch_loop (terminated NUL ws) target (word_off ws a) (word_off ws b) =
      (if ws ! k = target then Some (Some k)
       else if ws ! k < target then bsearch_loop (terminated NUL ws) target (word_off ws (Suc k)) (word_off ws b)
       else bsearch_loop (terminated NUL ws) target (word_off ws a) (word_off ws k))"
proof -
  let ?T = "terminated NUL ws" and ?lo = "word_off ws a" and ?hi = "word_off ws b"
  have free: "\<forall>w \<in> set ws. NUL \<notin> set w" using ws by (auto simp: word_list_def list_all_iff)
  have T: "length ?T = word_off ws (length ws)" by (simp add: word_off_def)
  have lohi: "?lo < ?hi" using word_off_Suc [of a ws] word_off_mono [of "Suc a" b ws] ab by simp
  define mid where "mid = ?lo + (?hi - ?lo) div 2"
  have mid: "?lo \<le> mid" "mid < ?hi" using lohi by (auto simp: mid_def)
  have hi: "?hi \<le> length ?T" using T word_off_mono ab by simp
  obtain k where k: "k < length ws" "word_off ws k \<le> mid" "mid \<le> word_off ws k + length (ws ! k)"
    using word_at [of mid ws] mid hi by auto
  have ka: "a \<le> k"
  proof (rule ccontr)
    assume "\<not> a \<le> k"
    then have "word_off ws (Suc k) \<le> ?lo" using word_off_mono by simp
    with k mid word_off_Suc [OF k(1)] show False by simp
  qed
  have kb: "k < b" using mid k word_off_mono [of b k ws] by (metis not_less order_trans leD)
  note bounds = word_bounds [OF k(1) free k(2,3)] and split = terminated_split [OF k(1)]
  have ne: "ws ! k \<noteq> []" using ws k(1) by (auto simp: word_list_def list_all_iff)
  have w: "take (length (ws ! k)) (drop (word_off ws k) ?T) = ws ! k" by (subst split) (simp add: word_off_def)
  have "\<forall>w \<in> set (take k ws). NUL \<notin> set w" using free by (auto dest: in_set_takeD)
  from count_terminated [OF this] have cnt: "length (filter (\<lambda>c. c = NUL) (take (word_off ws k) ?T)) = k"
    using k(1) by (subst split) (simp add: word_off_def)
  have "word_off ws k + length (ws ! k) + 1 \<le> length ?T"
    using word_off_Suc [OF k(1)] word_off_mono [of "Suc k" "length ws" ws] k(1) T by simp
  then show thesis using lohi hi ne
    by (intro that [OF ka kb], subst bsearch_loop.simps) (simp add: Let_def bounds w cnt word_off_Suc [OF k(1)] flip: mid_def)
qed

lemma bsearch_loop_spec:
  assumes ws: "word_list ws" and "a \<le> b" "b \<le> length ws"
  shows "bsearch_loop (terminated NUL ws) target (word_off ws a) (word_off ws b) = Some (find (\<lambda>k. ws ! k = target) [a..<b])"
  using assms(2,3)
proof (induction "b - a" arbitrary: a b rule: less_induct)
  case less
  let ?P = "\<lambda>k. ws ! k = target"
  have less_ws: "\<And>i j. i < j \<Longrightarrow> j < length ws \<Longrightarrow> ws ! i < ws ! j" using ws by (auto simp: word_list_def sorted_wrt_nth_less)
  show ?case
  proof (cases "a = b")
    case True
    then show ?thesis by (subst bsearch_loop.simps) simp
  next
    case False
    with less.prems have "a < b" by simp
    from bsearch_turn [OF ws this less.prems(2), of target] obtain k where k: "a \<le> k" "k < b" and step:
      "bsearch_loop (terminated NUL ws) target (word_off ws a) (word_off ws b) =
        (if ws ! k = target then Some (Some k)
         else if ws ! k < target then bsearch_loop (terminated NUL ws) target (word_off ws (Suc k)) (word_off ws b)
         else bsearch_loop (terminated NUL ws) target (word_off ws a) (word_off ws k))" .
    note IH = less.hyps [of b "Suc k"] less.hyps [of k a]
    consider "ws ! k = target" | "ws ! k < target" | "target < ws ! k" by (meson linorder_less_linear)
    then show ?thesis
    proof cases
      case 1
      have "\<not> ?P j" if "j < k" for j using less_ws [OF that] k less.prems 1 by (metis order_less_irrefl order_less_le_trans)
      then have "find ?P [a..<b] = find ?P [k..<b]" by (intro find_upt_drop) (use k in auto)
      then show ?thesis using step 1 k by (simp add: upt_conv_Cons)
    next
      case 2
      have "\<not> ?P j" if "j < Suc k" for j using less_ws [of j k] k less.prems 2 that by (auto simp: less_Suc_eq)
      then have "find ?P [a..<b] = find ?P [Suc k..<b]" by (intro find_upt_drop) (use k in auto)
      then show ?thesis using step 2 IH(1) k less.prems by auto
    next
      case 3
      have "\<not> ?P j" if "k \<le> j" "j < b" for j
        using less_ws [of k j] less.prems 3 that by (cases "j = k") auto
      then have "find ?P [a..<b] = find ?P [a..<k]" by (intro find_upt_take) (use k in auto)
      then show ?thesis using step 3 IH(2) k less.prems by auto
    qed
  qed
qed

lemma bsearch_words_spec:
  "word_list ws \<Longrightarrow> bsearch_words (terminated NUL ws) target = Some (find (\<lambda>k. ws ! k = target) [0..<length ws])"
  using bsearch_loop_spec [of ws 0 "length ws" target] by (simp add: bsearch_words_def word_off_def)

section \<open>Loading what was built\<close>

definition sized_ok :: "string \<Rightarrow> bool" where
  "sized_ok s \<longleftrightarrow> utf8_valid s \<and> length s < 256"

lemma length_encode_sized [simp]: "length (encode_sized s) = 1 + length s"
  by (simp add: encode_sized_def)

lemma sized_str_iff:
  assumes "cursor_ok c"
  shows "sized_str c = (Some s, c') \<longleftrightarrow>
    sized_ok s \<and> (\<exists>r. cursor_rest c = encode_sized s @ r) \<and> c' = advance (length (encode_sized s)) c"
proof
  assume r: "sized_str c = (Some s, c')"
  let ?n = "of_char (bc_data c ! bc_offset c) :: nat"
  from r have off: "bc_offset c < length (bc_data c)"
    and range: "byte_range (bc_data c) (bc_offset (advance 1 c)) (bc_offset (advance 1 c) + ?n) = Some s"
    and u: "utf8_valid s" and c': "c' = advance ?n (advance 1 c)"
    by (auto simp: sized_str_def Let_def from_utf8_def advance_def add.assoc split: if_splits option.splits)
  have rest: "cursor_rest c = bc_data c ! bc_offset c # cursor_rest (advance 1 c)"
    using off by (simp add: cursor_rest_def advance_def Cons_nth_drop_Suc)
  have "cursor_ok (advance 1 c)" using off by (simp add: cursor_ok_def)
  with range obtain r where s: "cursor_rest (advance 1 c) = s @ r" "length s = ?n"
    using byte_range_rest [of "advance 1 c" ?n s] by auto
  have "char_of (length s) = bc_data c ! bc_offset c" using s(2) by simp
  moreover have "length s < 256" using s(2) by simp
  ultimately show "sized_ok s \<and> (\<exists>r. cursor_rest c = encode_sized s @ r) \<and> c' = advance (length (encode_sized s)) c"
    using rest s u c' by (simp add: encode_sized_def sized_ok_def)
next
  assume "sized_ok s \<and> (\<exists>r. cursor_rest c = encode_sized s @ r) \<and> c' = advance (length (encode_sized s)) c"
  then obtain r where so: "sized_ok s" and r: "cursor_rest c = encode_sized s @ r"
    and c': "c' = advance (length (encode_sized s)) c" by blast
  have off: "bc_offset c < length (bc_data c)" using r by (auto simp: cursor_rest_def encode_sized_def intro: ccontr)
  then have hd: "bc_data c ! bc_offset c = char_of (length s)" and tl: "cursor_rest (advance 1 c) = s @ r"
    using r by (simp_all add: cursor_rest_def encode_sized_def flip: Cons_nth_drop_Suc)
  have n: "(of_char (char_of (length s)) :: nat) = length s" using so by (simp add: sized_ok_def)
  have "cursor_ok (advance 1 c)" using off by (simp add: cursor_ok_def)
  then have "byte_range (bc_data c) (Suc (bc_offset c)) (Suc (bc_offset c) + length s) = Some s"
    using byte_range_rest [of "advance 1 c" "length s" s] tl by auto
  then show "sized_str c = (Some s, c')" using off so c'
    by (simp add: sized_str_def hd n from_utf8_def sized_ok_def advance_def)
qed

lemma read_sized_iff:
  "cursor_ok c \<Longrightarrow> read_msg sized_str m c = Inr (s, c') \<longleftrightarrow>
     sized_ok s \<and> (\<exists>r. cursor_rest c = encode_sized s @ r) \<and> c' = advance (length (encode_sized s)) c"
  using sized_str_iff [of c s c'] by (auto simp: read_msg_def split: prod.splits option.splits)

definition rule_ok :: "string \<times> string \<Rightarrow> bool" where
  "rule_ok r \<longleftrightarrow> sized_ok (fst r) \<and> sized_ok (snd r)"

interpretation sized: field_codec "read_msg sized_str" encode_sized sized_ok
  by unfold_locales (rule read_sized_iff)

lemma read_rule_iff:
  assumes ok: "cursor_ok c"
  shows "read_rule what c = Inr (r, c') \<longleftrightarrow>
    rule_ok r \<and> (\<exists>q. cursor_rest c = encode_rule r @ q) \<and> c' = advance (length (encode_rule r)) c"
proof -
  obtain a b where r: "r = (a, b)" by (cases r)
  have ok1: "cursor_ok (advance (length (encode_sized a)) c)" if "cursor_rest c = encode_sized a @ q" for q
    using that ok by (rule cursor_ok_advance)
  have "read_rule what c = Inr (r, c') \<longleftrightarrow>
    (\<exists>c1. read_msg sized_str ''truncated rule suffix'' c = Inr (a, c1) \<and>
          read_msg sized_str ''truncated rule replacement'' c1 = Inr (b, c'))"
    by (auto simp: read_rule_def bind_err_Inr r)
  also have "\<dots> \<longleftrightarrow> rule_ok r \<and> (\<exists>q. cursor_rest c = encode_rule r @ q) \<and> c' = advance (length (encode_rule r)) c"
  proof
    assume "\<exists>c1. read_msg sized_str ''truncated rule suffix'' c = Inr (a, c1) \<and>
          read_msg sized_str ''truncated rule replacement'' c1 = Inr (b, c')"
    then obtain q where "sized_ok a" and q: "cursor_rest c = encode_sized a @ q"
      and "read_msg sized_str ''truncated rule replacement'' (advance (length (encode_sized a)) c) = Inr (b, c')"
      using ok by (auto simp: sized.rd_iff)
    then show "rule_ok r \<and> (\<exists>q. cursor_rest c = encode_rule r @ q) \<and> c' = advance (length (encode_rule r)) c"
      using sized.rd_iff [OF ok1 [OF q]] by (auto simp: r rule_ok_def encode_rule_def add.commute)
  next
    assume "rule_ok r \<and> (\<exists>q. cursor_rest c = encode_rule r @ q) \<and> c' = advance (length (encode_rule r)) c"
    then obtain q where q: "sized_ok a" "sized_ok b" "cursor_rest c = encode_sized a @ encode_sized b @ q"
      "c' = advance (length (encode_sized b)) (advance (length (encode_sized a)) c)"
      by (auto simp: r rule_ok_def encode_rule_def add.commute)
    have "read_msg sized_str ''truncated rule suffix'' c = Inr (a, advance (length (encode_sized a)) c)"
      using q ok by (simp add: sized.rd_iff)
    moreover have "read_msg sized_str ''truncated rule replacement'' (advance (length (encode_sized a)) c) = Inr (b, c')"
      using q sized.rd_iff [OF ok1 [OF q(3)]] by simp
    ultimately show "\<exists>c1. read_msg sized_str ''truncated rule suffix'' c = Inr (a, c1) \<and>
          read_msg sized_str ''truncated rule replacement'' c1 = Inr (b, c')" by blast
  qed
  finally show ?thesis .
qed

interpretation rule: field_codec read_rule encode_rule rule_ok
  by unfold_locales (rule read_rule_iff)

lemma length_u32_of [simp]: "length (u32_of n) = 4"
  by (simp add: u32_of_def)

lemma peek_u32_of [blob_reads]:
  "off = length xs \<Longrightarrow> peek_u32 (cursor_new (xs @ u32_of n @ zs)) off = Some (of_nat n)"
  by (simp add: peek_u32_def cursor_new_def u32_of_def rd_u32_at)

lemma peek_u32_mid: "b = xs @ u32_of n @ zs \<Longrightarrow> off = length xs \<Longrightarrow> peek_u32 (cursor_new b) off = Some (of_nat n)"
  using peek_u32_of by simp

lemma blob_slice_mid: "b = xs @ ys @ zs \<Longrightarrow> off = length xs \<Longrightarrow> len = length ys \<Longrightarrow> blob_slice b off len = Some ys"
  using blob_slice_at by simp

lemmas peek_u32_first = peek_u32_of [of 0 "[]", simplified]

lemma parse_rules_encode:
  assumes "list_all rule_ok rules" and n: "length rules < 2 ^ 32"
  shows "parse_rules (encode_rules rules) = Inr rules"
proof -
  let ?raw = "encode_rules rules" and ?start = "cursor_with_offset (encode_rules rules) 4"
  have "cursor_ok ?start" and rest: "cursor_rest ?start = concat (map encode_rule rules)"
    unfolding encode_rules_def by (rule cursor_at, simp)+
  then have "fold_err (push_field read_rule) ([], ?start) [0..<length rules] =
      Inr (rules, advance (length (concat (map encode_rule rules))) ?start)"
    using assms(1) by (subst rule.rd_all_iff) (auto intro: exI [of _ rules] exI [of _ "[]"])
  moreover have "peek_u32 (cursor_new ?raw) 0 = Some (of_nat (length rules))"
    by (simp add: encode_rules_def peek_u32_first)
  moreover have "?raw \<noteq> []" by (simp add: encode_rules_def u32_of_def le_str_def le_bytes_def)
  ultimately show ?thesis using n by (simp add: parse_rules_def or_msg_def)
qed

definition index_words :: "string list \<Rightarrow> string list" where
  "index_words words = filter (\<lambda>w. w \<noteq> []) (remdups_adj (sort words))"

lemma parse_index_encode:
  assumes "length (encode_index words) < 2 ^ 32"
  shows "parse_index (encode_index words) = Inr (terminated NUL (index_words words))"
proof -
  let ?body = "terminated NUL (index_words words)" and ?n = "length (remdups_adj (sort words))"
  have enc: "encode_index words = u32_of ?n @ u32_of (length ?body) @ ?body"
    by (simp add: encode_index_def index_words_def Let_def)
  have "length ?body < 2 ^ 32" using assms by (simp add: enc)
  moreover have "peek_u32 (cursor_new (encode_index words)) 0 = Some (of_nat ?n)" by (simp add: enc peek_u32_first)
  moreover have "peek_u32 (cursor_new (encode_index words)) 4 = Some (of_nat (length ?body))"
    unfolding enc by (rule peek_u32_of) simp
  moreover have "blob_slice (encode_index words) 8 (length ?body) = Some ?body"
    using blob_slice_at [of 8 "u32_of ?n @ u32_of (length ?body)" "length ?body" ?body "[]"] by (simp add: enc)
  moreover have "encode_index words \<noteq> []" using arg_cong [OF enc, of length] by auto
  ultimately show ?thesis by (simp add: parse_index_def or_msg_def)
qed

text \<open>The sections of an exception table, in closed form.\<close>

definition exc_lemmas :: "string \<times> string list \<Rightarrow> string" where
  "exc_lemmas e = terminated NUL (filter (\<lambda>l. l \<noteq> []) (snd e))"

definition lemmas_upto :: "(string \<times> string list) list \<Rightarrow> nat \<Rightarrow> string" where
  "lemmas_upto es i = concat (map exc_lemmas (take i es))"

lemma add_exc_eq: "add_exc (s, os, l) e = (s @ fst e @ [NUL], os @ [length l], l @ exc_lemmas e)"
  by (simp add: add_exc_def exc_lemmas_def)

lemma foldl_add_exc:
  "foldl add_exc (s, os, l) es =
     (s @ terminated NUL (map fst es), os @ map (\<lambda>i. length l + length (lemmas_upto es i)) [0..<length es],
      l @ lemmas_upto es (length es))"
proof (induction es arbitrary: s os l)
  case (Cons e es)
  have "map (\<lambda>i. length l + length (lemmas_upto (e # es) i)) [0..<Suc (length es)] =
      length l # map (\<lambda>i. length (l @ exc_lemmas e) + length (lemmas_upto es i)) [0..<length es]"
    by (simp add: upt_conv_Cons map_Suc_upt [symmetric] lemmas_upto_def del: upt_Suc)
  then show ?case by (simp add: Cons.IH add_exc_eq lemmas_upto_def del: upt_Suc)
qed (simp add: lemmas_upto_def)

definition exc_parts :: "(string \<times> string list) list \<Rightarrow> exc_section" where
  "exc_parts es =
     \<lparr>ex_n = length es, ex_surfaces = terminated NUL (map fst es),
      ex_offsets = concat (map (\<lambda>i. u32_of (length (lemmas_upto es i))) [0..<length es]),
      ex_lemmas = lemmas_upto es (length es)\<rparr>"

lemma length_concat_u32_of [simp]: "length (concat (map (\<lambda>i. u32_of (f i)) xs)) = length xs * 4"
  by (induction xs) auto

lemma parse_exc_encode:
  assumes "length (encode_exc table) < 2 ^ 32"
  shows "parse_exc (encode_exc table) = Inr (exc_parts (sort_key fst table))"
proof -
  define es where "es = sort_key fst table"
  let ?s = "terminated NUL (map fst es)" and ?l = "lemmas_upto es (length es)"
  let ?o = "concat (map (\<lambda>i. u32_of (length (lemmas_upto es i))) [0..<length es])"
  have enc: "encode_exc table = u32_of (length es) @ u32_of (length ?s) @ ?s @ u32_of (length es * 4) @ ?o @ u32_of (length ?l) @ ?l"
    by (simp add: encode_exc_def foldl_add_exc comp_def Let_def flip: es_def)
  have small: "length ?s < 2 ^ 32" "length ?l < 2 ^ 32" "length es * 4 < 2 ^ 32" using assms by (simp_all add: enc)
  then have n: "length es < 2 ^ 32" by simp
  let ?c = "cursor_new (encode_exc table)"
  have reads: "peek_u32 ?c 0 = Some (of_nat (length es))" "peek_u32 ?c 4 = Some (of_nat (length ?s))"
    by (simp add: enc peek_u32_first) (unfold enc, rule peek_u32_of, simp)
  have s: "blob_slice (encode_exc table) 8 (length ?s) = Some ?s"
    by (rule blob_slice_mid [where xs = "u32_of (length es) @ u32_of (length ?s)"]) (simp_all add: enc)
  let ?p = "u32_of (length es) @ u32_of (length ?s) @ ?s"
  have enc2: "encode_exc table = ?p @ u32_of (length es * 4) @ ?o @ u32_of (length ?l) @ ?l" by (simp add: enc)
  have o1: "peek_u32 ?c (8 + length ?s) = Some (of_nat (length es * 4))" by (rule peek_u32_mid [OF enc2]) simp
  have enc3: "encode_exc table = (?p @ u32_of (length es * 4)) @ ?o @ u32_of (length ?l) @ ?l" by (simp add: enc)
  have o2: "blob_slice (encode_exc table) (8 + length ?s + 4) (length es * 4) = Some ?o" by (rule blob_slice_mid [OF enc3]) simp_all
  have enc4: "encode_exc table = (?p @ u32_of (length es * 4) @ ?o) @ u32_of (length ?l) @ ?l" by (simp add: enc)
  have l1: "peek_u32 ?c (8 + length ?s + 4 + length es * 4) = Some (of_nat (length ?l))" by (rule peek_u32_mid [OF enc4]) simp
  have enc5: "encode_exc table = (?p @ u32_of (length es * 4) @ ?o @ u32_of (length ?l)) @ ?l @ []" by (simp add: enc)
  have l2: "blob_slice (encode_exc table) (8 + length ?s + 8 + length es * 4) (length ?l) = Some ?l"
    by (rule blob_slice_mid [OF enc5]) simp_all
  have "encode_exc table \<noteq> []" using arg_cong [OF enc, of length] by auto
  moreover have "unat (of_nat (length es) * 4 :: 32 word) = length es * 4" using unat_u32 [OF small(3)] by simp
  ultimately show ?thesis using small n reads s o1 o2 l1 l2
    by (simp add: parse_exc_def or_msg_def exc_parts_def Let_def flip: es_def)
qed

text \<open>The directory of a list of keys whose sections start at an offset.\<close>

definition key_sections :: "lemma_tables \<Rightarrow> string \<Rightarrow> string" where
  "key_sections t k = rules_bytes t k @ index_bytes t k @ exc_bytes t k"

definition dir_entry :: "lemma_tables \<Rightarrow> nat \<Rightarrow> string \<Rightarrow> string" where
  "dir_entry t off k =
     encode_sized k @ u32_of off @ u32_of (length (rules_bytes t k)) @ u32_of (off + length (rules_bytes t k)) @
     u32_of (length (index_bytes t k)) @ u32_of (off + length (rules_bytes t k) + length (index_bytes t k)) @
     u32_of (length (exc_bytes t k))"

fun directory :: "lemma_tables \<Rightarrow> nat \<Rightarrow> string list \<Rightarrow> string" where
  "directory t off [] = []"
| "directory t off (k # ks) = dir_entry t off k @ directory t (off + length (key_sections t k)) ks"

lemma foldl_build_entry:
  "foldl (build_entry t) (off, dir, secs) ks =
     (off + length (concat (map (key_sections t) ks)), dir @ directory t off ks, secs @ concat (map (key_sections t) ks))"
proof (induction ks arbitrary: off dir secs)
  case (Cons k ks)
  have "build_entry t (off, dir, secs) k =
      (off + length (key_sections t k), dir @ dir_entry t off k, secs @ key_sections t k)"
    by (simp add: build_entry_def Let_def dir_entry_def key_sections_def add.assoc)
  then show ?case by (simp add: Cons.IH add.assoc)
qed simp

lemma length_dir_entry: "length (dir_entry t off k) = 1 + length k + 24"
  by (simp add: dir_entry_def)

lemma length_directory: "length (directory t off ks) = sum_list (map (\<lambda>k. 1 + length k + 6 * 4) ks)"
  by (induction ks arbitrary: off) (simp_all add: length_dir_entry)

lemma length_directory_ge: "length ks \<le> length (directory t off ks)"
  by (induction ks arbitrary: off) (auto simp: length_dir_entry intro: le_SucI trans_le_add2)

lemma lemma_payload_eq:
  "lemma_payload t =
     directory t (44 + length (directory t 0 (lt_keys t))) (lt_keys t) @ concat (map (key_sections t) (lt_keys t))"
  unfolding lemma_payload_def length_directory [of t 0, symmetric] by (simp add: foldl_build_entry Let_def)

definition entry_of :: "lemma_tables \<Rightarrow> string \<Rightarrow> pos_entry" where
  "entry_of t k =
     \<lparr>pe_key = k, pe_rules = the (map_of (lt_rules t) k),
      pe_index = (case map_of (lt_index t) k of None \<Rightarrow> [] | Some v \<Rightarrow> terminated NUL (index_words v)),
      pe_exc = (case map_of (lt_exc t) k of
        None \<Rightarrow> \<lparr>ex_n = 0, ex_surfaces = [], ex_offsets = [], ex_lemmas = []\<rparr> | Some v \<Rightarrow> exc_parts (sort_key fst v))\<rparr>"

definition key_ok :: "lemma_tables \<Rightarrow> string \<Rightarrow> bool" where
  "key_ok t k \<longleftrightarrow> sized_ok k \<and> list_all rule_ok (the (map_of (lt_rules t) k))"

lemma length_encode_rules: "length rules \<le> length (encode_rules rules)"
proof -
  have "length rules \<le> length (concat (map encode_rule rules))" for rules :: "(string \<times> string) list"
    by (induction rules) (auto simp: encode_rule_def)
  then show ?thesis by (simp add: encode_rules_def trans_le_add2)
qed

lemma empty_sections:
  "parse_index [] = Inr []" "parse_exc [] = Inr \<lparr>ex_n = 0, ex_surfaces = [], ex_offsets = [], ex_lemmas = []\<rparr>"
  by (simp_all add: parse_index_def parse_exc_def)

lemma parse_sections:
  assumes ok: "key_ok t k" and small: "length (key_sections t k) < 2 ^ 32"
  shows "parse_rules (rules_bytes t k) = Inr (pe_rules (entry_of t k))"
    and "parse_index (index_bytes t k) = Inr (pe_index (entry_of t k))"
    and "parse_exc (exc_bytes t k) = Inr (pe_exc (entry_of t k))"
proof -
  have len: "length (rules_bytes t k) < 2 ^ 32" "length (index_bytes t k) < 2 ^ 32" "length (exc_bytes t k) < 2 ^ 32"
    using small by (simp_all add: key_sections_def)
  show "parse_rules (rules_bytes t k) = Inr (pe_rules (entry_of t k))"
    using parse_rules_encode [of "the (map_of (lt_rules t) k)"] length_encode_rules [of "the (map_of (lt_rules t) k)"] ok len
    by (simp add: key_ok_def rules_bytes_def entry_of_def)
  show "parse_index (index_bytes t k) = Inr (pe_index (entry_of t k))"
    using parse_index_encode len by (auto simp: index_bytes_def entry_of_def empty_sections split: option.splits)
  show "parse_exc (exc_bytes t k) = Inr (pe_exc (entry_of t k))"
    using parse_exc_encode len by (auto simp: exc_bytes_def entry_of_def empty_sections split: option.splits)
qed

lemma read_usize_at:
  assumes "cursor_ok c" and "cursor_rest c = u32_of n @ r" and "n < 2 ^ 32"
  shows "read_msg usize_le m c = Inr (n, advance 4 c)"
proof -
  have "u32_le c = (Some (of_nat n), advance 4 c)" using assms by (simp add: u32_le_iff u32_of_def)
  then show ?thesis using assms(3) by (simp add: read_msg_def usize_le_def)
qed

lemma read_entry_at:
  assumes ok: "cursor_ok c" and rest: "cursor_rest c = dir_entry t off k @ r"
    and data: "data = pre @ key_sections t k @ post" and off: "off = length pre"
    and key: "key_ok t k" and small: "off + length (key_sections t k) < 2 ^ 32"
  shows "read_entry data what c = Inr (entry_of t k, advance (length (dir_entry t off k)) c)"
proof -
  let ?r = "rules_bytes t k" and ?x = "index_bytes t k" and ?e = "exc_bytes t k"
  define n0 where "n0 = 1 + length k"
  note lens = small [unfolded key_sections_def]
  have key_read: "read_msg sized_str ''truncated pos key'' c = Inr (k, advance n0 c)"
    using ok rest key sized.rd_iff [OF ok, of "''truncated pos key''" k] by (simp add: dir_entry_def key_ok_def n0_def)
  have okn: "cursor_ok (advance (length s) c)" if "dir_entry t off k = s @ s'" for s s'
    by (rule cursor_ok_advance [OF _ ok]) (simp add: rest that)
  let ?sized = "encode_sized k"
  have ok0: "cursor_ok (advance n0 c)" using okn [of ?sized] by (simp add: dir_entry_def n0_def add.commute)
  have ok1: "cursor_ok (advance (n0 + 4) c)" using okn [of "?sized @ u32_of off"] by (simp add: dir_entry_def n0_def add.commute)
  have ok2: "cursor_ok (advance (n0 + 8) c)" using okn [of "?sized @ u32_of off @ u32_of (length ?r)"] by (simp add: dir_entry_def n0_def add.commute)
  have ok3: "cursor_ok (advance (n0 + 12) c)"
    using okn [of "?sized @ u32_of off @ u32_of (length ?r) @ u32_of (off + length ?r)"] by (simp add: dir_entry_def n0_def add.commute)
  have ok4: "cursor_ok (advance (n0 + 16) c)"
    using okn [of "?sized @ u32_of off @ u32_of (length ?r) @ u32_of (off + length ?r) @ u32_of (length ?x)"] by (simp add: dir_entry_def n0_def add.commute)
  have ok5: "cursor_ok (advance (n0 + 20) c)"
    using okn [of "?sized @ u32_of off @ u32_of (length ?r) @ u32_of (off + length ?r) @ u32_of (length ?x) @ u32_of (off + length ?r + length ?x)"]
    by (simp add: dir_entry_def n0_def add.commute)
  have reads: "read_msg usize_le m0 (advance n0 c) = Inr (off, advance (n0 + 4) c)"
    "read_msg usize_le m1 (advance (n0 + 4) c) = Inr (length ?r, advance (n0 + 8) c)"
    "read_msg usize_le m2 (advance (n0 + 8) c) = Inr (off + length ?r, advance (n0 + 12) c)"
    "read_msg usize_le m3 (advance (n0 + 12) c) = Inr (length ?x, advance (n0 + 16) c)"
    "read_msg usize_le m4 (advance (n0 + 16) c) = Inr (off + length ?r + length ?x, advance (n0 + 20) c)"
    "read_msg usize_le m5 (advance (n0 + 20) c) = Inr (length ?e, advance (n0 + 24) c)" for m0 m1 m2 m3 m4 m5
    using read_usize_at [OF ok0, of off] read_usize_at [OF ok1, of "length ?r"] read_usize_at [OF ok2, of "off + length ?r"]
      read_usize_at [OF ok3, of "length ?x"] read_usize_at [OF ok4, of "off + length ?r + length ?x"] read_usize_at [OF ok5, of "length ?e"]
      lens rest by (simp_all add: dir_entry_def n0_def)
  have "blob_slice data off (length ?r) = Some ?r"
    by (rule blob_slice_mid [where xs = pre]) (simp_all add: data off key_sections_def)
  moreover have "blob_slice data (off + length ?r) (length ?x) = Some ?x"
    by (rule blob_slice_mid [where xs = "pre @ ?r"]) (simp_all add: data off key_sections_def)
  moreover have "blob_slice data (off + length ?r + length ?x) (length ?e) = Some ?e"
    by (rule blob_slice_mid [where xs = "pre @ ?r @ ?x"]) (simp_all add: data off key_sections_def)
  moreover note parse_sections [OF key]
  ultimately show ?thesis
    using small by (simp add: read_entry_def key_read reads or_msg_def) (simp add: length_dir_entry n0_def entry_of_def)
qed

lemma read_directory:
  assumes "cursor_ok c" and "cursor_rest c = directory t off ks @ r"
    and "data = pre @ concat (map (key_sections t) ks) @ post" and "off = length pre"
    and "list_all (key_ok t) ks" and "off + length (concat (map (key_sections t) ks)) < 2 ^ 32" and "length whats = length ks"
  shows "fold_err (push_field (read_entry data)) (xs, c) whats =
    Inr (xs @ map (entry_of t) ks, advance (length (directory t off ks)) c)"
  using assms
proof (induction ks arbitrary: xs c off pre whats)
  case (Cons k ks)
  obtain w ws where w: "whats = w # ws" "length ws = length ks" using Cons.prems(7) by (cases whats) auto
  let ?off' = "off + length (key_sections t k)"
  have "read_entry data w c = Inr (entry_of t k, advance (length (dir_entry t off k)) c)"
    by (rule read_entry_at [OF Cons.prems(1), where r = "directory t ?off' ks @ r" and pre = pre
          and post = "concat (map (key_sections t) ks) @ post"]) (use Cons.prems in auto)
  moreover have "cursor_ok (advance (length (dir_entry t off k)) c)"
    by (rule cursor_ok_advance [OF _ Cons.prems(1)]) (simp add: Cons.prems(2))
  then have "fold_err (push_field (read_entry data)) (xs @ [entry_of t k], advance (length (dir_entry t off k)) c) ws =
      Inr ((xs @ [entry_of t k]) @ map (entry_of t) ks,
           advance (length (directory t ?off' ks)) (advance (length (dir_entry t off k)) c))"
    by (rule Cons.IH [where pre = "pre @ key_sections t k"]) (use Cons.prems w in auto)
  ultimately show ?case by (simp add: w push_field_Inr)
qed simp

section \<open>Looking up what was built\<close>

lemma remdups_adj_strict: "sorted xs \<Longrightarrow> sorted_wrt (<) (remdups_adj (xs :: 'a::linorder list))"
proof (induction xs rule: remdups_adj.induct)
  case (3 x y xs)
  then show ?case by (auto simp: order.strict_iff_order intro: order.trans)
qed auto

lemma index_words_list:
  "list_all (\<lambda>w. NUL \<notin> set w) ws \<Longrightarrow> word_list (index_words ws)"
  "set (index_words ws) = set ws - {[]}"
proof -
  have "sorted_wrt (<) (index_words ws)"
    unfolding index_words_def by (rule sorted_wrt_filter, rule remdups_adj_strict, simp)
  then show "list_all (\<lambda>w. NUL \<notin> set w) ws \<Longrightarrow> word_list (index_words ws)"
    by (auto simp: word_list_def index_words_def list_all_iff)
qed (auto simp: index_words_def)

lemma find_nth_iff: "find (\<lambda>k. ws ! k = t) [0..<length ws] \<noteq> None \<longleftrightarrow> t \<in> set ws"
  by (auto simp: find_None_iff in_set_conv_nth)

lemma rd_u32_mid: "b = xs @ u32_of n @ zs \<Longrightarrow> off = length xs \<Longrightarrow> rd_u32 b off = Some (of_nat n)"
  by (simp add: u32_of_def rd_u32_at)

lemma rd_u32_table:
  "i < length xs \<Longrightarrow> rd_u32 (concat (map (\<lambda>j. u32_of (f j)) xs)) (i * 4) = Some (of_nat (f (xs ! i)))"
proof -
  assume i: "i < length xs"
  have "concat (map (\<lambda>j. u32_of (f j)) xs) =
      concat (map (\<lambda>j. u32_of (f j)) (take i xs)) @ u32_of (f (xs ! i)) @ concat (map (\<lambda>j. u32_of (f j)) (drop (Suc i) xs))"
    by (metis (no_types, lifting) concat.simps(2) concat_append id_take_nth_drop [OF i] list.simps(9) map_append)
  then show ?thesis by (rule rd_u32_mid) (use i in simp)
qed

lemma lemmas_upto_Suc: "i < length es \<Longrightarrow> lemmas_upto es (Suc i) = lemmas_upto es i @ exc_lemmas (es ! i)"
  by (simp add: lemmas_upto_def take_Suc_conv_app_nth)

lemma lemmas_upto_prefix: "i \<le> length es \<Longrightarrow> \<exists>r. lemmas_upto es (length es) = lemmas_upto es i @ r"
  by (intro exI [of _ "concat (map exc_lemmas (drop i es))"])
     (simp add: lemmas_upto_def flip: concat_append map_append)

lemma exc_slice:
  assumes i: "i < length es" and small: "length (lemmas_upto es (length es)) < 2 ^ 32"
  shows "(case rd_u32 (ex_offsets (exc_parts es)) (i * 4) of
      None \<Rightarrow> None
    | Some start \<Rightarrow>
        (case if i + 1 < ex_n (exc_parts es) then map_option unat (rd_u32 (ex_offsets (exc_parts es)) ((i + 1) * 4))
              else Some (length (ex_lemmas (exc_parts es))) of
           None \<Rightarrow> None
         | Some stop \<Rightarrow> byte_range (ex_lemmas (exc_parts es)) (unat start) stop)) = Some (exc_lemmas (es ! i))"
proof -
  let ?L = "lemmas_upto es (length es)" and ?at = "\<lambda>i. length (lemmas_upto es i)"
  have le: "?at j \<le> length ?L" if "j \<le> length es" for j using lemmas_upto_prefix [OF that] by auto
  have read: "rd_u32 (ex_offsets (exc_parts es)) (j * 4) = Some (of_nat (?at j))" if "j < length es" for j
    using rd_u32_table [of j "[0..<length es]"] that by (simp add: exc_parts_def)
  have unat: "unat (of_nat (?at j) :: 32 word) = ?at j" if "j \<le> length es" for j
    using le [OF that] small by simp
  have stop: "(if i + 1 < ex_n (exc_parts es) then map_option unat (rd_u32 (ex_offsets (exc_parts es)) ((i + 1) * 4))
              else Some (length (ex_lemmas (exc_parts es)))) = Some (?at (Suc i))"
    using read [of "i + 1"] unat [of "Suc i"] i by (cases "Suc i = length es") (auto simp: exc_parts_def)
  obtain r where "?L = lemmas_upto es i @ exc_lemmas (es ! i) @ r"
    using lemmas_upto_prefix [of "Suc i" es] lemmas_upto_Suc i by auto
  then have "byte_range ?L (?at i) (?at (Suc i)) = Some (exc_lemmas (es ! i))"
    by (simp add: byte_range_append lemmas_upto_Suc i)
  then show ?thesis unfolding stop read [OF i] using i by (simp add: unat exc_parts_def)
qed

lemma find_entry_built:
  "find_entry (map (entry_of t) ks) key = (if key \<in> set ks then Some (entry_of t key) else None)"
  by (induction ks) (auto simp: find_entry_def entry_of_def)

definition exc_table_ok :: "(string \<times> string list) list \<Rightarrow> bool" where
  "exc_table_ok table \<longleftrightarrow> distinct (map fst table) \<and> list_all (\<lambda>e. fst e \<noteq> [] \<and> NUL \<notin> set (fst e)) table"

lemma exc_lookup:
  assumes ok: "exc_table_ok table" and small: "length (lemmas_upto (sort_key fst table) (length table)) < 2 ^ 32"
    and p: "find_entry blob key = Some p" "pe_exc p = exc_parts (sort_key fst table)"
  shows "exc_for blob key surface = Some (map_option (\<lambda>ls. terminated NUL (filter (\<lambda>l. l \<noteq> []) ls)) (map_of table surface))"
proof -
  define es where "es = sort_key fst table"
  have len: "length es = length table" and set_es: "set es = set table" by (simp_all add: es_def)
  have dist: "distinct (map fst es)" using ok mset_map [of fst] by (metis es_def exc_table_ok_def mset_eq_imp_distinct_iff mset_map mset_sort)
  have "sorted (map fst es)" by (simp add: es_def)
  then have wl: "word_list (map fst es)" using ok dist set_es
    by (auto simp: word_list_def strict_sorted_iff exc_table_ok_def list_all_iff)
  note search = bsearch_words_spec [OF wl, of surface]
  show ?thesis
  proof (cases "find (\<lambda>k. map fst es ! k = surface) [0..<length (map fst es)]")
    case None
    then have "surface \<notin> fst ` set table" using find_nth_iff [of "map fst es" surface] set_es by auto
    then have "map_of table surface = None" by (simp add: map_of_eq_None_iff)
    with None search p show ?thesis by (simp add: exc_for_def exc_parts_def flip: es_def)
  next
    case (Some i)
    then have i: "i < length es" "fst (es ! i) = surface" by (auto dest!: find_SomeD)
    then have "(surface, snd (es ! i)) \<in> set table" using set_es by (metis nth_mem prod.collapse)
    then have "map_of table surface = Some (snd (es ! i))" using ok by (simp add: exc_table_ok_def)
    moreover have b: "bsearch_words (ex_surfaces (exc_parts es)) surface = Some (Some i)"
      using search Some by (simp add: exc_parts_def)
    have "exc_for blob key surface = Some (Some (exc_lemmas (es ! i)))"
      unfolding exc_for_def p(1) option.case p(2) es_def [symmetric] b
      using exc_slice [OF i(1)] small len by (simp only: es_def [symmetric])
    ultimately show ?thesis by (simp add: exc_lemmas_def)
  qed
qed

definition tables_ok :: "lemma_tables \<Rightarrow> bool" where
  "tables_ok t \<longleftrightarrow>
     list_all (key_ok t) (map fst (lt_rules t)) \<and>
     list_all (\<lambda>e. list_all (\<lambda>w. NUL \<notin> set w) (snd e)) (lt_index t) \<and>
     list_all (\<lambda>e. exc_table_ok (snd e)) (lt_exc t)"

lemma lemma_build_shape:
  assumes sha: "length (sha (lemma_payload t)) = 32"
  shows "\<exists>head foot. lemma_build crc sha h t = head @ lemma_payload t @ foot \<and> length head = 44"
  unfolding lemma_build_def Let_def
  by (rule exI [of _ "le_str 4 BLOB_MAGIC_SLM2 @ le_str 2 (1 :: 16 word) @ le_str 2 (2 :: 16 word) @ le_str 8 h @
        u32_of (length (lt_keys t)) @ u32_of 44 @ le_str 4 (crc (lemma_payload t)) @ take 16 (sha (lemma_payload t))"], rule exI)
     (use sha in simp)

lemma lemma_header_built:
  assumes n: "length (lt_keys t) < 2 ^ 32"
  shows "lemma_header (lemma_build crc sha h t) = Inr (length (lt_keys t), 44)"
proof -
  let ?a = "le_str 4 BLOB_MAGIC_SLM2" and ?b = "le_str 2 (1 :: 16 word)" and ?c = "le_str 2 (2 :: 16 word)"
  let ?d = "le_str 8 h" and ?k = "u32_of (length (lt_keys t))"
  obtain rest where data: "lemma_build crc sha h t = ?a @ ?b @ ?c @ ?d @ ?k @ u32_of 44 @ rest" by (simp add: lemma_build_def Let_def)
  have "rd_u32 (lemma_build crc sha h t) 0 = Some BLOB_MAGIC_SLM2"
    using rd_u32_at [of 0 "[]" BLOB_MAGIC_SLM2] by (simp add: data)
  moreover have "rd_u16 (lemma_build crc sha h t) 4 = Some 1" unfolding data by (rule rd_u16_at) simp
  moreover have "rd_u16 (lemma_build crc sha h t) 6 = Some 2"
    using rd_u16_at [of 6 "?a @ ?b"] by (simp add: data)
  moreover have "rd_u32 (lemma_build crc sha h t) 16 = Some (of_nat (length (lt_keys t)))"
    by (rule rd_u32_mid [of _ "?a @ ?b @ ?c @ ?d"]) (simp_all add: data)
  moreover have "rd_u32 (lemma_build crc sha h t) 20 = Some (of_nat 44)"
    by (rule rd_u32_mid [of _ "?a @ ?b @ ?c @ ?d @ ?k"]) (simp_all add: data)
  ultimately show "lemma_header (lemma_build crc sha h t) = Inr (length (lt_keys t), 44)"
    using n by (simp add: lemma_header_def Let_def peek_u32_def peek_u16_def cursor_new_def or_msg_def BLOB_VERSION_SLM2_def)
qed

lemma lemma_from_bytes_built:
  assumes ok: "tables_ok t" and small: "length (lemma_build crc sha h t) < 2 ^ 32" and sha: "length (sha (lemma_payload t)) = 32"
  shows "lemma_from_bytes (lemma_build crc sha h t) = Inr (map (entry_of t) (lt_keys t))"
proof -
  let ?data = "lemma_build crc sha h t" and ?ks = "lt_keys t"
  let ?off = "44 + length (directory t 0 ?ks)"
  let ?dir = "directory t ?off ?ks" and ?secs = "concat (map (key_sections t) ?ks)"
  obtain head foot where data: "?data = head @ ?dir @ ?secs @ foot" and head: "length head = 44"
    using lemma_build_shape [of sha t crc h] sha by (auto simp: lemma_payload_eq)
  have dlen: "length ?dir = length (directory t 0 ?ks)" by (simp add: length_directory)
  have "length ?ks \<le> length ?dir" by (rule length_directory_ge)
  moreover have bound: "44 + length ?dir + length ?secs < 2 ^ 32" using small by (simp add: data head)
  ultimately have n: "length ?ks < 2 ^ 32" by linarith
  have "cursor_ok (cursor_with_offset ?data 44)" and "cursor_rest (cursor_with_offset ?data 44) = ?dir @ ?secs @ foot"
    unfolding data by (rule cursor_at, simp add: head)+
  then have "fold_err (push_field (read_entry ?data)) ([], cursor_with_offset ?data 44) [0..<length ?ks] =
      Inr ([] @ map (entry_of t) ?ks, advance (length ?dir) (cursor_with_offset ?data 44))"
    by (rule read_directory [where pre = "head @ ?dir" and post = foot])
       (use ok bound head dlen in \<open>auto simp: data tables_ok_def lt_keys_def list_all_iff\<close>)
  then show ?thesis by (simp add: lemma_from_bytes_def lemma_header_built [OF n])
qed

lemma sections_within:
  assumes "k \<in> set (lt_keys t)" and "length (lemma_build crc sha h t) < 2 ^ 32" and "length (sha (lemma_payload t)) = 32"
  shows "length (key_sections t k) < 2 ^ 32"
proof -
  have "length (key_sections t k) \<le> length (concat (map (key_sections t) (lt_keys t)))"
    using assms(1) by (auto simp: length_concat intro!: member_le_sum_list)
  then show ?thesis using lemma_build_shape [of sha t crc h] assms(2,3) by (auto simp: lemma_payload_eq)
qed

lemma entry_of_parts:
  "pe_index (entry_of t k) = terminated NUL (index_words (hm_get_or (lt_index t) k []))"
  "pe_exc (entry_of t k) = exc_parts (sort_key fst (hm_get_or (lt_exc t) k []))"
  by (auto simp: entry_of_def hm_get_or_def hm_get_def index_words_def exc_parts_def lemmas_upto_def split: option.splits)

lemma exc_lemmas_within:
  assumes "length (exc_bytes t k) < 2 ^ 32" and "map_of (lt_exc t) k = Some table"
  shows "length (lemmas_upto (sort_key fst table) (length table)) < 2 ^ 32"
  using assms by (simp add: exc_bytes_def encode_exc_def foldl_add_exc Let_def)

lemma lemma_blob_queries:
  assumes ok: "tables_ok t" and small: "length (lemma_build crc sha h t) < 2 ^ 32" and sha: "length (sha (lemma_payload t)) = 32"
  shows "\<exists>blob. lemma_from_bytes (lemma_build crc sha h t) = Inr blob \<and>
    (\<forall>pos. lb_has_pos blob pos \<longleftrightarrow> upos_str pos \<in> fst ` set (lt_rules t)) \<and>
    (\<forall>key rules. map_of (lt_rules t) key = Some rules \<longrightarrow>
       lb_rules blob key = rules \<and>
       (\<forall>w. index_contains blob key w = Some (w \<noteq> [] \<and> w \<in> set (hm_get_or (lt_index t) key []))) \<and>
       (\<forall>s. exc_for blob key s =
          Some (map_option (\<lambda>ls. terminated NUL (filter (\<lambda>l. l \<noteq> []) ls)) (map_of (hm_get_or (lt_exc t) key []) s))))"
proof (intro exI conjI allI impI)
  let ?blob = "map (entry_of t) (lt_keys t)"
  show "lemma_from_bytes (lemma_build crc sha h t) = Inr ?blob" by (rule lemma_from_bytes_built [OF ok small]) (rule sha)
  show "lb_has_pos ?blob pos \<longleftrightarrow> upos_str pos \<in> fst ` set (lt_rules t)" for pos
    by (auto simp: lb_has_pos_def list_ex_iff entry_of_def lt_keys_def)
  fix key rules assume r: "map_of (lt_rules t) key = Some rules"
  then have key: "key \<in> set (lt_keys t)" by (auto simp: lt_keys_def dest: map_of_SomeD intro: rev_image_eqI)
  then have entry: "find_entry ?blob key = Some (entry_of t key)" by (simp add: find_entry_built)
  show "lb_rules ?blob key = rules" using entry r by (simp add: lb_rules_def) (simp add: entry_of_def)
  show "index_contains ?blob key w = Some (w \<noteq> [] \<and> w \<in> set (hm_get_or (lt_index t) key []))" for w
  proof -
    have "list_all (\<lambda>w. NUL \<notin> set w) (hm_get_or (lt_index t) key [])"
      by (rule hm_get_or_all) (use ok in \<open>simp_all add: tables_ok_def\<close>)
    from bsearch_words_spec [OF index_words_list(1) [OF this], of w] show ?thesis
      using find_nth_iff [of "index_words (hm_get_or (lt_index t) key [])" w]
      by (auto simp: index_contains_def entry entry_of_parts index_words_list(2) simp del: not_None_eq)
  qed
  show "exc_for ?blob key s =
      Some (map_option (\<lambda>ls. terminated NUL (filter (\<lambda>l. l \<noteq> []) ls)) (map_of (hm_get_or (lt_exc t) key []) s))" for s
  proof (rule exc_lookup [OF _ _ entry entry_of_parts(2)])
    have "length (exc_bytes t key) < 2 ^ 32" using sections_within [of key t crc sha h] key small sha by (simp add: key_sections_def)
    from exc_lemmas_within [OF this] show "length (lemmas_upto (sort_key fst (hm_get_or (lt_exc t) key [])) (length (hm_get_or (lt_exc t) key []))) < 2 ^ 32"
      by (auto simp: hm_get_or_def hm_get_def lemmas_upto_def split: option.splits)
    show "exc_table_ok (hm_get_or (lt_exc t) key [])"
      by (rule hm_get_or_all) (use ok in \<open>simp_all add: tables_ok_def exc_table_ok_def\<close>)
  qed
qed

text \<open>
  C6. Loading a lemma blob that the build script wrote gives back its tables: every key has its suffix rules, the
  search in its NUL-joined index finds exactly the nonempty words of the index, and the search in its exceptions
  returns exactly the lemmas listed for a surface. The tables must respect the format (keys and suffixes of at most
  255 bytes, words without NUL, nonempty surfaces listed once) and the blob 32-bit offsets.
\<close>

theorem lemma_blob_roundtrip:
  assumes ok: "tables_ok t" and small: "length (lemma_build crc sha h t) < 2 ^ 32" and sha: "length (sha (lemma_payload t)) = 32"
  shows "\<exists>blob. lemma_from_bytes (lemma_build crc sha h t) = Inr blob \<and>
    (\<forall>pos. lb_has_pos blob pos \<longleftrightarrow> upos_str pos \<in> fst ` set (lt_rules t)) \<and>
    (\<forall>key rules. map_of (lt_rules t) key = Some rules \<longrightarrow>
       lb_rules blob key = rules \<and>
       (\<forall>w. index_contains blob key w = Some (w \<noteq> [] \<and> w \<in> set (hm_get_or (lt_index t) key []))) \<and>
       (\<forall>s. exc_for blob key s =
          Some (map_option (\<lambda>ls. terminated NUL (filter (\<lambda>l. l \<noteq> []) ls)) (map_of (hm_get_or (lt_exc t) key []) s))))"
  by (rule lemma_blob_queries [OF assms])

definition sample_tables :: lemma_tables where
  "sample_tables =
     \<lparr>lt_rules = [(''verb'', [(''ing'', []), (''ed'', ''e'')]), (''noun'', [(''s'', [])])],
      lt_index = [(''noun'', [''dog'', ''cat'', [], ''dog''])],
      lt_exc = [(''verb'', [(''went'', [''go'']), (''am'', [''be'', []])])]\<rparr>"

lemma sample_tables_ok:
  "tables_ok sample_tables" "length (lemma_build (\<lambda>_. 0) (\<lambda>_. replicate 32 CHR ''x'') 7 sample_tables) < 2 ^ 32"
proof -
  show "tables_ok sample_tables" by code_simp
  have keys: "lt_keys sample_tables = [''noun'', ''verb'']"
    and index: "remdups_adj (sort [''dog'', ''cat'', [], ''dog'']) = [[], ''cat'', ''dog'']"
    and exc: "sort_key fst [(''went'', [''go'']), (''am'', [''be'', []])] = [(''am'', [''be'', []]), (''went'', [''go''])]"
    by code_simp+
  have "length (lemma_payload sample_tables) < 200"
    by (simp add: lemma_payload_eq length_dir_entry keys key_sections_def rules_bytes_def index_bytes_def exc_bytes_def)
       (simp add: sample_tables_def encode_rules_def encode_rule_def encode_index_def encode_exc_def index exc add_exc_def Let_def)
  then show "length (lemma_build (\<lambda>_. 0) (\<lambda>_. replicate 32 CHR ''x'') 7 sample_tables) < 2 ^ 32"
    by (simp add: lemma_build_def Let_def)
qed

theorem lemma_blob_roundtrip_witness:
  "\<exists>blob. lemma_from_bytes (lemma_build (\<lambda>_. 0) (\<lambda>_. replicate 32 CHR ''x'') 7 sample_tables) = Inr blob \<and>
     lb_rules blob ''noun'' = [(''s'', [])] \<and> index_contains blob ''noun'' ''cat'' = Some True \<and>
     index_contains blob ''noun'' [] = Some False \<and> exc_for blob ''verb'' ''am'' = Some (Some (''be'' @ [NUL])) \<and>
     exc_for blob ''verb'' ''is'' = Some None"
proof -
  have noun: "map_of (lt_rules sample_tables) ''noun'' = Some [(''s'', [])]"
    and verb: "map_of (lt_rules sample_tables) ''verb'' = Some [(''ing'', []), (''ed'', ''e'')]"
    and ni: "hm_get_or (lt_index sample_tables) ''noun'' [] = [''dog'', ''cat'', [], ''dog'']"
    and ve: "hm_get_or (lt_exc sample_tables) ''verb'' [] = [(''went'', [''go'']), (''am'', [''be'', []])]"
    by (simp_all add: sample_tables_def hm_get_or_def hm_get_def)
  have "length (replicate 32 CHR ''x'') = 32" by simp
  from lemma_blob_roundtrip [OF sample_tables_ok this] show ?thesis
    by (elim exE, intro exI) (auto simp: noun verb ni ve)
qed

end
