(* ===== verification/Morph.thy ===== *)
theory Morph
  imports LexAttrs Lexicon "HOL-Library.List_Lexorder"
begin

text \<open>
  The morphology table, \<open>src/src/spacy-rs/src/morph.rs\<close>: analyses are normalised to a canonical text (fields sorted,
  the values of a field sorted, part-of-speech values spelled canonically) and interned in the string store. A
  feature dictionary is an \<open>hmap\<close> whose order stands for the unspecified iteration order of the Rust map; the
  properties show that no result depends on it. \<open>sort_unstable\<close> on strings is \<open>sort\<close> on their bytes.
\<close>

section \<open>Joining\<close>

fun join_on :: "'a \<Rightarrow> 'a list list \<Rightarrow> 'a list" where
  "join_on c [] = []"
| "join_on c [w] = w"
| "join_on c (w # ws) = w @ c # join_on c ws"

section \<open>Feature texts and dictionaries\<close>

definition FEATURE_SEP :: char where "FEATURE_SEP = CHR ''|''"
definition FIELD_SEP :: char where "FIELD_SEP = CHR ''=''"
definition VALUE_SEP :: char where "VALUE_SEP = CHR '',''"
definition EMPTY_MORPH :: string where "EMPTY_MORPH = ''_''"

type_synonym feat_dict = "(string, string) hmap"

definition sort_values :: "string \<Rightarrow> string" where
  "sort_values values = join_on VALUE_SEP (sort (split_on VALUE_SEP values))"

definition add_feat :: "feat_dict \<Rightarrow> string \<Rightarrow> feat_dict" where
  "add_feat out feat =
     (case split_once FIELD_SEP feat of None \<Rightarrow> out | Some (field, values) \<Rightarrow> hm_insert out field (sort_values values))"

definition feats_to_dict :: "string \<Rightarrow> feat_dict" where
  "feats_to_dict feats =
     (if feats = [] \<or> feats = EMPTY_MORPH then hm_empty else foldl add_feat hm_empty (split_on FEATURE_SEP feats))"

definition dict_to_feats :: "feat_dict \<Rightarrow> string" where
  "dict_to_feats feats =
     (if feats = [] then EMPTY_MORPH
      else join_on FEATURE_SEP
        (map (\<lambda>field. field @ FIELD_SEP # sort_values (hm_get_or feats field [])) (sort (hm_keys feats))))"

definition normalize_value :: "string \<Rightarrow> string \<Rightarrow> string" where
  "normalize_value field value =
     (if to_ascii_uppercase field = ''POS'' then
        (case upos_parse value of None \<Rightarrow> value | Some u \<Rightarrow> to_ascii_uppercase (upos_str u))
      else sort_values value)"

definition normalize_attrs :: "feat_dict \<Rightarrow> feat_dict" where
  "normalize_attrs feats = foldl (\<lambda>out (field, value). hm_insert out field (normalize_value field value)) hm_empty feats"

definition normalize_features :: "string \<Rightarrow> string" where
  "normalize_features features =
     (if features = [] \<or> features = EMPTY_MORPH then EMPTY_MORPH
      else dict_to_feats (normalize_attrs (feats_to_dict features)))"

section \<open>The table\<close>

definition mo_add :: "string_store \<Rightarrow> string \<Rightarrow> 64 word \<times> string_store" where
  "mo_add strings features = ss_add strings (normalize_features features)"

definition mo_add_dict :: "string_store \<Rightarrow> feat_dict \<Rightarrow> 64 word \<times> string_store" where
  "mo_add_dict strings features = ss_add strings (dict_to_feats features)"

definition mo_empty_key :: "string_store \<Rightarrow> 64 word \<times> string_store" where
  "mo_empty_key strings = ss_add strings EMPTY_MORPH"

definition mo_get :: "string_store \<Rightarrow> 64 word \<Rightarrow> string option" where
  "mo_get strings key = ss_get strings key"

definition mo_to_dict :: "string_store \<Rightarrow> 64 word \<Rightarrow> feat_dict option" where
  "mo_to_dict strings key = map_option feats_to_dict (mo_get strings key)"

definition mo_has_feature :: "string_store \<Rightarrow> 64 word \<Rightarrow> string \<Rightarrow> bool" where
  "mo_has_feature strings key feature =
     (case split_once FIELD_SEP feature of
        None \<Rightarrow> False
      | Some (field, value) \<Rightarrow>
          (case mo_to_dict strings key of
             None \<Rightarrow> False
           | Some dict \<Rightarrow>
               (case hm_get dict field of
                  None \<Rightarrow> False
                | Some values \<Rightarrow> list_ex (\<lambda>v. v = value) (split_on VALUE_SEP values))))"

definition mo_get_by_field :: "string_store \<Rightarrow> 64 word \<Rightarrow> string \<Rightarrow> string list" where
  "mo_get_by_field strings key field =
     (case mo_to_dict strings key of
        None \<Rightarrow> []
      | Some dict \<Rightarrow> (case hm_get dict field of None \<Rightarrow> [] | Some values \<Rightarrow> split_on VALUE_SEP values))"

definition empty_morph_hash :: "64 word" where
  "empty_morph_hash = hash_utf8 EMPTY_MORPH"

section \<open>Splitting and joining\<close>

lemma join_on_Cons: "join_on c (w # ws) = (if ws = [] then w else w @ c # join_on c ws)"
  by (cases ws) simp_all

lemma join_on_split: "join_on c (split_on c xs) = xs"
proof (induction xs)
  case (Cons x xs)
  then show ?case by (cases "split_on c xs") (auto simp: join_on_Cons split: if_splits)
qed simp

lemma split_on_join: "ws \<noteq> [] \<Longrightarrow> \<forall>w \<in> set ws. c \<notin> set w \<Longrightarrow> split_on c (join_on c ws) = ws"
  by (induction c ws rule: join_on.induct) (simp_all add: split_on_free split_on_append)

lemma split_on_pieces: "w \<in> set (split_on c xs) \<Longrightarrow> c \<notin> set w \<and> set w \<subseteq> set xs"
proof (induction xs arbitrary: w)
  case (Cons x xs)
  show ?case
  proof (cases "split_on c xs")
    case (Cons p ps)
    have "c \<notin> set p \<and> set p \<subseteq> set xs" "\<And>w. w \<in> set ps \<Longrightarrow> c \<notin> set w \<and> set w \<subseteq> set xs"
      using Cons.IH Cons by auto
    then show ?thesis using Cons.prems Cons by (auto split: if_splits)
  qed simp
qed simp

lemma set_join_on: "set (join_on c ws) \<subseteq> \<Union> (set ` set ws) \<union> {c}"
  by (induction c ws rule: join_on.induct) auto

lemma split_sort_values: "split_on VALUE_SEP (sort_values v) = sort (split_on VALUE_SEP v)"
  unfolding sort_values_def
proof (rule split_on_join)
  show "sort (split_on VALUE_SEP v) \<noteq> []" by (metis length_0_conv length_sort split_on_nonempty)
  show "\<forall>w \<in> set (sort (split_on VALUE_SEP v)). VALUE_SEP \<notin> set w" using split_on_pieces by force
qed

lemma sort_values_idem [simp]: "sort_values (sort_values v) = sort_values v"
proof -
  have "sort_values (sort_values v) = join_on VALUE_SEP (sort (sort (split_on VALUE_SEP v)))"
    by (subst sort_values_def) (simp add: split_sort_values)
  then show ?thesis by (simp add: sort_values_def sorted_sort_id)
qed

lemma sort_values_free: "VALUE_SEP \<notin> set v \<Longrightarrow> sort_values v = v"
  by (simp add: sort_values_def split_on_free)

lemma set_sort_values: "set (sort_values v) \<subseteq> set v \<union> {VALUE_SEP}"
  using set_join_on [of VALUE_SEP "sort (split_on VALUE_SEP v)"] split_on_pieces [of _ VALUE_SEP v]
  by (force simp: sort_values_def)

lemma split_once_Cons: "split_once c (x # s) =
    (if x = c then Some ([], s) else map_option (\<lambda>(a, b). (x # a, b)) (split_once c s))"
  by (cases "dropWhile (\<lambda>x. x \<noteq> c) s") (simp_all add: split_once_def del: dropWhile_eq_Nil_conv)

lemma split_once_field: "c \<notin> set field \<Longrightarrow> split_once c (field @ c # v) = Some (field, v)"
  by (induction field) (auto simp: split_once_Cons)

lemma split_once_parts: "split_once c s = Some (field, v) \<Longrightarrow> s = field @ c # v \<and> c \<notin> set field"
  by (induction s arbitrary: field) (auto simp: split_once_Cons split_once_def [of c "[]"] split: if_splits)

section \<open>Dictionaries\<close>

text \<open>The guards of \<open>feats_to_dict\<close> only skip work.\<close>

lemma feats_to_dict_fold: "feats_to_dict feats = foldl add_feat hm_empty (split_on FEATURE_SEP feats)"
  by (auto simp: feats_to_dict_def EMPTY_MORPH_def FEATURE_SEP_def FIELD_SEP_def add_feat_def split_once_def)

definition feat_pair :: "string \<Rightarrow> (string \<times> string) option" where
  "feat_pair feat = map_option (\<lambda>(f, v). (f, sort_values v)) (split_once FIELD_SEP feat)"

definition put :: "('k, 'v) hmap \<Rightarrow> 'k \<times> 'v \<Rightarrow> ('k, 'v) hmap" where
  "put m kv = hm_insert m (fst kv) (snd kv)"

lemma foldl_add_feat: "foldl add_feat m feats = foldl put m (List.map_filter feat_pair feats)"
  by (induction feats arbitrary: m)
    (auto simp: add_feat_def feat_pair_def put_def map_filter_simps split: option.splits)

lemma wf_foldl_put: "hm_wf m \<Longrightarrow> hm_wf (foldl put m kvs)"
  by (induction kvs arbitrary: m) (simp_all add: put_def)

lemma get_foldl_put: "hm_get (foldl put m kvs) k = (case map_of (rev kvs) k of None \<Rightarrow> hm_get m k | Some v \<Rightarrow> Some v)"
  by (induction kvs rule: rev_induct) (auto simp: put_def)

lemma get_foldl_put_distinct:
  assumes "distinct (map fst kvs)"
  shows "hm_get (foldl put hm_empty kvs) k = map_of kvs k"
proof -
  have "map_of (rev kvs) = map_of kvs" using assms by (intro map_of_inject_set [THEN iffD2]) (simp_all add: rev_map [symmetric])
  then show ?thesis by (simp add: get_foldl_put split: option.split)
qed

text \<open>A dictionary whose text can be read back.\<close>

definition feat_entry_ok :: "string \<Rightarrow> string \<Rightarrow> bool" where
  "feat_entry_ok k v \<longleftrightarrow> FEATURE_SEP \<notin> set k \<and> FIELD_SEP \<notin> set k \<and> FEATURE_SEP \<notin> set v \<and> sort_values v = v"

definition dict_ok :: "feat_dict \<Rightarrow> bool" where
  "dict_ok d \<longleftrightarrow> hm_wf d \<and> (\<forall>k v. hm_get d k = Some v \<longrightarrow> feat_entry_ok k v)"

lemma seps_distinct [simp]:
  "FEATURE_SEP \<noteq> FIELD_SEP" "FEATURE_SEP \<noteq> VALUE_SEP" "FIELD_SEP \<noteq> VALUE_SEP"
  "FIELD_SEP \<noteq> FEATURE_SEP" "VALUE_SEP \<noteq> FEATURE_SEP" "VALUE_SEP \<noteq> FIELD_SEP"
  by (simp_all add: FEATURE_SEP_def FIELD_SEP_def VALUE_SEP_def)

lemma feat_pair_ok: "FEATURE_SEP \<notin> set feat \<Longrightarrow> feat_pair feat = Some (k, v) \<Longrightarrow> feat_entry_ok k v"
  using set_sort_values by (fastforce simp: feat_pair_def feat_entry_ok_def dest: split_once_parts)

lemma dict_ok_feats: "dict_ok (feats_to_dict feats)"
proof -
  have "feat_entry_ok k v" if "hm_get (feats_to_dict feats) k = Some v" for k v
  proof -
    have "(k, v) \<in> set (List.map_filter feat_pair (split_on FEATURE_SEP feats))"
      using that map_of_SomeD [of "rev (List.map_filter feat_pair (split_on FEATURE_SEP feats))" k v]
      by (simp add: feats_to_dict_fold foldl_add_feat get_foldl_put split: option.splits)
    then obtain feat where feat: "feat \<in> set (split_on FEATURE_SEP feats)" "feat_pair feat = Some (k, v)" by (auto simp: in_map_filter)
    show ?thesis using feat_pair_ok [OF _ feat(2)] split_on_pieces [OF feat(1)] by simp
  qed
  then show ?thesis by (simp add: dict_ok_def feats_to_dict_fold foldl_add_feat wf_foldl_put)
qed

lemma map_of_map_value: "map_of (map (\<lambda>(k, v). (k, f k v)) kvs) k = map_option (f k) (map_of kvs k)"
  by (induction kvs) auto

lemma normalize_attrs_spec:
  assumes "hm_wf d"
  shows "hm_wf (normalize_attrs d)" "hm_get (normalize_attrs d) k = map_option (normalize_value k) (hm_get d k)"
proof -
  have eq: "normalize_attrs d = foldl put hm_empty (map (\<lambda>(k, v). (k, normalize_value k v)) d)"
    by (simp add: normalize_attrs_def foldl_map put_def case_prod_beta')
  show "hm_wf (normalize_attrs d)" by (simp add: eq wf_foldl_put)
  have "distinct (map fst (map (\<lambda>(k, v). (k, normalize_value k v)) d))"
    using assms by (simp add: hm_wf_def case_prod_beta comp_def)
  from get_foldl_put_distinct [OF this] show "hm_get (normalize_attrs d) k = map_option (normalize_value k) (hm_get d k)"
    by (simp add: eq map_of_map_value hm_get_def)
qed

lemma upos_names:
  "list_all (\<lambda>u. VALUE_SEP \<notin> set (to_ascii_uppercase (upos_str u)) \<and> FEATURE_SEP \<notin> set (to_ascii_uppercase (upos_str u)) \<and>
     upos_parse (to_ascii_uppercase (upos_str u)) = Some u) all_tags"
  by code_simp

lemma normalize_value_ok: "FEATURE_SEP \<notin> set v \<Longrightarrow> sort_values v = v \<Longrightarrow>
    FEATURE_SEP \<notin> set (normalize_value k v) \<and> sort_values (normalize_value k v) = normalize_value k v"
  using upos_names all_tags_complete
  by (auto simp: normalize_value_def list_all_iff sort_values_free split: option.splits)

lemma normalize_value_idem: "normalize_value k (normalize_value k v) = normalize_value k v"
  using upos_names all_tags_complete by (auto simp: normalize_value_def list_all_iff split: option.splits)

lemma dict_ok_normalize: "dict_ok d \<Longrightarrow> dict_ok (normalize_attrs d)"
  using normalize_value_ok by (auto simp: dict_ok_def normalize_attrs_spec feat_entry_ok_def)

lemma sort_keys_cong:
  assumes "hm_wf d" and "hm_wf d'" and "hm_get d = hm_get d'"
  shows "sort (hm_keys d) = sort (hm_keys d')"
  using assms hm_keys_dom [of d] hm_keys_dom [of d']
  by (intro sorted_distinct_set_unique) (simp_all add: hm_wf_def hm_keys_def)

lemma dict_to_feats_cong: "hm_wf d \<Longrightarrow> hm_wf d' \<Longrightarrow> hm_get d = hm_get d' \<Longrightarrow> dict_to_feats d = dict_to_feats d'"
  using sort_keys_cong [of d d'] hm_keys_dom [of d] hm_keys_dom [of d']
  by (auto simp: dict_to_feats_def hm_get_or_def hm_keys_def)

lemma feats_dict_roundtrip:
  assumes "dict_ok d"
  shows "hm_get (feats_to_dict (dict_to_feats d)) = hm_get d"
proof (cases "d = []")
  case True
  then show ?thesis by (auto simp: dict_to_feats_def feats_to_dict_def)
next
  case False
  let ?v = "\<lambda>k. hm_get_or d k []"
  let ?ks = "sort (hm_keys d)"
  have ok: "feat_entry_ok k (?v k)" "hm_get d k = Some (?v k)" if "k \<in> set (hm_keys d)" for k
    using assms that hm_keys_dom [of d] by (auto simp: dict_ok_def hm_get_or_def)
  have "split_on FEATURE_SEP (dict_to_feats d) = map (\<lambda>k. k @ FIELD_SEP # ?v k) ?ks"
  proof -
    have "map (\<lambda>k. k @ FIELD_SEP # sort_values (?v k)) ?ks = map (\<lambda>k. k @ FIELD_SEP # ?v k) ?ks"
      using ok(1) by (intro map_cong) (auto simp: feat_entry_ok_def)
    then have eq: "dict_to_feats d = join_on FEATURE_SEP (map (\<lambda>k. k @ FIELD_SEP # ?v k) ?ks)"
      using False by (simp only: dict_to_feats_def if_False)
    have "?ks \<noteq> []" using False by (metis hm_keys_def length_0_conv length_map length_sort)
    then show ?thesis unfolding eq using ok(1) by (intro split_on_join) (auto simp: feat_entry_ok_def)
  qed
  moreover have "List.map_filter feat_pair (map (\<lambda>k. k @ FIELD_SEP # ?v k) ?ks) = map (\<lambda>k. (k, ?v k)) ?ks"
    using ok(1) by (simp add: List.map_filter_def comp_def feat_pair_def split_once_field feat_entry_ok_def cong: map_cong)
  moreover have "distinct ?ks" using assms by (simp add: dict_ok_def hm_wf_def hm_keys_def)
  ultimately have "hm_get (feats_to_dict (dict_to_feats d)) k = map_of (map (\<lambda>k. (k, ?v k)) ?ks) k" for k
    by (simp add: feats_to_dict_fold foldl_add_feat get_foldl_put_distinct comp_def)
  moreover have "map_of (map (\<lambda>k. (k, ?v k)) ?ks) k = hm_get d k" for k
    using ok(2) [of k] hm_keys_dom [of d] by (cases "k \<in> set (hm_keys d)") (auto simp: map_of_map_restrict restrict_map_def)
  ultimately show ?thesis by auto
qed

section \<open>Properties\<close>

abbreviation canonical :: "string \<Rightarrow> feat_dict" where
  "canonical s \<equiv> normalize_attrs (feats_to_dict s)"

lemma normalize_features_canonical: "normalize_features s = dict_to_feats (canonical s)"
  by (auto simp: normalize_features_def feats_to_dict_def normalize_attrs_def dict_to_feats_def hm_empty_def)

lemma dict_ok_canonical: "dict_ok (canonical s)"
  by (intro dict_ok_normalize dict_ok_feats)

lemma canonical_cong:
  assumes "hm_get (feats_to_dict s) = hm_get (feats_to_dict t)"
  shows "normalize_features s = normalize_features t"
proof -
  have "hm_wf (feats_to_dict u)" for u using dict_ok_feats by (simp add: dict_ok_def)
  then show ?thesis unfolding normalize_features_canonical
    by (intro dict_to_feats_cong) (auto simp: normalize_attrs_spec assms)
qed

lemma normalized_dict: "hm_get (feats_to_dict (normalize_features s)) = hm_get (canonical s)"
  unfolding normalize_features_canonical by (rule feats_dict_roundtrip [OF dict_ok_canonical])

lemma normalize_idem: "normalize_features (normalize_features s) = normalize_features s"
proof -
  have wf: "hm_wf (feats_to_dict u)" for u using dict_ok_feats by (simp add: dict_ok_def)
  have "hm_get (canonical (normalize_features s)) = hm_get (canonical s)"
    by (rule ext) (simp add: normalize_attrs_spec wf normalized_dict option.map_comp comp_def normalize_value_idem)
  then show ?thesis unfolding normalize_features_canonical [of "normalize_features s"] normalize_features_canonical [of s, symmetric]
    by (subst normalize_features_canonical) (intro dict_to_feats_cong, simp_all add: normalize_attrs_spec wf)
qed

lemma normalize_nonempty: "normalize_features s \<noteq> []"
proof -
  have "dict_to_feats d \<noteq> []" for d
    by (cases "sort (hm_keys d)") (auto simp: dict_to_feats_def EMPTY_MORPH_def join_on_Cons hm_keys_def dest: arg_cong [of _ _ length])
  then show ?thesis by (simp add: normalize_features_canonical)
qed

text \<open>
  C33. The key of an interned analysis resolves to its canonical text and to its normalised dictionary, and interning
  the canonical text again changes nothing, for analyses from a set whose hashes tell them apart.
\<close>

theorem morph_interned:
  assumes "hash_safe U" and "\<forall>k t. hm_get m k = Some t \<longrightarrow> t \<in> U \<and> k = hash_utf8 t" and "normalize_features s \<in> U"
    and "mo_add m s = (key, m')"
  shows "mo_get m' key = Some (normalize_features s) \<and> mo_add m' (normalize_features s) = (key, m') \<and>
    (\<exists>d. mo_to_dict m' key = Some d \<and> (\<forall>k. hm_get d k = map_option (normalize_value k) (hm_get (feats_to_dict s) k)))"
proof -
  let ?n = "normalize_features s"
  have key: "key = hash_utf8 ?n" "m' = snd (ss_add m ?n)"
    using assms(4) normalize_nonempty by (simp_all add: mo_add_def ss_add_def Let_def split: if_splits) blast+
  have "hm_get m' key = Some ?n" unfolding key
    by (rule ss_add_in(3) [OF assms(1) _ assms(2) normalize_nonempty]) (use assms(3) in simp)
  moreover have "key \<noteq> 0" using assms(1,3) key(1) by (simp add: hash_safe_def)
  ultimately have get: "mo_get m' key = Some ?n" by (simp add: mo_get_def ss_get_def)
  have again: "mo_add m' ?n = (key, m')"
    using \<open>hm_get m' key = Some ?n\<close> normalize_nonempty key(1)
    by (simp add: mo_add_def normalize_idem ss_add_def Let_def ss_intern_def hm_contains_def)
  have "hm_wf (feats_to_dict s)" using dict_ok_feats by (simp add: dict_ok_def)
  then show ?thesis using get again normalized_dict [of s] by (simp add: mo_to_dict_def normalize_attrs_spec)
qed

text \<open>
  Analyses that differ only in the order of their features, with no field twice, have the same canonical text
  and the same key.
\<close>

theorem feature_order_irrelevant:
  assumes "mset (split_on FEATURE_SEP s) = mset (split_on FEATURE_SEP t)"
    and "distinct (map fst (List.map_filter (split_once FIELD_SEP) (split_on FEATURE_SEP s)))"
  shows "normalize_features s = normalize_features t \<and> fst (mo_add m s) = fst (mo_add m' t)"
proof -
  let ?f = "\<lambda>s. List.map_filter feat_pair (split_on FEATURE_SEP s)"
  have fields: "map fst (List.map_filter feat_pair xs) = map fst (List.map_filter (split_once FIELD_SEP) xs)" for xs
    by (induction xs) (auto simp: map_filter_simps feat_pair_def split: option.splits)
  have "mset (?f s) = mset (?f t)" using assms(1) by (simp add: List.map_filter_def)
  moreover from this have "distinct (map fst (?f t))" "distinct (map fst (?f s))"
    using assms(2) fields by (metis mset_eq_imp_distinct_iff mset_map)+
  ultimately have "map_of (?f s) = map_of (?f t)" by (metis map_of_inject_set set_mset_mset)
  then have "hm_get (feats_to_dict s) = hm_get (feats_to_dict t)"
    using \<open>distinct (map fst (?f t))\<close> \<open>distinct (map fst (?f s))\<close>
    by (intro ext) (simp add: feats_to_dict_fold foldl_add_feat get_foldl_put_distinct)
  from canonical_cong [OF this] show ?thesis by (simp add: mo_add_def ss_add_def normalize_nonempty Let_def)
qed

section \<open>Example\<close>

definition example_feats :: string where
  "example_feats = ''Number=Sing|Case=Nom,Acc|pos=noun''"

lemma example_normalized: "normalize_features example_feats = ''Case=Acc,Nom|Number=Sing|pos=NOUN''"
  by code_simp

text \<open>A dictionary is interned without the canonical part-of-speech spelling.\<close>

lemma add_dict_not_canonical:
  "dict_to_feats [(''POS'', ''noun'')] = ''POS=noun'' \<and> normalize_features ''POS=noun'' = ''POS=NOUN''"
  by code_simp

theorem feature_order_irrelevant_witness:
  "normalize_features example_feats = normalize_features ''pos=noun|Number=Sing|Case=Nom,Acc''"
proof -
  have "mset (split_on FEATURE_SEP example_feats) = mset (split_on FEATURE_SEP ''pos=noun|Number=Sing|Case=Nom,Acc'')"
    by (simp add: example_feats_def FEATURE_SEP_def)
  moreover have "distinct (map fst (List.map_filter (split_once FIELD_SEP) (split_on FEATURE_SEP example_feats)))"
    by code_simp
  ultimately show ?thesis using feature_order_irrelevant [of example_feats "''pos=noun|Number=Sing|Case=Nom,Acc''" "[]" "[]"] by blast
qed

theorem morph_interned_witness:
  "mo_get (snd (mo_add strings_new ''a=b'')) (fst (mo_add strings_new ''a=b'')) = Some ''a=b''"
proof -
  have n: "normalize_features ''a=b'' = ''a=b''" by code_simp
  have "hash_utf8 ''a=b'' \<noteq> 0" by (simp add: hash_eval)
  then have safe: "hash_safe {''a=b''}" by (simp add: hash_safe_def)
  have store: "\<forall>k t. hm_get strings_new k = Some t \<longrightarrow> t \<in> {''a=b''} \<and> k = hash_utf8 t" by (simp add: strings_new_def)
  have "normalize_features ''a=b'' \<in> {''a=b''}" unfolding n by (rule singletonI)
  from morph_interned [OF safe store this surjective_pairing, THEN conjunct1] show ?thesis unfolding n .
qed

end
