(* ===== verification/Lemmatizer.thy ===== *)
theory Lemmatizer
  imports LemmaBlob Morph
begin

text \<open>
  The rule and lookup lemmatizer, \<open>src/src/spacy-rs/src/lemmatizer.rs\<close>: closed contraction lemmas, the base-form
  shortcut from the morphology, suffix rules checked against the lemma index, exceptions, and the result cache.

  The Unicode tables are the argument \<open>uc\<close>. The morphology table is a view of a string store that is shared and grows
  while the lemmatizer is in use: the field records whether a table is attached, and a call takes the store as it is at
  that moment. An operation that panics is \<open>None\<close>; a call returns the lemmatizer with its new cache.
\<close>

section \<open>State\<close>

datatype lemmatizer_mode = RuleMode | LookupMode

type_synonym lemma_key = "64 word \<times> nat \<times> 64 word"

record lemmatizer =
  lm_mode :: lemmatizer_mode
  lm_blob :: "lemma_blob option"
  lm_lookup :: "(string, string list) hmap option"
  lm_morphology :: bool
  lm_cache :: "(lemma_key, string list) hmap"

definition lm_from_blob :: "lemma_blob \<Rightarrow> lemmatizer" where
  "lm_from_blob blob =
     \<lparr>lm_mode = RuleMode, lm_blob = Some blob, lm_lookup = None, lm_morphology = False, lm_cache = hm_empty\<rparr>"

definition lm_from_lookup :: "(string, string) hmap \<Rightarrow> lemmatizer" where
  "lm_from_lookup table =
     \<lparr>lm_mode = LookupMode, lm_blob = None,
      lm_lookup = Some (foldl (\<lambda>m (surface, lemma). hm_insert m surface [lemma]) hm_empty table),
      lm_morphology = False, lm_cache = hm_empty\<rparr>"

definition lm_with_morphology :: "lemmatizer \<Rightarrow> lemmatizer" where
  "lm_with_morphology lm = lm\<lparr>lm_morphology := True\<rparr>"

definition lm_cache_len :: "lemmatizer \<Rightarrow> nat" where
  "lm_cache_len lm = length (lm_cache lm)"

section \<open>Contractions and base forms\<close>

text \<open>The apostrophe.\<close>

definition QUOTE :: char where
  "QUOTE = CHR 0x27"

definition contraction_lemma :: "string \<Rightarrow> upos \<Rightarrow> string option" where
  "contraction_lemma orth pos =
     (if pos = Part \<and> eq_ignore_ascii_case orth (''n'' @ QUOTE # ''t'') then Some ''not''
      else if pos = Aux \<and> eq_ignore_ascii_case orth ''ca'' then Some ''can''
      else if pos = Aux \<and> eq_ignore_ascii_case orth ''wo'' then Some ''will''
      else if pos = Aux \<and> list_ex (eq_ignore_ascii_case orth)
          [''is'', ''are'', ''was'', ''were'', ''am'', ''be'', ''been'', ''being''] then Some ''be''
      else if pos = Aux \<and> list_ex (eq_ignore_ascii_case orth) [QUOTE # ''s'', QUOTE # ''re'', QUOTE # ''m''] then Some ''be''
      else if pos = Aux \<and> eq_ignore_ascii_case orth (QUOTE # ''ve'') then Some ''have''
      else if pos = Aux \<and> eq_ignore_ascii_case orth (QUOTE # ''ll'') then Some ''will''
      else if pos \<in> {Aux, Verb} \<and> (eq_ignore_ascii_case orth ''did'' \<or> eq_ignore_ascii_case orth ''does'') then Some ''do''
      else None)"

definition is_base_form :: "string_store \<Rightarrow> lemmatizer \<Rightarrow> upos \<Rightarrow> 64 word \<Rightarrow> bool" where
  "is_base_form strings lm pos morph_key =
     (let dict = (if lm_morphology lm
                  then (case mo_to_dict strings morph_key of None \<Rightarrow> hm_empty | Some d \<Rightarrow> d)
                  else hm_empty);
          get = hm_get dict
      in (pos = Noun \<and> get ''Number'' = Some ''Sing'') \<or>
         (pos = Verb \<and> get ''VerbForm'' = Some ''Inf'') \<or>
         (pos = Verb \<and> get ''VerbForm'' = Some ''Fin'' \<and> get ''Tense'' = Some ''Pres'' \<and> get ''Number'' = None) \<or>
         (pos = Adj \<and> get ''Degree'' = Some ''Pos'') \<or>
         get ''VerbForm'' = Some ''Inf'' \<or>
         get ''VerbForm'' = Some ''None'' \<or>
         get ''Degree'' = Some ''Pos'')"

section \<open>Rules\<close>

fun rule_loop :: "unicode \<Rightarrow> lemma_blob \<Rightarrow> upos \<Rightarrow> string \<Rightarrow> (string \<times> string) list \<Rightarrow> string list \<times> string list \<Rightarrow>
    (string list \<times> string list) option" where
  "rule_loop uc blob pos str [] acc = Some acc"
| "rule_loop uc blob pos str ((old, new) # rules) (forms, oov_forms) =
     (if ends_with str old then
        let form = take (length str - length old) str @ new in
        if form = [] then rule_loop uc blob pos str rules (forms, oov_forms)
        else case index_contains blob (upos_str pos) form of
          None \<Rightarrow> None
        | Some in_index \<Rightarrow>
            rule_loop uc blob pos str rules
              (if in_index then (form # forms, oov_forms)
               else if \<not> la_is_alpha uc form then (forms @ [form], oov_forms)
               else (forms, oov_forms @ [form]))
      else rule_loop uc blob pos str rules (forms, oov_forms))"

text \<open>\<open>retain\<close> with a set of the elements seen.\<close>

fun retain_new :: "'a set \<Rightarrow> 'a list \<Rightarrow> 'a list" where
  "retain_new seen [] = []"
| "retain_new seen (f # fs) = (if f \<in> seen then retain_new seen fs else f # retain_new (insert f seen) fs)"

fun exception_loop :: "string set \<Rightarrow> string list \<Rightarrow> string list \<Rightarrow> string list option" where
  "exception_loop seen forms [] = Some forms"
| "exception_loop seen forms (lemma # lemmas) =
     (if lemma = [] then exception_loop seen forms lemmas
      else case from_utf8 lemma of
        None \<Rightarrow> None
      | Some lemma \<Rightarrow>
          if lemma \<in> seen then exception_loop seen forms lemmas
          else exception_loop (insert lemma seen) (lemma # forms) lemmas)"

definition apply_rules :: "unicode \<Rightarrow> lemma_blob \<Rightarrow> string \<Rightarrow> upos \<Rightarrow> bool \<Rightarrow> string list option" where
  "apply_rules uc blob orth pos lowercase_fallback =
     (let str = la_lower uc orth in
      case rule_loop uc blob pos str (lb_rules blob (upos_str pos)) ([], []) of
        None \<Rightarrow> None
      | Some (forms, oov_forms) \<Rightarrow>
          let forms = retain_new {} forms; seen = set forms in
          (case exc_for blob (upos_str pos) str of
             None \<Rightarrow> None
           | Some exc \<Rightarrow>
               (case exception_loop seen forms (case exc of None \<Rightarrow> [] | Some lemmas \<Rightarrow> split_on NUL lemmas) of
                  None \<Rightarrow> None
                | Some forms \<Rightarrow>
                    let forms = (if forms = [] then oov_forms else forms) in
                    Some (if forms = [] then [if lowercase_fallback then str else orth] else forms))))"

definition has_tables :: "lemmatizer \<Rightarrow> upos \<Rightarrow> bool" where
  "has_tables lm pos = (case lm_blob lm of None \<Rightarrow> False | Some b \<Rightarrow> lb_has_pos b pos)"

definition shouty :: "unicode \<Rightarrow> string \<Rightarrow> bool" where
  "shouty uc orth \<longleftrightarrow> list_ex (uc_alphabetic uc) (chars orth) \<and> list_all (\<lambda>c. \<not> uc_lowercase uc c) (chars orth)"

definition rule_forms :: "unicode \<Rightarrow> string_store \<Rightarrow> lemmatizer \<Rightarrow> string \<Rightarrow> upos \<Rightarrow> 64 word \<Rightarrow> string list option" where
  "rule_forms uc strings lm orth pos morph_key =
     (if pos \<in> {NoTag, Eol, Space} \<or> is_base_form strings lm pos morph_key then Some [la_lower uc orth]
      else if \<not> has_tables lm pos then Some [if pos = Propn then orth else la_lower uc orth]
      else case lm_blob lm of None \<Rightarrow> None | Some blob \<Rightarrow> apply_rules uc blob orth pos (pos = Verb \<or> shouty uc orth))"

definition rule_lemmatize :: "unicode \<Rightarrow> string_store \<Rightarrow> lemmatizer \<Rightarrow> string \<Rightarrow> upos \<Rightarrow> 64 word \<Rightarrow> (string list \<times> lemmatizer) option" where
  "rule_lemmatize uc strings lm orth pos morph_key =
     (case contraction_lemma orth pos of
        Some lemma \<Rightarrow> Some ([lemma], lm)
      | None \<Rightarrow>
          let cache_key = (hash_utf8 orth, upos_id pos mod 256, morph_key) in
          (case hm_get (lm_cache lm) cache_key of
             Some cached \<Rightarrow> Some (cached, lm)
           | None \<Rightarrow>
               (case rule_forms uc strings lm orth pos morph_key of
                  None \<Rightarrow> None
                | Some forms \<Rightarrow> Some (forms, lm\<lparr>lm_cache := hm_insert (lm_cache lm) cache_key forms\<rparr>))))"

definition lookup_lemmatize :: "lemmatizer \<Rightarrow> string \<Rightarrow> string list" where
  "lookup_lemmatize lm orth =
     (case lm_lookup lm of
        None \<Rightarrow> [orth]
      | Some table \<Rightarrow> (case hm_get table orth of None \<Rightarrow> [orth] | Some ls \<Rightarrow> ls))"

definition lemmatize :: "unicode \<Rightarrow> string_store \<Rightarrow> lemmatizer \<Rightarrow> string \<Rightarrow> upos \<Rightarrow> 64 word \<Rightarrow> (string list \<times> lemmatizer) option" where
  "lemmatize uc strings lm orth pos morph_key =
     (case lm_mode lm of
        RuleMode \<Rightarrow> rule_lemmatize uc strings lm orth pos morph_key
      | LookupMode \<Rightarrow> Some (lookup_lemmatize lm orth, lm))"

section \<open>The rules against a reference\<close>

text \<open>The forms the rules propose, in rule order.\<close>

definition candidates :: "string \<Rightarrow> (string \<times> string) list \<Rightarrow> string list" where
  "candidates str rules =
     filter (\<lambda>form. form \<noteq> [])
       (map (\<lambda>(old, new). take (length str - length old) str @ new) (filter (\<lambda>(old, new). ends_with str old) rules))"

text \<open>
  The lemmas of a word from its tables: the exceptions, then the proposed forms that are index words (the last rule
  first) and those that are not alphabetic; without any, the other proposed forms; without those, the word itself.
\<close>

definition reference_lemmas ::
    "unicode \<Rightarrow> (string \<times> string) list \<Rightarrow> (string \<Rightarrow> bool) \<Rightarrow> (string \<Rightarrow> string list) \<Rightarrow> string \<Rightarrow> bool \<Rightarrow> string list" where
  "reference_lemmas uc rules idx exc orth lowercase_fallback =
     (let str = la_lower uc orth;
          cs = candidates str rules;
          known = retain_new {} (rev (filter idx cs) @ filter (\<lambda>w. \<not> idx w \<and> \<not> la_is_alpha uc w) cs);
          forms = rev (retain_new (set known) (exc str)) @ known;
          forms = (if forms = [] then filter (\<lambda>w. \<not> idx w \<and> la_is_alpha uc w) cs else forms)
      in if forms = [] then [if lowercase_fallback then str else orth] else forms)"

definition blob_serves :: "lemma_blob \<Rightarrow> string \<Rightarrow> (string \<Rightarrow> bool) \<Rightarrow> (string \<Rightarrow> string list) \<Rightarrow> bool" where
  "blob_serves blob key idx exc \<longleftrightarrow>
     (\<forall>w. index_contains blob key w = Some (idx w)) \<and>
     (\<forall>s. exc_for blob key s = Some (Some (terminated NUL (exc s))) \<or> exc_for blob key s = Some None \<and> exc s = []) \<and>
     (\<forall>s. list_all (\<lambda>l. l \<noteq> [] \<and> NUL \<notin> set l \<and> utf8_valid l) (exc s))"

lemma candidates_simps:
  "candidates str [] = []"
  "candidates str ((old, new) # rules) =
     (let form = take (length str - length old) str @ new in
      if ends_with str old \<and> form \<noteq> [] then form # candidates str rules else candidates str rules)"
  by (simp_all add: candidates_def Let_def)

lemma rule_loop_spec:
  assumes "blob_serves blob (upos_str pos) idx exc"
  shows "rule_loop uc blob pos str rules (forms, oov) =
    Some (rev (filter idx (candidates str rules)) @ forms @ filter (\<lambda>w. \<not> idx w \<and> \<not> la_is_alpha uc w) (candidates str rules),
          oov @ filter (\<lambda>w. \<not> idx w \<and> la_is_alpha uc w) (candidates str rules))"
  using assms
  by (induction rules arbitrary: forms oov) (auto simp: candidates_simps blob_serves_def Let_def)

lemma set_retain_new: "set (retain_new seen xs) = set xs - seen"
  by (induction xs arbitrary: seen) auto

lemma distinct_retain_new: "distinct (retain_new seen xs)"
  by (induction xs arbitrary: seen) (auto simp: set_retain_new)

lemma exception_loop_spec:
  "list_all (\<lambda>l. l = [] \<or> utf8_valid l) ls \<Longrightarrow>
     exception_loop seen forms ls = Some (rev (retain_new seen (filter (\<lambda>l. l \<noteq> []) ls)) @ forms)"
  by (induction ls arbitrary: seen forms) (auto simp: from_utf8_def)

lemma exception_list:
  assumes "blob_serves blob key idx exc"
  obtains r where "exc_for blob key s = Some r"
    "list_all (\<lambda>l. l = [] \<or> utf8_valid l) (case r of None \<Rightarrow> [] | Some lemmas \<Rightarrow> split_on NUL lemmas)"
    "filter (\<lambda>l. l \<noteq> []) (case r of None \<Rightarrow> [] | Some lemmas \<Rightarrow> split_on NUL lemmas) = exc s"
proof -
  have valid: "\<forall>l \<in> set (exc s). l \<noteq> [] \<and> NUL \<notin> set l \<and> utf8_valid l"
    using assms by (simp add: blob_serves_def list_all_iff)
  then have split: "split_on NUL (terminated NUL (exc s)) = exc s @ [[]]" by (intro split_on_terminated) auto
  from assms consider "exc_for blob key s = Some (Some (terminated NUL (exc s)))" | "exc_for blob key s = Some None" "exc s = []"
    by (auto simp: blob_serves_def)
  then show ?thesis
  proof cases
    case 1
    from that [OF this] show ?thesis using valid by (simp add: split list_all_iff filter_id_conv)
  next
    case 2
    from that [OF 2(1)] show ?thesis using 2(2) by simp
  qed
qed

lemma apply_rules_reference:
  assumes "blob_serves blob (upos_str pos) idx exc"
  shows "apply_rules uc blob orth pos fb = Some (reference_lemmas uc (lb_rules blob (upos_str pos)) idx exc orth fb)"
proof -
  obtain r where r: "exc_for blob (upos_str pos) (la_lower uc orth) = Some r"
    "list_all (\<lambda>l. l = [] \<or> utf8_valid l) (case r of None \<Rightarrow> [] | Some lemmas \<Rightarrow> split_on NUL lemmas)"
    "filter (\<lambda>l. l \<noteq> []) (case r of None \<Rightarrow> [] | Some lemmas \<Rightarrow> split_on NUL lemmas) = exc (la_lower uc orth)"
    using exception_list [OF assms] by blast
  show ?thesis
    unfolding apply_rules_def reference_lemmas_def Let_def rule_loop_spec [OF assms] r(1) option.case prod.case
      exception_loop_spec [OF r(2)] r(3) append_Nil by (rule refl)
qed

section \<open>The cache\<close>

text \<open>
  A run of the pipeline around the lemmatizer: strings are added to the shared store, morphological analyses among them,
  and lemmas are asked for.
\<close>

datatype lemma_event = AddString string | Ask string upos "64 word"

fun lemma_run :: "unicode \<Rightarrow> string_store \<Rightarrow> lemmatizer \<Rightarrow> lemma_event list \<Rightarrow> string list list option" where
  "lemma_run uc strings lm [] = Some []"
| "lemma_run uc strings lm (AddString s # evs) = lemma_run uc (snd (ss_add strings s)) lm evs"
| "lemma_run uc strings lm (Ask orth pos key # evs) =
     (case lemmatize uc strings lm orth pos key of
        None \<Rightarrow> None
      | Some (forms, lm) \<Rightarrow> map_option ((#) forms) (lemma_run uc strings lm evs))"

text \<open>The same run, every answer computed anew from the store at that moment.\<close>

definition uncached :: "unicode \<Rightarrow> string_store \<Rightarrow> lemmatizer \<Rightarrow> string \<Rightarrow> upos \<Rightarrow> 64 word \<Rightarrow> string list option" where
  "uncached uc strings lm orth pos key =
     (case contraction_lemma orth pos of Some lemma \<Rightarrow> Some [lemma] | None \<Rightarrow> rule_forms uc strings lm orth pos key)"

fun uncached_run :: "unicode \<Rightarrow> string_store \<Rightarrow> lemmatizer \<Rightarrow> lemma_event list \<Rightarrow> string list list option" where
  "uncached_run uc strings lm [] = Some []"
| "uncached_run uc strings lm (AddString s # evs) = uncached_run uc (snd (ss_add strings s)) lm evs"
| "uncached_run uc strings lm (Ask orth pos key # evs) =
     (case uncached uc strings lm orth pos key of
        None \<Rightarrow> None
      | Some forms \<Rightarrow> map_option ((#) forms) (uncached_run uc strings lm evs))"

text \<open>
  Every lemma is asked for under a key the attached morphology knows by then: the key of an analysis already added, or
  the reserved key \<open>0\<close> of a token without one.
\<close>

fun keys_known :: "string_store \<Rightarrow> lemma_event list \<Rightarrow> bool" where
  "keys_known strings [] = True"
| "keys_known strings (AddString s # evs) = keys_known (snd (ss_add strings s)) evs"
| "keys_known strings (Ask orth pos key # evs) \<longleftrightarrow> mo_get strings key \<noteq> None \<and> keys_known strings evs"

fun surfaces :: "lemma_event list \<Rightarrow> string set" where
  "surfaces [] = {}"
| "surfaces (AddString s # evs) = surfaces evs"
| "surfaces (Ask orth pos key # evs) = insert orth (surfaces evs)"

definition cache_ok :: "string set \<Rightarrow> unicode \<Rightarrow> string_store \<Rightarrow> lemmatizer \<Rightarrow> bool" where
  "cache_ok U uc strings lm \<longleftrightarrow> (\<forall>orth \<in> U. \<forall>pos key forms.
     hm_get (lm_cache lm) (hash_utf8 orth, upos_id pos mod 256, key) = Some forms \<longrightarrow>
     rule_forms uc strings lm orth pos key = Some forms \<and> (lm_morphology lm \<longrightarrow> mo_get strings key \<noteq> None))"

lemma pos_byte_inj: "upos_id p mod 256 = upos_id q mod 256 \<Longrightarrow> p = q"
proof -
  have small: "upos_id t < 256" for t by (cases t) simp_all
  assume "upos_id p mod 256 = upos_id q mod 256"
  then have "upos_id p = upos_id q" by (simp add: small)
  from arg_cong [OF this, of upos_from_id] show "p = q" by (simp add: upos_from_id_id)
qed

lemma rule_forms_cache [simp]: "rule_forms uc strings (lm\<lparr>lm_cache := c\<rparr>) = rule_forms uc strings lm"
  by (intro ext) (simp add: rule_forms_def is_base_form_def has_tables_def)

text \<open>What a known key stands for does not change when the store grows, and so the cache stays right.\<close>

lemma mo_get_add: "mo_get strings key \<noteq> None \<Longrightarrow> mo_get (snd (ss_add strings s)) key = mo_get strings key"
  by (auto simp: mo_get_def ss_get_add)

lemma rule_forms_add:
  "(lm_morphology lm \<Longrightarrow> mo_get strings key \<noteq> None) \<Longrightarrow>
     rule_forms uc (snd (ss_add strings s)) lm orth pos key = rule_forms uc strings lm orth pos key"
  by (auto simp: rule_forms_def is_base_form_def mo_to_dict_def mo_get_add)

lemma cache_ok_add: "cache_ok U uc strings lm \<Longrightarrow> cache_ok U uc (snd (ss_add strings s)) lm"
  by (auto simp: cache_ok_def rule_forms_add mo_get_add)

lemma lemmatize_step:
  assumes "inj_on hash_utf8 U" and "orth \<in> U" and "cache_ok U uc strings lm" and "lm_mode lm = RuleMode"
    and "lm_morphology lm \<Longrightarrow> mo_get strings key \<noteq> None"
  shows "case lemmatize uc strings lm orth pos key of
      None \<Rightarrow> uncached uc strings lm orth pos key = None
    | Some (forms, lm') \<Rightarrow> uncached uc strings lm orth pos key = Some forms \<and> lm' = lm\<lparr>lm_cache := lm_cache lm'\<rparr> \<and>
        cache_ok U uc strings lm'"
proof (cases "contraction_lemma orth pos")
  case None
  show ?thesis
  proof (cases "hm_get (lm_cache lm) (hash_utf8 orth, upos_id pos mod 256, key)")
    case (Some forms)
    then show ?thesis using None assms by (auto simp: lemmatize_def rule_lemmatize_def uncached_def cache_ok_def)
  next
    case miss: None
    have "cache_ok U uc strings (lm\<lparr>lm_cache := hm_insert (lm_cache lm) (hash_utf8 orth, upos_id pos mod 256, key) forms\<rparr>)"
      if "rule_forms uc strings lm orth pos key = Some forms" for forms
      using assms that by (auto simp: cache_ok_def dest: inj_onD pos_byte_inj split: if_splits)
    then show ?thesis using None miss assms(4)
      by (auto simp: lemmatize_def rule_lemmatize_def uncached_def Let_def split: option.split)
  qed
next
  case (Some l)
  then show ?thesis using assms by (auto simp: lemmatize_def rule_lemmatize_def uncached_def)
qed

lemma uncached_run_cache: "uncached_run uc strings (lm\<lparr>lm_cache := c\<rparr>) evs = uncached_run uc strings lm evs"
  by (induction uc strings lm evs rule: uncached_run.induct) (simp_all add: uncached_def cong: option.case_cong)

lemma lemma_run_uncached:
  assumes "inj_on hash_utf8 U" and "cache_ok U uc strings lm" and "lm_mode lm = RuleMode"
    and "surfaces evs \<subseteq> U" and "lm_morphology lm \<Longrightarrow> keys_known strings evs"
  shows "lemma_run uc strings lm evs = uncached_run uc strings lm evs"
  using assms(2-5)
proof (induction uc strings lm evs rule: lemma_run.induct)
  case (2 uc strings lm s evs)
  then show ?case by (simp add: cache_ok_add)
next
  case (3 uc strings lm orth pos key evs)
  have "orth \<in> U" using "3.prems"(3) by simp
  note step = lemmatize_step [OF assms(1) this "3.prems"(1,2), of key pos]
  show ?case
  proof (cases "lemmatize uc strings lm orth pos key")
    case None
    then show ?thesis using step "3.prems"(4) by simp
  next
    case (Some a)
    obtain forms lm' where a: "a = (forms, lm')" by (cases a)
    with Some step "3.prems"(4) have ok: "uncached uc strings lm orth pos key = Some forms" "lm' = lm\<lparr>lm_cache := lm_cache lm'\<rparr>"
      "cache_ok U uc strings lm'" by simp_all
    have same: "lm_mode lm' = lm_mode lm" "lm_morphology lm' = lm_morphology lm" "uncached_run uc strings lm' evs = uncached_run uc strings lm evs"
      by (subst ok(2), simp add: uncached_run_cache)+
    have "lemma_run uc strings lm' evs = uncached_run uc strings lm' evs"
      using "3.prems" ok(3) same(1,2) by (intro "3.IH" [OF Some a [symmetric]]) auto
    then show ?thesis using Some a ok(1) same(3) by simp
  qed
qed simp

section \<open>Built tables\<close>

definition lemmas_ok :: "lemma_tables \<Rightarrow> bool" where
  "lemmas_ok t \<longleftrightarrow> list_all (\<lambda>e. list_all (\<lambda>x. list_all (\<lambda>l. NUL \<notin> set l \<and> utf8_valid l) (snd x)) (snd e)) (lt_exc t)"

definition table_index :: "lemma_tables \<Rightarrow> string \<Rightarrow> string \<Rightarrow> bool" where
  "table_index t key w \<longleftrightarrow> w \<noteq> [] \<and> w \<in> set (hm_get_or (lt_index t) key [])"

definition table_exc :: "lemma_tables \<Rightarrow> string \<Rightarrow> string \<Rightarrow> string list" where
  "table_exc t key s = filter (\<lambda>l. l \<noteq> []) (hm_get_or (hm_get_or (lt_exc t) key []) s [])"

lemma table_exc_ok: "lemmas_ok t \<Longrightarrow> list_all (\<lambda>l. l \<noteq> [] \<and> NUL \<notin> set l \<and> utf8_valid l) (table_exc t key s)"
proof -
  assume "lemmas_ok t"
  then have "list_all (\<lambda>x. list_all (\<lambda>l. NUL \<notin> set l \<and> utf8_valid l) (snd x)) (hm_get_or (lt_exc t) key [])"
    by (intro hm_get_or_all [where P = "list_all (\<lambda>x. list_all (\<lambda>l. NUL \<notin> set l \<and> utf8_valid l) (snd x))"])
      (simp_all add: lemmas_ok_def)
  then have "list_all (\<lambda>l. NUL \<notin> set l \<and> utf8_valid l) (hm_get_or (hm_get_or (lt_exc t) key []) s [])"
    by (intro hm_get_or_all [where P = "list_all (\<lambda>l. NUL \<notin> set l \<and> utf8_valid l)"]) simp_all
  then show ?thesis by (simp add: table_exc_def list_all_iff)
qed

lemma built_serves:
  assumes "tables_ok t" and "length (lemma_build crc sha h t) < 2 ^ 32" and "length (sha (lemma_payload t)) = 32" and "lemmas_ok t"
  obtains blob where "lemma_from_bytes (lemma_build crc sha h t) = Inr blob"
    "\<And>pos. lb_has_pos blob pos \<longleftrightarrow> upos_str pos \<in> fst ` set (lt_rules t)"
    "\<And>key rules. map_of (lt_rules t) key = Some rules \<Longrightarrow>
       lb_rules blob key = rules \<and> blob_serves blob key (table_index t key) (table_exc t key)"
proof -
  from lemma_blob_queries [OF assms(1-3)] obtain blob where blob: "lemma_from_bytes (lemma_build crc sha h t) = Inr blob"
    "\<forall>pos. lb_has_pos blob pos \<longleftrightarrow> upos_str pos \<in> fst ` set (lt_rules t)"
    "\<forall>key rules. map_of (lt_rules t) key = Some rules \<longrightarrow>
       lb_rules blob key = rules \<and>
       (\<forall>w. index_contains blob key w = Some (w \<noteq> [] \<and> w \<in> set (hm_get_or (lt_index t) key []))) \<and>
       (\<forall>s. exc_for blob key s =
          Some (map_option (\<lambda>ls. terminated NUL (filter (\<lambda>l. l \<noteq> []) ls)) (map_of (hm_get_or (lt_exc t) key []) s)))" by blast
  have "lb_rules blob key = rules \<and> blob_serves blob key (table_index t key) (table_exc t key)"
    if "map_of (lt_rules t) key = Some rules" for key rules
  proof
    note q = blob(3) [rule_format, OF that]
    show "lb_rules blob key = rules" using q by simp
    have "exc_for blob key s = Some (Some (terminated NUL (table_exc t key s))) \<or> exc_for blob key s = Some None \<and> table_exc t key s = []" for s
      using q by (cases "map_of (hm_get_or (lt_exc t) key []) s") (simp_all add: table_exc_def hm_get_or_def [of _ s] hm_get_def)
    then show "blob_serves blob key (table_index t key) (table_exc t key)"
      using q table_exc_ok [OF assms(4)] by (simp add: blob_serves_def table_index_def)
  qed
  with that blob(1,2) show ?thesis by blast
qed

lemma reference_nonempty: "reference_lemmas uc rules idx exc orth fb \<noteq> []"
  by (simp add: reference_lemmas_def Let_def)

lemma reference_forms:
  assumes "known = {w \<in> set (candidates (la_lower uc orth) rules). idx w \<or> \<not> la_is_alpha uc w}"
    and "known \<union> set (exc (la_lower uc orth)) \<noteq> {}"
  shows "distinct (reference_lemmas uc rules idx exc orth fb) \<and>
    set (reference_lemmas uc rules idx exc orth fb) = known \<union> set (exc (la_lower uc orth))"
proof -
  let ?cs = "candidates (la_lower uc orth) rules"
  define ks where "ks = retain_new {} (rev (filter idx ?cs) @ filter (\<lambda>w. \<not> idx w \<and> \<not> la_is_alpha uc w) ?cs)"
  define es where "es = retain_new (set ks) (exc (la_lower uc orth))"
  have sets: "set ks = known" "set es = set (exc (la_lower uc orth)) - known"
    using assms(1) by (auto simp: ks_def es_def set_retain_new)
  then have "rev es @ ks \<noteq> []" using assms(2) by auto
  then have "reference_lemmas uc rules idx exc orth fb = rev es @ ks"
    unfolding reference_lemmas_def Let_def ks_def [symmetric] es_def [symmetric] by simp
  then show ?thesis using sets by (auto simp: ks_def es_def distinct_retain_new)
qed

section \<open>Properties\<close>

text \<open>
  The lemmas of a word by all the routes of the code: a closed contraction has its own lemma, a tag outside the tables
  and an uninflected form the lowercased word, a tag without rules the word (lowercased unless a proper noun), and any
  other word the lemmas of its tables.
\<close>

definition reference_answer :: "unicode \<Rightarrow> string_store \<Rightarrow> lemmatizer \<Rightarrow> lemma_tables \<Rightarrow> string \<Rightarrow> upos \<Rightarrow> 64 word \<Rightarrow> string list" where
  "reference_answer uc strings lm t orth pos key =
     (case contraction_lemma orth pos of
        Some lemma \<Rightarrow> [lemma]
      | None \<Rightarrow>
          if pos \<in> {NoTag, Eol, Space} \<or> is_base_form strings lm pos key then [la_lower uc orth]
          else case map_of (lt_rules t) (upos_str pos) of
            None \<Rightarrow> [if pos = Propn then orth else la_lower uc orth]
          | Some rules \<Rightarrow>
              reference_lemmas uc rules (table_index t (upos_str pos)) (table_exc t (upos_str pos)) orth (pos = Verb \<or> shouty uc orth))"

text \<open>
  C34. A lemmatizer over the blob the build script writes for well-formed tables, its cache empty, with or without a
  morphology, never panics and answers every word under every tag and key with the reference: a contraction's own lemma,
  the lowercased word for an uninflected form, the word itself for a tag without rules, and otherwise the lemmas of the
  tables. The answer is never empty; and where the tables decide and know an exception or an accepted rule form, it
  consists of exactly these, each once.
\<close>

theorem lemmas_of_built_tables:
  assumes "tables_ok t" and "length (lemma_build crc sha h t) < 2 ^ 32" and "length (sha (lemma_payload t)) = 32" and "lemmas_ok t"
  shows "\<exists>blob. lemma_from_bytes (lemma_build crc sha h t) = Inr blob \<and>
    (\<forall>lm \<in> {lm_from_blob blob, lm_with_morphology (lm_from_blob blob)}.
       (\<exists>lm'. lemmatize uc strings lm orth pos key = Some (reference_answer uc strings lm t orth pos key, lm')) \<and>
       reference_answer uc strings lm t orth pos key \<noteq> []) \<and>
    (\<forall>rules known. map_of (lt_rules t) (upos_str pos) = Some rules \<and>
       known = {w \<in> set (candidates (la_lower uc orth) rules). table_index t (upos_str pos) w \<or> \<not> la_is_alpha uc w} \<union>
         set (table_exc t (upos_str pos) (la_lower uc orth)) \<and> known \<noteq> {} \<and>
       contraction_lemma orth pos = None \<and> pos \<notin> {NoTag, Eol, Space} \<longrightarrow>
       (let forms = reference_answer uc strings (lm_from_blob blob) t orth pos key in distinct forms \<and> set forms = known))"
proof -
  obtain blob where blob: "lemma_from_bytes (lemma_build crc sha h t) = Inr blob"
    "\<And>pos. lb_has_pos blob pos \<longleftrightarrow> upos_str pos \<in> fst ` set (lt_rules t)"
    "\<And>key rules. map_of (lt_rules t) key = Some rules \<Longrightarrow>
       lb_rules blob key = rules \<and> blob_serves blob key (table_index t key) (table_exc t key)"
    using built_serves [OF assms] by metis
  have answer: "\<exists>lm'. lemmatize uc strings lm orth pos key = Some (reference_answer uc strings lm t orth pos key, lm')"
    if lm: "lm_mode lm = RuleMode" "lm_blob lm = Some blob" "lm_cache lm = hm_empty" for lm
  proof (cases "map_of (lt_rules t) (upos_str pos)")
    case None
    then have "\<not> has_tables lm pos" using blob(2) [of pos] lm(2) by (auto simp: has_tables_def map_of_eq_None_iff)
    then show ?thesis using None lm
      by (auto simp: lemmatize_def rule_lemmatize_def rule_forms_def reference_answer_def split: option.split)
  next
    case (Some rules)
    then have "has_tables lm pos" using blob(2) [of pos] lm(2) by (force simp: has_tables_def dest: map_of_SomeD)
    moreover have "apply_rules uc blob orth pos fb =
        Some (reference_lemmas uc rules (table_index t (upos_str pos)) (table_exc t (upos_str pos)) orth fb)" for fb
      using apply_rules_reference [of blob pos] blob(3) [OF Some] by simp
    ultimately show ?thesis using Some lm
      by (auto simp: lemmatize_def rule_lemmatize_def rule_forms_def reference_answer_def split: option.split)
  qed
  have ne: "reference_answer uc strings lm t orth pos key \<noteq> []" for lm
    by (auto simp: reference_answer_def reference_nonempty split: option.split)
  have "distinct (reference_answer uc strings (lm_from_blob blob) t orth pos key) \<and>
      set (reference_answer uc strings (lm_from_blob blob) t orth pos key) = known"
    if "map_of (lt_rules t) (upos_str pos) = Some rules"
      "known = {w \<in> set (candidates (la_lower uc orth) rules). table_index t (upos_str pos) w \<or> \<not> la_is_alpha uc w} \<union>
         set (table_exc t (upos_str pos) (la_lower uc orth))" "known \<noteq> {}"
      "contraction_lemma orth pos = None" "pos \<notin> {NoTag, Eol, Space}" for rules known
  proof -
    have "reference_answer uc strings (lm_from_blob blob) t orth pos key =
        reference_lemmas uc rules (table_index t (upos_str pos)) (table_exc t (upos_str pos)) orth (pos = Verb \<or> shouty uc orth)"
      using that by (simp add: reference_answer_def is_base_form_def lm_from_blob_def Let_def)
    with reference_forms [OF refl, of uc orth rules "table_index t (upos_str pos)" "table_exc t (upos_str pos)"] that(2,3)
    show ?thesis by auto
  qed
  with blob(1) answer ne show ?thesis
    by (intro exI [of _ blob]) (auto simp: lm_from_blob_def lm_with_morphology_def Let_def)
qed

text \<open>
  C35. The result cache is transparent while the shared store grows: a rule-mode lemmatizer with an empty cache answers
  any sequence of additions to the store and requests exactly as if every answer were computed anew from the store at
  that moment, when no two surfaces asked for share a hash and, with a morphology attached, every key asked for is
  known to the store by then.
\<close>

theorem lemma_cache_transparent:
  assumes "inj_on hash_utf8 (surfaces evs)" and "lm_mode lm = RuleMode" and "lm_cache lm = hm_empty"
    and "lm_morphology lm \<longrightarrow> keys_known strings evs"
  shows "lemma_run uc strings lm evs = uncached_run uc strings lm evs"
  using assms(4) by (intro lemma_run_uncached [OF assms(1) _ assms(2) subset_refl]) (simp_all add: cache_ok_def assms(3))

section \<open>Examples\<close>

theorem lemmas_of_built_tables_witness:
  "\<exists>blob lm. lemma_from_bytes (lemma_build (\<lambda>_. 0) (\<lambda>_. replicate 32 CHR ''x'') 7 sample_tables) = Inr blob \<and>
     lemmatize ascii_unicode strings_new (lm_from_blob blob) ''Dogs'' Noun 0 = Some ([''dog''], lm)"
proof -
  have "lemmas_ok sample_tables" by code_simp
  from lemmas_of_built_tables [OF sample_tables_ok _ this, of ascii_unicode strings_new "''Dogs''" Noun 0] obtain blob lm where
    blob: "lemma_from_bytes (lemma_build (\<lambda>_. 0) (\<lambda>_. replicate 32 CHR ''x'') 7 sample_tables) = Inr blob"
    "lemmatize ascii_unicode strings_new (lm_from_blob blob) ''Dogs'' Noun 0 =
       Some (reference_answer ascii_unicode strings_new (lm_from_blob blob) sample_tables ''Dogs'' Noun 0, lm)" by auto
  have "contraction_lemma ''Dogs'' Noun = None" by code_simp
  moreover have "map_of (lt_rules sample_tables) (upos_str Noun) = Some [(''s'', [])]" by (simp add: sample_tables_def)
  moreover have "reference_lemmas ascii_unicode [(''s'', [])] (table_index sample_tables (upos_str Noun))
      (table_exc sample_tables (upos_str Noun)) ''Dogs'' (Noun = Verb \<or> shouty ascii_unicode ''Dogs'') = [''dog'']" by code_simp
  ultimately have "reference_answer ascii_unicode strings_new (lm_from_blob blob) sample_tables ''Dogs'' Noun 0 = [''dog'']"
    by (simp add: reference_answer_def is_base_form_def lm_from_blob_def Let_def)
  with blob show ?thesis by auto
qed

text \<open>An analysis that makes a form uninflected, and the lemmas of a proper noun without tables.\<close>

definition degree_pos :: string where
  "degree_pos = ''Degree=Pos''"

lemma degree_pos_key: "hash_utf8 degree_pos \<noteq> 0"
  by (simp add: degree_pos_def hash_eval)

lemma degree_pos_known: "mo_get (snd (ss_add strings_new degree_pos)) (hash_utf8 degree_pos) = Some degree_pos"
  using degree_pos_key by (simp add: mo_get_def ss_get_add ss_get_new degree_pos_def)

lemma degree_pos_base: "is_base_form (snd (ss_add strings_new degree_pos)) (lm_with_morphology (lm_from_blob [])) Propn (hash_utf8 degree_pos)"
proof -
  have "hm_get (feats_to_dict degree_pos) ''Degree'' = Some ''Pos''" by code_simp
  then show ?thesis by (simp add: is_base_form_def mo_to_dict_def degree_pos_known lm_with_morphology_def Let_def)
qed

lemma proper_noun:
  "uncached ascii_unicode strings (lm_with_morphology (lm_from_blob [])) ''Go'' Propn key =
     Some [if is_base_form strings (lm_with_morphology (lm_from_blob [])) Propn key then ''go'' else ''Go'']"
proof -
  have "contraction_lemma ''Go'' Propn = None" "la_lower ascii_unicode ''Go'' = ''go''" by code_simp+
  then show ?thesis by (simp add: uncached_def rule_forms_def has_tables_def lm_with_morphology_def lm_from_blob_def lb_has_pos_def)
qed

lemma no_features: "\<not> is_base_form strings lm Propn 0"
  by (simp add: is_base_form_def mo_to_dict_def mo_get_def ss_get_def feats_to_dict_def Let_def)

theorem lemma_cache_transparent_witness:
  "lemma_run ascii_unicode strings_new (lm_with_morphology (lm_from_blob []))
     [Ask ''Go'' Propn 0, AddString degree_pos, Ask ''Go'' Propn (hash_utf8 degree_pos), Ask ''Go'' Propn (hash_utf8 degree_pos),
      Ask ''Go'' Propn 0] = Some [[''Go''], [''go''], [''go''], [''Go'']]"
proof -
  let ?evs = "[Ask ''Go'' Propn 0, AddString degree_pos, Ask ''Go'' Propn (hash_utf8 degree_pos), Ask ''Go'' Propn (hash_utf8 degree_pos),
      Ask ''Go'' Propn 0]"
  have "keys_known strings_new ?evs" using degree_pos_known by (simp add: mo_get_def ss_get_def)
  moreover have "lm_mode (lm_with_morphology (lm_from_blob [])) = RuleMode" "lm_cache (lm_with_morphology (lm_from_blob [])) = hm_empty"
    by (simp_all add: lm_with_morphology_def lm_from_blob_def)
  ultimately have "lemma_run ascii_unicode strings_new (lm_with_morphology (lm_from_blob [])) ?evs =
      uncached_run ascii_unicode strings_new (lm_with_morphology (lm_from_blob [])) ?evs"
    by (intro lemma_cache_transparent) simp_all
  then show ?thesis using degree_pos_base by (simp add: proper_noun no_features)
qed

text \<open>
  The condition on the keys is needed: a lemma asked for under a key before its analysis is added stays in the cache, and
  is returned afterwards too.
\<close>

lemma cached_before_added:
  "lemma_run ascii_unicode strings_new (lm_with_morphology (lm_from_blob []))
     [Ask ''Go'' Propn (hash_utf8 degree_pos), AddString degree_pos, Ask ''Go'' Propn (hash_utf8 degree_pos)] = Some [[''Go''], [''Go'']]"
  "uncached_run ascii_unicode strings_new (lm_with_morphology (lm_from_blob []))
     [Ask ''Go'' Propn (hash_utf8 degree_pos), AddString degree_pos, Ask ''Go'' Propn (hash_utf8 degree_pos)] = Some [[''Go''], [''go'']]"
proof -
  let ?lm = "lm_with_morphology (lm_from_blob [])"
  have base: "\<not> is_base_form strings_new ?lm Propn (hash_utf8 degree_pos)"
    using degree_pos_key by (simp add: is_base_form_def mo_to_dict_def mo_get_def ss_get_new Let_def)
  have "contraction_lemma ''Go'' Propn = None" "la_lower ascii_unicode ''Go'' = ''go''" by code_simp+
  then show "lemma_run ascii_unicode strings_new ?lm
     [Ask ''Go'' Propn (hash_utf8 degree_pos), AddString degree_pos, Ask ''Go'' Propn (hash_utf8 degree_pos)] = Some [[''Go''], [''Go'']]"
    using base by (simp add: lemmatize_def rule_lemmatize_def rule_forms_def has_tables_def lm_with_morphology_def lm_from_blob_def lb_has_pos_def Let_def)
  show "uncached_run ascii_unicode strings_new ?lm
     [Ask ''Go'' Propn (hash_utf8 degree_pos), AddString degree_pos, Ask ''Go'' Propn (hash_utf8 degree_pos)] = Some [[''Go''], [''go'']]"
    using base degree_pos_base by (simp add: proper_noun)
qed

end
