(* ===== verification/Interlingua.thy ===== *)
theory Interlingua
  imports Hashing
begin

unbundle bit_operations_syntax

text \<open>
  The cross-system identifiers, \<open>src/src/types/src/interlingua.rs\<close>: a 16-bit namespace above a 48-bit local id that is
  the truncated content hash. An \<open>i64\<close> is the 64-bit word of its bits, read by \<open>sint\<close>. The hash of an IRI (the first
  eight bytes of BLAKE3) is the argument \<open>hash_iri\<close>; the Murmur hash of the file is a copy of the one of the string
  store.
\<close>

section \<open>Namespaces\<close>

datatype namespace = ReservedNs | YagoClass | YagoEntity | SpacyLemma | UserDefined | RdfProperty

fun ns_code :: "namespace \<Rightarrow> 16 word" where
  "ns_code ReservedNs = 0x0000"
| "ns_code YagoClass = 0x0100"
| "ns_code YagoEntity = 0x0200"
| "ns_code SpacyLemma = 0x0300"
| "ns_code UserDefined = 0x0400"
| "ns_code RdfProperty = 0x0500"

definition ns_from_u16 :: "16 word \<Rightarrow> namespace" where
  "ns_from_u16 v =
     (if v = 0x0100 then YagoClass else if v = 0x0200 then YagoEntity else if v = 0x0300 then SpacyLemma
      else if v = 0x0400 then UserDefined else if v = 0x0500 then RdfProperty else ReservedNs)"

section \<open>Ids\<close>

type_synonym interlingua_id = "64 word"

definition LOCAL_BITS :: nat where
  "LOCAL_BITS = 48"

definition LOCAL_MASK :: "64 word" where
  "LOCAL_MASK = 0x0000FFFFFFFFFFFF"

definition local_id_of :: "64 word \<Rightarrow> 64 word" where
  "local_id_of full_hash = full_hash AND LOCAL_MASK"

definition id_new :: "namespace \<Rightarrow> 64 word \<Rightarrow> interlingua_id" where
  "id_new ns local = push_bit LOCAL_BITS (ucast (ns_code ns)) OR (local AND LOCAL_MASK)"

definition id_for_namespace :: "64 word \<Rightarrow> namespace \<Rightarrow> interlingua_id" where
  "id_for_namespace hash ns = id_new ns (local_id_of hash)"

definition lemma_id_for_str :: "string \<Rightarrow> interlingua_id" where
  "lemma_id_for_str s = id_for_namespace (hash_utf8 s) SpacyLemma"

definition yago_class_id_for_iri :: "(string \<Rightarrow> 64 word) \<Rightarrow> string \<Rightarrow> interlingua_id" where
  "yago_class_id_for_iri hash_iri iri = id_for_namespace (hash_iri iri) YagoClass"

definition yago_entity_id_for_iri :: "(string \<Rightarrow> 64 word) \<Rightarrow> string \<Rightarrow> interlingua_id" where
  "yago_entity_id_for_iri hash_iri iri = id_for_namespace (hash_iri iri) YagoEntity"

definition property_id_for_iri :: "(string \<Rightarrow> 64 word) \<Rightarrow> string \<Rightarrow> interlingua_id" where
  "property_id_for_iri hash_iri iri = id_for_namespace (hash_iri iri) RdfProperty"

definition id_namespace :: "interlingua_id \<Rightarrow> namespace" where
  "id_namespace i = ns_from_u16 (ucast (drop_bit LOCAL_BITS i))"

definition id_local :: "interlingua_id \<Rightarrow> 64 word" where
  "id_local i = i AND LOCAL_MASK"

definition id_as_i64 :: "interlingua_id \<Rightarrow> int" where
  "id_as_i64 i = sint i"

definition id_from_i64 :: "int \<Rightarrow> interlingua_id option" where
  "id_from_i64 v = (if 0 \<le> v then Some (word_of_int v) else None)"

definition id_is_yago :: "interlingua_id \<Rightarrow> bool" where
  "id_is_yago i \<longleftrightarrow> id_namespace i \<in> {YagoClass, YagoEntity}"

definition id_is_spacy_lemma :: "interlingua_id \<Rightarrow> bool" where
  "id_is_spacy_lemma i \<longleftrightarrow> (ucast (drop_bit LOCAL_BITS i) :: 16 word) = ns_code SpacyLemma"

definition id_from_sql :: "16 word \<Rightarrow> 64 word \<Rightarrow> interlingua_id" where
  "id_from_sql ns local = id_new (ns_from_u16 ns) local"

section \<open>Layout\<close>

lemma local_mask: "LOCAL_MASK = mask 48"
  by (simp add: LOCAL_MASK_def mask_eq_exp_minus_1)

lemma ns_from_code [simp]: "ns_from_u16 (ns_code ns) = ns"
  by (cases ns) (simp_all add: ns_from_u16_def)

lemma id_new_top: "(ucast (drop_bit LOCAL_BITS (id_new ns l)) :: 16 word) = ns_code ns"
  by (rule bit_word_eqI)
    (auto simp: id_new_def LOCAL_BITS_def local_mask bit_simps)

lemma id_new_local: "id_local (id_new ns l) = l AND LOCAL_MASK"
  by (rule bit_word_eqI)
    (auto simp: id_new_def id_local_def LOCAL_BITS_def local_mask bit_simps)

lemma ns_code_top: "\<not> bit (ns_code ns) 15"
  by (cases ns) (simp_all add: bit_simps)

lemma id_new_sign: "0 \<le> sint (id_new ns l)"
proof -
  have "\<not> bit (id_new ns l) 63" using ns_code_top [of ns] by (simp add: id_new_def LOCAL_BITS_def local_mask bit_simps)
  then show ?thesis using bit_last_iff [of "id_new ns l"] by simp
qed

lemma id_namespace_new [simp]: "id_namespace (id_new ns l) = ns"
  by (simp add: id_namespace_def id_new_top)

lemma id_new_trunc: "id_new ns (l AND LOCAL_MASK) = id_new ns l"
  by (simp add: id_new_def and.assoc)

section \<open>Properties\<close>

text \<open>
  C36. An id keeps its namespace and the low 48 bits of its hash and nothing else: two ids are equal exactly when
  both agree. It survives the round trips through \<open>i64\<close> and through the pair of columns, and its namespace decides
  the class predicates.
\<close>

theorem id_layout:
  "id_namespace (id_new ns l) = ns \<and> id_local (id_new ns l) = local_id_of l \<and>
   (id_new ns l = id_new ns' l' \<longleftrightarrow> ns = ns' \<and> local_id_of l = local_id_of l') \<and>
   id_from_i64 (id_as_i64 (id_new ns l)) = Some (id_new ns l) \<and>
   id_from_sql (ns_code (id_namespace (id_new ns l))) (id_local (id_new ns l)) = id_new ns l \<and>
   (id_is_yago (id_new ns l) \<longleftrightarrow> ns = YagoClass \<or> ns = YagoEntity) \<and>
   (id_is_spacy_lemma (id_new ns l) \<longleftrightarrow> ns = SpacyLemma)"
proof (intro conjI)
  have "ns = ns' \<and> local_id_of l = local_id_of l'" if "id_new ns l = id_new ns' l'"
    using that id_namespace_new [of ns l] id_namespace_new [of ns' l'] id_new_local [of ns l] id_new_local [of ns' l']
    by (simp add: local_id_of_def)
  moreover have "id_new ns l = id_new ns' l'" if "ns = ns' \<and> local_id_of l = local_id_of l'"
    using that id_new_trunc by (metis local_id_of_def)
  ultimately show "id_new ns l = id_new ns' l' \<longleftrightarrow> ns = ns' \<and> local_id_of l = local_id_of l'" by blast
  have "ns_code ns = ns_code SpacyLemma \<longleftrightarrow> ns = SpacyLemma" using ns_from_code by metis
  then show "id_is_spacy_lemma (id_new ns l) \<longleftrightarrow> ns = SpacyLemma" by (simp only: id_is_spacy_lemma_def id_new_top)
qed (simp_all add: id_new_local local_id_of_def id_from_i64_def id_as_i64_def id_new_sign id_from_sql_def id_new_trunc id_is_yago_def)

end
