(* ===== verification/Concepts.thy ===== *)
theory Concepts
  imports Interlingua DepGraph Doc
begin

text \<open>
  The concept registry (\<open>src/src/concept/src/concept_store.rs\<close> and \<open>concept_store_mem.rs\<close>) and the resolver over it
  (\<open>src/src/spacy-rs/src/interlingua.rs\<close>). The subclass hierarchy is a dependency graph in which a class depends on
  its subclasses, so the superclasses of a class are its transitive dependents.

  The \<open>ConceptStore\<close> trait is the locale \<open>concept_store\<close>; the in-memory store interprets it. Locks are not modelled:
  every operation of the store is one step. The check of \<open>resolve_hash\<close> that only debug builds make is left out.
\<close>

section \<open>Metadata and errors\<close>

datatype concept_state = Ready | Loading

datatype concept_error = NotFoundC string | StorageC string

fun concept_error_str :: "concept_error \<Rightarrow> string" where
  "concept_error_str (NotFoundC m) = ''concept not found: '' @ m"
| "concept_error_str (StorageC m) = ''storage error: '' @ m"

record concept_metadata =
  cm_id :: interlingua_id
  cm_canonical_name :: string
  cm_namespace :: namespace
  cm_yago_iri :: "string option"
  cm_yago_class_iri :: "string option"
  cm_label :: "string option"
  cm_node_id :: "64 word option"
  cm_parent_class_id :: "interlingua_id option"

section \<open>The subclass hierarchy\<close>

type_synonym taxonomy = "interlingua_id dep_graph"

definition by_parent :: "(interlingua_id \<times> interlingua_id) list \<Rightarrow> (interlingua_id, interlingua_id list) hmap" where
  "by_parent edges = foldl (\<lambda>m (child, parent). hm_push m parent child) hm_empty edges"

definition register_parent :: "taxonomy \<Rightarrow> interlingua_id \<times> interlingua_id list \<Rightarrow> concept_error + taxonomy" where
  "register_parent graph row =
     (case dg_register graph (fst row) (snd row) [fst row] of
        Inl _ \<Rightarrow> Inl (StorageC (''duplicate node: InterlinguaId('' @ show_nat (unat (fst row)) @ '')''))
      | Inr g \<Rightarrow> Inr g)"

definition register_leaf :: "taxonomy \<Rightarrow> interlingua_id \<times> interlingua_id \<Rightarrow> concept_error + taxonomy" where
  "register_leaf graph edge =
     (if dg_contains graph (fst edge) then Inr graph else register_parent graph (fst edge, []))"

definition from_edges :: "(interlingua_id \<times> interlingua_id) list \<Rightarrow> concept_error + taxonomy" where
  "from_edges edges =
     bind_err (fold_err register_parent dg_new (by_parent edges)) (\<lambda>graph. fold_err register_leaf graph edges)"

definition tx_ancestors :: "taxonomy \<Rightarrow> interlingua_id \<Rightarrow> interlingua_id list" where
  "tx_ancestors t i = dg_dependents_of t i"

definition tx_is_subclass :: "taxonomy \<Rightarrow> interlingua_id \<Rightarrow> interlingua_id \<Rightarrow> bool" where
  "tx_is_subclass t child parent \<longleftrightarrow> child = parent \<or> parent \<in> set (tx_ancestors t child)"

definition tx_contains :: "taxonomy \<Rightarrow> interlingua_id \<Rightarrow> bool" where
  "tx_contains t i = dg_contains t i"

section \<open>The in-memory store\<close>

record mem_store =
  ms_meta :: "(interlingua_id, concept_metadata list) hmap"
  ms_names :: "(string, interlingua_id) hmap"
  ms_yago_iris :: "(string, interlingua_id) hmap"
  ms_hierarchy :: taxonomy
  ms_edges :: "(interlingua_id \<times> interlingua_id) list"
  ms_state :: concept_state

definition ms_new :: mem_store where
  "ms_new = \<lparr>ms_meta = hm_empty, ms_names = hm_empty, ms_yago_iris = hm_empty, ms_hierarchy = dg_new, ms_edges = [], ms_state = Ready\<rparr>"

definition ms_set_hierarchy :: "mem_store \<Rightarrow> taxonomy \<Rightarrow> mem_store" where
  "ms_set_hierarchy s h = s\<lparr>ms_hierarchy := h\<rparr>"

definition ms_set_state :: "mem_store \<Rightarrow> concept_state \<Rightarrow> mem_store" where
  "ms_set_state s st = s\<lparr>ms_state := st\<rparr>"

text \<open>The rendered id in the error is the argument \<open>show_id\<close>.\<close>

definition ms_get :: "(interlingua_id \<Rightarrow> string) \<Rightarrow> mem_store \<Rightarrow> interlingua_id \<Rightarrow> concept_error + concept_metadata" where
  "ms_get show_id s i =
     (case hm_get (ms_meta s) i of
        Some (m # _) \<Rightarrow> Inr m
      | _ \<Rightarrow> Inl (NotFoundC (show_id i)))"

definition ms_resolve_name :: "mem_store \<Rightarrow> string \<Rightarrow> concept_error + interlingua_id" where
  "ms_resolve_name s name = (case hm_get (ms_names s) name of None \<Rightarrow> Inl (NotFoundC name) | Some i \<Rightarrow> Inr i)"

definition ms_resolve_yago_iri :: "mem_store \<Rightarrow> string \<Rightarrow> concept_error + interlingua_id" where
  "ms_resolve_yago_iri s iri = (case hm_get (ms_yago_iris s) iri of None \<Rightarrow> Inl (NotFoundC iri) | Some i \<Rightarrow> Inr i)"

definition or_insert :: "('k, 'v) hmap \<Rightarrow> 'k \<Rightarrow> 'v \<Rightarrow> ('k, 'v) hmap" where
  "or_insert m k v = (if hm_contains m k then m else hm_insert m k v)"

text \<open>The bucket is created by \<open>entry\<close> even when nothing is pushed; the error leaves the earlier writes in place.\<close>

definition ms_insert :: "mem_store \<Rightarrow> concept_metadata \<Rightarrow> concept_error option \<times> mem_store" where
  "ms_insert s meta =
     (let bucket = hm_get_or (ms_meta s) (cm_id meta) [];
          bucket = (if list_ex (\<lambda>m. cm_canonical_name m = cm_canonical_name meta) bucket then bucket else bucket @ [meta]);
          s = s\<lparr>ms_meta := hm_insert (ms_meta s) (cm_id meta) bucket\<rparr>;
          s = s\<lparr>ms_names := or_insert (ms_names s) (cm_canonical_name meta) (cm_id meta)\<rparr>;
          s = (case cm_yago_iri meta of None \<Rightarrow> s
               | Some iri \<Rightarrow> s\<lparr>ms_yago_iris := or_insert (ms_yago_iris s) iri (cm_id meta)\<rparr>)
      in case cm_parent_class_id meta of
           None \<Rightarrow> (None, s)
         | Some parent \<Rightarrow>
             let s = (if (cm_id meta, parent) \<in> set (ms_edges s) then s
                      else s\<lparr>ms_edges := ms_edges s @ [(cm_id meta, parent)]\<rparr>)
             in (case from_edges (ms_edges s) of
                   Inl e \<Rightarrow> (Some (StorageC (concept_error_str e)), s)
                 | Inr built \<Rightarrow> (None, s\<lparr>ms_hierarchy := built\<rparr>)))"

definition ms_contains :: "mem_store \<Rightarrow> interlingua_id \<Rightarrow> bool" where
  "ms_contains s i = hm_contains (ms_meta s) i"

definition ms_iter_ids :: "mem_store \<Rightarrow> interlingua_id list" where
  "ms_iter_ids s = hm_keys (ms_meta s)"

definition ms_candidates :: "mem_store \<Rightarrow> interlingua_id \<Rightarrow> concept_metadata list" where
  "ms_candidates s i = hm_get_or (ms_meta s) i []"

definition ms_ancestors_of :: "mem_store \<Rightarrow> interlingua_id \<Rightarrow> interlingua_id list" where
  "ms_ancestors_of s i = tx_ancestors (ms_hierarchy s) i"

definition ms_is_subclass_of :: "mem_store \<Rightarrow> interlingua_id \<Rightarrow> interlingua_id \<Rightarrow> bool" where
  "ms_is_subclass_of s child parent = tx_is_subclass (ms_hierarchy s) child parent"

section \<open>The resolver\<close>

datatype collision_note = NoCollision | Collision interlingua_id string

definition resolve_hash :: "(interlingua_id \<Rightarrow> concept_error + concept_metadata) \<Rightarrow> string \<Rightarrow> interlingua_id \<times> collision_note" where
  "resolve_hash get canonical =
     (let i = lemma_id_for_str canonical in
      (i, case get i of
            Inr existing \<Rightarrow>
              if cm_canonical_name existing \<noteq> canonical then Collision i (cm_canonical_name existing) else NoCollision
          | Inl _ \<Rightarrow> NoCollision))"

definition resolver_canonical :: "(interlingua_id \<Rightarrow> concept_error + concept_metadata) \<Rightarrow> interlingua_id \<Rightarrow> string option" where
  "resolver_canonical get i = (case get i of Inl _ \<Rightarrow> None | Inr c \<Rightarrow> Some (cm_canonical_name c))"

definition resolve_token ::
    "(interlingua_id \<Rightarrow> concept_error + concept_metadata) \<Rightarrow> string_store \<Rightarrow> 64 word list option \<Rightarrow>
     doc_tokens \<times> collision_note list \<Rightarrow> nat \<Rightarrow> doc_tokens \<times> collision_note list" where
  "resolve_token get strings token_confidence = (\<lambda>(doc, notes) i.
     let canonical = (case ss_get strings (tk_lemma (doc ! i)) of None \<Rightarrow> [] | Some s \<Rightarrow> s) in
     if canonical = [] then (doc, notes)
     else let (ident, note) = resolve_hash get canonical;
              notes = (case note of Collision _ _ \<Rightarrow> notes @ [note] | NoCollision \<Rightarrow> notes);
              confidence = (case token_confidence of None \<Rightarrow> None | Some c \<Rightarrow> if i < length c then Some (c ! i) else None)
          in (doc[i := (doc ! i)\<lparr>tk_interlingua_lemma_id := Some ident, tk_confidence := confidence\<rparr>], notes))"

definition resolve_doc ::
    "(interlingua_id \<Rightarrow> concept_error + concept_metadata) \<Rightarrow> string_store \<Rightarrow> 64 word list option \<Rightarrow> doc_tokens \<Rightarrow>
     doc_tokens \<times> collision_note list" where
  "resolve_doc get strings token_confidence doc =
     foldl (resolve_token get strings token_confidence) (doc, []) [0..<length doc]"

section \<open>The hierarchy is the subclass relation\<close>

lemma by_parent_get: "hm_get_or (by_parent edges) p [] = map fst (filter (\<lambda>e. snd e = p) edges)"
  by (induction edges rule: rev_induct) (auto simp: by_parent_def)

lemma by_parent_wf: "hm_wf (by_parent edges)"
  by (induction edges rule: rev_induct) (auto simp: by_parent_def)

lemma by_parent_keys: "hm_get (by_parent edges) p = None \<longleftrightarrow> p \<notin> snd ` set edges"
  by (induction edges rule: rev_induct) (auto simp: by_parent_def split: if_splits)

lemma register_parents:
  assumes "distinct (map fst rows)" and "dg_wf g" and "fst ` set rows \<inter> set (dg_nodes g) = {}"
  shows "\<exists>g'. fold_err register_parent g rows = Inr g' \<and> dg_wf g' \<and>
    dg_rows g' = dg_rows g @ map (\<lambda>r. (fst r, snd r, [fst r])) rows"
  using assms
proof (induction rows arbitrary: g)
  case (Cons r rows)
  have "\<not> hm_contains (dg_deps g) (fst r)" using Cons.prems by (auto simp: dg_wf_def hm_contains_def)
  then obtain g1 where g1: "dg_register g (fst r) (snd r) [fst r] = Inr g1" by (auto simp: dg_register_def)
  have wf1: "dg_wf g1" and rows1: "dg_rows g1 = dg_rows g @ [(fst r, snd r, [fst r])]"
    using dg_register_wf [OF Cons.prems(2) g1] dg_register_rows [OF Cons.prems(2) g1] by auto
  from arg_cong [OF rows1, of "map fst"] have "dg_nodes g1 = dg_nodes g @ [fst r]" by (simp add: dg_rows_def comp_def)
  with Cons.prems have "fst ` set rows \<inter> set (dg_nodes g1) = {}" by auto
  with Cons.IH [OF _ wf1] Cons.prems(1) rows1 show ?case by (simp add: register_parent_def g1)
qed simp

lemma register_leaves:
  assumes "dg_wf g"
  shows "\<exists>g' ks. fold_err register_leaf g edges = Inr g' \<and> dg_wf g' \<and> dg_rows g' = dg_rows g @ map (\<lambda>k. (k, [], [k])) ks \<and>
    set (dg_nodes g') = set (dg_nodes g) \<union> fst ` set edges"
  using assms
proof (induction edges arbitrary: g)
  case (Cons e edges)
  show ?case
  proof (cases "dg_contains g (fst e)")
    case True
    with Cons.IH [OF Cons.prems] obtain g' ks where "fold_err register_leaf g edges = Inr g'" "dg_wf g'"
      "dg_rows g' = dg_rows g @ map (\<lambda>k. (k, [], [k])) ks" "set (dg_nodes g') = set (dg_nodes g) \<union> fst ` set edges" by blast
    moreover have "fst e \<in> set (dg_nodes g)" using True Cons.prems by (auto simp: dg_contains_def dg_wf_def hm_contains_def)
    ultimately show ?thesis using True by (auto simp: register_leaf_def [of g e] insert_absorb)
  next
    case False
    then obtain g1 where g1: "dg_register g (fst e) [] [fst e] = Inr g1" by (auto simp: dg_register_def dg_contains_def)
    have wf1: "dg_wf g1" and rows1: "dg_rows g1 = dg_rows g @ [(fst e, [], [fst e])]"
      using dg_register_wf [OF Cons.prems g1] dg_register_rows [OF Cons.prems g1] by auto
    from arg_cong [OF rows1, of "map fst"] have nodes: "dg_nodes g1 = dg_nodes g @ [fst e]" by (simp add: dg_rows_def comp_def)
    from Cons.IH [OF wf1] obtain g' ks where g': "fold_err register_leaf g1 edges = Inr g'" "dg_wf g'"
      "dg_rows g' = dg_rows g1 @ map (\<lambda>k. (k, [], [k])) ks" "set (dg_nodes g') = set (dg_nodes g1) \<union> fst ` set edges" by blast
    have "dg_rows g' = dg_rows g @ map (\<lambda>k. (k, [], [k])) (fst e # ks)" using g'(3) rows1 by simp
    moreover have "fold_err register_leaf g (e # edges) = Inr g'"
      using False g'(1) by (simp add: register_leaf_def [of g e] register_parent_def [of g] g1)
    moreover have "set (dg_nodes g') = set (dg_nodes g) \<union> fst ` set (e # edges)" using g'(4) nodes by auto
    ultimately show ?thesis using g'(2) by blast
  qed
qed simp

lemma rows_get:
  assumes "dg_wf g" and "(n, ds, ps) \<in> set (dg_rows g)"
  shows "hm_get (dg_deps g) n = Some ds" "hm_get (dg_provides g) n = Some ps"
proof -
  have "n \<in> dom (hm_get (dg_deps g))" "n \<in> dom (hm_get (dg_provides g))" using assms by (auto simp: dg_rows_def dg_wf_def)
  then show "hm_get (dg_deps g) n = Some ds" "hm_get (dg_provides g) n = Some ps"
    using assms(2) by (auto simp: dg_rows_def hm_get_or_def)
qed

lemma from_edges_spec:
  "\<exists>g. from_edges edges = Inr g \<and> dg_wf g \<and> {(c, p). feeds g c p} = set edges \<and> set (dg_nodes g) = fst ` set edges \<union> snd ` set edges"
proof -
  have "distinct (map fst (by_parent edges))" using by_parent_wf [of edges] by (simp add: hm_wf_def)
  from register_parents [OF this dg_wf_new] obtain g1 where g1: "fold_err register_parent dg_new (by_parent edges) = Inr g1"
    "dg_wf g1" "dg_rows g1 = map (\<lambda>r. (fst r, snd r, [fst r])) (by_parent edges)" by (auto simp: dg_new_def dg_rows_def)
  from register_leaves [OF g1(2), of edges] obtain g ks where g: "fold_err register_leaf g1 edges = Inr g" "dg_wf g"
    "dg_rows g = dg_rows g1 @ map (\<lambda>k. (k, [], [k])) ks" "set (dg_nodes g) = set (dg_nodes g1) \<union> fst ` set edges" by blast
  have "dg_nodes g1 = map fst (by_parent edges)" using arg_cong [OF g1(3), of "map fst"] by (simp add: dg_rows_def comp_def)
  then have nodes1: "set (dg_nodes g1) = snd ` set edges"
    using by_parent_keys [of edges] hm_keys_dom [of "by_parent edges"] by (auto simp: hm_keys_def dom_def)
  have provides: "hm_get (dg_provides g) k = Some [k]" if "k \<in> set (dg_nodes g)" for k
  proof -
    from that obtain ds ps where row: "(k, ds, ps) \<in> set (dg_rows g)" by (force simp: dg_rows_def)
    then have "ps = [k]" by (auto simp: g(3) g1(3))
    then show ?thesis using rows_get(2) [OF g(2) row] by simp
  qed
  have deps: "hm_get (dg_deps g) p = Some ds \<Longrightarrow> c \<in> set ds \<longleftrightarrow> (c, p) \<in> set edges" for p ds c
  proof -
    assume "hm_get (dg_deps g) p = Some ds"
    then have "p \<in> set (dg_nodes g)" using g(2) by (auto simp: dg_wf_def)
    then have "\<exists>ps. (p, ds, ps) \<in> set (dg_rows g)" using \<open>hm_get (dg_deps g) p = Some ds\<close> by (force simp: dg_rows_def hm_get_or_def)
    then consider "(p, ds) \<in> set (by_parent edges)" | "p \<in> set ks" "ds = []" by (auto simp: g(3) g1(3))
    then show ?thesis
    proof cases
      case 1
      then have "hm_get (by_parent edges) p = Some ds" using hm_get_iff [OF by_parent_wf] by blast
      then have "ds = map fst (filter (\<lambda>e. snd e = p) edges)" using by_parent_get [of edges p] by (simp add: hm_get_or_def)
      then show ?thesis by force
    next
      case 2
      have "dg_nodes g = dg_nodes g1 @ ks" using arg_cong [OF g(3), of "map fst"] by (simp add: dg_rows_def comp_def)
      then have "distinct (dg_nodes g1 @ ks)" using g(2) by (simp add: dg_wf_def)
      then have "p \<notin> snd ` set edges" using 2(1) nodes1 by auto
      then show ?thesis using 2(2) by force
    qed
  qed
  have "feeds g c p \<longleftrightarrow> (c, p) \<in> set edges" for c p
  proof
    assume f: "feeds g c p"
    then have "hm_get (dg_provides g) c = Some [c]" using provides feeds_registered(1) [OF g(2) f] by blast
    then show "(c, p) \<in> set edges" using f deps by (auto simp: feeds_def)
  next
    assume e: "(c, p) \<in> set edges"
    then have "c \<in> set (dg_nodes g)" "p \<in> set (dg_nodes g)" using g(4) nodes1 by force+
    moreover from this obtain ds where "hm_get (dg_deps g) p = Some ds" using dg_wf_registered_deps [OF g(2)] by blast
    ultimately show "feeds g c p" using provides [of c] deps [of p ds c] e by (auto simp: feeds_def)
  qed
  then show ?thesis using g g1 nodes1 by (auto simp: from_edges_def)
qed

section \<open>What a store promises\<close>

text \<open>
  The laws of a registry that its clients rely on: the first canonical name of an id is the one it resolves to, and
  later ones are kept behind it.
\<close>

lemma hd_rev_remdups: "hd (rev (remdups (rev (x # xs)))) = x"
proof -
  have "remdups (ys @ [x]) \<noteq> [] \<and> last (remdups (ys @ [x])) = x" for ys :: "'a list"
    by (induction ys) auto
  then show ?thesis by (simp add: hd_rev)
qed

locale concept_store =
  fixes lookup :: "'s \<Rightarrow> interlingua_id \<Rightarrow> concept_error + concept_metadata"
    and add :: "'s \<Rightarrow> concept_metadata \<Rightarrow> 's"
    and candidates :: "'s \<Rightarrow> interlingua_id \<Rightarrow> concept_metadata list"
    and inv :: "'s \<Rightarrow> bool"
  assumes inv_add: "inv s \<Longrightarrow> inv (add s m)"
    and candidates_add: "inv s \<Longrightarrow> candidates (add s m) i =
      (if i = cm_id m \<and> cm_canonical_name m \<notin> cm_canonical_name ` set (candidates s i) then candidates s i @ [m] else candidates s i)"
    and lookup_first: "inv s \<Longrightarrow> (case candidates s i of [] \<Rightarrow> \<exists>e. lookup s i = Inl e | c # cs \<Rightarrow> lookup s i = Inr c)"
begin

lemma inv_add_all: "inv s \<Longrightarrow> inv (foldl add s ms)"
  by (induction ms arbitrary: s) (simp_all add: inv_add)

text \<open>The names under an id are those registered for it, each once, in the order they arrived.\<close>

lemma candidates_all:
  "inv s \<Longrightarrow> candidates s i = [] \<Longrightarrow>
     map cm_canonical_name (candidates (foldl add s ms) i) =
     rev (remdups (rev (map cm_canonical_name (filter (\<lambda>m. cm_id m = i) ms))))"
proof (induction ms rule: rev_induct)
  case (snoc m ms)
  let ?s = "foldl add s ms"
  have IH: "map cm_canonical_name (candidates ?s i) = rev (remdups (rev (map cm_canonical_name (filter (\<lambda>m. cm_id m = i) ms))))"
    using snoc by blast
  have "cm_canonical_name ` set (candidates ?s i) = cm_canonical_name ` set (filter (\<lambda>m. cm_id m = i) ms)"
    using arg_cong [OF IH, of set] by simp
  then show ?case using IH candidates_add [OF inv_add_all [OF snoc.prems(1)], of ms m i] by auto
qed simp

lemma lookup_all:
  assumes "inv s" and "candidates s i = []"
  shows "case find (\<lambda>m. cm_id m = i) ms of
      None \<Rightarrow> \<exists>e. lookup (foldl add s ms) i = Inl e
    | Some m \<Rightarrow> \<exists>c. lookup (foldl add s ms) i = Inr c \<and> cm_canonical_name c = cm_canonical_name m"
proof -
  let ?c = "candidates (foldl add s ms) i"
  have c: "map cm_canonical_name ?c = rev (remdups (rev (map cm_canonical_name (filter (\<lambda>m. cm_id m = i) ms))))"
    by (rule candidates_all [OF assms])
  note first = lookup_first [OF inv_add_all [OF assms(1)], of ms i]
  show ?thesis
  proof (cases "filter (\<lambda>m. cm_id m = i) ms")
    case Nil
    then have "find (\<lambda>m. cm_id m = i) ms = None" by (auto simp: find_None_iff filter_empty_conv)
    then show ?thesis using c Nil first by simp
  next
    case (Cons m fs)
    then have "find (\<lambda>m. cm_id m = i) ms = Some m" by (induction ms) (auto split: if_splits)
    moreover have "hd (map cm_canonical_name ?c) = cm_canonical_name m"
      using c Cons hd_rev_remdups [of "cm_canonical_name m" "map cm_canonical_name fs"] by simp
    ultimately show ?thesis using c Cons first by (cases ?c) auto
  qed
qed

end

section \<open>The in-memory store keeps the promise\<close>

definition ms_wf :: "mem_store \<Rightarrow> bool" where
  "ms_wf s \<longleftrightarrow> (\<forall>i. \<forall>m \<in> set (ms_candidates s i). cm_id m = i) \<and> from_edges (ms_edges s) = Inr (ms_hierarchy s)"

definition parent_edges :: "concept_metadata \<Rightarrow> (interlingua_id \<times> interlingua_id) set" where
  "parent_edges m = (case cm_parent_class_id m of None \<Rightarrow> {} | Some p \<Rightarrow> {(cm_id m, p)})"

abbreviation ms_put :: "mem_store \<Rightarrow> concept_metadata \<Rightarrow> mem_store" where
  "ms_put s m \<equiv> snd (ms_insert s m)"

lemma ms_insert_parts:
  assumes "from_edges (ms_edges s) = Inr (ms_hierarchy s)"
  shows "fst (ms_insert s m) = None"
    "ms_candidates (ms_put s m) i =
      (if i = cm_id m \<and> cm_canonical_name m \<notin> cm_canonical_name ` set (ms_candidates s i) then ms_candidates s i @ [m] else ms_candidates s i)"
    "set (ms_edges (ms_put s m)) = set (ms_edges s) \<union> parent_edges m"
    "from_edges (ms_edges (ms_put s m)) = Inr (ms_hierarchy (ms_put s m))"
proof -
  have named: "list_ex (\<lambda>x. cm_canonical_name x = n) xs \<longleftrightarrow> n \<in> cm_canonical_name ` set xs" for n xs
    by (force simp: list_ex_iff)
  define g where "g p = projr (from_edges (ms_edges s @ [(cm_id m, p)]))" for p
  have g: "from_edges (ms_edges s @ [(cm_id m, p)]) = Inr (g p)" for p
    using from_edges_spec [of "ms_edges s @ [(cm_id m, p)]"] by (auto simp: g_def)
  show "fst (ms_insert s m) = None"
    using assms g by (auto simp: ms_insert_def Let_def split: option.splits)
  show "ms_candidates (ms_put s m) i =
      (if i = cm_id m \<and> cm_canonical_name m \<notin> cm_canonical_name ` set (ms_candidates s i) then ms_candidates s i @ [m] else ms_candidates s i)"
    using assms g by (auto simp: ms_insert_def Let_def ms_candidates_def named split: option.splits)
  show "set (ms_edges (ms_put s m)) = set (ms_edges s) \<union> parent_edges m"
    using assms g by (auto simp: ms_insert_def Let_def parent_edges_def split: option.splits)
  show "from_edges (ms_edges (ms_put s m)) = Inr (ms_hierarchy (ms_put s m))"
    using assms g by (auto simp: ms_insert_def Let_def split: option.splits)
qed

lemma ms_wf_new: "ms_wf ms_new"
  by (simp add: ms_wf_def ms_new_def ms_candidates_def from_edges_def by_parent_def) (simp add: hm_empty_def)

interpretation mem: concept_store "ms_get show_id" ms_put ms_candidates ms_wf
proof
  show "ms_wf (ms_put s m)" if "ms_wf s" for s m
    using that ms_insert_parts [of s m] by (auto simp: ms_wf_def split: if_splits)
  show "ms_candidates (ms_put s m) i =
      (if i = cm_id m \<and> cm_canonical_name m \<notin> cm_canonical_name ` set (ms_candidates s i) then ms_candidates s i @ [m] else ms_candidates s i)"
    if "ms_wf s" for s m i using that ms_insert_parts(2) [of s] by (simp add: ms_wf_def)
  show "case ms_candidates s i of [] \<Rightarrow> \<exists>e. ms_get show_id s i = Inl e | c # cs \<Rightarrow> ms_get show_id s i = Inr c" for s i
    by (simp add: ms_candidates_def ms_get_def hm_get_or_def split: option.split list.split)
qed

lemma ms_edges_all: "ms_wf s \<Longrightarrow> set (ms_edges (foldl ms_put s ms)) = set (ms_edges s) \<union> \<Union> (parent_edges ` set ms)"
proof (induction ms arbitrary: s)
  case (Cons m ms)
  have "from_edges (ms_edges s) = Inr (ms_hierarchy s)" using Cons.prems by (simp add: ms_wf_def)
  then show ?case using Cons.IH [OF mem.inv_add [OF Cons.prems]] by (simp add: ms_insert_parts(3) Un_assoc)
qed simp

text \<open>The first insertion of a key wins.\<close>

lemma hm_get_or_insert_first: "hm_get (or_insert m k v) j = (case hm_get m j of None \<Rightarrow> if j = k then Some v else None | Some w \<Rightarrow> Some w)"
  by (auto simp: or_insert_def hm_contains_def split: option.split)

lemma ms_insert_names:
  "hm_get (ms_names (ms_put s m)) name =
     (case hm_get (ms_names s) name of None \<Rightarrow> if cm_canonical_name m = name then Some (cm_id m) else None | Some i \<Rightarrow> Some i)"
  "hm_get (ms_yago_iris (ms_put s m)) iri =
     (case hm_get (ms_yago_iris s) iri of None \<Rightarrow> if cm_yago_iri m = Some iri then Some (cm_id m) else None | Some i \<Rightarrow> Some i)"
  by (auto simp: ms_insert_def Let_def hm_get_or_insert_first split: option.split sum.split)

lemma ms_names_all:
  "hm_get (ms_names (foldl ms_put s ms)) name =
     (case hm_get (ms_names s) name of None \<Rightarrow> map_option cm_id (find (\<lambda>m. cm_canonical_name m = name) ms) | Some i \<Rightarrow> Some i)"
  "hm_get (ms_yago_iris (foldl ms_put s ms)) iri =
     (case hm_get (ms_yago_iris s) iri of None \<Rightarrow> map_option cm_id (find (\<lambda>m. cm_yago_iri m = Some iri) ms) | Some i \<Rightarrow> Some i)"
  by (induction ms arbitrary: s) (auto simp: ms_insert_names split: option.split)

section \<open>Properties\<close>

text \<open>
  C37. A registry built by insertions never fails to insert. An id resolves to the first canonical name registered
  for it and lists every other name of it once, in order. The superclasses of a class are exactly its transitive
  parents, each once, also when the parent links form a cycle. A name and an IRI resolve to the first id that was
  registered with them, and are not found when there is none.
\<close>

theorem concept_store_exact:
  fixes ms :: "concept_metadata list"
  defines "s \<equiv> foldl ms_put ms_new ms" and "sub \<equiv> (\<Union>m \<in> set ms. parent_edges m)"
  shows "fst (ms_insert s m) = None \<and>
    map cm_canonical_name (ms_candidates s i) = rev (remdups (rev (map cm_canonical_name (filter (\<lambda>m. cm_id m = i) ms)))) \<and>
    (case find (\<lambda>m. cm_id m = i) ms of
       None \<Rightarrow> \<exists>e. ms_get show_id s i = Inl e
     | Some m \<Rightarrow> \<exists>c. ms_get show_id s i = Inr c \<and> cm_canonical_name c = cm_canonical_name m) \<and>
    distinct (ms_ancestors_of s i) \<and> set (ms_ancestors_of s i) = {k. k \<noteq> i \<and> (i, k) \<in> sub\<^sup>+} \<and>
    (ms_is_subclass_of s i k \<longleftrightarrow> (i, k) \<in> sub\<^sup>*) \<and>
    ms_resolve_name s name =
      (case find (\<lambda>m. cm_canonical_name m = name) ms of None \<Rightarrow> Inl (NotFoundC name) | Some m \<Rightarrow> Inr (cm_id m)) \<and>
    ms_resolve_yago_iri s iri =
      (case find (\<lambda>m. cm_yago_iri m = Some iri) ms of None \<Rightarrow> Inl (NotFoundC iri) | Some m \<Rightarrow> Inr (cm_id m))"
proof (intro conjI)
  have wf: "ms_wf s" unfolding s_def by (rule mem.inv_add_all [OF ms_wf_new])
  then have built: "from_edges (ms_edges s) = Inr (ms_hierarchy s)" by (simp add: ms_wf_def)
  have none: "ms_candidates ms_new i = []" by (simp add: ms_new_def ms_candidates_def)
  show "fst (ms_insert s m) = None" by (rule ms_insert_parts(1) [OF built])
  show "map cm_canonical_name (ms_candidates s i) = rev (remdups (rev (map cm_canonical_name (filter (\<lambda>m. cm_id m = i) ms))))"
    unfolding s_def by (rule mem.candidates_all [OF ms_wf_new none])
  show "case find (\<lambda>m. cm_id m = i) ms of
       None \<Rightarrow> \<exists>e. ms_get show_id s i = Inl e
     | Some m \<Rightarrow> \<exists>c. ms_get show_id s i = Inr c \<and> cm_canonical_name c = cm_canonical_name m"
    unfolding s_def by (rule mem.lookup_all [OF ms_wf_new none])
  have "set (ms_edges s) = sub" unfolding s_def sub_def using ms_edges_all [OF ms_wf_new] by (simp add: ms_new_def)
  moreover from from_edges_spec [of "ms_edges s"] obtain g where "from_edges (ms_edges s) = Inr g" "dg_wf g"
    "{(c, p). feeds g c p} = set (ms_edges s)" by blast
  ultimately have g: "dg_wf (ms_hierarchy s)" "{(c, p). feeds (ms_hierarchy s) c p} = sub" using built by simp_all
  show "distinct (ms_ancestors_of s i)" by (simp add: ms_ancestors_of_def tx_ancestors_def dg_dependents_of_via(2))
  have anc: "k \<in> set (ms_ancestors_of s i) \<longleftrightarrow> k \<noteq> i \<and> (i, k) \<in> sub\<^sup>*" for k
    unfolding ms_ancestors_of_def tx_ancestors_def dg_dependents_of_via(1) via_rel_feeds [OF g(1)] g(2) ..
  have "k \<noteq> i \<and> (i, k) \<in> sub\<^sup>* \<longleftrightarrow> k \<noteq> i \<and> (i, k) \<in> sub\<^sup>+" for k unfolding rtrancl_eq_or_trancl by blast
  with anc show "set (ms_ancestors_of s i) = {k. k \<noteq> i \<and> (i, k) \<in> sub\<^sup>+}" by blast
  show "ms_is_subclass_of s i k \<longleftrightarrow> (i, k) \<in> sub\<^sup>*"
    unfolding ms_is_subclass_of_def tx_is_subclass_def ms_ancestors_of_def [symmetric] anc by blast
  have new: "hm_get (ms_names ms_new) name = None" "hm_get (ms_yago_iris ms_new) iri = None" by (simp_all add: ms_new_def)
  show "ms_resolve_name s name =
      (case find (\<lambda>m. cm_canonical_name m = name) ms of None \<Rightarrow> Inl (NotFoundC name) | Some m \<Rightarrow> Inr (cm_id m))"
    by (simp add: ms_resolve_name_def s_def ms_names_all new split: option.split)
  show "ms_resolve_yago_iri s iri =
      (case find (\<lambda>m. cm_yago_iri m = Some iri) ms of None \<Rightarrow> Inl (NotFoundC iri) | Some m \<Rightarrow> Inr (cm_id m))"
    by (simp add: ms_resolve_yago_iri_def s_def ms_names_all new split: option.split)
qed

text \<open>
  Resolving a document stamps every token whose lemma is a stored nonempty string with the id of that string and
  its confidence, leaves the other tokens and fields alone, and reports the collisions in token order.
\<close>

theorem resolve_doc_exact:
  fixes doc :: doc_tokens and strings :: string_store
  defines "canon \<equiv> (\<lambda>i. case ss_get strings (tk_lemma (doc ! i)) of None \<Rightarrow> [] | Some s \<Rightarrow> s)"
  shows "resolve_doc get strings conf doc =
    (map (\<lambda>i. if canon i = [] then doc ! i
              else (doc ! i)\<lparr>tk_interlingua_lemma_id := Some (lemma_id_for_str (canon i)),
                 tk_confidence := (case conf of None \<Rightarrow> None | Some c \<Rightarrow> if i < length c then Some (c ! i) else None)\<rparr>) [0..<length doc],
     filter (\<lambda>n. n \<noteq> NoCollision) (map (\<lambda>i. snd (resolve_hash get (canon i))) (filter (\<lambda>i. canon i \<noteq> []) [0..<length doc])))"
proof -
  define f where "f i = (if canon i = [] then doc ! i
    else (doc ! i)\<lparr>tk_interlingua_lemma_id := Some (lemma_id_for_str (canon i)),
       tk_confidence := (case conf of None \<Rightarrow> None | Some c \<Rightarrow> if i < length c then Some (c ! i) else None)\<rparr>)" for i
  let ?notes = "\<lambda>n. filter (\<lambda>n. n \<noteq> NoCollision) (map (\<lambda>i. snd (resolve_hash get (canon i))) (filter (\<lambda>i. canon i \<noteq> []) [0..<n]))"
  have "foldl (resolve_token get strings conf) (doc, []) [0..<n] = (map f [0..<n] @ drop n doc, ?notes n)" if "n \<le> length doc" for n
    using that
  proof (induction n)
    case (Suc n)
    have at: "(map f [0..<n] @ drop n doc) ! n = doc ! n" using Suc.prems by (simp add: nth_append)
    have upd: "(map f [0..<n] @ drop n doc)[n := x] = map f [0..<n] @ x # drop (Suc n) doc" for x
      using Suc.prems by (simp add: list_update_append flip: Cons_nth_drop_Suc)
    have rest: "map f [0..<n] @ drop n doc = map f [0..<n] @ doc ! n # drop (Suc n) doc" using Suc.prems by (simp add: Cons_nth_drop_Suc)
    have c: "(case ss_get strings (tk_lemma (doc ! n)) of None \<Rightarrow> [] | Some s \<Rightarrow> s) = canon n" by (simp add: canon_def)
    obtain nt where rh: "resolve_hash get (canon n) = (lemma_id_for_str (canon n), nt)" by (simp add: resolve_hash_def Let_def)
    have "resolve_token get strings conf (map f [0..<n] @ drop n doc, ?notes n) n = (map f [0..<n] @ f n # drop (Suc n) doc, ?notes (Suc n))"
      unfolding resolve_token_def prod.case at upd c
      by (cases nt) (auto simp: Let_def f_def rest rh)
    then show ?case using Suc by simp
  qed simp
  from this [of "length doc"] show ?thesis by (simp add: resolve_doc_def f_def)
qed

text \<open>The superclasses are not listed nearest first: a grandparent can come after a class further up.\<close>

lemma ancestors_not_nearest_first:
  "case from_edges [(0, 1), (0, 2), (2, 3), (3, 4), (1, 5)] of Inl _ \<Rightarrow> False | Inr t \<Rightarrow> tx_ancestors t 0 = [1, 2, 3, 4, 5]"
  by code_simp

end
