(* ===== verification/Signals.thy ===== *)
theory Signals
  imports DocTree Concepts
begin

text \<open>
  What is read off an attached document: the shared sentence walk of \<open>src/src/spacy-rs/src/doc.rs\<close>
  (\<open>sentence_spans\<close>, \<open>sentence_root\<close>, \<open>lemma_of\<close>), the triples of \<open>triple.rs\<close>, the routing signals of \<open>routing.rs\<close>
  and the lemma search of \<open>retrieval.rs\<close>.

  A document is its tokens together with the string store \<open>strings\<close> of its vocabulary. The mean of the token
  confidences is floating-point arithmetic on stored bits and is the argument \<open>mean\<close>; the Unicode tables are the
  argument \<open>uc\<close>.
\<close>

section \<open>Labels of tokens\<close>

definition label_eq :: "64 word \<Rightarrow> string \<Rightarrow> (string \<Rightarrow> 64 word) \<Rightarrow> bool" where
  "label_eq stored label hash_fn \<longleftrightarrow> hash_fn label = stored"

definition label_in :: "64 word \<Rightarrow> string list \<Rightarrow> (string \<Rightarrow> 64 word) \<Rightarrow> bool" where
  "label_in stored labels hash_fn \<longleftrightarrow> list_ex (\<lambda>l. hash_fn l = stored) labels"

definition dep_is :: "token_record \<Rightarrow> string \<Rightarrow> bool" where
  "dep_is t label = label_eq (tk_dep t) label hash_utf8"

definition dep_in :: "token_record \<Rightarrow> string list \<Rightarrow> bool" where
  "dep_in t labels = label_in (tk_dep t) labels hash_utf8"

section \<open>The sentence walk\<close>

definition sentence_spans :: "doc_tokens \<Rightarrow> (nat \<times> nat) list" where
  "sentence_spans doc =
     (let len = length doc;
          starts = filter (\<lambda>i. tk_sent_start (doc ! i) = Start) [0..<len];
          starts = (if starts = [] \<or> hd starts \<noteq> 0 then 0 # starts else starts);
          starts = starts @ [len]
      in filter (\<lambda>(a, b). a < b) (zip starts (tl starts)))"

definition sentence_root :: "doc_tokens \<Rightarrow> nat \<Rightarrow> nat \<Rightarrow> nat" where
  "sentence_root doc start stop =
     (case find (\<lambda>i. dep_is (doc ! i) ''root'') [start..<stop] of None \<Rightarrow> start | Some i \<Rightarrow> i)"

definition doc_token_text :: "string_store \<Rightarrow> doc_tokens \<Rightarrow> nat \<Rightarrow> string" where
  "doc_token_text strings doc i = orth_text (tk_lexeme (doc ! i)) strings"

definition lemma_of :: "string_store \<Rightarrow> doc_tokens \<Rightarrow> nat \<Rightarrow> string" where
  "lemma_of strings doc i =
     (case ss_get strings (tk_lemma (doc ! i)) of
        Some (c # cs) \<Rightarrow> c # cs
      | _ \<Rightarrow> to_ascii_lowercase (doc_token_text strings doc i))"

section \<open>Triples\<close>

definition SUBJECT_DEPS :: "string list" where
  "SUBJECT_DEPS = [''nsubj'', ''nsubjpass'', ''csubj'', ''csubjpass'']"

definition OBJECT_DEPS :: "string list" where
  "OBJECT_DEPS = [''dobj'']"

record triple =
  tr_subject :: "nat option"
  tr_predicate :: nat
  tr_object :: "nat option"
  tr_sentence_span :: "nat \<times> nat"

text \<open>The loop over the children of the root, with its early exit.\<close>

fun role_scan :: "doc_tokens \<Rightarrow> nat \<Rightarrow> nat \<Rightarrow> nat option \<Rightarrow> nat option \<Rightarrow> nat list \<Rightarrow> nat option \<times> nat option" where
  "role_scan doc s e subject object [] = (subject, object)"
| "role_scan doc s e subject object (child # cs) =
     (if child < s \<or> child \<ge> e then role_scan doc s e subject object cs
      else
        let subject = (if subject = None \<and> dep_in (doc ! child) SUBJECT_DEPS then Some child else subject);
            object = (if object = None \<and> dep_in (doc ! child) OBJECT_DEPS then Some child else object)
        in if subject \<noteq> None \<and> object \<noteq> None then (subject, object) else role_scan doc s e subject object cs)"

definition triple_of :: "doc_tokens \<Rightarrow> nat \<times> nat \<Rightarrow> triple" where
  "triple_of doc span =
     (let (s, e) = span;
          root = sentence_root doc s e;
          (subject, object) = role_scan doc s e None None (children doc root)
      in \<lparr>tr_subject = subject, tr_predicate = root, tr_object = object, tr_sentence_span = (s, e)\<rparr>)"

definition extract_triples :: "doc_tokens \<Rightarrow> triple list" where
  "extract_triples doc = (if doc = [] then [] else map (triple_of doc) (sentence_spans doc))"

record scored_lemma =
  sl_id :: interlingua_id
  sl_lemma :: string

record plausibility_triple =
  pt_subject :: "scored_lemma option"
  pt_predicate :: scored_lemma
  pt_object :: "scored_lemma option"

definition scored_lemma_of :: "string_store \<Rightarrow> doc_tokens \<Rightarrow> nat \<Rightarrow> scored_lemma" where
  "scored_lemma_of strings doc idx =
     (let l = (case ss_get strings (tk_lemma (doc ! idx)) of None \<Rightarrow> [] | Some s \<Rightarrow> s)
      in \<lparr>sl_id = lemma_id_for_str l, sl_lemma = l\<rparr>)"

definition build_plausibility_inputs :: "string_store \<Rightarrow> doc_tokens \<Rightarrow> triple list \<Rightarrow> plausibility_triple list" where
  "build_plausibility_inputs strings doc triples =
     map (\<lambda>t. \<lparr>pt_subject = map_option (scored_lemma_of strings doc) (tr_subject t),
               pt_predicate = scored_lemma_of strings doc (tr_predicate t),
               pt_object = map_option (scored_lemma_of strings doc) (tr_object t)\<rparr>) triples"

definition semantic_plausibility_via_fetch ::
    "(plausibility_triple list \<Rightarrow> 'f option) option \<Rightarrow> string_store \<Rightarrow> doc_tokens \<Rightarrow> triple list \<Rightarrow> 'f option" where
  "semantic_plausibility_via_fetch fetch strings doc triples =
     (if triples = [] then None
      else case fetch of None \<Rightarrow> None | Some f \<Rightarrow> f (build_plausibility_inputs strings doc triples))"

section \<open>Routing signals\<close>

definition INDIRECT_OBJECT_DEPS :: "string list" where
  "INDIRECT_OBJECT_DEPS = [''iobj'']"

definition MODIFIER_DEPS :: "string list" where
  "MODIFIER_DEPS = [''compound'', ''amod'', ''nummod'']"

definition QUALIFIER_DEPS :: "string list" where
  "QUALIFIER_DEPS = [''aux'', ''auxpass'', ''neg'', ''advmod'']"

definition PREP_DEPS :: "string list" where
  "PREP_DEPS = [''prep'']"

definition POBJ_DEPS :: "string list" where
  "POBJ_DEPS = [''pobj'', ''pcomp'']"

record interlingua_signal =
  is_predicate_id :: "interlingua_id option"
  is_subject_id :: "interlingua_id option"
  is_direct_object_id :: "interlingua_id option"
  is_indirect_object_id :: "interlingua_id option"
  is_concept_ids :: "interlingua_id list"
  is_token_ids :: "interlingua_id list"
  is_confidence :: "64 word option"

record routing_signal =
  rs_sentence :: string
  rs_predicate :: string
  rs_subject :: "string option"
  rs_direct_object :: "string option"
  rs_indirect_object :: "string option"
  rs_modifiers :: "string list"
  rs_qualifiers :: "string list"
  rs_arguments :: "(string \<times> string) list"
  rs_dependents :: "string list"
  rs_tokens :: "string list"
  rs_lemmas :: "string list"
  rs_pos :: "string list"
  rs_deps :: "string list"
  rs_heads :: "int list"
  rs_interlingua :: "interlingua_signal option"

text \<open>The locals of the loop over the tokens of a sentence; a slot keeps the token, its lemma is read off it.\<close>

record signal_slots =
  sl_subject :: "nat option"
  sl_direct_object :: "nat option"
  sl_indirect_object :: "nat option"
  sl_modifiers :: "string list"
  sl_qualifiers :: "string list"
  sl_arguments :: "(string \<times> string) list"
  sl_dependents :: "string list"
  sl_concept_ids :: "interlingua_id list"

definition slots_new :: signal_slots where
  "slots_new = \<lparr>sl_subject = None, sl_direct_object = None, sl_indirect_object = None, sl_modifiers = [], sl_qualifiers = [],
     sl_arguments = [], sl_dependents = [], sl_concept_ids = []\<rparr>"

definition prep_arguments :: "string_store \<Rightarrow> doc_tokens \<Rightarrow> nat \<Rightarrow> (string \<times> string) list" where
  "prep_arguments strings doc i =
     map (\<lambda>c. (lemma_of strings doc i, lemma_of strings doc c)) (filter (\<lambda>c. dep_in (doc ! c) POBJ_DEPS) (children doc i))"

definition slot_step :: "string_store \<Rightarrow> doc_tokens \<Rightarrow> nat \<Rightarrow> signal_slots \<Rightarrow> nat \<Rightarrow> signal_slots" where
  "slot_step strings doc root sl i =
     (if i = root then sl
      else
        let t = doc ! i;
            sl = (if dep_in t SUBJECT_DEPS then sl\<lparr>sl_subject := Some i\<rparr>
                  else if dep_in t OBJECT_DEPS then sl\<lparr>sl_direct_object := Some i\<rparr>
                  else if dep_in t INDIRECT_OBJECT_DEPS then sl\<lparr>sl_indirect_object := Some i\<rparr>
                  else if dep_in t MODIFIER_DEPS then sl\<lparr>sl_modifiers := sl_modifiers sl @ [lemma_of strings doc i]\<rparr>
                  else if dep_in t QUALIFIER_DEPS then sl\<lparr>sl_qualifiers := sl_qualifiers sl @ [lemma_of strings doc i]\<rparr>
                  else if dep_in t PREP_DEPS then sl\<lparr>sl_arguments := sl_arguments sl @ prep_arguments strings doc i\<rparr>
                  else if dep_in t POBJ_DEPS then sl
                  else sl\<lparr>sl_dependents := sl_dependents sl @ [lemma_of strings doc i]\<rparr>)
        in case tk_interlingua_entity_id t of
             None \<Rightarrow> sl
           | Some ent \<Rightarrow> if id_is_yago ent then sl\<lparr>sl_concept_ids := sl_concept_ids sl @ [ent]\<rparr> else sl)"

definition sentence_confidence :: "(64 word list \<Rightarrow> 64 word) \<Rightarrow> doc_tokens \<Rightarrow> nat \<Rightarrow> nat \<Rightarrow> 64 word option" where
  "sentence_confidence mean doc start stop =
     (let cs = List.map_filter (\<lambda>i. tk_confidence (doc ! i)) [start..<stop] in if cs = [] then None else Some (mean cs))"

fun join_with :: "string \<Rightarrow> string list \<Rightarrow> string" where
  "join_with sep [] = []"
| "join_with sep [w] = w"
| "join_with sep (w # ws) = w @ sep @ join_with sep ws"

definition signal_for_sentence :: "(64 word list \<Rightarrow> 64 word) \<Rightarrow> string_store \<Rightarrow> doc_tokens \<Rightarrow> nat \<times> nat \<Rightarrow> routing_signal" where
  "signal_for_sentence mean strings doc span =
     (let (start, stop) = span;
          root = sentence_root doc start stop;
          is = [start..<stop];
          sl = foldl (slot_step strings doc root) slots_new is;
          tokens = map (doc_token_text strings doc) is;
          id_of = (\<lambda>i. case tk_interlingua_lemma_id (doc ! i) of None \<Rightarrow> 0 | Some v \<Rightarrow> v)
      in \<lparr>rs_sentence = join_with '' '' tokens,
          rs_predicate = lemma_of strings doc root,
          rs_subject = map_option (lemma_of strings doc) (sl_subject sl),
          rs_direct_object = map_option (lemma_of strings doc) (sl_direct_object sl),
          rs_indirect_object = map_option (lemma_of strings doc) (sl_indirect_object sl),
          rs_modifiers = sl_modifiers sl,
          rs_qualifiers = sl_qualifiers sl,
          rs_arguments = sl_arguments sl,
          rs_dependents = sl_dependents sl,
          rs_tokens = tokens,
          rs_lemmas = map (lemma_of strings doc) is,
          rs_pos = map (\<lambda>i. upos_str (tk_pos (doc ! i))) is,
          rs_deps = map (\<lambda>i. case ss_get strings (tk_dep (doc ! i)) of None \<Rightarrow> [] | Some s \<Rightarrow> s) is,
          rs_heads = map (\<lambda>i. tk_head (doc ! i)) is,
          rs_interlingua = Some
            \<lparr>is_predicate_id = tk_interlingua_lemma_id (doc ! root),
             is_subject_id = map_option id_of (sl_subject sl),
             is_direct_object_id = map_option id_of (sl_direct_object sl),
             is_indirect_object_id = map_option id_of (sl_indirect_object sl),
             is_concept_ids = sl_concept_ids sl,
             is_token_ids = map id_of is,
             is_confidence = sentence_confidence mean doc start stop\<rparr>\<rparr>)"

definition extract_routing_signals :: "(64 word list \<Rightarrow> 64 word) \<Rightarrow> string_store \<Rightarrow> doc_tokens \<Rightarrow> routing_signal list" where
  "extract_routing_signals mean strings doc =
     (if doc = [] then [] else map (signal_for_sentence mean strings doc) (sentence_spans doc))"

section \<open>Searching lemmas\<close>

record lemma_grep_hit =
  lg_start :: nat
  lg_end :: nat
  lg_lemma :: string
  lg_lemma_id :: "interlingua_id option"
  lg_confidence :: "64 word"

text \<open>The loop over the tokens with the byte offset; the bits of \<open>0.0\<close> are zero.\<close>

fun grep_loop :: "unicode \<Rightarrow> string_store \<Rightarrow> string \<Rightarrow> nat \<Rightarrow> doc_tokens \<Rightarrow> lemma_grep_hit list" where
  "grep_loop uc strings q byte [] = []"
| "grep_loop uc strings q byte (t # ts) =
     (let txt = orth_text (tk_lexeme t) strings;
          rest = grep_loop uc strings q (byte + length txt + (if tk_spacy t then 1 else 0)) ts
      in case ss_get strings (tk_lemma t) of
           None \<Rightarrow> rest
         | Some l \<Rightarrow>
             if la_lower uc l \<noteq> q then rest
             else \<lparr>lg_start = byte, lg_end = byte + length txt, lg_lemma = l, lg_lemma_id = tk_interlingua_lemma_id t,
                   lg_confidence = (case tk_confidence t of None \<Rightarrow> 0 | Some c \<Rightarrow> c)\<rparr> # rest)"

definition lemma_grep :: "unicode \<Rightarrow> string_store \<Rightarrow> doc_tokens \<Rightarrow> string \<Rightarrow> lemma_grep_hit list" where
  "lemma_grep uc strings doc query = grep_loop uc strings (la_lower uc query) 0 doc"

definition span_key :: "string_store \<Rightarrow> doc_tokens \<Rightarrow> nat list \<Rightarrow> 64 word" where
  "span_key strings doc focus =
     (if focus = [] then 0
      else hash_utf8 (join_with [CHR 0x1F] (map (\<lambda>i. to_ascii_lowercase (doc_token_text strings doc i)) focus)))"

section \<open>Sentences\<close>

lemma windows_cover:
  "sorted_wrt (<) (x # xs @ [n]) \<Longrightarrow>
     concat (map (\<lambda>(a, b). [a..<b]) (zip (x # xs @ [n]) (xs @ [n]))) = [x..<n] \<and>
     list_all (\<lambda>(a, b). a < b) (zip (x # xs @ [n]) (xs @ [n])) \<and> map fst (zip (x # xs @ [n]) (xs @ [n])) = x # xs"
proof (induction xs arbitrary: x)
  case (Cons y ys)
  have "[x..<y] @ [y..<n] = [x..<n]" using upt_add_eq_append [of x y "n - y"] Cons.prems by simp
  then show ?case using Cons.IH [of y] Cons.prems by simp
qed simp

lemma sentence_spans_spec:
  "concat (map (\<lambda>(a, b). [a..<b]) (sentence_spans doc)) = [0..<length doc] \<and>
   list_all (\<lambda>(a, b). a < b) (sentence_spans doc) \<and>
   map fst (sentence_spans doc) = filter (\<lambda>i. i = 0 \<or> tk_sent_start (doc ! i) = Start) [0..<length doc]"
proof (cases "doc = []")
  case False
  let ?S = "\<lambda>i. tk_sent_start (doc ! i) = Start"
  define n where "n = length doc"
  define ss where "ss = filter ?S [1..<n]"
  have range: "[0..<n] = 0 # [1..<n]" using False by (simp add: n_def upt_conv_Cons)
  have nz: "0 \<notin> set ss" by (simp add: ss_def)
  have rest: "filter (\<lambda>i. i = 0 \<or> ?S i) [1..<n] = ss" unfolding ss_def by (rule filter_cong) auto
  have S: "filter ?S [0..<n] = (if ?S 0 then 0 # ss else ss)" unfolding range by (simp add: ss_def)
  have starts: "(if filter ?S [0..<n] = [] \<or> hd (filter ?S [0..<n]) \<noteq> 0 then 0 # filter ?S [0..<n] else filter ?S [0..<n]) = 0 # ss"
    unfolding S using nz by (cases ss) auto
  have "sorted_wrt (<) (0 # ss @ [n])"
    using False by (auto simp: ss_def n_def sorted_wrt_append intro: sorted_wrt_filter)
  note cover = windows_cover [OF this]
  have "sentence_spans doc = filter (\<lambda>(a, b). a < b) (zip (0 # ss @ [n]) (ss @ [n]))"
    unfolding sentence_spans_def n_def [symmetric] Let_def starts by simp
  then have spans: "sentence_spans doc = zip (0 # ss @ [n]) (ss @ [n])" using cover by (simp add: filter_id_conv list_all_iff)
  have "filter (\<lambda>i. i = 0 \<or> ?S i) [0..<n] = 0 # ss" unfolding range using rest by simp
  then show ?thesis using cover unfolding spans n_def [symmetric] by simp
qed (simp add: sentence_spans_def)

lemma span_bounds: "(s, e) \<in> set (sentence_spans doc) \<Longrightarrow> s < e \<and> e \<le> length doc"
proof -
  assume m: "(s, e) \<in> set (sentence_spans doc)"
  note spec = sentence_spans_spec [of doc]
  have "s < e" using m spec by (auto simp: list_all_iff)
  moreover from this have "e - 1 \<in> set (concat (map (\<lambda>(a, b). [a..<b]) (sentence_spans doc)))"
    using m by (auto intro!: bexI [of _ "(s, e)"])
  then have "e - 1 < length doc" using spec by simp
  ultimately show ?thesis by simp
qed

lemma sentence_root_in: "s < e \<Longrightarrow> s \<le> sentence_root doc s e \<and> sentence_root doc s e < e"
  by (auto simp: sentence_root_def split: option.split dest!: find_SomeD)

section \<open>Triples\<close>

lemma role_scan_find:
  "role_scan doc s e subject object cs =
     (case subject of None \<Rightarrow> find (\<lambda>c. s \<le> c \<and> c < e \<and> dep_in (doc ! c) SUBJECT_DEPS) cs | Some i \<Rightarrow> Some i,
      case object of None \<Rightarrow> find (\<lambda>c. s \<le> c \<and> c < e \<and> dep_in (doc ! c) OBJECT_DEPS) cs | Some i \<Rightarrow> Some i)"
  by (induction cs arbitrary: subject object) (auto simp: Let_def split: option.splits)

lemma children_exact:
  assumes "navigable tokens doc" and "q < length tokens"
  shows "set (children doc q) = {c. child_of tokens q c}"
  unfolding children_def set_append lefts_children [OF assms] rights_children [OF assms]
  using assms(2) by (auto simp: left_children_def right_children_def child_of_def)

lemma find_spec: "case find P xs of None \<Rightarrow> \<forall>x \<in> set xs. \<not> P x | Some x \<Rightarrow> x \<in> set xs \<and> P x"
  by (auto simp: find_None_iff split: option.split dest: find_SomeD)

section \<open>Routing slots\<close>

datatype slot_role = SubjectSlot | DirectSlot | IndirectSlot | ModifierSlot | QualifierSlot | PrepSlot | PobjSlot | OtherSlot

text \<open>The role of a token by its label, in the order of the tests.\<close>

definition role_of :: "token_record \<Rightarrow> slot_role" where
  "role_of t =
     (if dep_in t SUBJECT_DEPS then SubjectSlot else if dep_in t OBJECT_DEPS then DirectSlot
      else if dep_in t INDIRECT_OBJECT_DEPS then IndirectSlot else if dep_in t MODIFIER_DEPS then ModifierSlot
      else if dep_in t QUALIFIER_DEPS then QualifierSlot else if dep_in t PREP_DEPS then PrepSlot
      else if dep_in t POBJ_DEPS then PobjSlot else OtherSlot)"

definition last_opt :: "'a list \<Rightarrow> 'a option" where
  "last_opt xs = (if xs = [] then None else Some (last xs))"

definition with_role :: "doc_tokens \<Rightarrow> nat \<Rightarrow> nat list \<Rightarrow> slot_role \<Rightarrow> nat list" where
  "with_role doc root is r = filter (\<lambda>i. i \<noteq> root \<and> role_of (doc ! i) = r) is"

definition slots_of :: "string_store \<Rightarrow> doc_tokens \<Rightarrow> nat \<Rightarrow> nat list \<Rightarrow> signal_slots" where
  "slots_of strings doc root is =
     \<lparr>sl_subject = last_opt (with_role doc root is SubjectSlot), sl_direct_object = last_opt (with_role doc root is DirectSlot),
      sl_indirect_object = last_opt (with_role doc root is IndirectSlot),
      sl_modifiers = map (lemma_of strings doc) (with_role doc root is ModifierSlot),
      sl_qualifiers = map (lemma_of strings doc) (with_role doc root is QualifierSlot),
      sl_arguments = concat (map (prep_arguments strings doc) (with_role doc root is PrepSlot)),
      sl_dependents = map (lemma_of strings doc) (with_role doc root is OtherSlot),
      sl_concept_ids = filter id_is_yago (List.map_filter (\<lambda>i. tk_interlingua_entity_id (doc ! i)) (filter (\<lambda>i. i \<noteq> root) is))\<rparr>"

lemma last_opt_simps [simp]: "last_opt [] = None" "last_opt (xs @ [x]) = Some x"
  by (simp_all add: last_opt_def)

lemma map_filter_snoc: "List.map_filter f (xs @ [x]) = List.map_filter f xs @ (case f x of None \<Rightarrow> [] | Some y \<Rightarrow> [y])"
  by (simp add: List.map_filter_def split: option.split)

lemma with_role_snoc: "with_role doc root (is @ [i]) r =
    with_role doc root is r @ (if i \<noteq> root \<and> role_of (doc ! i) = r then [i] else [])"
  by (simp add: with_role_def)

lemma slot_step_of: "slot_step strings doc root (slots_of strings doc root is) i = slots_of strings doc root (is @ [i])"
proof (cases "i = root")
  case True
  then show ?thesis by (simp add: slot_step_def slots_of_def with_role_snoc)
next
  case False
  then show ?thesis
    by (cases "tk_interlingua_entity_id (doc ! i)")
      (simp_all add: slot_step_def slots_of_def with_role_snoc map_filter_snoc role_of_def Let_def)
qed

lemma slots_fold: "foldl (slot_step strings doc root) slots_new is = slots_of strings doc root is"
proof (induction "is" rule: rev_induct)
  case Nil
  show ?case by (simp add: slots_new_def slots_of_def with_role_def map_filter_simps)
next
  case (snoc i "is")
  then show ?case by (simp add: slot_step_of)
qed

section \<open>Lemma search\<close>

definition grep_match :: "unicode \<Rightarrow> string_store \<Rightarrow> string \<Rightarrow> token_record \<Rightarrow> bool" where
  "grep_match uc strings q t = (case ss_get strings (tk_lemma t) of None \<Rightarrow> False | Some l \<Rightarrow> la_lower uc l = q)"

definition grep_hit :: "vocab \<Rightarrow> doc_tokens \<Rightarrow> nat \<Rightarrow> lemma_grep_hit" where
  "grep_hit v doc i =
     \<lparr>lg_start = length (doc_text v (take i doc)),
      lg_end = length (doc_text v (take i doc)) + length (doc_token_text (vo_strings v) doc i),
      lg_lemma = (case ss_get (vo_strings v) (tk_lemma (doc ! i)) of None \<Rightarrow> [] | Some l \<Rightarrow> l),
      lg_lemma_id = tk_interlingua_lemma_id (doc ! i),
      lg_confidence = (case tk_confidence (doc ! i) of None \<Rightarrow> 0 | Some c \<Rightarrow> c)\<rparr>"

lemma grep_loop_spec:
  "grep_loop uc (vo_strings v) q (length (doc_text v pre)) ts =
     map (grep_hit v (pre @ ts)) (filter (\<lambda>i. grep_match uc (vo_strings v) q ((pre @ ts) ! i)) [length pre..<length (pre @ ts)])"
proof (induction ts arbitrary: pre)
  case (Cons t ts)
  have len: "length (doc_text v pre) + length (orth_text (tk_lexeme t) (vo_strings v)) + (if tk_spacy t then 1 else 0) =
      length (doc_text v (pre @ [t]))" by (simp add: doc_text_def token_piece_def)
  have upt: "[length pre..<length (pre @ t # ts)] = length pre # [length (pre @ [t])..<length ((pre @ [t]) @ ts)]"
    by (subst upt_conv_Cons) simp_all
  have "grep_loop uc (vo_strings v) q (length (doc_text v (pre @ [t]))) ts =
     map (grep_hit v (pre @ t # ts)) (filter (\<lambda>i. grep_match uc (vo_strings v) q ((pre @ t # ts) ! i))
       [length (pre @ [t])..<length ((pre @ [t]) @ ts)])" using Cons.IH [of "pre @ [t]"] by simp
  then show ?case unfolding upt grep_loop.simps Let_def len
    by (auto simp: grep_match_def grep_hit_def doc_token_text_def split: option.split)
qed simp

lemma grep_hit_slice:
  assumes "i < length doc"
  shows "take (lg_end (grep_hit v doc i) - lg_start (grep_hit v doc i)) (drop (lg_start (grep_hit v doc i)) (doc_text v doc)) =
    doc_token_text (vo_strings v) doc i"
proof -
  have "doc_text v doc = doc_text v (take i doc) @ token_piece v (doc ! i) @ doc_text v (drop (Suc i) doc)"
    unfolding doc_text_def by (subst id_take_nth_drop [OF assms]) simp
  then show ?thesis by (simp add: grep_hit_def token_piece_def doc_token_text_def)
qed

section \<open>Properties\<close>

text \<open>
  The sentence spans of a document partition its tokens into nonempty windows in order, and their starts are
  exactly the first token and the tokens marked as sentence starts.
\<close>

theorem sentence_spans_partition:
  "concat (map (\<lambda>(a, b). [a..<b]) (sentence_spans doc)) = [0..<length doc] \<and>
   list_all (\<lambda>(a, b). a < b) (sentence_spans doc) \<and>
   map fst (sentence_spans doc) = filter (\<lambda>i. i = 0 \<or> tk_sent_start (doc ! i) = Start) [0..<length doc]"
  by (rule sentence_spans_spec)

text \<open>
  C38. On a document whose tree was rebuilt, there is one triple per sentence: its predicate is a token of the
  sentence, and its subject (its object) is a child of the predicate within the sentence with a subject (object)
  label, missing exactly when there is no such child.
\<close>

theorem triples_exact:
  assumes "in_bounds tokens" and "all_labelled tokens" and "set_children_from_heads tokens = Inr doc"
  shows "map tr_sentence_span (extract_triples doc) = sentence_spans doc \<and>
    (\<forall>t \<in> set (extract_triples doc). \<forall>s e. tr_sentence_span t = (s, e) \<longrightarrow>
       s \<le> tr_predicate t \<and> tr_predicate t < e \<and>
       (case tr_subject t of
          None \<Rightarrow> \<forall>c. child_of tokens (tr_predicate t) c \<and> s \<le> c \<and> c < e \<longrightarrow> \<not> dep_in (doc ! c) SUBJECT_DEPS
        | Some c \<Rightarrow> child_of tokens (tr_predicate t) c \<and> s \<le> c \<and> c < e \<and> dep_in (doc ! c) SUBJECT_DEPS) \<and>
       (case tr_object t of
          None \<Rightarrow> \<forall>c. child_of tokens (tr_predicate t) c \<and> s \<le> c \<and> c < e \<longrightarrow> \<not> dep_in (doc ! c) OBJECT_DEPS
        | Some c \<Rightarrow> child_of tokens (tr_predicate t) c \<and> s \<le> c \<and> c < e \<and> dep_in (doc ! c) OBJECT_DEPS))"
proof (intro conjI ballI allI impI)
  note nav = rebuild_navigable [OF assms]
  have len: "length doc = length tokens" using nav map_eq_imp_length_eq by (auto simp: navigable_def)
  show "map tr_sentence_span (extract_triples doc) = sentence_spans doc"
    by (auto simp: extract_triples_def comp_def triple_of_def Let_def case_prod_beta sentence_spans_def)
  fix t s e assume t: "t \<in> set (extract_triples doc)" "tr_sentence_span t = (s, e)"
  then have m: "(s, e) \<in> set (sentence_spans doc)" "t = triple_of doc (s, e)"
    by (auto simp: extract_triples_def triple_of_def Let_def case_prod_beta split: if_splits)
  note b = span_bounds [OF m(1)]
  let ?r = "sentence_root doc s e"
  have r: "s \<le> ?r" "?r < e" using sentence_root_in b by blast+
  note ch = children_exact [OF nav, of ?r]
  have fields: "tr_predicate t = ?r"
    "tr_subject t = find (\<lambda>c. s \<le> c \<and> c < e \<and> dep_in (doc ! c) SUBJECT_DEPS) (children doc ?r)"
    "tr_object t = find (\<lambda>c. s \<le> c \<and> c < e \<and> dep_in (doc ! c) OBJECT_DEPS) (children doc ?r)"
    using m(2) by (simp_all add: triple_of_def role_scan_find Let_def)
  show "s \<le> tr_predicate t" "tr_predicate t < e" using fields(1) r by simp_all
  have kids: "set (children doc ?r) = {c. child_of tokens ?r c}" using ch r b len by simp
  have "case find (\<lambda>c. s \<le> c \<and> c < e \<and> dep_in (doc ! c) L) (children doc ?r) of
      None \<Rightarrow> \<forall>c. child_of tokens ?r c \<and> s \<le> c \<and> c < e \<longrightarrow> \<not> dep_in (doc ! c) L
    | Some c \<Rightarrow> child_of tokens ?r c \<and> s \<le> c \<and> c < e \<and> dep_in (doc ! c) L" for L
    using find_spec [where P = "\<lambda>c. s \<le> c \<and> c < e \<and> dep_in (doc ! c) L" and xs = "children doc ?r"] kids by (auto split: option.splits)
  then show "case tr_subject t of
          None \<Rightarrow> \<forall>c. child_of tokens (tr_predicate t) c \<and> s \<le> c \<and> c < e \<longrightarrow> \<not> dep_in (doc ! c) SUBJECT_DEPS
        | Some c \<Rightarrow> child_of tokens (tr_predicate t) c \<and> s \<le> c \<and> c < e \<and> dep_in (doc ! c) SUBJECT_DEPS"
    "case tr_object t of
          None \<Rightarrow> \<forall>c. child_of tokens (tr_predicate t) c \<and> s \<le> c \<and> c < e \<longrightarrow> \<not> dep_in (doc ! c) OBJECT_DEPS
        | Some c \<Rightarrow> child_of tokens (tr_predicate t) c \<and> s \<le> c \<and> c < e \<and> dep_in (doc ! c) OBJECT_DEPS"
    unfolding fields by blast+
qed

text \<open>
  The slots of a sentence, by the roles of its tokens: a single slot is overwritten on every match.
\<close>

lemma signal_slots:
  fixes doc :: doc_tokens and strings :: string_store and mean :: "64 word list \<Rightarrow> 64 word"
  defines "sel \<equiv> (\<lambda>s e. with_role doc (sentence_root doc s e) [s..<e])" and "sig \<equiv> (\<lambda>s e. signal_for_sentence mean strings doc (s, e))"
  shows "rs_subject (sig s e) = map_option (lemma_of strings doc) (last_opt (sel s e SubjectSlot)) \<and>
    rs_direct_object (sig s e) = map_option (lemma_of strings doc) (last_opt (sel s e DirectSlot)) \<and>
    rs_indirect_object (sig s e) = map_option (lemma_of strings doc) (last_opt (sel s e IndirectSlot)) \<and>
    rs_modifiers (sig s e) = map (lemma_of strings doc) (sel s e ModifierSlot) \<and>
    rs_qualifiers (sig s e) = map (lemma_of strings doc) (sel s e QualifierSlot) \<and>
    rs_arguments (sig s e) = concat (map (prep_arguments strings doc) (sel s e PrepSlot)) \<and>
    rs_dependents (sig s e) = map (lemma_of strings doc) (sel s e OtherSlot)"
  unfolding sel_def sig_def signal_for_sentence_def Let_def prod.case slots_fold by (simp add: slots_of_def)




text \<open>
  The lemma search reports exactly the tokens whose stored lemma equals the query when both are lowercased, in
  order, and the byte span of a hit cuts the token's text out of the document's text.
\<close>

theorem lemma_grep_exact:
  "lemma_grep uc (vo_strings v) doc query =
     map (grep_hit v doc) (filter (\<lambda>i. grep_match uc (vo_strings v) (la_lower uc query) (doc ! i)) [0..<length doc]) \<and>
   (i < length doc \<longrightarrow>
      take (lg_end (grep_hit v doc i) - lg_start (grep_hit v doc i)) (drop (lg_start (grep_hit v doc i)) (doc_text v doc)) =
      doc_token_text (vo_strings v) doc i)"
proof
  show "lemma_grep uc (vo_strings v) doc query =
     map (grep_hit v doc) (filter (\<lambda>i. grep_match uc (vo_strings v) (la_lower uc query) (doc ! i)) [0..<length doc])"
    using grep_loop_spec [of uc v "la_lower uc query" "[]" doc] by (simp add: lemma_grep_def doc_text_def)
qed (use grep_hit_slice in blast)

section \<open>Examples\<close>

theorem triples_exact_witness:
  "\<exists>doc. set_children_from_heads example_tree = Inr doc \<and> map tr_sentence_span (extract_triples doc) = sentence_spans doc"
proof -
  obtain doc where doc: "set_children_from_heads example_tree = Inr doc" using example_rebuilt by blast
  from triples_exact [OF example_bounds doc] doc show ?thesis by blast
qed

theorem lemma_grep_exact_witness:
  fixes w :: "token_record list"
  defines "w \<equiv> [token_record_new lexeme_empty]"
  shows "lg_end (grep_hit vocab_new w 0) = 0 \<and> take 0 (drop 0 (doc_text vocab_new w)) = doc_token_text (vo_strings vocab_new) w 0"
proof -
  have "lg_start (grep_hit vocab_new w 0) = 0" "lg_end (grep_hit vocab_new w 0) = 0"
    by (simp_all add: w_def grep_hit_def doc_text_def doc_token_text_def orth_text_def token_record_new_def lexeme_empty_def ss_get_def)
  then show ?thesis using lemma_grep_exact [of ascii_unicode vocab_new w "[]" 0] by (simp add: w_def)
qed

end
