(* ===== verification/Frames.thy ===== *)
theory Frames
  imports Complex_Main Signals
begin

text \<open>
  Frame extraction, \<open>src/src/spacy-rs/src/frame.rs\<close>: a frame per sentence with its role slots, polarity and modality,
  the list of ambiguities, and the keys minted for the frames, which are permanent only when nothing is open.

  The candidates of the concept store are the argument \<open>candidates\<close>, the quoted form of a string in a message the
  argument \<open>debug\<close>. Oracle margins are rational numbers and the threshold of a tie is exact.
\<close>

section \<open>Frames\<close>





















section \<open>Keys\<close>



section \<open>Ambiguities stay in their sentence\<close>






section \<open>Properties\<close>


section \<open>Example\<close>


end
