(* ===== verification/Spec2Isabelle.thy ===== *)
theory Spec2Isabelle
  imports DagSession Resolver TypeInference PriorityQueue CreditFlow Ladder WasmIpc Batch Annotator OrthoBlob TokenizerText DocArray Lemmatizer Frames
begin

text \<open>
  \<^bold>\<open>The program.\<close>
  fluent-monorepo is a Rust workspace. Its core logic lies in a dependency graph with a capability resolver (\<open>dag\<close>),
  concurrency primitives that schedule work over that graph (\<open>fluent-concurrency\<close>), the session and snapshot state of
  a model router (\<open>router\<close>), a deterministic natural-language pipeline (\<open>spacy-rs\<close>) and the shared formats, registries
  and identifiers they stand on (\<open>common-core\<close>, \<open>types\<close>, \<open>concept\<close>, \<open>wasm_ipc\<close>). All paths below are relative to
  \<open>src/src/\<close>.

  \<^bold>\<open>How the parts interact.\<close>
  The dependency graph is the common foundation: the checkpointed step graph, the batch runner, the annotation gate and
  the concept taxonomy each keep one and ask it for dependents, readiness or a topological order. A router session
  keeps a step graph and a two-tier index of snapshots, which lies on the generic load cache. In the language pipeline
  a text becomes tokens (tokenizer over lexicon, string store and lexical attributes), tokens get tags (tagger over the
  orthography blob), sentences and heads (sentence splitter, transition parser), the result passes the gate and is
  attached to a document; documents are navigated, exported, lemmatized, resolved to concepts, and read for routing
  signals, triples and frames.

  \<^bold>\<open>Theories and the code they model.\<close>

  \<^item> \<open>Prelude\<close>: hash maps as association lists with the laws of a finite map (locale \<open>map_impl\<close>), errors as the left
    summand, early-return folds, decimal digits. \<open>Bytes\<close> and \<open>Blob\<close>: little-endian integers, separated lists, and the
    blob header and cursor of \<open>common-core/src/blob_spec.rs\<close>; locale \<open>field_codec\<close> is the contract of a field reader
    against its writer. \<open>Unicode\<close>: characters of UTF-8 byte strings.

  \<^item> \<open>Kahn\<close>, \<open>DepGraph\<close>: \<open>dag/src/dep_graph.rs\<close>. The two inverted indices are exact after any registrations and
    removals, \<open>dependents_of\<close> is reachability, \<open>topo_sort\<close> and \<open>topo_sort_from\<close> are total, sound and complete (locale
    \<open>topo_planner\<close>, also interpreted for the resolver), and executing an order stalls only at a node whose assets no other
    node provides.

  \<^item> \<open>Checkpointed\<close>: \<open>dag/src/checkpointed.rs\<close>; rewinding undoes exactly the steps from a checkpoint on. \<open>Targets\<close>:
    capability interner, target registry and yamake loader (\<open>common-core/src/interner.rs\<close>, \<open>dag/src/target.rs\<close>,
    \<open>yamake_loader.rs\<close>). \<open>Resolver\<close>: \<open>dag/src/resolver.rs\<close>, \<open>closure.rs\<close>, \<open>narrowing.rs\<close>; what a plan contains and when
    planning fails. \<open>TypeInference\<close>: \<open>dag/src/type_inference.rs\<close>; the bit-vector closure is reachability.

  \<^item> \<open>Cache\<close>, \<open>KvCache\<close>, \<open>Registry\<close>, \<open>Retry\<close>: \<open>common-core/src/cache.rs\<close>, \<open>router/src/kv_cache.rs\<close>,
    \<open>common-core/src/registry.rs\<close>, \<open>common-core/src/retry.rs\<close>. A retrieval returns what was stored last, a key is
    constructed once under every interleaving, the backoff delays are bounded and do not decrease, and retrying ends.

  \<^item> \<open>DagSession\<close>: \<open>router/src/dag_session.rs\<close>. An invariant of all reachable sessions, the effect of every operation
    on every branch (locale \<open>status_sweep\<close> for the two loops that rewrite statuses), and freshness of turn numbers.

  \<^item> \<open>PriorityQueue\<close>, \<open>CreditFlow\<close>, \<open>Ladder\<close>, \<open>Batch\<close>: \<open>fluent-concurrency/src/queue.rs\<close>, \<open>flow.rs\<close> with
    \<open>credit_pool.rs\<close>, \<open>ladder.rs\<close>, \<open>batch.rs\<close>. The queue refines a sorted list; its bounds, delivery and the reporting of
    tasks hold under every interleaving of the critical sections, which are the steps of inductive relations. Of the
    credit gate: no overlap of the workers' reports loses credit or starves the producers, while the limit on jobs in
    flight holds for one worker and can be exceeded by two.

  \<^item> \<open>WasmIpc\<close>: \<open>wasm_ipc/src/lib.rs\<close>; decoding inverts encoding on every buffer long enough and names the first
    failing check.

  \<^item> \<open>Hashing\<close>, \<open>LexAttrs\<close>, \<open>Attrs\<close>, \<open>Lexicon\<close>, \<open>Doc\<close>, \<open>Morph\<close>: \<open>hash.rs\<close>, \<open>strings.rs\<close>, \<open>lex_attrs.rs\<close>,
    \<open>attrs.rs\<close>, \<open>lexeme.rs\<close>, \<open>vocab.rs\<close>, \<open>doc.rs\<close> and \<open>morph.rs\<close> of \<open>spacy-rs/src\<close>. What the store, the lexicon and the
    morphology table return for a key they handed out; the canonical text of an analysis is idempotent and does not
    depend on the order of its features.

  \<^item> \<open>Tokenizer\<close>, \<open>TokenizerText\<close>: \<open>spacy-rs/src/tokenizer.rs\<close>. Both passes with special cases and the span cache;
    the tokens spell the text, and no error is returned over a regex engine whose searches
    never fail. \<open>Sentencizer\<close>: \<open>sentencizer.rs\<close>.

  \<^item> \<open>Labels\<close>, \<open>Ortho\<close>, \<open>OrthoBlob\<close>, \<open>Tagger\<close>, \<open>ArcEager\<close>, \<open>Forest\<close>, \<open>Parser\<close>, \<open>Validate\<close>, \<open>Annotator\<close>: \<open>labels.rs\<close>,
    \<open>ortho.rs\<close> with \<open>build.rs\<close>, \<open>arc_eager.rs\<close>, \<open>validate.rs\<close> and the rung of \<open>pipeline.rs\<close>. Locale \<open>head_function\<close>
    carries the theory of heads and subtrees; the parser yields one tree per sentence, the gate accepts exactly the
    annotations that meet rules stated without its algorithms, and the rung returns a parse that passes the gate
    for every document without whitespace tokens.

  \<^item> \<open>LemmaBlob\<close>, \<open>Lemmatizer\<close>: \<open>lemma_blob.rs\<close> with the encoder of \<open>build.rs\<close>, \<open>lemmatizer.rs\<close>. The loaded blob answers
    what the tables say, the lemmatizer agrees with a reference on every route to an answer, and its cache is
    transparent while the shared store grows, as long as the keys asked for are known.

  \<^item> \<open>DocTree\<close>, \<open>DocArray\<close>: the tree and array parts of \<open>doc.rs\<close> and \<open>attrs.rs\<close>. Rebuilding from heads, navigation,
    and export followed by import.

  \<^item> \<open>Interlingua\<close>, \<open>Concepts\<close>: \<open>types/src/interlingua.rs\<close>, \<open>concept/src/concept_store.rs\<close>, \<open>concept_store_mem.rs\<close> and
    \<open>spacy-rs/src/interlingua.rs\<close>; locale \<open>concept_store\<close> is the contract the resolver relies on. \<open>Signals\<close>, \<open>Frames\<close>:
    \<open>triple.rs\<close>, \<open>routing.rs\<close>, \<open>retrieval.rs\<close>, \<open>frame.rs\<close> of \<open>spacy-rs/src\<close> and \<open>concept/src/plausibility.rs\<close>.

  \<^bold>\<open>Conventions.\<close>
  Structures are records, enumerations datatypes. A Rust panic is \<open>None\<close>, an error \<open>Inl\<close>, a mutated receiver is returned.
  Strings are lists of bytes. Integers keep their width where the code wraps, shifts, masks or casts; positions and
  lengths are natural numbers, with documents of at most \<open>2 ^ 31\<close> tokens where a signed offset is stored.

  \<^bold>\<open>Parameters.\<close>
  Code outside the repository is an argument, with what is relied on as a named hypothesis that a witness instantiates:
  the LRU map (\<open>lru_ok\<close>), the iteration order of hash sets (\<open>iter_ok\<close>), the set of running tasks (\<open>join_ops_ok\<close>), the
  random draw (\<open>draw_ok\<close>), the regular expressions of the tokenizer (\<open>affixes_ok\<close>, \<open>patterns_ok\<close>), the Unicode tables,
  checksums and digests, BLAKE3, the clock, the answers of the fork service, the scoring callback and the floating-point
  mean. Where a store or a cache is keyed by a hash, the hypothesis is that the strings in play do not collide
  (\<open>hash_safe\<close>), which the code assumes silently.

  \<^bold>\<open>Loops.\<close>
  Loops are total recursive functions with a measure, or return an option whose \<open>None\<close> is excluded by a theorem:
  Kahn's algorithm and the closures decrease the edges or nodes left; \<open>parse_loop\<close> is bounded by twice the buffer plus
  the stack; \<open>settle\<close> runs at most twelve rounds because the code stops there, and the first round already computes
  the edges of a projective forest; \<open>subtree\<close> takes a depth, and the number of tokens suffices for every document
  whose heads form a forest; \<open>ti_loop\<close> ends because every round but the last sets a bit.

  \<^bold>\<open>Not modelled.\<close>
  HTTP services, SQL stores, model backends, file and process access, prompts and serialisation (calls into third-party
  code); the tables of language data (arguments here); floating-point scores, except where they are compared as rational
  margins or carried as the integers they are computed from; logging and metrics. The remaining crates are consumers of
  the modelled ones.
\<close>

end
